(* ===== verification/Js_Prelude.thy ===== *)
theory Js_Prelude
  imports Complex_Main "HOL-Library.AList" "HOL-Library.Multiset"
begin

text \<open>
  Shared vocabulary of the development: the JavaScript values and numbers the sources inspect at
  run time, exceptions as a sum type, the insertion-ordered \<^verbatim>\<open>Map\<close> of the language as an
  association list, and the generic lemmas on lists and sums the component theories use.

  Numbers. A finite JavaScript number is the rational it denotes; \<^verbatim>\<open>Infinity\<close> and \<^verbatim>\<open>NaN\<close> are
  separate values. Arithmetic is exact: on the integers the code manipulates (time stamps, counts,
  costs) this agrees with IEEE doubles as long as results stay within
  \<^verbatim>\<open>Number.MAX_SAFE_INTEGER\<close>; the rounding of fractional intermediate results is not modelled.
\<close>

section \<open>Rule collections\<close>

named_theorems inv_intro \<open>operations keep the invariant of their component\<close>
named_theorems frame_simps \<open>fields an operation leaves alone\<close>

section \<open>JavaScript values\<close>

datatype js_num = Fin rat | PosInf | NegInf | NaN

datatype js_val = Undefined | Null | Bool bool | Num js_num | Str string | Obj

definition MAX_SAFE_INTEGER :: int where
  "MAX_SAFE_INTEGER = 9007199254740991"

definition isFinite :: "js_num \<Rightarrow> bool" where
  "isFinite n = (case n of Fin _ \<Rightarrow> True | _ \<Rightarrow> False)"

definition is_integer :: "rat \<Rightarrow> bool" where
  "is_integer q \<longleftrightarrow> of_int \<lfloor>q\<rfloor> = q"

definition isSafeInteger :: "js_num \<Rightarrow> bool" where
  "isSafeInteger n =
     (case n of Fin q \<Rightarrow> is_integer q \<and> \<bar>q\<bar> \<le> of_int MAX_SAFE_INTEGER | _ \<Rightarrow> False)"

text \<open>The nullish coalescing operator \<^verbatim>\<open>v ?? d\<close>.\<close>

definition nullish :: "js_val \<Rightarrow> js_val \<Rightarrow> js_val" where
  "nullish v d = (case v of Undefined \<Rightarrow> d | Null \<Rightarrow> d | _ \<Rightarrow> v)"

abbreviation js_int :: "int \<Rightarrow> js_val" where
  "js_int i \<equiv> Num (Fin (of_int i))"

lemma is_integer_of_int [simp]: "is_integer (of_int i)"
  by (simp add: is_integer_def)

lemma is_integer_numeral [simp]: "is_integer (numeral n)" "is_integer 0" "is_integer 1"
  by (simp_all add: is_integer_def)

lemma isSafeInteger_of_int [simp]:
  "isSafeInteger (Fin (of_int i)) \<longleftrightarrow> \<bar>i\<bar> \<le> MAX_SAFE_INTEGER"
proof -
  have "\<bar>of_int i :: rat\<bar> = of_int \<bar>i\<bar>" by simp
  then show ?thesis unfolding isSafeInteger_def by (simp only: js_num.case of_int_le_iff is_integer_of_int simp_thms)
qed

lemma isSafeInteger_cases:
  assumes "isSafeInteger n"
  obtains i where "n = Fin (of_int i)" "\<bar>i\<bar> \<le> MAX_SAFE_INTEGER"
proof (cases n)
  case (Fin q)
  with assms have "is_integer q" by (simp add: isSafeInteger_def)
  then have q: "q = of_int \<lfloor>q\<rfloor>" unfolding is_integer_def by (rule sym)
  with assms Fin have "isSafeInteger (Fin (of_int \<lfloor>q\<rfloor>))" by simp
  then have "\<bar>\<lfloor>q\<rfloor>\<bar> \<le> MAX_SAFE_INTEGER" by (simp only: isSafeInteger_of_int)
  with Fin q that show thesis by blast
qed (use assms in \<open>simp_all add: isSafeInteger_def\<close>)

section \<open>Strings\<close>

text \<open>
  Strings are lists of 8-bit characters. \<^verbatim>\<open>trim\<close> removes white space and line terminators at both ends;
  \<^verbatim>\<open>toLowerCase\<close> is used on strings that are compared with ASCII literals only.
\<close>

definition is_space :: "char \<Rightarrow> bool" where
  "is_space ch \<longleftrightarrow> ch \<in> {CHR 0x09, CHR 0x0A, CHR 0x0B, CHR 0x0C, CHR 0x0D, CHR 0x20, CHR 0xA0}"

definition js_trim :: "string \<Rightarrow> string" where
  "js_trim s = rev (dropWhile is_space (rev (dropWhile is_space s)))"

lemma js_trim_Nil [simp]: "js_trim [] = []"
  by (simp add: js_trim_def)

lemma js_trim_ends: "js_trim s = [] \<or> \<not> is_space (hd (js_trim s)) \<and> \<not> is_space (last (js_trim s))"
proof (cases "js_trim s = []")
  case False
  define t where "t = dropWhile is_space s"
  have s: "js_trim s = rev (dropWhile is_space (rev t))" by (simp add: js_trim_def t_def)
  then have ne: "dropWhile is_space (rev t) \<noteq> []" using False by simp
  have "\<not> is_space (last (js_trim s))" using hd_dropWhile [OF ne] ne by (simp add: s last_rev)
  moreover have "\<exists>u. rev t = u @ dropWhile is_space (rev t)" using takeWhile_dropWhile_id [of is_space "rev t"] by metis
  then obtain u where "t = rev (dropWhile is_space (rev t)) @ rev u" by (metis rev_append rev_rev_ident)
  then have "hd t = hd (js_trim s)" using False s by (metis hd_append2)
  moreover have "t \<noteq> []" using ne by auto
  then have "\<not> is_space (hd t)" unfolding t_def by (rule hd_dropWhile)
  ultimately show ?thesis by simp
qed simp

lemma js_trim_fix: "s \<noteq> [] \<Longrightarrow> \<not> is_space (hd s) \<Longrightarrow> \<not> is_space (last s) \<Longrightarrow> js_trim s = s"
proof -
  assume a: "s \<noteq> []" "\<not> is_space (hd s)" "\<not> is_space (last s)"
  then have "dropWhile is_space s = s" "dropWhile is_space (rev s) = rev s" by (simp_all add: dropWhile_eq_self_iff hd_rev)
  then show ?thesis by (simp add: js_trim_def)
qed

lemma js_trim_idem [simp]: "js_trim (js_trim s) = js_trim s"
  using js_trim_ends [of s] js_trim_fix [of "js_trim s"] by (cases "js_trim s = []") auto

text \<open>\<^verbatim>\<open>xs.join(sep)\<close>.\<close>

fun js_join :: "string \<Rightarrow> string list \<Rightarrow> string" where
  "js_join sep [] = []"
| "js_join sep [x] = x"
| "js_join sep (x # y # ys) = x @ sep @ js_join sep (y # ys)"

definition to_lower :: "char \<Rightarrow> char" where
  "to_lower ch = (let n = of_char ch :: nat in if 65 \<le> n \<and> n \<le> 90 then char_of (n + 32) else ch)"

definition toLowerCase :: "string \<Rightarrow> string" where
  "toLowerCase s = map to_lower s"

text \<open>\<^verbatim>\<open>s.includes(p)\<close>, and what it decides.\<close>

fun has_infix :: "string \<Rightarrow> string \<Rightarrow> bool" where
  "has_infix p [] \<longleftrightarrow> p = []"
| "has_infix p (c # cs) \<longleftrightarrow> take (length p) (c # cs) = p \<or> has_infix p cs"

lemma has_infix_iff: "has_infix p s \<longleftrightarrow> (\<exists>a b. s = a @ p @ b)"
proof (induction s)
  case (Cons c cs)
  have "take (length p) (c # cs) = p \<longleftrightarrow> (\<exists>b. c # cs = p @ b)"
    by (metis append_eq_conv_conj append_take_drop_id)
  moreover have "(\<exists>a b. c # cs = a @ p @ b) \<longleftrightarrow> (\<exists>b. c # cs = p @ b) \<or> (\<exists>a b. cs = a @ p @ b)"
  proof
    assume "\<exists>a b. c # cs = a @ p @ b"
    then obtain a b where ab: "c # cs = a @ p @ b" by blast
    then show "(\<exists>b. c # cs = p @ b) \<or> (\<exists>a b. cs = a @ p @ b)" by (cases a) auto
  qed (metis append_Cons append_Nil)
  ultimately show ?case using Cons.IH by simp
qed simp

text \<open>Decimal digits; \<^verbatim>\<open>parseInt(s, 10)\<close> reads an optional sign and the digits at the start, \<open>None\<close> is \<^verbatim>\<open>NaN\<close>.\<close>

definition is_digit :: "char \<Rightarrow> bool" where
  "is_digit ch \<longleftrightarrow> (let n = of_char ch :: nat in 48 \<le> n \<and> n \<le> 57)"

definition digits_value :: "string \<Rightarrow> int" where
  "digits_value s = foldl (\<lambda>n ch. 10 * n + (of_char ch - 48)) 0 s"

definition parseInt10 :: "string \<Rightarrow> int option" where
  "parseInt10 s =
     (let t = dropWhile is_space s;
          neg = (t \<noteq> [] \<and> hd t = CHR ''-'');
          u = (if t \<noteq> [] \<and> hd t \<in> {CHR ''-'', CHR ''+''} then tl t else t);
          ds = takeWhile is_digit u
      in if ds = [] then None else Some (if neg then - digits_value ds else digits_value ds))"

text \<open>\<^verbatim>\<open>String(n)\<close> of a natural number.\<close>

fun dec :: "nat \<Rightarrow> string" where
  "dec n = (if n < 10 then [char_of (48 + n)] else dec (n div 10) @ [char_of (48 + n mod 10)])"

declare dec.simps [simp del]

lemma digits_value_snoc: "digits_value (s @ [ch]) = 10 * digits_value s + (of_char ch - 48)"
  by (simp add: digits_value_def)

lemma digit_char: "n < 10 \<Longrightarrow> is_digit (char_of (48 + n))" "n < 10 \<Longrightarrow> (of_char (char_of (48 + n)) :: int) = 48 + int n"
proof -
  assume "n < 10"
  then have c: "(of_char (char_of (48 + n)) :: nat) = 48 + n" by (simp add: of_char_of take_bit_eq_mod)
  then show "is_digit (char_of (48 + n))" using \<open>n < 10\<close> by (simp add: is_digit_def)
next
  assume "n < 10"
  then have "(of_char (char_of (48 + n)) :: nat) = 48 + n" by (simp add: of_char_of take_bit_eq_mod)
  then have "int (of_char (char_of (48 + n))) = 48 + int n" by simp
  then show "(of_char (char_of (48 + n)) :: int) = 48 + int n" by (simp only: of_nat_of_char)
qed

lemma dec_spec: "list_all is_digit (dec n) \<and> dec n \<noteq> [] \<and> digits_value (dec n) = int n"
proof (induction n rule: dec.induct)
  case (1 n)
  show ?case
  proof (cases "n < 10")
    case True
    then show ?thesis by (simp add: dec.simps [of n] digit_char digits_value_def)
  next
    case False
    have "digits_value (dec n) = 10 * int (n div 10) + int (n mod 10)"
      using 1 False by (simp add: dec.simps [of n] digits_value_snoc digit_char)
    also have "\<dots> = int n" by (metis mult_div_mod_eq of_nat_add of_nat_mult of_nat_numeral)
    finally have "digits_value (dec n) = int n" .
    then show ?thesis using 1 False by (simp add: dec.simps [of n] digit_char)
  qed
qed

lemma digit_char_class: "is_digit ch \<Longrightarrow> \<not> is_space ch \<and> ch \<notin> {CHR ''-'', CHR ''+'', CHR ''.'', CHR ''/'', CHR '':'', CHR ''*''}"
  by (auto simp: is_digit_def is_space_def)

lemma parseInt10_digits:
  assumes "list_all is_digit ds" "ds \<noteq> []" shows "parseInt10 ds = Some (digits_value ds)"
proof -
  obtain x xs where ds: "ds = x # xs" using assms(2) by (cases ds) auto
  have t: "takeWhile is_digit (x # xs) = x # xs" using assms(1) unfolding takeWhile_eq_all_conv by (simp add: ds list_all_iff)
  have x: "\<not> is_space x" "x \<notin> {CHR ''-'', CHR ''+''}" using assms(1) digit_char_class [of x] by (auto simp: ds)
  show ?thesis unfolding ds parseInt10_def using x by (simp add: t Let_def del: takeWhile.simps)
qed

lemma parseInt10_dec [simp]: "parseInt10 (dec n) = Some (int n)"
  using dec_spec [of n] parseInt10_digits by simp

lemma dec_chars: "ch \<in> set (dec n) \<Longrightarrow> ch \<notin> {CHR ''.'', CHR ''/'', CHR '':'', CHR ''*''}"
  using dec_spec [of n] digit_char_class [of ch] by (auto simp: list_all_iff)

lemma dec_no [simp]: "CHR ''.'' \<notin> set (dec n)" "CHR ''/'' \<notin> set (dec n)"
  using dec_chars by blast+

text \<open>\<^verbatim>\<open>s.split(c)\<close> for a separator of one character.\<close>

fun js_split :: "char \<Rightarrow> string \<Rightarrow> string list" where
  "js_split c [] = [[]]"
| "js_split c (x # xs) = (if x = c then [] # js_split c xs else (x # hd (js_split c xs)) # tl (js_split c xs))"

lemma js_split_no: "c \<notin> set s \<Longrightarrow> js_split c s = [s]"
  by (induction s) auto

lemma js_split_append: "c \<notin> set s \<Longrightarrow> js_split c (s @ c # t) = s # js_split c t"
  by (induction s) auto

section \<open>Exceptions\<close>

definition sum_bind :: "'e + 'a \<Rightarrow> ('a \<Rightarrow> 'e + 'b) \<Rightarrow> 'e + 'b" where
  "sum_bind m f = (case m of Inl e \<Rightarrow> Inl e | Inr x \<Rightarrow> f x)"

lemma sum_bind_simps [simp]:
  "sum_bind (Inl e) f = Inl e"
  "sum_bind (Inr x) f = f x"
  by (simp_all add: sum_bind_def)

lemma sum_bind_eq_Inr [simp]: "sum_bind m f = Inr y \<longleftrightarrow> (\<exists>x. m = Inr x \<and> f x = Inr y)"
  by (cases m) simp_all

section \<open>The insertion-ordered Map\<close>

text \<open>
  A JavaScript \<^verbatim>\<open>Map\<close> iterates its keys in the order of first insertion; setting a key that is
  present keeps its place. An association list with the library's \<^verbatim>\<open>AList.update\<close> (in place, or
  appended) and \<^verbatim>\<open>AList.delete\<close> behaves that way.
\<close>

type_synonym ('k, 'v) jmap = "('k \<times> 'v) list"

definition jget :: "('k, 'v) jmap \<Rightarrow> 'k \<Rightarrow> 'v option" where
  "jget m k = map_of m k"

definition jset :: "'k \<Rightarrow> 'v \<Rightarrow> ('k, 'v) jmap \<Rightarrow> ('k, 'v) jmap" where
  "jset k v m = AList.update k v m"

definition jdel :: "'k \<Rightarrow> ('k, 'v) jmap \<Rightarrow> ('k, 'v) jmap" where
  "jdel k m = AList.delete k m"

definition jhas :: "('k, 'v) jmap \<Rightarrow> 'k \<Rightarrow> bool" where
  "jhas m k \<longleftrightarrow> jget m k \<noteq> None"

abbreviation jkeys :: "('k, 'v) jmap \<Rightarrow> 'k list" where
  "jkeys m \<equiv> map fst m"

definition jmap_ok :: "('k, 'v) jmap \<Rightarrow> bool" where
  "jmap_ok m \<longleftrightarrow> distinct (jkeys m)"

lemma jget_Nil [simp]: "jget [] k = None"
  by (simp add: jget_def)

lemma jget_Cons [simp]: "jget ((k', v) # m) k = (if k = k' then Some v else jget m k)"
  by (simp add: jget_def)

lemma jget_jset [simp]: "jget (jset k v m) k' = (if k' = k then Some v else jget m k')"
  by (simp add: jget_def jset_def update_conv')

lemma jget_jdel [simp]: "jget (jdel k m) k' = (if k' = k then None else jget m k')"
  by (simp add: jget_def jdel_def delete_conv')

lemma jget_append: "jget (m @ m') k = (case jget m k of None \<Rightarrow> jget m' k | Some v \<Rightarrow> Some v)"
  by (induction m) auto

lemma jget_in_keys: "jget m k \<noteq> None \<longleftrightarrow> k \<in> set (jkeys m)"
  by (simp add: jget_def map_of_eq_None_iff)

lemma jget_None: "jget m k = None \<longleftrightarrow> k \<notin> set (jkeys m)"
  using jget_in_keys [of m k] by blast

lemma jget_SomeD: "jget m k = Some v \<Longrightarrow> (k, v) \<in> set m"
  by (simp add: jget_def map_of_SomeD)

lemma jget_mem: "jmap_ok m \<Longrightarrow> (k, v) \<in> set m \<Longrightarrow> jget m k = Some v"
  by (simp add: jget_def jmap_ok_def)

lemma jhas_iff [simp]: "jhas m k \<longleftrightarrow> k \<in> set (jkeys m)"
  unfolding jhas_def by (rule jget_in_keys)

lemma jkeys_jset: "jkeys (jset k v m) = (if k \<in> set (jkeys m) then jkeys m else jkeys m @ [k])"
  by (simp add: jset_def update_keys)

lemma set_jkeys_jset [simp]: "set (jkeys (jset k v m)) = insert k (set (jkeys m))"
  by (auto simp: jkeys_jset)

lemma jkeys_jdel: "jkeys (jdel k m) = filter (\<lambda>x. x \<noteq> k) (jkeys m)"
  by (induction m) (auto simp: jdel_def)

lemma set_jkeys_jdel [simp]: "set (jkeys (jdel k m)) = set (jkeys m) - {k}"
  by (auto simp: jkeys_jdel)

lemma fst_set_jset [simp]: "fst ` set (jset k v m) = insert k (fst ` set m)"
  using set_jkeys_jset [of k v m] by (simp only: set_map)

lemma fst_set_jdel [simp]: "fst ` set (jdel k m) = fst ` set m - {k}"
  using set_jkeys_jdel [of k m] by (simp only: set_map)

lemma jmap_ok_Nil [simp]: "jmap_ok []"
  by (simp add: jmap_ok_def)

lemma jmap_ok_jset [simp, inv_intro]: "jmap_ok m \<Longrightarrow> jmap_ok (jset k v m)"
  by (simp add: jmap_ok_def jset_def distinct_update)

lemma jmap_ok_jdel [simp, inv_intro]: "jmap_ok m \<Longrightarrow> jmap_ok (jdel k m)"
  by (simp add: jmap_ok_def jdel_def distinct_delete)

lemma jset_append: "k \<notin> set (jkeys m) \<Longrightarrow> jset k v m = m @ [(k, v)]"
  by (induction m) (auto simp: jset_def)

lemma jset_hit: "jset k v (a @ (k, w) # b) = (if k \<in> set (jkeys a) then jset k v a @ (k, w) # b else a @ (k, v) # b)"
  by (induction a) (auto simp: jset_def)

lemma jdel_split: "k \<notin> set (jkeys a) \<Longrightarrow> k \<notin> set (jkeys b) \<Longrightarrow> jdel k (a @ (k, w) # b) = a @ b"
  unfolding jdel_def by (induction a) (auto simp: delete_id)

lemma jget_split:
  assumes "jget m k = Some v"
  obtains a b where "m = a @ (k, v) # b" "k \<notin> set (jkeys a)"
  using assms
proof (induction m arbitrary: thesis)
  case (Cons p m)
  obtain k' w where p: "p = (k', w)" by force
  show ?case
  proof (cases "k = k'")
    case True
    with Cons.prems p have "p # m = [] @ (k, v) # m" by simp
    then show ?thesis using Cons.prems(1) by (metis empty_iff list.set(1) list.simps(8))
  next
    case False
    with Cons.prems p have "jget m k = Some v" by simp
    then obtain a b where "m = a @ (k, v) # b" "k \<notin> set (jkeys a)" using Cons.IH by blast
    with False p show ?thesis using Cons.prems(1) [of "p # a" b] by simp
  qed
qed simp

text \<open>The interface the components use a map through, and the laws they rely on.\<close>

locale js_map =
  fixes get :: "'m \<Rightarrow> 'k \<Rightarrow> 'v option"
    and put :: "'k \<Rightarrow> 'v \<Rightarrow> 'm \<Rightarrow> 'm"
    and del :: "'k \<Rightarrow> 'm \<Rightarrow> 'm"
    and keys :: "'m \<Rightarrow> 'k list"
    and ok :: "'m \<Rightarrow> bool"
  assumes get_put: "get (put k v m) k' = (if k' = k then Some v else get m k')"
    and get_del: "get (del k m) k' = (if k' = k then None else get m k')"
    and keys_get: "k \<in> set (keys m) \<longleftrightarrow> get m k \<noteq> None"
    and keys_distinct: "ok m \<Longrightarrow> distinct (keys m)"
    and ok_put: "ok m \<Longrightarrow> ok (put k v m)"
    and ok_del: "ok m \<Longrightarrow> ok (del k m)"
begin

lemma size_put:
  assumes "ok m"
  shows "length (keys (put k v m)) = (if get m k = None then Suc (length (keys m)) else length (keys m))"
proof -
  have "set (keys (put k v m)) = insert k (set (keys m))"
    by (auto simp: keys_get get_put split: if_splits)
  moreover have "length (keys (put k v m)) = card (set (keys (put k v m)))"
    using assms by (simp add: distinct_card keys_distinct ok_put)
  moreover have "length (keys m) = card (set (keys m))"
    using assms by (simp add: distinct_card keys_distinct)
  ultimately show ?thesis by (auto simp: card_insert_if keys_get)
qed

lemma size_del:
  assumes "ok m" "get m k \<noteq> None"
  shows "Suc (length (keys (del k m))) = length (keys m)"
proof -
  have "set (keys (del k m)) = set (keys m) - {k}"
    by (auto simp: keys_get get_del split: if_splits)
  moreover have "length (keys (del k m)) = card (set (keys (del k m)))"
    using assms by (simp add: distinct_card keys_distinct ok_del)
  moreover have "length (keys m) = card (set (keys m))"
    using assms by (simp add: distinct_card keys_distinct)
  moreover have "k \<in> set (keys m)" using assms(2) by (simp add: keys_get)
  ultimately show ?thesis by (metis List.finite_set card.remove)
qed

end

interpretation jm: js_map jget jset jdel jkeys jmap_ok
  by unfold_locales (simp_all only: jget_jset jget_jdel jget_in_keys jmap_ok_jset jmap_ok_jdel, simp add: jmap_ok_def)

section \<open>Lists\<close>

lemma sum_list_nonneg_int: "(\<And>x. x \<in> set xs \<Longrightarrow> 0 \<le> f x) \<Longrightarrow> 0 \<le> sum_list (map f xs)" for f :: "'a \<Rightarrow> int"
  by (induction xs) auto

lemma member_le_sum_list_int:
  "x \<in> set xs \<Longrightarrow> (\<And>y. y \<in> set xs \<Longrightarrow> 0 \<le> f y) \<Longrightarrow> f x \<le> sum_list (map f xs)" for f :: "'a \<Rightarrow> int"
proof (induction xs)
  case (Cons y ys)
  show ?case
  proof (cases "x = y")
    case True
    with Cons.prems show ?thesis using sum_list_nonneg_int [of ys f] by simp
  next
    case False
    with Cons have "f x \<le> sum_list (map f ys)" "0 \<le> f y" by auto
    then show ?thesis by simp
  qed
qed simp

lemma div_less_imp_less_mult: "0 < b \<Longrightarrow> a div b < c \<Longrightarrow> a < c * b" for a b c :: int
proof -
  assume b: "0 < b" and lt: "a div b < c"
  have "a = b * (a div b) + a mod b" by simp
  also have "\<dots> < b * (a div b) + b" using b by (simp only: add_less_cancel_left pos_mod_bound)
  also have "\<dots> = b * (a div b + 1)" by (simp add: distrib_left)
  also have "\<dots> \<le> b * c" using b lt by (intro mult_left_mono) auto
  finally show ?thesis by (simp add: mult.commute)
qed

text \<open>\<^verbatim>\<open>Array.prototype.findIndex\<close>, with \<open>None\<close> for \<open>-1\<close>, and removal of one position by \<^verbatim>\<open>splice\<close>.\<close>

fun findIndex :: "('a \<Rightarrow> bool) \<Rightarrow> 'a list \<Rightarrow> nat option" where
  "findIndex P [] = None"
| "findIndex P (x # xs) = (if P x then Some 0 else map_option Suc (findIndex P xs))"

definition splice_out :: "nat \<Rightarrow> 'a list \<Rightarrow> 'a list" where
  "splice_out i xs = take i xs @ drop (Suc i) xs"

lemma findIndex_Some:
  "findIndex P xs = Some i \<Longrightarrow> i < length xs \<and> P (xs ! i) \<and> (\<forall>j < i. \<not> P (xs ! j))"
proof (induction xs arbitrary: i)
  case (Cons x xs)
  then show ?case by (auto split: if_splits simp: nth_Cons split: nat.splits)
qed simp

lemma findIndex_None: "findIndex P xs = None \<longleftrightarrow> (\<forall>x \<in> set xs. \<not> P x)"
  by (induction xs) auto

lemma splice_out_append [simp]: "length a = i \<Longrightarrow> splice_out i (a @ x # b) = a @ b"
  by (simp add: splice_out_def)

lemma nth_split: "i < length xs \<Longrightarrow> xs = take i xs @ xs ! i # drop (Suc i) xs"
  by (rule id_take_nth_drop)

lemma length_splice_out: "i < length xs \<Longrightarrow> Suc (length (splice_out i xs)) = length xs"
  by (simp add: splice_out_def)

lemma mset_splice_out: "i < length xs \<Longrightarrow> add_mset (xs ! i) (mset (splice_out i xs)) = mset xs"
proof -
  assume i: "i < length xs"
  have "mset xs = mset (take i xs @ xs ! i # drop (Suc i) xs)" using nth_split [OF i] by simp
  then show ?thesis by (simp add: splice_out_def)
qed

lemma set_splice_out: "set (splice_out i xs) \<subseteq> set xs"
  by (auto simp: splice_out_def dest: in_set_takeD in_set_dropD)

text \<open>Moving items between two pairs of multisets.\<close>

lemma mset_exchange:
  fixes A I L Q S T :: "'a multiset"
  assumes "A + I = L + Q" "Q + T = I + S"
  shows "A + T = L + S"
proof -
  have "(A + T) + (I + Q) = (A + I) + (Q + T)" by (simp add: ac_simps)
  also have "\<dots> = (L + S) + (I + Q)" unfolding assms by (simp add: ac_simps)
  finally show ?thesis by simp
qed

lemma set_jdel_subset: "set (jdel k m) \<subseteq> set m"
  unfolding jdel_def by (induction m) auto

lemma length_jdel: "(k, v) \<in> set m \<Longrightarrow> length (jdel k m) < length m"
  unfolding jdel_def AList.delete_eq by (rule length_filter_less) auto

lemma jget_filter:
  assumes "jmap_ok m" shows "jget (filter (\<lambda>(k, e). P k e) m) k = (case jget m k of Some e \<Rightarrow> if P k e then Some e else None | None \<Rightarrow> None)"
  using assms
proof (induction m)
  case (Cons p m)
  obtain a e where p: "p = (a, e)" by fastforce
  have "jmap_ok m" using Cons.prems by (simp add: jmap_ok_def)
  note IH = Cons.IH [OF this]
  have "jget m a = None" using Cons.prems p by (simp add: jmap_ok_def jget_None)
  moreover have "jget (filter (\<lambda>(k, e). P k e) m) a = None" using calculation by (auto simp: jget_None)
  ultimately show ?case using IH by (cases "k = a") (simp_all add: p)
qed simp

lemma jmap_ok_filter: "jmap_ok m \<Longrightarrow> jmap_ok (filter P m)"
  by (simp add: jmap_ok_def distinct_map_filter)

end
