(* ===== verification/Admission_Cost.thy ===== *)
theory Admission_Cost
  imports Js_Prelude
begin

text \<open>
  Admission control, part one: the vocabulary of \<^verbatim>\<open>open-sse/services/admission/types.ts\<close>, the cost
  estimator of \<^verbatim>\<open>cost.ts\<close> and the configuration validator of \<^verbatim>\<open>config.ts\<close>. Fields that the code
  checks at run time arrive as arbitrary JavaScript values; a thrown \<^verbatim>\<open>RangeError\<close> is the left
  summand of the result.
\<close>

section \<open>Types (types.ts)\<close>

definition MAX_ADMISSION_WINDOW_MS :: int where
  "MAX_ADMISSION_WINDOW_MS = 86400000"

definition MAX_ADMISSION_COST_OR_LIMIT :: int where
  "MAX_ADMISSION_COST_OR_LIMIT = MAX_SAFE_INTEGER div MAX_ADMISSION_WINDOW_MS"

datatype admission_mode = ModeOff | Shadow | Enforce

datatype admission_pressure = PNormal | PHigh | PCritical

datatype release_outcome = Success | Upstream_error | Timeout | Local_reject | Cancelled

datatype reject_code =
    ADMISSION_OVERSIZED | ADMISSION_QUEUE_FULL | ADMISSION_DEADLINE | ADMISSION_ABORTED
  | ADMISSION_LANE_EVICTED | ADMISSION_SHUTDOWN | ADMISSION_UNAVAILABLE

datatype shadow_decision = Would_admit | Would_queue | Would_reject

record cost_features =
  bodyBytes :: js_val
  estimatedInputTokens :: js_val
  messageCount :: js_val
  toolCount :: js_val
  requestedFanout :: js_val
  streaming :: js_val

record cost_config =
  baseCost :: int
  bodyBytesPerUnit :: int
  tokensPerUnit :: int
  messagesPerUnit :: int
  toolsPerUnit :: int
  fanoutPerUnit :: int
  streamingClassCost :: int
  nonStreamingClassCost :: int
  maxRequestCost :: int

text \<open>\<^verbatim>\<open>Partial<AdmissionCostConfig>\<close>: a missing key reads as \<open>Undefined\<close>.\<close>

record cost_partial =
  p_baseCost :: js_val
  p_bodyBytesPerUnit :: js_val
  p_tokensPerUnit :: js_val
  p_messagesPerUnit :: js_val
  p_toolsPerUnit :: js_val
  p_fanoutPerUnit :: js_val
  p_streamingClassCost :: js_val
  p_nonStreamingClassCost :: js_val
  p_maxRequestCost :: js_val

text \<open>The messages of the range errors the two validators throw, with the name of the field.\<close>

datatype range_error =
    Not_positive_safe_integer string
  | Exceeds_max string int
  | Not_in_half_open_unit string
  | Not_in_open_unit string
  | Bad_mode
  | Min_above_max
  | Critical_above_decrease
  | Low_not_below_high
  | Short_not_above_long

section \<open>Cost estimation (cost.ts)\<close>

definition DEFAULT_ADMISSION_COST_CONFIG :: cost_config where
  "DEFAULT_ADMISSION_COST_CONFIG =
     \<lparr>baseCost = 1, bodyBytesPerUnit = 16384, tokensPerUnit = 1024, messagesPerUnit = 32,
      toolsPerUnit = 8, fanoutPerUnit = 1, streamingClassCost = 1, nonStreamingClassCost = 2,
      maxRequestCost = 1000\<rparr>"

definition finiteNonNegative :: "js_val \<Rightarrow> rat" where
  "finiteNonNegative value =
     (case value of
        Num (Fin q) \<Rightarrow> if q < 0 then 0 else min q (of_int MAX_SAFE_INTEGER)
      | _ \<Rightarrow> 0)"

definition requirePositiveSafeInteger :: "string \<Rightarrow> js_val \<Rightarrow> int \<Rightarrow> range_error + int" where
  "requirePositiveSafeInteger name value mx =
     (case value of
        Num (Fin q) \<Rightarrow>
          if \<not> isSafeInteger (Fin q) \<or> q \<le> 0 then Inl (Not_positive_safe_integer name)
          else if q > of_int mx then Inl (Exceeds_max name mx)
          else Inr \<lfloor>q\<rfloor>
      | _ \<Rightarrow> Inl (Not_positive_safe_integer name))"

definition resolve_key :: "string \<Rightarrow> js_val \<Rightarrow> int \<Rightarrow> range_error + int" where
  "resolve_key name v d =
     requirePositiveSafeInteger name (nullish v (js_int d)) MAX_ADMISSION_COST_OR_LIMIT"

definition resolveCostConfig :: "cost_partial \<Rightarrow> range_error + cost_config" where
  "resolveCostConfig p =
     (let d = DEFAULT_ADMISSION_COST_CONFIG in
      sum_bind (resolve_key ''baseCost'' (p_baseCost p) (baseCost d)) (\<lambda>c1.
      sum_bind (resolve_key ''bodyBytesPerUnit'' (p_bodyBytesPerUnit p) (bodyBytesPerUnit d)) (\<lambda>c2.
      sum_bind (resolve_key ''tokensPerUnit'' (p_tokensPerUnit p) (tokensPerUnit d)) (\<lambda>c3.
      sum_bind (resolve_key ''messagesPerUnit'' (p_messagesPerUnit p) (messagesPerUnit d)) (\<lambda>c4.
      sum_bind (resolve_key ''toolsPerUnit'' (p_toolsPerUnit p) (toolsPerUnit d)) (\<lambda>c5.
      sum_bind (resolve_key ''fanoutPerUnit'' (p_fanoutPerUnit p) (fanoutPerUnit d)) (\<lambda>c6.
      sum_bind (resolve_key ''streamingClassCost'' (p_streamingClassCost p) (streamingClassCost d)) (\<lambda>c7.
      sum_bind (resolve_key ''nonStreamingClassCost'' (p_nonStreamingClassCost p) (nonStreamingClassCost d)) (\<lambda>c8.
      sum_bind (resolve_key ''maxRequestCost'' (p_maxRequestCost p) (maxRequestCost d)) (\<lambda>c9.
      Inr \<lparr>baseCost = c1, bodyBytesPerUnit = c2, tokensPerUnit = c3, messagesPerUnit = c4,
           toolsPerUnit = c5, fanoutPerUnit = c6, streamingClassCost = c7,
           nonStreamingClassCost = c8, maxRequestCost = c9\<rparr>))))))))))"

definition unitsFrom :: "rat \<Rightarrow> int \<Rightarrow> int" where
  "unitsFrom amount quantum = (if amount \<le> 0 then 0 else \<lceil>amount / of_int quantum\<rceil>)"

definition addBounded :: "int \<Rightarrow> int \<Rightarrow> int \<Rightarrow> int" where
  "addBounded tot contribution maximum =
     (if contribution \<ge> maximum - tot then maximum else tot + contribution)"

text \<open>The contributions of one request, in the order of the array literal.\<close>

definition contributions :: "cost_features \<Rightarrow> cost_config \<Rightarrow> int list" where
  "contributions f cfg =
     [unitsFrom (finiteNonNegative (bodyBytes f)) (bodyBytesPerUnit cfg),
      unitsFrom (finiteNonNegative (estimatedInputTokens f)) (tokensPerUnit cfg),
      unitsFrom (finiteNonNegative (messageCount f)) (messagesPerUnit cfg),
      unitsFrom (finiteNonNegative (toolCount f)) (toolsPerUnit cfg),
      unitsFrom (max 1 (finiteNonNegative (requestedFanout f))) (fanoutPerUnit cfg),
      (if streaming f \<noteq> Bool False then streamingClassCost cfg else nonStreamingClassCost cfg)]"

text \<open>The accumulation loop: it breaks as soon as the maximum is reached.\<close>

fun accumulate :: "int \<Rightarrow> int \<Rightarrow> int list \<Rightarrow> int" where
  "accumulate mx tot [] = tot"
| "accumulate mx tot (c # cs) =
     (let t = addBounded tot c mx in if t = mx then t else accumulate mx t cs)"

definition estimateAdmissionCost :: "cost_features \<Rightarrow> cost_partial \<Rightarrow> range_error + int" where
  "estimateAdmissionCost f p =
     sum_bind (resolveCostConfig p) (\<lambda>cfg.
       Inr (accumulate (maxRequestCost cfg) (min (baseCost cfg) (maxRequestCost cfg))
              (contributions f cfg)))"

definition normalizeRequestCost :: "js_val \<Rightarrow> js_val \<Rightarrow> range_error + int" where
  "normalizeRequestCost cst maxCost =
     sum_bind (requirePositiveSafeInteger ''maxRequestCost'' maxCost MAX_ADMISSION_COST_OR_LIMIT) (\<lambda>mx.
     sum_bind (requirePositiveSafeInteger ''request cost'' cst MAX_ADMISSION_COST_OR_LIMIT) (\<lambda>v.
     Inr (min v mx)))"

subsection \<open>Facts about the estimator\<close>

lemma MAX_SAFE_INTEGER_pos [simp]: "0 < MAX_SAFE_INTEGER" "0 \<le> MAX_SAFE_INTEGER" "MAX_SAFE_INTEGER \<noteq> 0"
  by (simp_all add: MAX_SAFE_INTEGER_def)

lemma MAX_ADMISSION_COST_OR_LIMIT_value: "MAX_ADMISSION_COST_OR_LIMIT = 104249991"
  by (simp add: MAX_ADMISSION_COST_OR_LIMIT_def MAX_SAFE_INTEGER_def MAX_ADMISSION_WINDOW_MS_def)

lemma limit_le_safe: "MAX_ADMISSION_COST_OR_LIMIT \<le> MAX_SAFE_INTEGER"
  by (simp add: MAX_ADMISSION_COST_OR_LIMIT_value MAX_SAFE_INTEGER_def)

lemma requirePositiveSafeInteger_Inr:
  "requirePositiveSafeInteger name v mx = Inr i \<longleftrightarrow>
     v = js_int i \<and> 0 < i \<and> i \<le> mx \<and> i \<le> MAX_SAFE_INTEGER"
proof
  assume r: "requirePositiveSafeInteger name v mx = Inr i"
  then obtain q where v: "v = Num (Fin q)" and s: "isSafeInteger (Fin q)" and q: "0 < q" "q \<le> of_int mx"
    and i: "i = \<lfloor>q\<rfloor>"
    by (auto simp: requirePositiveSafeInteger_def split: js_val.splits js_num.splits if_splits)
  from s obtain j where j: "q = of_int j" "\<bar>j\<bar> \<le> MAX_SAFE_INTEGER"
    by (elim isSafeInteger_cases) simp
  with v q i show "v = js_int i \<and> 0 < i \<and> i \<le> mx \<and> i \<le> MAX_SAFE_INTEGER" by simp
next
  assume a: "v = js_int i \<and> 0 < i \<and> i \<le> mx \<and> i \<le> MAX_SAFE_INTEGER"
  then have "isSafeInteger (Fin (of_int i))" unfolding isSafeInteger_of_int by linarith
  with a show "requirePositiveSafeInteger name v mx = Inr i"
    by (simp add: requirePositiveSafeInteger_def)
qed

definition cost_config_ok :: "cost_config \<Rightarrow> bool" where
  "cost_config_ok c \<longleftrightarrow>
     (\<forall>x \<in> set [baseCost c, bodyBytesPerUnit c, tokensPerUnit c, messagesPerUnit c, toolsPerUnit c,
        fanoutPerUnit c, streamingClassCost c, nonStreamingClassCost c, maxRequestCost c].
        0 < x \<and> x \<le> MAX_ADMISSION_COST_OR_LIMIT)"

text \<open>Reading a validated configuration back as the partial input of a later call.\<close>

definition cost_partial_of :: "cost_config \<Rightarrow> cost_partial" where
  "cost_partial_of c =
     \<lparr>p_baseCost = js_int (baseCost c), p_bodyBytesPerUnit = js_int (bodyBytesPerUnit c),
      p_tokensPerUnit = js_int (tokensPerUnit c), p_messagesPerUnit = js_int (messagesPerUnit c),
      p_toolsPerUnit = js_int (toolsPerUnit c), p_fanoutPerUnit = js_int (fanoutPerUnit c),
      p_streamingClassCost = js_int (streamingClassCost c),
      p_nonStreamingClassCost = js_int (nonStreamingClassCost c),
      p_maxRequestCost = js_int (maxRequestCost c)\<rparr>"

lemma resolve_key_range:
  "resolve_key name v d = Inr i \<Longrightarrow> 0 < i \<and> i \<le> MAX_ADMISSION_COST_OR_LIMIT"
  by (simp add: resolve_key_def requirePositiveSafeInteger_Inr)

lemma resolve_key_js_int:
  "0 < i \<Longrightarrow> i \<le> MAX_ADMISSION_COST_OR_LIMIT \<Longrightarrow> resolve_key name (js_int i) d = Inr i"
  using limit_le_safe by (simp add: resolve_key_def nullish_def requirePositiveSafeInteger_Inr)

lemma resolveCostConfig_ok: "resolveCostConfig p = Inr c \<Longrightarrow> cost_config_ok c"
  unfolding resolveCostConfig_def Let_def
  by (auto simp: cost_config_ok_def dest: resolve_key_range)

lemma resolveCostConfig_roundtrip:
  assumes "cost_config_ok c"
  shows "resolveCostConfig (cost_partial_of c) = Inr c"
proof -
  from assms have k: "resolve_key n (js_int x) d = Inr x"
    if "x \<in> set [baseCost c, bodyBytesPerUnit c, tokensPerUnit c, messagesPerUnit c, toolsPerUnit c,
        fanoutPerUnit c, streamingClassCost c, nonStreamingClassCost c, maxRequestCost c]" for n x d
    using that resolve_key_js_int unfolding cost_config_ok_def by blast
  show ?thesis
    unfolding resolveCostConfig_def Let_def cost_partial_of_def cost_partial.simps
    by (simp add: k)
qed

lemma finiteNonNegative_range: "0 \<le> finiteNonNegative v" "finiteNonNegative v \<le> of_int MAX_SAFE_INTEGER"
  by (auto simp: finiteNonNegative_def split: js_val.splits js_num.splits)

lemma unitsFrom_pos: "0 < quantum \<Longrightarrow> 0 < amount \<Longrightarrow> 0 < unitsFrom amount quantum"
proof -
  assume "0 < quantum" "0 < amount"
  then have "0 < amount / of_int quantum" by simp
  then have "0 < \<lceil>amount / of_int quantum\<rceil>" by (simp only: zero_less_ceiling)
  with \<open>0 < amount\<close> show ?thesis unfolding unitsFrom_def by (metis not_le)
qed

lemma unitsFrom_nonneg: "0 < quantum \<Longrightarrow> 0 \<le> unitsFrom amount quantum"
  using unitsFrom_pos [of quantum amount] by (cases "0 < amount") (linarith, simp add: unitsFrom_def)

lemma contributions_nonneg:
  assumes "cost_config_ok c" "x \<in> set (contributions f c)"
  shows "0 \<le> x"
proof -
  from assms(1) have "0 < bodyBytesPerUnit c" "0 < tokensPerUnit c" "0 < messagesPerUnit c" "0 < toolsPerUnit c"
    "0 < fanoutPerUnit c" "0 < streamingClassCost c" "0 < nonStreamingClassCost c"
    by (simp_all add: cost_config_ok_def)
  with assms(2) show ?thesis by (auto simp: contributions_def unitsFrom_nonneg split: if_splits)
qed

text \<open>The loop with its early exit is a sum capped at the maximum.\<close>

lemma accumulate_eq:
  "tot \<le> mx \<Longrightarrow> (\<And>x. x \<in> set cs \<Longrightarrow> 0 \<le> x) \<Longrightarrow> accumulate mx tot cs = min mx (tot + sum_list cs)"
proof (induction cs arbitrary: tot)
  case (Cons c cs)
  have s: "0 \<le> sum_list cs" using Cons.prems(2) sum_list_nonneg_int [of cs "\<lambda>x. x"] by simp
  have c: "0 \<le> c" using Cons.prems(2) by simp
  show ?case
  proof (cases "addBounded tot c mx = mx")
    case True
    then have "mx \<le> tot + c" using Cons.prems(1) by (auto simp: addBounded_def split: if_splits)
    with True s show ?thesis by simp
  next
    case False
    then have "addBounded tot c mx = tot + c" "tot + c \<le> mx"
      by (auto simp: addBounded_def split: if_splits)
    with False Cons.IH [of "tot + c"] Cons.prems(2) show ?thesis by (simp add: add.assoc)
  qed
qed simp

lemma capped_sum:
  assumes "cost_config_ok cfg"
  shows "accumulate (maxRequestCost cfg) (min (baseCost cfg) (maxRequestCost cfg)) (contributions f cfg) =
      min (maxRequestCost cfg) (min (baseCost cfg) (maxRequestCost cfg) + sum_list (contributions f cfg))"
    "0 \<le> sum_list (contributions f cfg)"
  using contributions_nonneg [OF assms] sum_list_nonneg_int [of "contributions f cfg" "\<lambda>x. x"]
  by (auto intro!: accumulate_eq)

lemma estimate_range:
  assumes "estimateAdmissionCost f p = Inr c"
  shows "0 < c" "\<exists>cfg. resolveCostConfig p = Inr cfg \<and> c \<le> maxRequestCost cfg" "c \<le> MAX_ADMISSION_COST_OR_LIMIT"
proof -
  from assms obtain cfg where r: "resolveCostConfig p = Inr cfg"
    and c: "c = accumulate (maxRequestCost cfg) (min (baseCost cfg) (maxRequestCost cfg)) (contributions f cfg)"
    by (auto simp: estimateAdmissionCost_def)
  note ok = resolveCostConfig_ok [OF r]
  have "0 < baseCost cfg" "0 < maxRequestCost cfg" "maxRequestCost cfg \<le> MAX_ADMISSION_COST_OR_LIMIT"
    using ok by (simp_all add: cost_config_ok_def)
  with capped_sum [OF ok, of f] have "0 < c" "c \<le> maxRequestCost cfg" "c \<le> MAX_ADMISSION_COST_OR_LIMIT"
    unfolding c by linarith+
  with r show "0 < c" "\<exists>cfg. resolveCostConfig p = Inr cfg \<and> c \<le> maxRequestCost cfg" "c \<le> MAX_ADMISSION_COST_OR_LIMIT"
    by blast+
qed

lemma normalizeRequestCost_range: "normalizeRequestCost v mx = Inr k \<Longrightarrow> 0 < k \<and> k \<le> MAX_ADMISSION_COST_OR_LIMIT"
  by (auto simp: normalizeRequestCost_def requirePositiveSafeInteger_Inr)

subsection \<open>Properties\<close>

text \<open>
  The estimated admission cost is the sum of the base cost and all contributions capped at
  \<^verbatim>\<open>maxRequestCost\<close>: the early exit and the bounded addition of the accumulation loop do not change
  the sum, whatever the request features, and an invalid quantum surfaces as its range error.
\<close>

theorem estimateAdmissionCost_is_capped_sum:
  "estimateAdmissionCost f p =
     sum_bind (resolveCostConfig p)
       (\<lambda>cfg. Inr (min (maxRequestCost cfg) (baseCost cfg + sum_list (contributions f cfg))))"
proof (cases "resolveCostConfig p")
  case (Inr cfg)
  note ok = resolveCostConfig_ok [OF Inr]
  from capped_sum [OF ok, of f] Inr show ?thesis by (simp add: estimateAdmissionCost_def)
qed (simp add: estimateAdmissionCost_def)

text \<open>
  A cost that the estimator returns is a positive integer, at most the configured
  \<^verbatim>\<open>maxRequestCost\<close>, and small enough that its product with the longest adaptation window is still
  a safe integer, so utilisation integrals never leave the exact range of numbers.
\<close>

theorem estimateAdmissionCost_bounds:
  assumes "estimateAdmissionCost f p = Inr c"
  shows "0 < c \<and> (\<exists>cfg. resolveCostConfig p = Inr cfg \<and> c \<le> maxRequestCost cfg) \<and>
    c * MAX_ADMISSION_WINDOW_MS \<le> MAX_SAFE_INTEGER"
proof -
  note b = estimate_range [OF assms]
  then have "c * MAX_ADMISSION_WINDOW_MS \<le> MAX_SAFE_INTEGER"
    by (simp add: MAX_ADMISSION_COST_OR_LIMIT_value MAX_ADMISSION_WINDOW_MS_def MAX_SAFE_INTEGER_def)
  with b show ?thesis by blast
qed

definition sample_features :: cost_features where
  "sample_features = \<lparr>bodyBytes = js_int 40000, estimatedInputTokens = js_int 2049, messageCount = js_int 3,
     toolCount = Null, requestedFanout = Undefined, streaming = Bool True\<rparr>"

definition no_overrides :: cost_partial where
  "no_overrides = \<lparr>p_baseCost = Undefined, p_bodyBytesPerUnit = Undefined, p_tokensPerUnit = Undefined,
     p_messagesPerUnit = Undefined, p_toolsPerUnit = Undefined, p_fanoutPerUnit = Undefined,
     p_streamingClassCost = Undefined, p_nonStreamingClassCost = Null, p_maxRequestCost = Undefined\<rparr>"

lemma resolveCostConfig_default: "resolveCostConfig no_overrides = Inr DEFAULT_ADMISSION_COST_CONFIG"
proof -
  have "resolveCostConfig no_overrides = resolveCostConfig (cost_partial_of DEFAULT_ADMISSION_COST_CONFIG)"
    by (simp add: resolveCostConfig_def resolve_key_def nullish_def no_overrides_def cost_partial_of_def)
  also have "\<dots> = Inr DEFAULT_ADMISSION_COST_CONFIG"
    by (intro resolveCostConfig_roundtrip)
      (simp add: cost_config_ok_def DEFAULT_ADMISSION_COST_CONFIG_def MAX_ADMISSION_COST_OR_LIMIT_value)
  finally show ?thesis .
qed

lemma sample_cost: "estimateAdmissionCost sample_features no_overrides = Inr 10"
proof -
  have "contributions sample_features DEFAULT_ADMISSION_COST_CONFIG = [3, 3, 1, 0, 1, 1]"
    by (simp add: DEFAULT_ADMISSION_COST_CONFIG_def contributions_def sample_features_def unitsFrom_def
        finiteNonNegative_def MAX_SAFE_INTEGER_def ceiling_eq_iff)
  then show ?thesis
    by (simp add: estimateAdmissionCost_def resolveCostConfig_default addBounded_def)
      (simp add: DEFAULT_ADMISSION_COST_CONFIG_def addBounded_def)
qed

theorem estimateAdmissionCost_bounds_witness:
  "estimateAdmissionCost sample_features no_overrides = Inr 10 \<and> (0::int) < 10 \<and>
   10 * MAX_ADMISSION_WINDOW_MS \<le> MAX_SAFE_INTEGER"
  using estimateAdmissionCost_bounds [OF sample_cost] sample_cost by blast

end
