(* ===== verification/Admission_Adaptation.thy ===== *)
theory Admission_Adaptation
  imports Admission_Cost
begin

text \<open>
  Admission control, part two: the feedback loop of \<^verbatim>\<open>open-sse/services/admission/adaptation.ts\<close>, which
  moves the aggregate cost limit between \<^verbatim>\<open>minLimit\<close> and \<^verbatim>\<open>maxLimit\<close> once per window. Latencies,
  factors and utilisation are fractions, hence rationals; limits, integrals and time stamps are
  integers.
\<close>

section \<open>Parameters and state\<close>

record adaptation_params =
  ap_minLimit :: int
  ap_maxLimit :: int
  ap_windowMs :: int
  shortLatencyAlpha :: rat
  longLatencyAlpha :: rat
  increaseStep :: int
  decreaseFactor :: rat
  criticalDecreaseFactor :: rat
  highUtilizationThreshold :: rat
  lowUtilizationThreshold :: rat
  latencyGradientThreshold :: rat
  maxIncreasePerWindow :: int

record adaptation_state =
  currentLimit :: int
  recoveryCeiling :: int
  shortLatencyEwma :: rat
  longLatencyEwma :: rat
  pressure :: admission_pressure
  windowActiveCostIntegral :: int
  windowCompleted :: int
  windowLatencySamples :: int
  windowStartMs :: int
  freezeGrowth :: bool
  criticalDecreaseConsumed :: bool
  utilization :: rat

section \<open>Operations\<close>

definition clampLimit :: "js_num \<Rightarrow> int \<Rightarrow> int \<Rightarrow> int" where
  "clampLimit value minL maxL =
     (case value of Fin q \<Rightarrow> min maxL (max minL \<lfloor>q\<rfloor>) | _ \<Rightarrow> minL)"

abbreviation clamp_int :: "int \<Rightarrow> int \<Rightarrow> int \<Rightarrow> int" where
  "clamp_int i minL maxL \<equiv> clampLimit (Fin (of_int i)) minL maxL"

definition createAdaptationState :: "int \<Rightarrow> int \<Rightarrow> int \<Rightarrow> int \<Rightarrow> adaptation_state" where
  "createAdaptationState initialL minL maxL nowMs =
     \<lparr>currentLimit = clamp_int initialL minL maxL,
      recoveryCeiling = clamp_int initialL minL maxL,
      shortLatencyEwma = 0, longLatencyEwma = 0, pressure = PNormal,
      windowActiveCostIntegral = 0, windowCompleted = 0, windowLatencySamples = 0,
      windowStartMs = nowMs, freezeGrowth = False, criticalDecreaseConsumed = False,
      utilization = 0\<rparr>"

definition noteLatency :: "adaptation_state \<Rightarrow> js_num \<Rightarrow> adaptation_params \<Rightarrow> adaptation_state" where
  "noteLatency st latencyMs params =
     (let sample = (case latencyMs of Fin q \<Rightarrow> if q \<ge> 0 then q else 0 | _ \<Rightarrow> 0);
          st1 = st\<lparr>windowLatencySamples := windowLatencySamples st + 1\<rparr>;
          sa = shortLatencyAlpha params;
          la = longLatencyAlpha params
      in if shortLatencyEwma st1 \<le> 0 \<and> longLatencyEwma st1 \<le> 0
         then st1\<lparr>shortLatencyEwma := sample, longLatencyEwma := sample\<rparr>
         else st1\<lparr>shortLatencyEwma := sa * sample + (1 - sa) * shortLatencyEwma st1,
                  longLatencyEwma := la * sample + (1 - la) * longLatencyEwma st1\<rparr>)"

fun noteOutcome :: "adaptation_state \<Rightarrow> release_outcome \<Rightarrow> adaptation_state" where
  "noteOutcome st Upstream_error = st\<lparr>freezeGrowth := True\<rparr>"
| "noteOutcome st Timeout = st\<lparr>freezeGrowth := True\<rparr>"
| "noteOutcome st _ = st"

fun severity :: "admission_pressure \<Rightarrow> int" where
  "severity PNormal = 0"
| "severity PHigh = 1"
| "severity PCritical = 2"

definition setPressure :: "adaptation_state \<Rightarrow> admission_pressure \<Rightarrow> adaptation_state" where
  "setPressure st p = (if severity p > severity (pressure st) then st\<lparr>pressure := p\<rparr> else st)"

definition applyIdleRecovery :: "adaptation_state \<Rightarrow> adaptation_params \<Rightarrow> int \<Rightarrow> int" where
  "applyIdleRecovery st params nxt =
     (if pressure st \<noteq> PCritical \<and> \<not> freezeGrowth st \<and> windowCompleted st = 0 \<and>
         currentLimit st < recoveryCeiling st
      then min (recoveryCeiling st) (nxt + min (increaseStep params) (maxIncreasePerWindow params))
      else nxt)"

definition window_utilization :: "adaptation_state \<Rightarrow> adaptation_params \<Rightarrow> int \<Rightarrow> rat" where
  "window_utilization st params nowMs =
     (let elapsed = max 1 (min (ap_windowMs params) (nowMs - windowStartMs st));
          avgActive = of_int (windowActiveCostIntegral st) / of_int elapsed;
          util = (if currentLimit st > 0 then avgActive / of_int (currentLimit st) else 0)
      in max 0 (min 1 util))"

definition latency_gradient :: "adaptation_state \<Rightarrow> rat" where
  "latency_gradient st =
     (if longLatencyEwma st > 0
      then (shortLatencyEwma st - longLatencyEwma st) / longLatencyEwma st else 0)"

text \<open>The three-way decision on the next limit, before idle recovery.\<close>

definition next_limit :: "adaptation_state \<Rightarrow> adaptation_params \<Rightarrow> int" where
  "next_limit st params =
     (if pressure st = PCritical then
        (if \<not> criticalDecreaseConsumed st
         then \<lfloor>of_int (currentLimit st) * criticalDecreaseFactor params\<rfloor> else currentLimit st)
      else if pressure st = PHigh \<or>
              windowLatencySamples st > 0 \<and> latency_gradient st \<ge> latencyGradientThreshold params
      then \<lfloor>of_int (currentLimit st) * decreaseFactor params\<rfloor>
      else if \<not> freezeGrowth st \<and> pressure st = PNormal \<and>
              utilization st \<ge> highUtilizationThreshold params \<and> windowCompleted st > 0
      then currentLimit st + min (increaseStep params) (maxIncreasePerWindow params)
      else currentLimit st)"

definition closeAdaptationWindow ::
  "adaptation_state \<Rightarrow> adaptation_params \<Rightarrow> int \<Rightarrow> adaptation_state" where
  "closeAdaptationWindow st params nowMs =
     (let st1 = st\<lparr>utilization := window_utilization st params nowMs\<rparr>;
          nxt = next_limit st1 params;
          low = utilization st1 \<le> lowUtilizationThreshold params;
          st2 = (if low then st1\<lparr>shortLatencyEwma := longLatencyEwma st1\<rparr> else st1);
          nxt' = (if low then applyIdleRecovery st2 params nxt else nxt)
      in st2\<lparr>currentLimit := clamp_int nxt' (ap_minLimit params) (ap_maxLimit params),
             windowActiveCostIntegral := 0, windowCompleted := 0, windowLatencySamples := 0,
             windowStartMs := nowMs, freezeGrowth := False, criticalDecreaseConsumed := False,
             pressure := PNormal\<rparr>)"

text \<open>
  The saturating integral. Division by a zero budget is \<^verbatim>\<open>Infinity\<close> in the source, so the guard is
  then false.
\<close>

definition sampleActiveIntegral :: "adaptation_state \<Rightarrow> int \<Rightarrow> int \<Rightarrow> adaptation_state" where
  "sampleActiveIntegral st activeCost dtMs =
     (if dtMs \<le> 0 \<or> activeCost \<le> 0 then st
      else
        let bounded = min activeCost (currentLimit st);
            contribution =
              (if bounded \<noteq> 0 \<and> dtMs > MAX_SAFE_INTEGER div bounded then MAX_SAFE_INTEGER
               else bounded * dtMs)
        in st\<lparr>windowActiveCostIntegral :=
              (if contribution \<ge> MAX_SAFE_INTEGER - windowActiveCostIntegral st then MAX_SAFE_INTEGER
               else windowActiveCostIntegral st + contribution)\<rparr>)"

section \<open>Invariant\<close>

definition params_ok :: "adaptation_params \<Rightarrow> bool" where
  "params_ok p \<longleftrightarrow>
     0 < ap_minLimit p \<and> ap_minLimit p \<le> ap_maxLimit p \<and>
     ap_maxLimit p \<le> MAX_ADMISSION_COST_OR_LIMIT \<and>
     0 < ap_windowMs p \<and> ap_windowMs p \<le> MAX_ADMISSION_WINDOW_MS \<and>
     0 < longLatencyAlpha p \<and> longLatencyAlpha p < shortLatencyAlpha p \<and> shortLatencyAlpha p \<le> 1 \<and>
     0 < increaseStep p \<and> 0 < maxIncreasePerWindow p \<and>
     0 < criticalDecreaseFactor p \<and> criticalDecreaseFactor p \<le> decreaseFactor p \<and> decreaseFactor p < 1 \<and>
     0 < lowUtilizationThreshold p \<and> lowUtilizationThreshold p < highUtilizationThreshold p \<and>
     highUtilizationThreshold p \<le> 1 \<and> 0 < latencyGradientThreshold p \<and> latencyGradientThreshold p \<le> 1"

definition adaptation_ok :: "adaptation_params \<Rightarrow> adaptation_state \<Rightarrow> bool" where
  "adaptation_ok p st \<longleftrightarrow>
     ap_minLimit p \<le> currentLimit st \<and> currentLimit st \<le> ap_maxLimit p \<and>
     ap_minLimit p \<le> recoveryCeiling st \<and> recoveryCeiling st \<le> ap_maxLimit p \<and>
     0 \<le> shortLatencyEwma st \<and> 0 \<le> longLatencyEwma st \<and>
     0 \<le> windowActiveCostIntegral st \<and> windowActiveCostIntegral st \<le> MAX_SAFE_INTEGER \<and>
     0 \<le> windowCompleted st \<and> 0 \<le> windowLatencySamples st \<and>
     0 \<le> utilization st \<and> utilization st \<le> 1"

lemma clampLimit_Fin [simp]: "clampLimit (Fin q) minL maxL = min maxL (max minL \<lfloor>q\<rfloor>)"
  by (simp add: clampLimit_def)

lemma clamp_range: "minL \<le> maxL \<Longrightarrow> minL \<le> clampLimit v minL maxL \<and> clampLimit v minL maxL \<le> maxL"
  by (auto simp: clampLimit_def split: js_num.splits)

lemma floor_factor_le: "0 \<le> n \<Longrightarrow> 0 \<le> f \<Longrightarrow> f \<le> 1 \<Longrightarrow> \<lfloor>of_int n * f\<rfloor> \<le> n" for f :: rat
proof -
  assume "0 \<le> n" "0 \<le> f" "f \<le> 1"
  then have "of_int n * f \<le> of_int n" by (simp add: mult_left_le)
  then have "\<lfloor>of_int n * f\<rfloor> \<le> \<lfloor>of_int n :: rat\<rfloor>" by (rule floor_mono)
  then show ?thesis by simp
qed

lemma createAdaptationState_ok [inv_intro]:
  "params_ok p \<Longrightarrow> adaptation_ok p (createAdaptationState i (ap_minLimit p) (ap_maxLimit p) now)"
  by (auto simp: params_ok_def adaptation_ok_def createAdaptationState_def)

lemma ewma_nonneg: "0 \<le> s \<Longrightarrow> 0 \<le> e \<Longrightarrow> 0 \<le> a \<Longrightarrow> a \<le> 1 \<Longrightarrow> 0 \<le> a * s + (1 - a) * e" for a :: rat
  by simp

lemma noteLatency_ok [inv_intro]:
  assumes "params_ok p" "adaptation_ok p st"
  shows "adaptation_ok p (noteLatency st l p)"
proof -
  define s where "s = (case l of Fin q \<Rightarrow> if q \<ge> 0 then q else 0 | _ \<Rightarrow> 0)"
  have s: "0 \<le> s" by (auto simp: s_def split: js_num.splits)
  from assms(1) have a: "0 \<le> shortLatencyAlpha p" "shortLatencyAlpha p \<le> 1" "0 \<le> longLatencyAlpha p" "longLatencyAlpha p \<le> 1"
    by (auto simp: params_ok_def)
  have e: "0 \<le> shortLatencyEwma st" "0 \<le> longLatencyEwma st"
    using assms(2) by (simp_all add: adaptation_ok_def)
  show ?thesis
    using assms(2) ewma_nonneg [OF s e(1) a(1,2)] ewma_nonneg [OF s e(2) a(3,4)] s
    unfolding noteLatency_def s_def [symmetric] Let_def adaptation_ok_def by simp
qed

lemma noteOutcome_ok [inv_intro]: "adaptation_ok p st \<Longrightarrow> adaptation_ok p (noteOutcome st out)"
  by (cases out) (simp_all add: adaptation_ok_def)

lemma setPressure_ok [inv_intro]: "adaptation_ok p st \<Longrightarrow> adaptation_ok p (setPressure st pr)"
  by (simp add: adaptation_ok_def setPressure_def)

lemma sampleActiveIntegral_ok [inv_intro]:
  "params_ok p \<Longrightarrow> adaptation_ok p st \<Longrightarrow> adaptation_ok p (sampleActiveIntegral st a dt)"
proof -
  assume p: "params_ok p" and ok: "adaptation_ok p st"
  then have c: "0 < currentLimit st" by (auto simp: params_ok_def adaptation_ok_def)
  then have "0 \<le> min a (currentLimit st) * dt" if "0 < a" "0 < dt"
    using that by (simp add: min_def)
  with ok show ?thesis
    by (auto simp: adaptation_ok_def sampleActiveIntegral_def Let_def not_le)
qed

lemma window_utilization_range: "0 \<le> window_utilization st p now" "window_utilization st p now \<le> 1"
  by (simp_all add: window_utilization_def Let_def)

lemma closeAdaptationWindow_ok [inv_intro]:
  assumes "params_ok p" "adaptation_ok p st"
  shows "adaptation_ok p (closeAdaptationWindow st p now)"
proof -
  have "ap_minLimit p \<le> ap_maxLimit p" using assms(1) by (simp add: params_ok_def)
  then show ?thesis
    using assms(2) window_utilization_range [of st p now]
    by (auto simp: adaptation_ok_def closeAdaptationWindow_def Let_def)
qed

section \<open>How fast the limit moves\<close>

lemma next_limit_upper:
  assumes "params_ok p" "adaptation_ok p st"
  shows "next_limit st p \<le> currentLimit st + min (increaseStep p) (maxIncreasePerWindow p)"
proof -
  have "0 \<le> currentLimit st" using assms by (auto simp: params_ok_def adaptation_ok_def)
  then have "\<lfloor>of_int (currentLimit st) * criticalDecreaseFactor p\<rfloor> \<le> currentLimit st"
    "\<lfloor>of_int (currentLimit st) * decreaseFactor p\<rfloor> \<le> currentLimit st"
    using assms(1) by (auto simp: params_ok_def intro!: floor_factor_le)
  moreover have "0 < min (increaseStep p) (maxIncreasePerWindow p)"
    using assms(1) by (simp add: params_ok_def)
  ultimately show ?thesis unfolding next_limit_def by (simp split: if_split; linarith)
qed

lemma next_limit_idle:
  assumes "pressure st = PNormal" "windowCompleted st = 0" "windowLatencySamples st = 0"
  shows "next_limit st p = currentLimit st"
  using assms by (simp add: next_limit_def)

lemma next_limit_not_normal:
  assumes "params_ok p" "adaptation_ok p st" "pressure st \<noteq> PNormal"
  shows "next_limit st p \<le> currentLimit st"
proof -
  have "0 \<le> currentLimit st" using assms by (auto simp: params_ok_def adaptation_ok_def)
  then have "\<lfloor>of_int (currentLimit st) * criticalDecreaseFactor p\<rfloor> \<le> currentLimit st"
    "\<lfloor>of_int (currentLimit st) * decreaseFactor p\<rfloor> \<le> currentLimit st"
    using assms(1) by (auto simp: params_ok_def intro!: floor_factor_le)
  with assms(3) show ?thesis by (simp add: next_limit_def)
qed

lemma closeAdaptationWindow_limit:
  "currentLimit (closeAdaptationWindow st p now) =
     (let u = window_utilization st p now; st1 = st\<lparr>utilization := u\<rparr>; nxt = next_limit st1 p
      in clamp_int (if u \<le> lowUtilizationThreshold p then applyIdleRecovery st1 p nxt else nxt)
           (ap_minLimit p) (ap_maxLimit p))"
  by (simp add: closeAdaptationWindow_def Let_def applyIdleRecovery_def)

lemma closeAdaptationWindow_reset [simp]:
  "pressure (closeAdaptationWindow st p now) = PNormal"
  "windowActiveCostIntegral (closeAdaptationWindow st p now) = 0"
  "windowCompleted (closeAdaptationWindow st p now) = 0"
  "windowLatencySamples (closeAdaptationWindow st p now) = 0"
  "freezeGrowth (closeAdaptationWindow st p now) = False"
  "criticalDecreaseConsumed (closeAdaptationWindow st p now) = False"
  "windowStartMs (closeAdaptationWindow st p now) = now"
  "recoveryCeiling (closeAdaptationWindow st p now) = recoveryCeiling st"
  by (simp_all add: closeAdaptationWindow_def Let_def)

text \<open>A window in which nothing happened: the state a window close leaves behind.\<close>

definition idle :: "adaptation_state \<Rightarrow> bool" where
  "idle st \<longleftrightarrow> pressure st = PNormal \<and> windowActiveCostIntegral st = 0 \<and> windowCompleted st = 0 \<and>
     windowLatencySamples st = 0 \<and> \<not> freezeGrowth st"

lemma idle_close: "idle (closeAdaptationWindow st p now)"
  by (simp add: idle_def)

lemma idle_window_limit:
  assumes "params_ok p" "adaptation_ok p st" "idle st"
  shows "currentLimit (closeAdaptationWindow st p now) =
    (if currentLimit st < recoveryCeiling st
     then min (recoveryCeiling st) (currentLimit st + min (increaseStep p) (maxIncreasePerWindow p))
     else currentLimit st)"
proof -
  have u: "window_utilization st p now = 0"
    using assms(3) by (simp add: window_utilization_def idle_def Let_def)
  have "0 < lowUtilizationThreshold p" "0 < min (increaseStep p) (maxIncreasePerWindow p)"
    using assms(1) by (simp_all add: params_ok_def)
  moreover have "next_limit (st\<lparr>utilization := 0\<rparr>) p = currentLimit st"
    using assms(3) by (simp add: next_limit_def idle_def)
  ultimately show ?thesis
    using assms by (auto simp: closeAdaptationWindow_limit u Let_def applyIdleRecovery_def idle_def adaptation_ok_def)
qed

fun idle_windows :: "adaptation_state \<Rightarrow> adaptation_params \<Rightarrow> int list \<Rightarrow> adaptation_state" where
  "idle_windows st p [] = st"
| "idle_windows st p (t # ts) = idle_windows (closeAdaptationWindow st p t) p ts"

lemma idle_windows_limit:
  assumes "params_ok p" "adaptation_ok p st" "idle st" "currentLimit st \<le> recoveryCeiling st"
  shows "currentLimit (idle_windows st p ts) =
    min (recoveryCeiling st) (currentLimit st + int (length ts) * min (increaseStep p) (maxIncreasePerWindow p))"
  using assms(2-4)
proof (induction ts arbitrary: st)
  case (Cons t ts)
  let ?s = "min (increaseStep p) (maxIncreasePerWindow p)" and ?st = "closeAdaptationWindow st p t"
  have s: "0 < ?s" using assms(1) by (simp add: params_ok_def)
  have c: "currentLimit ?st = min (recoveryCeiling st) (currentLimit st + ?s)"
    using idle_window_limit [OF assms(1) Cons.prems(1,2), of t] Cons.prems(3) s by auto
  have "currentLimit (idle_windows ?st p ts) =
      min (recoveryCeiling st) (currentLimit ?st + int (length ts) * ?s)"
    using Cons.IH [of ?st] closeAdaptationWindow_ok [OF assms(1) Cons.prems(1)] c by (simp add: idle_close)
  moreover have "0 \<le> int (length ts) * ?s" using s by (intro mult_nonneg_nonneg) auto
  moreover have "int (length (t # ts)) * ?s = ?s + int (length ts) * ?s" by (simp add: algebra_simps)
  ultimately show ?case unfolding c idle_windows.simps by linarith
qed simp

section \<open>The utilisation integral\<close>

text \<open>One sample adds its bounded contribution and caps the sum at the largest safe integer.\<close>

lemma sampleActiveIntegral_capped:
  assumes "0 < currentLimit st" "windowActiveCostIntegral st \<le> MAX_SAFE_INTEGER"
    and "0 \<le> windowActiveCostIntegral st" "0 \<le> a" "0 \<le> dt"
  shows "windowActiveCostIntegral (sampleActiveIntegral st a dt) =
    min MAX_SAFE_INTEGER (windowActiveCostIntegral st + min a (currentLimit st) * dt)"
proof (cases "dt = 0 \<or> a = 0")
  case True
  with assms show ?thesis by (auto simp: sampleActiveIntegral_def)
next
  case False
  let ?b = "min a (currentLimit st)"
  from False assms have b: "0 < ?b" and dt: "0 < dt" by auto
  show ?thesis
  proof (cases "dt > MAX_SAFE_INTEGER div ?b")
    case True
    then have "MAX_SAFE_INTEGER < dt * ?b" using b by (intro div_less_imp_less_mult)
    with True False assms b show ?thesis
      by (auto simp: sampleActiveIntegral_def Let_def mult.commute)
  next
    case F: False
    with False assms b show ?thesis by (auto simp: sampleActiveIntegral_def Let_def)
  qed
qed

fun sample_all :: "adaptation_state \<Rightarrow> (int \<times> int) list \<Rightarrow> adaptation_state" where
  "sample_all st [] = st"
| "sample_all st ((a, dt) # ss) = sample_all (sampleActiveIntegral st a dt) ss"

lemma sample_all_exact:
  assumes "0 < currentLimit st" "0 \<le> windowActiveCostIntegral st"
    and "\<And>a dt. (a, dt) \<in> set ss \<Longrightarrow> 0 \<le> a \<and> 0 \<le> dt"
    and "windowActiveCostIntegral st + currentLimit st * sum_list (map snd ss) \<le> MAX_SAFE_INTEGER"
  shows "windowActiveCostIntegral (sample_all st ss) =
    windowActiveCostIntegral st + (\<Sum>(a, dt) \<leftarrow> ss. min a (currentLimit st) * dt)"
  using assms
proof (induction ss arbitrary: st)
  case (Cons s ss)
  obtain a dt where s: "s = (a, dt)" by force
  let ?st = "sampleActiveIntegral st a dt"
  have nn: "0 \<le> a" "0 \<le> dt" using Cons.prems(3) s by auto
  have tl: "0 \<le> sum_list (map snd ss)" using Cons.prems(3) by (intro sum_list_nonneg_int) (metis list.set_intros(2) prod.collapse)
  have le: "min a (currentLimit st) * dt \<le> currentLimit st * dt" using nn by (simp add: mult_right_mono)
  have nn': "0 \<le> min a (currentLimit st) * dt" using nn Cons.prems(1) by simp
  have "0 \<le> currentLimit st * sum_list (map snd ss)" using Cons.prems(1) tl by simp
  then have bnd: "windowActiveCostIntegral st + min a (currentLimit st) * dt \<le> MAX_SAFE_INTEGER"
    and rest: "windowActiveCostIntegral st + min a (currentLimit st) * dt
        + currentLimit st * sum_list (map snd ss) \<le> MAX_SAFE_INTEGER"
    using Cons.prems(4) le by (simp_all add: s distrib_left)
  have "windowActiveCostIntegral st \<le> MAX_SAFE_INTEGER" using bnd nn' by linarith
  then have i: "windowActiveCostIntegral ?st = windowActiveCostIntegral st + min a (currentLimit st) * dt"
    using sampleActiveIntegral_capped [of st a dt] Cons.prems(1,2) nn bnd by simp
  have l: "currentLimit ?st = currentLimit st" by (simp add: sampleActiveIntegral_def Let_def)
  have "(a', dt') \<in> set ss \<Longrightarrow> 0 \<le> a' \<and> 0 \<le> dt'" for a' dt' using Cons.prems(3) by (meson list.set_intros(2))
  then show ?case
    using Cons.IH [of ?st] Cons.prems(1,2) nn' rest s i l by (simp add: case_prod_beta)
qed simp

section \<open>Properties\<close>

text \<open>
  C7. Closing an adaptation window leaves the aggregate limit inside the configured range, raises it
  by at most one bounded step, and never raises it under critical pressure.
\<close>

theorem closeAdaptationWindow_bounded_growth:
  assumes p: "params_ok p" and ok: "adaptation_ok p st"
  shows "ap_minLimit p \<le> currentLimit (closeAdaptationWindow st p now)
    \<and> currentLimit (closeAdaptationWindow st p now) \<le> ap_maxLimit p
    \<and> currentLimit (closeAdaptationWindow st p now)
        \<le> currentLimit st + min (increaseStep p) (maxIncreasePerWindow p)
    \<and> (pressure st = PCritical \<longrightarrow> currentLimit (closeAdaptationWindow st p now) \<le> currentLimit st)"
proof -
  let ?st = "st\<lparr>utilization := window_utilization st p now\<rparr>"
  let ?s = "min (increaseStep p) (maxIncreasePerWindow p)"
  have ok': "adaptation_ok p ?st"
    using ok window_utilization_range [of st p now] by (simp add: adaptation_ok_def)
  have s: "0 < ?s" using p by (simp add: params_ok_def)
  have low: "lowUtilizationThreshold p < highUtilizationThreshold p" using p by (simp add: params_ok_def)
  have n: "next_limit ?st p \<le> currentLimit st + ?s" using next_limit_upper [OF p ok'] by simp
  have n0: "next_limit ?st p \<le> currentLimit st"
    if "windowCompleted st = 0 \<or> pressure st = PCritical"
  proof (cases "pressure st = PNormal")
    case False
    then show ?thesis using next_limit_not_normal [OF p ok'] by simp
  next
    case True
    with that have w: "windowCompleted st = 0" by simp
    have "0 \<le> currentLimit st" using p ok by (auto simp: params_ok_def adaptation_ok_def)
    then have "\<lfloor>of_int (currentLimit st) * decreaseFactor p\<rfloor> \<le> currentLimit st"
      using p by (auto simp: params_ok_def intro!: floor_factor_le)
    with True w show ?thesis by (simp add: next_limit_def)
  qed
  let ?n = "if window_utilization st p now \<le> lowUtilizationThreshold p
    then applyIdleRecovery ?st p (next_limit ?st p) else next_limit ?st p"
  have "?n \<le> currentLimit st + ?s" using n n0 by (auto simp: applyIdleRecovery_def)
  moreover have "pressure st = PCritical \<longrightarrow> ?n \<le> currentLimit st" using n0 by (auto simp: applyIdleRecovery_def)
  moreover have "ap_minLimit p \<le> currentLimit st" "ap_minLimit p \<le> ap_maxLimit p"
    using p ok by (simp_all add: params_ok_def adaptation_ok_def)
  ultimately show ?thesis using s by (auto simp: closeAdaptationWindow_limit Let_def)
qed

definition sample_params :: adaptation_params where
  "sample_params = \<lparr>ap_minLimit = 1, ap_maxLimit = 20, ap_windowMs = 1000, shortLatencyAlpha = 1/2,
     longLatencyAlpha = 1/10, increaseStep = 5, decreaseFactor = 4/5, criticalDecreaseFactor = 1/2,
     highUtilizationThreshold = 7/10, lowUtilizationThreshold = 3/10, latencyGradientThreshold = 1/4,
     maxIncreasePerWindow = 5\<rparr>"

definition sample_state :: adaptation_state where
  "sample_state = (createAdaptationState 10 1 20 0)\<lparr>currentLimit := 2\<rparr>"

lemma sample_params_ok: "params_ok sample_params"
  by (simp add: params_ok_def sample_params_def MAX_ADMISSION_COST_OR_LIMIT_value MAX_ADMISSION_WINDOW_MS_def)

lemma sample_state_ok: "adaptation_ok sample_params sample_state"
  by (simp add: adaptation_ok_def sample_state_def sample_params_def createAdaptationState_def)

theorem closeAdaptationWindow_bounded_growth_witness:
  "currentLimit (closeAdaptationWindow sample_state sample_params 1000) = 7 \<and>
   (7::int) \<le> currentLimit sample_state + min (increaseStep sample_params) (maxIncreasePerWindow sample_params)"
  using closeAdaptationWindow_bounded_growth [OF sample_params_ok sample_state_ok, of 1000]
    idle_window_limit [OF sample_params_ok sample_state_ok, of 1000]
  by (simp add: sample_state_def sample_params_def createAdaptationState_def idle_def)

text \<open>
  Recovery is live: a limit that a latency decrease pushed below the recovery ceiling climbs back
  to exactly the ceiling after enough idle windows, one bounded step per window, whatever the times
  at which the windows close.
\<close>

theorem idle_recovery_reaches_ceiling:
  assumes "params_ok p" "adaptation_ok p st" "idle st" "currentLimit st \<le> recoveryCeiling st"
    and "recoveryCeiling st - currentLimit st
      \<le> int (length ts) * min (increaseStep p) (maxIncreasePerWindow p)"
  shows "currentLimit (idle_windows st p ts) = recoveryCeiling st"
  using idle_windows_limit [OF assms(1-4)] assms(5) by simp

theorem idle_recovery_reaches_ceiling_witness:
  "currentLimit sample_state = 2 \<and>
   currentLimit (idle_windows sample_state sample_params [1000, 2000]) = 10"
  using idle_recovery_reaches_ceiling [OF sample_params_ok sample_state_ok, of "[1000, 2000]"]
  by (simp add: sample_state_def sample_params_def createAdaptationState_def idle_def)

text \<open>
  Within one window the utilisation integral is exact: for any sequence of samples whose total
  duration fits the longest configurable window and any limit the validator accepts, the saturating
  additions compute the plain sum of bounded cost times duration.
\<close>

theorem window_integral_exact:
  assumes "params_ok p" "adaptation_ok p st" "windowActiveCostIntegral st = 0"
    and "\<And>a dt. (a, dt) \<in> set ss \<Longrightarrow> 0 \<le> a \<and> 0 \<le> dt"
    and "sum_list (map snd ss) \<le> MAX_ADMISSION_WINDOW_MS"
  shows "windowActiveCostIntegral (sample_all st ss) = (\<Sum>(a, dt) \<leftarrow> ss. min a (currentLimit st) * dt)"
proof -
  have l: "0 < currentLimit st" "currentLimit st \<le> MAX_ADMISSION_COST_OR_LIMIT"
    using assms(1,2) by (auto simp: params_ok_def adaptation_ok_def)
  have "0 \<le> sum_list (map snd ss)" using assms(4) by (intro sum_list_nonneg_int) (metis prod.collapse)
  then have "currentLimit st * sum_list (map snd ss) \<le> MAX_ADMISSION_COST_OR_LIMIT * MAX_ADMISSION_WINDOW_MS"
    using l assms(5) by (intro mult_mono) auto
  also have "\<dots> \<le> MAX_SAFE_INTEGER"
    by (simp add: MAX_ADMISSION_COST_OR_LIMIT_value MAX_ADMISSION_WINDOW_MS_def MAX_SAFE_INTEGER_def)
  finally show ?thesis using sample_all_exact [of st ss] l assms(3,4) by simp
qed

theorem window_integral_exact_witness:
  "windowActiveCostIntegral (sample_all sample_state [(1, 300), (9, 700)]) = 1700"
proof -
  have "windowActiveCostIntegral (sample_all sample_state [(1, 300), (9, 700)]) =
      (\<Sum>(a, dt) \<leftarrow> [(1, 300), (9, 700)]. min a (currentLimit sample_state) * dt)"
    by (rule window_integral_exact [OF sample_params_ok sample_state_ok])
      (auto simp: sample_state_def createAdaptationState_def MAX_ADMISSION_WINDOW_MS_def)
  then show ?thesis by (simp add: sample_state_def)
qed

text \<open>
  The comment on \<^verbatim>\<open>applyIdleRecovery\<close> asks for normal pressure, but its guard only excludes critical
  pressure: an idle window that ends under high pressure can raise the limit instead of lowering it.
\<close>

theorem idle_recovery_under_high_pressure:
  "pressure (setPressure sample_state PHigh) = PHigh \<and>
   currentLimit (setPressure sample_state PHigh) = 2 \<and>
   currentLimit (closeAdaptationWindow (setPressure sample_state PHigh) sample_params 1000) = 6"
  by (simp add: sample_state_def sample_params_def createAdaptationState_def setPressure_def
      closeAdaptationWindow_def window_utilization_def next_limit_def applyIdleRecovery_def Let_def floor_eq_iff)

end
