(* ===== verification/Admission_Config.thy ===== *)
theory Admission_Config
  imports Admission_Adaptation
begin

text \<open>
  Admission control, part three: \<^verbatim>\<open>open-sse/services/admission/config.ts\<close>. Validation runs field by field
  in the order of the source and stops at the first range error.
\<close>

section \<open>Input and validated configuration\<close>

record admission_input =
  in_mode :: js_val
  in_minLimit :: js_val
  in_maxLimit :: js_val
  in_initialLimit :: js_val
  in_maxQueueCount :: js_val
  in_maxQueueCost :: js_val
  in_defaultMaxWaitMs :: js_val
  in_windowMs :: js_val
  in_shortLatencyAlpha :: js_val
  in_longLatencyAlpha :: js_val
  in_increaseStep :: js_val
  in_decreaseFactor :: js_val
  in_criticalDecreaseFactor :: js_val
  in_highUtilizationThreshold :: js_val
  in_lowUtilizationThreshold :: js_val
  in_latencyGradientThreshold :: js_val
  in_maxIncreasePerWindow :: js_val
  in_cost :: cost_partial
  in_virtualLanes :: js_val

record validated_config =
  mode :: admission_mode
  minLimit :: int
  maxLimit :: int
  initialLimit :: int
  maxQueueCount :: int
  maxQueueCost :: int
  defaultMaxWaitMs :: int
  windowMs :: int
  adaptation :: adaptation_params
  cfg_maxRequestCost :: int
  costConfig :: cost_config
  virtualLanes :: bool

section \<open>Field validators\<close>

definition requirePositiveInt :: "string \<Rightarrow> js_val \<Rightarrow> int \<Rightarrow> range_error + int" where
  "requirePositiveInt name value mx =
     (case value of
        Num n \<Rightarrow>
          if \<not> isFinite n \<or> (case n of Fin q \<Rightarrow> q \<le> 0 | NegInf \<Rightarrow> True | _ \<Rightarrow> False) \<or> \<not> isSafeInteger n
          then Inl (Not_positive_safe_integer name)
          else (case n of
                  Fin q \<Rightarrow> if q > of_int mx then Inl (Exceeds_max name mx) else Inr \<lfloor>q\<rfloor>
                | _ \<Rightarrow> Inl (Not_positive_safe_integer name))
      | _ \<Rightarrow> Inl (Not_positive_safe_integer name))"

definition requireUnitInterval :: "string \<Rightarrow> js_val \<Rightarrow> rat \<Rightarrow> range_error + rat" where
  "requireUnitInterval name value fallback =
     (case value of
        Undefined \<Rightarrow> Inr fallback
      | Num (Fin q) \<Rightarrow> if q \<le> 0 \<or> q > 1 then Inl (Not_in_half_open_unit name) else Inr q
      | _ \<Rightarrow> Inl (Not_in_half_open_unit name))"

definition requireDecreaseFactor :: "string \<Rightarrow> js_val \<Rightarrow> rat \<Rightarrow> range_error + rat" where
  "requireDecreaseFactor name value fallback =
     (case value of
        Undefined \<Rightarrow> Inr fallback
      | Num (Fin q) \<Rightarrow> if q \<le> 0 \<or> q \<ge> 1 then Inl (Not_in_open_unit name) else Inr q
      | _ \<Rightarrow> Inl (Not_in_open_unit name))"

definition resolveMode :: "js_val \<Rightarrow> range_error + admission_mode" where
  "resolveMode m =
     (if m = Undefined then Inr Shadow
      else if m = Str ''off'' then Inr ModeOff
      else if m = Str ''shadow'' then Inr Shadow
      else if m = Str ''enforce'' then Inr Enforce
      else Inl Bad_mode)"

text \<open>An optional integer field: \<^verbatim>\<open>undefined\<close> selects the default, anything else is validated.\<close>

definition optionalInt :: "string \<Rightarrow> js_val \<Rightarrow> int \<Rightarrow> int \<Rightarrow> range_error + int" where
  "optionalInt name value d mx =
     (if value = Undefined then Inr d else requirePositiveInt name value mx)"

definition resolveAdaptationParams ::
  "admission_input \<Rightarrow> int \<Rightarrow> int \<Rightarrow> int \<Rightarrow> range_error + adaptation_params" where
  "resolveAdaptationParams i minL maxL winMs =
     sum_bind (requireDecreaseFactor ''decreaseFactor'' (in_decreaseFactor i) (8/10)) (\<lambda>dec.
     sum_bind (requireDecreaseFactor ''criticalDecreaseFactor'' (in_criticalDecreaseFactor i) (1/2)) (\<lambda>crit.
     sum_bind (optionalInt ''increaseStep'' (in_increaseStep i) 1 MAX_ADMISSION_COST_OR_LIMIT) (\<lambda>inc.
     sum_bind (optionalInt ''maxIncreasePerWindow'' (in_maxIncreasePerWindow i) inc MAX_ADMISSION_COST_OR_LIMIT) (\<lambda>maxInc.
     sum_bind (requireUnitInterval ''shortLatencyAlpha'' (in_shortLatencyAlpha i) (1/2)) (\<lambda>sa.
     sum_bind (requireUnitInterval ''longLatencyAlpha'' (in_longLatencyAlpha i) (1/10)) (\<lambda>la.
     sum_bind (requireUnitInterval ''highUtilizationThreshold'' (in_highUtilizationThreshold i) (7/10)) (\<lambda>hi.
     sum_bind (requireUnitInterval ''lowUtilizationThreshold'' (in_lowUtilizationThreshold i) (3/10)) (\<lambda>lo.
     if crit > dec then Inl Critical_above_decrease
     else if lo \<ge> hi then Inl Low_not_below_high
     else if sa \<le> la then Inl Short_not_above_long
     else
     sum_bind (requireUnitInterval ''latencyGradientThreshold'' (in_latencyGradientThreshold i) (1/4)) (\<lambda>grad.
     Inr \<lparr>ap_minLimit = minL, ap_maxLimit = maxL, ap_windowMs = winMs, shortLatencyAlpha = sa,
          longLatencyAlpha = la, increaseStep = inc, decreaseFactor = dec,
          criticalDecreaseFactor = crit, highUtilizationThreshold = hi, lowUtilizationThreshold = lo,
          latencyGradientThreshold = grad, maxIncreasePerWindow = maxInc\<rparr>)))))))))"

definition validateConfig :: "admission_input \<Rightarrow> range_error + validated_config" where
  "validateConfig i =
     sum_bind (requirePositiveInt ''minLimit'' (in_minLimit i) MAX_ADMISSION_COST_OR_LIMIT) (\<lambda>minL.
     sum_bind (requirePositiveInt ''maxLimit'' (in_maxLimit i) MAX_ADMISSION_COST_OR_LIMIT) (\<lambda>maxL.
     if minL > maxL then Inl Min_above_max
     else
     sum_bind (requirePositiveInt ''initialLimit'' (in_initialLimit i) MAX_ADMISSION_COST_OR_LIMIT) (\<lambda>initL.
     sum_bind (requirePositiveInt ''maxQueueCount'' (in_maxQueueCount i) MAX_SAFE_INTEGER) (\<lambda>qCount.
     sum_bind (requirePositiveInt ''maxQueueCost'' (in_maxQueueCost i) MAX_ADMISSION_COST_OR_LIMIT) (\<lambda>qCost.
     sum_bind (optionalInt ''windowMs'' (in_windowMs i) 1000 MAX_ADMISSION_WINDOW_MS) (\<lambda>winMs.
     sum_bind (optionalInt ''defaultMaxWaitMs'' (in_defaultMaxWaitMs i) 5000 MAX_ADMISSION_WINDOW_MS) (\<lambda>waitMs.
     sum_bind (resolveCostConfig (in_cost i)) (\<lambda>cc.
     sum_bind (resolveMode (in_mode i)) (\<lambda>m.
     sum_bind (resolveAdaptationParams i minL maxL winMs) (\<lambda>ap.
     Inr \<lparr>mode = m, minLimit = minL, maxLimit = maxL, initialLimit = initL, maxQueueCount = qCount,
          maxQueueCost = qCost, defaultMaxWaitMs = waitMs, windowMs = winMs, adaptation = ap,
          cfg_maxRequestCost = maxRequestCost cc, costConfig = cc,
          virtualLanes = (in_virtualLanes i = Bool True)\<rparr>))))))))))"

section \<open>What validation guarantees\<close>

definition config_ok :: "validated_config \<Rightarrow> bool" where
  "config_ok c \<longleftrightarrow>
     0 < minLimit c \<and> minLimit c \<le> maxLimit c \<and> maxLimit c \<le> MAX_ADMISSION_COST_OR_LIMIT \<and>
     0 < initialLimit c \<and> initialLimit c \<le> MAX_ADMISSION_COST_OR_LIMIT \<and>
     0 < maxQueueCount c \<and> maxQueueCount c \<le> MAX_SAFE_INTEGER \<and>
     0 < maxQueueCost c \<and> maxQueueCost c \<le> MAX_ADMISSION_COST_OR_LIMIT \<and>
     0 < windowMs c \<and> windowMs c \<le> MAX_ADMISSION_WINDOW_MS \<and>
     0 < defaultMaxWaitMs c \<and> defaultMaxWaitMs c \<le> MAX_ADMISSION_WINDOW_MS \<and>
     cost_config_ok (costConfig c) \<and> cfg_maxRequestCost c = maxRequestCost (costConfig c) \<and>
     params_ok (adaptation c) \<and> ap_minLimit (adaptation c) = minLimit c \<and>
     ap_maxLimit (adaptation c) = maxLimit c \<and> ap_windowMs (adaptation c) = windowMs c"

lemma requirePositiveInt_eq: "requirePositiveInt name v mx = requirePositiveSafeInteger name v mx"
  by (auto simp: requirePositiveInt_def requirePositiveSafeInteger_def isFinite_def isSafeInteger_def
      split: js_val.splits js_num.splits)

lemma requirePositiveInt_Inr:
  "requirePositiveInt name v mx = Inr i \<longleftrightarrow> v = js_int i \<and> 0 < i \<and> i \<le> mx \<and> i \<le> MAX_SAFE_INTEGER"
  unfolding requirePositiveInt_eq by (rule requirePositiveSafeInteger_Inr)

lemma optionalInt_Inr:
  "optionalInt name v d mx = Inr i \<longleftrightarrow>
     (if v = Undefined then i = d else v = js_int i \<and> 0 < i \<and> i \<le> mx \<and> i \<le> MAX_SAFE_INTEGER)"
  by (auto simp: optionalInt_def requirePositiveInt_Inr)

lemma optionalInt_range:
  "optionalInt name v d mx = Inr i \<Longrightarrow> 0 < d \<Longrightarrow> d \<le> mx \<Longrightarrow> 0 < i \<and> i \<le> mx"
  by (auto simp: optionalInt_Inr split: if_splits)

lemma requireUnitInterval_range:
  "requireUnitInterval name v d = Inr q \<Longrightarrow> 0 < d \<Longrightarrow> d \<le> 1 \<Longrightarrow> 0 < q \<and> q \<le> 1"
  by (auto simp: requireUnitInterval_def split: js_val.splits js_num.splits if_splits)

lemma requireDecreaseFactor_range:
  "requireDecreaseFactor name v d = Inr q \<Longrightarrow> 0 < d \<Longrightarrow> d < 1 \<Longrightarrow> 0 < q \<and> q < 1"
  by (auto simp: requireDecreaseFactor_def split: js_val.splits js_num.splits if_splits)

lemma resolveAdaptationParams_ok:
  assumes "resolveAdaptationParams i minL maxL winMs = Inr p"
    and "0 < minL" "minL \<le> maxL" "maxL \<le> MAX_ADMISSION_COST_OR_LIMIT" "0 < winMs" "winMs \<le> MAX_ADMISSION_WINDOW_MS"
  shows "params_ok p \<and> ap_minLimit p = minL \<and> ap_maxLimit p = maxL \<and> ap_windowMs p = winMs"
proof -
  from assms(1) obtain dec crit inc maxInc sa la hi lo grad where
    r: "requireDecreaseFactor ''decreaseFactor'' (in_decreaseFactor i) (8/10) = Inr dec"
      "requireDecreaseFactor ''criticalDecreaseFactor'' (in_criticalDecreaseFactor i) (1/2) = Inr crit"
      "optionalInt ''increaseStep'' (in_increaseStep i) 1 MAX_ADMISSION_COST_OR_LIMIT = Inr inc"
      "optionalInt ''maxIncreasePerWindow'' (in_maxIncreasePerWindow i) inc MAX_ADMISSION_COST_OR_LIMIT = Inr maxInc"
      "requireUnitInterval ''shortLatencyAlpha'' (in_shortLatencyAlpha i) (1/2) = Inr sa"
      "requireUnitInterval ''longLatencyAlpha'' (in_longLatencyAlpha i) (1/10) = Inr la"
      "requireUnitInterval ''highUtilizationThreshold'' (in_highUtilizationThreshold i) (7/10) = Inr hi"
      "requireUnitInterval ''lowUtilizationThreshold'' (in_lowUtilizationThreshold i) (3/10) = Inr lo"
      "requireUnitInterval ''latencyGradientThreshold'' (in_latencyGradientThreshold i) (1/4) = Inr grad"
    and c: "\<not> crit > dec" "\<not> lo \<ge> hi" "\<not> sa \<le> la"
    and p: "p = \<lparr>ap_minLimit = minL, ap_maxLimit = maxL, ap_windowMs = winMs, shortLatencyAlpha = sa,
          longLatencyAlpha = la, increaseStep = inc, decreaseFactor = dec,
          criticalDecreaseFactor = crit, highUtilizationThreshold = hi, lowUtilizationThreshold = lo,
          latencyGradientThreshold = grad, maxIncreasePerWindow = maxInc\<rparr>"
    by (auto simp: resolveAdaptationParams_def split: if_splits)
  have inc: "0 < inc \<and> inc \<le> MAX_ADMISSION_COST_OR_LIMIT"
    using optionalInt_range [OF r(3)] by (simp add: MAX_ADMISSION_COST_OR_LIMIT_value)
  with optionalInt_range [OF r(4)] have "0 < maxInc" by simp
  moreover note inc requireDecreaseFactor_range [OF r(1)] requireDecreaseFactor_range [OF r(2)]
    requireUnitInterval_range [OF r(5)] requireUnitInterval_range [OF r(6)] requireUnitInterval_range [OF r(7)]
    requireUnitInterval_range [OF r(8)] requireUnitInterval_range [OF r(9)]
  ultimately show ?thesis using assms(2-6) c by (simp add: p params_ok_def)
qed

lemma validated_config_ok:
  assumes "validateConfig i = Inr c"
  shows "config_ok c"
proof -
  from assms obtain minL maxL initL qCount qCost winMs waitMs cc m ap where
    r: "requirePositiveInt ''minLimit'' (in_minLimit i) MAX_ADMISSION_COST_OR_LIMIT = Inr minL"
      "requirePositiveInt ''maxLimit'' (in_maxLimit i) MAX_ADMISSION_COST_OR_LIMIT = Inr maxL"
      "requirePositiveInt ''initialLimit'' (in_initialLimit i) MAX_ADMISSION_COST_OR_LIMIT = Inr initL"
      "requirePositiveInt ''maxQueueCount'' (in_maxQueueCount i) MAX_SAFE_INTEGER = Inr qCount"
      "requirePositiveInt ''maxQueueCost'' (in_maxQueueCost i) MAX_ADMISSION_COST_OR_LIMIT = Inr qCost"
    and w: "optionalInt ''windowMs'' (in_windowMs i) 1000 MAX_ADMISSION_WINDOW_MS = Inr winMs"
      "optionalInt ''defaultMaxWaitMs'' (in_defaultMaxWaitMs i) 5000 MAX_ADMISSION_WINDOW_MS = Inr waitMs"
    and cc: "resolveCostConfig (in_cost i) = Inr cc"
    and ap: "resolveAdaptationParams i minL maxL winMs = Inr ap"
    and le: "minL \<le> maxL"
    and c: "c = \<lparr>mode = m, minLimit = minL, maxLimit = maxL, initialLimit = initL, maxQueueCount = qCount,
          maxQueueCost = qCost, defaultMaxWaitMs = waitMs, windowMs = winMs, adaptation = ap,
          cfg_maxRequestCost = maxRequestCost cc, costConfig = cc,
          virtualLanes = (in_virtualLanes i = Bool True)\<rparr>"
    by (auto simp: validateConfig_def split: if_splits)
  have win: "0 < winMs \<and> winMs \<le> MAX_ADMISSION_WINDOW_MS" and wait: "0 < waitMs \<and> waitMs \<le> MAX_ADMISSION_WINDOW_MS"
    using optionalInt_range [OF w(1)] optionalInt_range [OF w(2)] by (simp_all add: MAX_ADMISSION_WINDOW_MS_def)
  note b = r [unfolded requirePositiveInt_Inr]
  show ?thesis
    using resolveAdaptationParams_ok [OF ap] resolveCostConfig_ok [OF cc] b le win wait
    by (simp add: c config_ok_def)
qed

section \<open>Properties\<close>

text \<open>
  C8. Whatever JavaScript values a caller passes, a configuration that the validator accepts is well
  formed: ordered positive limits, thresholds and factors inside their intervals, and every cost and
  limit small enough that cost times window stays a safe integer.
\<close>

theorem validateConfig_ok:
  assumes "validateConfig i = Inr c"
  shows "config_ok c"
  using assms by (rule validated_config_ok)

definition sample_input :: admission_input where
  "sample_input = \<lparr>in_mode = Str ''enforce'', in_minLimit = js_int 1, in_maxLimit = js_int 20,
     in_initialLimit = js_int 10, in_maxQueueCount = js_int 4, in_maxQueueCost = js_int 40,
     in_defaultMaxWaitMs = Undefined, in_windowMs = Undefined, in_shortLatencyAlpha = Undefined,
     in_longLatencyAlpha = Undefined, in_increaseStep = js_int 5, in_decreaseFactor = Undefined,
     in_criticalDecreaseFactor = Undefined, in_highUtilizationThreshold = Undefined,
     in_lowUtilizationThreshold = Undefined, in_latencyGradientThreshold = Undefined,
     in_maxIncreasePerWindow = Undefined, in_cost = no_overrides, in_virtualLanes = Undefined\<rparr>"

definition sample_config :: validated_config where
  "sample_config = \<lparr>mode = Enforce, minLimit = 1, maxLimit = 20, initialLimit = 10, maxQueueCount = 4,
     maxQueueCost = 40, defaultMaxWaitMs = 5000, windowMs = 1000, adaptation = sample_params,
     cfg_maxRequestCost = 1000, costConfig = DEFAULT_ADMISSION_COST_CONFIG, virtualLanes = False\<rparr>"

lemma sample_adaptation: "resolveAdaptationParams sample_input 1 20 1000 = Inr sample_params"
proof -
  have "optionalInt ''increaseStep'' (js_int 5) 1 MAX_ADMISSION_COST_OR_LIMIT = Inr 5"
    by (simp add: optionalInt_Inr MAX_ADMISSION_COST_OR_LIMIT_value MAX_SAFE_INTEGER_def)
  then show ?thesis
    by (simp add: resolveAdaptationParams_def sample_input_def sample_params_def requireDecreaseFactor_def
        requireUnitInterval_def optionalInt_def)
qed

lemma sample_validates: "validateConfig sample_input = Inr sample_config"
proof -
  have r: "requirePositiveInt n (js_int k) mx = Inr k" if "0 < k" "k \<le> mx" "k \<le> MAX_SAFE_INTEGER" for n k mx
    using that by (simp add: requirePositiveInt_Inr)
  have q: "requirePositiveInt n (js_int k) MAX_ADMISSION_COST_OR_LIMIT = Inr k" if "0 < k" "k \<le> 40" for n k
    using that by (intro r) (simp_all add: MAX_ADMISSION_COST_OR_LIMIT_value MAX_SAFE_INTEGER_def)
  have s: "requirePositiveInt ''maxQueueCount'' (js_int 4) MAX_SAFE_INTEGER = Inr 4"
    by (intro r) (simp_all add: MAX_SAFE_INTEGER_def)
  show ?thesis
    unfolding validateConfig_def
    using q [of 1] q [of 20] q [of 10] q [of 40] s sample_adaptation resolveCostConfig_default
    by (simp add: sample_input_def sample_config_def optionalInt_def resolveMode_def DEFAULT_ADMISSION_COST_CONFIG_def)
qed

theorem validateConfig_ok_witness:
  "validateConfig sample_input = Inr sample_config \<and> config_ok sample_config"
  using sample_validates validateConfig_ok [OF sample_validates] by blast

end
