(* ===== verification/Fair_Cost_Queue.thy ===== *)
theory Fair_Cost_Queue
  imports Admission_Cost
begin

text \<open>
  Admission control, part four: the bounded multi-tenant queue of
  \<^verbatim>\<open>open-sse/services/admission/queue.ts\<close>. Each tenant has a first-in first-out bucket; \<^verbatim>\<open>dequeue\<close> visits
  the tenants round robin from a cursor, skips heads that do not fit the available cost, and after
  two pass-overs reserves the capacity for the aged head. The JavaScript object identity of a
  bypassed entry, whose \<^verbatim>\<open>skipCount\<close> the code increments in place, is rendered by rewriting the head
  of its tenant's bucket.
\<close>

section \<open>State\<close>

definition MAX_UNFITTABLE_SKIPS :: nat where
  "MAX_UNFITTABLE_SKIPS = 2"

record ('i, 'p) queue_entry =
  entry_id :: 'i
  tenantKey :: string
  cost :: int
  enqueuedAtMs :: int
  deadlineMs :: int
  payload :: 'p
  skipCount :: nat

record ('i, 'p) fair_queue =
  maxCount :: int
  maxCost :: int
  buckets :: "(string, ('i, 'p) queue_entry list) jmap"
  order :: "string list"
  cursor :: nat
  qcount :: int
  qcost :: int

definition new_queue :: "int \<Rightarrow> int \<Rightarrow> ('i, 'p) fair_queue" where
  "new_queue mCount mCost =
     \<lparr>maxCount = mCount, maxCost = mCost, buckets = [], order = [], cursor = 0, qcount = 0, qcost = 0\<rparr>"

section \<open>Operations\<close>

definition canAccept :: "int \<Rightarrow> ('i, 'p) fair_queue \<Rightarrow> bool" where
  "canAccept entryCost q \<longleftrightarrow>
     \<bar>entryCost\<bar> \<le> MAX_SAFE_INTEGER \<and> entryCost > 0 \<and> qcount q < maxCount q \<and>
     entryCost \<le> maxCost q - qcost q"

definition enqueue :: "('i, 'p) queue_entry \<Rightarrow> ('i, 'p) fair_queue \<Rightarrow> bool \<times> ('i, 'p) fair_queue" where
  "enqueue e q =
     (if \<not> canAccept (cost e) q then (False, q)
      else
        let q1 = (case jget (buckets q) (tenantKey e) of
                    None \<Rightarrow> q\<lparr>buckets := jset (tenantKey e) [e] (buckets q), order := order q @ [tenantKey e]\<rparr>
                  | Some bucket \<Rightarrow> q\<lparr>buckets := jset (tenantKey e) (bucket @ [e]) (buckets q)\<rparr>)
        in (True, q1\<lparr>qcount := qcount q + 1, qcost := qcost q + cost e\<rparr>))"

text \<open>The head of the tenant at one position of the visiting order.\<close>

definition head_at :: "('i, 'p) fair_queue \<Rightarrow> nat \<Rightarrow> ('i, 'p) queue_entry option" where
  "head_at q idx =
     (case jget (buckets q) (order q ! idx) of Some (e # _) \<Rightarrow> Some e | _ \<Rightarrow> None)"

definition visit_order :: "('i, 'p) fair_queue \<Rightarrow> nat list" where
  "visit_order q = map (\<lambda>i. (cursor q + i) mod length (order q)) [0..<length (order q)]"

definition takeAt :: "nat \<Rightarrow> ('i, 'p) fair_queue \<Rightarrow> ('i, 'p) queue_entry option \<times> ('i, 'p) fair_queue" where
  "takeAt idx q =
     (let tenant = order q ! idx in
      case jget (buckets q) tenant of
        Some (e # es) \<Rightarrow>
          (let q1 = q\<lparr>qcount := qcount q - 1, qcost := qcost q - cost e\<rparr> in
           (Some (e\<lparr>skipCount := 0\<rparr>),
            if es = []
            then (let ord = splice_out idx (order q) in
                  q1\<lparr>buckets := jdel tenant (buckets q), order := ord,
                     cursor := (if ord = [] then 0 else idx mod length ord)\<rparr>)
            else q1\<lparr>buckets := jset tenant es (buckets q), cursor := (idx + 1) mod length (order q)\<rparr>))
      | _ \<Rightarrow> (None, q))"

text \<open>First pass: the aged head with the earliest enqueue time, if any tenant has one.\<close>

fun scan_reserved ::
  "('i, 'p) fair_queue \<Rightarrow> nat list \<Rightarrow> (nat \<times> ('i, 'p) queue_entry) option \<Rightarrow> (nat \<times> ('i, 'p) queue_entry) option" where
  "scan_reserved q [] reserved = reserved"
| "scan_reserved q (idx # idxs) reserved =
     (case head_at q idx of
        None \<Rightarrow> scan_reserved q idxs reserved
      | Some e \<Rightarrow>
          scan_reserved q idxs
            (if skipCount e \<ge> MAX_UNFITTABLE_SKIPS \<and>
                (case reserved of None \<Rightarrow> True | Some (_, r) \<Rightarrow> enqueuedAtMs e < enqueuedAtMs r)
             then Some (idx, e) else reserved))"

text \<open>Second pass: the first head that fits, with the tenants bypassed on the way.\<close>

fun scan_fit :: "('i, 'p) fair_queue \<Rightarrow> int \<Rightarrow> nat list \<Rightarrow> string list \<Rightarrow> (nat \<times> string list) option" where
  "scan_fit q budget [] bypassed = None"
| "scan_fit q budget (idx # idxs) bypassed =
     (case head_at q idx of
        None \<Rightarrow> scan_fit q budget idxs bypassed
      | Some e \<Rightarrow>
          if cost e > budget then scan_fit q budget idxs (bypassed @ [order q ! idx])
          else Some (idx, bypassed))"

definition bump_skip :: "string \<Rightarrow> ('i, 'p) fair_queue \<Rightarrow> ('i, 'p) fair_queue" where
  "bump_skip t q =
     (case jget (buckets q) t of
        Some (e # es) \<Rightarrow> q\<lparr>buckets := jset t (e\<lparr>skipCount := skipCount e + 1\<rparr> # es) (buckets q)\<rparr>
      | _ \<Rightarrow> q)"

definition dequeue :: "int \<Rightarrow> ('i, 'p) fair_queue \<Rightarrow> ('i, 'p) queue_entry option \<times> ('i, 'p) fair_queue" where
  "dequeue budget q =
     (if qcount q = 0 then (None, q)
      else case scan_reserved q (visit_order q) None of
             Some (idx, e) \<Rightarrow> if cost e > budget then (None, q) else takeAt idx q
           | None \<Rightarrow>
               (case scan_fit q budget (visit_order q) [] of
                  None \<Rightarrow> (None, q)
                | Some (idx, bypassed) \<Rightarrow> takeAt idx (fold bump_skip bypassed q)))"

fun first_head :: "('i, 'p) fair_queue \<Rightarrow> nat list \<Rightarrow> ('i, 'p) queue_entry option" where
  "first_head q [] = None"
| "first_head q (idx # idxs) = (case head_at q idx of Some e \<Rightarrow> Some e | None \<Rightarrow> first_head q idxs)"

definition peek :: "('i, 'p) fair_queue \<Rightarrow> ('i, 'p) queue_entry option" where
  "peek q = (if qcount q = 0 then None else first_head q (visit_order q))"

text \<open>Removing one entry of the bucket at position \<open>ti\<close>, with the cursor correction of the source.\<close>

definition remove_at :: "nat \<Rightarrow> nat \<Rightarrow> ('i, 'p) queue_entry list \<Rightarrow> ('i, 'p) fair_queue \<Rightarrow> ('i, 'p) fair_queue" where
  "remove_at ti idx bucket q =
     (let tenant = order q ! ti;
          e = bucket ! idx;
          bucket' = splice_out idx bucket;
          q1 = q\<lparr>qcount := qcount q - 1, qcost := qcost q - cost e\<rparr>
      in if bucket' = []
         then (let ord = splice_out ti (order q) in
               q1\<lparr>buckets := jdel tenant (buckets q), order := ord,
                  cursor := (if ord = [] then 0
                             else if ti < cursor q then cursor q - 1
                             else if cursor q \<ge> length ord then 0
                             else cursor q)\<rparr>)
         else q1\<lparr>buckets := jset tenant bucket' (buckets q)\<rparr>)"

fun remove_scan ::
  "'i \<Rightarrow> ('i, 'p) fair_queue \<Rightarrow> nat list \<Rightarrow> ('i, 'p) queue_entry option \<times> ('i, 'p) fair_queue" where
  "remove_scan i q [] = (None, q)"
| "remove_scan i q (ti # tis) =
     (case jget (buckets q) (order q ! ti) of
        None \<Rightarrow> remove_scan i q tis
      | Some bucket \<Rightarrow>
          (case findIndex (\<lambda>e. entry_id e = i) bucket of
             None \<Rightarrow> remove_scan i q tis
           | Some idx \<Rightarrow> (Some (bucket ! idx), remove_at ti idx bucket q)))"

definition removeById :: "'i \<Rightarrow> ('i, 'p) fair_queue \<Rightarrow> ('i, 'p) queue_entry option \<times> ('i, 'p) fair_queue" where
  "removeById i q = remove_scan i q [0..<length (order q)]"

text \<open>How many entries the buckets hold: the measure of the draining loop.\<close>

definition held :: "(string, ('i, 'p) queue_entry list) jmap \<Rightarrow> nat" where
  "held bs = sum_list (map (\<lambda>(t, es). length es) bs)"

definition held_cost :: "(string, ('i, 'p) queue_entry list) jmap \<Rightarrow> int" where
  "held_cost bs = sum_list (map (\<lambda>(t, es). sum_list (map cost es)) bs)"

lemma held_simps [simp]:
  "held [] = 0" "held ((t, es) # bs) = length es + held bs" "held (as @ bs) = held as + held bs"
  by (simp_all add: held_def)

lemma held_cost_simps [simp]:
  "held_cost [] = 0" "held_cost ((t, es) # bs) = sum_list (map cost es) + held_cost bs"
  "held_cost (as @ bs) = held_cost as + held_cost bs"
  by (simp_all add: held_cost_def)

lemma held_jset: "jget bs t = Some es \<Longrightarrow> held (jset t es' bs) + length es = held bs + length es'"
  by (induction bs) (auto simp: jset_def split: if_splits)

lemma held_jdel: "jget bs t = Some es \<Longrightarrow> held (jdel t bs) + length es \<le> held bs"
proof (induction bs)
  case (Cons b bs)
  obtain t' xs where b: "b = (t', xs)" by force
  have "held (jdel t bs) \<le> held bs" for t
    by (induction bs) (auto simp: jdel_def intro: le_trans)
  with Cons b show ?case by (auto simp: jdel_def split: if_splits)
qed simp

lemma bump_skip_held [simp]: "held (buckets (bump_skip t q)) = held (buckets q)"
proof (cases "\<exists>e es. jget (buckets q) t = Some (e # es)")
  case True
  then obtain e es where "jget (buckets q) t = Some (e # es)" by blast
  with held_jset [OF this, of "e\<lparr>skipCount := skipCount e + 1\<rparr> # es"] show ?thesis
    by (simp add: bump_skip_def)
qed (auto simp: bump_skip_def split: option.splits list.splits)

lemma fold_bump_held [simp]: "held (buckets (fold bump_skip ts q)) = held (buckets q)"
  by (induction ts arbitrary: q) auto

lemma takeAt_less:
  assumes "takeAt idx q = (Some e, q')"
  shows "held (buckets q') < held (buckets q)"
proof -
  from assms obtain x es where g: "jget (buckets q) (order q ! idx) = Some (x # es)"
    by (auto simp: takeAt_def Let_def split: option.splits list.splits)
  with assms have "buckets q' = (if es = [] then jdel (order q ! idx) (buckets q) else jset (order q ! idx) es (buckets q))"
    by (auto simp: takeAt_def Let_def)
  then show ?thesis using held_jdel [OF g] held_jset [OF g, of es] by auto
qed

lemma dequeue_less: "dequeue b q = (Some e, q') \<Longrightarrow> held (buckets q') < held (buckets q)"
  by (auto simp: dequeue_def split: if_splits option.splits prod.splits dest: takeAt_less)

text \<open>The loop of \<^verbatim>\<open>drain\<close>: dequeue without a cost bound until nothing comes back.\<close>

function drain_loop :: "('i, 'p) fair_queue \<Rightarrow> ('i, 'p) queue_entry list \<times> ('i, 'p) fair_queue" where
  "drain_loop q =
     (case dequeue MAX_SAFE_INTEGER q of
        (None, q') \<Rightarrow> ([], q')
      | (Some e, q') \<Rightarrow> (let r = drain_loop q' in (e # fst r, snd r)))"
  by pat_completeness auto
termination
  by (relation "measure (\<lambda>q. held (buckets q))") (auto dest: dequeue_less [OF sym])

declare drain_loop.simps [simp del]

definition drain :: "('i, 'p) fair_queue \<Rightarrow> ('i, 'p) queue_entry list \<times> ('i, 'p) fair_queue" where
  "drain q = (let r = drain_loop q in (fst r, (snd r)\<lparr>cursor := 0\<rparr>))"

section \<open>Invariant and abstraction\<close>

definition entry_ok :: "string \<Rightarrow> ('i, 'p) queue_entry \<Rightarrow> bool" where
  "entry_ok t e \<longleftrightarrow> tenantKey e = t \<and> 0 < cost e \<and> cost e \<le> MAX_SAFE_INTEGER \<and> skipCount e \<le> MAX_UNFITTABLE_SKIPS"

definition buckets_ok :: "(string, ('i, 'p) queue_entry list) jmap \<Rightarrow> bool" where
  "buckets_ok bs \<longleftrightarrow>
     distinct (jkeys bs) \<and> (\<forall>(t, es) \<in> set bs. es \<noteq> [] \<and> (\<forall>e \<in> set es. entry_ok t e))"

definition fq_inv :: "('i, 'p) fair_queue \<Rightarrow> bool" where
  "fq_inv q \<longleftrightarrow>
     buckets_ok (buckets q) \<and> order q = jkeys (buckets q) \<and>
     qcount q = int (held (buckets q)) \<and> qcost q = held_cost (buckets q) \<and>
     qcount q \<le> maxCount q \<and> qcost q \<le> maxCost q \<and>
     (order q = [] \<longrightarrow> cursor q = 0) \<and> (order q \<noteq> [] \<longrightarrow> cursor q < length (order q))"

lemma fq_invI:
  assumes "buckets_ok (buckets q)" "order q = jkeys (buckets q)" "qcount q = int (held (buckets q))"
    and "qcost q = held_cost (buckets q)" "qcount q \<le> maxCount q" "qcost q \<le> maxCost q"
    and "if order q = [] then cursor q = 0 else cursor q < length (order q)"
  shows "fq_inv q"
  using assms unfolding fq_inv_def by presburger

lemma fq_invD:
  assumes "fq_inv q"
  shows "buckets_ok (buckets q)" "order q = jkeys (buckets q)" "qcount q = int (held (buckets q))"
    and "qcost q = held_cost (buckets q)" "qcount q \<le> maxCount q" "qcost q \<le> maxCost q"
    and "order q = [] \<Longrightarrow> cursor q = 0" "order q \<noteq> [] \<Longrightarrow> cursor q < length (order q)"
  using assms unfolding fq_inv_def by blast+

text \<open>The waiting line of one tenant, and all waiting entries, both without the skip counters.\<close>

definition erase :: "('i, 'p) queue_entry \<Rightarrow> ('i, 'p) queue_entry" where
  "erase e = e\<lparr>skipCount := 0\<rparr>"

definition line :: "('i, 'p) fair_queue \<Rightarrow> string \<Rightarrow> ('i, 'p) queue_entry list" where
  "line q t = map erase (case jget (buckets q) t of None \<Rightarrow> [] | Some es \<Rightarrow> es)"

definition held_items :: "(string, ('i, 'p) queue_entry list) jmap \<Rightarrow> ('i, 'p) queue_entry multiset" where
  "held_items bs = mset (map erase (concat (map snd bs)))"

abbreviation items :: "('i, 'p) fair_queue \<Rightarrow> ('i, 'p) queue_entry multiset" where
  "items q \<equiv> held_items (buckets q)"

lemma erase_simps [simp]:
  "entry_id (erase e) = entry_id e" "tenantKey (erase e) = tenantKey e" "cost (erase e) = cost e"
  "enqueuedAtMs (erase e) = enqueuedAtMs e" "deadlineMs (erase e) = deadlineMs e"
  "payload (erase e) = payload e" "skipCount (erase e) = 0"
  "erase (e\<lparr>skipCount := n\<rparr>) = erase e" "erase (erase e) = erase e"
  by (simp_all add: erase_def)

lemma held_items_simps [simp]:
  "held_items [] = {#}" "held_items ((t, es) # bs) = mset (map erase es) + held_items bs"
  "held_items (as @ bs) = held_items as + held_items bs"
  by (simp_all add: held_items_def)

lemma buckets_ok_simps [simp]:
  "buckets_ok []"
  "buckets_ok ((t, es) # bs) \<longleftrightarrow>
     t \<notin> set (jkeys bs) \<and> es \<noteq> [] \<and> (\<forall>e \<in> set es. entry_ok t e) \<and> buckets_ok bs"
  by (auto simp: buckets_ok_def)

lemma buckets_ok_append:
  "buckets_ok (as @ bs) \<longleftrightarrow> buckets_ok as \<and> buckets_ok bs \<and> set (jkeys as) \<inter> set (jkeys bs) = {}"
  unfolding buckets_ok_def map_append distinct_append set_append ball_Un by blast

lemma size_held_items: "size (held_items bs) = held bs"
  by (induction bs) auto

lemma held_cost_items: "held_cost bs = (\<Sum>e \<in># held_items bs. cost e)"
proof (induction bs)
  case (Cons b bs)
  obtain t es where b: "b = (t, es)" by force
  have "(\<Sum>e \<in># mset (map erase es). cost e) = sum_list (map cost es)"
    by (induction es) auto
  with Cons b show ?case by simp
qed simp

lemma held_items_ok: "buckets_ok bs \<Longrightarrow> e \<in># held_items bs \<Longrightarrow> 0 < cost e \<and> cost e \<le> MAX_SAFE_INTEGER"
  by (induction bs) (auto simp: entry_ok_def)

lemma held_zero: "buckets_ok bs \<Longrightarrow> held bs = 0 \<longleftrightarrow> bs = []"
  by (cases bs) auto

text \<open>The bucket at a position of the order, with the map split around it.\<close>

lemma bucket_split:
  assumes "fq_inv q" "idx < length (order q)"
  obtains a t es b where "buckets q = a @ (t, es) # b" "length a = idx" "order q ! idx = t"
    "t \<notin> set (jkeys a)" "t \<notin> set (jkeys b)" "es \<noteq> []" "\<And>e. e \<in> set es \<Longrightarrow> entry_ok t e"
proof -
  let ?bs = "buckets q"
  from assms have o: "order q = jkeys ?bs" and ok: "buckets_ok ?bs" and i: "idx < length ?bs"
    by (auto simp: fq_inv_def)
  obtain t es where te: "?bs ! idx = (t, es)" by force
  have s: "?bs = take idx ?bs @ (t, es) # drop (Suc idx) ?bs"
    using nth_split [OF i] te by simp
  have "order q ! idx = t" using o i te by simp
  moreover have "buckets_ok (take idx ?bs @ (t, es) # drop (Suc idx) ?bs)" using ok s by simp
  moreover from this have "t \<notin> set (jkeys (take idx ?bs))" "t \<notin> set (jkeys (drop (Suc idx) ?bs))" "es \<noteq> []"
    "\<And>e. e \<in> set es \<Longrightarrow> entry_ok t e"
    unfolding buckets_ok_append buckets_ok_simps by auto
  ultimately show thesis
    using that [of "take idx ?bs" t es "drop (Suc idx) ?bs"] s i by (metis length_take min.absorb4)
qed

lemma jget_at: "k \<notin> set (jkeys a) \<Longrightarrow> jget (a @ (k, v) # b) k = Some v"
  by (induction a) auto

lemma jget_insert: "k \<notin> set (jkeys a) \<Longrightarrow> jget (a @ (k, v) # b) x = (if x = k then Some v else jget (a @ b) x)"
  by (induction a) auto

lemma jset_at: "k \<notin> set (jkeys a) \<Longrightarrow> jset k w (a @ (k, v) # b) = a @ (k, w) # b"
  by (simp add: jset_hit)

lemma head_at_split:
  "buckets q = a @ (t, e # es) # b \<Longrightarrow> order q ! idx = t \<Longrightarrow> t \<notin> set (jkeys a) \<Longrightarrow> head_at q idx = Some e"
  by (simp add: head_at_def jget_at)

lemma head_at_inv:
  assumes "fq_inv q" "idx < length (order q)"
  obtains e es where "jget (buckets q) (order q ! idx) = Some (e # es)" "head_at q idx = Some e"
    "entry_ok (order q ! idx) e"
proof -
  obtain a t es b where s: "buckets q = a @ (t, es) # b" "order q ! idx = t" "t \<notin> set (jkeys a)" "es \<noteq> []"
    "\<And>e. e \<in> set es \<Longrightarrow> entry_ok t e"
    using bucket_split [OF assms] by metis
  then obtain e es' where "es = e # es'" by (cases es) auto
  with s that [of e es'] show thesis by (simp add: jget_at head_at_def)
qed

section \<open>Every operation keeps the invariant\<close>

lemma new_queue_inv [inv_intro]: "0 \<le> mc \<Longrightarrow> 0 \<le> mk \<Longrightarrow> fq_inv (new_queue mc mk)"
  by (simp add: fq_inv_def new_queue_def)

lemma new_queue_items [simp]: "items (new_queue mc mk) = {#}"
  by (simp add: new_queue_def)

lemma enqueue_accept:
  assumes inv: "fq_inv q" and acc: "canAccept (cost e) q" and sk: "skipCount e \<le> MAX_UNFITTABLE_SKIPS"
  shows "\<exists>q'. enqueue e q = (True, q') \<and> fq_inv q' \<and> items q' = add_mset (erase e) (items q) \<and>
    line q' = (line q)(tenantKey e := line q (tenantKey e) @ [erase e]) \<and>
    maxCount q' = maxCount q \<and> maxCost q' = maxCost q"
proof -
  have eok: "entry_ok (tenantKey e) e" using acc sk by (auto simp: entry_ok_def canAccept_def)
  have caps: "qcount q + 1 \<le> maxCount q" "qcost q + cost e \<le> maxCost q" using acc by (auto simp: canAccept_def)
  show ?thesis
  proof (cases "jget (buckets q) (tenantKey e)")
    case None
    then have n: "tenantKey e \<notin> set (jkeys (buckets q))" by (rule jget_None [THEN iffD1])
    define q' where "q' = q\<lparr>buckets := buckets q @ [(tenantKey e, [e])], order := order q @ [tenantKey e],
      qcount := qcount q + 1, qcost := qcost q + cost e\<rparr>"
    have "enqueue e q = (True, q')"
      using acc None n by (simp add: enqueue_def q'_def jset_append)
    moreover have "fq_inv q'"
    proof (rule fq_invI)
      show "buckets_ok (buckets q')" using fq_invD(1) [OF inv] n eok by (simp add: q'_def buckets_ok_append)
      show "order q' = jkeys (buckets q')" using fq_invD(2) [OF inv] by (simp add: q'_def)
      show "if order q' = [] then cursor q' = 0 else cursor q' < length (order q')"
        using fq_invD(7,8) [OF inv] by (cases "order q = []") (auto simp: q'_def)
    qed (use caps fq_invD(3,4) [OF inv] in \<open>simp_all add: q'_def\<close>)
    moreover have "items q' = add_mset (erase e) (items q)" by (simp add: q'_def)
    moreover have "line q' = (line q)(tenantKey e := line q (tenantKey e) @ [erase e])"
      using None by (auto simp: q'_def line_def jget_append fun_eq_iff split: option.splits)
    ultimately show ?thesis by (simp add: q'_def)
  next
    case (Some es)
    then obtain a b where s: "buckets q = a @ (tenantKey e, es) # b" "tenantKey e \<notin> set (jkeys a)"
      by (rule jget_split)
    define q' where "q' = q\<lparr>buckets := a @ (tenantKey e, es @ [e]) # b, qcount := qcount q + 1, qcost := qcost q + cost e\<rparr>"
    have "enqueue e q = (True, q')"
      using acc Some s by (simp add: enqueue_def q'_def jset_at)
    moreover have "fq_inv q'"
    proof (rule fq_invI)
      show "buckets_ok (buckets q')" using fq_invD(1) [OF inv] eok s by (simp add: q'_def buckets_ok_append ball_Un)
      show "order q' = jkeys (buckets q')" using fq_invD(2) [OF inv] s by (simp add: q'_def)
      show "if order q' = [] then cursor q' = 0 else cursor q' < length (order q')"
        using fq_invD(7,8) [OF inv] by (simp add: q'_def)
    qed (use caps fq_invD(3,4) [OF inv] s in \<open>simp_all add: q'_def\<close>)
    moreover have "items q' = add_mset (erase e) (items q)" by (simp add: q'_def s)
    moreover have "line q' = (line q)(tenantKey e := line q (tenantKey e) @ [erase e])"
      using s by (simp add: q'_def line_def jget_insert fun_eq_iff)
    ultimately show ?thesis by (simp add: q'_def)
  qed
qed

lemma enqueue_reject: "\<not> canAccept (cost e) q \<Longrightarrow> enqueue e q = (False, q)"
  by (simp add: enqueue_def)

lemma enqueue_fst [simp]: "fst (enqueue e q) \<longleftrightarrow> canAccept (cost e) q"
  by (simp add: enqueue_def Let_def)

lemma takeAt_inv:
  assumes inv: "fq_inv q" and i: "idx < length (order q)"
  shows "\<exists>e q'. takeAt idx q = (Some (erase e), q') \<and> head_at q idx = Some e \<and> fq_inv q' \<and>
    items q = add_mset (erase e) (items q') \<and>
    line q = (line q')(order q ! idx := erase e # line q' (order q ! idx)) \<and>
    maxCount q' = maxCount q \<and> maxCost q' = maxCost q"
proof -
  obtain a t es b where s: "buckets q = a @ (t, es) # b" "length a = idx" "order q ! idx = t"
    "t \<notin> set (jkeys a)" "t \<notin> set (jkeys b)" "es \<noteq> []"
    using bucket_split [OF assms] by metis
  then obtain e es' where es: "es = e # es'" by (cases es) auto
  have ce: "0 < cost e"
    using held_items_ok [OF fq_invD(1) [OF inv], of "erase e"] s es by simp
  have ordq: "order q = jkeys a @ t # jkeys b" using inv s by (simp add: fq_inv_def)
  define q' where "q' = (if es' = []
    then q\<lparr>qcount := qcount q - 1, qcost := qcost q - cost e, buckets := a @ b, order := jkeys a @ jkeys b,
           cursor := (if jkeys a @ jkeys b = [] then 0 else idx mod length (jkeys a @ jkeys b))\<rparr>
    else q\<lparr>qcount := qcount q - 1, qcost := qcost q - cost e, buckets := a @ (t, es') # b,
           cursor := (idx + 1) mod length (order q)\<rparr>)"
  have sp: "splice_out idx (order q) = jkeys a @ jkeys b"
    unfolding ordq by (rule splice_out_append) (simp add: s)
  have g: "jget (buckets q) t = Some (e # es')" "jset t es' (buckets q) = a @ (t, es') # b"
    "jdel t (buckets q) = a @ b"
    using s es by (simp_all add: jget_at jset_at jdel_split)
  have "takeAt idx q = (Some (erase e), q')"
    unfolding takeAt_def Let_def s(3) sp g option.case list.case q'_def erase_def by simp
  moreover have "head_at q idx = Some e" using head_at_split s es by metis
  moreover have "0 < length (order q)" using i by linarith
  then have "fq_inv q'"
    using inv s es ordq ce by (auto simp: q'_def fq_inv_def buckets_ok_append)
  moreover have "items q = add_mset (erase e) (items q')" by (simp add: q'_def s es)
  moreover have "line q = (line q')(t := erase e # line q' t)"
  proof -
    have "jget (a @ b) t = None" using s(4,5) by (auto simp: jget_None)
    then show ?thesis using s(4) by (simp add: q'_def s es line_def jget_insert fun_eq_iff)
  qed
  ultimately show ?thesis using s(3) by (auto simp: q'_def)
qed

subsection \<open>Dequeue\<close>

lemma visit_order_rotate: "visit_order q = rotate (cursor q) [0..<length (order q)]"
proof (rule nth_equalityI)
  fix i assume "i < length (visit_order q)"
  then have i: "i < length (order q)" by (simp add: visit_order_def)
  then have "(cursor q + i) mod length (order q) < length (order q)" by (intro mod_less_divisor) linarith
  with i show "visit_order q ! i = rotate (cursor q) [0..<length (order q)] ! i"
    by (simp add: visit_order_def nth_rotate)
qed (simp add: visit_order_def)

lemma visit_order_simps [simp]:
  "set (visit_order q) = {..<length (order q)}" "distinct (visit_order q)"
  by (auto simp: visit_order_rotate)

definition aged :: "('i, 'p) queue_entry \<Rightarrow> bool" where
  "aged e \<longleftrightarrow> skipCount e \<ge> MAX_UNFITTABLE_SKIPS"

lemma scan_reserved_None:
  "scan_reserved q idxs r = None \<Longrightarrow> r = None \<and> (\<forall>idx \<in> set idxs. \<forall>e. head_at q idx = Some e \<longrightarrow> \<not> aged e)"
proof (induction idxs arbitrary: r)
  case (Cons i idxs)
  show ?case
  proof (cases "head_at q i")
    case None
    with Cons show ?thesis by auto
  next
    case (Some h)
    with Cons.prems have "scan_reserved q idxs (if skipCount h \<ge> MAX_UNFITTABLE_SKIPS \<and>
        (case r of None \<Rightarrow> True | Some (_, r') \<Rightarrow> enqueuedAtMs h < enqueuedAtMs r') then Some (i, h) else r) = None"
      by simp
    from Cons.IH [OF this] Some show ?thesis
      by (cases r) (auto simp: aged_def split: if_splits)
  qed
qed simp

lemma scan_reserved_Some:
  "scan_reserved q idxs r = Some (idx, e) \<Longrightarrow>
     (r = Some (idx, e) \<or> idx \<in> set idxs \<and> head_at q idx = Some e \<and> aged e) \<and>
     (\<forall>i r'. r = Some (i, r') \<longrightarrow> enqueuedAtMs e \<le> enqueuedAtMs r') \<and>
     (\<forall>i \<in> set idxs. \<forall>e'. head_at q i = Some e' \<longrightarrow> aged e' \<longrightarrow> enqueuedAtMs e \<le> enqueuedAtMs e')"
proof (induction q idxs r rule: scan_reserved.induct)
  case (2 q i idxs r)
  show ?case
  proof (cases "head_at q i")
    case None
    with 2 show ?thesis by auto
  next
    case (Some h)
    let ?r = "if skipCount h \<ge> MAX_UNFITTABLE_SKIPS \<and> (case r of None \<Rightarrow> True | Some (_, r') \<Rightarrow> enqueuedAtMs h < enqueuedAtMs r')
      then Some (i, h) else r"
    from 2 Some have "scan_reserved q idxs ?r = Some (idx, e)" by simp
    note IH = 2(2) [OF Some this]
    show ?thesis
    proof (cases "skipCount h \<ge> MAX_UNFITTABLE_SKIPS \<and> (case r of None \<Rightarrow> True | Some (_, r') \<Rightarrow> enqueuedAtMs h < enqueuedAtMs r')")
      case True
      with IH Some show ?thesis by (fastforce simp: aged_def split: option.splits)
    next
      case False
      with IH Some show ?thesis by (fastforce simp: aged_def split: option.splits)
    qed
  qed
qed auto

lemma scan_fit_None:
  "scan_fit q b idxs byp = None \<Longrightarrow> idx \<in> set idxs \<Longrightarrow> head_at q idx = Some e \<Longrightarrow> b < cost e"
  by (induction q b idxs byp rule: scan_fit.induct) (auto split: option.splits if_splits)

lemma scan_fit_Some:
  "scan_fit q b idxs byp = Some (idx, byp') \<Longrightarrow>
     \<exists>pre post es. idxs = pre @ idx # post \<and> byp' = byp @ map ((!) (order q)) (filter (\<lambda>i. head_at q i \<noteq> None) pre)
       \<and> head_at q idx = Some es \<and> cost es \<le> b \<and> (\<forall>i \<in> set pre. \<forall>e. head_at q i = Some e \<longrightarrow> b < cost e)"
proof (induction q b idxs byp rule: scan_fit.induct)
  case (2 q b i idxs byp)
  show ?case
  proof (cases "head_at q i")
    case None
    with 2 obtain pre post es where "idxs = pre @ idx # post"
      "byp' = byp @ map ((!) (order q)) (filter (\<lambda>i. head_at q i \<noteq> None) pre)" "head_at q idx = Some es" "cost es \<le> b"
      "\<forall>i \<in> set pre. \<forall>e. head_at q i = Some e \<longrightarrow> b < cost e" by auto
    with None show ?thesis
      by - (rule exI [of _ "i # pre"], rule exI [of _ post], rule exI [of _ es], simp)
  next
    case (Some h)
    show ?thesis
    proof (cases "cost h > b")
      case True
      with 2 Some obtain pre post es where "idxs = pre @ idx # post"
        "byp' = (byp @ [order q ! i]) @ map ((!) (order q)) (filter (\<lambda>i. head_at q i \<noteq> None) pre)"
        "head_at q idx = Some es" "cost es \<le> b" "\<forall>i \<in> set pre. \<forall>e. head_at q i = Some e \<longrightarrow> b < cost e"
        by auto
      with Some True show ?thesis
        by - (rule exI [of _ "i # pre"], rule exI [of _ post], rule exI [of _ es], simp)
    next
      case False
      with 2(3) Some show ?thesis
        by - (rule exI [of _ "[]"], rule exI [of _ idxs], rule exI [of _ h], simp)
    qed
  qed
qed simp

lemma bump_skip_inv:
  assumes inv: "fq_inv q" and young: "\<And>e es. jget (buckets q) t = Some (e # es) \<Longrightarrow> \<not> aged e"
  shows "fq_inv (bump_skip t q) \<and> items (bump_skip t q) = items q \<and> line (bump_skip t q) = line q \<and>
    order (bump_skip t q) = order q \<and> cursor (bump_skip t q) = cursor q \<and>
    maxCount (bump_skip t q) = maxCount q \<and> maxCost (bump_skip t q) = maxCost q \<and>
    (\<forall>t'. t' \<noteq> t \<longrightarrow> jget (buckets (bump_skip t q)) t' = jget (buckets q) t')"
proof (cases "\<exists>e es. jget (buckets q) t = Some (e # es)")
  case True
  then obtain e es where g: "jget (buckets q) t = Some (e # es)" by blast
  then obtain a b where s: "buckets q = a @ (t, e # es) # b" "t \<notin> set (jkeys a)" by (rule jget_split)
  let ?e = "e\<lparr>skipCount := skipCount e + 1\<rparr>"
  have B: "bump_skip t q = q\<lparr>buckets := a @ (t, ?e # es) # b\<rparr>"
    using g s by (simp add: bump_skip_def jset_at)
  have "skipCount e < MAX_UNFITTABLE_SKIPS" using young [OF g] by (simp add: aged_def)
  then have "fq_inv (bump_skip t q)"
    using fq_invD [OF inv] s unfolding B
    by (intro fq_invI) (simp_all add: buckets_ok_append entry_ok_def split: if_splits)
  moreover have "line (bump_skip t q) = line q"
    using s by (simp add: B line_def jget_insert fun_eq_iff)
  moreover have "\<forall>t'. t' \<noteq> t \<longrightarrow> jget (buckets (bump_skip t q)) t' = jget (buckets q) t'"
    using g by (simp add: bump_skip_def)
  moreover have "items (bump_skip t q) = items q" by (simp add: B s)
  ultimately show ?thesis by (simp add: B)
next
  case False
  then have "bump_skip t q = q" by (auto simp: bump_skip_def split: option.splits list.splits)
  with inv show ?thesis by simp
qed

lemma fold_bump_inv:
  assumes "fq_inv q" "distinct ts" "\<And>t e es. t \<in> set ts \<Longrightarrow> jget (buckets q) t = Some (e # es) \<Longrightarrow> \<not> aged e"
  shows "fq_inv (fold bump_skip ts q) \<and> items (fold bump_skip ts q) = items q \<and> line (fold bump_skip ts q) = line q \<and>
    order (fold bump_skip ts q) = order q \<and> maxCount (fold bump_skip ts q) = maxCount q \<and>
    maxCost (fold bump_skip ts q) = maxCost q \<and>
    (\<forall>t. t \<notin> set ts \<longrightarrow> jget (buckets (fold bump_skip ts q)) t = jget (buckets q) t)"
  using assms
proof (induction ts arbitrary: q)
  case (Cons t ts)
  let ?q = "bump_skip t q"
  have b: "fq_inv ?q" "items ?q = items q" "line ?q = line q" "order ?q = order q" "maxCount ?q = maxCount q"
    "maxCost ?q = maxCost q" "\<And>t'. t' \<noteq> t \<Longrightarrow> jget (buckets ?q) t' = jget (buckets q) t'"
    using bump_skip_inv [OF Cons.prems(1), of t] Cons.prems(3) by auto
  have y: "\<not> aged e" if "t' \<in> set ts" "jget (buckets ?q) t' = Some (e # es)" for t' e es
  proof -
    have "t' \<noteq> t" using Cons.prems(2) that(1) by auto
    with that b(7) Cons.prems(3) [of t' e es] show ?thesis by simp
  qed
  have "distinct ts" using Cons.prems(2) by simp
  note IH = Cons.IH [OF b(1) this y]
  show ?case using IH b Cons.prems(2) by simp
qed simp

lemma young_bypassed:
  assumes inv: "fq_inv q" and none: "scan_reserved q (visit_order q) None = None"
    and g: "jget (buckets q) t = Some (e # es)"
  shows "\<not> aged e"
proof -
  have "t \<in> set (order q)" using g fq_invD(2) [OF inv] jget_in_keys by fastforce
  then obtain i where i: "i < length (order q)" "order q ! i = t" by (metis in_set_conv_nth)
  with g have "head_at q i = Some e" by (simp add: head_at_def)
  with i scan_reserved_None [OF none] show ?thesis by auto
qed

lemma dequeue_fit_cases:
  assumes inv: "fq_inv q" and none: "scan_reserved q (visit_order q) None = None"
    and f: "scan_fit q b (visit_order q) [] = Some (idx, byp)"
  shows "idx < length (order q) \<and> order q ! idx \<notin> set byp \<and> distinct byp \<and>
    (\<exists>e. head_at q idx = Some e \<and> cost e \<le> b)"
proof -
  obtain pre post e where p: "visit_order q = pre @ idx # post"
    "byp = map ((!) (order q)) (filter (\<lambda>i. head_at q i \<noteq> None) pre)" "head_at q idx = Some e" "cost e \<le> b"
    using scan_fit_Some [OF f] by auto
  have d: "distinct (pre @ idx # post)" using p(1) visit_order_simps(2) [of q] by simp
  have sub: "set (pre @ idx # post) \<subseteq> {..<length (order q)}" using p(1) visit_order_simps(1) [of q] by simp
  have od: "distinct (order q)" using fq_invD(1,2) [OF inv] by (simp add: buckets_ok_def)
  have inj: "inj_on ((!) (order q)) {..<length (order q)}" using od by (simp add: inj_on_nth)
  have "distinct byp"
    unfolding p(2) using d sub by (auto simp: distinct_map intro!: inj_on_subset [OF inj])
  moreover have "order q ! idx \<notin> set byp"
    unfolding p(2) using d sub od by (auto simp: nth_eq_iff_index_eq)
  ultimately show ?thesis using sub p(3,4) by auto
qed

text \<open>What a successful dequeue does: it takes the head of one line, and that head fits the budget.\<close>

lemma dequeue_Some:
  assumes inv: "fq_inv q" and deq: "dequeue b q = (Some e, q')"
  shows "fq_inv q' \<and> items q = add_mset e (items q') \<and> erase e = e \<and> cost e \<le> b \<and>
    line q = (line q')(tenantKey e := e # line q' (tenantKey e)) \<and>
    maxCount q' = maxCount q \<and> maxCost q' = maxCost q"
proof (cases "scan_reserved q (visit_order q) None")
  case (Some r)
  then obtain idx h where r: "scan_reserved q (visit_order q) None = Some (idx, h)" by (cases r) auto
  then have i: "idx < length (order q)" "head_at q idx = Some h"
    using scan_reserved_Some [OF r] by auto
  have t: "takeAt idx q = (Some e, q')" "cost h \<le> b"
    using deq r by (auto simp: dequeue_def split: if_splits)
  obtain h' where "head_at q idx = Some h'" "entry_ok (order q ! idx) h'" using head_at_inv [OF inv i(1)] by metis
  then have "tenantKey h = order q ! idx" using i(2) by (simp add: entry_ok_def)
  then show ?thesis using takeAt_inv [OF inv i(1)] t i(2) by auto
next
  case None
  then obtain idx byp where f: "scan_fit q b (visit_order q) [] = Some (idx, byp)"
    and t: "takeAt idx (fold bump_skip byp q) = (Some e, q')"
    using deq by (auto simp: dequeue_def split: if_splits option.splits)
  let ?q = "fold bump_skip byp q"
  obtain h where c: "idx < length (order q)" "order q ! idx \<notin> set byp" "distinct byp" "head_at q idx = Some h" "cost h \<le> b"
    using dequeue_fit_cases [OF inv None f] by auto
  note B = fold_bump_inv [OF inv c(3) young_bypassed [OF inv None]]
  have "head_at ?q idx = Some h" using B c(2,4) by (simp add: head_at_def)
  moreover obtain h' where "head_at q idx = Some h'" "entry_ok (order q ! idx) h'" using head_at_inv [OF inv c(1)] by metis
  then have "tenantKey h = order q ! idx" using c(4) by (simp add: entry_ok_def)
  moreover have "idx < length (order ?q)" using B c(1) by simp
  ultimately show ?thesis using takeAt_inv [of ?q idx] B t c(5) by auto
qed

lemma dequeue_None:
  assumes inv: "fq_inv q" and deq: "dequeue b q = (None, q')"
  shows "q' = q"
proof (cases "scan_reserved q (visit_order q) None")
  case (Some r)
  then obtain idx h where r: "scan_reserved q (visit_order q) None = Some (idx, h)" by (cases r) auto
  then have i: "idx < length (order q)" using scan_reserved_Some [OF r] by auto
  then show ?thesis using deq r takeAt_inv [OF inv i] by (auto simp: dequeue_def split: if_splits)
next
  case None
  show ?thesis
  proof (cases "scan_fit q b (visit_order q) []")
    case (Some f)
    then obtain idx byp where f: "scan_fit q b (visit_order q) [] = Some (idx, byp)" by (cases f) auto
    then have c: "idx < length (order q)" "distinct byp" using dequeue_fit_cases [OF inv None f] by auto
    note B = fold_bump_inv [OF inv c(2) young_bypassed [OF inv None]]
    have "fst (takeAt idx (fold bump_skip byp q)) \<noteq> None"
      using takeAt_inv [of "fold bump_skip byp q" idx] B c(1) by auto
    then show ?thesis using deq None f by (auto simp: dequeue_def split: if_splits)
  next
    case N: None
    then show ?thesis using deq None by (auto simp: dequeue_def split: if_splits)
  qed
qed

text \<open>Why a dequeue comes back empty handed.\<close>

lemma dequeue_None_reason:
  assumes inv: "fq_inv q" and deq: "dequeue b q = (None, q')"
  shows "buckets q = [] \<or> (\<exists>idx e. idx < length (order q) \<and> head_at q idx = Some e \<and> aged e \<and> b < cost e) \<or>
    (\<forall>idx e. idx < length (order q) \<longrightarrow> head_at q idx = Some e \<longrightarrow> b < cost e)"
proof (cases "qcount q = 0")
  case True
  then show ?thesis using fq_invD(1,3) [OF inv] held_zero by fastforce
next
  case nz: False
  show ?thesis
  proof (cases "scan_reserved q (visit_order q) None")
    case (Some r)
    then obtain idx h where r: "scan_reserved q (visit_order q) None = Some (idx, h)" by (cases r) auto
    then have i: "idx < length (order q)" "head_at q idx = Some h" "aged h" using scan_reserved_Some [OF r] by auto
    have "b < cost h"
      using deq r nz takeAt_inv [OF inv i(1)] by (auto simp: dequeue_def split: if_splits)
    with i show ?thesis by blast
  next
    case None
    have "scan_fit q b (visit_order q) [] = None"
    proof (rule ccontr)
      assume "scan_fit q b (visit_order q) [] \<noteq> None"
      then obtain idx byp where f: "scan_fit q b (visit_order q) [] = Some (idx, byp)" by auto
      then have c: "idx < length (order q)" "distinct byp" using dequeue_fit_cases [OF inv None f] by auto
      note B = fold_bump_inv [OF inv c(2) young_bypassed [OF inv None]]
      have "fst (takeAt idx (fold bump_skip byp q)) \<noteq> None"
        using takeAt_inv [of "fold bump_skip byp q" idx] B c(1) by auto
      with deq None f nz show False by (simp add: dequeue_def)
    qed
    then show ?thesis using scan_fit_None by (metis visit_order_simps(1) lessThan_iff)
  qed
qed

lemma head_in_items:
  assumes "fq_inv q" "idx < length (order q)" "head_at q idx = Some e"
  shows "erase e \<in># items q"
  using takeAt_inv [OF assms(1,2)] assms(3) by auto

lemma dequeue_progress:
  assumes inv: "fq_inv q" and ne: "buckets q \<noteq> []" and fit: "\<And>e. e \<in># items q \<Longrightarrow> cost e \<le> b"
  shows "\<exists>e q'. dequeue b q = (Some e, q')"
proof (rule ccontr)
  assume "\<nexists>e q'. dequeue b q = (Some e, q')"
  then obtain q' where d: "dequeue b q = (None, q')" by (metis not_Some_eq prod.exhaust)
  have le: "cost e \<le> b" if "idx < length (order q)" "head_at q idx = Some e" for idx e
    using fit [OF head_in_items [OF inv that]] by simp
  have "0 < length (order q)" using fq_invD(2) [OF inv] ne by simp
  moreover obtain h where "head_at q 0 = Some h" using head_at_inv [OF inv \<open>0 < length (order q)\<close>] by metis
  ultimately show False using dequeue_None_reason [OF inv d] ne le by (metis leD)
qed

subsection \<open>Drain and removal\<close>

lemma drain_loop_all:
  "fq_inv q \<Longrightarrow> mset (fst (drain_loop q)) = items q \<and> buckets (snd (drain_loop q)) = [] \<and>
     fq_inv (snd (drain_loop q)) \<and> maxCount (snd (drain_loop q)) = maxCount q \<and> maxCost (snd (drain_loop q)) = maxCost q"
proof (induction q rule: drain_loop.induct)
  case (1 q)
  show ?case
  proof (cases "dequeue MAX_SAFE_INTEGER q")
    case (Pair r q')
    show ?thesis
    proof (cases r)
      case None
      have "buckets q = []"
      proof (rule ccontr)
        assume "buckets q \<noteq> []"
        then obtain e q'' where "dequeue MAX_SAFE_INTEGER q = (Some e, q'')"
          using dequeue_progress [OF "1.prems"] held_items_ok [OF fq_invD(1) [OF "1.prems"]] by blast
        with Pair None show False by simp
      qed
      moreover have "q' = q" using dequeue_None [OF "1.prems"] Pair None by simp
      ultimately show ?thesis using Pair None "1.prems" by (simp add: drain_loop.simps [of q])
    next
      case (Some e)
      note D = dequeue_Some [OF "1.prems" Pair [unfolded Some]]
      have "mset (fst (drain_loop q')) = items q'" "buckets (snd (drain_loop q')) = []" "fq_inv (snd (drain_loop q'))"
        "maxCount (snd (drain_loop q')) = maxCount q" "maxCost (snd (drain_loop q')) = maxCost q"
        using "1.IH" [OF Pair [symmetric] Some] D by auto
      then show ?thesis using Pair Some D by (simp add: drain_loop.simps [of q] Let_def)
    qed
  qed
qed

lemma drain_all:
  assumes "fq_inv q"
  shows "mset (fst (drain q)) = items q \<and> buckets (snd (drain q)) = [] \<and> fq_inv (snd (drain q)) \<and>
    maxCount (snd (drain q)) = maxCount q \<and> maxCost (snd (drain q)) = maxCost q"
proof -
  let ?r = "snd (drain_loop q)"
  have r: "buckets ?r = []" "fq_inv ?r" using drain_loop_all [OF assms] by auto
  have "fq_inv (?r\<lparr>cursor := 0\<rparr>)"
    using fq_invD [OF r(2)] r(1) by (intro fq_invI) simp_all
  with drain_loop_all [OF assms] show ?thesis by (simp add: drain_def Let_def)
qed

lemma remove_at_inv:
  assumes inv: "fq_inv q" and ti: "ti < length (order q)"
    and g: "jget (buckets q) (order q ! ti) = Some bucket" and idx: "idx < length bucket"
  shows "fq_inv (remove_at ti idx bucket q) \<and>
    items q = add_mset (erase (bucket ! idx)) (items (remove_at ti idx bucket q)) \<and>
    maxCount (remove_at ti idx bucket q) = maxCount q \<and> maxCost (remove_at ti idx bucket q) = maxCost q"
proof -
  obtain a t es b where s: "buckets q = a @ (t, es) # b" "length a = ti" "order q ! ti = t"
    "t \<notin> set (jkeys a)" "t \<notin> set (jkeys b)" and ok: "\<And>e. e \<in> set es \<Longrightarrow> entry_ok t e"
    using bucket_split [OF inv ti] by metis
  have es: "es = bucket" using g s by (simp add: jget_at)
  let ?e = "bucket ! idx" and ?b = "splice_out idx bucket"
  have ordq: "order q = jkeys a @ t # jkeys b" using fq_invD(2) [OF inv] s by simp
  have sp: "splice_out ti (order q) = jkeys a @ jkeys b"
    unfolding ordq by (rule splice_out_append) (simp add: s)
  have j: "jset t ?b (buckets q) = a @ (t, ?b) # b" "jdel t (buckets q) = a @ b"
    using s by (simp_all add: jset_at jdel_split)
  have ms: "mset bucket = add_mset ?e (mset ?b)" using mset_splice_out [OF idx] by simp
  have len: "length bucket = Suc (length ?b)" using length_splice_out [OF idx] by simp
  have sum: "sum_list (map cost bucket) = cost ?e + sum_list (map cost ?b)"
    using arg_cong [OF ms, of "\<lambda>m. \<Sum>e \<in># m. cost e"] by (simp add: sum_mset_sum_list flip: mset_map)
  have ce: "0 < cost ?e" using ok idx es by (simp add: entry_ok_def)
  have er: "mset (map erase bucket) = add_mset (erase ?e) (mset (map erase ?b))"
    using arg_cong [OF ms, of "image_mset erase"] by simp
  have okb: "\<And>e. e \<in> set ?b \<Longrightarrow> entry_ok t e" using ok set_splice_out [of idx bucket] es by auto
  let ?q = "remove_at ti idx bucket q"
  have B: "buckets ?q = (if ?b = [] then a @ b else a @ (t, ?b) # b)"
    by (simp add: remove_at_def Let_def s(3) j)
  have O: "order ?q = (if ?b = [] then jkeys a @ jkeys b else order q)"
    by (simp add: remove_at_def Let_def sp)
  have C: "qcount ?q = qcount q - 1" "qcost ?q = qcost q - cost ?e" "maxCount ?q = maxCount q" "maxCost ?q = maxCost q"
    by (simp_all add: remove_at_def Let_def)
  have K: "cursor q < length (order q)" using fq_invD(8) [OF inv] ordq by simp
  have cur: "if order ?q = [] then cursor ?q = 0 else cursor ?q < length (order ?q)"
    using K ordq s(2) by (auto simp: remove_at_def Let_def sp)
  have "fq_inv ?q"
  proof (rule fq_invI)
    show "buckets_ok (buckets ?q)" using fq_invD(1) [OF inv] s okb by (auto simp: B buckets_ok_append)
    show "order ?q = jkeys (buckets ?q)" by (simp add: O B ordq)
    show "qcount ?q = int (held (buckets ?q))" using fq_invD(3) [OF inv] s es len by (auto simp: C B)
    show "qcost ?q = held_cost (buckets ?q)" using fq_invD(4) [OF inv] s es sum by (auto simp: C B)
  qed (use fq_invD(5,6) [OF inv] ce cur in \<open>simp_all add: C\<close>)
  moreover have "items q = add_mset (erase ?e) (items ?q)"
    using er by (auto simp: B s es)
  ultimately show ?thesis by (simp add: C)
qed

lemma remove_scan_spec:
  assumes inv: "fq_inv q" and sub: "set tis \<subseteq> {..<length (order q)}"
  shows "case remove_scan i q tis of
      (None, q') \<Rightarrow> q' = q \<and> (\<forall>ti \<in> set tis. \<forall>es. jget (buckets q) (order q ! ti) = Some es \<longrightarrow> (\<forall>e \<in> set es. entry_id e \<noteq> i))
    | (Some e, q') \<Rightarrow> fq_inv q' \<and> entry_id e = i \<and> items q = add_mset (erase e) (items q') \<and>
        maxCount q' = maxCount q \<and> maxCost q' = maxCost q"
  using sub
proof (induction tis)
  case (Cons ti tis)
  show ?case
  proof (cases "jget (buckets q) (order q ! ti)")
    case None
    then show ?thesis using Cons by (auto split: prod.splits option.splits)
  next
    case (Some bucket)
    show ?thesis
    proof (cases "findIndex (\<lambda>e. entry_id e = i) bucket")
      case N: None
      then have "\<forall>e \<in> set bucket. entry_id e \<noteq> i" by (simp only: findIndex_None)
      then show ?thesis using Cons Some N by (auto split: prod.splits option.splits)
    next
      case S: (Some idx)
      then have "idx < length bucket" "entry_id (bucket ! idx) = i" using findIndex_Some [OF S] by auto
      then show ?thesis using remove_at_inv [OF inv _ Some] Cons.prems Some S by auto
    qed
  qed
qed simp

lemma removeById_Some:
  "fq_inv q \<Longrightarrow> removeById i q = (Some e, q') \<Longrightarrow>
     fq_inv q' \<and> entry_id e = i \<and> items q = add_mset (erase e) (items q') \<and>
     maxCount q' = maxCount q \<and> maxCost q' = maxCost q"
  using remove_scan_spec [of q "[0..<length (order q)]" i] by (simp add: removeById_def atLeast0LessThan)

lemma removeById_None:
  assumes "fq_inv q" "removeById i q = (None, q')"
  shows "q' = q \<and> (\<forall>e \<in># items q. entry_id e \<noteq> i)"
proof -
  have r: "q' = q" "\<forall>ti < length (order q). \<forall>es. jget (buckets q) (order q ! ti) = Some es \<longrightarrow> (\<forall>e \<in> set es. entry_id e \<noteq> i)"
    using remove_scan_spec [of q "[0..<length (order q)]" i] assms by (simp_all add: removeById_def atLeast0LessThan)
  have "entry_id e \<noteq> i" if m: "e \<in># items q" for e
  proof -
    obtain t es x where x: "(t, es) \<in> set (buckets q)" "x \<in> set es" "e = erase x"
      using m by (auto simp: held_items_def)
    have "jget (buckets q) t = Some es" using x(1) fq_invD(1) [OF assms(1)] by (intro jget_mem) (auto simp: jmap_ok_def buckets_ok_def)
    moreover have "t \<in> set (order q)" using x(1) fq_invD(2) [OF assms(1)] by force
    ultimately show ?thesis using r(2) x(2,3) by (metis erase_simps(1) in_set_conv_nth)
  qed
  with r(1) show ?thesis by blast
qed

section \<open>The queue as an interface\<close>

text \<open>
  What the admission controller relies on: entries are conserved, a dequeued entry fits the budget it
  was asked for, the counters describe the contents, and the capacity bounds hold.
\<close>

locale bounded_queue =
  fixes inv :: "'q \<Rightarrow> bool"
    and contents :: "'q \<Rightarrow> 'e multiset"
    and ecost :: "'e \<Rightarrow> int"
    and norm :: "'e \<Rightarrow> 'e"
    and sz :: "'q \<Rightarrow> int"
    and total_cost :: "'q \<Rightarrow> int"
    and capCount :: "'q \<Rightarrow> int"
    and capCost :: "'q \<Rightarrow> int"
    and deq :: "int \<Rightarrow> 'q \<Rightarrow> 'e option \<times> 'q"
  assumes sz_contents: "inv q \<Longrightarrow> sz q = int (size (contents q))"
    and cost_contents: "inv q \<Longrightarrow> total_cost q = (\<Sum>e \<in># contents q. ecost e)"
    and within_caps: "inv q \<Longrightarrow> sz q \<le> capCount q \<and> total_cost q \<le> capCost q"
    and cost_pos: "inv q \<Longrightarrow> e \<in># contents q \<Longrightarrow> 0 < ecost e"
    and deq_hit: "inv q \<Longrightarrow> deq b q = (Some e, q') \<Longrightarrow> inv q' \<and> contents q = add_mset e (contents q') \<and> ecost e \<le> b"
    and deq_miss: "inv q \<Longrightarrow> deq b q = (None, q') \<Longrightarrow> q' = q"
begin

lemma empty_iff: "inv q \<Longrightarrow> sz q = 0 \<longleftrightarrow> contents q = {#}"
  by (simp add: sz_contents)

lemma deq_nonneg: "inv q \<Longrightarrow> deq b q = (Some e, q') \<Longrightarrow> 0 < ecost e"
  using deq_hit [of q b e q'] cost_pos [of q e] by simp

lemma deq_shrinks: "inv q \<Longrightarrow> deq b q = (Some e, q') \<Longrightarrow> sz q' = sz q - 1 \<and> total_cost q' = total_cost q - ecost e"
  using deq_hit [of q b e q'] by (simp add: sz_contents cost_contents)

text \<open>An admission that follows a dequeue with the free budget never exceeds the limit.\<close>

lemma deq_within_limit: "inv q \<Longrightarrow> deq (limit - active) q = (Some e, q') \<Longrightarrow> active + ecost e \<le> limit"
  using deq_hit [of q "limit - active" e q'] by simp

end

interpretation fq: bounded_queue fq_inv items cost erase qcount qcost maxCount maxCost dequeue
proof
  fix q :: "('i, 'p) fair_queue" and b e q'
  assume q: "fq_inv q"
  show "qcount q = int (size (items q))" using fq_invD(3) [OF q] by (simp add: size_held_items)
  show "qcost q = (\<Sum>e \<in># items q. cost e)" using fq_invD(4) [OF q] by (simp add: held_cost_items)
  show "qcount q \<le> maxCount q \<and> qcost q \<le> maxCost q" using fq_invD(5,6) [OF q] by blast
  show "e \<in># items q \<Longrightarrow> 0 < cost e" using held_items_ok [OF fq_invD(1) [OF q]] by blast
  show "dequeue b q = (Some e, q') \<Longrightarrow> fq_inv q' \<and> items q = add_mset e (items q') \<and> cost e \<le> b"
    using dequeue_Some [OF q] by blast
  show "dequeue b q = (None, q') \<Longrightarrow> q' = q" using dequeue_None [OF q] by blast
qed

section \<open>Properties\<close>

text \<open>
  Dequeue is fair within a tenant and respects the budget: an entry it returns is the oldest entry
  of its tenant's line, its cost fits the budget, the lines of all other tenants are untouched, and
  the counters and capacity bounds stay exact.
\<close>

theorem dequeue_fifo_within_budget:
  assumes "fq_inv q" "dequeue b q = (Some e, q')"
  shows "fq_inv q' \<and> cost e \<le> b \<and> line q (tenantKey e) = e # line q' (tenantKey e)
    \<and> (\<forall>t. t \<noteq> tenantKey e \<longrightarrow> line q' t = line q t)
    \<and> qcount q' = qcount q - 1 \<and> qcost q' = qcost q - cost e"
  using dequeue_Some [OF assms] fq.deq_shrinks [OF assms] by simp

definition sample_entry :: "nat \<Rightarrow> string \<Rightarrow> int \<Rightarrow> int \<Rightarrow> (nat, unit) queue_entry" where
  "sample_entry i t c now = \<lparr>entry_id = i, tenantKey = t, cost = c, enqueuedAtMs = now, deadlineMs = now + 5000,
     payload = (), skipCount = 0\<rparr>"

definition sample_queue :: "(nat, unit) fair_queue" where
  "sample_queue = \<lparr>maxCount = 4, maxCost = 40, buckets = [(''a'', [sample_entry 0 ''a'' 8 1, sample_entry 2 ''a'' 1 3]),
     (''b'', [sample_entry 1 ''b'' 2 2])], order = [''a'', ''b''], cursor = 0, qcount = 3, qcost = 11\<rparr>"

lemma sample_queue_inv: "fq_inv sample_queue"
  by (simp add: fq_inv_def sample_queue_def entry_ok_def sample_entry_def MAX_SAFE_INTEGER_def)

lemma sample_dequeue:
  "dequeue 5 sample_queue = (Some (sample_entry 1 ''b'' 2 2),
     sample_queue\<lparr>buckets := [(''a'', [(sample_entry 0 ''a'' 8 1)\<lparr>skipCount := 1\<rparr>, sample_entry 2 ''a'' 1 3])],
       order := [''a''], qcount := 2, qcost := 9\<rparr>)"
  by code_simp

theorem dequeue_fifo_within_budget_witness:
  "fq_inv sample_queue \<and> fst (dequeue 5 sample_queue) = Some (sample_entry 1 ''b'' 2 2) \<and>
   line sample_queue ''b'' = [sample_entry 1 ''b'' 2 2]"
  using dequeue_fifo_within_budget [OF sample_queue_inv sample_dequeue] sample_queue_inv sample_dequeue
  by (simp add: line_def sample_entry_def)


definition aged_queue :: "(nat, unit) fair_queue" where
  "aged_queue = sample_queue\<lparr>buckets := [(''a'', [(sample_entry 0 ''a'' 8 1)\<lparr>skipCount := 2\<rparr>, sample_entry 2 ''a'' 1 3]),
     (''b'', [sample_entry 1 ''b'' 2 2])]\<rparr>"


text \<open>
  A dequeue returns nothing only for a reason: the queue is empty, an aged head reserves more
  capacity than is free, or no tenant's head fits the budget.
\<close>

theorem dequeue_work_conserving:
  assumes "fq_inv q" "dequeue b q = (None, q')"
  shows "q' = q \<and> (items q = {#}
    \<or> (\<exists>idx e. idx < length (order q) \<and> head_at q idx = Some e \<and> aged e \<and> b < cost e)
    \<or> (\<forall>idx e. idx < length (order q) \<longrightarrow> head_at q idx = Some e \<longrightarrow> b < cost e))"
  using dequeue_None [OF assms] dequeue_None_reason [OF assms] by auto

theorem dequeue_work_conserving_witness:
  "fst (dequeue 1 sample_queue) = None \<and>
   (\<nexists>idx e. idx < length (order sample_queue) \<and> head_at sample_queue idx = Some e \<and> cost e \<le> 1)"
proof -
  have d: "dequeue 1 sample_queue = (None, sample_queue)"
    by code_simp
  have "\<not> (\<exists>idx e. idx < length (order sample_queue) \<and> head_at sample_queue idx = Some e \<and> aged e \<and> 1 < cost e)"
    by (auto simp: sample_queue_def head_at_def aged_def sample_entry_def MAX_UNFITTABLE_SKIPS_def less_Suc_eq)
  moreover have "items sample_queue \<noteq> {#}" by (simp add: sample_queue_def)
  ultimately show ?thesis using dequeue_work_conserving [OF sample_queue_inv d] d by (auto simp: not_le)
qed

text \<open>
  Draining returns every waiting entry exactly once and leaves an empty, well-formed queue: the
  loop terminates and no aged or large entry can stop it early.
\<close>

theorem drain_returns_everything:
  assumes "fq_inv q"
  shows "mset (fst (drain q)) = items q \<and> items (snd (drain q)) = {#} \<and> fq_inv (snd (drain q))"
  using drain_all [OF assms] by simp

theorem drain_returns_everything_witness:
  "size (mset (fst (drain sample_queue))) = 3 \<and> items (snd (drain sample_queue)) = {#}"
  using drain_returns_everything [OF sample_queue_inv] fq.sz_contents [OF sample_queue_inv]
  by (simp add: sample_queue_def size_held_items)

text \<open>
  Cancellation by identifier: removal takes out exactly one entry with that identifier, keeps the
  invariant (in particular the round-robin cursor stays on a live tenant) and, when it reports
  nothing, no entry with that identifier was waiting.
\<close>

theorem removeById_spec:
  assumes "fq_inv q"
  shows "case removeById i q of
      (Some e, q') \<Rightarrow> fq_inv q' \<and> entry_id e = i \<and> items q = add_mset (erase e) (items q')
    | (None, q') \<Rightarrow> q' = q \<and> (\<forall>e \<in># items q. entry_id e \<noteq> i)"
proof -
  obtain r q' where p: "removeById i q = (r, q')" by force
  show ?thesis
  proof (cases r)
    case None
    then show ?thesis using removeById_None [OF assms] p by simp
  next
    case (Some e)
    then show ?thesis using removeById_Some [OF assms] p by simp
  qed
qed

theorem removeById_spec_witness:
  "fst (removeById 2 sample_queue) = Some (sample_entry 2 ''a'' 1 3) \<and>
   items sample_queue = add_mset (sample_entry 2 ''a'' 1 3) (items (snd (removeById 2 sample_queue)))"
proof -
  have r: "removeById 2 sample_queue = (Some (sample_entry 2 ''a'' 1 3), remove_at 0 1
      [sample_entry 0 ''a'' 8 1, sample_entry 2 ''a'' 1 3] sample_queue)"
    by (simp add: removeById_def sample_queue_def sample_entry_def)
  moreover have "erase (sample_entry 2 ''a'' 1 3) = sample_entry 2 ''a'' 1 3"
    by (simp add: erase_def sample_entry_def)
  ultimately show ?thesis
    using removeById_spec [OF sample_queue_inv, of 2] unfolding r prod.case option.case fst_conv snd_conv by argo
qed

end
