(* ===== verification/Step_Systems.thy ===== *)
theory Step_Systems
  imports Main
begin

text \<open>
  Event-driven components as labelled step relations. JavaScript handles one event at a time, so a
  history of a component is a sequence of steps; what holds along every history follows from what one
  step keeps. The two locales are the proof interfaces of all stateful components of the development.
\<close>

inductive reaches :: "('e \<Rightarrow> 's \<Rightarrow> 's \<Rightarrow> bool) \<Rightarrow> 's \<Rightarrow> 's \<Rightarrow> bool" for step where
  reaches_start: "reaches step s s"
| reaches_event: "reaches step s s' \<Longrightarrow> step e s' s'' \<Longrightarrow> reaches step s s''"

lemma reaches_trans: "reaches step b c \<Longrightarrow> reaches step a b \<Longrightarrow> reaches step a c"
  by (induction rule: reaches.induct) (auto intro: reaches_event)

lemma reaches_one: "step e a b \<Longrightarrow> reaches step a b"
  by (rule reaches_event [where step = step, OF reaches_start])

lemma reaches_more: "reaches step a b \<Longrightarrow> step e b c \<Longrightarrow> reaches step a c"
  by (rule reaches_event)

lemma reaches_mono:
  assumes "reaches step a b" "\<And>e s s'. step e s s' \<Longrightarrow> step' e s s'"
  shows "reaches step' a b"
  using assms(1) by (induction rule: reaches.induct) (auto intro: reaches.intros assms(2))

text \<open>An invariant: kept by every step, so true in every reachable state.\<close>

locale step_system =
  fixes step :: "'e \<Rightarrow> 's \<Rightarrow> 's \<Rightarrow> bool"
    and inv :: "'s \<Rightarrow> bool"
  assumes step_inv: "step e s s' \<Longrightarrow> inv s \<Longrightarrow> inv s'"
begin

lemma reaches_inv: "reaches step s s' \<Longrightarrow> inv s \<Longrightarrow> inv s'"
  by (induction rule: reaches.induct) (auto intro: step_inv)

end

text \<open>A preorder along which every step moves: histories move along it too.\<close>

locale monotone_system = step_system +
  fixes le :: "'s \<Rightarrow> 's \<Rightarrow> bool"
  assumes le_refl: "inv s \<Longrightarrow> le s s"
    and le_trans: "le a b \<Longrightarrow> le b c \<Longrightarrow> le a c"
    and step_le: "step e s s' \<Longrightarrow> inv s \<Longrightarrow> le s s'"
begin

lemma reaches_le: "reaches step s s' \<Longrightarrow> inv s \<Longrightarrow> le s s'"
proof (induction rule: reaches.induct)
  case (reaches_start s)
  then show ?case by (rule le_refl)
next
  case (reaches_event s s' e s'')
  then show ?case using reaches_inv step_le le_trans by blast
qed

end

end
