(* ===== verification/Admission_Controller.thy ===== *)
theory Admission_Controller
  imports Admission_Config Fair_Cost_Queue Step_Systems
begin

text \<open>
  Admission control, part five: the class \<^verbatim>\<open>AdaptiveAdmissionController\<close> of
  \<^verbatim>\<open>open-sse/services/admission/controller.ts\<close>. JavaScript runs every operation to completion before the
  next, so an operation is a function on the controller state. An operation reads the injected clock
  and the abort flags of signals through an \<open>env\<close>, which is one snapshot per operation.

  Effects on the outside are state components: \<open>timers\<close> are the armed timers, \<open>listeners\<close> the
  entries with an abort listener, and \<open>settled\<close> is the log of promises that have been resolved or
  rejected, by the identifier of the queue entry. A lease is named by its identifier; a lease has been
  released exactly when its record is no longer in \<open>active\<close>.
\<close>

section \<open>State\<close>

definition ADMISSION_LANE_TTL_MS :: int where
  "ADMISSION_LANE_TTL_MS = 60000"

definition ADMISSION_LANE_MAX_SESSIONS :: nat where
  "ADMISSION_LANE_MAX_SESSIONS = 1000"

datatype disposition = VActive | VQueued | VRejected | VNone

text \<open>\<^verbatim>\<open>nextId("lease")\<close> and \<^verbatim>\<open>nextId("q")\<close> draw from one sequence.\<close>

datatype adm_id = Lease nat | Waiter nat

datatype timer = WindowTick | LaneEvict | Deadline adm_id

datatype settlement = Resolved adm_id int | Rejected reject_code

record env =
  now :: int
  aborted :: "nat \<Rightarrow> bool"

record lease_record =
  lr_cost :: int
  lr_admittedAtMs :: int
  lr_virtual :: disposition

type_synonym waiter_queue = "(adm_id, nat option) fair_queue"
type_synonym waiter = "(adm_id, nat option) queue_entry"

record lane =
  lane_queue :: waiter_queue
  lastUsedMs :: int

record controller =
  config :: validated_config
  adapt :: adaptation_state
  queue :: waiter_queue
  virtualQueue :: "(adm_id, adm_id) fair_queue"
  lanes :: "(string, lane) jmap"
  active :: "(adm_id, lease_record) jmap"
  activeCost :: int
  virtualActiveCost :: int
  virtualActiveCount :: int
  lastSampleMs :: int
  shutDown :: bool
  admittedCount :: int
  rejectedCount :: int
  wouldAdmitCount :: int
  wouldQueueCount :: int
  wouldRejectCount :: int
  leaseSeq :: nat
  timers :: "timer list"
  listeners :: "adm_id list"
  settled :: "(adm_id \<times> settlement) list"

record admission_request =
  rq_cost :: js_val
  rq_features :: "cost_features option"
  rq_tenantKey :: "string option"
  rq_maxWaitMs :: js_val
  rq_signal :: "nat option"
  rq_pressure :: "admission_pressure option"

record release_meta =
  rm_latencyMs :: "js_num option"
  rm_pressure :: "admission_pressure option"

datatype acquire_result =
    RAdmitted adm_id int "shadow_decision option"
  | RQueued adm_id
  | RRejected reject_code
  | RThrew range_error

abbreviation limit :: "controller \<Rightarrow> int" where
  "limit c \<equiv> currentLimit (adapt c)"

section \<open>Snapshot arithmetic\<close>

definition saturateSnapshotNumber :: "int \<Rightarrow> int" where
  "saturateSnapshotNumber v = (if v \<le> 0 then 0 else if v \<ge> MAX_SAFE_INTEGER then MAX_SAFE_INTEGER else v)"

definition bigintToSnapshotNumber :: "int \<Rightarrow> int" where
  "bigintToSnapshotNumber v = (if v \<le> 0 then 0 else if v \<ge> MAX_SAFE_INTEGER then MAX_SAFE_INTEGER else v)"

definition addSaturated :: "int \<Rightarrow> int \<Rightarrow> int" where
  "addSaturated tot delta =
     (if delta \<le> 0 then saturateSnapshotNumber tot
      else if tot \<ge> MAX_SAFE_INTEGER - delta then MAX_SAFE_INTEGER else tot + delta)"

section \<open>Primitive steps\<close>

definition sampleIntegral :: "env \<Rightarrow> controller \<Rightarrow> controller" where
  "sampleIntegral env c =
     (let dt = now env - lastSampleMs c in
      if dt > 0
      then c\<lparr>adapt := sampleActiveIntegral (adapt c) (if activeCost c \<ge> limit c then limit c else activeCost c) dt,
             lastSampleMs := now env\<rparr>
      else c)"

definition clearEntryTimer :: "adm_id \<Rightarrow> controller \<Rightarrow> controller" where
  "clearEntryTimer i c = c\<lparr>timers := removeAll (Deadline i) (timers c)\<rparr>"

definition detachAbort :: "adm_id \<Rightarrow> controller \<Rightarrow> controller" where
  "detachAbort i c = c\<lparr>listeners := removeAll i (listeners c)\<rparr>"

text \<open>\<^verbatim>\<open>entry.payload.resolve\<close> and \<^verbatim>\<open>entry.payload.reject\<close>.\<close>

definition settle :: "adm_id \<Rightarrow> settlement \<Rightarrow> controller \<Rightarrow> controller" where
  "settle i s c = c\<lparr>settled := settled c @ [(i, s)]\<rparr>"

definition failQueued :: "waiter \<Rightarrow> reject_code \<Rightarrow> controller \<Rightarrow> controller" where
  "failQueued e code c =
     (let c1 = settle (entry_id e) (Rejected code) (detachAbort (entry_id e) (clearEntryTimer (entry_id e) c))
      in c1\<lparr>rejectedCount := rejectedCount c1 + 1\<rparr>)"

definition reject :: "reject_code \<Rightarrow> controller \<Rightarrow> acquire_result \<times> controller" where
  "reject code c = (RRejected code, c\<lparr>rejectedCount := rejectedCount c + 1\<rparr>)"

definition admit :: "env \<Rightarrow> int \<Rightarrow> disposition \<Rightarrow> controller \<Rightarrow> adm_id \<times> controller" where
  "admit env cst disp c =
     (let c1 = sampleIntegral env c;
          n = leaseSeq c1 + 1;
          r = \<lparr>lr_cost = cst, lr_admittedAtMs = now env, lr_virtual = disp\<rparr>
      in (Lease n, c1\<lparr>leaseSeq := n, active := jset (Lease n) r (active c1),
            activeCost := activeCost c1 + cst, admittedCount := admittedCount c1 + 1\<rparr>))"

definition admitVirtual :: "int \<Rightarrow> controller \<Rightarrow> acquire_result \<times> controller" where
  "admitVirtual cst c =
     (let n = leaseSeq c + 1 in
      (RAdmitted (Lease n) cst None, c\<lparr>leaseSeq := n, admittedCount := admittedCount c + 1\<rparr>))"

text \<open>Resolving a queued entry with a fresh lease.\<close>

definition resolve_admitted :: "env \<Rightarrow> waiter \<Rightarrow> controller \<Rightarrow> controller" where
  "resolve_admitted env e c =
     (let (l, c1) = admit env (cost e) VNone c in settle (entry_id e) (Resolved l (cost e)) c1)"

definition signal_aborted :: "env \<Rightarrow> nat option \<Rightarrow> bool" where
  "signal_aborted env s = (case s of None \<Rightarrow> False | Some n \<Rightarrow> aborted env n)"

text \<open>The common body of the two dispatch loops once an entry has been dequeued; the flag tells
  whether the entry was admitted.\<close>

definition settle_dequeued :: "env \<Rightarrow> waiter \<Rightarrow> controller \<Rightarrow> bool \<times> controller" where
  "settle_dequeued env e c =
     (if signal_aborted env (payload e) then (False, failQueued e ADMISSION_ABORTED c)
      else if now env \<ge> deadlineMs e then (False, failQueued e ADMISSION_DEADLINE c)
      else (True, resolve_admitted env e (detachAbort (entry_id e) (clearEntryTimer (entry_id e) c))))"

section \<open>Dispatch\<close>

lemma settle_dequeued_queue [simp]: "queue (snd (settle_dequeued env e c)) = queue c"
  by (simp add: settle_dequeued_def failQueued_def settle_def detachAbort_def clearEntryTimer_def
      resolve_admitted_def admit_def sampleIntegral_def Let_def)

text \<open>The shared queue. The flag tells whether the loop ran to the end, so that the lanes follow.\<close>

function dispatch_loop :: "env \<Rightarrow> controller \<Rightarrow> bool \<times> controller" where
  "dispatch_loop env c =
     (if qcount (queue c) > 0 then
        (let available = limit c - activeCost c in
         if available \<le> 0 then (False, c)
         else case dequeue available (queue c) of
                (None, q) \<Rightarrow> (False, c\<lparr>queue := q\<rparr>)
              | (Some e, q) \<Rightarrow> dispatch_loop env (snd (settle_dequeued env e (c\<lparr>queue := q\<rparr>))))
      else (True, c))"
  by pat_completeness auto
termination
  by (relation "measure (\<lambda>(env, c). held (buckets (queue c)))") (auto dest: dequeue_less [OF sym])

declare dispatch_loop.simps [simp del]

text \<open>
  One lane: entries are taken until one is admitted, the head does not fit, the lane is empty, or no
  capacity is left. The first flag tells that the whole dispatch must stop.
\<close>

function lane_loop :: "env \<Rightarrow> waiter_queue \<Rightarrow> controller \<Rightarrow> bool \<times> waiter_queue \<times> controller" where
  "lane_loop env q c =
     (if qcount q > 0 then
        (let available = limit c - activeCost c in
         if available \<le> 0 then (True, q, c)
         else case dequeue available q of
                (None, q') \<Rightarrow> (False, q', c)
              | (Some e, q') \<Rightarrow>
                  (let r = settle_dequeued env e c in
                   if fst r then (False, q', snd r) else lane_loop env q' (snd r)))
      else (False, q, c))"
  by pat_completeness auto
termination
  by (relation "measure (\<lambda>(env, q, c). held (buckets q))") (auto dest: dequeue_less [OF sym])

declare lane_loop.simps [simp del]

definition removeEmptyLane :: "string \<Rightarrow> controller \<Rightarrow> controller" where
  "removeEmptyLane t c =
     (case jget (lanes c) t of
        Some l \<Rightarrow> if qcount (lane_queue l) = 0 then c\<lparr>lanes := jdel t (lanes c)\<rparr> else c
      | None \<Rightarrow> c)"

fun lanes_loop :: "env \<Rightarrow> string list \<Rightarrow> controller \<Rightarrow> controller" where
  "lanes_loop env [] c = c"
| "lanes_loop env (k # ks) c =
     (case jget (lanes c) k of
        None \<Rightarrow> lanes_loop env ks c
      | Some l \<Rightarrow>
          (let (stop, q, c1) = lane_loop env (lane_queue l) c;
               c2 = c1\<lparr>lanes := jset k (l\<lparr>lane_queue := q\<rparr>) (lanes c1)\<rparr>
           in if stop then c2 else lanes_loop env ks (removeEmptyLane k c2)))"

definition dispatchLanes :: "env \<Rightarrow> controller \<Rightarrow> controller" where
  "dispatchLanes env c =
     (if shutDown c \<or> mode (config c) \<noteq> Enforce then c
      else if lanes c = [] then c
      else lanes_loop env (jkeys (lanes c)) c)"

definition dispatch :: "env \<Rightarrow> controller \<Rightarrow> controller" where
  "dispatch env c =
     (if shutDown c \<or> mode (config c) \<noteq> Enforce then c
      else let (finished, c1) = dispatch_loop env c in if finished then dispatchLanes env c1 else c1)"

section \<open>Virtual accounting (shadow mode)\<close>

definition mark_virtual_active :: "adm_id \<Rightarrow> lease_record \<Rightarrow> controller \<Rightarrow> controller" where
  "mark_virtual_active i r c =
     c\<lparr>active := jset i (r\<lparr>lr_virtual := VActive\<rparr>) (active c),
       virtualActiveCost := addSaturated (virtualActiveCost c) (lr_cost r),
       virtualActiveCount := addSaturated (virtualActiveCount c) 1\<rparr>"

function dispatchVirtual :: "controller \<Rightarrow> controller" where
  "dispatchVirtual c =
     (if qcount (virtualQueue c) > 0 then
        (let available = limit c - virtualActiveCost c in
         if available \<le> 0 then c
         else case dequeue available (virtualQueue c) of
                (None, q) \<Rightarrow> c\<lparr>virtualQueue := q\<rparr>
              | (Some e, q) \<Rightarrow>
                  (case jget (active c) (payload e) of
                     None \<Rightarrow> dispatchVirtual (c\<lparr>virtualQueue := q\<rparr>)
                   | Some r \<Rightarrow> dispatchVirtual (mark_virtual_active (payload e) r (c\<lparr>virtualQueue := q\<rparr>))))
      else c)"
  by pat_completeness auto
termination
  by (relation "measure (\<lambda>c. held (buckets (virtualQueue c)))")
    (auto simp: mark_virtual_active_def dest: dequeue_less [OF sym])

declare dispatchVirtual.simps [simp del]

text \<open>
  The record is passed by value: the caller has already taken it out of \<open>active\<close>, so that the
  assignment to its \<^verbatim>\<open>virtualDisposition\<close> is not observable.
\<close>

definition releaseVirtual :: "adm_id \<Rightarrow> lease_record \<Rightarrow> controller \<Rightarrow> controller" where
  "releaseVirtual i r c =
     dispatchVirtual
       (case lr_virtual r of
          VActive \<Rightarrow> c\<lparr>virtualActiveCost := virtualActiveCost c - lr_cost r, virtualActiveCount := virtualActiveCount c - 1\<rparr>
        | VQueued \<Rightarrow> c\<lparr>virtualQueue := snd (removeById i (virtualQueue c))\<rparr>
        | _ \<Rightarrow> c)"

definition virtual_entry :: "adm_id \<Rightarrow> string \<Rightarrow> int \<Rightarrow> int \<Rightarrow> (adm_id, adm_id) queue_entry" where
  "virtual_entry i t cst enqAt =
     \<lparr>entry_id = i, tenantKey = t, cost = cst, enqueuedAtMs = enqAt, deadlineMs = MAX_SAFE_INTEGER,
      payload = i, skipCount = 0\<rparr>"

fun rebuild_loop :: "(adm_id \<times> lease_record) list \<Rightarrow> controller \<Rightarrow> controller" where
  "rebuild_loop [] c = c"
| "rebuild_loop ((i, r) # rs) c =
     rebuild_loop rs
       (if lr_cost r > limit c then c\<lparr>active := jset i (r\<lparr>lr_virtual := VRejected\<rparr>) (active c)\<rparr>
        else if lr_cost r \<le> limit c - virtualActiveCost c then mark_virtual_active i r c
        else
          (let (ok, q) = enqueue (virtual_entry i ''_existing'' (lr_cost r) (lr_admittedAtMs r)) (virtualQueue c) in
           c\<lparr>virtualQueue := q,
             active := jset i (r\<lparr>lr_virtual := (if ok then VQueued else VRejected)\<rparr>) (active c)\<rparr>))"

definition rebuildVirtualState :: "bool \<Rightarrow> controller \<Rightarrow> controller" where
  "rebuildVirtualState enable c =
     (let c1 = c\<lparr>virtualQueue := new_queue (maxQueueCount (config c)) (maxQueueCost (config c)),
                virtualActiveCost := 0, virtualActiveCount := 0,
                active := map (\<lambda>(i, r). (i, r\<lparr>lr_virtual := VNone\<rparr>)) (active c)\<rparr>
      in if \<not> enable then c1 else rebuild_loop (active c1) c1)"

section \<open>Lanes\<close>

definition armLaneEviction :: "controller \<Rightarrow> controller" where
  "armLaneEviction c = c\<lparr>timers := LaneEvict # removeAll LaneEvict (timers c)\<rparr>"

definition clearLaneEviction :: "controller \<Rightarrow> controller" where
  "clearLaneEviction c = c\<lparr>timers := removeAll LaneEvict (timers c)\<rparr>"

text \<open>Rejecting every drained entry with one code, counting each.\<close>

definition fail_all :: "waiter list \<Rightarrow> reject_code \<Rightarrow> controller \<Rightarrow> controller" where
  "fail_all es code c = fold (\<lambda>e. failQueued e code) es c"

definition deleteLane :: "string \<Rightarrow> controller \<Rightarrow> controller" where
  "deleteLane t c =
     (case jget (lanes c) t of
        None \<Rightarrow> c
      | Some l \<Rightarrow>
          (let c1 = fail_all (fst (drain (lane_queue l))) ADMISSION_LANE_EVICTED c
           in c1\<lparr>lanes := jdel t (lanes c1)\<rparr>))"

text \<open>The last key with the smallest \<^verbatim>\<open>lastUsedMs\<close>, since the comparison is not strict.\<close>

fun oldest_from :: "(string \<times> int) option \<Rightarrow> (string, lane) jmap \<Rightarrow> (string \<times> int) option" where
  "oldest_from best [] = best"
| "oldest_from best ((k, l) # ls) =
     oldest_from (case best of
                    None \<Rightarrow> Some (k, lastUsedMs l)
                  | Some (_, ms) \<Rightarrow> if lastUsedMs l \<le> ms then Some (k, lastUsedMs l) else best) ls"

definition oldestLaneKey :: "controller \<Rightarrow> string option" where
  "oldestLaneKey c = map_option fst (oldest_from None (lanes c))"

definition evictIdleLanes :: "env \<Rightarrow> controller \<Rightarrow> controller" where
  "evictIdleLanes env c =
     (let keys = map fst (filter (\<lambda>(k, l). now env - lastUsedMs l \<ge> ADMISSION_LANE_TTL_MS) (lanes c));
          c1 = fold deleteLane keys c
      in if lanes c1 \<noteq> [] then armLaneEviction c1 else clearLaneEviction c1)"

text \<open>
  \<^verbatim>\<open>getOrCreateLane\<close> makes the lane present and stamps it; the caller then works on the map entry. An
  empty oldest key would be falsy, but a lane key is never empty.
\<close>

definition getOrCreateLane :: "env \<Rightarrow> string \<Rightarrow> controller \<Rightarrow> lane \<times> controller" where
  "getOrCreateLane env t c =
     (case jget (lanes c) t of
        Some l \<Rightarrow> (let l1 = l\<lparr>lastUsedMs := now env\<rparr> in (l1, c\<lparr>lanes := jset t l1 (lanes c)\<rparr>))
      | None \<Rightarrow>
          (let c1 = (if length (lanes c) \<ge> ADMISSION_LANE_MAX_SESSIONS
                     then (case oldestLaneKey c of Some k \<Rightarrow> if k \<noteq> [] then deleteLane k c else c | None \<Rightarrow> c) else c);
               l = \<lparr>lane_queue = new_queue (maxQueueCount (config c1)) (maxQueueCost (config c1)), lastUsedMs = now env\<rparr>
           in (l, c1\<lparr>lanes := jset t l (lanes c1)\<rparr>)))"

definition laneTotalQueuedCost :: "controller \<Rightarrow> int" where
  "laneTotalQueuedCost c = foldl (\<lambda>tot (_, l). addSaturated tot (qcost (lane_queue l))) 0 (lanes c)"

definition laneTotalQueuedCount :: "controller \<Rightarrow> int" where
  "laneTotalQueuedCount c = foldl (\<lambda>tot (_, l). addSaturated tot (qcount (lane_queue l))) 0 (lanes c)"


section \<open>Snapshot\<close>

record lane_tenant =
  lt_tenantKey :: string
  lt_queuedCount :: int
  lt_queuedCost :: int

record admission_snapshot =
  s_mode :: admission_mode
  s_currentLimit :: int
  s_minLimit :: int
  s_maxLimit :: int
  s_activeCost :: int
  s_activeCount :: int
  s_queuedCost :: int
  s_queuedCount :: int
  s_virtualActiveCost :: int
  s_virtualActiveCount :: int
  s_virtualQueuedCost :: int
  s_virtualQueuedCount :: int
  s_virtualLanes :: bool
  s_laneCount :: int
  s_laneQueuedCost :: int
  s_laneQueuedCount :: int
  s_laneTenants :: "lane_tenant list"
  s_admittedCount :: int
  s_rejectedCount :: int
  s_wouldAdmitCount :: int
  s_wouldQueueCount :: int
  s_wouldRejectCount :: int
  s_shortLatencyEwma :: rat
  s_longLatencyEwma :: rat
  s_utilization :: rat
  s_pressure :: admission_pressure
  s_shutdown :: bool

definition laneTenantSnapshot :: "controller \<Rightarrow> lane_tenant list" where
  "laneTenantSnapshot c =
     map (\<lambda>(k, l). \<lparr>lt_tenantKey = k, lt_queuedCount = saturateSnapshotNumber (qcount (lane_queue l)),
        lt_queuedCost = saturateSnapshotNumber (qcost (lane_queue l))\<rparr>) (lanes c)"

definition snapshot :: "env \<Rightarrow> controller \<Rightarrow> admission_snapshot \<times> controller" where
  "snapshot env c0 =
     (let c = sampleIntegral env c0 in
      (\<lparr>s_mode = mode (config c), s_currentLimit = currentLimit (adapt c), s_minLimit = minLimit (config c),
        s_maxLimit = maxLimit (config c), s_activeCost = bigintToSnapshotNumber (activeCost c),
        s_activeCount = saturateSnapshotNumber (int (length (active c))),
        s_queuedCost = saturateSnapshotNumber (qcost (queue c)),
        s_queuedCount = saturateSnapshotNumber (qcount (queue c)),
        s_virtualActiveCost = saturateSnapshotNumber (virtualActiveCost c),
        s_virtualActiveCount = saturateSnapshotNumber (virtualActiveCount c),
        s_virtualQueuedCost = saturateSnapshotNumber (qcost (virtualQueue c)),
        s_virtualQueuedCount = saturateSnapshotNumber (qcount (virtualQueue c)),
        s_virtualLanes = virtualLanes (config c),
        s_laneCount = saturateSnapshotNumber (int (length (lanes c))),
        s_laneQueuedCost = saturateSnapshotNumber (laneTotalQueuedCost c),
        s_laneQueuedCount = saturateSnapshotNumber (laneTotalQueuedCount c),
        s_laneTenants = laneTenantSnapshot c,
        s_admittedCount = saturateSnapshotNumber (admittedCount c),
        s_rejectedCount = saturateSnapshotNumber (rejectedCount c),
        s_wouldAdmitCount = saturateSnapshotNumber (wouldAdmitCount c),
        s_wouldQueueCount = saturateSnapshotNumber (wouldQueueCount c),
        s_wouldRejectCount = saturateSnapshotNumber (wouldRejectCount c),
        s_shortLatencyEwma = shortLatencyEwma (adapt c), s_longLatencyEwma = longLatencyEwma (adapt c),
        s_utilization = utilization (adapt c), s_pressure = pressure (adapt c), s_shutdown = shutDown c\<rparr>, c))"

section \<open>Acquire\<close>

definition resolveCost :: "admission_request \<Rightarrow> controller \<Rightarrow> range_error + int" where
  "resolveCost rq c =
     (if rq_cost rq \<noteq> Undefined then normalizeRequestCost (rq_cost rq) (js_int (cfg_maxRequestCost (config c)))
      else case rq_features rq of
             Some f \<Rightarrow> estimateAdmissionCost f (cost_partial_of (costConfig (config c)))
           | None \<Rightarrow> Inr 1)"

definition shouldAdmitSolo :: "int \<Rightarrow> controller \<Rightarrow> bool" where
  "shouldAdmitSolo cst c \<longleftrightarrow>
     cst \<le> maxLimit (config c) \<and> active c = [] \<and> qcount (queue c) = 0 \<and>
     laneTotalQueuedCount c = 0 \<and> pressure (adapt c) = PNormal"

text \<open>\<^verbatim>\<open>request.tenantKey || "_default"\<close>: a missing and an empty key both mean the default tenant.\<close>

definition tenant_of :: "admission_request \<Rightarrow> string" where
  "tenant_of rq = (case rq_tenantKey rq of Some t \<Rightarrow> if t \<noteq> [] then t else ''_default'' | None \<Rightarrow> ''_default'')"

definition shadow_verdict :: "int \<Rightarrow> controller \<Rightarrow> shadow_decision \<times> disposition \<times> controller" where
  "shadow_verdict cst c =
     (if cst > limit c \<or> \<bar>cst\<bar> > MAX_SAFE_INTEGER
      then (Would_reject, VRejected, c\<lparr>wouldRejectCount := wouldRejectCount c + 1\<rparr>)
      else if virtualActiveCost c + cst \<le> limit c
      then (Would_admit, VActive,
            c\<lparr>virtualActiveCost := addSaturated (virtualActiveCost c) cst,
              virtualActiveCount := addSaturated (virtualActiveCount c) 1,
              wouldAdmitCount := addSaturated (wouldAdmitCount c) 1\<rparr>)
      else if canAccept cst (virtualQueue c)
      then (Would_queue, VQueued, c\<lparr>wouldQueueCount := wouldQueueCount c + 1\<rparr>)
      else (Would_reject, VRejected, c\<lparr>wouldRejectCount := wouldRejectCount c + 1\<rparr>))"

definition acquireShadow :: "env \<Rightarrow> admission_request \<Rightarrow> int \<Rightarrow> controller \<Rightarrow> acquire_result \<times> controller" where
  "acquireShadow env rq cst c =
     (let (decision, disp, c1) = shadow_verdict cst c;
          (l, c2) = admit env cst disp c1;
          c3 = (if disp = VQueued
                then c2\<lparr>virtualQueue := snd (enqueue (virtual_entry l (tenant_of rq) cst (now env)) (virtualQueue c2))\<rparr>
                else c2)
      in (RAdmitted l cst (Some decision), c3))"

text \<open>
  \<^verbatim>\<open>enqueue\<close> of the controller. The identifier is drawn before the wait is validated, and the first
  dispatch runs before the deadline timer and the abort listener are registered.
\<close>

definition arm_deadline :: "adm_id \<Rightarrow> nat option \<Rightarrow> controller \<Rightarrow> controller" where
  "arm_deadline i sig c =
     c\<lparr>timers := timers c @ [Deadline i],
       listeners := (if sig = None then listeners c else listeners c @ [i])\<rparr>"

definition request_entry :: "adm_id \<Rightarrow> admission_request \<Rightarrow> int \<Rightarrow> int \<Rightarrow> int \<Rightarrow> waiter" where
  "request_entry i rq cst nowMs maxWait =
     \<lparr>entry_id = i, tenantKey = tenant_of rq, cost = cst, enqueuedAtMs = nowMs,
      deadlineMs = min MAX_SAFE_INTEGER (nowMs + maxWait), payload = rq_signal rq, skipCount = 0\<rparr>"

definition enqueue_lane :: "env \<Rightarrow> waiter \<Rightarrow> controller \<Rightarrow> bool \<times> controller" where
  "enqueue_lane env e c =
     (let (l, c1) = getOrCreateLane env (tenantKey e) c;
          (ok, q) = enqueue e (lane_queue l);
          c2 = c1\<lparr>lanes := jset (tenantKey e) (l\<lparr>lane_queue := q\<rparr>) (lanes c1)\<rparr>
      in if ok then (True, armLaneEviction c2) else (False, removeEmptyLane (tenantKey e) c2))"

definition enqueue_shared :: "waiter \<Rightarrow> controller \<Rightarrow> bool \<times> controller" where
  "enqueue_shared e c = (let (ok, q) = enqueue e (queue c) in (ok, c\<lparr>queue := q\<rparr>))"

definition enqueueRequest :: "env \<Rightarrow> admission_request \<Rightarrow> int \<Rightarrow> controller \<Rightarrow> acquire_result \<times> controller" where
  "enqueueRequest env rq cst c =
     (let i = Waiter (leaseSeq c + 1); c1 = c\<lparr>leaseSeq := leaseSeq c + 1\<rparr> in
      case normalizeRequestCost (nullish (rq_maxWaitMs rq) (js_int (defaultMaxWaitMs (config c1)))) (js_int MAX_ADMISSION_WINDOW_MS) of
        Inl err \<Rightarrow> (RThrew err, c1)
      | Inr maxWait \<Rightarrow>
          (let e = request_entry i rq cst (now env) maxWait;
               (ok, c2) = (if tenantKey e \<noteq> ''_default'' \<and> virtualLanes (config c1) then enqueue_lane env e c1
                           else enqueue_shared e c1)
           in if \<not> ok then reject ADMISSION_QUEUE_FULL c2
              else (RQueued i, dispatch env (arm_deadline i (rq_signal rq) (dispatch env c2)))))"

definition acquire :: "env \<Rightarrow> admission_request \<Rightarrow> controller \<Rightarrow> acquire_result \<times> controller" where
  "acquire env rq c =
     (if shutDown c then reject ADMISSION_SHUTDOWN c
      else if signal_aborted env (rq_signal rq) then reject ADMISSION_ABORTED c
      else
        (let c1 = (case rq_pressure rq of Some p \<Rightarrow> c\<lparr>adapt := setPressure (adapt c) p\<rparr> | None \<Rightarrow> c) in
         case resolveCost rq c1 of
           Inl err \<Rightarrow> (RThrew err, c1)
         | Inr cst \<Rightarrow>
             if mode (config c1) = ModeOff then admitVirtual cst c1
             else if mode (config c1) = Shadow then acquireShadow env rq cst c1
             else if cst > limit c1 then
               (if shouldAdmitSolo cst c1
                then (let (l, c2) = admit env cst VNone c1 in (RAdmitted l cst None, c2))
                else reject ADMISSION_OVERSIZED c1)
             else if qcount (queue c1) = 0 \<and> activeCost c1 + cst \<le> limit c1
             then (let (l, c2) = admit env cst VNone c1 in (RAdmitted l cst None, c2))
             else if \<not> canAccept cst (queue c1) then reject ADMISSION_QUEUE_FULL c1
             else enqueueRequest env rq cst c1))"

section \<open>Release, expiry, pressure, window\<close>

text \<open>The adaptation bookkeeping of a release.\<close>

definition release_adapt ::
  "env \<Rightarrow> lease_record \<Rightarrow> release_outcome \<Rightarrow> release_meta \<Rightarrow> adaptation_params \<Rightarrow> adaptation_state \<Rightarrow> adaptation_state" where
  "release_adapt env r out meta p st =
     (let latency = (case rm_latencyMs meta of
                       Some l \<Rightarrow> l | None \<Rightarrow> Fin (of_int (max 0 (now env - lr_admittedAtMs r))));
          st1 = noteOutcome (noteLatency st latency p) out;
          st2 = st1\<lparr>windowCompleted := windowCompleted st1 + 1\<rparr>
      in (case rm_pressure meta of Some q \<Rightarrow> setPressure st2 q | None \<Rightarrow> st2))"

definition releaseLease ::
  "env \<Rightarrow> adm_id \<Rightarrow> release_outcome \<Rightarrow> release_meta \<Rightarrow> controller \<Rightarrow> controller" where
  "releaseLease env i out meta c =
     (case jget (active c) i of
        None \<Rightarrow> c
      | Some r \<Rightarrow>
          (let c1 = sampleIntegral env c;
               c2 = c1\<lparr>active := jdel i (active c1), activeCost := activeCost c1 - lr_cost r,
                       adapt := release_adapt env r out meta (adaptation (config c1)) (adapt c1)\<rparr>
           in dispatch env (releaseVirtual i r c2)))"

fun expire_scan :: "adm_id \<Rightarrow> (string, lane) jmap \<Rightarrow> (waiter \<times> string \<times> lane) option" where
  "expire_scan i [] = None"
| "expire_scan i ((k, l) # ls) =
     (case removeById i (lane_queue l) of
        (Some e, q) \<Rightarrow> Some (e, k, l\<lparr>lane_queue := q\<rparr>)
      | (None, _) \<Rightarrow> expire_scan i ls)"

definition expireEntry :: "env \<Rightarrow> adm_id \<Rightarrow> reject_code \<Rightarrow> controller \<Rightarrow> controller" where
  "expireEntry env i code c =
     (case removeById i (queue c) of
        (Some e, q) \<Rightarrow> dispatch env (failQueued e code (c\<lparr>queue := q\<rparr>))
      | (None, _) \<Rightarrow>
          (case expire_scan i (lanes c) of
             None \<Rightarrow> c
           | Some (e, k, l) \<Rightarrow>
               dispatch env (failQueued e code (removeEmptyLane (tenantKey e) (c\<lparr>lanes := jset k l (lanes c)\<rparr>)))))"

definition observePressure :: "env \<Rightarrow> admission_pressure \<Rightarrow> controller \<Rightarrow> controller" where
  "observePressure env p c =
     (let c1 = c\<lparr>adapt := setPressure (adapt c) p\<rparr> in
      if p = PCritical \<and> \<not> criticalDecreaseConsumed (adapt c1)
      then dispatchVirtual (dispatch env
             (c1\<lparr>adapt := (adapt c1)
                \<lparr>currentLimit := max (minLimit (config c1))
                   \<lfloor>of_int (limit c1) * criticalDecreaseFactor (adaptation (config c1))\<rfloor>,
                 criticalDecreaseConsumed := True\<rparr>\<rparr>))
      else c1)"

definition tick :: "env \<Rightarrow> controller \<Rightarrow> controller" where
  "tick env c =
     (let c1 = evictIdleLanes env (sampleIntegral env c) in
      dispatchVirtual (dispatch env
        (c1\<lparr>adapt := closeAdaptationWindow (adapt c1) (adaptation (config c1)) (now env)\<rparr>)))"

definition armWindowTimer :: "controller \<Rightarrow> controller" where
  "armWindowTimer c =
     (let c1 = c\<lparr>timers := removeAll WindowTick (timers c)\<rparr> in
      if shutDown c1 \<or> mode (config c1) = ModeOff then c1
      else c1\<lparr>timers := WindowTick # timers c1\<rparr>)"

text \<open>The window timer's callback: the timer that fired is gone, and a new one is armed after the tick.\<close>

definition window_fired :: "env \<Rightarrow> controller \<Rightarrow> controller" where
  "window_fired env c =
     (let c1 = tick env (c\<lparr>timers := removeAll WindowTick (timers c)\<rparr>) in
      if \<not> shutDown c1 \<and> mode (config c1) \<noteq> ModeOff then c1\<lparr>timers := WindowTick # timers c1\<rparr> else c1)"

section \<open>Construction, reconfiguration, shutdown\<close>

definition new_controller :: "env \<Rightarrow> admission_input \<Rightarrow> range_error + controller" where
  "new_controller env inp =
     sum_bind (validateConfig inp) (\<lambda>cfg.
       Inr (armWindowTimer
         \<lparr>config = cfg,
          adapt = createAdaptationState (initialLimit cfg) (minLimit cfg) (maxLimit cfg) (now env),
          queue = new_queue (maxQueueCount cfg) (maxQueueCost cfg),
          virtualQueue = new_queue (maxQueueCount cfg) (maxQueueCost cfg),
          lanes = [], active = [], activeCost = 0, virtualActiveCost = 0, virtualActiveCount = 0,
          lastSampleMs = now env, shutDown = False, admittedCount = 0, rejectedCount = 0,
          wouldAdmitCount = 0, wouldQueueCount = 0, wouldRejectCount = 0, leaseSeq = 0,
          timers = [], listeners = [], settled = []\<rparr>))"

text \<open>All entries of all lanes, lane by lane in map order.\<close>

definition drain_lanes :: "(string, lane) jmap \<Rightarrow> waiter list" where
  "drain_lanes ls = concat (map (\<lambda>(k, l). fst (drain (lane_queue l))) ls)"

definition readmit :: "env \<Rightarrow> waiter \<Rightarrow> controller \<Rightarrow> controller" where
  "readmit env e c =
     (if mode (config c) \<noteq> Enforce
      then resolve_admitted env e (detachAbort (entry_id e) (clearEntryTimer (entry_id e) c))
      else if cost e > limit c then failQueued e ADMISSION_OVERSIZED c
      else (let (ok, q) = enqueue e (queue c) in
            if ok then c\<lparr>queue := q\<rparr> else failQueued e ADMISSION_QUEUE_FULL (c\<lparr>queue := q\<rparr>)))"

definition reset_adaptation :: "env \<Rightarrow> validated_config \<Rightarrow> adaptation_state \<Rightarrow> adaptation_state" where
  "reset_adaptation env cfg st =
     st\<lparr>currentLimit := min (maxLimit cfg) (max (minLimit cfg) (currentLimit st)),
        recoveryCeiling := clamp_int (initialLimit cfg) (minLimit cfg) (maxLimit cfg),
        windowStartMs := now env, windowActiveCostIntegral := 0, windowCompleted := 0,
        windowLatencySamples := 0, freezeGrowth := False, criticalDecreaseConsumed := False,
        pressure := PNormal\<rparr>"

definition updateConfig :: "env \<Rightarrow> admission_input \<Rightarrow> controller \<Rightarrow> range_error + controller" where
  "updateConfig env inp c =
     sum_bind (validateConfig inp) (\<lambda>cfg.
       let c1 = sampleIntegral env c;
           drained = fst (drain (queue c1)) @ drain_lanes (lanes c1);
           c2 = clearLaneEviction
                  (c1\<lparr>config := cfg, adapt := reset_adaptation env cfg (adapt c1), lastSampleMs := now env,
                      queue := new_queue (maxQueueCount cfg) (maxQueueCost cfg), lanes := []\<rparr>);
           c3 = fold (readmit env) drained c2;
           c4 = armWindowTimer (rebuildVirtualState (mode cfg = Shadow) c3)
       in Inr (if mode cfg = Enforce then dispatch env c4 else c4))"

definition shutdown :: "controller \<Rightarrow> controller" where
  "shutdown c =
     (if shutDown c then c
      else
        (let c1 = c\<lparr>shutDown := True, timers := removeAll WindowTick (timers c)\<rparr>;
             c2 = fail_all (fst (drain (queue c1))) ADMISSION_SHUTDOWN (c1\<lparr>queue := snd (drain (queue c1))\<rparr>);
             c3 = fail_all (drain_lanes (lanes c2)) ADMISSION_SHUTDOWN c2
         in clearLaneEviction (c3\<lparr>lanes := []\<rparr>)))"

section \<open>Events\<close>

text \<open>
  What can happen to a controller: a caller's operation, a timer that is armed and fires, or an abort
  signal for which a listener is registered. A range error of \<^verbatim>\<open>updateConfig\<close> leaves the controller
  as it was.
\<close>

datatype ctl_event =
    Acquire admission_request
  | Release adm_id release_outcome release_meta
  | Observe admission_pressure
  | Snapshot
  | Tick
  | Window_timer
  | Deadline_timer adm_id
  | Abort_signal adm_id
  | Lane_timer
  | Shutdown
  | Reconfigure admission_input

fun handle :: "env \<Rightarrow> ctl_event \<Rightarrow> controller \<Rightarrow> controller" where
  "handle env (Acquire rq) c = snd (acquire env rq c)"
| "handle env (Release i out meta) c = releaseLease env i out meta c"
| "handle env (Observe p) c = observePressure env p c"
| "handle env Snapshot c = snd (snapshot env c)"
| "handle env Tick c = tick env c"
| "handle env Window_timer c = window_fired env c"
| "handle env (Deadline_timer i) c = expireEntry env i ADMISSION_DEADLINE (clearEntryTimer i c)"
| "handle env (Abort_signal i) c = expireEntry env i ADMISSION_ABORTED (detachAbort i c)"
| "handle env Lane_timer c = evictIdleLanes env (clearLaneEviction c)"
| "handle env Shutdown c = shutdown c"
| "handle env (Reconfigure inp) c = (case updateConfig env inp c of Inl _ \<Rightarrow> c | Inr c' \<Rightarrow> c')"

fun enabled :: "ctl_event \<Rightarrow> controller \<Rightarrow> bool" where
  "enabled Window_timer c \<longleftrightarrow> WindowTick \<in> set (timers c)"
| "enabled (Deadline_timer i) c \<longleftrightarrow> Deadline i \<in> set (timers c)"
| "enabled (Abort_signal i) c \<longleftrightarrow> i \<in> set (listeners c)"
| "enabled Lane_timer c \<longleftrightarrow> LaneEvict \<in> set (timers c)"
| "enabled _ c \<longleftrightarrow> True"

inductive ctl_step :: "ctl_event \<Rightarrow> controller \<Rightarrow> controller \<Rightarrow> bool" where
  ctl_event: "enabled ev c \<Longrightarrow> ctl_step ev c (handle env ev c)"

text \<open>The steps of a controller whose configuration is not changed.\<close>

inductive steady_step :: "ctl_event \<Rightarrow> controller \<Rightarrow> controller \<Rightarrow> bool" where
  steady_event: "ctl_step ev c c' \<Longrightarrow> \<not> (\<exists>inp. ev = Reconfigure inp) \<Longrightarrow> steady_step ev c c'"

inductive_cases ctl_stepE: "ctl_step ev c c'"
inductive_cases steady_stepE: "steady_step ev c c'"

end
