(* ===== verification/Admission_Safety.thy ===== *)
theory Admission_Safety
  imports Admission_Controller
begin

text \<open>
  Admission control, part six: the invariants of the controller and what they give over whole
  histories of events. The invariant has an adaptation part (the limit stays inside the configured
  range), an accounting part (the active cost is the sum over the unreleased leases), a waiting part
  (every queue is well formed) and an identity part (every waiter that was accepted is either still
  waiting or has been settled, and only once).
\<close>

section \<open>Invariant\<close>

definition adapt_ok :: "controller \<Rightarrow> bool" where
  "adapt_ok c \<longleftrightarrow> config_ok (config c) \<and> adaptation_ok (adaptation (config c)) (adapt c)"

definition active_total :: "(adm_id, lease_record) jmap \<Rightarrow> int" where
  "active_total m = sum_list (map (\<lambda>(i, r). lr_cost r) m)"

definition active_ok :: "controller \<Rightarrow> bool" where
  "active_ok c \<longleftrightarrow> jmap_ok (active c) \<and> activeCost c = active_total (active c) \<and>
     (\<forall>(i, r) \<in> set (active c). 0 < lr_cost r \<and> (\<exists>n \<le> leaseSeq c. i = Lease n))"

definition lane_ok :: "string \<Rightarrow> lane \<Rightarrow> bool" where
  "lane_ok k l \<longleftrightarrow> fq_inv (lane_queue l) \<and> (\<forall>e \<in># items (lane_queue l). tenantKey e = k)"

definition lanes_ok :: "(string, lane) jmap \<Rightarrow> bool" where
  "lanes_ok ls \<longleftrightarrow> jmap_ok ls \<and> (\<forall>(k, l) \<in> set ls. lane_ok k l)"

definition ids :: "waiter_queue \<Rightarrow> adm_id multiset" where
  "ids q = image_mset entry_id (items q)"

definition lane_ids :: "(string, lane) jmap \<Rightarrow> adm_id multiset" where
  "lane_ids ls = sum_list (map (\<lambda>(k, l). ids (lane_queue l)) ls)"

definition waiting :: "controller \<Rightarrow> adm_id multiset" where
  "waiting c = ids (queue c) + lane_ids (lanes c)"

text \<open>Every waiter the controller has accepted: still waiting, or settled.\<close>

definition tracked :: "controller \<Rightarrow> adm_id multiset" where
  "tracked c = waiting c + mset (map fst (settled c))"

definition ids_ok :: "controller \<Rightarrow> bool" where
  "ids_ok c \<longleftrightarrow> (\<forall>i. count (tracked c) i \<le> 1) \<and> (\<forall>i \<in># tracked c. \<exists>n \<le> leaseSeq c. i = Waiter n)"

definition core_ok :: "controller \<Rightarrow> bool" where
  "core_ok c \<longleftrightarrow> adapt_ok c \<and> active_ok c \<and> fq_inv (queue c) \<and> lanes_ok (lanes c)"

definition ctl_inv :: "controller \<Rightarrow> bool" where
  "ctl_inv c \<longleftrightarrow> core_ok c \<and> ids_ok c"

text \<open>
  How the internal operations move a controller: they keep the configuration, the limit and the set
  of accepted waiters, only add to the settlement log, and never push the active cost beyond the
  limit.
\<close>

definition active_grows :: "controller \<Rightarrow> controller \<Rightarrow> bool" where
  "active_grows c c' \<longleftrightarrow>
     (\<forall>i \<in> set (jkeys (active c')). i \<in> set (jkeys (active c)) \<or> (\<exists>n > leaseSeq c. i = Lease n))"

lemma active_grows_keys: "set (jkeys (active c')) \<subseteq> set (jkeys (active c)) \<Longrightarrow> active_grows c c'"
  unfolding active_grows_def by blast

lemma active_grows_same: "active c' = active c \<Longrightarrow> active_grows c c'"
  by (rule active_grows_keys) simp

lemma active_grows_trans:
  "active_grows a b \<Longrightarrow> active_grows b c \<Longrightarrow> leaseSeq a \<le> leaseSeq b \<Longrightarrow> active_grows a c"
  unfolding active_grows_def by (meson le_less_trans)

definition advances :: "controller \<Rightarrow> controller \<Rightarrow> bool" where
  "advances c c' \<longleftrightarrow>
     config c' = config c \<and> limit c' = limit c \<and> shutDown c' = shutDown c \<and> leaseSeq c \<le> leaseSeq c' \<and>
     tracked c' = tracked c \<and> core_ok c' \<and> activeCost c' \<le> max (activeCost c) (limit c) \<and>
     (\<exists>ss. settled c' = settled c @ ss) \<and> active_grows c c'"

lemma advancesD:
  assumes "advances c c'"
  shows "config c' = config c" "limit c' = limit c" "shutDown c' = shutDown c" "leaseSeq c \<le> leaseSeq c'"
    "tracked c' = tracked c" "core_ok c'" "activeCost c' \<le> max (activeCost c) (limit c)"
    "\<exists>ss. settled c' = settled c @ ss" "active_grows c c'"
  using assms unfolding advances_def by blast+

lemma advances_refl: "core_ok c \<Longrightarrow> advances c c"
  by (simp add: advances_def active_grows_same)

lemma advances_trans:
  assumes "advances a b" "advances b c"
  shows "advances a c"
proof -
  note x = advancesD [OF assms(1)] and y = advancesD [OF assms(2)]
  obtain s t where "settled b = settled a @ s" "settled c = settled b @ t" using x(8) y(8) by blast
  then have "settled c = settled a @ (s @ t)" by simp
  moreover have "activeCost c \<le> max (activeCost a) (limit a)" using x(2,7) y(7) by linarith
  ultimately show ?thesis
    using x(1-5) y(1-6) active_grows_trans [OF x(9) y(9) x(4)] unfolding advances_def by auto
qed

lemma core_okD:
  assumes "core_ok c"
  shows "config_ok (config c)" "adaptation_ok (adaptation (config c)) (adapt c)" "jmap_ok (active c)"
    "activeCost c = active_total (active c)" "fq_inv (queue c)" "lanes_ok (lanes c)"
    "params_ok (adaptation (config c))"
    "\<And>i r. (i, r) \<in> set (active c) \<Longrightarrow> 0 < lr_cost r \<and> (\<exists>n \<le> leaseSeq c. i = Lease n)"
  using assms unfolding core_ok_def adapt_ok_def active_ok_def config_ok_def by auto

lemma core_limits:
  assumes "core_ok c"
  shows "minLimit (config c) \<le> limit c" "limit c \<le> maxLimit (config c)" "0 < limit c"
  using core_okD(1,2) [OF assms] unfolding config_ok_def adaptation_ok_def by auto

text \<open>The invariant depends on few fields.\<close>

lemma core_ok_cong:
  assumes "core_ok c" "config c' = config c" "adaptation_ok (adaptation (config c)) (adapt c')"
    "active c' = active c" "activeCost c' = activeCost c" "leaseSeq c \<le> leaseSeq c'"
    "fq_inv (queue c')" "lanes_ok (lanes c')"
  shows "core_ok c'"
  using assms unfolding core_ok_def adapt_ok_def active_ok_def by (fastforce intro: order_trans)

lemma active_total_simps [simp]:
  "active_total [] = 0" "active_total ((i, r) # m) = lr_cost r + active_total m"
  "active_total (a @ b) = active_total a + active_total b"
  by (simp_all add: active_total_def)

lemma lane_ids_simps [simp]:
  "lane_ids [] = {#}" "lane_ids ((k, l) # ls) = ids (lane_queue l) + lane_ids ls"
  "lane_ids (a @ b) = lane_ids a + lane_ids b"
  by (simp_all add: lane_ids_def)

lemma fresh_lease:
  assumes "core_ok c"
  shows "Lease (Suc (leaseSeq c)) \<notin> set (jkeys (active c))"
  using core_okD(8) [OF assms] by fastforce

section \<open>Primitive steps\<close>

lemma sampleIntegral_frame [simp]:
  "config (sampleIntegral env c) = config c" "queue (sampleIntegral env c) = queue c"
  "virtualQueue (sampleIntegral env c) = virtualQueue c" "lanes (sampleIntegral env c) = lanes c"
  "active (sampleIntegral env c) = active c" "activeCost (sampleIntegral env c) = activeCost c"
  "leaseSeq (sampleIntegral env c) = leaseSeq c" "shutDown (sampleIntegral env c) = shutDown c"
  "settled (sampleIntegral env c) = settled c" "timers (sampleIntegral env c) = timers c"
  "listeners (sampleIntegral env c) = listeners c"
  "virtualActiveCost (sampleIntegral env c) = virtualActiveCost c"
  "virtualActiveCount (sampleIntegral env c) = virtualActiveCount c"
  "rejectedCount (sampleIntegral env c) = rejectedCount c"
  "admittedCount (sampleIntegral env c) = admittedCount c"
  by (simp_all add: sampleIntegral_def Let_def)

lemma sampleIntegral_limit [simp]: "limit (sampleIntegral env c) = limit c"
  by (simp add: sampleIntegral_def sampleActiveIntegral_def Let_def)

lemma sampleIntegral_adapt:
  "core_ok c \<Longrightarrow> adaptation_ok (adaptation (config c)) (adapt (sampleIntegral env c))"
  using core_okD(2,7) [of c] by (simp add: sampleIntegral_def Let_def sampleActiveIntegral_ok)

lemma failQueued_frame [simp]:
  "config (failQueued e k c) = config c" "adapt (failQueued e k c) = adapt c" "queue (failQueued e k c) = queue c"
  "virtualQueue (failQueued e k c) = virtualQueue c" "lanes (failQueued e k c) = lanes c"
  "active (failQueued e k c) = active c" "activeCost (failQueued e k c) = activeCost c"
  "leaseSeq (failQueued e k c) = leaseSeq c" "shutDown (failQueued e k c) = shutDown c"
  "settled (failQueued e k c) = settled c @ [(entry_id e, Rejected k)]"
  "rejectedCount (failQueued e k c) = rejectedCount c + 1"
  by (simp_all add: failQueued_def settle_def detachAbort_def clearEntryTimer_def Let_def)

text \<open>\<open>settles e c c'\<close>: the waiter \<open>e\<close> is settled and nothing else changes for the queues.\<close>

definition settles :: "waiter \<Rightarrow> controller \<Rightarrow> controller \<Rightarrow> bool" where
  "settles e c c' \<longleftrightarrow>
     config c' = config c \<and> limit c' = limit c \<and> shutDown c' = shutDown c \<and> leaseSeq c \<le> leaseSeq c' \<and>
     queue c' = queue c \<and> lanes c' = lanes c \<and> core_ok c' \<and> (\<exists>s. settled c' = settled c @ [(entry_id e, s)]) \<and>
     active_grows c c'"

lemma settlesD:
  assumes "settles e c c'"
  shows "config c' = config c" "limit c' = limit c" "shutDown c' = shutDown c" "leaseSeq c \<le> leaseSeq c'"
    "queue c' = queue c" "lanes c' = lanes c" "core_ok c'" "\<exists>s. settled c' = settled c @ [(entry_id e, s)]"
    "active_grows c c'"
  using assms unfolding settles_def by blast+

lemma settles_tracked:
  assumes "settles e c c'"
  shows "tracked c' = add_mset (entry_id e) (tracked c)"
proof -
  obtain s where "settled c' = settled c @ [(entry_id e, s)]" using settlesD(8) [OF assms] by blast
  then show ?thesis using settlesD(5,6) [OF assms] by (simp add: tracked_def waiting_def)
qed

lemma failQueued_settles:
  assumes "core_ok c"
  shows "settles e c (failQueued e k c)"
proof -
  have "core_ok (failQueued e k c)"
    using core_okD [OF assms] by (intro core_ok_cong [OF assms]) simp_all
  then show ?thesis by (simp add: settles_def active_grows_same)
qed

lemma admit_frame:
  assumes "admit env k d c = (l, c')"
  shows "config c' = config c" "limit c' = limit c" "shutDown c' = shutDown c" "leaseSeq c' = leaseSeq c + 1"
    "queue c' = queue c" "lanes c' = lanes c" "settled c' = settled c" "l = Lease (leaseSeq c + 1)"
    "activeCost c' = activeCost c + k" "virtualQueue c' = virtualQueue c"
    "adapt c' = adapt (sampleIntegral env c)" "timers c' = timers c" "listeners c' = listeners c"
    "active c' = jset l \<lparr>lr_cost = k, lr_admittedAtMs = now env, lr_virtual = d\<rparr> (active c)"
    "virtualActiveCost c' = virtualActiveCost c" "virtualActiveCount c' = virtualActiveCount c"
    "rejectedCount c' = rejectedCount c" "admittedCount c' = admittedCount c + 1"
  using assms by (auto simp: admit_def Let_def)

lemma admit_grows:
  assumes "admit env k d c = (l, c')"
  shows "active_grows c c'"
proof -
  have "set (jkeys (active c')) = insert (Lease (Suc (leaseSeq c))) (set (jkeys (active c)))"
    using admit_frame(8,14) [OF assms] by simp
  then show ?thesis unfolding active_grows_def by blast
qed

lemma admit_core:
  assumes "core_ok c" "0 < k" "admit env k d c = (l, c')"
  shows "core_ok c'"
proof -
  note f = admit_frame [OF assms(3)] and o = core_okD [OF assms(1)]
  let ?r = "\<lparr>lr_cost = k, lr_admittedAtMs = now env, lr_virtual = d\<rparr>"
  have a: "active c' = active c @ [(l, ?r)]"
    unfolding f(14) using fresh_lease [OF assms(1)] f(8) by (intro jset_append) simp
  have "active_ok c'"
    unfolding active_ok_def a f(4,9)
  proof (intro conjI)
    show "jmap_ok (active c @ [(l, ?r)])" using jmap_ok_jset [OF o(3), of l ?r] a f(14) by simp
    show "activeCost c + k = active_total (active c @ [(l, ?r)])" using o(4) by simp
    show "\<forall>(i, r) \<in> set (active c @ [(l, ?r)]). 0 < lr_cost r \<and> (\<exists>n \<le> leaseSeq c + 1. i = Lease n)"
      using o(8) assms(2) f(8) by fastforce
  qed
  moreover have "adapt_ok c'"
    using o(1) sampleIntegral_adapt [OF assms(1)] by (simp add: adapt_ok_def f)
  ultimately show ?thesis using o(5,6) by (simp add: core_ok_def f)
qed

lemma resolve_admitted_settles:
  assumes "core_ok c" "0 < cost e"
  shows "settles e c (resolve_admitted env e c)" "activeCost (resolve_admitted env e c) = activeCost c + cost e"
proof -
  obtain l c1 where a: "admit env (cost e) VNone c = (l, c1)" by force
  note f = admit_frame [OF a]
  have r: "resolve_admitted env e c = settle (entry_id e) (Resolved l (cost e)) c1"
    by (simp add: resolve_admitted_def a)
  have c1: "core_ok c1" by (rule admit_core [OF assms a])
  have "core_ok (resolve_admitted env e c)"
    unfolding r using core_okD [OF c1] by (intro core_ok_cong [OF c1]) (simp_all add: settle_def)
  moreover have "active_grows c (resolve_admitted env e c)"
    using admit_grows [OF a] by (simp add: r settle_def active_grows_def)
  ultimately show "settles e c (resolve_admitted env e c)" by (simp add: settles_def f r settle_def)
  show "activeCost (resolve_admitted env e c) = activeCost c + cost e" by (simp add: r settle_def f)
qed

lemma untimed_frame [simp]:
  "config (detachAbort i (clearEntryTimer j c)) = config c" "adapt (detachAbort i (clearEntryTimer j c)) = adapt c"
  "queue (detachAbort i (clearEntryTimer j c)) = queue c" "lanes (detachAbort i (clearEntryTimer j c)) = lanes c"
  "active (detachAbort i (clearEntryTimer j c)) = active c" "activeCost (detachAbort i (clearEntryTimer j c)) = activeCost c"
  "leaseSeq (detachAbort i (clearEntryTimer j c)) = leaseSeq c" "shutDown (detachAbort i (clearEntryTimer j c)) = shutDown c"
  "settled (detachAbort i (clearEntryTimer j c)) = settled c"
  "core_ok (detachAbort i (clearEntryTimer j c)) = core_ok c"
  by (simp_all add: detachAbort_def clearEntryTimer_def core_ok_def adapt_ok_def active_ok_def)

lemma settles_untimed: "settles e (detachAbort i (clearEntryTimer j c)) c' \<longleftrightarrow> settles e c c'"
  by (simp add: settles_def active_grows_def)

lemma settle_dequeued_settles:
  assumes "core_ok c" "0 < cost e"
  shows "settles e c (snd (settle_dequeued env e c))"
    "activeCost (snd (settle_dequeued env e c)) \<le> activeCost c + cost e"
    "\<not> fst (settle_dequeued env e c) \<Longrightarrow> activeCost (snd (settle_dequeued env e c)) = activeCost c"
proof -
  let ?c = "detachAbort (entry_id e) (clearEntryTimer (entry_id e) c)"
  have "core_ok ?c" using assms(1) by simp
  note r = resolve_admitted_settles [OF this assms(2), of env]
  show "settles e c (snd (settle_dequeued env e c))"
    using r(1) failQueued_settles [OF assms(1), of e] by (simp add: settle_dequeued_def settles_untimed)
  show "activeCost (snd (settle_dequeued env e c)) \<le> activeCost c + cost e"
    "\<not> fst (settle_dequeued env e c) \<Longrightarrow> activeCost (snd (settle_dequeued env e c)) = activeCost c"
    using r(2) assms(2) by (auto simp: settle_dequeued_def split: if_splits)
qed


section \<open>Dispatch\<close>

lemma core_ok_queue:
  assumes "core_ok c" "fq_inv q"
  shows "core_ok (c\<lparr>queue := q\<rparr>)"
  using core_okD [OF assms(1)] assms(2) by (intro core_ok_cong [OF assms(1)]) simp_all

lemma core_ok_lanes:
  assumes "core_ok c" "lanes_ok ls"
  shows "core_ok (c\<lparr>lanes := ls\<rparr>)"
  using core_okD [OF assms(1)] assms(2) by (intro core_ok_cong [OF assms(1)]) simp_all

lemma dequeue_ids:
  assumes "fq_inv q" "dequeue b q = (Some e, q')"
  shows "fq_inv q'" "ids q = add_mset (entry_id e) (ids q')" "0 < cost e" "cost e \<le> b" "items q' \<subseteq># items q"
proof -
  note d = dequeue_Some [OF assms]
  show "fq_inv q'" "cost e \<le> b" using d by blast+
  have i: "items q = add_mset e (items q')" using d by blast
  then show "ids q = add_mset (entry_id e) (ids q')" "items q' \<subseteq># items q" by (simp_all add: ids_def)
  show "0 < cost e" by (rule fq.deq_nonneg [OF assms])
qed

text \<open>One dequeue from the shared queue followed by the settlement of what came out.\<close>

lemma dispatch_one:
  assumes c: "core_ok c" and d: "dequeue (limit c - activeCost c) (queue c) = (Some e, q)"
  shows "advances c (snd (settle_dequeued env e (c\<lparr>queue := q\<rparr>)))"
proof -
  note q = dequeue_ids [OF core_okD(5) [OF c] d]
  let ?c = "c\<lparr>queue := q\<rparr>" and ?c' = "snd (settle_dequeued env e (c\<lparr>queue := q\<rparr>))"
  have ok: "core_ok ?c" by (rule core_ok_queue [OF c q(1)])
  note s = settle_dequeued_settles [OF ok q(3), of env]
  note f = settlesD [OF s(1)]
  have "tracked ?c' = tracked c"
    using settles_tracked [OF s(1)] q(2) by (simp add: tracked_def waiting_def)
  moreover have "activeCost ?c' \<le> limit c" using s(2) q(4) by simp
  moreover have "active_grows c ?c'" using f(9) by (simp add: active_grows_def)
  ultimately show ?thesis using f by (auto simp: advances_def)
qed

lemma dispatch_loop_advances: "core_ok c \<Longrightarrow> advances c (snd (dispatch_loop env c))"
proof (induction env c rule: dispatch_loop.induct)
  case (1 env c)
  show ?case
  proof (cases "qcount (queue c) > 0 \<and> limit c - activeCost c > 0")
    case True
    obtain r q where d: "dequeue (limit c - activeCost c) (queue c) = (r, q)" by force
    show ?thesis
    proof (cases r)
      case None
      with d have "q = queue c" using dequeue_None [OF core_okD(5) [OF "1.prems"]] by simp
      with True d None show ?thesis
        using advances_refl [OF "1.prems"] by (subst dispatch_loop.simps) (simp add: Let_def)
    next
      case (Some e)
      let ?c' = "snd (settle_dequeued env e (c\<lparr>queue := q\<rparr>))"
      have a: "advances c ?c'" using dispatch_one [OF "1.prems"] d Some by simp
      have "dispatch_loop env c = dispatch_loop env ?c'"
        using True d Some by (subst dispatch_loop.simps) (simp add: Let_def)
      moreover have "advances ?c' (snd (dispatch_loop env ?c'))"
        using True advancesD(6) [OF a] by (intro "1.IH" [OF _ refl _ d [symmetric] Some]) simp_all
      ultimately show ?thesis using advances_trans [OF a] by simp
    qed
  next
    case False
    then show ?thesis
      using advances_refl [OF "1.prems"] by (subst dispatch_loop.simps) (auto simp: Let_def)
  qed
qed

text \<open>The loop over one lane: the same accounting, with the lane's queue beside the controller.\<close>

definition lane_advances :: "waiter_queue \<Rightarrow> controller \<Rightarrow> waiter_queue \<Rightarrow> controller \<Rightarrow> bool" where
  "lane_advances q c q' c' \<longleftrightarrow>
     config c' = config c \<and> limit c' = limit c \<and> shutDown c' = shutDown c \<and> leaseSeq c \<le> leaseSeq c' \<and>
     queue c' = queue c \<and> lanes c' = lanes c \<and> core_ok c' \<and> fq_inv q' \<and> items q' \<subseteq># items q \<and>
     ids q' + mset (map fst (settled c')) = ids q + mset (map fst (settled c)) \<and>
     activeCost c' \<le> max (activeCost c) (limit c) \<and> (\<exists>ss. settled c' = settled c @ ss) \<and> active_grows c c'"

lemma lane_advances_refl: "core_ok c \<Longrightarrow> fq_inv q \<Longrightarrow> lane_advances q c q c"
  by (simp add: lane_advances_def active_grows_same)

lemma lane_advances_trans:
  assumes "lane_advances q c q1 c1" "lane_advances q1 c1 q2 c2"
  shows "lane_advances q c q2 c2"
proof -
  obtain s t where "settled c1 = settled c @ s" "settled c2 = settled c1 @ t"
    using assms unfolding lane_advances_def by blast
  then have "settled c2 = settled c @ (s @ t)" by simp
  moreover have "activeCost c2 \<le> max (activeCost c) (limit c)" "items q2 \<subseteq># items q"
    using assms unfolding lane_advances_def by (linarith, metis subset_mset.order_trans)
  moreover have "active_grows c c2"
    using assms unfolding lane_advances_def by (blast intro: active_grows_trans)
  ultimately show ?thesis using assms unfolding lane_advances_def by auto
qed

lemma lane_one:
  assumes c: "core_ok c" and q: "fq_inv q" and d: "dequeue (limit c - activeCost c) q = (Some e, q')"
  shows "lane_advances q c q' (snd (settle_dequeued env e c))"
proof -
  note i = dequeue_ids [OF q d]
  note s = settle_dequeued_settles [OF c i(3), of env]
  note f = settlesD [OF s(1)]
  obtain x where x: "settled (snd (settle_dequeued env e c)) = settled c @ [(entry_id e, x)]" using f(8) by blast
  have "activeCost (snd (settle_dequeued env e c)) \<le> limit c" using s(2) i(4) by simp
  then show ?thesis using f i by (auto simp: lane_advances_def x)
qed

lemma lane_loop_advances:
  "core_ok c \<Longrightarrow> fq_inv q \<Longrightarrow> lane_loop env q c = (stop, q', c') \<Longrightarrow> lane_advances q c q' c'"
proof (induction env q c rule: lane_loop.induct)
  case (1 env q c)
  show ?case
  proof (cases "qcount q > 0 \<and> limit c - activeCost c > 0")
    case True
    obtain r q1 where d: "dequeue (limit c - activeCost c) q = (r, q1)" by force
    show ?thesis
    proof (cases r)
      case None
      with d have "q1 = q" using dequeue_None [OF "1.prems"(2)] by simp
      moreover have "(stop, q', c') = (False, q1, c)"
        using "1.prems"(3) True d None by (subst (asm) lane_loop.simps) (simp add: Let_def)
      ultimately show ?thesis using lane_advances_refl "1.prems"(1,2) by simp
    next
      case (Some e)
      let ?r = "settle_dequeued env e c"
      have a: "lane_advances q c q1 (snd ?r)" using lane_one [OF "1.prems"(1,2)] d Some by simp
      show ?thesis
      proof (cases "fst ?r")
        case True': True
        have "(stop, q', c') = (False, q1, snd ?r)"
          using "1.prems"(3) True d Some True' by (subst (asm) lane_loop.simps) (simp add: Let_def)
        then show ?thesis using a by simp
      next
        case False
        have "lane_loop env q1 (snd ?r) = (stop, q', c')"
          using "1.prems"(3) True d Some False by (subst (asm) lane_loop.simps) (simp add: Let_def)
        moreover have "core_ok (snd ?r)" "fq_inv q1" using a by (simp_all add: lane_advances_def)
        ultimately have "lane_advances q1 (snd ?r) q' c'"
          using True by (intro "1.IH" [OF _ refl _ d [symmetric] Some refl False]) simp_all
        then show ?thesis using lane_advances_trans [OF a] by blast
      qed
    qed
  next
    case False
    with "1.prems" have "q' = q \<and> c' = c" by (subst (asm) lane_loop.simps) (auto simp: Let_def split: if_splits)
    then show ?thesis using lane_advances_refl "1.prems"(1,2) by simp
  qed
qed

subsection \<open>The map of lanes\<close>

lemma lane_ids_jset:
  assumes "jget ls k = Some l"
  shows "lane_ids (jset k l' ls) + ids (lane_queue l) = lane_ids ls + ids (lane_queue l')"
proof -
  obtain a b where s: "ls = a @ (k, l) # b" "k \<notin> set (jkeys a)" using jget_split [OF assms] .
  then have "jset k l' ls = a @ (k, l') # b" by (simp add: jset_at)
  then show ?thesis by (simp add: s(1))
qed

lemma lanes_ok_get: "lanes_ok ls \<Longrightarrow> jget ls k = Some l \<Longrightarrow> lane_ok k l"
  unfolding lanes_ok_def by (fastforce dest: jget_SomeD)

lemma lanes_ok_jset:
  assumes "lanes_ok ls" "lane_ok k l"
  shows "lanes_ok (jset k l ls)"
proof -
  have "lane_ok k' l'" if "(k', l') \<in> set (jset k l ls)" for k' l'
  proof -
    have "jget (jset k l ls) k' = Some l'" using that assms(1) by (intro jget_mem) (simp add: lanes_ok_def)
    then show ?thesis using assms lanes_ok_get by (auto split: if_splits)
  qed
  then show ?thesis using assms(1) by (auto simp: lanes_ok_def)
qed

lemma lanes_ok_jdel:
  assumes "lanes_ok ls"
  shows "lanes_ok (jdel k ls)"
  using assms by (auto simp: lanes_ok_def dest: set_jdel_subset [THEN subsetD])

lemma lane_ids_jdel:
  assumes "lanes_ok ls" "jget ls k = Some l"
  shows "lane_ids ls = ids (lane_queue l) + lane_ids (jdel k ls)"
proof -
  obtain a b where s: "ls = a @ (k, l) # b" "k \<notin> set (jkeys a)" using jget_split [OF assms(2)] .
  then have "k \<notin> set (jkeys b)" using assms(1) by (auto simp: lanes_ok_def jmap_ok_def)
  then show ?thesis using s by (simp add: jdel_split)
qed

lemma removeEmptyLane_advances:
  assumes c: "core_ok c"
  shows "advances c (removeEmptyLane k c)"
proof (cases "\<exists>l. jget (lanes c) k = Some l \<and> qcount (lane_queue l) = 0")
  case True
  then obtain l where l: "jget (lanes c) k = Some l" "qcount (lane_queue l) = 0" by blast
  have ok: "lanes_ok (lanes c)" using core_okD(6) [OF c] .
  then have "ids (lane_queue l) = {#}"
    using lanes_ok_get [OF ok l(1)] l(2) fq.empty_iff [of "lane_queue l"] by (simp add: lane_ok_def ids_def)
  then have "tracked (c\<lparr>lanes := jdel k (lanes c)\<rparr>) = tracked c"
    using lane_ids_jdel [OF ok l(1)] by (simp add: tracked_def waiting_def)
  then show ?thesis
    using l core_ok_lanes [OF c lanes_ok_jdel [OF ok]] by (simp add: removeEmptyLane_def advances_def active_grows_same)
next
  case False
  then have "removeEmptyLane k c = c" by (auto simp: removeEmptyLane_def split: option.splits)
  then show ?thesis using advances_refl [OF c] by simp
qed

lemma lane_visit_advances:
  assumes c: "core_ok c" and l: "jget (lanes c) k = Some l"
    and lp: "lane_loop env (lane_queue l) c = (stop, q, c1)"
  shows "advances c (c1\<lparr>lanes := jset k (l\<lparr>lane_queue := q\<rparr>) (lanes c1)\<rparr>)"
proof -
  have ok: "lanes_ok (lanes c)" using core_okD(6) [OF c] .
  note lo = lanes_ok_get [OF ok l, unfolded lane_ok_def]
  have a: "lane_advances (lane_queue l) c q c1" using lane_loop_advances [OF c _ lp] lo by blast
  let ?c = "c1\<lparr>lanes := jset k (l\<lparr>lane_queue := q\<rparr>) (lanes c1)\<rparr>"
  have "lane_ok k (l\<lparr>lane_queue := q\<rparr>)"
    using a lo by (auto simp: lane_advances_def lane_ok_def dest: mset_subset_eqD)
  then have "core_ok ?c"
    using a ok by (intro core_ok_lanes lanes_ok_jset) (auto simp: lane_advances_def)
  moreover have "tracked ?c = tracked c"
  proof -
    have "lane_ids (jset k (l\<lparr>lane_queue := q\<rparr>) (lanes c)) + ids (lane_queue l) = lane_ids (lanes c) + ids q"
      using lane_ids_jset [OF l, of "l\<lparr>lane_queue := q\<rparr>"] by simp
    moreover have "ids q + mset (map fst (settled c1)) = ids (lane_queue l) + mset (map fst (settled c))"
      "queue c1 = queue c" "lanes c1 = lanes c" using a by (simp_all add: lane_advances_def)
    ultimately show ?thesis
      using mset_exchange by (simp add: tracked_def waiting_def add.assoc)
  qed
  ultimately show ?thesis using a by (simp add: advances_def lane_advances_def active_grows_def)
qed

lemma lanes_loop_advances: "core_ok c \<Longrightarrow> advances c (lanes_loop env ks c)"
proof (induction ks arbitrary: c)
  case Nil
  then show ?case by (simp add: advances_refl)
next
  case (Cons k ks)
  show ?case
  proof (cases "jget (lanes c) k")
    case None
    with Cons show ?thesis by simp
  next
    case (Some l)
    obtain stop q c1 where lp: "lane_loop env (lane_queue l) c = (stop, q, c1)" by (metis prod_cases3)
    let ?c = "c1\<lparr>lanes := jset k (l\<lparr>lane_queue := q\<rparr>) (lanes c1)\<rparr>"
    have a: "advances c ?c" by (rule lane_visit_advances [OF Cons.prems Some lp])
    have b: "advances ?c (removeEmptyLane k ?c)" by (rule removeEmptyLane_advances [OF advancesD(6) [OF a]])
    have "advances (removeEmptyLane k ?c) (lanes_loop env ks (removeEmptyLane k ?c))"
      by (rule Cons.IH [OF advancesD(6) [OF b]])
    note r = advances_trans [OF a advances_trans [OF b this]]
    have "lanes_loop env (k # ks) c = (if stop then ?c else lanes_loop env ks (removeEmptyLane k ?c))"
      by (simp add: Some lp Let_def)
    then show ?thesis using a r by simp
  qed
qed

lemma dispatch_advances: "core_ok c \<Longrightarrow> advances c (dispatch env c)"
proof -
  assume c: "core_ok c"
  obtain fin c1 where d: "dispatch_loop env c = (fin, c1)" by force
  have a: "advances c c1" using dispatch_loop_advances [OF c, of env] d by simp
  have "advances c1 (dispatchLanes env c1)"
    using lanes_loop_advances [OF advancesD(6) [OF a]] advances_refl [OF advancesD(6) [OF a]]
    by (simp add: dispatchLanes_def)
  then show ?thesis using a advances_trans [OF a] advances_refl [OF c] d by (simp add: dispatch_def)
qed


section \<open>Draining and evicting\<close>

lemma fail_all_simps [simp]:
  "fail_all [] k c = c" "fail_all (e # es) k c = fail_all es k (failQueued e k c)"
  by (simp_all add: fail_all_def)

lemma fail_all_frame [simp]:
  "config (fail_all es k c) = config c" "adapt (fail_all es k c) = adapt c" "queue (fail_all es k c) = queue c"
  "lanes (fail_all es k c) = lanes c" "virtualQueue (fail_all es k c) = virtualQueue c"
  "active (fail_all es k c) = active c" "activeCost (fail_all es k c) = activeCost c"
  "leaseSeq (fail_all es k c) = leaseSeq c" "shutDown (fail_all es k c) = shutDown c"
  "settled (fail_all es k c) = settled c @ map (\<lambda>e. (entry_id e, Rejected k)) es"
  "rejectedCount (fail_all es k c) = rejectedCount c + int (length es)"
  by (induction es arbitrary: c) simp_all

lemma fail_all_core: "core_ok (fail_all es k c) = core_ok c"
  by (simp add: core_ok_def adapt_ok_def active_ok_def)

lemma drain_ids:
  assumes "fq_inv q"
  shows "mset (map entry_id (fst (drain q))) = ids q" "ids (snd (drain q)) = {#}" "fq_inv (snd (drain q))"
  using drain_all [OF assms] by (simp_all add: ids_def)

lemma drain_lanes_ids: "lanes_ok ls \<Longrightarrow> mset (map entry_id (drain_lanes ls)) = lane_ids ls"
proof (induction ls)
  case Nil
  then show ?case by (simp add: drain_lanes_def)
next
  case (Cons p ls)
  obtain k l where p: "p = (k, l)" by force
  have "fq_inv (lane_queue l)" "lanes_ok ls"
    using Cons.prems p by (auto simp: lanes_ok_def lane_ok_def jmap_ok_def)
  then show ?case using Cons.IH p drain_ids(1) [of "lane_queue l"] by (simp add: drain_lanes_def)
qed

lemma deleteLane_advances:
  assumes c: "core_ok c"
  shows "advances c (deleteLane k c)"
proof (cases "jget (lanes c) k")
  case None
  then show ?thesis using advances_refl [OF c] by (simp add: deleteLane_def)
next
  case (Some l)
  have ok: "lanes_ok (lanes c)" using core_okD(6) [OF c] .
  then have "fq_inv (lane_queue l)" using lanes_ok_get [OF ok Some] by (simp add: lane_ok_def)
  note d = drain_ids(1) [OF this]
  let ?c = "fail_all (fst (drain (lane_queue l))) ADMISSION_LANE_EVICTED c"
  have "mset (map fst (settled ?c)) = mset (map fst (settled c)) + ids (lane_queue l)"
    using d by (simp add: o_def)
  then have "tracked (?c\<lparr>lanes := jdel k (lanes ?c)\<rparr>) = tracked c"
    using lane_ids_jdel [OF ok Some] by (simp add: tracked_def waiting_def)
  moreover have "core_ok (?c\<lparr>lanes := jdel k (lanes ?c)\<rparr>)"
    using c ok by (intro core_ok_lanes lanes_ok_jdel) (simp_all add: fail_all_core)
  ultimately show ?thesis using Some by (simp add: deleteLane_def advances_def Let_def active_grows_same)
qed

lemma fold_advances:
  assumes "\<And>x c. core_ok c \<Longrightarrow> advances c (f x c)" "core_ok c"
  shows "advances c (fold f xs c)"
  using assms(2)
proof (induction xs arbitrary: c)
  case (Cons x xs)
  then show ?case using advances_trans [OF assms(1) Cons.IH] assms(1) advancesD(6) by force
qed (simp add: advances_refl)

lemma timers_advances:
  assumes "core_ok c"
  shows "advances c (c\<lparr>timers := ts\<rparr>)" "advances c (c\<lparr>listeners := ls\<rparr>)"
    "advances c (c\<lparr>timers := ts, listeners := ls\<rparr>)"
  using assms by (simp_all add: advances_def core_ok_def adapt_ok_def active_ok_def tracked_def waiting_def active_grows_same)

lemma armLaneEviction_advances: "core_ok c \<Longrightarrow> advances c (armLaneEviction c)"
  unfolding armLaneEviction_def by (rule timers_advances)

lemma clearLaneEviction_advances: "core_ok c \<Longrightarrow> advances c (clearLaneEviction c)"
  unfolding clearLaneEviction_def by (rule timers_advances)

lemma evictIdleLanes_advances:
  assumes c: "core_ok c"
  shows "advances c (evictIdleLanes env c)"
proof -
  let ?ks = "map fst (filter (\<lambda>(k, l). now env - lastUsedMs l \<ge> ADMISSION_LANE_TTL_MS) (lanes c))"
  let ?c = "fold deleteLane ?ks c"
  have a: "advances c ?c" by (rule fold_advances [OF deleteLane_advances c])
  note ok = advancesD(6) [OF a]
  show ?thesis
    using advances_trans [OF a armLaneEviction_advances [OF ok]] advances_trans [OF a clearLaneEviction_advances [OF ok]]
    by (simp add: evictIdleLanes_def Let_def)
qed

lemma sampleIntegral_advances: "core_ok c \<Longrightarrow> advances c (sampleIntegral env c)"
  using core_ok_cong [of c "sampleIntegral env c"] sampleIntegral_adapt core_okD
  by (simp add: advances_def tracked_def waiting_def active_grows_same)

section \<open>Virtual accounting leaves the real one alone\<close>

lemma active_total_jset:
  assumes "jget m i = Some r"
  shows "active_total (jset i r' m) = active_total m - lr_cost r + lr_cost r'"
proof -
  obtain a b where "m = a @ (i, r) # b" "i \<notin> set (jkeys a)" using jget_split [OF assms] .
  then show ?thesis by (simp add: jset_at)
qed

lemma active_total_jdel:
  assumes "jmap_ok m" "jget m i = Some r"
  shows "active_total (jdel i m) = active_total m - lr_cost r"
proof -
  obtain a b where s: "m = a @ (i, r) # b" "i \<notin> set (jkeys a)" using jget_split [OF assms(2)] .
  then have "i \<notin> set (jkeys b)" using assms(1) by (auto simp: jmap_ok_def)
  with s show ?thesis by (simp add: jdel_split)
qed

text \<open>Changing the disposition of a record keeps the accounting.\<close>

lemma active_ok_mark:
  assumes "active_ok c" "jget (active c) i = Some r" "lr_cost r' = lr_cost r"
    "active c' = jset i r' (active c)" "activeCost c' = activeCost c" "leaseSeq c' = leaseSeq c"
  shows "active_ok c'"
proof -
  have j: "jmap_ok (active c)" using assms(1) by (simp add: active_ok_def)
  have m: "\<And>i r. jget (active c) i = Some r \<Longrightarrow> 0 < lr_cost r \<and> (\<exists>n \<le> leaseSeq c. i = Lease n)"
    using assms(1) unfolding active_ok_def by (auto dest: jget_SomeD)
  have n: "0 < lr_cost x \<and> (\<exists>n \<le> leaseSeq c. k = Lease n)" if "(k, x) \<in> set (jset i r' (active c))" for k x
  proof -
    have "jget (jset i r' (active c)) k = Some x" by (rule jget_mem [OF jmap_ok_jset [OF j] that])
    then show ?thesis using m [of k] m [OF assms(2)] assms(3) by (cases "k = i") auto
  qed
  have "activeCost c = active_total (jset i r' (active c))"
    using assms(1,3) active_total_jset [OF assms(2), of r'] by (simp add: active_ok_def)
  then show ?thesis
    unfolding active_ok_def assms(4-6) using n j by (auto simp del: jget_jset)
qed

lemma core_ok_mark:
  assumes "core_ok c" "jget (active c) i = Some r"
  shows "core_ok (mark_virtual_active i r (c\<lparr>virtualQueue := q\<rparr>))"
proof -
  have "active_ok (mark_virtual_active i r (c\<lparr>virtualQueue := q\<rparr>))"
    by (rule active_ok_mark [of c i r "r\<lparr>lr_virtual := VActive\<rparr>", OF _ assms(2)])
      (use assms(1) in \<open>simp_all add: core_ok_def mark_virtual_active_def\<close>)
  then show ?thesis using assms(1) by (simp add: core_ok_def adapt_ok_def mark_virtual_active_def)
qed

lemma core_ok_virtualQueue [simp]: "core_ok (c\<lparr>virtualQueue := q\<rparr>) = core_ok c"
  by (simp add: core_ok_def adapt_ok_def active_ok_def)

lemma dispatchVirtual_frame:
  "config (dispatchVirtual c) = config c \<and> adapt (dispatchVirtual c) = adapt c \<and> queue (dispatchVirtual c) = queue c \<and>
   lanes (dispatchVirtual c) = lanes c \<and> leaseSeq (dispatchVirtual c) = leaseSeq c \<and>
   shutDown (dispatchVirtual c) = shutDown c \<and> settled (dispatchVirtual c) = settled c \<and>
   activeCost (dispatchVirtual c) = activeCost c \<and> jkeys (active (dispatchVirtual c)) = jkeys (active c) \<and>
   timers (dispatchVirtual c) = timers c \<and> rejectedCount (dispatchVirtual c) = rejectedCount c \<and>
   (core_ok c \<longrightarrow> core_ok (dispatchVirtual c))"
proof (induction c rule: dispatchVirtual.induct)
  case (1 c)
  show ?case
  proof (cases "qcount (virtualQueue c) > 0 \<and> limit c - virtualActiveCost c > 0")
    case True
    obtain x q where d: "dequeue (limit c - virtualActiveCost c) (virtualQueue c) = (x, q)" by force
    show ?thesis
    proof (cases x)
      case None
      with True d have e: "dispatchVirtual c = c\<lparr>virtualQueue := q\<rparr>"
        by (subst dispatchVirtual.simps) (simp add: Let_def)
      show ?thesis unfolding e by simp
    next
      case (Some e)
      let ?c = "c\<lparr>virtualQueue := q\<rparr>"
      show ?thesis
      proof (cases "jget (active c) (payload e)")
        case None
        have e: "dispatchVirtual c = dispatchVirtual ?c"
          using True d Some None by (subst dispatchVirtual.simps) (simp add: Let_def)
        show ?thesis
          unfolding e using "1.IH"(1) [OF _ refl _ d [symmetric] Some None] True by simp
      next
        case s: (Some r)
        let ?c' = "mark_virtual_active (payload e) r ?c"
        have e: "dispatchVirtual c = dispatchVirtual ?c'"
          using True d Some s by (subst dispatchVirtual.simps) (simp add: Let_def)
        have k: "jkeys (active ?c') = jkeys (active c)"
          using s jget_in_keys [of "active c" "payload e"] by (simp add: mark_virtual_active_def jkeys_jset)
        have "core_ok c \<longrightarrow> core_ok ?c'" using core_ok_mark [OF _ s] by blast
        then show ?thesis
          unfolding e using "1.IH"(2) [OF _ refl _ d [symmetric] Some s] True k
          by (simp add: mark_virtual_active_def)
      qed
    qed
  next
    case False
    then have e: "dispatchVirtual c = c" by (subst dispatchVirtual.simps) (auto simp: Let_def)
    show ?thesis unfolding e by simp
  qed
qed

lemma dispatchVirtual_advances: "core_ok c \<Longrightarrow> advances c (dispatchVirtual c)"
  using dispatchVirtual_frame [of c] active_grows_keys [of "dispatchVirtual c" c]
  by (simp add: advances_def tracked_def waiting_def del: set_map)

lemma releaseVirtual_advances:
  assumes "core_ok c"
  shows "advances c (releaseVirtual i r c)"
proof -
  let ?c = "case lr_virtual r of
      VActive \<Rightarrow> c\<lparr>virtualActiveCost := virtualActiveCost c - lr_cost r, virtualActiveCount := virtualActiveCount c - 1\<rparr>
    | VQueued \<Rightarrow> c\<lparr>virtualQueue := snd (removeById i (virtualQueue c))\<rparr>
    | _ \<Rightarrow> c"
  have "advances c ?c"
    using assms by (simp add: advances_def tracked_def waiting_def core_ok_def adapt_ok_def active_ok_def active_grows_same
        split: disposition.split)
  from advances_trans [OF this dispatchVirtual_advances [OF advancesD(6) [OF this]]]
  show ?thesis by (simp add: releaseVirtual_def)
qed


section \<open>Operations\<close>

text \<open>
  What one whole operation does: at most one fresh waiter is added to the accepted ones, and in
  enforce mode the active cost stays below the configured maximum unless it was above already.
\<close>

definition fresh_id :: "controller \<Rightarrow> adm_id" where
  "fresh_id c = Waiter (Suc (leaseSeq c))"

definition serves :: "controller \<Rightarrow> controller \<Rightarrow> bool" where
  "serves c c' \<longleftrightarrow>
     config c' = config c \<and> core_ok c' \<and> leaseSeq c \<le> leaseSeq c' \<and> (\<exists>ss. settled c' = settled c @ ss) \<and>
     (tracked c' = tracked c \<or>
      tracked c' = add_mset (fresh_id c) (tracked c) \<and> leaseSeq c < leaseSeq c' \<and> \<not> shutDown c) \<and>
     (mode (config c') = Enforce \<longrightarrow> activeCost c' \<le> max (activeCost c) (maxLimit (config c'))) \<and>
     (shutDown c \<longrightarrow> shutDown c') \<and> active_grows c c'"

lemma advances_serves:
  assumes "advances c c'"
  shows "serves c c'"
  using advancesD [OF assms] core_limits(2) [OF advancesD(6) [OF assms]] unfolding serves_def by auto

text \<open>A change of the adaptation state that keeps the limit.\<close>

lemma adapt_advances:
  assumes "core_ok c" "adaptation_ok (adaptation (config c)) st" "currentLimit st = limit c"
  shows "advances c (c\<lparr>adapt := st\<rparr>)"
  using assms core_okD [OF assms(1)]
  by (simp add: advances_def core_ok_def adapt_ok_def active_ok_def tracked_def waiting_def active_grows_same)

lemma setPressure_limit [simp]: "currentLimit (setPressure st p) = currentLimit st"
  by (simp add: setPressure_def)

lemma noteOutcome_limit [simp]: "currentLimit (noteOutcome st o') = currentLimit st"
  by (cases o') simp_all

lemma noteLatency_limit [simp]: "currentLimit (noteLatency st l p) = currentLimit st"
  by (simp add: noteLatency_def Let_def)

lemma setPressure_advances: "core_ok c \<Longrightarrow> advances c (c\<lparr>adapt := setPressure (adapt c) p\<rparr>)"
  using core_okD(2) [of c] by (intro adapt_advances setPressure_ok) simp_all

lemma resolveCost_pos: "resolveCost rq c = Inr k \<Longrightarrow> 0 < k \<and> k \<le> MAX_ADMISSION_COST_OR_LIMIT"
  using normalizeRequestCost_range estimate_range(1,3)
  by (fastforce simp: resolveCost_def MAX_ADMISSION_COST_OR_LIMIT_value split: if_splits option.splits)

lemma counters_serve:
  assumes "core_ok c" "settled c' = settled c" "queue c' = queue c" "lanes c' = lanes c" "config c' = config c"
    "adapt c' = adapt c" "active c' = active c" "activeCost c' = activeCost c" "leaseSeq c \<le> leaseSeq c'"
    "shutDown c' = shutDown c"
  shows "serves c c'"
proof -
  have "core_ok c'" using assms core_okD [OF assms(1)] by (intro core_ok_cong [OF assms(1)]) simp_all
  then show ?thesis using assms by (simp add: serves_def tracked_def waiting_def active_grows_same)
qed

lemma reject_serves: "core_ok c \<Longrightarrow> serves c (snd (reject k c))"
  by (rule counters_serve) (simp_all add: reject_def)

lemma admitVirtual_serves: "core_ok c \<Longrightarrow> serves c (snd (admitVirtual k c))"
  by (rule counters_serve) (simp_all add: admitVirtual_def Let_def)

lemma admit_serves:
  assumes "core_ok c" "0 < k" "admit env k d c = (l, c')"
    and "mode (config c) = Enforce \<Longrightarrow> activeCost c + k \<le> maxLimit (config c)"
  shows "serves c c'"
  using admit_core [OF assms(1-3)] admit_frame(1-7,9) [OF assms(3)] assms(4) admit_grows [OF assms(3)]
  by (auto simp: serves_def tracked_def waiting_def)

lemma shadow_verdict_frame:
  assumes "shadow_verdict k c = (v, d, c')"
  shows "core_ok c \<Longrightarrow> advances c c'" "config c' = config c" "settled c' = settled c" "active c' = active c"
    "leaseSeq c' = leaseSeq c"
proof -
  show "config c' = config c" "settled c' = settled c" "active c' = active c" "leaseSeq c' = leaseSeq c"
    using assms by (auto simp: shadow_verdict_def split: if_splits)
  assume "core_ok c"
  then show "advances c c'"
    using assms by (auto simp: shadow_verdict_def advances_def tracked_def waiting_def core_ok_def adapt_ok_def
        active_ok_def active_grows_same split: if_splits)
qed

lemma servesD:
  assumes "serves c c'"
  shows "core_ok c'" "leaseSeq c \<le> leaseSeq c'" "\<exists>ss. settled c' = settled c @ ss"
    "tracked c' = tracked c \<or>
      tracked c' = add_mset (fresh_id c) (tracked c) \<and> leaseSeq c < leaseSeq c' \<and> \<not> shutDown c"
    "mode (config c') = Enforce \<Longrightarrow> activeCost c' \<le> max (activeCost c) (maxLimit (config c'))"
    "config c' = config c" "shutDown c \<Longrightarrow> shutDown c'" "active_grows c c'"
  using assms unfolding serves_def by blast+

lemma advances_then_serves:
  assumes "advances a b" "serves b c" "leaseSeq b = leaseSeq a"
  shows "serves a c"
proof -
  note x = advancesD [OF assms(1)] and y = servesD [OF assms(2)]
  obtain s t where "settled b = settled a @ s" "settled c = settled b @ t" using x(8) y(3) by blast
  then have "settled c = settled a @ (s @ t)" by simp
  moreover have "tracked c = tracked a \<or> tracked c = add_mset (fresh_id a) (tracked a) \<and> leaseSeq a < leaseSeq c \<and> \<not> shutDown a"
    using y(4) x(3,5) assms(3) by (simp add: fresh_id_def)
  moreover have "mode (config c) = Enforce \<Longrightarrow> activeCost c \<le> max (activeCost a) (maxLimit (config c))"
    using x(2,7) y(5) core_limits(2) [OF x(6)] y(6) by auto
  moreover have "active_grows a c" by (rule active_grows_trans [OF x(9) y(8) x(4)])
  ultimately show ?thesis using y(1,2,6,7) x(1,3) assms(3) unfolding serves_def by auto
qed

lemma serves_then_advances:
  assumes "serves a b" "advances b c"
  shows "serves a c"
proof -
  note x = advancesD [OF assms(2)] and y = servesD [OF assms(1)]
  obtain s t where "settled b = settled a @ s" "settled c = settled b @ t" using x(8) y(3) by blast
  then have "settled c = settled a @ (s @ t)" by simp
  moreover have "tracked c = tracked a \<or> tracked c = add_mset (fresh_id a) (tracked a) \<and> leaseSeq a < leaseSeq c \<and> \<not> shutDown a"
    using y(4) x(4,5) by auto
  moreover have "mode (config c) = Enforce \<Longrightarrow> activeCost c \<le> max (activeCost a) (maxLimit (config c))"
    using x(1,2,7) y(5) core_limits(2) [OF y(1)] by auto
  moreover have "active_grows a c" by (rule active_grows_trans [OF y(8) x(9) y(2)])
  ultimately show ?thesis using y(2,6,7) x(1,3,4,6) unfolding serves_def by auto
qed

lemma acquireShadow_serves:
  assumes "core_ok c" "0 < k" "mode (config c) = Shadow"
  shows "serves c (snd (acquireShadow env rq k c))"
proof -
  obtain v d c1 where v: "shadow_verdict k c = (v, d, c1)" by (metis prod_cases3)
  obtain l c2 where a: "admit env k d c1 = (l, c2)" by force
  note f = shadow_verdict_frame [OF v] and g = admit_frame [OF a]
  have "serves c1 c2" by (rule admit_serves [OF advancesD(6) [OF f(1)] _ a]) (use assms f(2) in simp_all)
  then have "serves c c2" using advances_then_serves [OF f(1) _ f(5)] assms(1) by blast
  moreover have "serves c (c2\<lparr>virtualQueue := q\<rparr>) = serves c c2" for q
    by (simp add: serves_def tracked_def waiting_def active_grows_def)
  ultimately show ?thesis by (simp add: acquireShadow_def v a)
qed

subsection \<open>Joining a queue\<close>

text \<open>\<open>joins e c c'\<close>: the waiter \<open>e\<close> is now waiting too; nothing else the invariant sees has changed.\<close>

definition joins :: "waiter \<Rightarrow> controller \<Rightarrow> controller \<Rightarrow> bool" where
  "joins e c c' \<longleftrightarrow>
     config c' = config c \<and> leaseSeq c' = leaseSeq c \<and> core_ok c' \<and> activeCost c' = activeCost c \<and>
     shutDown c' = shutDown c \<and> active_grows c c' \<and> tracked c' = add_mset (entry_id e) (tracked c) \<and> (\<exists>ss. settled c' = settled c @ ss)"

lemma enqueue_ids:
  assumes "fq_inv q" "enqueue e q = (ok, q')" "skipCount e = 0"
  shows "fq_inv q'" "ids q' = (if ok then add_mset (entry_id e) (ids q) else ids q)"
    "items q' = (if ok then add_mset (erase e) (items q) else items q)"
proof -
  have "fq_inv q' \<and> ids q' = (if ok then add_mset (entry_id e) (ids q) else ids q) \<and>
    items q' = (if ok then add_mset (erase e) (items q) else items q)"
  proof (cases "canAccept (cost e) q")
    case True
    then show ?thesis using enqueue_accept [OF assms(1) True] assms(2,3) by (auto simp: ids_def)
  next
    case False
    then show ?thesis using assms by (auto simp: enqueue_reject)
  qed
  then show "fq_inv q'" "ids q' = (if ok then add_mset (entry_id e) (ids q) else ids q)"
    "items q' = (if ok then add_mset (erase e) (items q) else items q)" by blast+
qed

lemma enqueue_shared_joins:
  assumes "core_ok c" "enqueue_shared e c = (ok, c')" "skipCount e = 0"
  shows "if ok then joins e c c' else c' = c"
proof -
  obtain q where q: "enqueue e (queue c) = (ok, q)" "c' = c\<lparr>queue := q\<rparr>"
    using assms(2) by (auto simp: enqueue_shared_def split: prod.splits)
  note i = enqueue_ids [OF core_okD(5) [OF assms(1)] q(1) assms(3)]
  have "q = queue c" if "\<not> ok" using q(1) that by (auto simp: enqueue_def Let_def split: if_splits)
  then show ?thesis
    using q(2) i core_ok_queue [OF assms(1) i(1)] by (auto simp: joins_def tracked_def waiting_def active_grows_same)
qed

lemma deleteLane_frame [simp]:
  "config (deleteLane k c) = config c" "adapt (deleteLane k c) = adapt c" "queue (deleteLane k c) = queue c"
  "shutDown (deleteLane k c) = shutDown c" "activeCost (deleteLane k c) = activeCost c"
  by (simp_all add: deleteLane_def Let_def split: option.split)

lemma removeEmptyLane_frame [simp]:
  "config (removeEmptyLane k c) = config c" "adapt (removeEmptyLane k c) = adapt c"
  "shutDown (removeEmptyLane k c) = shutDown c" "leaseSeq (removeEmptyLane k c) = leaseSeq c"
  "settled (removeEmptyLane k c) = settled c" "activeCost (removeEmptyLane k c) = activeCost c"
  "active (removeEmptyLane k c) = active c" "queue (removeEmptyLane k c) = queue c"
  by (simp_all add: removeEmptyLane_def split: option.split)

lemma getOrCreateLane_frame:
  assumes "getOrCreateLane env k c = (l, c')"
  shows "queue c' = queue c" "adapt c' = adapt c" "activeCost c' = activeCost c"
  using assms by (auto simp: getOrCreateLane_def Let_def split: option.splits if_splits)

lemma enqueue_lane_frame:
  assumes "enqueue_lane env e c = (False, c')"
  shows "queue c' = queue c" "adapt c' = adapt c" "activeCost c' = activeCost c"
proof -
  obtain l c1 where l: "getOrCreateLane env (tenantKey e) c = (l, c1)" by force
  obtain ok q where q: "enqueue e (lane_queue l) = (ok, q)" by force
  note f = getOrCreateLane_frame [OF l]
  have "c' = removeEmptyLane (tenantKey e) (c1\<lparr>lanes := jset (tenantKey e) (l\<lparr>lane_queue := q\<rparr>) (lanes c1)\<rparr>)"
    using assms by (auto simp: enqueue_lane_def l q Let_def split: if_splits)
  then show "queue c' = queue c" "adapt c' = adapt c" "activeCost c' = activeCost c" using f by simp_all
qed

lemma new_lane_ok:
  assumes "core_ok c"
  shows "lane_ok k \<lparr>lane_queue = new_queue (maxQueueCount (config c)) (maxQueueCost (config c)), lastUsedMs = t\<rparr>"
  using core_okD(1) [OF assms] by (simp add: lane_ok_def new_queue_inv config_ok_def)

text \<open>A lane that is fetched or created is present, well formed, and belongs to its tenant.\<close>

lemma lane_ids_new: "jget ls k = None \<Longrightarrow> lane_ids (jset k l ls) = lane_ids ls + ids (lane_queue l)"
  by (simp add: jset_append jget_None)

lemma getOrCreateLane_spec:
  assumes c: "core_ok c" and g: "getOrCreateLane env k c = (l, c')"
  shows "advances c c'" "leaseSeq c' = leaseSeq c" "activeCost c' = activeCost c" "lane_ok k l" "jget (lanes c') k = Some l"
proof -
  have "advances c c' \<and> leaseSeq c' = leaseSeq c \<and> activeCost c' = activeCost c \<and> lane_ok k l \<and> jget (lanes c') k = Some l"
  proof (cases "jget (lanes c) k")
    case (Some m)
    let ?l = "m\<lparr>lastUsedMs := now env\<rparr>"
    have l: "l = ?l" "c' = c\<lparr>lanes := jset k ?l (lanes c)\<rparr>" using g Some by (auto simp: getOrCreateLane_def Let_def)
    have ok: "lane_ok k ?l" using lanes_ok_get [OF core_okD(6) [OF c] Some] by (simp add: lane_ok_def)
    have "lane_ids (jset k ?l (lanes c)) = lane_ids (lanes c)" using lane_ids_jset [OF Some, of ?l] by simp
    then have "advances c c'"
      using core_ok_lanes [OF c lanes_ok_jset [OF core_okD(6) [OF c] ok]]
      by (simp add: l advances_def tracked_def waiting_def active_grows_same)
    then show ?thesis using ok l by simp
  next
    case None
    define c1 where "c1 = (if length (lanes c) \<ge> ADMISSION_LANE_MAX_SESSIONS
      then (case oldestLaneKey c of Some k \<Rightarrow> if k \<noteq> [] then deleteLane k c else c | None \<Rightarrow> c) else c)"
    have d: "leaseSeq (deleteLane x c) = leaseSeq c" "activeCost (deleteLane x c) = activeCost c"
      "jget (lanes (deleteLane x c)) k = None" for x
      using None by (simp_all add: deleteLane_def Let_def split: option.split)
    then have c1: "advances c c1" "leaseSeq c1 = leaseSeq c" "activeCost c1 = activeCost c" "jget (lanes c1) k = None"
      unfolding c1_def using deleteLane_advances [OF c] advances_refl [OF c] None by (simp_all split: option.split)
    note ok = advancesD(6) [OF c1(1)]
    let ?l = "\<lparr>lane_queue = new_queue (maxQueueCount (config c1)) (maxQueueCost (config c1)), lastUsedMs = now env\<rparr>"
    have l: "l = ?l" "c' = c1\<lparr>lanes := jset k ?l (lanes c1)\<rparr>"
      using g None unfolding getOrCreateLane_def c1_def by (auto simp: Let_def)
    have lo: "lane_ok k ?l" by (rule new_lane_ok [OF ok])
    have "lane_ids (jset k ?l (lanes c1)) = lane_ids (lanes c1)"
      using lane_ids_new [OF c1(4), of ?l] by (simp add: ids_def)
    then have "advances c1 c'"
      using core_ok_lanes [OF ok lanes_ok_jset [OF core_okD(6) [OF ok] lo]]
      by (simp add: l advances_def tracked_def waiting_def active_grows_same)
    then show ?thesis using advances_trans [OF c1(1)] lo l c1(2,3) by simp
  qed
  then show "advances c c'" "leaseSeq c' = leaseSeq c" "activeCost c' = activeCost c" "lane_ok k l" "jget (lanes c') k = Some l"
    by blast+
qed


lemma enqueue_lane_joins:
  assumes c: "core_ok c" and g: "enqueue_lane env e c = (ok, c')" and sk: "skipCount e = 0"
  shows "if ok then joins e c c' else advances c c' \<and> leaseSeq c' = leaseSeq c"
proof -
  obtain l c1 where l: "getOrCreateLane env (tenantKey e) c = (l, c1)" by force
  obtain ok' q where q: "enqueue e (lane_queue l) = (ok', q)" by force
  note a = getOrCreateLane_spec [OF c l]
  let ?l = "l\<lparr>lane_queue := q\<rparr>"
  let ?c = "c1\<lparr>lanes := jset (tenantKey e) ?l (lanes c1)\<rparr>"
  have fq: "fq_inv (lane_queue l)" using a(4) by (simp add: lane_ok_def)
  note i = enqueue_ids [OF fq q sk]
  have lo: "lane_ok (tenantKey e) ?l" using a(4) i by (auto simp: lane_ok_def)
  have ok: "core_ok ?c"
    by (intro core_ok_lanes lanes_ok_jset lo core_okD(6) advancesD(6) [OF a(1)])
  have "lane_ids (jset (tenantKey e) ?l (lanes c1)) = (if ok' then add_mset (entry_id e) (lane_ids (lanes c1)) else lane_ids (lanes c1))"
    using lane_ids_jset [OF a(5), of ?l] i(2) by (cases ok') simp_all
  then have t: "tracked ?c = (if ok' then add_mset (entry_id e) (tracked c) else tracked c)"
    using advancesD(5) [OF a(1)] by (simp add: tracked_def waiting_def)
  note adv = advancesD [OF a(1)]
  show ?thesis
  proof (cases ok')
    case True
    then have c': "c' = armLaneEviction ?c" "ok" using g by (auto simp: enqueue_lane_def l q)
    have "active_grows c ?c" using adv(9) by (simp add: active_grows_def)
    then have "joins e c ?c" using True t ok adv a(2,3) by (auto simp: joins_def)
    moreover have "advances ?c c'" unfolding c' by (rule armLaneEviction_advances [OF ok])
    ultimately show ?thesis
      using c' by (simp add: joins_def armLaneEviction_def advances_def active_grows_def)
  next
    case False
    then have c': "c' = removeEmptyLane (tenantKey e) ?c" "\<not> ok" using g by (auto simp: enqueue_lane_def l q)
    have "active_grows c ?c" using adv(9) by (simp add: active_grows_def)
    then have "advances c ?c" using False t ok adv a(2,3) by (auto simp: advances_def)
    from advances_trans [OF this removeEmptyLane_advances [OF ok, of "tenantKey e"]]
    show ?thesis using c' a(2) by (simp add: removeEmptyLane_def split: option.split)
  qed
qed

lemma arm_deadline_advances: "core_ok c \<Longrightarrow> advances c (arm_deadline i sig c)"
  unfolding arm_deadline_def by (rule timers_advances)

lemma leaseSeq_core:
  assumes "core_ok c"
  shows "core_ok (c\<lparr>leaseSeq := leaseSeq c + 1\<rparr>)"
  using core_okD [OF assms] by (intro core_ok_cong [OF assms]) simp_all

text \<open>The three ways \<^verbatim>\<open>enqueue\<close> of the controller ends.\<close>

lemma enqueueRequest_shape [consumes 2, case_names threw full queued]:
  assumes c: "core_ok c" and r: "enqueueRequest env rq k c = (res, c')"
  obtains err where "res = RThrew err" "c' = c\<lparr>leaseSeq := leaseSeq c + 1\<rparr>"
  | c2 where "res = RRejected ADMISSION_QUEUE_FULL" "advances (c\<lparr>leaseSeq := leaseSeq c + 1\<rparr>) c2"
      "c' = snd (reject ADMISSION_QUEUE_FULL c2)" "config c2 = config c" "shutDown c2 = shutDown c"
      "queue c2 = queue c" "limit c2 = limit c" "activeCost c2 = activeCost c"
  | e c2 where "res = RQueued (fresh_id c)" "entry_id e = fresh_id c" "joins e (c\<lparr>leaseSeq := leaseSeq c + 1\<rparr>) c2"
      "c' = dispatch env (arm_deadline (fresh_id c) (rq_signal rq) (dispatch env c2))"
proof -
  let ?c1 = "c\<lparr>leaseSeq := leaseSeq c + 1\<rparr>" and ?w = "normalizeRequestCost (nullish (rq_maxWaitMs rq)
    (js_int (defaultMaxWaitMs (config c)))) (js_int MAX_ADMISSION_WINDOW_MS)"
  have c1: "core_ok ?c1" by (rule leaseSeq_core [OF c])
  show thesis
  proof (cases ?w)
    case (Inl err)
    then show ?thesis using r that(1) by (auto simp: enqueueRequest_def Let_def)
  next
    case (Inr w)
    define e where "e = request_entry (fresh_id c) rq k (now env) w"
    have e: "entry_id e = fresh_id c" "skipCount e = 0" by (simp_all add: e_def request_entry_def)
    obtain ok c2 where j: "(if tenantKey e \<noteq> ''_default'' \<and> virtualLanes (config c) then enqueue_lane env e ?c1
        else enqueue_shared e ?c1) = (ok, c2)" by force
    have r': "(res, c') = (if \<not> ok then reject ADMISSION_QUEUE_FULL c2
        else (RQueued (fresh_id c), dispatch env (arm_deadline (fresh_id c) (rq_signal rq) (dispatch env c2))))"
      using r j Inr unfolding enqueueRequest_def e_def fresh_id_def by (simp add: Let_def split: if_split_asm)
    have g: "if ok then joins e ?c1 c2
      else advances ?c1 c2 \<and> queue c2 = queue c \<and> limit c2 = limit c \<and> activeCost c2 = activeCost c"
    proof (cases "tenantKey e \<noteq> ''_default'' \<and> virtualLanes (config c)")
      case True
      with j have l: "enqueue_lane env e ?c1 = (ok, c2)" by simp
      then show ?thesis using enqueue_lane_joins [OF c1 l e(2)] enqueue_lane_frame [of env e ?c1 c2] by (cases ok) simp_all
    next
      case False
      with j have "enqueue_shared e ?c1 = (ok, c2)" by (simp split: if_split_asm)
      from enqueue_shared_joins [OF c1 this e(2)] show ?thesis using advances_refl [OF c1] by (simp split: if_split_asm)
    qed
    show ?thesis
    proof (cases ok)
      case True
      then show ?thesis using g r' e(1) that(3) by auto
    next
      case False
      with g have a: "advances ?c1 c2" "queue c2 = queue c" "limit c2 = limit c" "activeCost c2 = activeCost c" by simp_all
      show ?thesis
        using a False r' advancesD(1,3) [OF a(1)] by (intro that(2) [of c2]) (auto simp: reject_def)
    qed
  qed
qed

lemma enqueueRequest_cases:
  assumes c: "core_ok c" and up: "\<not> shutDown c" and r: "enqueueRequest env rq k c = (res, c')"
  shows "serves c c' \<and> (\<forall>i. res = RQueued i \<longrightarrow> i = fresh_id c \<and> tracked c' = add_mset i (tracked c))"
proof -
  let ?c1 = "c\<lparr>leaseSeq := leaseSeq c + 1\<rparr>"
  have s1: "serves c ?c1" by (rule counters_serve [OF c]) simp_all
  have t1: "tracked ?c1 = tracked c" by (simp add: tracked_def waiting_def)
  from c r show ?thesis
  proof (cases rule: enqueueRequest_shape)
    case (threw err)
    then show ?thesis using s1 by simp
  next
    case (full c2)
    have "advances c2 c'"
      unfolding full(3) using advances_refl [OF advancesD(6) [OF full(2)]]
      by (simp add: reject_def advances_def core_ok_def adapt_ok_def active_ok_def tracked_def waiting_def active_grows_def)
    then show ?thesis using serves_then_advances [OF serves_then_advances [OF s1 full(2)]] full(1) by simp
  next
    case (queued e c2)
    then have s2: "serves c c2" and t2: "tracked c2 = add_mset (fresh_id c) (tracked c)"
      using t1 up by (auto simp: joins_def serves_def active_grows_def)
    note d1 = dispatch_advances [OF servesD(1) [OF s2], of env]
    note d2 = arm_deadline_advances [OF advancesD(6) [OF d1], of "fresh_id c" "rq_signal rq"]
    note d3 = dispatch_advances [OF advancesD(6) [OF d2], of env]
    note d = advances_trans [OF d1 advances_trans [OF d2 d3]]
    show ?thesis using queued(1,4) serves_then_advances [OF s2 d] advancesD(5) [OF d] t2 by auto
  qed
qed

text \<open>
  The ways \<^verbatim>\<open>acquire\<close> ends: refused, a range error, admitted without accounting (mode off), admitted
  for observation (shadow mode), admitted within the ceiling, or passed on to the queue. The state
  \<open>c1\<close> is the one after the pressure hint of the request.
\<close>

definition hinted :: "admission_request \<Rightarrow> controller \<Rightarrow> controller" where
  "hinted rq c = (case rq_pressure rq of Some p \<Rightarrow> c\<lparr>adapt := setPressure (adapt c) p\<rparr> | None \<Rightarrow> c)"

lemma hinted_frame [simp]:
  "config (hinted rq c) = config c" "limit (hinted rq c) = limit c" "queue (hinted rq c) = queue c"
  "activeCost (hinted rq c) = activeCost c" "shutDown (hinted rq c) = shutDown c" "leaseSeq (hinted rq c) = leaseSeq c"
  "tracked (hinted rq c) = tracked c" "active (hinted rq c) = active c" "lanes (hinted rq c) = lanes c"
  by (simp_all add: hinted_def tracked_def waiting_def split: option.split)

lemma hinted_advances: "core_ok c \<Longrightarrow> advances c (hinted rq c)"
  using setPressure_advances [of c] advances_refl [of c] by (simp add: hinted_def split: option.split)

lemma acquire_live:
  assumes "\<not> shutDown c" "\<not> signal_aborted env (rq_signal rq)" "resolveCost rq (hinted rq c) = Inr k"
  shows "acquire env rq c =
    (let c1 = hinted rq c in
     if mode (config c1) = ModeOff then admitVirtual k c1
     else if mode (config c1) = Shadow then acquireShadow env rq k c1
     else if k > limit c1 then
       (if shouldAdmitSolo k c1
        then (let (l, c2) = admit env k VNone c1 in (RAdmitted l k None, c2))
        else reject ADMISSION_OVERSIZED c1)
     else if qcount (queue c1) = 0 \<and> activeCost c1 + k \<le> limit c1
     then (let (l, c2) = admit env k VNone c1 in (RAdmitted l k None, c2))
     else if \<not> canAccept k (queue c1) then reject ADMISSION_QUEUE_FULL c1
     else enqueueRequest env rq k c1)"
  using assms unfolding acquire_def hinted_def by (simp add: Let_def)

lemma acquire_shape [consumes 2, case_names refused invalid off shadow direct wait]:
  assumes c: "core_ok c" and r: "acquire env rq c = (res, c')"
  obtains kk x where "x = c \<or> x = hinted rq c" "res = RRejected kk" "c' = snd (reject kk x)"
  | err where "res = RThrew err" "c' = hinted rq c"
  | k where "mode (config c) = ModeOff" "(res, c') = admitVirtual k (hinted rq c)"
  | k where "0 < k" "mode (config c) = Shadow" "(res, c') = acquireShadow env rq k (hinted rq c)"
  | k l where "0 < k" "mode (config c) = Enforce" "activeCost c + k \<le> maxLimit (config c)"
      "admit env k VNone (hinted rq c) = (l, c')" "res = RAdmitted l k None"
  | k where "\<not> shutDown c" "enqueueRequest env rq k (hinted rq c) = (res, c')"
proof (cases "shutDown c \<or> signal_aborted env (rq_signal rq)")
  case True
  with r have "(res, c') = reject ADMISSION_SHUTDOWN c \<or> (res, c') = reject ADMISSION_ABORTED c"
    unfolding acquire_def by (cases "shutDown c") simp_all
  then show thesis using that(1) [of c] by (auto simp: reject_def)
next
  case live: False
  let ?c1 = "hinted rq c"
  have c1: "core_ok ?c1" by (rule advancesD(6) [OF hinted_advances [OF c]])
  show thesis
  proof (cases "resolveCost rq ?c1")
    case (Inl err)
    then show thesis using r live that(2) by (auto simp: acquire_def hinted_def)
  next
    case (Inr k)
    have k: "0 < k" using resolveCost_pos [OF Inr] by blast
    note e = acquire_live [of c env rq, OF _ _ Inr, unfolded Let_def]
    obtain l c2 where ad: "admit env k VNone ?c1 = (l, c2)" by force
    have solo: "activeCost c + k \<le> maxLimit (config c)" if "shouldAdmitSolo k ?c1"
      using that core_okD(4) [OF c1] by (simp add: shouldAdmitSolo_def)
    have fits: "activeCost c + k \<le> maxLimit (config c)" if "activeCost c + k \<le> limit c"
      using that core_limits(2) [OF c] by simp
    have reject: thesis if "(res, c') = reject kk ?c1" for kk
      using that(1) by (intro \<open>\<And>kk x. \<lbrakk>x = c \<or> x = hinted rq c; res = RRejected kk; c' = snd (reject kk x)\<rbrakk> \<Longrightarrow> thesis\<close> [of ?c1 kk])
        (simp_all add: reject_def)
    show thesis
    proof (cases "mode (config c)")
      case ModeOff
      then show thesis using r e live that(3) by simp
    next
      case Shadow
      then show thesis using r e live that(4) [OF k] by simp
    next
      case Enforce
      have direct: thesis if "activeCost c + k \<le> maxLimit (config c)" "(res, c') = (RAdmitted l k None, c2)"
        using that by (intro \<open>\<And>k l. \<lbrakk>0 < k; mode (config c) = Enforce; activeCost c + k \<le> maxLimit (config c);
          admit env k VNone (hinted rq c) = (l, c'); res = RAdmitted l k None\<rbrakk> \<Longrightarrow> thesis\<close> [OF k Enforce]) (simp_all add: ad)
      have "(res, c') = (if k > limit c then (if shouldAdmitSolo k ?c1 then (RAdmitted l k None, c2) else reject ADMISSION_OVERSIZED ?c1)
          else if qcount (queue c) = 0 \<and> activeCost c + k \<le> limit c then (RAdmitted l k None, c2)
          else if \<not> canAccept k (queue c) then reject ADMISSION_QUEUE_FULL ?c1 else enqueueRequest env rq k ?c1)"
        using r e live Enforce ad by (simp split: if_split_asm)
      then show thesis using direct solo fits reject that(6) live by (auto split: if_split_asm)
    qed
  qed
qed

lemma acquire_serves:
  assumes c: "core_ok c" and r: "acquire env rq c = (res, c')"
  shows "serves c c' \<and> (\<forall>i. res = RQueued i \<longrightarrow> i = fresh_id c \<and> tracked c' = add_mset i (tracked c))"
proof -
  note a = hinted_advances [OF c, of rq]
  have c1: "core_ok (hinted rq c)" by (rule advancesD(6) [OF a])
  have lift: "serves (hinted rq c) x \<Longrightarrow> serves c x" for x by (rule advances_then_serves [OF a]) simp_all
  from c r show ?thesis
  proof (cases rule: acquire_shape)
    case (refused kk x)
    then show ?thesis using reject_serves [OF c] lift [OF reject_serves [OF c1]] by auto
  next
    case (invalid err)
    then show ?thesis using advances_serves [OF a] by simp
  next
    case (off k)
    then show ?thesis using lift [OF admitVirtual_serves [OF c1]] by (auto simp: admitVirtual_def Let_def)
  next
    case (shadow k)
    then have "c' = snd (acquireShadow env rq k (hinted rq c))" by (metis snd_conv)
    moreover have "res \<noteq> RQueued i" for i using shadow(3) by (auto simp: acquireShadow_def split: prod.splits)
    ultimately show ?thesis using lift [OF acquireShadow_serves [OF c1 shadow(1)]] shadow(2) by simp
  next
    case (direct k l)
    then show ?thesis using lift [OF admit_serves [OF c1 direct(1,4)]] by simp
  next
    case (wait k)
    then show ?thesis using lift enqueueRequest_cases [OF c1 _ wait(2)] by (auto simp: fresh_id_def)
  qed
qed

subsection \<open>The other events\<close>

lemma adapt_serves:
  assumes "core_ok c" "adaptation_ok (adaptation (config c)) st"
  shows "serves c (c\<lparr>adapt := st\<rparr>)"
  using assms core_okD [OF assms(1)]
  by (simp add: serves_def core_ok_def adapt_ok_def active_ok_def tracked_def waiting_def active_grows_same)

lemma release_step:
  assumes c: "core_ok c" and r: "jget (active c) i = Some r" and st: "adaptation_ok (adaptation (config c)) st"
  shows "serves c (c\<lparr>active := jdel i (active c), activeCost := activeCost c - lr_cost r, adapt := st\<rparr>)"
proof -
  note o = core_okD [OF c]
  have "0 < lr_cost r" using o(8) jget_SomeD [OF r] by blast
  moreover have "active_total (jdel i (active c)) = activeCost c - lr_cost r"
    using active_total_jdel [OF o(3) r] o(4) by simp
  moreover have "\<forall>(k, x) \<in> set (jdel i (active c)). 0 < lr_cost x \<and> (\<exists>n \<le> leaseSeq c. k = Lease n)"
    using o(8) set_jdel_subset [of i "active c"] by blast
  moreover have "active_grows c (c\<lparr>active := jdel i (active c), activeCost := activeCost c - lr_cost r, adapt := st\<rparr>)"
    by (rule active_grows_keys) simp
  ultimately show ?thesis
    using o(1,3,5,6) st by (auto simp: serves_def core_ok_def adapt_ok_def active_ok_def tracked_def waiting_def)
qed

lemma releaseLease_eq:
  assumes "jget (active c) i = Some r"
  shows "releaseLease env i out meta c =
    (let c1 = sampleIntegral env c in
     dispatch env (releaseVirtual i r (c1\<lparr>active := jdel i (active c1), activeCost := activeCost c1 - lr_cost r,
       adapt := release_adapt env r out meta (adaptation (config c1)) (adapt c1)\<rparr>)))"
  using assms by (simp add: releaseLease_def Let_def)

lemma release_adapt_ok:
  assumes "params_ok p" "adaptation_ok p st"
  shows "adaptation_ok p (release_adapt env r out meta p st)"
proof -
  have "adaptation_ok p (noteOutcome (noteLatency st l p) out)" for l
    by (intro noteOutcome_ok noteLatency_ok assms)
  then have "adaptation_ok p ((noteOutcome (noteLatency st l p) out)
      \<lparr>windowCompleted := windowCompleted (noteOutcome (noteLatency st l p) out) + 1\<rparr>)" for l
    by (simp add: adaptation_ok_def)
  then show ?thesis by (simp add: release_adapt_def Let_def setPressure_ok split: option.split)
qed

lemma releaseLease_serves:
  assumes c: "core_ok c"
  shows "serves c (releaseLease env i out meta c)"
proof (cases "jget (active c) i")
  case None
  then show ?thesis using advances_serves [OF advances_refl [OF c]] by (simp add: releaseLease_def)
next
  case (Some r)
  let ?c1 = "sampleIntegral env c"
  let ?c2 = "?c1\<lparr>active := jdel i (active ?c1), activeCost := activeCost ?c1 - lr_cost r,
    adapt := release_adapt env r out meta (adaptation (config ?c1)) (adapt ?c1)\<rparr>"
  have a: "advances c ?c1" by (rule sampleIntegral_advances [OF c])
  note ok = advancesD(6) [OF a]
  have "serves ?c1 ?c2" using Some by (intro release_step ok release_adapt_ok core_okD(2,7)) simp_all
  then have s: "serves c ?c2" using advances_then_serves [OF a] by simp
  have v: "advances ?c2 (releaseVirtual i r ?c2)" by (rule releaseVirtual_advances [OF servesD(1) [OF s]])
  have "advances ?c2 (dispatch env (releaseVirtual i r ?c2))"
    by (rule advances_trans [OF v dispatch_advances [OF advancesD(6) [OF v]]])
  then show ?thesis
    unfolding releaseLease_eq [OF Some] Let_def by (rule serves_then_advances [OF s])
qed

lemma expire_scan_Some:
  "lanes_ok ls \<Longrightarrow> expire_scan i ls = Some (e, k, l') \<Longrightarrow>
     \<exists>l q. jget ls k = Some l \<and> removeById i (lane_queue l) = (Some e, q) \<and> l' = l\<lparr>lane_queue := q\<rparr>"
proof (induction ls)
  case (Cons p ls)
  obtain k1 l1 where p: "p = (k1, l1)" by force
  have ok: "lanes_ok ls" "k1 \<notin> set (jkeys ls)" using Cons.prems(1) p by (auto simp: lanes_ok_def jmap_ok_def)
  obtain x q1 where x: "removeById i (lane_queue l1) = (x, q1)" by force
  show ?case
  proof (cases x)
    case None
    then obtain l q where g: "jget ls k = Some l" "removeById i (lane_queue l) = (Some e, q)" "l' = l\<lparr>lane_queue := q\<rparr>"
      using Cons x p ok(1) by auto
    then have "k \<noteq> k1" using ok(2) jget_in_keys by force
    with g p show ?thesis by simp
  next
    case (Some y)
    with Cons.prems(2) x p show ?thesis by auto
  qed
qed simp

lemma removeById_ids:
  assumes "fq_inv q" "removeById i q = (Some e, q')"
  shows "fq_inv q'" "ids q = add_mset (entry_id e) (ids q')" "items q' \<subseteq># items q"
  using removeById_Some [OF assms] by (auto simp: ids_def)

text \<open>An entry taken out by its identifier and failed: the accepted waiters are the same.\<close>

lemma fail_removed:
  assumes "core_ok c'" "config c' = config c" "limit c' = limit c" "shutDown c' = shutDown c" "leaseSeq c' = leaseSeq c"
    "settled c' = settled c" "tracked c = add_mset (entry_id e) (tracked c')" "activeCost c' = activeCost c"
    "active c' = active c"
  shows "advances c (failQueued e code c')"
  using settlesD [OF failQueued_settles [OF assms(1), of e code]] settles_tracked [OF failQueued_settles [OF assms(1), of e code]]
    assms by (auto simp: advances_def active_grows_same)

lemma expireEntry_advances:
  assumes c: "core_ok c"
  shows "advances c (expireEntry env i code c)"
proof (cases "removeById i (queue c)")
  case (Pair x q)
  show ?thesis
  proof (cases x)
    case (Some e)
    note r = removeById_ids [OF core_okD(5) [OF c] Pair [unfolded Some]]
    let ?c = "c\<lparr>queue := q\<rparr>"
    have "advances c (failQueued e code ?c)"
      using core_ok_queue [OF c r(1)] r(2) by (intro fail_removed) (simp_all add: tracked_def waiting_def)
    from advances_trans [OF this dispatch_advances [OF advancesD(6) [OF this]]]
    show ?thesis using Pair Some by (simp add: expireEntry_def)
  next
    case None
    show ?thesis
    proof (cases "expire_scan i (lanes c)")
      case n: None
      then show ?thesis using Pair None advances_refl [OF c] by (simp add: expireEntry_def)
    next
      case (Some y)
      obtain e k l' where y: "y = (e, k, l')" by (metis prod_cases3)
      have ok: "lanes_ok (lanes c)" using core_okD(6) [OF c] .
      obtain l q' where g: "jget (lanes c) k = Some l" "removeById i (lane_queue l) = (Some e, q')" "l' = l\<lparr>lane_queue := q'\<rparr>"
        using expire_scan_Some [OF ok Some [unfolded y]] by blast
      have lo: "lane_ok k l" by (rule lanes_ok_get [OF ok g(1)])
      then have fq: "fq_inv (lane_queue l)" by (simp add: lane_ok_def)
      note r = removeById_ids [OF fq g(2)]
      have lo': "lane_ok k l'" using r lo g(3) by (auto simp: lane_ok_def dest: mset_subset_eqD)
      let ?c = "c\<lparr>lanes := jset k l' (lanes c)\<rparr>"
      have c1: "core_ok ?c" by (rule core_ok_lanes [OF c lanes_ok_jset [OF ok lo']])
      have "lane_ids (lanes c) = add_mset (entry_id e) (lane_ids (jset k l' (lanes c)))"
        using lane_ids_jset [OF g(1), of l'] r(2) g(3) by simp
      then have t: "tracked c = add_mset (entry_id e) (tracked ?c)"
        by (simp add: tracked_def waiting_def)
      let ?c' = "removeEmptyLane (tenantKey e) ?c"
      note a = advancesD [OF removeEmptyLane_advances [OF c1, of "tenantKey e"]]
      have "advances c (failQueued e code ?c')"
        using a(6) t a(5) by (intro fail_removed) simp_all
      from advances_trans [OF this dispatch_advances [OF advancesD(6) [OF this]]]
      show ?thesis using Pair None Some y by (simp add: expireEntry_def)
    qed
  qed
qed


lemma critical_limit_ok:
  assumes "core_ok c"
  shows "adaptation_ok (adaptation (config c)) ((adapt c)\<lparr>currentLimit := max (minLimit (config c))
      \<lfloor>of_int (limit c) * criticalDecreaseFactor (adaptation (config c))\<rfloor>, criticalDecreaseConsumed := True\<rparr>)"
proof -
  note o = core_okD [OF assms] and l = core_limits [OF assms]
  have "\<lfloor>of_int (limit c) * criticalDecreaseFactor (adaptation (config c))\<rfloor> \<le> limit c"
    using o(7) l(3) by (intro floor_factor_le) (auto simp: params_ok_def)
  then show ?thesis using o(1,2) l by (simp add: adaptation_ok_def config_ok_def)
qed

lemma observePressure_serves:
  assumes c: "core_ok c"
  shows "serves c (observePressure env p c)"
proof -
  let ?c1 = "c\<lparr>adapt := setPressure (adapt c) p\<rparr>"
  let ?st = "(adapt ?c1)\<lparr>currentLimit := max (minLimit (config c))
      \<lfloor>of_int (limit ?c1) * criticalDecreaseFactor (adaptation (config c))\<rfloor>, criticalDecreaseConsumed := True\<rparr>"
  have "core_ok ?c1" by (rule advancesD(6) [OF setPressure_advances [OF c]])
  then have "adaptation_ok (adaptation (config c)) ?st" using critical_limit_ok [of ?c1] by simp
  then have "serves c (c\<lparr>adapt := ?st\<rparr>)" by (rule adapt_serves [OF c])
  then have s: "serves c (?c1\<lparr>adapt := ?st\<rparr>)" by simp
  note d = dispatch_advances [OF servesD(1) [OF s], of env]
  note v = advances_trans [OF d dispatchVirtual_advances [OF advancesD(6) [OF d]]]
  show ?thesis
    using serves_then_advances [OF s v] advances_serves [OF setPressure_advances [OF c]]
    by (auto simp: observePressure_def Let_def)
qed

lemma tick_serves:
  assumes c: "core_ok c"
  shows "serves c (tick env c)"
proof -
  note a = sampleIntegral_advances [OF c, of env]
  note b = advances_trans [OF a evictIdleLanes_advances [OF advancesD(6) [OF a], of env]]
  let ?c1 = "evictIdleLanes env (sampleIntegral env c)"
  note o = core_okD [OF advancesD(6) [OF b]]
  have "serves ?c1 (?c1\<lparr>adapt := closeAdaptationWindow (adapt ?c1) (adaptation (config ?c1)) (now env)\<rparr>)"
    by (rule adapt_serves [OF advancesD(6) [OF b] closeAdaptationWindow_ok [OF o(7) o(2)]])
  moreover have "leaseSeq ?c1 = leaseSeq c"
  proof -
    have "leaseSeq (fold deleteLane ks x) = leaseSeq x" for ks x
      by (induction ks arbitrary: x) (simp_all add: deleteLane_def Let_def split: option.split)
    then show ?thesis by (simp add: evictIdleLanes_def Let_def armLaneEviction_def clearLaneEviction_def)
  qed
  ultimately have s: "serves c (?c1\<lparr>adapt := closeAdaptationWindow (adapt ?c1) (adaptation (config ?c1)) (now env)\<rparr>)"
    by (intro advances_then_serves [OF b])
  note d = dispatch_advances [OF servesD(1) [OF s], of env]
  note v = advances_trans [OF d dispatchVirtual_advances [OF advancesD(6) [OF d]]]
  show ?thesis using serves_then_advances [OF s v] by (simp add: tick_def Let_def)
qed

lemma window_fired_serves:
  assumes c: "core_ok c"
  shows "serves c (window_fired env c)"
proof -
  let ?c0 = "c\<lparr>timers := removeAll WindowTick (timers c)\<rparr>"
  note a = timers_advances(1) [OF c, of "removeAll WindowTick (timers c)"]
  have s: "serves c (tick env ?c0)"
    using advances_then_serves [OF a tick_serves [OF advancesD(6) [OF a]]] by simp
  show ?thesis
    using serves_then_advances [OF s timers_advances(1) [OF servesD(1) [OF s]]] s
    by (simp add: window_fired_def Let_def)
qed

lemma shutdown_serves:
  assumes c: "core_ok c"
  shows "serves c (shutdown c)"
proof (cases "shutDown c")
  case True
  then show ?thesis using advances_serves [OF advances_refl [OF c]] by (simp add: shutdown_def)
next
  case False
  note o = core_okD [OF c] and d = drain_ids [OF core_okD(5) [OF c]]
  let ?es = "fst (drain (queue c)) @ drain_lanes (lanes c)" and ?c' = "shutdown c"
  have f: "config ?c' = config c" "adapt ?c' = adapt c" "active ?c' = active c" "activeCost ?c' = activeCost c"
    "leaseSeq ?c' = leaseSeq c" "queue ?c' = snd (drain (queue c))" "lanes ?c' = []"
    "settled ?c' = settled c @ map (\<lambda>e. (entry_id e, Rejected ADMISSION_SHUTDOWN)) ?es"
    using False by (simp_all add: shutdown_def Let_def clearLaneEviction_def)
  have "mset (map fst (settled ?c')) = mset (map fst (settled c)) + ids (queue c) + lane_ids (lanes c)"
    using d(1) drain_lanes_ids [OF o(6)] by (simp add: f o_def)
  then have "tracked ?c' = tracked c" using d(2) by (simp add: tracked_def waiting_def f)
  moreover have "core_ok ?c'" by (rule core_ok_cong [OF c]) (use f o(2) d(3) in \<open>simp_all add: lanes_ok_def\<close>)
  moreover have "shutDown ?c'" using False by (simp add: shutdown_def Let_def clearLaneEviction_def)
  ultimately show ?thesis by (simp add: serves_def f active_grows_same)
qed

lemma handle_serves:
  assumes c: "core_ok c" and ev: "\<And>inp. ev \<noteq> Reconfigure inp"
  shows "serves c (handle env ev c)"
proof (cases ev)
  case (Acquire rq)
  then show ?thesis using acquire_serves [OF c] by (metis handle.simps(1) prod.exhaust_sel)
next
  case (Deadline_timer i)
  have a: "advances c (clearEntryTimer i c)" unfolding clearEntryTimer_def by (rule timers_advances [OF c])
  from advances_trans [OF a expireEntry_advances [OF advancesD(6) [OF a]]] Deadline_timer
  show ?thesis using advances_serves by simp
next
  case (Abort_signal i)
  have a: "advances c (detachAbort i c)" unfolding detachAbort_def by (rule timers_advances [OF c])
  from advances_trans [OF a expireEntry_advances [OF advancesD(6) [OF a]]] Abort_signal
  show ?thesis using advances_serves by simp
next
  case Lane_timer
  note a = clearLaneEviction_advances [OF c]
  from advances_trans [OF a evictIdleLanes_advances [OF advancesD(6) [OF a]]] Lane_timer
  show ?thesis using advances_serves by simp
next
  case Snapshot
  then show ?thesis using advances_serves [OF sampleIntegral_advances [OF c]] by (simp add: snapshot_def Let_def)
qed (use ev in \<open>simp_all add: c releaseLease_serves observePressure_serves tick_serves window_fired_serves shutdown_serves\<close>)


subsection \<open>Reconfiguration\<close>

lemma held_items_clean:
  assumes "fq_inv q" "e \<in># items q"
  shows "0 < cost e" "skipCount e = 0" "erase e = e"
proof -
  show "0 < cost e" using held_items_ok [OF fq_invD(1) [OF assms(1)] assms(2)] by blast
  obtain x where "e = erase x" using assms(2) by (auto simp: held_items_def)
  then show "skipCount e = 0" "erase e = e" by simp_all
qed

lemma drained_clean:
  assumes "core_ok c" "e \<in> set (fst (drain (queue c)) @ drain_lanes (lanes c))"
  shows "0 < cost e" "skipCount e = 0"
proof -
  obtain q where q: "fq_inv q" "e \<in> set (fst (drain q))"
    using assms core_okD(5,6) [OF assms(1)] by (fastforce simp: drain_lanes_def lanes_ok_def lane_ok_def)
  then have "e \<in># items q" using drain_all [OF q(1)] by (metis set_mset_mset)
  then show "0 < cost e" "skipCount e = 0" using held_items_clean [OF q(1)] by blast+
qed

definition readmits :: "adm_id multiset \<Rightarrow> controller \<Rightarrow> controller \<Rightarrow> bool" where
  "readmits is c c' \<longleftrightarrow>
     config c' = config c \<and> limit c' = limit c \<and> shutDown c' = shutDown c \<and> leaseSeq c \<le> leaseSeq c' \<and> core_ok c' \<and>
     tracked c' = is + tracked c \<and> (mode (config c) = Enforce \<longrightarrow> activeCost c' = activeCost c) \<and>
     (\<exists>ss. settled c' = settled c @ ss) \<and> active_grows c c'"

lemma readmit_readmits:
  assumes c: "core_ok c" and e: "0 < cost e" "skipCount e = 0"
  shows "readmits {#entry_id e#} c (readmit env e c)"
proof -
  have fail: "readmits {#entry_id e#} c (failQueued e k c)" for k
    using settlesD [OF failQueued_settles [OF c, of e k]] settles_tracked [OF failQueued_settles [OF c, of e k]]
    by (auto simp: readmits_def)
  let ?d = "detachAbort (entry_id e) (clearEntryTimer (entry_id e) c)"
  have d: "settles e c (resolve_admitted env e ?d)"
    using resolve_admitted_settles(1) [of ?d e env] c e(1) by (simp add: settles_untimed)
  obtain ok q where q: "enqueue e (queue c) = (ok, q)" by force
  note i = enqueue_ids [OF core_okD(5) [OF c] q e(2)]
  have u: "q = queue c" if "\<not> ok" using q that by (auto simp: enqueue_def Let_def split: if_splits)
  have j: "readmits {#entry_id e#} c (c\<lparr>queue := q\<rparr>)" if ok
    using that i core_ok_queue [OF c i(1)] by (simp add: readmits_def tracked_def waiting_def active_grows_same)
  show ?thesis
  proof (cases "mode (config c) = Enforce")
    case True
    then show ?thesis using fail q u j by (simp add: readmit_def)
  next
    case False
    then show ?thesis using settlesD [OF d] settles_tracked [OF d] by (auto simp: readmit_def readmits_def)
  qed
qed

lemma readmits_fold:
  assumes "core_ok c" "\<And>e. e \<in> set es \<Longrightarrow> 0 < cost e \<and> skipCount e = 0"
  shows "readmits (mset (map entry_id es)) c (fold (readmit env) es c)"
  using assms
proof (induction es arbitrary: c)
  case Nil
  then show ?case by (simp add: readmits_def active_grows_same)
next
  case (Cons e es)
  have a: "readmits {#entry_id e#} c (readmit env e c)"
    using Cons.prems by (intro readmit_readmits) auto
  then have "readmits (mset (map entry_id es)) (readmit env e c) (fold (readmit env) es (readmit env e c))"
    using Cons.prems(2) by (intro Cons.IH) (auto simp: readmits_def)
  moreover obtain s t where "settled (readmit env e c) = settled c @ s"
    "settled (fold (readmit env) es (readmit env e c)) = settled (readmit env e c) @ t"
    using a calculation unfolding readmits_def by blast
  then have "settled (fold (readmit env) es (readmit env e c)) = settled c @ (s @ t)" by simp
  moreover have "active_grows c (fold (readmit env) es (readmit env e c))"
    using a calculation(1) unfolding readmits_def by (blast intro: active_grows_trans)
  ultimately show ?case using a by (auto simp: readmits_def)
qed

lemma mark_advances:
  assumes "core_ok c" "jget (active c) i = Some r" "lr_cost r' = lr_cost r"
    "c' = c\<lparr>active := jset i r' (active c), virtualQueue := q, virtualActiveCost := v, virtualActiveCount := n\<rparr>"
  shows "advances c c'"
proof -
  have "active_ok c'"
    by (rule active_ok_mark [of c i r r', OF _ assms(2,3)]) (use assms(1,4) in \<open>simp_all add: core_ok_def\<close>)
  then have "core_ok c'" using assms(1,4) by (simp add: core_ok_def adapt_ok_def)
  moreover have "active_grows c c'"
    using assms(4) jget_in_keys [of "active c" i] assms(2) by (intro active_grows_keys) simp
  ultimately show ?thesis using assms(4) by (simp add: advances_def tracked_def waiting_def)
qed

text \<open>One record of the rebuild.\<close>

definition rebuild_one :: "adm_id \<Rightarrow> lease_record \<Rightarrow> controller \<Rightarrow> controller" where
  "rebuild_one i r c = rebuild_loop [(i, r)] c"

lemma rebuild_one_shape:
  "\<exists>d q v n. rebuild_one i r c = c\<lparr>active := jset i (r\<lparr>lr_virtual := d\<rparr>) (active c), virtualQueue := q,
     virtualActiveCost := v, virtualActiveCount := n\<rparr>"
proof -
  consider "lr_cost r > limit c" | "lr_cost r \<le> limit c" "lr_cost r \<le> limit c - virtualActiveCost c"
    | "lr_cost r \<le> limit c" "\<not> lr_cost r \<le> limit c - virtualActiveCost c" by linarith
  then show ?thesis
  proof cases
    case 1
    then show ?thesis unfolding rebuild_one_def
      by (intro exI [of _ VRejected] exI [of _ "virtualQueue c"] exI [of _ "virtualActiveCost c"] exI [of _ "virtualActiveCount c"]) simp
  next
    case 2
    then show ?thesis unfolding rebuild_one_def
      by (intro exI [of _ VActive] exI [of _ "virtualQueue c"] exI) (simp add: mark_virtual_active_def)
  next
    case 3
    obtain ok q where q: "enqueue (virtual_entry i ''_existing'' (lr_cost r) (lr_admittedAtMs r)) (virtualQueue c) = (ok, q)" by force
    from 3 show ?thesis unfolding rebuild_one_def
      by (intro exI [of _ "if ok then VQueued else VRejected"] exI [of _ q] exI [of _ "virtualActiveCost c"] exI [of _ "virtualActiveCount c"])
        (simp add: q)
  qed
qed

lemma rebuild_loop_advances:
  assumes "core_ok c" "\<And>i r. (i, r) \<in> set rs \<Longrightarrow> \<exists>r'. jget (active c) i = Some r' \<and> lr_cost r' = lr_cost r"
  shows "advances c (rebuild_loop rs c)"
  using assms
proof (induction rs arbitrary: c)
  case Nil
  then show ?case by (simp add: advances_refl)
next
  case (Cons x rs)
  obtain i r where x: "x = (i, r)" by force
  have step: "rebuild_loop (x # rs) c = rebuild_loop rs (rebuild_one i r c)"
    by (simp add: x rebuild_one_def)
  obtain r' where r': "jget (active c) i = Some r'" "lr_cost r' = lr_cost r" using Cons.prems(2) x by auto
  obtain d q v n where sh: "rebuild_one i r c = c\<lparr>active := jset i (r\<lparr>lr_virtual := d\<rparr>) (active c), virtualQueue := q,
     virtualActiveCost := v, virtualActiveCount := n\<rparr>" using rebuild_one_shape by blast
  have a: "advances c (rebuild_one i r c)"
    by (rule mark_advances [OF Cons.prems(1) r'(1) _ sh]) (simp add: r'(2))
  have "\<exists>y. jget (active (rebuild_one i r c)) j = Some y \<and> lr_cost y = lr_cost z" if m: "(j, z) \<in> set rs" for j z
  proof -
    obtain y where "jget (active c) j = Some y" "lr_cost y = lr_cost z" using Cons.prems(2) [of j z] m by auto
    then show ?thesis using r' by (cases "j = i") (simp_all add: sh)
  qed
  then have "advances (rebuild_one i r c) (rebuild_loop rs (rebuild_one i r c))"
    by (rule Cons.IH [OF advancesD(6) [OF a]])
  with advances_trans [OF a] show ?case unfolding step by blast
qed

lemma rebuildVirtualState_advances:
  assumes c: "core_ok c"
  shows "advances c (rebuildVirtualState b c)"
proof -
  define c1 where "c1 = c\<lparr>virtualQueue := new_queue (maxQueueCount (config c)) (maxQueueCost (config c)),
    virtualActiveCost := 0, virtualActiveCount := 0, active := map (\<lambda>(i, r). (i, r\<lparr>lr_virtual := VNone\<rparr>)) (active c)\<rparr>"
  have "active_total (map (\<lambda>(i, r). (i, r\<lparr>lr_virtual := VNone\<rparr>)) m) = active_total m" for m
    by (induction m) auto
  moreover have "fst \<circ> (\<lambda>(i :: adm_id, r :: lease_record). (i, r\<lparr>lr_virtual := VNone\<rparr>)) = fst" by auto
  moreover have "\<forall>(i, r) \<in> set (active c1). 0 < lr_cost r \<and> (\<exists>n \<le> leaseSeq c. i = Lease n)"
    using core_okD(8) [OF c] by (auto simp: c1_def)
  ultimately have "active_ok c1"
    using core_okD(3,4) [OF c] by (simp add: active_ok_def jmap_ok_def c1_def)
  then have ok: "core_ok c1" using c by (simp add: core_ok_def adapt_ok_def c1_def)
  have "active_grows c c1" by (rule active_grows_keys) (force simp: c1_def)
  with ok have a: "advances c c1" by (simp add: advances_def tracked_def waiting_def c1_def)
  have "advances c1 (rebuild_loop (active c1) c1)"
    by (rule rebuild_loop_advances [OF ok]) (use jget_mem [OF core_okD(3) [OF ok]] in blast)
  from advances_trans [OF a this] a show ?thesis
    unfolding rebuildVirtualState_def c1_def [symmetric] by (simp add: Let_def)
qed


lemma armWindowTimer_frame [simp]:
  "config (armWindowTimer c) = config c" "adapt (armWindowTimer c) = adapt c" "queue (armWindowTimer c) = queue c"
  "lanes (armWindowTimer c) = lanes c" "active (armWindowTimer c) = active c" "activeCost (armWindowTimer c) = activeCost c"
  "settled (armWindowTimer c) = settled c" "shutDown (armWindowTimer c) = shutDown c"
  by (simp_all add: armWindowTimer_def Let_def)

lemma armWindowTimer_advances: "core_ok c \<Longrightarrow> advances c (armWindowTimer c)"
  using timers_advances(1) [of c] by (simp add: armWindowTimer_def Let_def)

lemma reset_adaptation_ok:
  assumes "config_ok cfg" "adaptation_ok p st"
  shows "adaptation_ok (adaptation cfg) (reset_adaptation env cfg st)"
  using assms by (auto simp: adaptation_ok_def reset_adaptation_def config_ok_def)

lemma updateConfig_inv:
  assumes c: "core_ok c" and u: "updateConfig env inp c = Inr c'"
  shows "core_ok c'" "tracked c' = tracked c" "leaseSeq c \<le> leaseSeq c'" "\<exists>ss. settled c' = settled c @ ss"
    "validateConfig inp = Inr (config c')"
    "mode (config c') = Enforce \<Longrightarrow> activeCost c' \<le> max (activeCost c) (maxLimit (config c'))"
    "shutDown c' = shutDown c" "active_grows c c'"
    "mode (config c') = Enforce \<Longrightarrow> \<exists>x. c' = dispatch env x \<and> core_ok x"
proof -
  obtain cfg where v: "validateConfig inp = Inr cfg" using u by (auto simp: updateConfig_def)
  have ok: "config_ok cfg" by (rule validated_config_ok [OF v])
  define c1 where "c1 = sampleIntegral env c"
  define es where "es = fst (drain (queue c1)) @ drain_lanes (lanes c1)"
  define c2 where "c2 = clearLaneEviction
    (c1\<lparr>config := cfg, adapt := reset_adaptation env cfg (adapt c1), lastSampleMs := now env,
        queue := new_queue (maxQueueCount cfg) (maxQueueCost cfg), lanes := []\<rparr>)"
  define c3 where "c3 = fold (readmit env) es c2"
  define c4 where "c4 = armWindowTimer (rebuildVirtualState (mode cfg = Shadow) c3)"
  have c': "c' = (if mode cfg = Enforce then dispatch env c4 else c4)"
    using u v unfolding updateConfig_def c4_def c3_def c2_def es_def c1_def by (simp add: Let_def)
  have c1: "core_ok c1" unfolding c1_def by (rule advancesD(6) [OF sampleIntegral_advances [OF c]])
  note o = core_okD [OF c1]
  have f2: "config c2 = cfg" "settled c2 = settled c" "leaseSeq c2 = leaseSeq c" "activeCost c2 = activeCost c"
    "tracked c2 = mset (map fst (settled c))" "shutDown c2 = shutDown c" "active c2 = active c"
    by (simp_all add: c2_def c1_def clearLaneEviction_def tracked_def waiting_def ids_def)
  have "0 \<le> maxQueueCount cfg" "0 \<le> maxQueueCost cfg" using ok by (simp_all add: config_ok_def)
  then have c2: "core_ok c2"
    using o(3,4,8) ok reset_adaptation_ok [OF ok o(2)]
    by (auto simp: core_ok_def adapt_ok_def active_ok_def c2_def clearLaneEviction_def lanes_ok_def new_queue_inv)
  have r: "readmits (mset (map entry_id es)) c2 c3"
    unfolding c3_def using drained_clean [OF c1] by (intro readmits_fold [OF c2]) (simp_all add: es_def)
  have ids: "mset (map entry_id es) = waiting c"
    using drain_ids(1) [OF o(5)] drain_lanes_ids [OF o(6)] by (simp add: es_def waiting_def c1_def)
  have c3: "core_ok c3" using r by (simp add: readmits_def)
  note a = rebuildVirtualState_advances [OF c3, of "mode cfg = Shadow"]
  have b: "advances c3 c4" unfolding c4_def by (rule advances_trans [OF a armWindowTimer_advances [OF advancesD(6) [OF a]]])
  have d: "advances c3 c'" unfolding c'
    using advances_trans [OF b dispatch_advances [OF advancesD(6) [OF b]]] b by simp
  note D = advancesD [OF d] and L = core_limits(2) [OF c3]
  show "core_ok c'" by (rule D(6))
  show "tracked c' = tracked c" using D(5) r ids f2(5) by (simp add: readmits_def tracked_def)
  show "leaseSeq c \<le> leaseSeq c'" using D(4) r f2(3) by (simp add: readmits_def)
  obtain s t where "settled c3 = settled c @ s" "settled c' = settled c3 @ t"
    using D(8) r f2(2) unfolding readmits_def by auto
  then have "settled c' = settled c @ (s @ t)" by simp
  then show "\<exists>ss. settled c' = settled c @ ss" by blast
  show "validateConfig inp = Inr (config c')" using D(1) r f2(1) v by (simp add: readmits_def)
  show "activeCost c' \<le> max (activeCost c) (maxLimit (config c'))" if "mode (config c') = Enforce"
    using that D(1,7) L r f2(1,4) by (auto simp: readmits_def)
  show "shutDown c' = shutDown c" using D(3) r f2(6) by (simp add: readmits_def)
  have "active_grows c c3" using r f2(3,7) by (simp add: readmits_def active_grows_def)
  moreover have "leaseSeq c \<le> leaseSeq c3" using r f2(3) by (simp add: readmits_def)
  ultimately show "active_grows c c'" using D(9) active_grows_trans by blast
  show "\<exists>x. c' = dispatch env x \<and> core_ok x" if "mode (config c') = Enforce"
    using that c' D(1) r f2(1) advancesD(6) [OF b] by (auto simp: readmits_def)
qed

section \<open>The invariant over histories\<close>

lemma ids_ok_serves:
  assumes "ids_ok c" "leaseSeq c \<le> leaseSeq c'"
    "tracked c' = tracked c \<or> tracked c' = add_mset (fresh_id c) (tracked c) \<and> leaseSeq c < leaseSeq c'"
  shows "ids_ok c'"
proof -
  have b: "\<exists>n \<le> leaseSeq c. i = Waiter n" if "i \<in># tracked c" for i using assms(1) that by (simp add: ids_ok_def)
  then have "fresh_id c \<notin># tracked c" by (fastforce simp: fresh_id_def)
  then have "count (tracked c) (fresh_id c) = 0" by (simp add: not_in_iff)
  moreover have "\<exists>n \<le> leaseSeq c'. i = Waiter n" if "i \<in># tracked c'" for i
    using that assms(2,3) b by (fastforce simp: fresh_id_def Suc_le_eq intro: order_trans)
  ultimately show ?thesis using assms(1,3) by (auto simp: ids_ok_def)
qed

lemma handle_tracked:
  assumes c: "core_ok c"
  shows "core_ok (handle env ev c)" "leaseSeq c \<le> leaseSeq (handle env ev c)"
    "\<exists>ss. settled (handle env ev c) = settled c @ ss"
    "tracked (handle env ev c) = tracked c \<or>
     tracked (handle env ev c) = add_mset (fresh_id c) (tracked c) \<and> leaseSeq c < leaseSeq (handle env ev c) \<and> \<not> shutDown c"
    "mode (config (handle env ev c)) = Enforce \<Longrightarrow>
     activeCost (handle env ev c) \<le> max (activeCost c) (maxLimit (config (handle env ev c)))"
    "shutDown c \<Longrightarrow> shutDown (handle env ev c)" "active_grows c (handle env ev c)"
proof -
  let ?c' = "handle env ev c"
  have "core_ok ?c' \<and> leaseSeq c \<le> leaseSeq ?c' \<and> (\<exists>ss. settled ?c' = settled c @ ss) \<and>
    (tracked ?c' = tracked c \<or> tracked ?c' = add_mset (fresh_id c) (tracked c) \<and> leaseSeq c < leaseSeq ?c' \<and> \<not> shutDown c) \<and>
    (mode (config ?c') = Enforce \<longrightarrow> activeCost ?c' \<le> max (activeCost c) (maxLimit (config ?c'))) \<and>
    (shutDown c \<longrightarrow> shutDown ?c') \<and> active_grows c ?c'"
  proof (cases "\<exists>inp. ev = Reconfigure inp")
    case True
    then obtain inp where ev: "ev = Reconfigure inp" by blast
    show ?thesis
    proof (cases "updateConfig env inp c")
      case (Inl err)
      then show ?thesis using c ev by (simp add: active_grows_same)
    next
      case (Inr c')
      then have "?c' = c'" using ev by simp
      then show ?thesis using updateConfig_inv [OF c Inr] by simp
    qed
  next
    case False
    then have "serves c ?c'" by (intro handle_serves [OF c]) blast
    then show ?thesis unfolding serves_def by blast
  qed
  then show "core_ok ?c'" "leaseSeq c \<le> leaseSeq ?c'" "\<exists>ss. settled ?c' = settled c @ ss"
    "tracked ?c' = tracked c \<or> tracked ?c' = add_mset (fresh_id c) (tracked c) \<and> leaseSeq c < leaseSeq ?c' \<and> \<not> shutDown c"
    "mode (config ?c') = Enforce \<Longrightarrow> activeCost ?c' \<le> max (activeCost c) (maxLimit (config ?c'))"
    "shutDown c \<Longrightarrow> shutDown ?c'" "active_grows c ?c'" by blast+
qed

lemma handle_inv [inv_intro]: "ctl_inv c \<Longrightarrow> ctl_inv (handle env ev c)"
  using handle_tracked [of c env ev] ids_ok_serves [of c "handle env ev c"] unfolding ctl_inv_def by blast

lemma step_inv: "ctl_step ev c c' \<Longrightarrow> ctl_inv c \<Longrightarrow> ctl_inv c'"
  by (elim ctl_stepE) (simp add: handle_inv)

text \<open>What a history can only add to.\<close>

definition history_le :: "controller \<Rightarrow> controller \<Rightarrow> bool" where
  "history_le c c' \<longleftrightarrow>
     leaseSeq c \<le> leaseSeq c' \<and> tracked c \<subseteq># tracked c' \<and> (\<exists>ss. settled c' = settled c @ ss) \<and>
     active_grows c c' \<and> (shutDown c \<longrightarrow> shutDown c' \<and> tracked c' = tracked c)"

lemma history_le_trans:
  assumes "history_le a b" "history_le b c"
  shows "history_le a c"
proof -
  have "\<exists>ss. settled c = settled a @ ss" "active_grows a c"
    using assms active_grows_trans unfolding history_le_def by (metis append.assoc, blast)
  then show ?thesis using assms unfolding history_le_def by (auto intro: subset_mset.order_trans)
qed

lemma step_history_le:
  assumes "ctl_step ev c c'" "ctl_inv c"
  shows "history_le c c'"
proof -
  obtain env where c': "c' = handle env ev c" using assms(1) by (elim ctl_stepE) blast
  have "core_ok c" using assms(2) by (simp add: ctl_inv_def)
  note h = handle_tracked [OF this, of env ev, folded c']
  then show ?thesis unfolding history_le_def by auto
qed

interpretation ctl: monotone_system ctl_step ctl_inv history_le
proof
  show "history_le c c" for c by (simp add: history_le_def active_grows_same)
qed (auto intro: step_inv history_le_trans step_history_le)

lemma new_controller_inv:
  assumes "new_controller env inp = Inr c"
  shows "ctl_inv c" "validateConfig inp = Inr (config c)" "settled c = []" "activeCost c = 0" "shutDown c = False"
proof -
  obtain cfg where v: "validateConfig inp = Inr cfg" using assms by (auto simp: new_controller_def)
  have ok: "config_ok cfg" by (rule validated_config_ok [OF v])
  then have n: "0 \<le> maxQueueCount cfg" "0 \<le> maxQueueCost cfg" "params_ok (adaptation cfg)"
    "ap_minLimit (adaptation cfg) = minLimit cfg" "ap_maxLimit (adaptation cfg) = maxLimit cfg"
    by (simp_all add: config_ok_def)
  have f: "config c = cfg" "queue c = new_queue (maxQueueCount cfg) (maxQueueCost cfg)" "lanes c = []" "active c = []"
    "activeCost c = 0" "settled c = []" "shutDown c = False"
    "adapt c = createAdaptationState (initialLimit cfg) (minLimit cfg) (maxLimit cfg) (now env)"
    using assms v by (auto simp: new_controller_def)
  have "adaptation_ok (adaptation cfg) (adapt c)"
    using createAdaptationState_ok [OF n(3)] n(4,5) f(8) by metis
  then have "core_ok c"
    using ok n by (simp add: core_ok_def adapt_ok_def active_ok_def lanes_ok_def f new_queue_inv)
  moreover have "ids_ok c" by (simp add: ids_ok_def tracked_def waiting_def ids_def f)
  ultimately show "ctl_inv c" by (simp add: ctl_inv_def)
  show "validateConfig inp = Inr (config c)" "settled c = []" "activeCost c = 0" "shutDown c = False"
    using v f by simp_all
qed

end
