(* ===== verification/Admission_Guarantees.thy ===== *)
theory Admission_Guarantees
  imports Admission_Safety
begin

text \<open>
  Admission control, part seven: what the controller promises its callers, over every history of
  events from construction. The statements quantify over \<open>reaches ctl_step c0 c\<close>, or over
  \<open>steady_step\<close> when the configuration must not change on the way.
\<close>

section \<open>No fitting waiter is left in the shared queue\<close>

lemma scan_fit_None_mono:
  "scan_fit q b idxs byp = None \<Longrightarrow> b' \<le> b \<Longrightarrow> scan_fit q b' idxs byp' = None"
  by (induction q b idxs byp arbitrary: byp' rule: scan_fit.induct)
    (auto split: option.splits if_splits)

lemma dequeue_None_mono:
  assumes "fst (dequeue b q) = None" "b' \<le> b" "fq_inv q"
  shows "fst (dequeue b' q) = None"
proof (rule ccontr)
  assume "fst (dequeue b' q) \<noteq> None"
  then obtain e q' where d: "dequeue b' q = (Some e, q')" by (metis not_Some_eq prod.collapse)
  have n: "qcount q \<noteq> 0" using d by (auto simp: dequeue_def)
  show False
  proof (cases "scan_reserved q (visit_order q) None")
    case None
    then have "scan_fit q b' (visit_order q) [] \<noteq> None" using d n by (auto simp: dequeue_def split: option.splits)
    then obtain f where f: "scan_fit q b (visit_order q) [] = Some f" using scan_fit_None_mono assms(2) by (metis not_Some_eq)
    obtain idx byp where fp: "f = (idx, byp)" by force
    have y: "\<And>t e es. t \<in> set byp \<Longrightarrow> jget (buckets q) t = Some (e # es) \<Longrightarrow> \<not> aged e"
      using young_bypassed [OF assms(3) None] by blast
    note c = dequeue_fit_cases [OF assms(3) None f [unfolded fp]]
    have "distinct byp" using c by blast
    note b = fold_bump_inv [OF assms(3) this y]
    have "\<exists>x q2. takeAt idx (fold bump_skip byp q) = (Some x, q2)"
      using takeAt_inv [of "fold bump_skip byp q" idx] b c by auto
    then show False using assms(1) None n f fp by (auto simp: dequeue_def)
  next
    case (Some r)
    then obtain idx h where r: "scan_reserved q (visit_order q) None = Some (idx, h)" by (cases r) auto
    have "cost h \<le> b'" using d n r by (auto simp: dequeue_def split: if_splits)
    then have "dequeue b q = dequeue b' q" using n r assms(2) by (simp add: dequeue_def)
    then show False using assms(1) d by simp
  qed
qed

definition quiescent :: "controller \<Rightarrow> bool" where
  "quiescent c \<longleftrightarrow>
     (mode (config c) = Enforce \<and> \<not> shutDown c \<longrightarrow> fst (dequeue (limit c - activeCost c) (queue c)) = None)"

lemma quiescent_cong:
  "quiescent c \<Longrightarrow> config c' = config c \<Longrightarrow> shutDown c' = shutDown c \<Longrightarrow> limit c' = limit c \<Longrightarrow>
   activeCost c' = activeCost c \<Longrightarrow> queue c' = queue c \<Longrightarrow> quiescent c'"
  by (simp add: quiescent_def)

lemma quiescent_less:
  assumes "core_ok c" "quiescent c" "config c' = config c" "shutDown c' = shutDown c" "limit c' = limit c"
    "activeCost c \<le> activeCost c'" "queue c' = queue c"
  shows "quiescent c'"
  using assms dequeue_None_mono [of "limit c - activeCost c" "queue c" "limit c - activeCost c'"] core_okD(5) [OF assms(1)]
  by (simp add: quiescent_def)

lemma dispatch_loop_quiescent:
  "core_ok c \<Longrightarrow> dispatch_loop env c = (fin, c') \<Longrightarrow>
     (if fin then qcount (queue c') = 0 else fst (dequeue (limit c' - activeCost c') (queue c')) = None)"
proof (induction env c rule: dispatch_loop.induct)
  case (1 env c)
  have fq: "fq_inv (queue c)" by (rule core_okD(5) [OF "1.prems"(1)])
  show ?case
  proof (cases "qcount (queue c) > 0 \<and> limit c - activeCost c > 0")
    case True
    obtain r q where d: "dequeue (limit c - activeCost c) (queue c) = (r, q)" by force
    show ?thesis
    proof (cases r)
      case None
      then have "q = queue c" using dequeue_None [OF fq] d by simp
      then have "(fin, c') = (False, c)"
        using "1.prems"(2) True d None by (subst (asm) dispatch_loop.simps) (simp add: Let_def)
      then show ?thesis using d None by simp
    next
      case (Some e)
      let ?c = "snd (settle_dequeued env e (c\<lparr>queue := q\<rparr>))"
      have a: "core_ok ?c" using dispatch_one [OF "1.prems"(1)] d Some advancesD(6) by blast
      have "dispatch_loop env ?c = (fin, c')"
        using "1.prems"(2) True d Some by (subst (asm) dispatch_loop.simps) (simp add: Let_def)
      then show ?thesis using True a by (intro "1.IH" [OF _ refl _ d [symmetric] Some]) simp_all
    qed
  next
    case False
    then consider "qcount (queue c) \<le> 0" | "0 < qcount (queue c)" "limit c \<le> activeCost c" by linarith
    then show ?thesis
    proof cases
      case 1
      then have "(fin, c') = (True, c)" using "1.prems"(2) by (subst (asm) dispatch_loop.simps) simp
      moreover have "0 \<le> qcount (queue c)" using fq.sz_contents [OF fq] by simp
      ultimately show ?thesis using 1 by simp
    next
      case 2
      then have "(fin, c') = (False, c)" using "1.prems"(2) by (subst (asm) dispatch_loop.simps) (simp add: Let_def)
      moreover have "fst (dequeue (limit c - activeCost c) (queue c)) = None"
      proof (rule ccontr)
        assume "fst (dequeue (limit c - activeCost c) (queue c)) \<noteq> None"
        then obtain e q where "dequeue (limit c - activeCost c) (queue c) = (Some e, q)"
          by (metis not_Some_eq prod.collapse)
        from dequeue_ids(3,4) [OF fq this] 2 show False by simp
      qed
      ultimately show ?thesis by simp
    qed
  qed
qed

lemma lanes_loop_queue: "core_ok c \<Longrightarrow> queue (lanes_loop env ks c) = queue c"
proof (induction ks arbitrary: c)
  case (Cons k ks)
  show ?case
  proof (cases "jget (lanes c) k")
    case None
    with Cons show ?thesis by simp
  next
    case (Some l)
    obtain stop q c1 where lp: "lane_loop env (lane_queue l) c = (stop, q, c1)" by (metis prod_cases3)
    let ?c = "c1\<lparr>lanes := jset k (l\<lparr>lane_queue := q\<rparr>) (lanes c1)\<rparr>"
    have "fq_inv (lane_queue l)"
      using lanes_ok_get [OF core_okD(6) [OF Cons.prems] Some] by (simp add: lane_ok_def)
    then have q: "queue c1 = queue c" using lane_loop_advances [OF Cons.prems _ lp] by (simp add: lane_advances_def)
    have "core_ok (removeEmptyLane k ?c)"
      by (rule advancesD(6) [OF removeEmptyLane_advances [OF advancesD(6) [OF lane_visit_advances [OF Cons.prems Some lp]]]])
    moreover have "queue (removeEmptyLane k ?c) = queue c" using q by (simp add: removeEmptyLane_def split: option.split)
    ultimately show ?thesis using Cons.IH Some lp q by (simp add: Let_def)
  qed
qed simp

lemma dispatch_quiescent: "core_ok c \<Longrightarrow> quiescent (dispatch env c)"
proof (cases "mode (config c) = Enforce \<and> \<not> shutDown c")
  case True
  assume c: "core_ok c"
  obtain fin c1 where d: "dispatch_loop env c = (fin, c1)" by force
  note q = dispatch_loop_quiescent [OF c d]
  have c1: "core_ok c1" using dispatch_loop_advances [OF c, of env] d advancesD(6) by fastforce
  show ?thesis
  proof (cases fin)
    case fin: True
    have "queue (dispatchLanes env c1) = queue c1" using lanes_loop_queue [OF c1] by (simp add: dispatchLanes_def)
    then have "qcount (queue (dispatchLanes env c1)) = 0" using q fin by simp
    then have "fst (dequeue b (queue (dispatchLanes env c1))) = None" for b by (simp add: dequeue_def)
    then show ?thesis using True d fin by (simp add: dispatch_def quiescent_def)
  next
    case False
    then show ?thesis using True d q by (simp add: dispatch_def quiescent_def)
  qed
next
  case False
  then show ?thesis by (auto simp: dispatch_def quiescent_def)
qed


lemma evictIdleLanes_frame [simp]:
  "config (evictIdleLanes env c) = config c" "adapt (evictIdleLanes env c) = adapt c"
  "queue (evictIdleLanes env c) = queue c" "shutDown (evictIdleLanes env c) = shutDown c"
  "activeCost (evictIdleLanes env c) = activeCost c"
proof -
  have "config (fold deleteLane ks c) = config c \<and> adapt (fold deleteLane ks c) = adapt c \<and>
    queue (fold deleteLane ks c) = queue c \<and> shutDown (fold deleteLane ks c) = shutDown c \<and>
    activeCost (fold deleteLane ks c) = activeCost c" for ks
    by (induction ks arbitrary: c) simp_all
  then show "config (evictIdleLanes env c) = config c" "adapt (evictIdleLanes env c) = adapt c"
    "queue (evictIdleLanes env c) = queue c" "shutDown (evictIdleLanes env c) = shutDown c"
    "activeCost (evictIdleLanes env c) = activeCost c"
    by (simp_all add: evictIdleLanes_def Let_def armLaneEviction_def clearLaneEviction_def)
qed

lemma dispatchVirtual_quiescent: "quiescent c \<Longrightarrow> quiescent (dispatchVirtual c)"
  using dispatchVirtual_frame [of c] by (simp add: quiescent_def)

lemma enqueueRequest_quiescent:
  assumes c: "core_ok c" and q: "quiescent c" and r: "enqueueRequest env rq k c = (res, c')"
  shows "quiescent c'"
  using c r
proof (cases rule: enqueueRequest_shape)
  case (threw err)
  then show ?thesis by (intro quiescent_cong [OF q]) simp_all
next
  case (full c2)
  then show ?thesis by (intro quiescent_cong [OF q]) (simp_all add: reject_def)
next
  case (queued e c2)
  note a = dispatch_advances [of c2 env]
  have "core_ok (arm_deadline (fresh_id c) (rq_signal rq) (dispatch env c2))"
    using queued(3) by (intro advancesD(6) [OF arm_deadline_advances] advancesD(6) [OF a]) (simp add: joins_def)
  from dispatch_quiescent [OF this] show ?thesis using queued(4) by simp
qed


lemma acquire_quiescent:
  assumes c: "core_ok c" and q: "quiescent c" and r: "acquire env rq c = (res, c')"
  shows "quiescent c'"
proof -
  have c1: "core_ok (hinted rq c)" by (rule advancesD(6) [OF hinted_advances [OF c]])
  have q1: "quiescent (hinted rq c)" by (rule quiescent_cong [OF q]) simp_all
  from c r show ?thesis
  proof (cases rule: acquire_shape)
    case (refused kk x)
    then show ?thesis by (intro quiescent_cong [OF q]) (auto simp: reject_def)
  next
    case (invalid err)
    then show ?thesis using q1 by simp
  next
    case (off k)
    then show ?thesis by (simp add: quiescent_def admitVirtual_def Let_def)
  next
    case (shadow k)
    then have "serves c c'" using acquire_serves [OF c r] by blast
    then show ?thesis using shadow(2) servesD(6) by (simp add: quiescent_def)
  next
    case (direct k l)
    then show ?thesis using admit_frame [OF direct(4)] by (intro quiescent_less [OF c q]) simp_all
  next
    case (wait k)
    then show ?thesis using enqueueRequest_quiescent [OF c1 q1] by blast
  qed
qed

lemma releaseLease_quiescent:
  assumes c: "core_ok c" and q: "quiescent c"
  shows "quiescent (releaseLease env i out meta c)"
proof (cases "jget (active c) i")
  case None
  then show ?thesis using q by (simp add: releaseLease_def)
next
  case (Some r)
  let ?c1 = "sampleIntegral env c"
  let ?c2 = "?c1\<lparr>active := jdel i (active ?c1), activeCost := activeCost ?c1 - lr_cost r,
    adapt := release_adapt env r out meta (adaptation (config ?c1)) (adapt ?c1)\<rparr>"
  note ok = advancesD(6) [OF sampleIntegral_advances [OF c, of env]]
  have "serves ?c1 ?c2" using Some by (intro release_step ok release_adapt_ok core_okD(2,7)) simp_all
  then have "core_ok (releaseVirtual i r ?c2)" by (rule advancesD(6) [OF releaseVirtual_advances [OF servesD(1)]])
  then show ?thesis unfolding releaseLease_eq [OF Some] Let_def by (rule dispatch_quiescent)
qed

text \<open>Expiry ends in a dispatch or changes nothing.\<close>

lemma expireEntry_quiescent:
  assumes c: "core_ok c" and q: "quiescent c"
  shows "quiescent (expireEntry env i code c)"
proof -
  consider "expireEntry env i code c = c" | x where "expireEntry env i code c = dispatch env x" "core_ok x"
  proof (cases "removeById i (queue c)")
    case (Pair x qq)
    show ?thesis
    proof (cases x)
      case (Some e)
      have "core_ok (failQueued e code (c\<lparr>queue := qq\<rparr>))"
        using removeById_ids(1) [OF core_okD(5) [OF c] Pair [unfolded Some]]
        by (intro settlesD(7) [OF failQueued_settles] core_ok_queue [OF c])
      then show ?thesis using that(2) Pair Some by (simp add: expireEntry_def)
    next
      case None
      show ?thesis
      proof (cases "expire_scan i (lanes c)")
        case n: None
        then show ?thesis using that(1) Pair None by (simp add: expireEntry_def)
      next
        case (Some y)
        obtain e k l where y: "y = (e, k, l)" by (metis prod_cases3)
        obtain m qm where g: "jget (lanes c) k = Some m" "removeById i (lane_queue m) = (Some e, qm)" "l = m\<lparr>lane_queue := qm\<rparr>"
          using expire_scan_Some [OF core_okD(6) [OF c] Some [unfolded y]] by blast
        have lo: "lane_ok k m" by (rule lanes_ok_get [OF core_okD(6) [OF c] g(1)])
        then have "lane_ok k l"
          using removeById_ids [of "lane_queue m" i e qm] g by (auto simp: lane_ok_def dest: mset_subset_eqD)
        then have "core_ok (failQueued e code (removeEmptyLane (tenantKey e) (c\<lparr>lanes := jset k l (lanes c)\<rparr>)))"
          by (intro settlesD(7) [OF failQueued_settles] advancesD(6) [OF removeEmptyLane_advances]
              core_ok_lanes [OF c] lanes_ok_jset core_okD(6) [OF c])
        then show ?thesis using that(2) Pair None Some y by (simp add: expireEntry_def)
      qed
    qed
  qed
  then show ?thesis using q dispatch_quiescent by cases simp_all
qed

lemma tick_quiescent:
  assumes c: "core_ok c"
  shows "quiescent (tick env c)"
proof -
  let ?c1 = "evictIdleLanes env (sampleIntegral env c)"
  note o = advancesD(6) [OF evictIdleLanes_advances [OF advancesD(6) [OF sampleIntegral_advances [OF c]]], of env env]
  have "core_ok (?c1\<lparr>adapt := closeAdaptationWindow (adapt ?c1) (adaptation (config ?c1)) (now env)\<rparr>)"
    by (rule servesD(1) [OF adapt_serves [OF o closeAdaptationWindow_ok [OF core_okD(7,2) [OF o]]]])
  from dispatchVirtual_quiescent [OF dispatch_quiescent [OF this]] show ?thesis by (simp add: tick_def Let_def)
qed

lemma observePressure_quiescent:
  assumes c: "core_ok c" and q: "quiescent c"
  shows "quiescent (observePressure env p c)"
proof -
  let ?c1 = "c\<lparr>adapt := setPressure (adapt c) p\<rparr>"
  have q1: "quiescent ?c1" by (rule quiescent_cong [OF q]) simp_all
  have c1: "core_ok ?c1" by (rule advancesD(6) [OF setPressure_advances [OF c]])
  show ?thesis
  proof (cases "p = PCritical \<and> \<not> criticalDecreaseConsumed (adapt ?c1)")
    case True
    then have "core_ok (?c1\<lparr>adapt := (adapt ?c1)\<lparr>currentLimit := max (minLimit (config ?c1))
        \<lfloor>of_int (limit ?c1) * criticalDecreaseFactor (adaptation (config ?c1))\<rfloor>, criticalDecreaseConsumed := True\<rparr>\<rparr>)"
      using critical_limit_ok [OF c1] by (intro servesD(1) [OF adapt_serves [OF c1]]) simp_all
    from dispatchVirtual_quiescent [OF dispatch_quiescent [OF this]] True
    show ?thesis by (auto simp: observePressure_def Let_def)
  next
    case False
    then have "observePressure env p c = ?c1" by (auto simp: observePressure_def Let_def)
    then show ?thesis using q1 by simp
  qed
qed

lemma updateConfig_quiescent:
  assumes c: "core_ok c" and u: "updateConfig env inp c = Inr c'"
  shows "quiescent c'"
proof (cases "mode (config c') = Enforce")
  case True
  then obtain x where "c' = dispatch env x" "core_ok x" using updateConfig_inv(9) [OF c u] by blast
  then show ?thesis using dispatch_quiescent by blast
qed (simp add: quiescent_def)

lemma handle_quiescent:
  assumes c: "core_ok c" and q: "quiescent c"
  shows "quiescent (handle env ev c)"
proof (cases ev)
  case (Acquire rq)
  then show ?thesis using acquire_quiescent [OF c q, of env rq] by (metis handle.simps(1) prod.exhaust_sel)
next
  case (Deadline_timer i)
  have "core_ok (clearEntryTimer i c)" unfolding clearEntryTimer_def by (rule advancesD(6) [OF timers_advances(1) [OF c]])
  moreover have "quiescent (clearEntryTimer i c)" by (rule quiescent_cong [OF q]) (simp_all add: clearEntryTimer_def)
  ultimately show ?thesis using Deadline_timer expireEntry_quiescent by simp
next
  case (Abort_signal i)
  have "core_ok (detachAbort i c)" unfolding detachAbort_def by (rule advancesD(6) [OF timers_advances(2) [OF c]])
  moreover have "quiescent (detachAbort i c)" by (rule quiescent_cong [OF q]) (simp_all add: detachAbort_def)
  ultimately show ?thesis using Abort_signal expireEntry_quiescent by simp
next
  case Lane_timer
  then show ?thesis by (intro quiescent_cong [OF q]) (simp_all add: clearLaneEviction_def)
next
  case Snapshot
  then show ?thesis by (intro quiescent_cong [OF q]) (simp_all add: snapshot_def Let_def)
next
  case Window_timer
  let ?c0 = "c\<lparr>timers := removeAll WindowTick (timers c)\<rparr>"
  have "quiescent (tick env ?c0)" by (rule tick_quiescent [OF advancesD(6) [OF timers_advances(1) [OF c]]])
  then show ?thesis using Window_timer by (simp add: window_fired_def Let_def quiescent_def)
next
  case Shutdown
  then show ?thesis using servesD(7) [OF shutdown_serves [OF c]] by (auto simp: quiescent_def shutdown_def Let_def clearLaneEviction_def)
next
  case (Reconfigure inp)
  then show ?thesis using updateConfig_quiescent [OF c] q by (auto split: sum.split)
qed (simp_all add: c q releaseLease_quiescent observePressure_quiescent tick_quiescent)


section \<open>A concrete controller for the witnesses\<close>

text \<open>Enforce mode, limit 10 of at most 20; the clock stands at \<open>t\<close> and no signal is aborted.\<close>

definition quiet :: "int \<Rightarrow> env" where
  "quiet t = \<lparr>now = t, aborted = (\<lambda>_. False)\<rparr>"

definition demo :: controller where
  "demo = armWindowTimer
     \<lparr>config = sample_config, adapt = createAdaptationState 10 1 20 0, queue = new_queue 4 40,
      virtualQueue = new_queue 4 40, lanes = [], active = [], activeCost = 0, virtualActiveCost = 0,
      virtualActiveCount = 0, lastSampleMs = 0, shutDown = False, admittedCount = 0, rejectedCount = 0,
      wouldAdmitCount = 0, wouldQueueCount = 0, wouldRejectCount = 0, leaseSeq = 0, timers = [], listeners = [],
      settled = []\<rparr>"

definition ask :: "int \<Rightarrow> admission_request" where
  "ask k = \<lparr>rq_cost = js_int k, rq_features = None, rq_tenantKey = None, rq_maxWaitMs = Undefined, rq_signal = None,
     rq_pressure = None\<rparr>"

definition no_meta :: release_meta where
  "no_meta = \<lparr>rm_latencyMs = None, rm_pressure = None\<rparr>"

lemma demo_new: "new_controller (quiet 0) sample_input = Inr demo"
  using sample_validates by (simp add: new_controller_def demo_def quiet_def sample_config_def)

lemma demo_step: "enabled ev c \<Longrightarrow> c' = handle env ev c \<Longrightarrow> ctl_step ev c c'"
  by (simp add: ctl_step.intros)

text \<open>First a request of cost 8 is admitted, then one of cost 5 has to wait.\<close>

definition demo1 :: controller where
  "demo1 = snd (acquire (quiet 0) (ask 8) demo)"

definition demo2 :: controller where
  "demo2 = snd (acquire (quiet 0) (ask 5) demo1)"

lemma demo1_res: "fst (acquire (quiet 0) (ask 8) demo) = RAdmitted (Lease 1) 8 None"
  by code_simp

lemma demo2_res: "fst (acquire (quiet 0) (ask 5) demo1) = RQueued (Waiter 2)"
  by code_simp


lemma demo_reach: "reaches steady_step demo demo1" "reaches steady_step demo demo2"
proof -
  have a: "steady_step (Acquire (ask 8)) demo demo1"
    by (intro steady_event demo_step [where env = "quiet 0"]) (simp_all add: demo1_def)
  have b: "steady_step (Acquire (ask 5)) demo1 demo2"
    by (intro steady_event demo_step [where env = "quiet 0"]) (simp_all add: demo2_def)
  show "reaches steady_step demo demo1" using a by (rule reaches_one)
  then show "reaches steady_step demo demo2" using b by (rule reaches_more)
qed

lemma steady_ctl: "reaches steady_step a b \<Longrightarrow> reaches ctl_step a b"
  by (erule reaches_mono) (auto elim: steady_stepE)

section \<open>Properties\<close>

subsection \<open>The budget\<close>

interpretation steady: step_system steady_step
  "\<lambda>c. ctl_inv c \<and> config c = cfg \<and> (mode cfg = Enforce \<longrightarrow> activeCost c \<le> maxLimit cfg)" for cfg
proof
  fix ev c c'
  assume st: "steady_step ev c c'" and i: "ctl_inv c \<and> config c = cfg \<and> (mode cfg = Enforce \<longrightarrow> activeCost c \<le> maxLimit cfg)"
  obtain env where c': "c' = handle env ev c" and ev: "\<And>inp. ev \<noteq> Reconfigure inp"
    using st by (auto elim!: steady_stepE ctl_stepE)
  have "core_ok c" using i by (simp add: ctl_inv_def)
  then have s: "serves c c'" unfolding c' by (rule handle_serves [OF _ ev])
  have "mode cfg = Enforce \<longrightarrow> activeCost c' \<le> maxLimit cfg"
    using servesD(5,6) [OF s] i by auto
  moreover have "ctl_inv c'" unfolding c' using i by (intro handle_inv) blast
  ultimately show "ctl_inv c' \<and> config c' = cfg \<and> (mode cfg = Enforce \<longrightarrow> activeCost c' \<le> maxLimit cfg)"
    using servesD(6) [OF s] i by simp
qed

text \<open>
  C1. Enforcement. In every history of a controller in enforce mode whose configuration is not
  changed, the summed cost of the unreleased leases is what the controller accounts for and never
  exceeds \<^verbatim>\<open>maxLimit\<close>, and the adaptive limit stays between \<^verbatim>\<open>minLimit\<close> and \<^verbatim>\<open>maxLimit\<close>. The solo
  admission of an oversized request is included.
\<close>

theorem enforce_budget:
  assumes new: "new_controller env inp = Inr c0" and enf: "mode (config c0) = Enforce"
    and run: "reaches steady_step c0 c"
  shows "active_total (active c) = activeCost c \<and> activeCost c \<le> maxLimit (config c0) \<and>
    minLimit (config c0) \<le> limit c \<and> limit c \<le> maxLimit (config c0)"
proof -
  note n = new_controller_inv [OF new]
  have "config_ok (config c0)" by (rule validated_config_ok [OF n(2)])
  then have "activeCost c0 \<le> maxLimit (config c0)" using n(4) by (simp add: config_ok_def)
  then have i: "ctl_inv c \<and> config c = config c0 \<and> activeCost c \<le> maxLimit (config c0)"
    using steady.reaches_inv [OF run] n(1) enf by blast
  then have c: "core_ok c" by (simp add: ctl_inv_def)
  show ?thesis using i core_okD(4) [OF c] core_limits(1,2) [OF c] by simp
qed

theorem enforce_budget_witness:
  "new_controller (quiet 0) sample_input = Inr demo \<and> reaches steady_step demo demo2 \<and>
   activeCost demo2 = 8 \<and> activeCost demo2 \<le> maxLimit (config demo)"
proof -
  have "mode (config demo) = Enforce" "activeCost demo2 = 8" by code_simp+
  then show ?thesis using demo_new demo_reach(2) enforce_budget [OF demo_new _ demo_reach(2)] by blast
qed

text \<open>
  Reconfiguration cannot break the budget either: whatever event happens in any reachable state,
  if the controller is in enforce mode afterwards, the active cost is at most the larger of what it
  was and the (new) \<^verbatim>\<open>maxLimit\<close>; an overshoot left by another mode can only be worked off.
\<close>

theorem budget_never_widened:
  assumes "new_controller env inp = Inr c0" "reaches ctl_step c0 c" "ctl_step ev c c'" "mode (config c') = Enforce"
  shows "activeCost c' \<le> max (activeCost c) (maxLimit (config c'))"
proof -
  have "core_ok c" using ctl.reaches_inv [OF assms(2)] new_controller_inv(1) [OF assms(1)] by (simp add: ctl_inv_def)
  then show ?thesis using assms(3,4) handle_tracked(5) by (auto elim!: ctl_stepE)
qed

theorem budget_never_widened_witness:
  "ctl_step (Acquire (ask 5)) demo1 demo2 \<and> mode (config demo2) = Enforce \<and>
   activeCost demo2 \<le> max (activeCost demo1) (maxLimit (config demo2))"
proof -
  have "ctl_step (Acquire (ask 5)) demo1 demo2"
    by (rule demo_step [where env = "quiet 0"]) (simp_all add: demo2_def)
  moreover have "mode (config demo2) = Enforce" by code_simp
  ultimately show ?thesis using budget_never_widened [OF demo_new steady_ctl [OF demo_reach(1)]] by blast
qed

subsection \<open>Waiters\<close>

lemma reach_inv:
  assumes "new_controller env inp = Inr c0" "reaches ctl_step c0 c"
  shows "ctl_inv c" "core_ok c" "ids_ok c"
  using ctl.reaches_inv [OF assms(2)] new_controller_inv(1) [OF assms(1)] by (simp_all add: ctl_inv_def)

text \<open>
  C2. Every queued request is answered at most once and never forgotten: after \<^verbatim>\<open>acquire\<close> has returned
  a promise for waiter \<open>i\<close>, in every later state the waiter is either still waiting in exactly one
  queue or its promise has been settled exactly once, whatever mix of releases, timeouts, aborts,
  lane evictions, reconfigurations and shutdown has happened.
\<close>

theorem settled_exactly_once:
  assumes new: "new_controller env0 inp = Inr c0" and run: "reaches ctl_step c0 c"
    and acq: "acquire env rq c = (RQueued i, c1)" and later: "reaches ctl_step c1 c2"
  shows "count (waiting c2) i + count (mset (map fst (settled c2))) i = 1"
proof -
  note I = reach_inv [OF new run]
  have "tracked c1 = add_mset i (tracked c)" using acquire_serves [OF I(2) acq] by blast
  moreover have c1: "ctl_inv c1" using handle_inv [OF I(1), of env "Acquire rq"] acq by simp
  then have "tracked c1 \<subseteq># tracked c2" using ctl.reaches_le [OF later] by (simp add: history_le_def)
  ultimately have "i \<in># tracked c2" by (metis mset_subset_eqD union_single_eq_member)
  moreover have "count (tracked c2) i \<le> 1" using ctl.reaches_inv [OF later c1] by (simp add: ctl_inv_def ids_ok_def)
  ultimately have "count (tracked c2) i = 1"
    using count_greater_zero_iff [of "tracked c2" i] by linarith
  then show ?thesis by (simp add: tracked_def)
qed

definition demo3 :: controller where
  "demo3 = releaseLease (quiet 30) (Lease 1) Success no_meta demo2"

lemma demo2_demo3: "reaches ctl_step demo2 demo3"
  by (rule reaches_one, rule demo_step [where env = "quiet 30" and ev = "Release (Lease 1) Success no_meta"])
    (simp_all add: demo3_def)

theorem settled_exactly_once_witness:
  "acquire (quiet 0) (ask 5) demo1 = (RQueued (Waiter 2), demo2) \<and> waiting demo2 = {#Waiter 2#} \<and>
   settled demo3 = [(Waiter 2, Resolved (Lease 3) 5)] \<and>
   count (waiting demo3) (Waiter 2) + count (mset (map fst (settled demo3))) (Waiter 2) = 1"
proof -
  have a: "acquire (quiet 0) (ask 5) demo1 = (RQueued (Waiter 2), demo2)"
    using demo2_res by (simp add: demo2_def prod_eq_iff)
  have "waiting demo2 = {#Waiter 2#}" "settled demo3 = [(Waiter 2, Resolved (Lease 3) 5)]" by code_simp+
  then show ?thesis
    using a settled_exactly_once [OF demo_new steady_ctl [OF demo_reach(1)] a demo2_demo3] by blast
qed

interpretation quiescence: step_system ctl_step "\<lambda>c. ctl_inv c \<and> quiescent c"
  using handle_inv handle_quiescent by unfold_locales (auto simp: ctl_inv_def elim!: ctl_stepE)

text \<open>
  C3. No waiter is stranded: in every reachable state of a controller in enforce mode that is not shut
  down, the shared queue has no entry that the dispatcher would admit with the free budget. Every
  event that can free capacity or raise the limit is followed by a dispatch that runs to the end.
\<close>

theorem no_stranded_waiter:
  assumes new: "new_controller env inp = Inr c0" and run: "reaches ctl_step c0 c"
    and enf: "mode (config c) = Enforce" "\<not> shutDown c"
  shows "fst (dequeue (limit c - activeCost c) (queue c)) = None"
proof -
  have q0: "quiescent c0"
    using new by (auto simp: new_controller_def quiescent_def dequeue_def new_queue_def)
  have "ctl_inv c \<and> quiescent c"
    using quiescence.reaches_inv [OF run] q0 new_controller_inv(1) [OF new] by blast
  then show ?thesis using enf by (simp add: quiescent_def)
qed

theorem no_stranded_waiter_witness:
  "qcount (queue demo2) = 1 \<and> limit demo2 - activeCost demo2 = 2 \<and> fst (dequeue 2 (queue demo2)) = None"
proof -
  have "qcount (queue demo2) = 1" "limit demo2 - activeCost demo2 = 2" "mode (config demo2) = Enforce" "\<not> shutDown demo2"
    by code_simp+
  then show ?thesis using no_stranded_waiter [OF demo_new steady_ctl [OF demo_reach(2)]] by simp
qed

subsection \<open>Leases\<close>

lemma releaseLease_gone:
  assumes c: "core_ok c" and i: "jget (active c) i = Some r"
  shows "i \<notin> set (jkeys (active (releaseLease env i out meta c)))" "\<exists>n \<le> leaseSeq (releaseLease env i out meta c). i = Lease n"
    "activeCost (releaseLease env i out meta c) \<le> max (activeCost c - lr_cost r) (limit c)"
proof -
  let ?c1 = "sampleIntegral env c"
  let ?c2 = "?c1\<lparr>active := jdel i (active ?c1), activeCost := activeCost ?c1 - lr_cost r,
    adapt := release_adapt env r out meta (adaptation (config ?c1)) (adapt ?c1)\<rparr>"
  let ?c' = "releaseLease env i out meta c"
  note ok = advancesD(6) [OF sampleIntegral_advances [OF c, of env]]
  have "serves ?c1 ?c2" using i by (intro release_step ok release_adapt_ok core_okD(2,7)) simp_all
  note v = releaseVirtual_advances [OF servesD(1) [OF this], of i r]
  have a: "advances ?c2 ?c'"
    unfolding releaseLease_eq [OF i] Let_def by (rule advances_trans [OF v dispatch_advances [OF advancesD(6) [OF v]]])
  obtain n where n: "n \<le> leaseSeq c" "i = Lease n" using core_okD(8) [OF c] jget_SomeD [OF i] by blast
  have "i \<in> set (jkeys (active ?c2)) \<or> (\<exists>n > leaseSeq ?c2. i = Lease n)" if "i \<in> set (jkeys (active ?c'))"
    using advancesD(9) [OF a] that unfolding active_grows_def by blast
  then show "i \<notin> set (jkeys (active ?c'))" using n by auto
  show "\<exists>n \<le> leaseSeq ?c'. i = Lease n" using n advancesD(4) [OF a] by auto
  have "currentLimit (release_adapt env r out meta p st) = currentLimit st" for p st
    by (simp add: release_adapt_def Let_def split: option.split)
  then show "activeCost ?c' \<le> max (activeCost c - lr_cost r) (limit c)" using advancesD(7) [OF a] by simp
qed

text \<open>
  C4. Releasing a lease returns its cost before anything else is admitted, and is final: in every
  later state the lease is not active, and releasing it again changes nothing.
\<close>

theorem release_frees_once:
  assumes new: "new_controller env0 inp = Inr c0" and run: "reaches ctl_step c0 c"
    and act: "jget (active c) i = Some r" and later: "reaches ctl_step (releaseLease env i out meta c) c'"
  shows "activeCost (releaseLease env i out meta c) \<le> max (activeCost c - lr_cost r) (limit c) \<and>
    jget (active c') i = None \<and> releaseLease env' i out' meta' c' = c'"
proof -
  note I = reach_inv [OF new run]
  let ?c1 = "releaseLease env i out meta c"
  have "ctl_inv ?c1" using handle_inv [OF I(1), of env "Release i out meta"] by simp
  then have "active_grows ?c1 c'" using ctl.reaches_le [OF later] by (simp add: history_le_def)
  then have a: "i \<in> set (jkeys (active ?c1)) \<or> (\<exists>n > leaseSeq ?c1. i = Lease n)" if "i \<in> set (jkeys (active c'))"
    using that unfolding active_grows_def by blast
  note g = releaseLease_gone [OF I(2) act, of env out meta]
  obtain n where n: "n \<le> leaseSeq ?c1" "i = Lease n" using g(2) by blast
  have "i \<notin> set (jkeys (active c'))"
  proof
    assume "i \<in> set (jkeys (active c'))"
    from a [OF this] g(1) obtain m where "m > leaseSeq ?c1" "i = Lease m" by blast
    with n show False by simp
  qed
  then have "jget (active c') i = None" by (simp only: jget_None not_False_eq_True)
  then show ?thesis using g(3) by (simp add: releaseLease_def)
qed

theorem release_frees_once_witness:
  "jget (active demo2) (Lease 1) = Some \<lparr>lr_cost = 8, lr_admittedAtMs = 0, lr_virtual = VNone\<rparr> \<and>
   activeCost demo3 = 5 \<and> releaseLease (quiet 40) (Lease 1) Timeout no_meta demo3 = demo3"
proof -
  have a: "jget (active demo2) (Lease 1) = Some \<lparr>lr_cost = 8, lr_admittedAtMs = 0, lr_virtual = VNone\<rparr>"
    and b: "activeCost demo3 = 5" by code_simp+
  have "reaches ctl_step (releaseLease (quiet 30) (Lease 1) Success no_meta demo2) demo3"
    unfolding demo3_def by (rule reaches_start)
  from release_frees_once [OF demo_new steady_ctl [OF demo_reach(2)] a this] a b show ?thesis by blast
qed

subsection \<open>Shutdown\<close>

text \<open>
  C5. Shutdown is complete and final: every waiter is rejected with the shutdown code, nobody ever
  waits again, and each later \<^verbatim>\<open>acquire\<close> is refused with that code.
\<close>

theorem shutdown_final:
  assumes new: "new_controller env0 inp = Inr c0" and run: "reaches ctl_step c0 c" and up: "\<not> shutDown c"
    and later: "reaches ctl_step (shutdown c) c'"
  shows "waiting c' = {#} \<and> (\<forall>i \<in># waiting c. (i, Rejected ADMISSION_SHUTDOWN) \<in> set (settled c')) \<and>
    fst (acquire env rq c') = RRejected ADMISSION_SHUTDOWN"
proof -
  note I = reach_inv [OF new run]
  let ?c1 = "shutdown c" and ?es = "fst (drain (queue c)) @ drain_lanes (lanes c)"
  have "ctl_inv ?c1" using handle_inv [OF I(1), of env Shutdown] by simp
  then have h: "history_le ?c1 c'" by (rule ctl.reaches_le [OF later])
  note d = drain_ids [OF core_okD(5) [OF I(2)]]
  have f: "shutDown ?c1" "waiting ?c1 = {#}"
    "settled ?c1 = settled c @ map (\<lambda>e. (entry_id e, Rejected ADMISSION_SHUTDOWN)) ?es"
    using up d(2) by (simp_all add: shutdown_def Let_def clearLaneEviction_def waiting_def)
  obtain ss where ss: "settled c' = settled ?c1 @ ss" using h by (auto simp: history_le_def)
  have t: "tracked c' = tracked ?c1" and sd: "shutDown c'" using h f(1) by (simp_all add: history_le_def)
  have "waiting c' + mset (map fst ss) = {#}" using t ss f(2) by (simp add: tracked_def)
  then have "waiting c' = {#}" by simp
  moreover have "(i, Rejected ADMISSION_SHUTDOWN) \<in> set (settled c')" if "i \<in># waiting c" for i
  proof -
    have "mset (map entry_id ?es) = waiting c"
      using d(1) drain_lanes_ids [OF core_okD(6) [OF I(2)]] by (simp add: waiting_def)
    then have "i \<in> set (map entry_id ?es)" using that by (metis set_mset_mset)
    then show ?thesis unfolding ss f(3) by auto
  qed
  moreover have "fst (acquire env rq c') = RRejected ADMISSION_SHUTDOWN" using sd by (simp add: acquire_def reject_def)
  ultimately show ?thesis by blast
qed

theorem shutdown_final_witness:
  "waiting demo2 = {#Waiter 2#} \<and> waiting (shutdown demo2) = {#} \<and>
   (Waiter 2, Rejected ADMISSION_SHUTDOWN) \<in> set (settled (shutdown demo2)) \<and>
   fst (acquire (quiet 9) (ask 1) (shutdown demo2)) = RRejected ADMISSION_SHUTDOWN"
proof -
  have w: "waiting demo2 = {#Waiter 2#}" and "\<not> shutDown demo2" by code_simp+
  then show ?thesis
    using shutdown_final [OF demo_new steady_ctl [OF demo_reach(2)] _ reaches_start, of "quiet 9" "ask 1"] by simp
qed

subsection \<open>Progress and observation\<close>

text \<open>
  Solo progress. However far the adaptive limit has collapsed, an idle controller under normal
  pressure admits any request within \<^verbatim>\<open>maxLimit\<close>: a request is never refused as oversized, or queued
  for ever, because of earlier decreases alone.
\<close>

theorem solo_progress:
  assumes new: "new_controller env0 inp = Inr c0" and run: "reaches ctl_step c0 c"
    and live: "\<not> shutDown c" "mode (config c) = Enforce" "\<not> signal_aborted env (rq_signal rq)"
    and idle: "active c = []" "qcount (queue c) = 0" "laneTotalQueuedCount c = 0"
    and calm: "pressure (adapt c) = PNormal" "rq_pressure rq = None"
    and k: "resolveCost rq c = Inr k" "k \<le> maxLimit (config c)"
  shows "fst (acquire env rq c) = RAdmitted (Lease (leaseSeq c + 1)) k None"
proof -
  have h: "hinted rq c = c" using calm(2) by (simp add: hinted_def)
  have "activeCost c = 0" using core_okD(4) [OF reach_inv(2) [OF new run]] idle(1) by simp
  moreover obtain l c' where a: "admit env k VNone c = (l, c')" by force
  moreover have "l = Lease (leaseSeq c + 1)" by (rule admit_frame(8) [OF a])
  ultimately show ?thesis
    using acquire_live [of c env rq k] live idle calm(1) k h by (simp add: shouldAdmitSolo_def)
qed

text \<open>One critical signal halves the limit of the fresh controller to 5; a request of cost 12 still passes.\<close>

definition demo_low :: controller where
  "demo_low = tick (quiet 1000) (observePressure (quiet 0) PCritical demo)"

lemma demo_low_reach: "reaches ctl_step demo demo_low"
proof -
  have "ctl_step (Observe PCritical) demo (observePressure (quiet 0) PCritical demo)"
    by (rule demo_step [where env = "quiet 0"]) simp_all
  moreover have "ctl_step Tick (observePressure (quiet 0) PCritical demo) demo_low"
    by (rule demo_step [where env = "quiet 1000"]) (simp_all add: demo_low_def)
  ultimately show ?thesis using reaches_one reaches_more by metis
qed

theorem solo_progress_witness:
  "limit demo_low = 5 \<and> fst (acquire (quiet 1000) (ask 12) demo_low) = RAdmitted (Lease 1) 12 None"
proof -
  have "limit demo_low = 5" "leaseSeq demo_low = 0" "\<not> shutDown demo_low" "mode (config demo_low) = Enforce"
    "\<not> signal_aborted (quiet 1000) (rq_signal (ask 12))" "active demo_low = []" "qcount (queue demo_low) = 0"
    "laneTotalQueuedCount demo_low = 0" "pressure (adapt demo_low) = PNormal" "rq_pressure (ask 12) = None"
    "resolveCost (ask 12) demo_low = Inr 12" "12 \<le> maxLimit (config demo_low)"
    by code_simp+
  then show ?thesis using solo_progress [OF demo_new demo_low_reach, of "quiet 1000" "ask 12" 12] by simp
qed

text \<open>
  Shadow mode only observes: a well-formed request is always admitted at once with its full cost
  and a verdict on what enforcement would have done, and nothing is ever queued or rejected.
\<close>

theorem shadow_only_observes:
  assumes "\<not> shutDown c" "mode (config c) = Shadow" "\<not> signal_aborted env (rq_signal rq)"
    and "resolveCost rq (hinted rq c) = Inr k" "acquire env rq c = (res, c')"
  shows "\<exists>v. res = RAdmitted (Lease (leaseSeq c + 1)) k (Some v) \<and> activeCost c' = activeCost c + k \<and>
    waiting c' = waiting c \<and> rejectedCount c' = rejectedCount c"
proof -
  let ?c1 = "hinted rq c"
  obtain v d c2 where v: "shadow_verdict k ?c1 = (v, d, c2)" by (metis prod_cases3)
  obtain l c3 where a: "admit env k d c2 = (l, c3)" by force
  have f: "leaseSeq c2 = leaseSeq c" "activeCost c2 = activeCost c" "queue c2 = queue c" "lanes c2 = lanes c"
    "rejectedCount c2 = rejectedCount c"
    using v by (auto simp: shadow_verdict_def hinted_def split: if_splits option.splits)
  note g = admit_frame [OF a]
  have "(res, c') = acquireShadow env rq k ?c1"
    using acquire_live [OF assms(1,3,4)] assms(2,5) by simp
  then show ?thesis using f g by (auto simp: acquireShadow_def v a waiting_def)
qed

definition demo_shadow :: controller where
  "demo_shadow = demo\<lparr>config := sample_config\<lparr>mode := Shadow\<rparr>\<rparr>"

theorem shadow_only_observes_witness:
  "\<exists>v. fst (acquire (quiet 0) (ask 15) demo_shadow) = RAdmitted (Lease 1) 15 (Some v)"
proof -
  have c: "\<not> shutDown demo_shadow" "mode (config demo_shadow) = Shadow" "\<not> signal_aborted (quiet 0) (rq_signal (ask 15))"
    "resolveCost (ask 15) (hinted (ask 15) demo_shadow) = Inr 15" "leaseSeq demo_shadow = 0"
    by code_simp+
  show ?thesis using shadow_only_observes [OF c(1-4) surjective_pairing] c(5) by auto
qed

end
