(* ===== verification/Circuit_Breaker.thy ===== *)
theory Circuit_Breaker
  imports Js_Prelude Step_Systems
begin

text \<open>
  The circuit breaker of \<^verbatim>\<open>src/shared/utils/circuitBreaker.ts\<close>: the class \<^verbatim>\<open>CircuitBreaker\<close> with its
  four states, adaptive backoff, per-kind thresholds and half-open probes, and the bounded registry of
  breakers.

  \<^verbatim>\<open>execute\<close> awaits the caller's function, so it is split at the \<^verbatim>\<open>await\<close>: \<open>execute_start\<close> runs up to
  it and hands out the probe generation it has read, \<open>execute_resolved\<close> and \<open>execute_rejected\<close> run
  after it. The predicates \<^verbatim>\<open>isFailure\<close>, \<^verbatim>\<open>classifyError\<close> and \<^verbatim>\<open>classifyResult\<close> of the caller enter
  with the value they return for the outcome at hand. The field \<open>row\<close> is the breaker's row in the
  database table; a write to it is assumed to succeed, as the code ignores failures. \<open>notices\<close> is the
  log of \<^verbatim>\<open>onStateChange\<close> callbacks.
\<close>

section \<open>State\<close>

datatype circuit_state = CLOSED | DEGRADED | OPEN | HALF_OPEN

datatype failure_kind = Rate_limit | Quota_exhausted | Transient

datatype result_outcome = Result_success | Result_failure | Result_ignore

datatype transition_reason =
    Manual_reset | Success_recovery | Probe_success | Recovery | Probe_failed int
  | Kind_opened failure_kind | No_reason | Elevated_failures int int | Timeout_elapsed

record kind_threshold =
  kt_threshold :: "int option"
  kt_immediateOpen :: bool

record transition_record =
  tr_from :: circuit_state
  tr_to :: circuit_state
  tr_timestamp :: int
  tr_failureCount :: int
  tr_reason :: transition_reason

record cb_row =
  row_state :: circuit_state
  row_failureCount :: int
  row_lastFailureTime :: "int option"
  row_lastFailureKind :: "failure_kind option"
  row_openCycleCount :: int
  row_kindFailureCounts :: "(failure_kind, int) jmap"

record breaker =
  cb_name :: string
  failureThreshold :: int
  resetTimeout :: int
  halfOpenRequests :: int
  cb_state :: circuit_state
  failureCount :: int
  successCount :: int
  lastFailureTime :: "int option"
  halfOpenAllowed :: int
  halfOpenProbeStartedAt :: "int option"
  halfOpenProbeGeneration :: nat
  cooldownByKind :: "failure_kind \<Rightarrow> js_val"
  lastFailureKind :: "failure_kind option"
  kindThresholds :: "failure_kind \<Rightarrow> kind_threshold option"
  degradationThreshold :: int
  maxBackoffMultiplier :: int
  backoffEscalationCount :: int
  kindFailureCounts :: "(failure_kind, int) jmap"
  openCycleCount :: int
  transitionHistory :: "transition_record list"
  row :: "cb_row option"
  notices :: "(circuit_state \<times> circuit_state) list"

definition maxTransitionHistory :: nat where
  "maxTransitionHistory = 20"

record breaker_options =
  o_failureThreshold :: "int option"
  o_resetTimeout :: "int option"
  o_halfOpenRequests :: "int option"
  o_cooldownByKind :: "failure_kind \<Rightarrow> js_val"
  o_kindThresholds :: "failure_kind \<Rightarrow> kind_threshold option"
  o_degradationThreshold :: "int option"
  o_maxBackoffMultiplier :: "int option"
  o_backoffEscalationCount :: "int option"

section \<open>Persistence\<close>

text \<open>The table stores \<^verbatim>\<open>lastFailureTime\<close> as a number and reads a zero back as \<^verbatim>\<open>null\<close>.\<close>

definition persistToDb :: "breaker \<Rightarrow> breaker" where
  "persistToDb b = b\<lparr>row := Some \<lparr>row_state = cb_state b, row_failureCount = failureCount b,
     row_lastFailureTime = lastFailureTime b, row_lastFailureKind = lastFailureKind b,
     row_openCycleCount = openCycleCount b, row_kindFailureCounts = kindFailureCounts b\<rparr>\<rparr>"

definition restoreFromDb :: "breaker \<Rightarrow> breaker" where
  "restoreFromDb b =
     (case row b of
        None \<Rightarrow> b
      | Some r \<Rightarrow>
          (let b1 = b\<lparr>cb_state := row_state r, failureCount := row_failureCount r,
                lastFailureTime := (if row_lastFailureTime r = Some 0 then None else row_lastFailureTime r),
                lastFailureKind := (case row_lastFailureKind r of Some k \<Rightarrow> Some k | None \<Rightarrow> lastFailureKind b),
                openCycleCount := row_openCycleCount r, kindFailureCounts := row_kindFailureCounts r\<rparr>
           in if cb_state b1 = HALF_OPEN then b1\<lparr>halfOpenAllowed := halfOpenRequests b1\<rparr> else b1))"

definition or_default :: "'a option \<Rightarrow> 'a \<Rightarrow> 'a" where
  "or_default x d = (case x of Some v \<Rightarrow> v | None \<Rightarrow> d)"

definition new_breaker :: "string \<Rightarrow> breaker_options \<Rightarrow> cb_row option \<Rightarrow> breaker" where
  "new_breaker nm opts saved =
     (let ft = or_default (o_failureThreshold opts) 5 in
      restoreFromDb
        \<lparr>cb_name = nm, failureThreshold = ft, resetTimeout = or_default (o_resetTimeout opts) 30000,
         halfOpenRequests = or_default (o_halfOpenRequests opts) 1, cb_state = CLOSED, failureCount = 0,
         successCount = 0, lastFailureTime = None, halfOpenAllowed = 0, halfOpenProbeStartedAt = None,
         halfOpenProbeGeneration = 0, cooldownByKind = o_cooldownByKind opts, lastFailureKind = None,
         kindThresholds = o_kindThresholds opts,
         degradationThreshold = or_default (o_degradationThreshold opts) \<lceil>of_int (ft * 60) / (100 :: rat)\<rceil>,
         maxBackoffMultiplier = or_default (o_maxBackoffMultiplier opts) 16,
         backoffEscalationCount = or_default (o_backoffEscalationCount opts) 3,
         kindFailureCounts = [], openCycleCount = 0, transitionHistory = [], row = saved, notices = []\<rparr>)"

section \<open>Timing\<close>

definition escalate :: "breaker \<Rightarrow> rat \<Rightarrow> rat" where
  "escalate b base =
     (if openCycleCount b \<le> backoffEscalationCount b then base
      else min (base * 2 ^ nat (openCycleCount b - backoffEscalationCount b))
             (base * of_int (maxBackoffMultiplier b)))"

definition effectiveResetTimeout :: "breaker \<Rightarrow> rat" where
  "effectiveResetTimeout b = escalate b (of_int (resetTimeout b))"

definition effectiveCooldown :: "breaker \<Rightarrow> rat" where
  "effectiveCooldown b =
     (case lastFailureKind b of
        Some k \<Rightarrow>
          (case cooldownByKind b k of
             Num (Fin q) \<Rightarrow> if q \<ge> 0 then escalate b q else effectiveResetTimeout b
           | _ \<Rightarrow> effectiveResetTimeout b)
      | None \<Rightarrow> effectiveResetTimeout b)"

text \<open>\<^verbatim>\<open>!this.lastFailureTime\<close>: absent, or the falsy zero.\<close>

definition failure_time :: "breaker \<Rightarrow> int option" where
  "failure_time b = (if lastFailureTime b = Some 0 then None else lastFailureTime b)"

definition shouldAttemptReset :: "int \<Rightarrow> breaker \<Rightarrow> bool" where
  "shouldAttemptReset now b =
     (case failure_time b of None \<Rightarrow> True | Some t \<Rightarrow> of_int (now - t) \<ge> effectiveCooldown b)"

definition timeUntilReset :: "int \<Rightarrow> breaker \<Rightarrow> rat" where
  "timeUntilReset now b =
     (case (cb_state b, halfOpenProbeStartedAt b) of
        (HALF_OPEN, Some t) \<Rightarrow> max 0 (of_int (resetTimeout b - (now - t)))
      | _ \<Rightarrow> (case failure_time b of None \<Rightarrow> 0 | Some t \<Rightarrow> max 0 (effectiveCooldown b - of_int (now - t))))"

section \<open>Transitions\<close>

definition push_history :: "transition_record \<Rightarrow> transition_record list \<Rightarrow> transition_record list" where
  "push_history r h = (let h1 = h @ [r] in if length h1 > maxTransitionHistory then tl h1 else h1)"

definition transition :: "int \<Rightarrow> circuit_state \<Rightarrow> transition_reason \<Rightarrow> breaker \<Rightarrow> breaker" where
  "transition now s why b =
     (let b1 = b\<lparr>cb_state := s,
           halfOpenAllowed := (if s = HALF_OPEN then halfOpenRequests b else halfOpenAllowed b),
           halfOpenProbeGeneration := halfOpenProbeGeneration b + 1, halfOpenProbeStartedAt := None,
           transitionHistory := push_history \<lparr>tr_from = cb_state b, tr_to = s, tr_timestamp = now,
             tr_failureCount = failureCount b, tr_reason = why\<rparr> (transitionHistory b)\<rparr>
      in if cb_state b \<noteq> s then b1\<lparr>notices := notices b @ [(cb_state b, s)]\<rparr> else b1)"

definition refreshOpenState :: "int \<Rightarrow> breaker \<Rightarrow> breaker" where
  "refreshOpenState now b =
     (if cb_state b = OPEN \<and> shouldAttemptReset now b
      then persistToDb (transition now HALF_OPEN Timeout_elapsed b)
      else if cb_state b = HALF_OPEN \<and> halfOpenAllowed b \<le> 0 \<and>
              (case halfOpenProbeStartedAt b of None \<Rightarrow> False | Some t \<Rightarrow> now - t \<ge> resetTimeout b)
      then b\<lparr>halfOpenAllowed := halfOpenRequests b, halfOpenProbeStartedAt := None,
             halfOpenProbeGeneration := halfOpenProbeGeneration b + 1\<rparr>
      else b)"

definition openCircuit :: "int \<Rightarrow> failure_kind option \<Rightarrow> breaker \<Rightarrow> breaker" where
  "openCircuit now kind b =
     transition now OPEN (case kind of Some k \<Rightarrow> Kind_opened k | None \<Rightarrow> No_reason) b"

definition onSuccess :: "int \<Rightarrow> breaker \<Rightarrow> breaker" where
  "onSuccess now b =
     persistToDb
       (if cb_state b = OPEN then
          (transition now CLOSED Success_recovery b)
            \<lparr>failureCount := 0, successCount := 0, lastFailureTime := None, lastFailureKind := None,
             openCycleCount := 0, kindFailureCounts := []\<rparr>
        else if cb_state b = HALF_OPEN then
          (transition now CLOSED Probe_success (b\<lparr>successCount := successCount b + 1\<rparr>))
            \<lparr>failureCount := 0, lastFailureKind := None, openCycleCount := 0, kindFailureCounts := []\<rparr>
        else
          (let b1 = b\<lparr>failureCount := max 0 (failureCount b - 1)\<rparr> in
           if cb_state b1 = DEGRADED \<and> failureCount b1 \<le> degradationThreshold b1
           then transition now CLOSED Recovery b1 else b1))"

definition kind_count :: "breaker \<Rightarrow> failure_kind \<Rightarrow> int" where
  "kind_count b k = (case jget (kindFailureCounts b) k of Some n \<Rightarrow> n | None \<Rightarrow> 0)"

text \<open>\<^verbatim>\<open>x || d\<close> on an optional number: absent and zero both give \<open>d\<close>.\<close>

definition js_or :: "int option \<Rightarrow> int \<Rightarrow> int" where
  "js_or x d = (case x of Some n \<Rightarrow> if n = 0 then d else n | None \<Rightarrow> d)"

text \<open>Whether the kind's own threshold opens the circuit; the counter is already incremented.\<close>

definition kind_trips :: "failure_kind \<Rightarrow> breaker \<Rightarrow> bool" where
  "kind_trips k b =
     (case kindThresholds b k of
        None \<Rightarrow> False
      | Some cfg \<Rightarrow>
          kt_immediateOpen cfg \<and> kind_count b k \<ge> js_or (kt_threshold cfg) 1 \<or>
          kind_count b k \<ge> js_or (kt_threshold cfg) (failureThreshold b))"

definition count_failure :: "int \<Rightarrow> failure_kind option \<Rightarrow> breaker \<Rightarrow> breaker" where
  "count_failure now kind b =
     (let b1 = b\<lparr>failureCount := failureCount b + 1, lastFailureTime := Some now, lastFailureKind := kind\<rparr> in
      case kind of
        Some k \<Rightarrow> b1\<lparr>kindFailureCounts := jset k (kind_count b1 k + 1) (kindFailureCounts b1)\<rparr>
      | None \<Rightarrow> b1)"

definition total_transition :: "int \<Rightarrow> failure_kind option \<Rightarrow> breaker \<Rightarrow> breaker" where
  "total_transition now kind b =
     (case cb_state b of
        OPEN \<Rightarrow> b
      | HALF_OPEN \<Rightarrow>
          (let b1 = b\<lparr>openCycleCount := openCycleCount b + 1\<rparr> in transition now OPEN (Probe_failed (openCycleCount b1)) b1)
      | DEGRADED \<Rightarrow> if failureCount b \<ge> failureThreshold b then openCircuit now kind b else b
      | CLOSED \<Rightarrow>
          if failureCount b \<ge> failureThreshold b then openCircuit now kind b
          else if failureCount b \<ge> degradationThreshold b
          then transition now DEGRADED (Elevated_failures (failureCount b) (failureThreshold b)) b
          else b)"

text \<open>The kind-specific branch returns before the final \<^verbatim>\<open>_persistToDb()\<close>.\<close>

definition onFailure :: "int \<Rightarrow> failure_kind option \<Rightarrow> breaker \<Rightarrow> breaker" where
  "onFailure now kind b =
     (let b1 = count_failure now kind b in
      if (case kind of Some k \<Rightarrow> kind_trips k b1 | None \<Rightarrow> False) then openCircuit now kind b1
      else persistToDb (total_transition now kind b1))"

definition recordResolvedResult :: "int \<Rightarrow> result_outcome option option \<Rightarrow> breaker \<Rightarrow> breaker" where
  "recordResolvedResult now classified b =
     (case (case classified of Some (Some oc) \<Rightarrow> oc | _ \<Rightarrow> Result_success) of
        Result_failure \<Rightarrow> onFailure now None b
      | Result_success \<Rightarrow> onSuccess now b
      | Result_ignore \<Rightarrow> b)"

section \<open>Public operations\<close>

datatype start_result = Started "nat option" | Open_error rat

definition execute_start :: "int \<Rightarrow> breaker \<Rightarrow> start_result \<times> breaker" where
  "execute_start now b =
     (let b1 = refreshOpenState now b in
      if cb_state b1 = OPEN then (Open_error (timeUntilReset now b1), b1)
      else if cb_state b1 = HALF_OPEN \<and> halfOpenAllowed b1 \<le> 0 then (Open_error (timeUntilReset now b1), b1)
      else if cb_state b1 = HALF_OPEN
      then (Started (Some (halfOpenProbeGeneration b1)),
            b1\<lparr>halfOpenAllowed := halfOpenAllowed b1 - 1,
               halfOpenProbeStartedAt := (case halfOpenProbeStartedAt b1 of Some t \<Rightarrow> Some t | None \<Rightarrow> Some now)\<rparr>)
      else (Started None, b1))"

definition current_probe :: "nat option \<Rightarrow> breaker \<Rightarrow> bool" where
  "current_probe gen b = (case gen of None \<Rightarrow> True | Some g \<Rightarrow> g = halfOpenProbeGeneration b)"

definition execute_resolved :: "int \<Rightarrow> nat option \<Rightarrow> result_outcome option option \<Rightarrow> breaker \<Rightarrow> breaker" where
  "execute_resolved now gen classified b =
     (if current_probe gen b then recordResolvedResult now classified b else b)"

definition execute_rejected :: "int \<Rightarrow> nat option \<Rightarrow> bool \<Rightarrow> failure_kind option \<Rightarrow> breaker \<Rightarrow> breaker" where
  "execute_rejected now gen isFail kind b =
     (if current_probe gen b \<and> isFail then onFailure now kind b else b)"

definition canExecute :: "int \<Rightarrow> breaker \<Rightarrow> bool \<times> breaker" where
  "canExecute now b =
     (let b1 = refreshOpenState now b in
      (case cb_state b1 of CLOSED \<Rightarrow> True | DEGRADED \<Rightarrow> True | OPEN \<Rightarrow> False | HALF_OPEN \<Rightarrow> halfOpenAllowed b1 > 0, b1))"

definition getRetryAfterMs :: "int \<Rightarrow> breaker \<Rightarrow> rat \<times> breaker" where
  "getRetryAfterMs now b =
     (let b1 = refreshOpenState now b in
      (if cb_state b1 = CLOSED \<or> cb_state b1 = DEGRADED then 0 else timeUntilReset now b1, b1))"

record breaker_status =
  st_name :: string
  st_state :: circuit_state
  st_failureCount :: int
  st_lastFailureTime :: "int option"
  st_retryAfterMs :: rat
  st_lastFailureKind :: "failure_kind option"
  st_openCycleCount :: int
  st_kindFailureCounts :: "(failure_kind, int) jmap"
  st_degradationThreshold :: int
  st_effectiveResetTimeout :: rat
  st_transitionHistory :: "transition_record list"

definition getStatus :: "int \<Rightarrow> breaker \<Rightarrow> breaker_status \<times> breaker" where
  "getStatus now b =
     (let b1 = refreshOpenState now b; (retry, b2) = getRetryAfterMs now b1 in
      (\<lparr>st_name = cb_name b2, st_state = cb_state b2, st_failureCount = failureCount b2,
        st_lastFailureTime = lastFailureTime b2, st_retryAfterMs = retry, st_lastFailureKind = lastFailureKind b2,
        st_openCycleCount = openCycleCount b2, st_kindFailureCounts = kindFailureCounts b2,
        st_degradationThreshold = degradationThreshold b2, st_effectiveResetTimeout = effectiveResetTimeout b2,
        st_transitionHistory = transitionHistory b2\<rparr>, b2))"

definition cb_reset :: "int \<Rightarrow> breaker \<Rightarrow> breaker" where
  "cb_reset now b =
     persistToDb ((transition now CLOSED Manual_reset b)
       \<lparr>failureCount := 0, successCount := 0, lastFailureTime := None, lastFailureKind := None,
        openCycleCount := 0, kindFailureCounts := []\<rparr>)"

section \<open>Registry\<close>

text \<open>
  \<open>live\<close> is the \<^verbatim>\<open>Map\<close> of breakers, \<open>stored\<close> the table rows of the names that have no live breaker; a
  breaker carries its own row.
\<close>

record registry =
  live :: "(string, breaker) jmap"
  stored :: "(string, cb_row) jmap"

definition MAX_REGISTRY_SIZE :: nat where
  "MAX_REGISTRY_SIZE = 500"

definition refresh_all :: "int \<Rightarrow> registry \<Rightarrow> registry" where
  "refresh_all now r = r\<lparr>live := map (\<lambda>(n, b). (n, snd (getStatus now b))) (live r)\<rparr>"

definition cold :: "breaker \<Rightarrow> bool" where
  "cold b \<longleftrightarrow> cb_state b = CLOSED \<and> failureCount b = 0"

definition drop_breaker :: "string \<Rightarrow> registry \<Rightarrow> registry" where
  "drop_breaker n r = r\<lparr>live := jdel n (live r), stored := jdel n (stored r)\<rparr>"

definition registrySweep :: "int \<Rightarrow> registry \<Rightarrow> registry" where
  "registrySweep now r =
     (let r1 = refresh_all now r;
          idle = map fst (filter (\<lambda>(n, b). cold b \<and>
                   (case failure_time b of None \<Rightarrow> True | Some t \<Rightarrow> now - t > 1800000)) (live r1))
      in fold drop_breaker idle r1)"

text \<open>The stable sort of the candidates by last failure time.\<close>

definition coldest :: "registry \<Rightarrow> string list" where
  "coldest r =
     map fst (sort_key (\<lambda>(n, b). case lastFailureTime b of Some t \<Rightarrow> t | None \<Rightarrow> 0)
       (filter (\<lambda>(n, b). cold b) (live r)))"

definition evictColdBreakersIfNeeded :: "int \<Rightarrow> registry \<Rightarrow> registry" where
  "evictColdBreakersIfNeeded now r =
     (if length (live r) < MAX_REGISTRY_SIZE then r
      else
        (let r1 = refresh_all now r in
         fold drop_breaker (take (length (live r1) - MAX_REGISTRY_SIZE + 1) (coldest r1)) r1))"

text \<open>The spread \<^verbatim>\<open>{...old, ...new}\<close>; an entry that is explicitly \<^verbatim>\<open>undefined\<close> counts as absent.\<close>

definition merge_kinds :: "(failure_kind \<Rightarrow> js_val) \<Rightarrow> (failure_kind \<Rightarrow> js_val) \<Rightarrow> failure_kind \<Rightarrow> js_val" where
  "merge_kinds old new k = (if new k = Undefined then old k else new k)"

definition apply_options :: "breaker_options \<Rightarrow> breaker \<Rightarrow> breaker" where
  "apply_options opts b =
     (let hr = or_default (o_halfOpenRequests opts) (halfOpenRequests b) in
      persistToDb
        (b\<lparr>failureThreshold := or_default (o_failureThreshold opts) (failureThreshold b),
           resetTimeout := or_default (o_resetTimeout opts) (resetTimeout b),
           halfOpenRequests := hr,
           halfOpenAllowed := (if o_halfOpenRequests opts \<noteq> None \<and> cb_state b = HALF_OPEN
                               then min (halfOpenAllowed b) hr else halfOpenAllowed b),
           cooldownByKind := merge_kinds (cooldownByKind b) (o_cooldownByKind opts),
           kindThresholds := (\<lambda>k. case o_kindThresholds opts k of Some t \<Rightarrow> Some t | None \<Rightarrow> kindThresholds b k),
           degradationThreshold := or_default (o_degradationThreshold opts) (degradationThreshold b),
           maxBackoffMultiplier := or_default (o_maxBackoffMultiplier opts) (maxBackoffMultiplier b),
           backoffEscalationCount := or_default (o_backoffEscalationCount opts) (backoffEscalationCount b)\<rparr>))"

definition no_options :: breaker_options where
  "no_options = \<lparr>o_failureThreshold = None, o_resetTimeout = None, o_halfOpenRequests = None,
     o_cooldownByKind = (\<lambda>_. Undefined), o_kindThresholds = (\<lambda>_. None), o_degradationThreshold = None,
     o_maxBackoffMultiplier = None, o_backoffEscalationCount = None\<rparr>"

definition getCircuitBreaker :: "int \<Rightarrow> string \<Rightarrow> breaker_options option \<Rightarrow> registry \<Rightarrow> registry" where
  "getCircuitBreaker now n opts r =
     (let r1 = (if jhas (live r) n then r
                else
                  (let r2 = evictColdBreakersIfNeeded now r in
                   r2\<lparr>live := jset n (new_breaker n (or_default opts no_options) (jget (stored r2) n)) (live r2),
                      stored := jdel n (stored r2)\<rparr>))
      in case opts of
           None \<Rightarrow> r1
         | Some os \<Rightarrow>
             (case jget (live r1) n of
                None \<Rightarrow> r1
              | Some b \<Rightarrow> r1\<lparr>live := jset n (apply_options os b) (live r1)\<rparr>))"

definition getAllCircuitBreakerStatuses :: "int \<Rightarrow> registry \<Rightarrow> breaker_status list \<times> registry" where
  "getAllCircuitBreakerStatuses now r =
     (let r1 = fold (\<lambda>n. getCircuitBreaker now n None) (jkeys (stored r)) r in
      (map (\<lambda>(n, b). fst (getStatus now b)) (live r1), refresh_all now r1))"

definition resetAllCircuitBreakers :: "registry \<Rightarrow> registry" where
  "resetAllCircuitBreakers r = r\<lparr>live := [], stored := []\<rparr>"


section \<open>Calls in flight\<close>

text \<open>
  Several calls can be between the two halves of \<^verbatim>\<open>execute\<close> at once. The system keeps, beside the
  breaker, the probe generation each of them has read.
\<close>

record cb_system =
  brk :: breaker
  inflight :: "nat option list"

datatype cb_event =
    Start
  | Resolve "nat option" "result_outcome option option"
  | Reject "nat option" bool "failure_kind option"
  | Inspect
  | Reset
  | Options breaker_options

fun cb_handle :: "int \<Rightarrow> cb_event \<Rightarrow> cb_system \<Rightarrow> cb_system" where
  "cb_handle now Start s =
     (case execute_start now (brk s) of
        (Started g, b) \<Rightarrow> \<lparr>brk = b, inflight = g # inflight s\<rparr>
      | (Open_error _, b) \<Rightarrow> \<lparr>brk = b, inflight = inflight s\<rparr>)"
| "cb_handle now (Resolve g cl) s = \<lparr>brk = execute_resolved now g cl (brk s), inflight = remove1 g (inflight s)\<rparr>"
| "cb_handle now (Reject g f k) s = \<lparr>brk = execute_rejected now g f k (brk s), inflight = remove1 g (inflight s)\<rparr>"
| "cb_handle now Inspect s = \<lparr>brk = snd (getStatus now (brk s)), inflight = inflight s\<rparr>"
| "cb_handle now Reset s = \<lparr>brk = cb_reset now (brk s), inflight = inflight s\<rparr>"
| "cb_handle now (Options os) s = \<lparr>brk = apply_options os (brk s), inflight = inflight s\<rparr>"

fun cb_enabled :: "cb_event \<Rightarrow> cb_system \<Rightarrow> bool" where
  "cb_enabled (Resolve g _) s \<longleftrightarrow> g \<in> set (inflight s)"
| "cb_enabled (Reject g _ _) s \<longleftrightarrow> g \<in> set (inflight s)"
| "cb_enabled _ s \<longleftrightarrow> True"

inductive cb_step :: "cb_event \<Rightarrow> cb_system \<Rightarrow> cb_system \<Rightarrow> bool" where
  cb_event: "cb_enabled ev s \<Longrightarrow> cb_step ev s (cb_handle now ev s)"

inductive_cases cb_stepE: "cb_step ev s s'"

section \<open>Frames\<close>

lemma transition_simps [simp]:
  "cb_state (transition now s why b) = s"
  "halfOpenProbeGeneration (transition now s why b) = Suc (halfOpenProbeGeneration b)"
  "halfOpenProbeStartedAt (transition now s why b) = None"
  "halfOpenAllowed (transition now s why b) = (if s = HALF_OPEN then halfOpenRequests b else halfOpenAllowed b)"
  "halfOpenRequests (transition now s why b) = halfOpenRequests b" "failureCount (transition now s why b) = failureCount b"
  "failureThreshold (transition now s why b) = failureThreshold b"
  "degradationThreshold (transition now s why b) = degradationThreshold b"
  "lastFailureTime (transition now s why b) = lastFailureTime b" "lastFailureKind (transition now s why b) = lastFailureKind b"
  "openCycleCount (transition now s why b) = openCycleCount b" "kindFailureCounts (transition now s why b) = kindFailureCounts b"
  "kindThresholds (transition now s why b) = kindThresholds b" "resetTimeout (transition now s why b) = resetTimeout b"
  "row (transition now s why b) = row b" "successCount (transition now s why b) = successCount b"
  "transitionHistory (transition now s why b) = push_history \<lparr>tr_from = cb_state b, tr_to = s, tr_timestamp = now,
     tr_failureCount = failureCount b, tr_reason = why\<rparr> (transitionHistory b)"
  by (simp_all add: transition_def Let_def)

lemma persist_simps [simp]:
  "cb_state (persistToDb b) = cb_state b" "halfOpenProbeGeneration (persistToDb b) = halfOpenProbeGeneration b"
  "halfOpenAllowed (persistToDb b) = halfOpenAllowed b" "halfOpenRequests (persistToDb b) = halfOpenRequests b"
  "failureCount (persistToDb b) = failureCount b" "lastFailureTime (persistToDb b) = lastFailureTime b"
  "lastFailureKind (persistToDb b) = lastFailureKind b" "openCycleCount (persistToDb b) = openCycleCount b"
  "kindFailureCounts (persistToDb b) = kindFailureCounts b" "kindThresholds (persistToDb b) = kindThresholds b"
  "transitionHistory (persistToDb b) = transitionHistory b" "failureThreshold (persistToDb b) = failureThreshold b"
  "degradationThreshold (persistToDb b) = degradationThreshold b" "resetTimeout (persistToDb b) = resetTimeout b"
  "halfOpenProbeStartedAt (persistToDb b) = halfOpenProbeStartedAt b"
  by (simp_all add: persistToDb_def)

lemma count_failure_simps [simp]:
  "cb_state (count_failure now k b) = cb_state b" "halfOpenProbeGeneration (count_failure now k b) = halfOpenProbeGeneration b"
  "halfOpenAllowed (count_failure now k b) = halfOpenAllowed b" "halfOpenRequests (count_failure now k b) = halfOpenRequests b"
  "failureCount (count_failure now k b) = failureCount b + 1" "failureThreshold (count_failure now k b) = failureThreshold b"
  "degradationThreshold (count_failure now k b) = degradationThreshold b"
  "kindThresholds (count_failure now k b) = kindThresholds b" "transitionHistory (count_failure now k b) = transitionHistory b"
  "openCycleCount (count_failure now k b) = openCycleCount b" "row (count_failure now k b) = row b"
  "lastFailureKind (count_failure now k b) = k" "lastFailureTime (count_failure now k b) = Some now"
  by (simp_all add: count_failure_def Let_def split: option.split)

lemma openCircuit_eq: "openCircuit now k b = transition now OPEN (case k of Some x \<Rightarrow> Kind_opened x | None \<Rightarrow> No_reason) b"
  by (simp add: openCircuit_def)

text \<open>
  Every operation either keeps the state and the generation, or is a transition that opens a new
  generation; a half-open state it enters has a full set of probes.
\<close>

definition moved :: "breaker \<Rightarrow> breaker \<Rightarrow> bool" where
  "moved b b' \<longleftrightarrow>
     halfOpenRequests b' = halfOpenRequests b \<and>
     (cb_state b' = cb_state b \<and> halfOpenProbeGeneration b' = halfOpenProbeGeneration b \<and> halfOpenAllowed b' = halfOpenAllowed b
      \<or> halfOpenProbeGeneration b < halfOpenProbeGeneration b' \<and>
        (cb_state b' = HALF_OPEN \<longrightarrow> halfOpenAllowed b' = halfOpenRequests b'))"

lemma moved_refl: "moved b b"
  by (simp add: moved_def)

lemma moved_trans: "moved a b \<Longrightarrow> moved b c \<Longrightarrow> moved a c"
  unfolding moved_def by auto

lemma refreshOpenState_moved: "moved b (refreshOpenState now b)"
  by (auto simp: refreshOpenState_def moved_def)

lemma onSuccess_moved: "moved b (onSuccess now b)"
  by (auto simp: onSuccess_def moved_def Let_def)

lemma onFailure_moved: "moved b (onFailure now k b)"
  by (auto simp: onFailure_def total_transition_def moved_def Let_def openCircuit_eq split: circuit_state.split)

lemma recordResolvedResult_moved: "moved b (recordResolvedResult now cl b)"
  using onSuccess_moved onFailure_moved moved_refl by (simp add: recordResolvedResult_def split: result_outcome.split)

lemma cb_reset_moved: "moved b (cb_reset now b)"
  by (simp add: cb_reset_def moved_def)

lemma getRetryAfterMs_snd: "snd (getRetryAfterMs now b) = refreshOpenState now b"
  by (simp add: getRetryAfterMs_def Let_def)

lemma getStatus_snd: "snd (getStatus now b) = refreshOpenState now (refreshOpenState now b)"
  by (simp add: getStatus_def Let_def case_prod_beta getRetryAfterMs_snd)

lemma getStatus_moved: "moved b (snd (getStatus now b))"
  unfolding getStatus_snd using refreshOpenState_moved moved_trans by blast

section \<open>Probes\<close>

text \<open>
  At most \<open>m\<close> calls of the current generation are in flight, where \<open>m\<close> bounds every configured
  \<^verbatim>\<open>halfOpenRequests\<close>; no call carries a generation of the future, and outside the half-open state none
  carries the current one.
\<close>

definition probes :: "cb_system \<Rightarrow> nat" where
  "probes s = count_list (inflight s) (Some (halfOpenProbeGeneration (brk s)))"

definition probe_inv :: "int \<Rightarrow> cb_system \<Rightarrow> bool" where
  "probe_inv m s \<longleftrightarrow>
     (\<forall>g. Some g \<in> set (inflight s) \<longrightarrow> g \<le> halfOpenProbeGeneration (brk s)) \<and>
     0 \<le> halfOpenRequests (brk s) \<and> halfOpenRequests (brk s) \<le> m \<and>
     (if cb_state (brk s) = HALF_OPEN
      then 0 \<le> halfOpenAllowed (brk s) \<and> halfOpenAllowed (brk s) + int (probes s) \<le> m
      else probes s = 0)"

lemma probe_inv_moved:
  assumes inv: "probe_inv m s" and mv: "moved (brk s) b" and sub: "\<And>x. count_list xs x \<le> count_list (inflight s) x"
  shows "probe_inv m \<lparr>brk = b, inflight = xs\<rparr>"
proof -
  have set: "x \<in> set xs \<Longrightarrow> x \<in> set (inflight s)" for x
    using sub [of x] count_list_0_iff [of xs x] count_list_0_iff [of "inflight s" x] by fastforce
  have gens: "\<And>g. Some g \<in> set xs \<Longrightarrow> g \<le> halfOpenProbeGeneration (brk s)"
    using inv set by (auto simp: probe_inv_def)
  have req: "halfOpenRequests b = halfOpenRequests (brk s)" using mv by (auto simp: moved_def)
  consider "cb_state b = cb_state (brk s)" "halfOpenProbeGeneration b = halfOpenProbeGeneration (brk s)"
      "halfOpenAllowed b = halfOpenAllowed (brk s)"
    | "halfOpenProbeGeneration (brk s) < halfOpenProbeGeneration b"
      "cb_state b = HALF_OPEN \<longrightarrow> halfOpenAllowed b = halfOpenRequests b"
    using mv unfolding moved_def by blast
  then show ?thesis
  proof cases
    case 1
    have "count_list xs (Some (halfOpenProbeGeneration (brk s))) \<le> probes s" unfolding probes_def by (rule sub)
    then show ?thesis using inv 1 req gens by (auto simp: probe_inv_def probes_def split: if_splits)
  next
    case 2
    then have "Some (halfOpenProbeGeneration b) \<notin> set xs" using gens by fastforce
    then have "count_list xs (Some (halfOpenProbeGeneration b)) = 0" by (simp add: count_list_0_iff)
    then show ?thesis using inv 2 req gens by (fastforce simp: probe_inv_def probes_def)
  qed
qed

lemma count_remove1: "count_list (remove1 y xs) x \<le> count_list xs x"
  by (induction xs) auto

lemma execute_start_cases:
  obtains (refused) w where "execute_start now b = (Open_error w, refreshOpenState now b)"
  | (probe) "cb_state (refreshOpenState now b) = HALF_OPEN" "halfOpenAllowed (refreshOpenState now b) > 0"
      "execute_start now b = (Started (Some (halfOpenProbeGeneration (refreshOpenState now b))),
         (refreshOpenState now b)\<lparr>halfOpenAllowed := halfOpenAllowed (refreshOpenState now b) - 1,
            halfOpenProbeStartedAt := (case halfOpenProbeStartedAt (refreshOpenState now b) of
               Some t \<Rightarrow> Some t | None \<Rightarrow> Some now)\<rparr>)"
  | (plain) "cb_state (refreshOpenState now b) \<in> {CLOSED, DEGRADED}" "execute_start now b = (Started None, refreshOpenState now b)"
proof -
  let ?b = "refreshOpenState now b"
  consider "cb_state ?b = OPEN \<or> cb_state ?b = HALF_OPEN \<and> halfOpenAllowed ?b \<le> 0"
    | "cb_state ?b = HALF_OPEN" "halfOpenAllowed ?b > 0" | "cb_state ?b = CLOSED \<or> cb_state ?b = DEGRADED"
    using circuit_state.exhaust by (metis not_le)
  then show thesis
    by cases (use that in \<open>auto simp: execute_start_def Let_def\<close>)
qed

lemma probe_inv_start:
  assumes inv: "probe_inv m s"
  shows "probe_inv m (cb_handle now Start s)"
proof -
  let ?b = "refreshOpenState now (brk s)"
  have i: "probe_inv m \<lparr>brk = ?b, inflight = inflight s\<rparr>" by (rule probe_inv_moved [OF inv refreshOpenState_moved]) simp
  show ?thesis
  proof (cases rule: execute_start_cases [of now "brk s"])
    case (refused w)
    then show ?thesis using i by simp
  next
    case plain
    then show ?thesis using i by (auto simp: probe_inv_def probes_def)
  next
    case probe
    then show ?thesis using i by (auto simp: probe_inv_def probes_def)
  qed
qed

definition options_within :: "int \<Rightarrow> cb_event \<Rightarrow> bool" where
  "options_within m ev = (case ev of Options os \<Rightarrow>
     (case o_halfOpenRequests os of Some n \<Rightarrow> 0 \<le> n \<and> n \<le> m | None \<Rightarrow> True) | _ \<Rightarrow> True)"

lemma apply_options_simps:
  "cb_state (apply_options os b) = cb_state b" "halfOpenProbeGeneration (apply_options os b) = halfOpenProbeGeneration b"
  "halfOpenRequests (apply_options os b) = or_default (o_halfOpenRequests os) (halfOpenRequests b)"
  "halfOpenAllowed (apply_options os b) = (if o_halfOpenRequests os \<noteq> None \<and> cb_state b = HALF_OPEN
     then min (halfOpenAllowed b) (or_default (o_halfOpenRequests os) (halfOpenRequests b)) else halfOpenAllowed b)"
  by (simp_all add: apply_options_def Let_def)

lemma probe_inv_step:
  assumes inv: "probe_inv m s" and ok: "options_within m ev"
  shows "probe_inv m (cb_handle now ev s)"
proof (cases ev)
  case Start
  then show ?thesis using probe_inv_start [OF inv] by simp
next
  case (Resolve g cl)
  have "moved (brk s) (execute_resolved now g cl (brk s))"
    using recordResolvedResult_moved moved_refl by (simp add: execute_resolved_def)
  then show ?thesis using probe_inv_moved [OF inv _ count_remove1] Resolve by simp
next
  case (Reject g f k)
  have "moved (brk s) (execute_rejected now g f k (brk s))"
    using onFailure_moved moved_refl by (simp add: execute_rejected_def)
  then show ?thesis using probe_inv_moved [OF inv _ count_remove1] Reject by simp
next
  case Inspect
  then show ?thesis using probe_inv_moved [OF inv getStatus_moved, of "inflight s"] by simp
next
  case Reset
  then show ?thesis using probe_inv_moved [OF inv cb_reset_moved, of "inflight s"] by simp
next
  case (Options os)
  then show ?thesis
    using inv ok by (auto simp: probe_inv_def probes_def apply_options_simps options_within_def or_default_def
        split: option.splits if_splits)
qed

inductive cb_run :: "int \<Rightarrow> cb_event \<Rightarrow> cb_system \<Rightarrow> cb_system \<Rightarrow> bool" for m where
  bounded_event: "cb_step ev s s' \<Longrightarrow> options_within m ev \<Longrightarrow> cb_run m ev s s'"

interpretation probes: step_system "cb_run m" "probe_inv m" for m
  by unfold_locales (auto elim!: cb_run.cases cb_stepE intro: probe_inv_step)

lemma new_breaker_simps:
  "halfOpenProbeGeneration (new_breaker n os r) = 0" "halfOpenRequests (new_breaker n os r) = or_default (o_halfOpenRequests os) 1"
  "cb_state (new_breaker n os r) = HALF_OPEN \<Longrightarrow> halfOpenAllowed (new_breaker n os r) = or_default (o_halfOpenRequests os) 1"
  "transitionHistory (new_breaker n os r) = []" "row (new_breaker n os r) = r" "kindThresholds (new_breaker n os r) = o_kindThresholds os"
  by (cases r; simp add: new_breaker_def restoreFromDb_def Let_def split: if_splits)+

section \<open>Properties\<close>

text \<open>
  C9. Bounded probing. However calls, results, resets, inspections and option changes interleave,
  at most \<open>m\<close> probes of the current half-open period are in flight, where \<open>m\<close> bounds every configured
  number of half-open requests; every other outstanding call is from an earlier period and its result
  is ignored.
\<close>

theorem probes_bounded:
  assumes "0 \<le> or_default (o_halfOpenRequests os) 1" "or_default (o_halfOpenRequests os) 1 \<le> m"
    and "reaches (cb_run m) \<lparr>brk = new_breaker n os r, inflight = []\<rparr> s"
  shows "int (probes s) \<le> m \<and>
    (\<forall>g now cl f k. g \<noteq> halfOpenProbeGeneration (brk s) \<longrightarrow>
       execute_resolved now (Some g) cl (brk s) = brk s \<and> execute_rejected now (Some g) f k (brk s) = brk s)"
proof -
  have "probe_inv m \<lparr>brk = new_breaker n os r, inflight = []\<rparr>"
    using assms(1,2) by (simp add: probe_inv_def probes_def new_breaker_simps)
  then have "probe_inv m s" using probes.reaches_inv [OF assms(3)] by blast
  then have "int (probes s) \<le> m" by (auto simp: probe_inv_def split: if_splits)
  then show ?thesis by (simp add: execute_resolved_def execute_rejected_def current_probe_def)
qed


definition cb_demo :: cb_system where
  "cb_demo = \<lparr>brk = new_breaker ''p'' no_options None, inflight = []\<rparr>"

text \<open>Five failures open the demo breaker; after the timeout one probe is in flight.\<close>

definition cb_probing :: cb_system where
  "cb_probing = cb_handle 40000 Start
     (cb_handle 5 (Reject None True None) (cb_handle 4 (Reject None True None) (cb_handle 3 (Reject None True None)
     (cb_handle 2 (Reject None True None) (cb_handle 1 (Reject None True None)
     (cb_handle 0 Start (cb_handle 0 Start (cb_handle 0 Start (cb_handle 0 Start (cb_handle 0 Start cb_demo))))))))))"

lemma cb_run_handle: "cb_enabled ev s \<Longrightarrow> options_within m ev \<Longrightarrow> reaches (cb_run m) a s \<Longrightarrow> reaches (cb_run m) a (cb_handle now ev s)"
  by (rule reaches_more [where step = "cb_run m"], assumption, rule bounded_event, rule cb_event) simp_all

lemma cb_probing_reach: "reaches (cb_run 1) cb_demo cb_probing"
  unfolding cb_probing_def by (intro cb_run_handle reaches_start; code_simp)

theorem probes_bounded_witness:
  "cb_state (brk cb_probing) = HALF_OPEN \<and> inflight cb_probing = [Some 3] \<and> int (probes cb_probing) \<le> 1"
proof -
  have "cb_state (brk cb_probing) = HALF_OPEN" "inflight cb_probing = [Some 3]" by code_simp+
  then show ?thesis
    using probes_bounded [of no_options 1 "''p''" None cb_probing] cb_probing_reach
    by (simp add: cb_demo_def or_default_def no_options_def)
qed

text \<open>
  Tripping. From a fresh breaker, unclassified failures alone drive it through the documented
  states: closed below the degradation threshold, degraded from there, open from the failure threshold.
\<close>

theorem failures_trip:
  assumes "0 < failureThreshold b" "0 < degradationThreshold b" "degradationThreshold b \<le> failureThreshold b"
    and "cb_state b = CLOSED" "failureCount b = 0"
  shows "cb_state (fold (\<lambda>t. onFailure t None) ts b) =
    (if int (length ts) \<ge> failureThreshold b then OPEN
     else if int (length ts) \<ge> degradationThreshold b then DEGRADED else CLOSED)"
proof -
  let ?f = "\<lambda>ts. fold (\<lambda>t. onFailure t None) ts b"
  have "failureThreshold (?f ts) = failureThreshold b \<and> degradationThreshold (?f ts) = degradationThreshold b \<and>
    failureCount (?f ts) = int (length ts) \<and> cb_state (?f ts) =
    (if int (length ts) \<ge> failureThreshold b then OPEN
     else if int (length ts) \<ge> degradationThreshold b then DEGRADED else CLOSED)"
  proof (induction ts rule: rev_induct)
    case Nil
    then show ?case using assms by simp
  next
    case (snoc t ts)
    then show ?case
      using assms by (auto simp: onFailure_def total_transition_def openCircuit_eq Let_def split: if_splits circuit_state.splits)
  qed
  then show ?thesis by blast
qed

theorem failures_trip_witness:
  "cb_state (fold (\<lambda>t. onFailure t None) [1, 2, 3] (brk cb_demo)) = DEGRADED"
proof -
  have c: "failureThreshold (brk cb_demo) = 5" "degradationThreshold (brk cb_demo) = 3" "cb_state (brk cb_demo) = CLOSED"
    "failureCount (brk cb_demo) = 0" by code_simp+
  show ?thesis using failures_trip [of "brk cb_demo" "[1, 2, 3]"] by (simp add: c)
qed

text \<open>
  Fast failure. While the circuit is open and its cooldown has not passed, \<^verbatim>\<open>execute\<close> does not call
  the function: it fails at once with the exact remaining time and leaves the breaker untouched.
\<close>

theorem open_fails_fast:
  assumes "cb_state b = OPEN" "lastFailureTime b = Some t" "t \<noteq> 0" "of_int (now - t) < effectiveCooldown b"
  shows "execute_start now b = (Open_error (effectiveCooldown b - of_int (now - t)), b)"
proof -
  have "refreshOpenState now b = b"
    using assms by (simp add: refreshOpenState_def shouldAttemptReset_def failure_time_def)
  moreover have "timeUntilReset now b = effectiveCooldown b - of_int (now - t)"
    using assms by (simp add: timeUntilReset_def failure_time_def)
  ultimately show ?thesis using assms(1) by (simp add: execute_start_def Let_def)
qed

definition cb_open :: breaker where
  "cb_open = fold (\<lambda>t. onFailure t None) [1, 2, 3, 4, 5] (brk cb_demo)"

theorem open_fails_fast_witness: "fst (execute_start 1000 cb_open) = Open_error 29005"
proof -
  have c: "cb_state cb_open = OPEN" "lastFailureTime cb_open = Some 5" "effectiveCooldown cb_open = 30000" by code_simp+
  show ?thesis using open_fails_fast [of cb_open 5 1000] by (simp add: c)
qed

text \<open>
  Recovery. Once the cooldown has passed, the next \<^verbatim>\<open>execute\<close> is let through as a probe; its success
  closes the circuit with all counters cleared, its (unclassified) failure opens it again one
  escalation cycle further.
\<close>

theorem probe_decides:
  assumes "cb_state b = OPEN" "lastFailureTime b = Some t" "of_int (now - t) \<ge> effectiveCooldown b" "0 < halfOpenRequests b"
    and "execute_start now b = (res, b')"
  shows "res = Started (Some (halfOpenProbeGeneration b')) \<and>
    (let ok = execute_resolved now' (Some (halfOpenProbeGeneration b')) None b' in
       cb_state ok = CLOSED \<and> failureCount ok = 0 \<and> openCycleCount ok = 0 \<and> kindFailureCounts ok = []) \<and>
    (let bad = execute_rejected now' (Some (halfOpenProbeGeneration b')) True None b' in
       cb_state bad = OPEN \<and> openCycleCount bad = openCycleCount b + 1 \<and> failureCount bad = failureCount b + 1)"
proof -
  let ?b = "persistToDb (transition now HALF_OPEN Timeout_elapsed b)"
  have "refreshOpenState now b = ?b"
    using assms by (auto simp: refreshOpenState_def shouldAttemptReset_def failure_time_def)
  then have "res = Started (Some (halfOpenProbeGeneration ?b))"
    "b' = ?b\<lparr>halfOpenAllowed := halfOpenAllowed ?b - 1, halfOpenProbeStartedAt := Some now\<rparr>"
    using assms(4,5) by (auto simp: execute_start_def Let_def)
  then show ?thesis
    by (simp add: execute_resolved_def execute_rejected_def current_probe_def recordResolvedResult_def onSuccess_def
        onFailure_def total_transition_def Let_def)
qed

theorem probe_decides_witness:
  "fst (execute_start 30005 cb_open) = Started (Some 3) \<and>
   cb_state (execute_resolved 30100 (Some 3) None (snd (execute_start 30005 cb_open))) = CLOSED"
proof -
  have c: "cb_state cb_open = OPEN" "lastFailureTime cb_open = Some 5" "effectiveCooldown cb_open = 30000"
    "halfOpenRequests cb_open = 1" "halfOpenProbeGeneration (snd (execute_start 30005 cb_open)) = 3" by code_simp+
  show ?thesis
    using probe_decides [of cb_open 5 30005 "fst (execute_start 30005 cb_open)" "snd (execute_start 30005 cb_open)" 30100]
    by (simp add: c Let_def)
qed

text \<open>
  Backoff. The effective reset timeout never falls below the configured one, never exceeds it
  by more than the configured factor, and does not shrink while failed probe cycles accumulate.
\<close>

theorem backoff_bounds:
  assumes "1 \<le> maxBackoffMultiplier b" "0 \<le> resetTimeout b" "openCycleCount b \<le> c"
  shows "of_int (resetTimeout b) \<le> effectiveResetTimeout b \<and>
    effectiveResetTimeout b \<le> of_int (resetTimeout b * maxBackoffMultiplier b) \<and>
    effectiveResetTimeout b \<le> effectiveResetTimeout (b\<lparr>openCycleCount := c\<rparr>)"
proof -
  let ?t = "of_int (resetTimeout b) :: rat" and ?k = "of_int (maxBackoffMultiplier b) :: rat"
  have t: "0 \<le> ?t" and k: "1 \<le> ?k" using assms(1,2) by simp_all
  have tk: "?t \<le> ?t * ?k" using mult_left_mono [OF k t] by simp
  have up: "?t \<le> ?t * 2 ^ n" for n
    using mult_left_mono [OF one_le_power [of "2 :: rat" n] t] by simp
  have mono: "?t * 2 ^ n \<le> ?t * 2 ^ n'" if "n \<le> n'" for n n' :: nat
    using t that by (intro mult_left_mono power_increasing) simp_all
  have le: "nat (openCycleCount b - backoffEscalationCount b) \<le> nat (c - backoffEscalationCount b)"
    using assms(3) by (intro nat_mono) simp
  show ?thesis
    using tk up mono [OF le] assms(3)
    by (auto simp: effectiveResetTimeout_def escalate_def min_def intro: order_trans)
qed

theorem backoff_bounds_witness:
  "effectiveResetTimeout (cb_open\<lparr>openCycleCount := 5\<rparr>) \<le> 480000 \<and> effectiveResetTimeout (cb_open\<lparr>openCycleCount := 5\<rparr>) = 120000"
proof -
  have c: "maxBackoffMultiplier cb_open = 16" "resetTimeout cb_open = 30000"
    "effectiveResetTimeout (cb_open\<lparr>openCycleCount := 5\<rparr>) = 120000" by code_simp+
  show ?thesis using backoff_bounds [of "cb_open\<lparr>openCycleCount := 5\<rparr>" 5] by (simp add: c)
qed


subsection \<open>Persistence\<close>

definition row_of :: "breaker \<Rightarrow> cb_row" where
  "row_of b = \<lparr>row_state = cb_state b, row_failureCount = failureCount b, row_lastFailureTime = lastFailureTime b,
     row_lastFailureKind = lastFailureKind b, row_openCycleCount = openCycleCount b,
     row_kindFailureCounts = kindFailureCounts b\<rparr>"

lemma row_persist [simp]: "row (persistToDb b) = Some (row_of b)" "row_of (persistToDb b) = row_of b"
  by (simp_all add: persistToDb_def row_of_def)

definition blank_row :: cb_row where
  "blank_row = \<lparr>row_state = CLOSED, row_failureCount = 0, row_lastFailureTime = None, row_lastFailureKind = None,
     row_openCycleCount = 0, row_kindFailureCounts = []\<rparr>"

text \<open>The table agrees with the breaker; a breaker without a row is as good as new.\<close>

definition synced :: "breaker \<Rightarrow> bool" where
  "synced b \<longleftrightarrow> kindThresholds b = (\<lambda>_. None) \<and> row_of b = (case row b of Some r \<Rightarrow> r | None \<Rightarrow> blank_row)"

lemma synced_persist: "synced (persistToDb b) \<longleftrightarrow> kindThresholds b = (\<lambda>_. None)"
  by (simp add: synced_def)

lemma synced_cong:
  "synced b \<Longrightarrow> kindThresholds b' = kindThresholds b \<Longrightarrow> row b' = row b \<Longrightarrow> row_of b' = row_of b \<Longrightarrow> synced b'"
  by (simp add: synced_def)

lemma synced_refresh: "synced b \<Longrightarrow> synced (refreshOpenState now b)"
  by (auto simp: refreshOpenState_def synced_persist row_of_def synced_def)

lemma synced_onSuccess: "synced b \<Longrightarrow> synced (onSuccess now b)"
  by (auto simp: onSuccess_def synced_persist synced_def Let_def)

lemma synced_onFailure: "synced b \<Longrightarrow> synced (onFailure now k b)"
  by (auto simp: onFailure_def synced_persist synced_def kind_trips_def total_transition_def openCircuit_eq Let_def
      split: option.splits circuit_state.split)

lemma synced_start: "synced b \<Longrightarrow> synced (snd (execute_start now b))"
  using synced_refresh [of b now]
  by (cases rule: execute_start_cases [of now b]) (auto simp: synced_def row_of_def)

lemma synced_apply_options: "synced b \<Longrightarrow> o_kindThresholds os = (\<lambda>_. None) \<Longrightarrow> synced (apply_options os b)"
  by (simp add: apply_options_def synced_persist synced_def Let_def)

definition no_kinds :: "(failure_kind \<Rightarrow> kind_threshold option) \<Rightarrow> bool" where
  "no_kinds f \<longleftrightarrow> f Rate_limit = None \<and> f Quota_exhausted = None \<and> f Transient = None"

lemma no_kinds_iff: "no_kinds f \<longleftrightarrow> f = (\<lambda>_. None)"
  unfolding no_kinds_def fun_eq_iff by (metis failure_kind.exhaust)

definition no_kind_options :: "cb_event \<Rightarrow> bool" where
  "no_kind_options ev = (case ev of Options os \<Rightarrow> no_kinds (o_kindThresholds os) | _ \<Rightarrow> True)"

inductive cb_plain :: "cb_event \<Rightarrow> cb_system \<Rightarrow> cb_system \<Rightarrow> bool" where
  plain_event: "cb_step ev s s' \<Longrightarrow> no_kind_options ev \<Longrightarrow> cb_plain ev s s'"

lemma synced_handle:
  assumes "synced (brk s)" "no_kind_options ev"
  shows "synced (brk (cb_handle now ev s))"
proof (cases ev)
  case Start
  then show ?thesis using synced_start [OF assms(1), of now] by (auto split: prod.split start_result.split)
next
  case (Resolve g cl)
  then show ?thesis
    using assms(1) synced_onSuccess synced_onFailure
    by (auto simp: execute_resolved_def recordResolvedResult_def split: result_outcome.split)
next
  case (Reject g f k)
  then show ?thesis using assms(1) synced_onFailure by (simp add: execute_rejected_def)
next
  case Inspect
  then show ?thesis using assms(1) synced_refresh by (simp add: getStatus_snd)
next
  case Reset
  then show ?thesis using assms(1) by (simp add: cb_reset_def synced_persist synced_def)
next
  case (Options os)
  then show ?thesis using assms synced_apply_options by (simp add: no_kind_options_def no_kinds_iff)
qed

interpretation persistent: step_system cb_plain "\<lambda>s. synced (brk s)"
  by unfold_locales (auto elim!: cb_plain.cases cb_stepE intro: synced_handle)

text \<open>
  C10. Crash safety. As long as no per-kind thresholds are configured, restarting the process at any
  moment loses nothing: a breaker restored from the table has the same state, failure count, last
  failure time and kind, escalation cycle and per-kind counts as the one that was running.
\<close>

theorem restart_restores:
  assumes "o_kindThresholds os = (\<lambda>_. None)"
    and "reaches cb_plain \<lparr>brk = new_breaker n os None, inflight = []\<rparr> s"
  shows "let b = brk s; b' = new_breaker n os (row b) in
    cb_state b' = cb_state b \<and> failureCount b' = failureCount b \<and> failure_time b' = failure_time b \<and>
    lastFailureKind b' = lastFailureKind b \<and> openCycleCount b' = openCycleCount b \<and>
    kindFailureCounts b' = kindFailureCounts b"
proof -
  have "synced (new_breaker n os None)"
    using assms(1) by (simp add: synced_def new_breaker_def restoreFromDb_def row_of_def blank_row_def Let_def)
  then have s: "synced (brk s)" using persistent.reaches_inv [OF assms(2)] by simp
  show ?thesis
  proof (cases "row (brk s)")
    case None
    then have "row_of (brk s) = blank_row" using s by (simp add: synced_def)
    then show ?thesis using None
      by (simp add: new_breaker_def restoreFromDb_def row_of_def blank_row_def failure_time_def Let_def)
  next
    case (Some r)
    then have "r = row_of (brk s)" using s by (simp add: synced_def)
    then show ?thesis using Some
      by (auto simp: new_breaker_def restoreFromDb_def row_of_def failure_time_def Let_def split: option.split)
  qed
qed

lemma cb_plain_handle: "cb_enabled ev s \<Longrightarrow> no_kind_options ev \<Longrightarrow> reaches cb_plain a s \<Longrightarrow> reaches cb_plain a (cb_handle now ev s)"
  by (rule reaches_more [where step = cb_plain], assumption, rule plain_event, rule cb_event) simp_all

theorem restart_restores_witness:
  "cb_state (brk cb_probing) = HALF_OPEN \<and> cb_state (new_breaker ''p'' no_options (row (brk cb_probing))) = HALF_OPEN"
proof -
  have r: "reaches cb_plain cb_demo cb_probing"
    unfolding cb_probing_def by (intro cb_plain_handle reaches_start; code_simp)
  have "o_kindThresholds no_options = (\<lambda>_. None)" by (simp add: no_options_def)
  moreover have "cb_state (brk cb_probing) = HALF_OPEN" by code_simp
  ultimately show ?thesis using restart_restores [of no_options "''p''" cb_probing] r by (simp add: cb_demo_def Let_def)
qed

text \<open>
  With a per-kind threshold the circuit opens without being saved: the branch returns before
  \<^verbatim>\<open>_persistToDb()\<close>, so the table still holds the previous state and a restart forgets the outage.
\<close>

theorem kind_open_not_saved:
  assumes "kindThresholds b k = Some cfg" "kind_trips k (count_failure now (Some k) b)"
  shows "cb_state (onFailure now (Some k) b) = OPEN \<and> row (onFailure now (Some k) b) = row b"
  using assms by (simp add: onFailure_def openCircuit_eq Let_def)

definition quota_options :: breaker_options where
  "quota_options = no_options\<lparr>o_kindThresholds := (\<lambda>k. if k = Quota_exhausted
     then Some \<lparr>kt_threshold = Some 1, kt_immediateOpen = True\<rparr> else None)\<rparr>"

theorem kind_open_not_saved_witness:
  "cb_state (onFailure 9 (Some Quota_exhausted) (new_breaker ''q'' quota_options None)) = OPEN \<and>
   row (onFailure 9 (Some Quota_exhausted) (new_breaker ''q'' quota_options None)) = None"
proof -
  have "kindThresholds (new_breaker ''q'' quota_options None) Quota_exhausted = Some \<lparr>kt_threshold = Some 1, kt_immediateOpen = True\<rparr>"
    "kind_trips Quota_exhausted (count_failure 9 (Some Quota_exhausted) (new_breaker ''q'' quota_options None))"
    "row (new_breaker ''q'' quota_options None) = None" by code_simp+
  then show ?thesis using kind_open_not_saved by metis
qed

text \<open>
  A failed probe whose kind has reached its own threshold re-opens the circuit without counting
  an escalation cycle, so its cooldown never backs off, although the class comment promises escalation
  on repeated open-probe-open cycles.
\<close>

theorem kind_probe_no_escalation:
  assumes "cb_state b = HALF_OPEN" "kind_trips k (count_failure now (Some k) b)"
  shows "cb_state (onFailure now (Some k) b) = OPEN \<and> openCycleCount (onFailure now (Some k) b) = openCycleCount b"
  using assms by (simp add: onFailure_def openCircuit_eq Let_def)

definition quota_half_open :: breaker where
  "quota_half_open = refreshOpenState 40000 (onFailure 9 (Some Quota_exhausted) (new_breaker ''q'' quota_options None))"

theorem kind_probe_no_escalation_witness:
  "cb_state quota_half_open = HALF_OPEN \<and> openCycleCount (onFailure 40001 (Some Quota_exhausted) quota_half_open) = 0"
proof -
  have "cb_state quota_half_open = HALF_OPEN" "openCycleCount quota_half_open = 0"
    "kind_trips Quota_exhausted (count_failure 40001 (Some Quota_exhausted) quota_half_open)" by code_simp+
  then show ?thesis using kind_probe_no_escalation by metis
qed


subsection \<open>History\<close>

fun chained :: "transition_record list \<Rightarrow> bool" where
  "chained (r # r' # rs) \<longleftrightarrow> tr_to r = tr_from r' \<and> chained (r' # rs)"
| "chained _ \<longleftrightarrow> True"

definition history_ok :: "breaker \<Rightarrow> bool" where
  "history_ok b \<longleftrightarrow> length (transitionHistory b) \<le> maxTransitionHistory \<and> chained (transitionHistory b) \<and>
     (transitionHistory b \<noteq> [] \<longrightarrow> tr_to (last (transitionHistory b)) = cb_state b)"

lemma chained_snoc: "chained rs \<Longrightarrow> (rs \<noteq> [] \<Longrightarrow> tr_to (last rs) = tr_from r) \<Longrightarrow> chained (rs @ [r])"
  by (induction rs rule: chained.induct) auto

lemma chained_tl: "chained rs \<Longrightarrow> chained (tl rs)"
  by (cases rs rule: chained.cases) auto

lemma push_history_ok:
  assumes "length h \<le> maxTransitionHistory" "chained h" "h \<noteq> [] \<Longrightarrow> tr_to (last h) = tr_from r"
  shows "length (push_history r h) \<le> maxTransitionHistory \<and> chained (push_history r h) \<and>
    push_history r h \<noteq> [] \<and> last (push_history r h) = r"
proof (cases "length h < maxTransitionHistory")
  case True
  then show ?thesis using assms chained_snoc [OF assms(2), of r] by (simp add: push_history_def Let_def)
next
  case False
  with assms(1) have l: "length h = maxTransitionHistory" by simp
  then obtain x xs where h: "h = x # xs" by (cases h) (auto simp: maxTransitionHistory_def)
  show ?thesis using l h chained_tl [OF chained_snoc [OF assms(2), of r]] assms(3)
    by (simp add: push_history_def Let_def)
qed

lemma transition_history: "history_ok b \<Longrightarrow> history_ok (transition now s why b)"
  using push_history_ok [of "transitionHistory b" "\<lparr>tr_from = cb_state b, tr_to = s, tr_timestamp = now,
     tr_failureCount = failureCount b, tr_reason = why\<rparr>"]
  by (auto simp: history_ok_def)

lemma history_cong: "history_ok b \<Longrightarrow> transitionHistory b' = transitionHistory b \<Longrightarrow> cb_state b' = cb_state b \<Longrightarrow> history_ok b'"
  by (simp add: history_ok_def)

lemma history_persist [simp]: "history_ok (persistToDb b) = history_ok b"
  by (simp add: history_ok_def)

lemma history_refresh: "history_ok b \<Longrightarrow> history_ok (refreshOpenState now b)"
  using transition_history [of b now] by (auto simp: refreshOpenState_def elim: history_cong)

lemma history_onSuccess: "history_ok b \<Longrightarrow> history_ok (onSuccess now b)"
proof -
  assume h: "history_ok b"
  have "history_ok (b\<lparr>successCount := x\<rparr>)" "history_ok (b\<lparr>failureCount := y\<rparr>)" for x y
    using h by (simp_all add: history_ok_def)
  note t = transition_history [OF h, of now] transition_history [OF this(1), of now] transition_history [OF this(2), of now] this(2)
  show ?thesis
    unfolding onSuccess_def Let_def history_persist
    by (simp; intro conjI impI; (rule t | rule history_cong, rule t; simp)?)
qed

lemma history_onFailure: "history_ok b \<Longrightarrow> history_ok (onFailure now k b)"
proof -
  assume h: "history_ok b"
  have c: "history_ok (count_failure now k b)" by (rule history_cong [OF h]) simp_all
  then have d: "history_ok ((count_failure now k b)\<lparr>openCycleCount := x\<rparr>)" for x by (rule history_cong) simp_all
  show ?thesis
    using c transition_history [OF c] transition_history [OF d]
    by (simp add: onFailure_def total_transition_def openCircuit_eq Let_def split: circuit_state.split)
qed

lemma history_handle:
  assumes h: "history_ok (brk s)"
  shows "history_ok (brk (cb_handle now ev s))"
proof (cases ev)
  case Start
  have "history_ok (snd (execute_start now (brk s)))"
    using history_refresh [OF h, of now]
    by (cases rule: execute_start_cases [of now "brk s"]) (auto elim: history_cong)
  then show ?thesis using Start by (auto split: prod.split start_result.split)
next
  case (Resolve g cl)
  then show ?thesis
    using h history_onSuccess history_onFailure
    by (auto simp: execute_resolved_def recordResolvedResult_def split: result_outcome.split)
next
  case (Reject g f k)
  then show ?thesis using h history_onFailure by (simp add: execute_rejected_def)
next
  case Inspect
  then show ?thesis using h history_refresh by (simp add: getStatus_snd)
next
  case Reset
  then show ?thesis using transition_history [OF h, of now CLOSED Manual_reset] by (auto simp: cb_reset_def elim: history_cong)
next
  case (Options os)
  then show ?thesis by (auto simp: apply_options_def Let_def intro: history_cong [OF h])
qed

interpretation history: step_system cb_step "\<lambda>s. history_ok (brk s)"
  by unfold_locales (auto elim!: cb_stepE intro: history_handle)

text \<open>
  The transition history is a faithful, bounded log: at most twenty entries, each starting where
  the previous one ended, the last one ending in the current state.
\<close>

theorem history_is_log:
  assumes "reaches cb_step \<lparr>brk = new_breaker n os r, inflight = []\<rparr> s"
  shows "length (transitionHistory (brk s)) \<le> 20 \<and> chained (transitionHistory (brk s)) \<and>
    (transitionHistory (brk s) = [] \<or> tr_to (last (transitionHistory (brk s))) = cb_state (brk s))"
proof -
  have "history_ok (new_breaker n os r)" by (simp add: history_ok_def new_breaker_simps)
  then have "history_ok (brk s)" using history.reaches_inv [OF assms] by simp
  then show ?thesis by (auto simp: history_ok_def maxTransitionHistory_def)
qed

theorem history_is_log_witness:
  "length (transitionHistory (brk cb_probing)) = 3 \<and> tr_to (last (transitionHistory (brk cb_probing))) = HALF_OPEN"
proof -
  have "reaches cb_step cb_demo cb_probing"
    using cb_probing_reach by (rule reaches_mono) (auto elim: cb_run.cases)
  moreover have "length (transitionHistory (brk cb_probing)) = 3" "cb_state (brk cb_probing) = HALF_OPEN" by code_simp+
  ultimately show ?thesis using history_is_log [of "''p''" no_options None cb_probing] by (auto simp: cb_demo_def)
qed


subsection \<open>Registry\<close>

lemma jdel_filter: "jdel k m = filter (\<lambda>(x, _). x \<noteq> k) m"
  unfolding jdel_def by (induction m) auto

lemma live_fold_drop: "live (fold drop_breaker ks r) = filter (\<lambda>(x, _). x \<notin> set ks) (live r)"
  by (induction ks arbitrary: r) (auto simp: drop_breaker_def jdel_filter intro: filter_cong)

lemma keys_refresh_all: "jkeys (live (refresh_all now r)) = jkeys (live r)"
  unfolding refresh_all_def by (simp add: comp_def case_prod_beta)

lemma length_refresh_all [simp]: "length (live (refresh_all now r)) = length (live r)"
  by (simp add: refresh_all_def)

lemma coldest_props:
  assumes "jmap_ok (live r)"
  shows "distinct (coldest r)" "set (coldest r) = {x. \<exists>b. (x, b) \<in> set (live r) \<and> cold b}"
    "length (coldest r) = length (filter (\<lambda>(n, b). cold b) (live r))"
proof -
  let ?k = "\<lambda>(n :: string, b). case lastFailureTime b of Some t \<Rightarrow> t | None \<Rightarrow> 0" and ?f = "filter (\<lambda>(n, b). cold b) (live r)"
  have "distinct (map fst ?f)" using assms by (simp add: jmap_ok_def distinct_map_filter)
  moreover have "mset (map fst (sort_key ?k ?f)) = mset (map fst ?f)" by simp
  ultimately show "distinct (coldest r)" unfolding coldest_def by (metis mset_eq_imp_distinct_iff)
  show "set (coldest r) = {x. \<exists>b. (x, b) \<in> set (live r) \<and> cold b}" by (force simp: coldest_def)
  show "length (coldest r) = length ?f" by (simp add: coldest_def)
qed

lemma length_filter_keys:
  "distinct (jkeys m) \<Longrightarrow> distinct ks \<Longrightarrow> set ks \<subseteq> set (jkeys m) \<Longrightarrow>
     length (filter (\<lambda>(x, _). x \<notin> set ks) m) + length ks = length m"
proof -
  assume d: "distinct (jkeys m)" "distinct ks" "set ks \<subseteq> set (jkeys m)"
  have "length (filter (\<lambda>(x, _). x \<in> set ks) m) = length ks"
  proof -
    have "distinct (map fst (filter (\<lambda>(x, _). x \<in> set ks) m))" using d(1) by (rule distinct_map_filter)
    then have "length (filter (\<lambda>(x, _). x \<in> set ks) m) = card (set (map fst (filter (\<lambda>(x, _). x \<in> set ks) m)))"
      by (metis distinct_card length_map)
    also have "set (map fst (filter (\<lambda>(x, _). x \<in> set ks) m)) = set ks" using d(3) by force
    finally show ?thesis using d(2) by (simp add: distinct_card)
  qed
  moreover have "length (filter (\<lambda>(x, _). x \<in> set ks) m) + length (filter (\<lambda>(x, _). x \<notin> set ks) m) = length m"
    by (induction m) auto
  ultimately show ?thesis by linarith
qed

lemma evict_spec:
  fixes now :: int
  assumes ok: "jmap_ok (live r)" and full: "MAX_REGISTRY_SIZE \<le> length (live r)"
  defines "r' \<equiv> evictColdBreakersIfNeeded now r"
  shows "\<And>n b. (n, b) \<in> set (live (refresh_all now r)) \<Longrightarrow> \<not> cold b \<Longrightarrow> (n, b) \<in> set (live r')"
    "Suc (length (live r')) \<le> MAX_REGISTRY_SIZE \<or> (\<forall>(n, b) \<in> set (live r'). \<not> cold b)" "jmap_ok (live r')"
    "set (live r') \<subseteq> set (live (refresh_all now r))"
proof -
  let ?r = "refresh_all now r"
  let ?d = "length (live ?r) - MAX_REGISTRY_SIZE + 1"
  let ?ks = "take ?d (coldest ?r)"
  have ok': "jmap_ok (live ?r)" using ok unfolding jmap_ok_def keys_refresh_all .
  note c = coldest_props [OF ok']
  have L: "live r' = filter (\<lambda>(x, _). x \<notin> set ?ks) (live ?r)"
    using full by (simp add: r'_def evictColdBreakersIfNeeded_def Let_def live_fold_drop)
  have sub: "set ?ks \<subseteq> {x. \<exists>b. (x, b) \<in> set (live ?r) \<and> cold b}" using c(2) by (metis set_take_subset)
  have keys: "{x. \<exists>b. (x, b) \<in> set (live ?r) \<and> cold b} \<subseteq> set (jkeys (live ?r))" by force
  show "(n, b) \<in> set (live r')" if "(n, b) \<in> set (live ?r)" "\<not> cold b" for n b
  proof -
    have "n \<notin> set ?ks"
    proof
      assume "n \<in> set ?ks"
      then obtain b' where b': "(n, b') \<in> set (live ?r)" "cold b'" using sub by blast
      then have "b' = b" using jget_mem [OF ok' b'(1)] jget_mem [OF ok' that(1)] by simp
      then show False using b'(2) that(2) by simp
    qed
    then show ?thesis using that(1) by (simp add: L)
  qed
  show "Suc (length (live r')) \<le> MAX_REGISTRY_SIZE \<or> (\<forall>(n, b) \<in> set (live r'). \<not> cold b)"
  proof (cases "?d \<le> length (coldest ?r)")
    case True
    have "length (live r') + length ?ks = length (live ?r)"
      unfolding L using ok' c(1) order_trans [OF sub keys] by (intro length_filter_keys) (simp_all add: jmap_ok_def)
    moreover have "length ?ks = length (live r) - MAX_REGISTRY_SIZE + 1" using True by simp
    ultimately have "Suc (length (live r')) \<le> MAX_REGISTRY_SIZE" using full length_refresh_all [of now r] by linarith
    then show ?thesis by blast
  next
    case False
    then have "?ks = coldest ?r" by simp
    then show ?thesis using c(2) by (auto simp: L)
  qed
  show "jmap_ok (live r')" using ok' by (simp add: L jmap_ok_def distinct_map_filter)
  show "set (live r') \<subseteq> set (live ?r)" by (auto simp: L)
qed

lemma keys_apply: "jget m n = Some b \<Longrightarrow> jkeys (jset n x m) = jkeys m"
  using jget_in_keys [of m n] by (simp add: jkeys_jset)

text \<open>
  The registry is bounded without losing information: asking for a breaker never evicts one that
  is open, half-open, degraded or has failures, and the registry outgrows its cap of 500 only when
  every older breaker in it carries such state.
\<close>

theorem registry_bounded:
  assumes ok: "jmap_ok (live r)" and new: "\<not> jhas (live r) n" and cap: "MAX_REGISTRY_SIZE \<le> length (live r)"
    and get: "getCircuitBreaker now n opts r = r'"
  shows "(\<forall>m b. (m, b) \<in> set (live (refresh_all now r)) \<longrightarrow> \<not> cold b \<longrightarrow> jget (live r') m = Some b) \<and>
    (length (live r') \<le> 500 \<or> (\<forall>m b. m \<noteq> n \<longrightarrow> jget (live r') m = Some b \<longrightarrow> \<not> cold b)) \<and> jhas (live r') n"
proof -
  let ?e = "evictColdBreakersIfNeeded now r"
  note e = evict_spec [OF ok cap, where now = now]
  have "n \<notin> set (jkeys (live (refresh_all now r)))" using new unfolding keys_refresh_all by simp
  then have nn: "n \<notin> set (jkeys (live ?e))" using image_mono [OF e(4), of fst] by auto
  have g: "jget (live r') m = jget (live ?e) m" if "m \<noteq> n" for m
    using that new by (auto simp: getCircuitBreaker_def Let_def simp flip: get split: option.split)
  have n: "jget (live r') n \<noteq> None"
    using new by (auto simp: getCircuitBreaker_def Let_def simp flip: get split: option.split)
  have "length (live r') = Suc (length (live ?e))"
  proof -
    have "length (jset n x (live ?e)) = Suc (length (live ?e))" for x using nn by (simp add: jset_append)
    moreover have "length (jset n y (jset n x (live ?e))) = length (jset n x (live ?e))" for x y
      using keys_apply [of "jset n x (live ?e)" n x y] by (metis jget_jset length_map)
    ultimately show ?thesis using new by (auto simp: getCircuitBreaker_def Let_def simp flip: get split: option.split)
  qed
  then have "length (live r') \<le> 500 \<or> (\<forall>(m, b) \<in> set (live ?e). \<not> cold b)"
    using e(2) by (simp add: MAX_REGISTRY_SIZE_def)
  moreover have "\<forall>m b. m \<noteq> n \<longrightarrow> jget (live r') m = Some b \<longrightarrow> \<not> cold b" if "\<forall>(m, b) \<in> set (live ?e). \<not> cold b"
    using that g by (fastforce dest: jget_SomeD)
  moreover have "jget (live r') m = Some b" if "(m, b) \<in> set (live (refresh_all now r))" "\<not> cold b" for m b
  proof -
    have i: "(m, b) \<in> set (live ?e)" by (rule e(1) [OF that])
    then have "m \<noteq> n" using nn by force
    then show ?thesis using g jget_mem [OF e(3) i] by simp
  qed
  ultimately show ?thesis using n unfolding jhas_def by blast
qed


definition full_registry :: registry where
  "full_registry = \<lparr>live = map (\<lambda>i. (replicate i CHR ''x'', new_breaker (replicate i CHR ''x'') no_options None)) [0..<500], stored = []\<rparr>"

theorem registry_bounded_witness:
  "length (live full_registry) = 500 \<and> jhas (live (getCircuitBreaker 7 ''y'' None full_registry)) ''y''"
proof -
  have k: "jkeys (live full_registry) = map (\<lambda>i. replicate i CHR ''x'') [0..<500]" by (simp add: full_registry_def comp_def)
  have l: "length (live full_registry) = 500" by (simp add: full_registry_def)
  have "inj_on (\<lambda>i. replicate i CHR ''x'') A" for A by (rule inj_onI) (metis length_replicate)
  then have "jmap_ok (live full_registry)" unfolding jmap_ok_def k by (simp add: distinct_map)
  moreover have "''y'' \<noteq> replicate i CHR ''x''" for i
  proof
    assume a: "''y'' = replicate i CHR ''x''"
    have "CHR ''y'' \<in> set ''y''" by simp
    then have "CHR ''y'' \<in> set (replicate i CHR ''x'')" unfolding a .
    then show False by (simp split: if_splits)
  qed
  then have "\<not> jhas (live full_registry) ''y''" unfolding jhas_iff k by auto
  ultimately show ?thesis
    using registry_bounded [of full_registry "''y''" 7 None] l by (simp add: MAX_REGISTRY_SIZE_def)
qed

text \<open>
  The registry comment calls a closed breaker without failures identical to a new one. It is not:
  successes in the closed state wear down the failure count but never the per-kind counts, so a
  breaker that evicts and recreates forgets kind failures that would have opened it.
\<close>

theorem cold_not_fresh:
  "\<exists>b os. b = onSuccess 2 (onFailure 1 (Some Rate_limit) (new_breaker ''p'' os None)) \<and> cold b \<and>
     cb_state (onFailure 3 (Some Rate_limit) b) = OPEN \<and>
     cb_state (onFailure 3 (Some Rate_limit) (new_breaker ''p'' os None)) = CLOSED"
proof -
  define os where "os = no_options\<lparr>o_kindThresholds := (\<lambda>k. Some \<lparr>kt_threshold = Some 2, kt_immediateOpen = False\<rparr>)\<rparr>"
  let ?n = "new_breaker ''p'' os None"
  have "cold (onSuccess 2 (onFailure 1 (Some Rate_limit) ?n))"
    "cb_state (onFailure 3 (Some Rate_limit) (onSuccess 2 (onFailure 1 (Some Rate_limit) ?n))) = OPEN"
    "cb_state (onFailure 3 (Some Rate_limit) ?n) = CLOSED"
    unfolding os_def by code_simp+
  then show ?thesis by blast
qed

end
