(* ===== verification/Rate_Limit_Semaphore.thy ===== *)
theory Rate_Limit_Semaphore
  imports Js_Prelude Step_Systems
begin

text \<open>
  The per-model concurrency limiter of \<^verbatim>\<open>open-sse/services/rateLimitSemaphore.ts\<close>. Gate objects are
  captured by timer callbacks and can outlive their entry in the map, so they live in an explicit heap
  and the map points into it. A ticket names one \<^verbatim>\<open>acquire\<close>; \<open>holders\<close> are the release functions not
  yet called, \<open>waits\<close> the armed timeout timers, \<open>cooldowns\<close> the timers of \<^verbatim>\<open>markRateLimited\<close>, and
  \<open>outcomes\<close> the settlement log of the queued promises.
\<close>

section \<open>State\<close>

record mgate =
  rg_running :: int
  rg_max :: int
  rg_queue :: "nat list"
  rg_until :: "int option"

datatype rl_outcome = Granted | Timed_out | Was_reset

datatype rl_result = Slot nat | Queue_full | Waiting nat

record rl_state =
  heap :: "nat \<Rightarrow> mgate"
  gates :: "(string, nat) jmap"
  next_gate :: nat
  next_ticket :: nat
  holders :: "(nat \<times> string) list"
  waits :: "(nat \<times> nat) list"
  cooldowns :: "(nat \<times> string) list"
  outcomes :: "(nat \<times> rl_outcome) list"

definition rl_init :: rl_state where
  "rl_init = \<lparr>heap = (\<lambda>_. \<lparr>rg_running = 0, rg_max = 0, rg_queue = [], rg_until = None\<rparr>), gates = [], next_gate = 0,
     next_ticket = 0, holders = [], waits = [], cooldowns = [], outcomes = []\<rparr>"

definition put :: "nat \<Rightarrow> mgate \<Rightarrow> rl_state \<Rightarrow> rl_state" where
  "put i g s = s\<lparr>heap := (heap s)(i := g)\<rparr>"

section \<open>Operations\<close>

definition getGate :: "string \<Rightarrow> int \<Rightarrow> rl_state \<Rightarrow> nat \<times> rl_state" where
  "getGate m mx s =
     (case jget (gates s) m of
        Some i \<Rightarrow> (i, put i ((heap s i)\<lparr>rg_max := mx\<rparr>) s)
      | None \<Rightarrow>
          (let i = next_gate s in
           (i, put i \<lparr>rg_running = 0, rg_max = mx, rg_queue = [], rg_until = None\<rparr>
                 (s\<lparr>gates := jset m i (gates s), next_gate := i + 1\<rparr>))))"

definition limited_until :: "mgate \<Rightarrow> int option" where
  "limited_until g = (if rg_until g = Some 0 then None else rg_until g)"

definition isRateLimited :: "int \<Rightarrow> nat \<Rightarrow> rl_state \<Rightarrow> bool \<times> rl_state" where
  "isRateLimited now i s =
     (case limited_until (heap s i) of
        None \<Rightarrow> (False, s)
      | Some u \<Rightarrow> if now \<ge> u then (False, put i ((heap s i)\<lparr>rg_until := None\<rparr>) s) else (True, s))"

definition grant :: "string \<Rightarrow> nat \<Rightarrow> nat \<Rightarrow> rl_state \<Rightarrow> rl_state" where
  "grant m i t s =
     (put i ((heap s i)\<lparr>rg_running := rg_running (heap s i) + 1\<rparr>) s)\<lparr>holders := (t, m) # holders s\<rparr>"

definition pop :: "string \<Rightarrow> nat \<Rightarrow> rl_state \<Rightarrow> rl_state" where
  "pop m i s =
     (let g = heap s i; t = hd (rg_queue g) in
      (grant m i t (put i (g\<lparr>rg_queue := tl (rg_queue g)\<rparr>) s))
        \<lparr>waits := filter (\<lambda>(t', _). t' \<noteq> t) (waits s), outcomes := outcomes s @ [(t, Granted)]\<rparr>)"

lemma heap_put [simp]: "heap (put i g s) j = (if j = i then g else heap s j)"
  by (simp add: put_def)

lemma put_frame [simp]:
  "gates (put i g s) = gates s" "next_gate (put i g s) = next_gate s" "next_ticket (put i g s) = next_ticket s"
  "holders (put i g s) = holders s" "waits (put i g s) = waits s" "cooldowns (put i g s) = cooldowns s"
  "outcomes (put i g s) = outcomes s"
  by (simp_all add: put_def)

lemma isRateLimited_heap:
  assumes "isRateLimited now i s = (b, s')"
  shows "rg_queue (heap s' j) = rg_queue (heap s j)" "rg_running (heap s' j) = rg_running (heap s j)"
    "rg_max (heap s' j) = rg_max (heap s j)" "gates s' = gates s" "holders s' = holders s" "next_gate s' = next_gate s"
    "next_ticket s' = next_ticket s"
  using assms by (auto simp: isRateLimited_def split: option.splits if_splits)

lemma pop_queue [simp]: "rg_queue (heap (pop m i s) i) = tl (rg_queue (heap s i))"
  by (simp add: pop_def grant_def Let_def)

lemma drain_measure:
  assumes "(b, s') = isRateLimited now i s" "rg_queue (heap s i) \<noteq> []"
  shows "length (rg_queue (heap s' i)) - Suc 0 < length (rg_queue (heap s i))"
  using isRateLimited_heap(1) [OF assms(1) [symmetric], of i] assms(2) by simp

text \<open>The loop of \<^verbatim>\<open>drainQueue\<close>; the rate-limit test runs only when the first two conditions hold.\<close>

function drain_gate :: "int \<Rightarrow> string \<Rightarrow> nat \<Rightarrow> rl_state \<Rightarrow> rl_state" where
  "drain_gate now m i s =
     (if rg_queue (heap s i) \<noteq> [] \<and> rg_running (heap s i) < rg_max (heap s i) then
        (case isRateLimited now i s of
           (True, s1) \<Rightarrow> s1
         | (False, s1) \<Rightarrow> drain_gate now m i (pop m i s1))
      else s)"
  by pat_completeness auto
termination
  by (relation "measure (\<lambda>(now, m, i, s). length (rg_queue (heap s i)))")
    (auto intro: drain_measure)

declare drain_gate.simps [simp del]

definition drop_if_idle :: "string \<Rightarrow> nat \<Rightarrow> rl_state \<Rightarrow> rl_state" where
  "drop_if_idle m i s =
     (if rg_running (heap s i) = 0 \<and> rg_queue (heap s i) = [] then s\<lparr>gates := jdel m (gates s)\<rparr> else s)"

definition drainQueue :: "int \<Rightarrow> string \<Rightarrow> rl_state \<Rightarrow> rl_state" where
  "drainQueue now m s =
     (case jget (gates s) m of None \<Rightarrow> s | Some i \<Rightarrow> drop_if_idle m i (drain_gate now m i s))"

text \<open>The release function of a ticket; the second call finds the ticket gone.\<close>

definition release_slot :: "int \<Rightarrow> nat \<Rightarrow> rl_state \<Rightarrow> rl_state" where
  "release_slot now t s =
     (case map_of (holders s) t of
        None \<Rightarrow> s
      | Some m \<Rightarrow>
          (let s1 = s\<lparr>holders := filter (\<lambda>(t', _). t' \<noteq> t) (holders s)\<rparr> in
           case jget (gates s1) m of
             None \<Rightarrow> s1
           | Some i \<Rightarrow>
               if rg_running (heap s1 i) > 0 then
                 (let s2 = put i ((heap s1 i)\<lparr>rg_running := rg_running (heap s1 i) - 1\<rparr>) s1 in
                  if rg_running (heap s2 i) = 0 \<and> rg_queue (heap s2 i) = [] then s2\<lparr>gates := jdel m (gates s2)\<rparr>
                  else drainQueue now m s2)
               else s1))"

definition acquire_slot :: "int \<Rightarrow> string \<Rightarrow> int \<Rightarrow> int option \<Rightarrow> rl_state \<Rightarrow> rl_result \<times> rl_state" where
  "acquire_slot now m maxConcurrency maxQueueSize s =
     (let (i, s1) = getGate m maxConcurrency s;
          t = next_ticket s1;
          (free, s2) = (if rg_running (heap s1 i) < rg_max (heap s1 i)
                        then (let (lim, s') = isRateLimited now i s1 in (\<not> lim, s')) else (False, s1));
          s3 = s2\<lparr>next_ticket := t + 1\<rparr>
      in if free then (Slot t, grant m i t s3)
         else if (case maxQueueSize of Some n \<Rightarrow> n \<ge> 0 \<and> int (length (rg_queue (heap s3 i))) \<ge> n | None \<Rightarrow> False)
         then (Queue_full, drop_if_idle m i s3)
         else (Waiting t, (put i ((heap s3 i)\<lparr>rg_queue := rg_queue (heap s3 i) @ [t]\<rparr>) s3)\<lparr>waits := waits s3 @ [(t, i)]\<rparr>))"

definition timeout_fired :: "nat \<Rightarrow> rl_state \<Rightarrow> rl_state" where
  "timeout_fired t s =
     (case map_of (waits s) t of
        None \<Rightarrow> s
      | Some i \<Rightarrow>
          (put i ((heap s i)\<lparr>rg_queue := remove1 t (rg_queue (heap s i))\<rparr>) s)
            \<lparr>waits := filter (\<lambda>(t', _). t' \<noteq> t) (waits s), outcomes := outcomes s @ [(t, Timed_out)]\<rparr>)"

definition markRateLimited :: "int \<Rightarrow> string \<Rightarrow> int \<Rightarrow> rl_state \<Rightarrow> rl_state" where
  "markRateLimited now m cooldownMs s =
     (let (i, s1) = getGate m (case jget (gates s) m of Some j \<Rightarrow> rg_max (heap s j) | None \<Rightarrow> 3) s in
      (put i ((heap s1 i)\<lparr>rg_until := Some (now + cooldownMs)\<rparr>) s1)\<lparr>cooldowns := (i, m) # cooldowns s1\<rparr>)"

definition cooldown_fired :: "int \<Rightarrow> nat \<Rightarrow> string \<Rightarrow> rl_state \<Rightarrow> rl_state" where
  "cooldown_fired now i m s =
     (let s1 = s\<lparr>cooldowns := remove1 (i, m) (cooldowns s)\<rparr> in
      case limited_until (heap s1 i) of
        Some u \<Rightarrow> if now \<ge> u then drainQueue now m (put i ((heap s1 i)\<lparr>rg_until := None\<rparr>) s1) else s1
      | None \<Rightarrow> s1)"

definition rl_resetAll :: "rl_state \<Rightarrow> rl_state" where
  "rl_resetAll s =
     (let ts = concat (map (\<lambda>(m, i). rg_queue (heap s i)) (gates s)) in
      s\<lparr>gates := [], waits := filter (\<lambda>(t, _). t \<notin> set ts) (waits s),
        outcomes := outcomes s @ map (\<lambda>t. (t, Was_reset)) ts\<rparr>)"

record rl_stats =
  rs_running :: int
  rs_queued :: nat
  rs_max :: int
  rs_until :: "int option"

definition rl_getStats :: "rl_state \<Rightarrow> (string \<times> rl_stats) list" where
  "rl_getStats s = map (\<lambda>(m, i). (m, \<lparr>rs_running = rg_running (heap s i), rs_queued = length (rg_queue (heap s i)),
     rs_max = rg_max (heap s i), rs_until = limited_until (heap s i)\<rparr>)) (gates s)"

section \<open>Events\<close>

datatype rl_event =
    Acquire_slot string int "int option"
  | Release_slot nat
  | Timeout_slot nat
  | Mark_limited string int
  | Cooldown_over nat string

fun rl_handle :: "int \<Rightarrow> rl_event \<Rightarrow> rl_state \<Rightarrow> rl_state" where
  "rl_handle now (Acquire_slot m mx mq) s = snd (acquire_slot now m mx mq s)"
| "rl_handle now (Release_slot t) s = release_slot now t s"
| "rl_handle now (Timeout_slot t) s = timeout_fired t s"
| "rl_handle now (Mark_limited m cd) s = markRateLimited now m cd s"
| "rl_handle now (Cooldown_over i m) s = cooldown_fired now i m s"

fun rl_enabled :: "rl_event \<Rightarrow> rl_state \<Rightarrow> bool" where
  "rl_enabled (Timeout_slot t) s \<longleftrightarrow> t \<in> fst ` set (waits s)"
| "rl_enabled (Cooldown_over i m) s \<longleftrightarrow> (i, m) \<in> set (cooldowns s)"
| "rl_enabled _ s \<longleftrightarrow> True"

text \<open>Histories in which every \<^verbatim>\<open>acquire\<close> for a model stays within a limit \<open>L\<close>.\<close>

inductive rl_step :: "(string \<Rightarrow> int) \<Rightarrow> rl_event \<Rightarrow> rl_state \<Rightarrow> rl_state \<Rightarrow> bool" for L where
  rl_event: "rl_enabled ev s \<Longrightarrow> (\<And>m mx mq. ev = Acquire_slot m mx mq \<Longrightarrow> mx \<le> L m) \<Longrightarrow> rl_step L ev s (rl_handle now ev s)"

section \<open>Invariant\<close>

definition held_by :: "rl_state \<Rightarrow> string \<Rightarrow> int" where
  "held_by s m = int (length (filter (\<lambda>(t, m'). m' = m) (holders s)))"


definition gate_ok :: "int \<Rightarrow> mgate \<Rightarrow> bool" where
  "gate_ok l g \<longleftrightarrow> rg_running g \<le> l \<and> (rg_max g \<le> l \<or> rg_running g = 0 \<and> rg_queue g = [])"

definition gates_ok :: "(string \<Rightarrow> int) \<Rightarrow> rl_state \<Rightarrow> bool" where
  "gates_ok L s \<longleftrightarrow>
     (\<forall>m i. jget (gates s) m = Some i \<longrightarrow> i < next_gate s \<and> rg_running (heap s i) = held_by s m \<and> gate_ok (L m) (heap s i)) \<and>
     (\<forall>m. jget (gates s) m = None \<longrightarrow> held_by s m = 0) \<and>
     (\<forall>m m' i. jget (gates s) m = Some i \<longrightarrow> jget (gates s) m' = Some i \<longrightarrow> m = m')"

definition tickets_ok :: "rl_state \<Rightarrow> bool" where
  "tickets_ok s \<longleftrightarrow> distinct (map fst (holders s)) \<and> (\<forall>t m. (t, m) \<in> set (holders s) \<longrightarrow> t < next_ticket s) \<and>
     (\<forall>i t. t \<in> set (rg_queue (heap s i)) \<longrightarrow> t < next_ticket s \<and> (\<forall>m. (t, m) \<notin> set (holders s))) \<and>
     (\<forall>i. distinct (rg_queue (heap s i))) \<and>
     (\<forall>i j t. t \<in> set (rg_queue (heap s i)) \<longrightarrow> t \<in> set (rg_queue (heap s j)) \<longrightarrow> i = j)"

definition rl_inv :: "(string \<Rightarrow> int) \<Rightarrow> rl_state \<Rightarrow> bool" where
  "rl_inv L s \<longleftrightarrow> gates_ok L s \<and> tickets_ok s"

lemma held_nonneg [simp]: "0 \<le> held_by s m"
  by (simp add: held_by_def)

lemma held_cong: "holders s' = holders s \<Longrightarrow> held_by s' m = held_by s m"
  by (simp add: held_by_def)

lemma held_update [simp]:
  "held_by (s\<lparr>heap := h\<rparr>) = held_by s" "held_by (s\<lparr>gates := gs\<rparr>) = held_by s" "held_by (s\<lparr>next_ticket := n\<rparr>) = held_by s"
  "held_by (s\<lparr>waits := w\<rparr>) = held_by s" "held_by (s\<lparr>cooldowns := c\<rparr>) = held_by s" "held_by (s\<lparr>outcomes := oc\<rparr>) = held_by s"
  "held_by (s\<lparr>next_gate := n\<rparr>) = held_by s" "held_by (put i g s) = held_by s"
  by (auto simp: held_by_def fun_eq_iff)

lemma rl_inv_frame [simp]:
  "rl_inv L (s\<lparr>waits := w\<rparr>) = rl_inv L s" "rl_inv L (s\<lparr>cooldowns := c\<rparr>) = rl_inv L s" "rl_inv L (s\<lparr>outcomes := oc\<rparr>) = rl_inv L s"
  by (simp_all add: rl_inv_def gates_ok_def tickets_ok_def)

lemma gates_okD:
  assumes "gates_ok L s"
  shows "jget (gates s) m = Some i \<Longrightarrow> i < next_gate s \<and> rg_running (heap s i) = held_by s m \<and> gate_ok (L m) (heap s i)"
    and "jget (gates s) m = None \<Longrightarrow> held_by s m = 0"
    and "jget (gates s) m = Some i \<Longrightarrow> jget (gates s) m' = Some i \<Longrightarrow> m = m'"
  using assms unfolding gates_ok_def by blast+

lemma tickets_okD: "tickets_ok s \<Longrightarrow> t \<in> set (rg_queue (heap s i)) \<Longrightarrow> t < next_ticket s \<and> (\<forall>m. (t, m) \<notin> set (holders s))"
  unfolding tickets_ok_def by blast

lemma rl_inv_init: "(\<And>m. 0 \<le> L m) \<Longrightarrow> rl_inv L rl_init"
  by (simp add: rl_inv_def gates_ok_def tickets_ok_def rl_init_def held_by_def)

text \<open>A write to a gate that leaves \<^verbatim>\<open>running\<close> and shrinks or keeps the queue.\<close>

lemma rl_inv_put:
  assumes "rl_inv L s" "rg_running g = rg_running (heap s i)"
    and "rg_queue g = rg_queue (heap s i) \<or> (\<exists>t. rg_queue g = remove1 t (rg_queue (heap s i)))"
    and "\<And>m. jget (gates s) m = Some i \<Longrightarrow> rg_max g \<le> L m \<or> rg_max g = rg_max (heap s i) \<or> rg_running g = 0 \<and> rg_queue g = []"
  shows "rl_inv L (put i g s)"
proof -
  have sub: "set (rg_queue g) \<subseteq> set (rg_queue (heap s i))" using assms(3) by (auto dest: set_remove1_subset [THEN subsetD])
  have gs: "gates_ok L s" and ts: "tickets_ok s" using assms(1) by (auto simp: rl_inv_def)
  have dis: "distinct (rg_queue g)" using assms(1,3) by (auto simp: rl_inv_def tickets_ok_def)
  have e: "rg_queue (heap s i) = [] \<Longrightarrow> rg_queue g = []" using sub by auto
  have "gates_ok L (put i g s)"
    unfolding gates_ok_def
  proof (intro conjI allI impI)
    fix m j assume "jget (gates (put i g s)) m = Some j"
    then have m: "jget (gates s) m = Some j" by simp
    then have "j < next_gate s" "rg_running (heap s j) = held_by s m" "gate_ok (L m) (heap s j)"
      using gates_okD(1) [OF gs] by blast+
    then show "j < next_gate (put i g s)" "rg_running (heap (put i g s) j) = held_by (put i g s) m"
      "gate_ok (L m) (heap (put i g s) j)"
      using assms(2) assms(4) [of m] m e by (auto simp: gate_ok_def)
  qed (use gates_okD(2,3) [OF gs] in auto)
  moreover have "tickets_ok (put i g s)"
    unfolding tickets_ok_def using ts sub dis by (auto simp: tickets_ok_def)
  ultimately show ?thesis by (simp add: rl_inv_def)
qed

lemma rl_inv_drop:
  assumes "rl_inv L s" "jget (gates s) m = Some i" shows "rl_inv L (drop_if_idle m i s)"
  using assms by (auto simp: drop_if_idle_def rl_inv_def gates_ok_def tickets_ok_def)

text \<open>Granting a slot.\<close>

lemma rl_inv_grant:
  assumes "rl_inv L s" "jget (gates s) m = Some i" "rg_running (heap s i) < rg_max (heap s i)" "rg_max (heap s i) \<le> L m"
    and "t < next_ticket s" "\<And>m. (t, m) \<notin> set (holders s)" "\<And>j. t \<notin> set (rg_queue (heap s j))"
  shows "rl_inv L (grant m i t s)"
proof -
  have gs: "gates_ok L s" and ts: "tickets_ok s" using assms(1) by (auto simp: rl_inv_def)
  have held: "held_by (grant m i t s) m' = held_by s m' + (if m' = m then 1 else 0)" for m'
    by (simp add: grant_def held_by_def)
  have gt: "gates (grant m i t s) = gates s" "next_gate (grant m i t s) = next_gate s" by (simp_all add: grant_def)
  have hp: "heap (grant m i t s) j = (if j = i then (heap s i)\<lparr>rg_running := rg_running (heap s i) + 1\<rparr> else heap s j)" for j
    by (simp add: grant_def)
  have "gates_ok L (grant m i t s)"
    unfolding gates_ok_def gt
  proof (intro conjI allI impI)
    fix m' j assume m': "jget (gates s) m' = Some j"
    then have *: "j < next_gate s" "rg_running (heap s j) = held_by s m'" "gate_ok (L m') (heap s j)"
      using gates_okD(1) [OF gs] by blast+
    have ij: "j = i \<longleftrightarrow> m' = m" using gates_okD(3) [OF gs] m' assms(2) by auto
    show "j < next_gate s" by (rule *(1))
    show "rg_running (heap (grant m i t s) j) = held_by (grant m i t s) m'" using * ij by (auto simp: hp held)
    show "gate_ok (L m') (heap (grant m i t s) j)" using * ij assms(3,4) by (auto simp: hp gate_ok_def)
  next
    fix m' assume "jget (gates s) m' = None"
    then show "held_by (grant m i t s) m' = 0" using gates_okD(2) [OF gs] assms(2) by (auto simp: held)
  qed (use gates_okD(3) [OF gs] in blast)
  moreover have "tickets_ok (grant m i t s)"
    using ts assms(5-7) unfolding tickets_ok_def by (auto simp: grant_def)
  ultimately show ?thesis by (simp add: rl_inv_def)
qed

lemma isRateLimited_inv:
  assumes "isRateLimited now i s = (b, s')" "rl_inv L s" shows "rl_inv L s'"
proof (cases "s' = s")
  case False
  then have "s' = put i ((heap s i)\<lparr>rg_until := None\<rparr>) s" using assms(1) by (auto simp: isRateLimited_def split: option.splits if_splits)
  then show ?thesis using assms(2) by (auto intro!: rl_inv_put)
qed (use assms(2) in simp)

lemma rl_inv_pop:
  assumes "rl_inv L s" "jget (gates s) m = Some i" "rg_running (heap s i) < rg_max (heap s i)" "rg_queue (heap s i) \<noteq> []"
  shows "rl_inv L (pop m i s)"
proof -
  obtain t q where q: "rg_queue (heap s i) = t # q" using assms(4) by (cases "rg_queue (heap s i)") auto
  define s1 where "s1 = put i ((heap s i)\<lparr>rg_queue := q\<rparr>) s"
  have gs: "gates_ok L s" and ts: "tickets_ok s" using assms(1) by (auto simp: rl_inv_def)
  have mx: "rg_max (heap s i) \<le> L m" using gates_okD(1) [OF gs assms(2)] q by (auto simp: gate_ok_def)
  have "rl_inv L s1" unfolding s1_def by (rule rl_inv_put [OF assms(1)]) (use q in \<open>auto intro: exI [of _ t]\<close>)
  moreover have "t < next_ticket s" "(t, m') \<notin> set (holders s)" for m'
    using tickets_okD [OF ts, of t i] q by auto
  moreover have "t \<notin> set (rg_queue (heap s1 j))" for j
  proof (cases "j = i")
    case True
    have "distinct (rg_queue (heap s i))" using ts by (simp add: tickets_ok_def)
    then show ?thesis using True q by (simp add: s1_def)
  next
    case False
    have "t \<in> set (rg_queue (heap s i))" using q by simp
    then have "t \<notin> set (rg_queue (heap s j))" using ts False unfolding tickets_ok_def by blast
    then show ?thesis using False by (simp add: s1_def)
  qed
  ultimately have "rl_inv L (grant m i t s1)"
    by (intro rl_inv_grant) (use assms(2,3) mx in \<open>auto simp: s1_def\<close>)
  then show ?thesis using q by (simp add: pop_def Let_def s1_def)
qed

lemma pop_frame [simp]: "gates (pop m i s) = gates s"
  by (simp add: pop_def grant_def Let_def)

lemma drain_gate_inv:
  assumes "rl_inv L s" "jget (gates s) m = Some i"
  shows "rl_inv L (drain_gate now m i s) \<and> gates (drain_gate now m i s) = gates s"
  using assms
proof (induction now m i s rule: drain_gate.induct)
  case (1 now m i s)
  obtain b s1 where l: "isRateLimited now i s = (b, s1)" by fastforce
  note same = isRateLimited_heap [OF l] isRateLimited_inv [OF l 1(2)]
  show ?case
  proof (cases "rg_queue (heap s i) \<noteq> [] \<and> rg_running (heap s i) < rg_max (heap s i) \<and> \<not> b")
    case True
    then have "rl_inv L (pop m i s1)" by (intro rl_inv_pop) (use same 1(3) in auto)
    then show ?thesis using 1(1) [OF _ l [symmetric] _] True l same 1(3) by (subst (1 2) drain_gate.simps) simp
  next
    case False
    then show ?thesis using l same 1(2,3) by (subst (1 2) drain_gate.simps) auto
  qed
qed

lemma drainQueue_inv: "rl_inv L s \<Longrightarrow> rl_inv L (drainQueue now m s)"
  using drain_gate_inv [of L s m _ now] by (auto simp: drainQueue_def intro!: rl_inv_drop split: option.split)


text \<open>The gate of a model, created when missing.\<close>

lemma getGate_spec:
  assumes "getGate m mx s = (i, s')" "rl_inv L s" "0 \<le> L m"
    and "mx \<le> L m \<or> (\<forall>j. jget (gates s) m = Some j \<longrightarrow> mx = rg_max (heap s j))"
  shows "rl_inv L s'" "jget (gates s') m = Some i" "rg_max (heap s' i) = mx" "next_ticket s' = next_ticket s"
proof -
  have gs: "gates_ok L s" and ts: "tickets_ok s" using assms(2) by (auto simp: rl_inv_def)
  show "jget (gates s') m = Some i" "rg_max (heap s' i) = mx" "next_ticket s' = next_ticket s"
    using assms(1) by (auto simp: getGate_def Let_def split: option.splits)
  show "rl_inv L s'"
  proof (cases "jget (gates s) m")
    case (Some j)
    have "rl_inv L (put j ((heap s j)\<lparr>rg_max := mx\<rparr>) s)"
    proof (rule rl_inv_put [OF assms(2)])
      fix m' assume "jget (gates s) m' = Some j"
      then have "m' = m" using Some gates_okD(3) [OF gs] by blast
      then show "rg_max ((heap s j)\<lparr>rg_max := mx\<rparr>) \<le> L m' \<or> rg_max ((heap s j)\<lparr>rg_max := mx\<rparr>) = rg_max (heap s j) \<or>
        rg_running ((heap s j)\<lparr>rg_max := mx\<rparr>) = 0 \<and> rg_queue ((heap s j)\<lparr>rg_max := mx\<rparr>) = []"
        using assms(4) Some by auto
    qed simp_all
    then show ?thesis using assms(1) Some by (auto simp: getGate_def)
  next
    case None
    define g where "g = \<lparr>rg_running = 0, rg_max = mx, rg_queue = [], rg_until = None\<rparr>"
    have s': "s' = put (next_gate s) g (s\<lparr>gates := jset m (next_gate s) (gates s), next_gate := next_gate s + 1\<rparr>)"
      using assms(1) None by (auto simp: getGate_def Let_def g_def)
    have "gates_ok L s'"
      unfolding gates_ok_def
    proof (intro conjI allI impI)
      fix m' j assume j: "jget (gates s') m' = Some j"
      show "j < next_gate s'" "rg_running (heap s' j) = held_by s' m'" "gate_ok (L m') (heap s' j)"
        using j gates_okD(1) [OF gs, of m' j] gates_okD(2) [OF gs None] assms(3)
        by (auto simp: s' g_def gate_ok_def split: if_splits)
    next
      fix m' assume "jget (gates s') m' = None"
      then show "held_by s' m' = 0" using gates_okD(2) [OF gs, of m'] by (auto simp: s' split: if_splits)
    next
      fix m1 m2 j assume "jget (gates s') m1 = Some j" "jget (gates s') m2 = Some j"
      then show "m1 = m2" using gates_okD(1) [OF gs, of m1 j] gates_okD(1) [OF gs, of m2 j] gates_okD(3) [OF gs, of m1 j m2]
        by (auto simp: s' split: if_splits)
    qed
    moreover have "tickets_ok s'" using ts by (auto simp: tickets_ok_def s' g_def)
    ultimately show ?thesis by (simp add: rl_inv_def)
  qed
qed

lemma rl_inv_ticket: "rl_inv L s \<Longrightarrow> next_ticket s \<le> n \<Longrightarrow> rl_inv L (s\<lparr>next_ticket := n\<rparr>)"
  by (fastforce simp: rl_inv_def gates_ok_def tickets_ok_def)

lemma rl_inv_enqueue:
  assumes "rl_inv L s" "rg_max (heap s i) \<le> L m" "jget (gates s) m = Some i"
    and "t < next_ticket s" "\<And>m. (t, m) \<notin> set (holders s)" "\<And>j. t \<notin> set (rg_queue (heap s j))"
  shows "rl_inv L (put i ((heap s i)\<lparr>rg_queue := rg_queue (heap s i) @ [t]\<rparr>) s)"
proof -
  let ?s = "put i ((heap s i)\<lparr>rg_queue := rg_queue (heap s i) @ [t]\<rparr>) s"
  have gs: "gates_ok L s" and ts: "tickets_ok s" using assms(1) by (auto simp: rl_inv_def)
  have "gates_ok L ?s"
    unfolding gates_ok_def
  proof (intro conjI allI impI)
    fix m' j assume "jget (gates ?s) m' = Some j"
    then have j: "jget (gates s) m' = Some j" by simp
    show "j < next_gate ?s" "rg_running (heap ?s j) = held_by ?s m'" "gate_ok (L m') (heap ?s j)"
      using gates_okD(1) [OF gs j] gates_okD(3) [OF gs j, of m] assms(2,3) by (auto simp: gate_ok_def)
  qed (use gates_okD(2,3) [OF gs] in auto)
  moreover have "tickets_ok ?s"
    using ts assms(4-6) unfolding tickets_ok_def by (simp add: all_conj_distrib) blast
  ultimately show ?thesis by (simp add: rl_inv_def)
qed


lemma acquire_slot_inv:
  assumes "rl_inv L s" "mx \<le> L m" "0 \<le> L m"
  shows "rl_inv L (snd (acquire_slot now m mx mq s))"
proof -
  obtain i s1 where g: "getGate m mx s = (i, s1)" by fastforce
  have "mx \<le> L m \<or> (\<forall>j. jget (gates s) m = Some j \<longrightarrow> mx = rg_max (heap s j))" using assms(2) by simp
  note gg = getGate_spec [OF g assms(1,3) this]
  obtain free s2 where f: "(if rg_running (heap s1 i) < rg_max (heap s1 i)
       then (let (lim, s') = isRateLimited now i s1 in (\<not> lim, s')) else (False, s1)) = (free, s2)" by fastforce
  have s2: "rl_inv L s2 \<and> jget (gates s2) m = Some i \<and> rg_max (heap s2 i) = mx \<and> next_ticket s2 = next_ticket s1"
    "free \<Longrightarrow> rg_running (heap s2 i) < mx"
    using f gg isRateLimited_inv [OF _ gg(1)] isRateLimited_heap [of now i s1] by (auto split: if_splits prod.splits)
  define t where "t = next_ticket s1"
  define s3 where "s3 = s2\<lparr>next_ticket := t + 1\<rparr>"
  have ts: "tickets_ok s2" using s2 by (simp add: rl_inv_def)
  have t: "t < next_ticket s3" "(t, m') \<notin> set (holders s3)" "t \<notin> set (rg_queue (heap s3 j))" for m' j
    using ts s2 unfolding tickets_ok_def by (auto simp: s3_def t_def)
  have s3: "rl_inv L s3" using s2 by (auto simp: s3_def t_def intro: rl_inv_ticket)
  have gr: "rl_inv L (grant m i t s3)" if free
    using s2 that assms(2) t by (intro rl_inv_grant [OF s3]) (auto simp: s3_def)
  have en: "rl_inv L (put i ((heap s3 i)\<lparr>rg_queue := rg_queue (heap s3 i) @ [t]\<rparr>) s3)"
    using s2 assms(2) t by (intro rl_inv_enqueue [OF s3, of i m]) (auto simp: s3_def)
  have dr: "rl_inv L (drop_if_idle m i s3)" using s2 by (intro rl_inv_drop s3) (auto simp: s3_def)
  have "acquire_slot now m mx mq s =
     (if free then (Slot t, grant m i t s3)
      else if (case mq of Some n \<Rightarrow> n \<ge> 0 \<and> int (length (rg_queue (heap s3 i))) \<ge> n | None \<Rightarrow> False)
      then (Queue_full, drop_if_idle m i s3)
      else (Waiting t, (put i ((heap s3 i)\<lparr>rg_queue := rg_queue (heap s3 i) @ [t]\<rparr>) s3)\<lparr>waits := waits s3 @ [(t, i)]\<rparr>))"
    unfolding acquire_slot_def g by (auto simp: f t_def s3_def Let_def split: option.split)
  then show ?thesis using gr en dr by simp
qed

text \<open>Releasing: the ticket leaves the holders and the gate's counter together.\<close>

lemma held_release:
  assumes "distinct (map fst (holders s))" "map_of (holders s) t = Some m"
  shows "held_by (s\<lparr>holders := filter (\<lambda>(t', _). t' \<noteq> t) (holders s)\<rparr>) m' = held_by s m' - (if m' = m then 1 else 0)"
proof -
  obtain a b where h: "holders s = a @ (t, m) # b" using map_of_SomeD [OF assms(2)] by (meson split_list)
  then have "t \<notin> fst ` set a" "t \<notin> fst ` set b" using assms(1) by auto
  then have "filter (\<lambda>(t', _). t' \<noteq> t) a = a" "filter (\<lambda>(t', _). t' \<noteq> t) b = b"
    by (auto simp: filter_id_conv image_def)
  then show ?thesis using h by (simp add: held_by_def)
qed

lemma release_slot_cases:
  assumes "rl_inv L s" and Some: "map_of (holders s) t = Some m"
  obtains s2 i where "rl_inv L s2" "jget (gates s2) m = Some i"
    "release_slot now t s = (if rg_running (heap s2 i) = 0 \<and> rg_queue (heap s2 i) = [] then s2\<lparr>gates := jdel m (gates s2)\<rparr>
                  else drainQueue now m s2)"
proof -
  have gs: "gates_ok L s" and ts: "tickets_ok s" using assms(1) by (auto simp: rl_inv_def)
  define s1 where "s1 = s\<lparr>holders := filter (\<lambda>(t', _). t' \<noteq> t) (holders s)\<rparr>"
  have dis: "distinct (map fst (holders s))" using ts by (simp add: tickets_ok_def)
  have h1: "held_by s1 m' = held_by s m' - (if m' = m then 1 else 0)" for m'
    unfolding s1_def by (rule held_release [OF dis Some])
  have "held_by s1 m \<ge> 0" by simp
  then have pos: "held_by s m > 0" using h1 [of m] by (simp del: held_nonneg)
  then obtain i where i: "jget (gates s) m = Some i" using gates_okD(2) [OF gs, of m] by (cases "jget (gates s) m") auto
  note gi = gates_okD(1) [OF gs i]
  define s2 where "s2 = put i ((heap s1 i)\<lparr>rg_running := rg_running (heap s1 i) - 1\<rparr>) s1"
  have hp: "heap s2 j = (if j = i then (heap s i)\<lparr>rg_running := rg_running (heap s i) - 1\<rparr> else heap s j)" "gates s2 = gates s" "next_gate s2 = next_gate s"
    for j by (simp_all add: s2_def s1_def)
  have h2: "held_by s2 m' = held_by s1 m'" for m' by (simp add: s2_def)
  have "gates_ok L s2"
    unfolding gates_ok_def hp(2,3)
  proof (intro conjI allI impI)
    fix m' j assume j: "jget (gates s) m' = Some j"
    have ij: "j = i \<longleftrightarrow> m' = m" using gates_okD(3) [OF gs] i j by auto
    show "j < next_gate s" "rg_running (heap s2 j) = held_by s2 m'" "gate_ok (L m') (heap s2 j)"
      using gates_okD(1) [OF gs j] ij h1 h2 pos by (auto simp: hp gate_ok_def)
  next
    fix m' assume "jget (gates s) m' = None"
    then show "held_by s2 m' = 0" using gates_okD(2) [OF gs, of m'] i h1 h2 by auto
  qed (use gates_okD(3) [OF gs] in blast)
  moreover have "tickets_ok s2"
    using ts unfolding tickets_ok_def by (auto simp: s2_def s1_def distinct_map_filter)
  ultimately have s2: "rl_inv L s2" by (simp add: rl_inv_def)
  have "release_slot now t s = (if rg_running (heap s2 i) = 0 \<and> rg_queue (heap s2 i) = [] then s2\<lparr>gates := jdel m (gates s2)\<rparr>
                  else drainQueue now m s2)"
    using Some i gi pos unfolding release_slot_def by (simp add: s1_def s2_def Let_def)
  then show thesis by (rule that [rotated 2]) (use s2 i in \<open>simp_all add: hp\<close>)
qed

lemma release_slot_inv:
  assumes "rl_inv L s" shows "rl_inv L (release_slot now t s)"
proof (cases "map_of (holders s) t")
  case (Some m)
  obtain s2 i where s2: "rl_inv L s2" "jget (gates s2) m = Some i"
    "release_slot now t s = (if rg_running (heap s2 i) = 0 \<and> rg_queue (heap s2 i) = [] then s2\<lparr>gates := jdel m (gates s2)\<rparr>
                  else drainQueue now m s2)"
    by (rule release_slot_cases [OF assms Some])
  then show ?thesis using drainQueue_inv [OF s2(1), of now m] rl_inv_drop [OF s2(1,2)] by (auto simp: drop_if_idle_def split: if_splits)
qed (use assms in \<open>simp add: release_slot_def\<close>)

lemma timeout_fired_inv: "rl_inv L s \<Longrightarrow> rl_inv L (timeout_fired t s)"
  by (auto simp: timeout_fired_def intro!: rl_inv_put split: option.split)

lemma markRateLimited_inv:
  assumes "rl_inv L s" "0 \<le> L m" shows "rl_inv L (markRateLimited now m cd s)"
proof -
  define mx where "mx = (case jget (gates s) m of Some j \<Rightarrow> rg_max (heap s j) | None \<Rightarrow> 3)"
  obtain i s1 where g: "getGate m mx s = (i, s1)" by fastforce
  have "rl_inv L s1" using getGate_spec(1) [OF g assms] by (simp add: mx_def)
  then show ?thesis using g unfolding markRateLimited_def mx_def [symmetric] by (auto intro!: rl_inv_put)
qed

lemma cooldown_fired_inv: "rl_inv L s \<Longrightarrow> rl_inv L (cooldown_fired now i m s)"
  by (auto simp: cooldown_fired_def Let_def intro!: drainQueue_inv rl_inv_put split: option.split)

lemma rl_step_inv:
  assumes "\<And>m. 0 \<le> L m" "rl_step L e s s'" "rl_inv L s" shows "rl_inv L s'"
  using assms(2)
proof cases
  case (rl_event now)
  then show ?thesis using assms(1,3)
    by (cases e) (auto intro: acquire_slot_inv release_slot_inv timeout_fired_inv markRateLimited_inv cooldown_fired_inv)
qed


text \<open>Limits are never negative, so the invariant is stated for \<open>\<lambda>m. max 0 (L m)\<close>.\<close>

lemma rl_step_max: "rl_step L e s s' \<Longrightarrow> rl_step (\<lambda>m. max 0 (L m)) e s s'"
  by (auto simp: rl_step.simps)

interpretation rl: step_system "rl_step L" "rl_inv (\<lambda>m. max 0 (L m))"
  by unfold_locales (rule rl_step_inv [OF _ rl_step_max]; simp)

lemma rl_reachable: "reaches (rl_step L) rl_init s \<Longrightarrow> rl_inv (\<lambda>m. max 0 (L m)) s"
  by (erule rl.reaches_inv) (simp add: rl_inv_init)

section \<open>Progress\<close>

lemma isRateLimited_after:
  "isRateLimited now i s = (b, s') \<Longrightarrow> limited_until (heap s' i) = None \<longleftrightarrow> \<not> b"
  "isRateLimited now i s = (True, s') \<Longrightarrow> \<exists>u. limited_until (heap s i) = Some u \<and> now < u \<and> s' = s"
  by (auto simp: isRateLimited_def limited_until_def split: option.splits if_splits)

lemma drain_gate_done:
  assumes "drain_gate now m i s = s'"
  shows "rg_queue (heap s' i) = [] \<or> rg_max (heap s' i) \<le> rg_running (heap s' i) \<or>
    (\<exists>u. limited_until (heap s' i) = Some u \<and> now < u)"
  using assms
proof (induction now m i s arbitrary: s' rule: drain_gate.induct)
  case (1 now m i s)
  obtain b s1 where l: "isRateLimited now i s = (b, s1)" by fastforce
  show ?case
  proof (cases "rg_queue (heap s i) \<noteq> [] \<and> rg_running (heap s i) < rg_max (heap s i)")
    case True
    show ?thesis
    proof (cases b)
      case True': True
      have "s' = s1" using 1(2) True True' l by (subst (asm) drain_gate.simps) simp
      then show ?thesis using isRateLimited_after(2) [of now i s s1] l True' by auto
    next
      case False
      have "drain_gate now m i (pop m i s1) = s'" using 1(2) True False l by (subst (asm) drain_gate.simps) simp
      then show ?thesis using 1(1) [OF True l [symmetric]] False by simp
    qed
  next
    case False
    then have "s' = s" using 1(2) by (subst (asm) drain_gate.simps) (auto split: if_splits)
    then show ?thesis using False by auto
  qed
qed


lemma drainQueue_done:
  assumes "rl_inv L s" "drainQueue now m s = s'" "jget (gates s') m = Some i"
  shows "rg_queue (heap s' i) = [] \<or> rg_max (heap s' i) \<le> rg_running (heap s' i) \<or>
    (\<exists>u. limited_until (heap s' i) = Some u \<and> now < u)"
proof (cases "jget (gates s) m")
  case (Some j)
  define d where "d = drain_gate now m j s"
  have g: "gates d = gates s" using drain_gate_inv [OF assms(1) Some] by (simp add: d_def)
  have s': "s' = drop_if_idle m j d" using assms(2) Some by (simp add: drainQueue_def d_def)
  then have "i = j" "heap s' = heap d" using assms(3) Some g by (auto simp: drop_if_idle_def split: if_splits)
  then show ?thesis using drain_gate_done [of now m j s d] by (simp add: d_def)
qed (use assms in \<open>simp add: drainQueue_def\<close>)

lemma release_done:
  assumes "rl_inv L s" "map_of (holders s) t = Some m" "release_slot now t s = s'" "jget (gates s') m = Some i"
  shows "rg_queue (heap s' i) = [] \<or> rg_max (heap s' i) \<le> rg_running (heap s' i) \<or>
    (\<exists>u. limited_until (heap s' i) = Some u \<and> now < u)"
proof -
  obtain s2 j where "rl_inv L s2" "jget (gates s2) m = Some j"
    "release_slot now t s = (if rg_running (heap s2 j) = 0 \<and> rg_queue (heap s2 j) = [] then s2\<lparr>gates := jdel m (gates s2)\<rparr>
                  else drainQueue now m s2)"
    by (rule release_slot_cases [OF assms(1,2)])
  then have r: "s' = drainQueue now m s2" "rl_inv L s2" using assms(3,4) by (auto split: if_splits)
  then show ?thesis using drainQueue_done [OF r(2) r(1) [symmetric] assms(4)] by simp
qed

section \<open>Properties\<close>

text \<open>
  C11. Concurrency bound. Take any history of acquisitions, releases, timeouts, rate limits and
  cooldown timers, with gates dropped and recreated along the way, in which every \<^verbatim>\<open>acquire\<close> of a model
  asks for at most \<open>L\<close> slots. Then the slots of that model handed out and not yet released never
  exceed \<open>L\<close>, and the gate's \<^verbatim>\<open>running\<close> counter counts exactly these.
\<close>

theorem slots_bounded:
  assumes "reaches (rl_step L) rl_init s"
  shows "held_by s m \<le> max 0 (L m) \<and>
    (case jget (gates s) m of None \<Rightarrow> held_by s m = 0 | Some i \<Rightarrow> rg_running (heap s i) = held_by s m)"
proof -
  have "gates_ok (\<lambda>m. max 0 (L m)) s" using rl_reachable [OF assms] by (simp add: rl_inv_def)
  note ok = gates_okD [OF this]
  show ?thesis
  proof (cases "jget (gates s) m")
    case None
    then show ?thesis using ok(2) [of m] by simp
  next
    case (Some i)
    then show ?thesis using ok(1) [of m i] by (simp add: gate_ok_def)
  qed
qed

text \<open>Three callers share two slots; the third waits and gets the slot the first one returns.\<close>

definition rl_demo :: rl_state where
  "rl_demo = rl_handle 5 (Release_slot 0) (rl_handle 3 (Acquire_slot ''m'' 2 None)
     (rl_handle 2 (Acquire_slot ''m'' 2 None) (rl_handle 1 (Acquire_slot ''m'' 2 None) rl_init)))"

lemma rl_demo_reached: "reaches (rl_step (\<lambda>_. 2)) rl_init rl_demo"
proof -
  have acq: "rl_step (\<lambda>_. 2) (Acquire_slot ''m'' 2 None) s (rl_handle now (Acquire_slot ''m'' 2 None) s)" for s now
    by (rule rl_step.intros) auto
  have rel: "rl_step (\<lambda>_. 2) (Release_slot 0) s (rl_handle now (Release_slot 0) s)" for s now
    by (rule rl_step.intros) auto
  show ?thesis unfolding rl_demo_def by (rule reaches_start acq rel reaches_more)+
qed

theorem slots_bounded_witness:
  "reaches (rl_step (\<lambda>_. 2)) rl_init rl_demo \<and> held_by rl_demo ''m'' = 2 \<and> held_by rl_demo ''m'' \<le> max 0 2 \<and>
   outcomes rl_demo = [(2, Granted)]"
proof -
  have "held_by rl_demo ''m'' = 2" "outcomes rl_demo = [(2, Granted)]" by code_simp+
  then show ?thesis using rl_demo_reached slots_bounded [OF rl_demo_reached, of "''m''"] by simp
qed

text \<open>
  No waiter is left behind by a release. When a slot is returned, then afterwards the gate has no
  waiter, or all its slots are taken, or the model is still cooling down.
\<close>

theorem release_serves_waiters:
  assumes "reaches (rl_step L) rl_init s" "map_of (holders s) t = Some m"
    and "release_slot now t s = s'" "jget (gates s') m = Some i"
  shows "rg_queue (heap s' i) = [] \<or> rg_max (heap s' i) \<le> rg_running (heap s' i) \<or>
    (\<exists>u. limited_until (heap s' i) = Some u \<and> now < u)"
  by (rule release_done [OF rl_reachable [OF assms(1)] assms(2-4)])

theorem release_serves_waiters_witness:
  "let s' = release_slot 9 1 rl_demo in rg_queue (heap s' 0) = [] \<or> rg_max (heap s' 0) \<le> rg_running (heap s' 0) \<or>
    (\<exists>u. limited_until (heap s' 0) = Some u \<and> 9 < u)"
proof -
  have "map_of (holders rl_demo) 1 = Some ''m''" "jget (gates (release_slot 9 1 rl_demo)) ''m'' = Some 0" by code_simp+
  then show ?thesis using release_serves_waiters [OF rl_demo_reached _ refl] by (simp add: Let_def)
qed

section \<open>Where the cooldown and the queue order leak\<close>

text \<open>
  A cooldown is forgotten when the gate becomes idle: returning the only slot deletes the gate with its
  \<^verbatim>\<open>rateLimitedUntil\<close>, so the next acquisition is granted although the cooldown has not expired.
\<close>

lemma cooldown_forgotten:
  assumes "rl_inv L s" "map_of (holders s) t = Some m" "held_by s m = 1" "jget (gates s) m = Some i"
    and "rg_queue (heap s i) = []" "0 < mx"
  shows "fst (acquire_slot now3 m mx mq (release_slot now2 t (markRateLimited now1 m cd s))) = Slot (next_ticket s)"
proof -
  have gi: "rg_running (heap s i) = 1" using assms(1,3,4) gates_okD(1) by (fastforce simp: rl_inv_def)
  define s1 where "s1 = markRateLimited now1 m cd s"
  have s1: "holders s1 = holders s" "gates s1 = gates s" "rg_running (heap s1 i) = 1" "rg_queue (heap s1 i) = []" "next_ticket s1 = next_ticket s"
    using assms(4,5) gi by (auto simp: s1_def markRateLimited_def getGate_def Let_def)
  have "jget (gates (release_slot now2 t s1)) m = None \<and> next_ticket (release_slot now2 t s1) = next_ticket s"
    using s1 assms(2,4) by (simp add: release_slot_def Let_def)
  then show ?thesis unfolding s1_def [symmetric]
    using assms(6) by (auto simp: acquire_slot_def getGate_def isRateLimited_def limited_until_def Let_def)
qed

text \<open>
  A newcomer overtakes the queue: between the end of the cooldown and the drain timer fifty milliseconds
  later, the fast path does not look at the waiters.
\<close>

lemma newcomer_overtakes:
  assumes "jget (gates s) m = Some i" "limited_until (heap s i) = Some u" "u \<le> now" "rg_running (heap s i) < mx"
  shows "fst (acquire_slot now m mx mq s) = Slot (next_ticket s) \<and>
    rg_queue (heap (snd (acquire_slot now m mx mq s)) i) = rg_queue (heap s i)"
  using assms by (auto simp: acquire_slot_def getGate_def isRateLimited_def limited_until_def grant_def Let_def)

end
