(* ===== verification/Account_Semaphore.thy ===== *)
theory Account_Semaphore
  imports Js_Prelude Step_Systems "HOL-Library.List_Lexorder" "HOL-Library.Char_ord"
begin

text \<open>
  Hierarchical concurrency admission of \<^verbatim>\<open>open-sse/services/accountSemaphore.ts\<close>: one request takes a
  slot in every gate it needs (global, provider, account) or waits without holding any.

  \<open>queued\<close> is the set \<^verbatim>\<open>queuedRequests\<close> in insertion order; a request is in it exactly while its promise
  is unsettled, which is the source's \<^verbatim>\<open>settled\<close> flag, and while its timeout and abort listener are
  armed. \<open>aholders\<close> are the composite release functions not yet called, \<open>alog\<close> the settlements of the
  queued promises. A gate outside the map never has an armed cleanup timer, because every deletion
  clears it first, so the timer is a flag of the gate.
\<close>

section \<open>State\<close>

record agate =
  ag_running :: int
  ag_max :: int
  ag_queue :: "nat list"
  ag_blocked :: "rat option"
  ag_cleanup :: bool

record areq =
  rq_id :: nat
  rq_keys :: "string list"
  rq_signal :: bool

datatype as_outcome = A_granted | A_timeout | A_aborted | A_reset

record as_state =
  agates :: "(string, agate) jmap"
  queued :: "areq list"
  aholders :: "(nat \<times> string list) list"
  next_req :: nat
  alog :: "(nat \<times> as_outcome) list"

datatype as_result = Noop_release | Abort_error | Admitted nat | Queue_full_for string | Wait_for nat

definition as_init :: as_state where
  "as_init = \<lparr>agates = [], queued = [], aholders = [], next_req = 0, alog = []\<rparr>"

definition modg :: "(agate \<Rightarrow> agate) \<Rightarrow> string \<Rightarrow> as_state \<Rightarrow> as_state" where
  "modg f k s = (case jget (agates s) k of None \<Rightarrow> s | Some g \<Rightarrow> s\<lparr>agates := jset k (f g) (agates s)\<rparr>)"

section \<open>Operations\<close>

definition buildAccountSemaphoreKey :: "string \<Rightarrow> string \<Rightarrow> string" where
  "buildAccountSemaphoreKey provider accountKey = provider @ '':'' @ accountKey"

definition isBypassed :: "js_num option \<Rightarrow> bool" where
  "isBypassed mc = (case mc of Some (Fin q) \<Rightarrow> q \<le> 0 | _ \<Rightarrow> True)"

definition ensureGate :: "string \<Rightarrow> int \<Rightarrow> as_state \<Rightarrow> as_state" where
  "ensureGate k mx s =
     (case jget (agates s) k of
        Some g \<Rightarrow> s\<lparr>agates := jset k (g\<lparr>ag_max := mx\<rparr>) (agates s)\<rparr>
      | None \<Rightarrow> s\<lparr>agates := jset k \<lparr>ag_running = 0, ag_max = mx, ag_queue = [], ag_blocked = None, ag_cleanup = False\<rparr>
                  (agates s)\<rparr>)"

definition blocked_until :: "agate \<Rightarrow> rat option" where
  "blocked_until g = (if ag_blocked g = Some 0 then None else ag_blocked g)"

definition blocked_at :: "int \<Rightarrow> agate \<Rightarrow> bool" where
  "blocked_at now g = (case blocked_until g of None \<Rightarrow> False | Some u \<Rightarrow> of_int now < u)"

text \<open>\<^verbatim>\<open>isBlocked\<close> also forgets an expired block.\<close>

definition unblock_expired :: "int \<Rightarrow> agate \<Rightarrow> agate" where
  "unblock_expired now g = (if blocked_until g \<noteq> None \<and> \<not> blocked_at now g then g\<lparr>ag_blocked := None\<rparr> else g)"

definition isBlocked :: "int \<Rightarrow> string \<Rightarrow> as_state \<Rightarrow> bool \<times> as_state" where
  "isBlocked now k s =
     (case jget (agates s) k of
        None \<Rightarrow> (False, s)
      | Some g \<Rightarrow> (blocked_at now g, modg (unblock_expired now) k s))"

definition clearCleanupTimer :: "string \<Rightarrow> as_state \<Rightarrow> as_state" where
  "clearCleanupTimer = modg (\<lambda>g. g\<lparr>ag_cleanup := False\<rparr>)"

definition cleanupGateIfIdle :: "int \<Rightarrow> string \<Rightarrow> as_state \<Rightarrow> as_state" where
  "cleanupGateIfIdle now k s =
     (case jget (agates s) k of
        None \<Rightarrow> s
      | Some g \<Rightarrow>
          if ag_running g > 0 \<or> ag_queue g \<noteq> [] then s
          else (let (b, s1) = isBlocked now k s in if b then s1 else s1\<lparr>agates := jdel k (agates s1)\<rparr>))"

definition scheduleCleanup :: "string \<Rightarrow> as_state \<Rightarrow> as_state" where
  "scheduleCleanup = modg (\<lambda>g. g\<lparr>ag_cleanup := True\<rparr>)"

definition idle_gate :: "agate \<Rightarrow> bool" where
  "idle_gate g \<longleftrightarrow> ag_running g = 0 \<and> ag_queue g = []"

definition schedule_if_idle :: "string \<Rightarrow> as_state \<Rightarrow> as_state" where
  "schedule_if_idle k s =
     (case jget (agates s) k of None \<Rightarrow> s | Some g \<Rightarrow> if idle_gate g then scheduleCleanup k s else s)"

definition removeRequest :: "areq \<Rightarrow> as_state \<Rightarrow> as_state" where
  "removeRequest r s =
     foldl (\<lambda>s k. schedule_if_idle k (modg (\<lambda>g. g\<lparr>ag_queue := remove1 (rq_id r) (ag_queue g)\<rparr>) k s))
       (s\<lparr>queued := filter (\<lambda>r'. rq_id r' \<noteq> rq_id r) (queued s)\<rparr>) (rq_keys r)"

text \<open>The \<^verbatim>\<open>every\<close> of \<^verbatim>\<open>canAcquire\<close>, left to right with its early exit.\<close>

fun canAcquire :: "int \<Rightarrow> nat \<Rightarrow> string list \<Rightarrow> as_state \<Rightarrow> bool \<times> as_state" where
  "canAcquire now i [] s = (True, s)"
| "canAcquire now i (k # ks) s =
     (case jget (agates s) k of
        None \<Rightarrow> (False, s)
      | Some g \<Rightarrow>
          (let (b, s1) = isBlocked now k s in
           if \<not> b \<and> ag_running g < ag_max g \<and> ag_queue g \<noteq> [] \<and> hd (ag_queue g) = i then canAcquire now i ks s1
           else (False, s1)))"

text \<open>One pass of the loop in \<^verbatim>\<open>drainQueues\<close> over the queued requests, up to the first that fits.\<close>

fun first_ready :: "int \<Rightarrow> areq list \<Rightarrow> as_state \<Rightarrow> areq option \<times> as_state" where
  "first_ready now [] s = (None, s)"
| "first_ready now (r # rs) s =
     (let (ok, s1) = canAcquire now (rq_id r) (rq_keys r) s in if ok then (Some r, s1) else first_ready now rs s1)"

definition take_slots :: "string list \<Rightarrow> as_state \<Rightarrow> as_state" where
  "take_slots ks s = foldl (\<lambda>s k. modg (\<lambda>g. g\<lparr>ag_running := ag_running g + 1\<rparr>) k s) s ks"

definition admit_queued :: "areq \<Rightarrow> as_state \<Rightarrow> as_state" where
  "admit_queued r s =
     (let s1 = take_slots (rq_keys r) (removeRequest r s) in
      s1\<lparr>aholders := (rq_id r, rq_keys r) # aholders s1, alog := alog s1 @ [(rq_id r, A_granted)]\<rparr>)"

lemma modg_frame [simp]:
  "queued (modg f k s) = queued s" "aholders (modg f k s) = aholders s" "next_req (modg f k s) = next_req s" "alog (modg f k s) = alog s"
  by (auto simp: modg_def split: option.split)

lemma jget_modg [simp]: "jget (agates (modg f k s)) k' = (if k' = k then map_option f (jget (agates s) k) else jget (agates s) k')"
  by (auto simp: modg_def split: option.split)

lemma foldl_frame:
  assumes "\<And>s k. h (f s k) = h s" shows "h (foldl f s ks) = h s"
  using assms by (induction ks arbitrary: s) simp_all

lemma schedule_if_idle_frame [simp]:
  "queued (schedule_if_idle k s) = queued s" "aholders (schedule_if_idle k s) = aholders s" "next_req (schedule_if_idle k s) = next_req s"
  "alog (schedule_if_idle k s) = alog s"
  by (auto simp: schedule_if_idle_def scheduleCleanup_def split: option.split)

lemma removeRequest_frame [simp]:
  "queued (removeRequest r s) = filter (\<lambda>r'. rq_id r' \<noteq> rq_id r) (queued s)" "aholders (removeRequest r s) = aholders s"
  "next_req (removeRequest r s) = next_req s" "alog (removeRequest r s) = alog s"
  by (simp_all add: removeRequest_def foldl_frame)

lemma take_slots_frame [simp]:
  "queued (take_slots ks s) = queued s" "aholders (take_slots ks s) = aholders s" "next_req (take_slots ks s) = next_req s"
  "alog (take_slots ks s) = alog s"
  by (simp_all add: take_slots_def foldl_frame)

lemma isBlocked_frame:
  assumes "isBlocked now k s = (b, s')"
  shows "queued s' = queued s" "aholders s' = aholders s" "next_req s' = next_req s" "alog s' = alog s"
  using assms by (auto simp: isBlocked_def split: option.splits)

lemma canAcquire_frame:
  "canAcquire now i ks s = (b, s') \<Longrightarrow> queued s' = queued s \<and> aholders s' = aholders s \<and> next_req s' = next_req s \<and> alog s' = alog s"
  by (induction now i ks s rule: canAcquire.induct)
    (auto dest: isBlocked_frame split: option.splits prod.splits if_splits)

lemma first_ready_frame:
  "first_ready now rs s = (x, s') \<Longrightarrow> queued s' = queued s \<and> aholders s' = aholders s \<and> next_req s' = next_req s \<and> alog s' = alog s"
  by (induction now rs s arbitrary: x s' rule: first_ready.induct) (auto dest: canAcquire_frame split: prod.splits if_splits)

lemma first_ready_mem: "first_ready now rs s = (Some r, s') \<Longrightarrow> r \<in> set rs"
  by (induction now rs s arbitrary: s' rule: first_ready.induct) (auto split: prod.splits if_splits)

lemma admit_queued_queue [simp]: "queued (admit_queued r s) = filter (\<lambda>r'. rq_id r' \<noteq> rq_id r) (queued s)"
  by (simp add: admit_queued_def Let_def)

lemma drain_shrinks:
  assumes "(Some r, s1) = first_ready now (queued s) s"
  shows "length (queued (admit_queued r s1)) < length (queued s)"
  using first_ready_mem [OF assms [symmetric]] first_ready_frame [OF assms [symmetric]]
  by (simp add: length_filter_less)

function drainQueues :: "int \<Rightarrow> as_state \<Rightarrow> as_state" where
  "drainQueues now s =
     (case first_ready now (queued s) s of
        (None, s1) \<Rightarrow> s1
      | (Some r, s1) \<Rightarrow> drainQueues now (admit_queued r s1))"
  by pat_completeness auto
termination
  by (relation "measure (\<lambda>(now, s). length (queued s))") (auto intro: drain_shrinks simp del: admit_queued_queue)

declare drainQueues.simps [simp del]

definition dec_slot :: "string \<Rightarrow> as_state \<Rightarrow> as_state" where
  "dec_slot = modg (\<lambda>g. if ag_running g > 0 then g\<lparr>ag_running := ag_running g - 1\<rparr> else g)"

text \<open>The composite release function; the second call finds the request gone.\<close>

definition compositeRelease :: "int \<Rightarrow> nat \<Rightarrow> as_state \<Rightarrow> as_state" where
  "compositeRelease now i s =
     (case map_of (aholders s) i of
        None \<Rightarrow> s
      | Some ks \<Rightarrow>
          (let s1 = s\<lparr>aholders := filter (\<lambda>(i', _). i' \<noteq> i) (aholders s)\<rparr>;
               s2 = foldl (\<lambda>s k. dec_slot k s) s1 ks;
               s3 = drainQueues now s2
           in foldl (\<lambda>s k. schedule_if_idle k s) s3 ks))"

definition js_trunc :: "rat \<Rightarrow> int" where
  "js_trunc q = (if q \<ge> 0 then \<lfloor>q\<rfloor> else - \<lfloor>- q\<rfloor>)"

fun enabled_limits :: "(string \<times> js_num option) list \<Rightarrow> (string, int) jmap \<Rightarrow> (string, int) jmap" where
  "enabled_limits [] en = en"
| "enabled_limits ((k, mc) # rs) en =
     (if isBypassed mc then enabled_limits rs en
      else (let l = (case mc of Some (Fin q) \<Rightarrow> js_trunc q | _ \<Rightarrow> 0) in
            enabled_limits rs (jset k (min (case jget en k of Some x \<Rightarrow> x | None \<Rightarrow> l) l) en)))"

text \<open>The \<^verbatim>\<open>every\<close> of the fast path; the block test comes last.\<close>

fun canAcquireImmediately :: "int \<Rightarrow> string list \<Rightarrow> as_state \<Rightarrow> bool \<times> as_state" where
  "canAcquireImmediately now [] s = (True, s)"
| "canAcquireImmediately now (k # ks) s =
     (case jget (agates s) k of
        None \<Rightarrow> (False, s)
      | Some g \<Rightarrow>
          if ag_queue g = [] \<and> ag_running g < ag_max g then
            (let (b, s1) = isBlocked now k s in if b then (False, s1) else canAcquireImmediately now ks s1)
          else (False, s))"

definition findQueueRejection :: "string list \<Rightarrow> int \<Rightarrow> bool \<Rightarrow> as_state \<Rightarrow> string option" where
  "findQueueRejection ks maxQueueSize failFast s =
     (if failFast then Some (hd ks)
      else if maxQueueSize \<le> 0 then None
      else find (\<lambda>k. case jget (agates s) k of Some g \<Rightarrow> int (length (ag_queue g)) \<ge> maxQueueSize | None \<Rightarrow> False) ks)"

definition prepare_gates :: "(string, int) jmap \<Rightarrow> string list \<Rightarrow> as_state \<Rightarrow> as_state" where
  "prepare_gates en ks s =
     foldl (\<lambda>s k. clearCleanupTimer k (ensureGate k (case jget en k of Some l \<Rightarrow> l | None \<Rightarrow> 0) s)) s ks"

definition enqueue_request :: "areq \<Rightarrow> as_state \<Rightarrow> as_state" where
  "enqueue_request r s =
     foldl (\<lambda>s k. modg (\<lambda>g. g\<lparr>ag_queue := ag_queue g @ [rq_id r]\<rparr>) k s) (s\<lparr>queued := queued s @ [r]\<rparr>) (rq_keys r)"

text \<open>
  \<^verbatim>\<open>acquireMany\<close>. The signal is \<^const>\<open>None\<close> or \<open>Some aborted\<close>.
\<close>

definition acquireMany ::
  "int \<Rightarrow> (string \<times> js_num option) list \<Rightarrow> bool option \<Rightarrow> int \<Rightarrow> bool \<Rightarrow> as_state \<Rightarrow> as_result \<times> as_state" where
  "acquireMany now requirements signal maxQueueSize failFast s =
     (let en = enabled_limits requirements [] in
      if en = [] then (Noop_release, s)
      else if signal = Some True then (Abort_error, s)
      else
        (let ks = sort (jkeys en);
             i = next_req s;
             s1 = prepare_gates en ks (s\<lparr>next_req := i + 1\<rparr>);
             (ok, s2) = canAcquireImmediately now ks s1
         in if ok then (let s3 = take_slots ks s2 in (Admitted i, s3\<lparr>aholders := (i, ks) # aholders s3\<rparr>))
            else case findQueueRejection ks maxQueueSize failFast s2 of
                   Some k \<Rightarrow> (Queue_full_for k, s2)
                 | None \<Rightarrow>
                     (Wait_for i, drainQueues now (enqueue_request \<lparr>rq_id = i, rq_keys = ks, rq_signal = (signal \<noteq> None)\<rparr> s2))))"

definition acquire_one :: "int \<Rightarrow> string \<Rightarrow> js_num option \<Rightarrow> bool option \<Rightarrow> int \<Rightarrow> bool \<Rightarrow> as_state \<Rightarrow> as_result \<times> as_state" where
  "acquire_one now k mc signal maxQueueSize failFast s = acquireMany now [(k, mc)] signal maxQueueSize failFast s"

text \<open>The timeout and abort callbacks of a queued request.\<close>

definition settle_queued :: "int \<Rightarrow> nat \<Rightarrow> as_outcome \<Rightarrow> as_state \<Rightarrow> as_state" where
  "settle_queued now i code s =
     (case find (\<lambda>r. rq_id r = i) (queued s) of
        None \<Rightarrow> s
      | Some r \<Rightarrow> (let s1 = removeRequest r s in drainQueues now (s1\<lparr>alog := alog s1 @ [(i, code)]\<rparr>)))"

text \<open>\<^verbatim>\<open>markBlocked\<close>, given a duration in milliseconds or an absolute time (a \<^verbatim>\<open>Date\<close> or a parsed string).\<close>

datatype block_until = Until_time js_num | For_ms js_num

definition untilMs :: "int \<Rightarrow> block_until \<Rightarrow> js_num" where
  "untilMs now u = (case u of Until_time n \<Rightarrow> n
     | For_ms n \<Rightarrow> (case n of Fin q \<Rightarrow> Fin (of_int now + max 0 q) | NegInf \<Rightarrow> Fin (of_int now) | x \<Rightarrow> x))"

definition markBlocked :: "int \<Rightarrow> string \<Rightarrow> block_until \<Rightarrow> as_state \<Rightarrow> as_state" where
  "markBlocked now k u s =
     (case untilMs now u of
        Fin q \<Rightarrow>
          if q \<le> of_int now then s
          else (let s1 = ensureGate k (case jget (agates s) k of Some g \<Rightarrow> ag_max g | None \<Rightarrow> 1) s in
                modg (\<lambda>g. g\<lparr>ag_cleanup := False, ag_blocked := Some q\<rparr>) k s1)
      | _ \<Rightarrow> s)"

definition unblock :: "int \<Rightarrow> string \<Rightarrow> as_state \<Rightarrow> as_state" where
  "unblock now k s =
     (case jget (agates s) k of
        None \<Rightarrow> s
      | Some g \<Rightarrow> cleanupGateIfIdle now k (drainQueues now (modg (\<lambda>g. g\<lparr>ag_blocked := None\<rparr>) k s)))"

definition cleanup_fired :: "int \<Rightarrow> string \<Rightarrow> as_state \<Rightarrow> as_state" where
  "cleanup_fired now k s = cleanupGateIfIdle now k (clearCleanupTimer k s)"

record as_stats =
  st_running :: int
  st_queued :: nat
  st_max :: int
  st_blocked :: "rat option"

definition as_getStats :: "as_state \<Rightarrow> (string \<times> as_stats) list" where
  "as_getStats s = map (\<lambda>(k, g). (k, \<lparr>st_running = ag_running g, st_queued = length (ag_queue g), st_max = ag_max g,
     st_blocked = blocked_until g\<rparr>)) (agates s)"

definition isAccountSemaphoreFull :: "int \<Rightarrow> string \<Rightarrow> string \<Rightarrow> js_num option \<Rightarrow> as_state \<Rightarrow> bool \<times> as_state" where
  "isAccountSemaphoreFull now provider accountKey mc s =
     (let k = buildAccountSemaphoreKey provider accountKey in
      case mc of
        Some (Fin q) \<Rightarrow>
          if q \<le> 0 then (False, s)
          else (case jget (agates s) k of
                  None \<Rightarrow> (False, s)
                | Some g \<Rightarrow> if of_int (ag_running g) \<ge> q then (True, s) else isBlocked now k s)
      | _ \<Rightarrow> (False, s))"

text \<open>\<^verbatim>\<open>reset\<close> and \<^verbatim>\<open>resetAll\<close>: the waiters are rejected, the gates dropped.\<close>

definition reset_gate :: "int \<Rightarrow> string \<Rightarrow> as_state \<Rightarrow> as_state" where
  "reset_gate now k s =
     (case jget (agates s) k of
        None \<Rightarrow> s
      | Some g \<Rightarrow>
          (let rs = concat (map (\<lambda>i. case find (\<lambda>r. rq_id r = i) (queued s) of Some r \<Rightarrow> [r] | None \<Rightarrow> []) (ag_queue g));
               s1 = foldl (\<lambda>s r. removeRequest r s) (clearCleanupTimer k s) rs;
               s2 = s1\<lparr>agates := jdel k (agates s1), alog := alog s1 @ map (\<lambda>r. (rq_id r, A_reset)) rs\<rparr>
           in drainQueues now s2))"

definition as_resetAll :: "as_state \<Rightarrow> as_state" where
  "as_resetAll s = s\<lparr>agates := [], queued := [], alog := alog s @ map (\<lambda>r. (rq_id r, A_reset)) (queued s)\<rparr>"


section \<open>Events\<close>

datatype as_event =
    Acquire_many "(string \<times> js_num option) list" "bool option" int bool
  | Release_all nat
  | Timeout_queued nat
  | Abort_queued nat
  | Block_gate string block_until
  | Unblock_gate string
  | Cleanup_gate string
  | Check_full string string "js_num option"

fun as_handle :: "int \<Rightarrow> as_event \<Rightarrow> as_state \<Rightarrow> as_state" where
  "as_handle now (Acquire_many rs sg mq ff) s = snd (acquireMany now rs sg mq ff s)"
| "as_handle now (Release_all i) s = compositeRelease now i s"
| "as_handle now (Timeout_queued i) s = settle_queued now i A_timeout s"
| "as_handle now (Abort_queued i) s = settle_queued now i A_aborted s"
| "as_handle now (Block_gate k u) s = markBlocked now k u s"
| "as_handle now (Unblock_gate k) s = unblock now k s"
| "as_handle now (Cleanup_gate k) s = cleanup_fired now k s"
| "as_handle now (Check_full p a mc) s = snd (isAccountSemaphoreFull now p a mc s)"

fun as_enabled :: "as_event \<Rightarrow> as_state \<Rightarrow> bool" where
  "as_enabled (Abort_queued i) s \<longleftrightarrow> (\<exists>r \<in> set (queued s). rq_id r = i \<and> rq_signal r)"
| "as_enabled (Cleanup_gate k) s \<longleftrightarrow> (case jget (agates s) k of Some g \<Rightarrow> ag_cleanup g | None \<Rightarrow> False)"
| "as_enabled _ s \<longleftrightarrow> True"

text \<open>Histories in which every requirement on a gate stays within \<open>L\<close>; the resets are not among the events.\<close>

definition req_fits :: "(string \<Rightarrow> int) \<Rightarrow> string \<times> js_num option \<Rightarrow> bool" where
  "req_fits L r = (case r of (k, mc) \<Rightarrow> case mc of Some (Fin q) \<Rightarrow> 0 < q \<longrightarrow> q \<le> of_int (L k) | _ \<Rightarrow> True)"

definition fits_limits :: "(string \<Rightarrow> int) \<Rightarrow> as_event \<Rightarrow> bool" where
  "fits_limits L ev = (case ev of
       Acquire_many rs sg mq ff \<Rightarrow> list_all (req_fits L) rs
     | _ \<Rightarrow> True)"

inductive as_step :: "(string \<Rightarrow> int) \<Rightarrow> as_event \<Rightarrow> as_state \<Rightarrow> as_state \<Rightarrow> bool" for L where
  as_event: "as_enabled ev s \<Longrightarrow> fits_limits L ev \<Longrightarrow> as_step L ev s (as_handle now ev s)"

section \<open>Invariant\<close>

text \<open>
  The queues and counters of the gates are views of the two global collections: gate \<open>k\<close> queues the
  waiting requests that need \<open>k\<close>, in order, and its counter counts the holders of \<open>k\<close>.
\<close>

definition waiting_for :: "as_state \<Rightarrow> string \<Rightarrow> nat list" where
  "waiting_for s k = map rq_id (filter (\<lambda>r. k \<in> set (rq_keys r)) (queued s))"

definition holding :: "as_state \<Rightarrow> string \<Rightarrow> int" where
  "holding s k = int (length (filter (\<lambda>(i, ks). k \<in> set ks) (aholders s)))"

text \<open>An idle gate may carry any limit: \<^verbatim>\<open>markBlocked\<close> creates one with limit 1.\<close>

definition agate_ok :: "int \<Rightarrow> agate \<Rightarrow> bool" where
  "agate_ok l g \<longleftrightarrow> ag_running g \<le> l \<and> (ag_max g \<le> l \<or> idle_gate g)"

definition views_ok :: "(string \<Rightarrow> int) \<Rightarrow> as_state \<Rightarrow> bool" where
  "views_ok L s \<longleftrightarrow> (\<forall>k. case jget (agates s) k of
       Some g \<Rightarrow> ag_queue g = waiting_for s k \<and> ag_running g = holding s k \<and> agate_ok (L k) g
     | None \<Rightarrow> waiting_for s k = [] \<and> holding s k = 0)"

definition requests_ok :: "as_state \<Rightarrow> bool" where
  "requests_ok s \<longleftrightarrow> sorted (map rq_id (queued s)) \<and> distinct (map rq_id (queued s)) \<and> distinct (map fst (aholders s)) \<and>
     (\<forall>r \<in> set (queued s). rq_id r < next_req s \<and> distinct (rq_keys r) \<and> rq_keys r \<noteq> []) \<and>
     (\<forall>(i, ks) \<in> set (aholders s). i < next_req s \<and> distinct ks) \<and>
     (\<forall>r \<in> set (queued s). \<forall>(i, ks) \<in> set (aholders s). rq_id r \<noteq> i \<and> (set ks \<inter> set (rq_keys r) \<noteq> {} \<longrightarrow> i < rq_id r))"

definition as_inv :: "(string \<Rightarrow> int) \<Rightarrow> as_state \<Rightarrow> bool" where
  "as_inv L s \<longleftrightarrow> views_ok L s \<and> requests_ok s"


text \<open>Only counters, limits and queues matter for the invariant.\<close>

definition gate_core :: "agate \<Rightarrow> int \<times> int \<times> nat list" where
  "gate_core g = (ag_running g, ag_max g, ag_queue g)"

definition same_core :: "as_state \<Rightarrow> as_state \<Rightarrow> bool" where
  "same_core s s' \<longleftrightarrow> queued s' = queued s \<and> aholders s' = aholders s \<and> next_req s' = next_req s \<and>
     (\<forall>k. map_option gate_core (jget (agates s') k) = map_option gate_core (jget (agates s) k))"

lemma same_core_refl [simp]: "same_core s s"
  by (simp add: same_core_def)

lemma same_core_trans: "same_core a b \<Longrightarrow> same_core b c \<Longrightarrow> same_core a c"
  by (simp add: same_core_def)

lemma same_coreD:
  assumes "same_core s s'" "jget (agates s) k = Some g"
  obtains g' where "jget (agates s') k = Some g'" "gate_core g' = gate_core g"
proof -
  have "map_option gate_core (jget (agates s') k) = Some (gate_core g)" using assms by (simp add: same_core_def)
  then show thesis using that by auto
qed

lemma as_inv_core:
  assumes "same_core s s'" "as_inv L s" shows "as_inv L s'"
proof -
  have w: "waiting_for s' k = waiting_for s k" "holding s' k = holding s k" for k
    using assms(1) by (simp_all add: same_core_def waiting_for_def holding_def)
  have "views_ok L s'"
    unfolding views_ok_def
  proof
    fix k
    have v: "case jget (agates s) k of Some g \<Rightarrow> ag_queue g = waiting_for s k \<and> ag_running g = holding s k \<and> agate_ok (L k) g
      | None \<Rightarrow> waiting_for s k = [] \<and> holding s k = 0" using assms(2) by (simp add: as_inv_def views_ok_def)
    have c: "map_option gate_core (jget (agates s') k) = map_option gate_core (jget (agates s) k)" using assms(1) by (simp add: same_core_def)
    show "case jget (agates s') k of Some g \<Rightarrow> ag_queue g = waiting_for s' k \<and> ag_running g = holding s' k \<and> agate_ok (L k) g
      | None \<Rightarrow> waiting_for s' k = [] \<and> holding s' k = 0"
      using v c w by (auto simp: gate_core_def agate_ok_def idle_gate_def split: option.splits)
  qed
  then show ?thesis using assms by (simp add: as_inv_def requests_ok_def same_core_def)
qed

lemma modg_core:
  assumes "\<And>g. gate_core (f g) = gate_core g" shows "same_core s (modg f k s)"
proof -
  have "gate_core \<circ> f = gate_core" using assms by auto
  then show ?thesis by (simp add: same_core_def option.map_comp)
qed

lemma isBlocked_core: "isBlocked now k s = (b, s') \<Longrightarrow> same_core s s'"
  by (auto simp: isBlocked_def gate_core_def unblock_expired_def intro!: modg_core split: option.splits)

lemma canAcquire_core: "canAcquire now i ks s = (b, s') \<Longrightarrow> same_core s s'"
  by (induction now i ks s arbitrary: b s' rule: canAcquire.induct)
    (auto dest: isBlocked_core intro: same_core_trans split: option.splits prod.splits if_splits)

lemma first_ready_core: "first_ready now rs s = (x, s') \<Longrightarrow> same_core s s'"
  by (induction now rs s arbitrary: x s' rule: first_ready.induct)
    (auto dest: canAcquire_core intro: same_core_trans split: prod.splits if_splits)

lemma canAcquireImmediately_core: "canAcquireImmediately now ks s = (b, s') \<Longrightarrow> same_core s s'"
  by (induction now ks s arbitrary: b s' rule: canAcquireImmediately.induct)
    (auto dest: isBlocked_core intro: same_core_trans split: option.splits prod.splits if_splits)

lemma schedule_if_idle_core: "same_core s (schedule_if_idle k s)"
  by (auto simp: schedule_if_idle_def scheduleCleanup_def gate_core_def intro: modg_core split: option.split)

lemma foldl_core:
  assumes "\<And>s k. same_core s (F s k)" shows "same_core s (foldl F s ks)"
  by (induction ks arbitrary: s) (auto intro: same_core_trans assms)

text \<open>A pass over distinct keys that rewrites each gate once.\<close>

lemma foldl_gates:
  assumes "\<And>s k k'. map_option gate_core (jget (agates (F s k)) k') =
      (if k' = k then map_option f (map_option gate_core (jget (agates s) k')) else map_option gate_core (jget (agates s) k'))"
    and "distinct ks"
  shows "map_option gate_core (jget (agates (foldl F s ks)) k) =
    (if k \<in> set ks then map_option f (map_option gate_core (jget (agates s) k)) else map_option gate_core (jget (agates s) k))"
  using assms(2) by (induction ks arbitrary: s) (auto simp: assms(1))

lemma take_slots_gates:
  assumes "distinct ks"
  shows "map_option gate_core (jget (agates (take_slots ks s)) k) =
    (if k \<in> set ks then map_option (\<lambda>(n, m, q). (n + 1, m, q)) (map_option gate_core (jget (agates s) k))
     else map_option gate_core (jget (agates s) k))"
  unfolding take_slots_def
  by (rule foldl_gates [OF _ assms]) (auto simp: option.map_comp comp_def gate_core_def)

lemma removeRequest_gates:
  assumes "distinct (rq_keys r)"
  shows "map_option gate_core (jget (agates (removeRequest r s)) k) =
    (if k \<in> set (rq_keys r) then map_option (\<lambda>(n, m, q). (n, m, remove1 (rq_id r) q)) (map_option gate_core (jget (agates s) k))
     else map_option gate_core (jget (agates s) k))"
proof -
  have *: "map_option gate_core (jget (agates (schedule_if_idle k (modg f k s))) k') = map_option gate_core (jget (agates (modg f k s)) k')" for k k' f s
    using schedule_if_idle_core [of "modg f k s" k] by (simp add: same_core_def)
  show ?thesis
    unfolding removeRequest_def
    by (subst foldl_gates [OF _ assms, where f = "\<lambda>(n, m, q). (n, m, remove1 (rq_id r) q)"])
      (auto simp: * option.map_comp comp_def gate_core_def)
qed

lemma enqueue_gates:
  assumes "distinct (rq_keys r)"
  shows "map_option gate_core (jget (agates (enqueue_request r s)) k) =
    (if k \<in> set (rq_keys r) then map_option (\<lambda>(n, m, q). (n, m, q @ [rq_id r])) (map_option gate_core (jget (agates s) k))
     else map_option gate_core (jget (agates s) k))"
  unfolding enqueue_request_def
  by (subst foldl_gates [OF _ assms, where f = "\<lambda>(n, m, q). (n, m, q @ [rq_id r])"])
    (auto simp: option.map_comp comp_def gate_core_def)


lemma views_ok_iff:
  "views_ok L s \<longleftrightarrow> (\<forall>k. case map_option gate_core (jget (agates s) k) of
       None \<Rightarrow> waiting_for s k = [] \<and> holding s k = 0
     | Some (n, mx, q) \<Rightarrow> q = waiting_for s k \<and> n = holding s k \<and> n \<le> L k \<and> (mx \<le> L k \<or> n = 0 \<and> q = []))"
  unfolding views_ok_def
  by (intro iff_allI) (auto simp: gate_core_def agate_ok_def idle_gate_def split: option.split)

lemma views_okD:
  assumes "views_ok L s" "jget (agates s) k = Some g"
  shows "ag_queue g = waiting_for s k" "ag_running g = holding s k" "ag_running g \<le> L k" "ag_max g \<le> L k \<or> idle_gate g"
  using spec [OF assms(1) [unfolded views_ok_def], of k] assms(2) by (auto simp: agate_ok_def)

lemma waiting_has_gate:
  assumes "views_ok L s" "r \<in> set (queued s)" "k \<in> set (rq_keys r)"
  obtains g where "jget (agates s) k = Some g"
proof -
  have "waiting_for s k \<noteq> []" using assms(2,3) by (auto simp: waiting_for_def filter_empty_conv)
  then show thesis using spec [OF assms(1) [unfolded views_ok_def], of k] that by (cases "jget (agates s) k") auto
qed

lemma holding_nonneg [simp]: "0 \<le> holding s k"
  by (simp add: holding_def)

text \<open>Leaving the queue.\<close>

lemma waiting_removed:
  assumes "distinct (map rq_id (queued s))" "r \<in> set (queued s)"
  shows "waiting_for (s\<lparr>queued := filter (\<lambda>r'. rq_id r' \<noteq> rq_id r) (queued s)\<rparr>) k =
    (if k \<in> set (rq_keys r) then remove1 (rq_id r) (waiting_for s k) else waiting_for s k)"
proof -
  obtain a b where q: "queued s = a @ r # b" using assms(2) by (meson split_list)
  have n: "rq_id r \<notin> rq_id ` set a" "rq_id r \<notin> rq_id ` set b" using assms(1) q by auto
  then have f: "filter (\<lambda>r'. rq_id r' \<noteq> rq_id r) a = a" "filter (\<lambda>r'. rq_id r' \<noteq> rq_id r) b = b"
    by (auto simp: filter_id_conv image_iff)
  have "rq_id r \<notin> set (map rq_id (filter P a))" for P using n(1) by auto
  then show ?thesis using q f by (simp add: waiting_for_def remove1_append)
qed

lemma waiting_cong: "queued s' = queued s \<Longrightarrow> waiting_for s' k = waiting_for s k"
  by (simp add: waiting_for_def)

lemma holding_cong: "aholders s' = aholders s \<Longrightarrow> holding s' k = holding s k"
  by (simp add: holding_def)

lemma removeRequest_waiting:
  assumes "requests_ok s" "r \<in> set (queued s)"
  shows "waiting_for (removeRequest r s) k = (if k \<in> set (rq_keys r) then remove1 (rq_id r) (waiting_for s k) else waiting_for s k)"
    "holding (removeRequest r s) k = holding s k"
  using waiting_removed [of s r k] assms
  by (simp_all add: requests_ok_def waiting_for_def holding_def)

lemma requests_ok_filter:
  assumes "requests_ok s" "queued s' = filter P (queued s)" "aholders s' = filter Q (aholders s)" "next_req s' = next_req s"
  shows "requests_ok s'"
  using assms unfolding requests_ok_def
  by (auto simp: distinct_map_filter sorted_filter)

lemma removeRequest_inv:
  assumes "as_inv L s" "r \<in> set (queued s)" shows "as_inv L (removeRequest r s)"
proof -
  have v: "views_ok L s" and rq: "requests_ok s" using assms(1) by (auto simp: as_inv_def)
  have d: "distinct (rq_keys r)" using rq assms(2) by (auto simp: requests_ok_def)
  have "requests_ok (removeRequest r s)" by (rule requests_ok_filter [OF rq, where Q = "\<lambda>_. True"]) simp_all
  moreover have "views_ok L (removeRequest r s)"
    unfolding views_ok_iff
  proof
    fix k
    show "case map_option gate_core (jget (agates (removeRequest r s)) k) of
       None \<Rightarrow> waiting_for (removeRequest r s) k = [] \<and> holding (removeRequest r s) k = 0
     | Some (n, mx, q) \<Rightarrow> q = waiting_for (removeRequest r s) k \<and> n = holding (removeRequest r s) k \<and> n \<le> L k \<and> (mx \<le> L k \<or> n = 0 \<and> q = [])"
      using spec [OF v [unfolded views_ok_iff], of k] unfolding removeRequest_gates [OF d] removeRequest_waiting [OF rq assms(2)]
      by (auto split: option.splits)
  qed
  ultimately show ?thesis by (simp add: as_inv_def)
qed

text \<open>Taking the slots of one request.\<close>

definition hold :: "nat \<Rightarrow> string list \<Rightarrow> as_state \<Rightarrow> as_state" where
  "hold i ks s = (take_slots ks s)\<lparr>aholders := (i, ks) # aholders s\<rparr>"

lemma hold_frame [simp]: "queued (hold i ks s) = queued s" "next_req (hold i ks s) = next_req s" "agates (hold i ks s) = agates (take_slots ks s)"
  "aholders (hold i ks s) = (i, ks) # aholders s" "alog (hold i ks s) = alog s"
  by (simp_all add: hold_def)

lemma hold_inv:
  assumes "as_inv L s" "distinct ks" "i < next_req s" "i \<notin> rq_id ` set (queued s)" "i \<notin> fst ` set (aholders s)"
    and room: "\<And>k. k \<in> set ks \<Longrightarrow> \<exists>g. jget (agates s) k = Some g \<and> ag_running g < ag_max g \<and> ag_max g \<le> L k"
    and fifo: "\<And>r. r \<in> set (queued s) \<Longrightarrow> set ks \<inter> set (rq_keys r) \<noteq> {} \<Longrightarrow> i < rq_id r"
  shows "as_inv L (hold i ks s)"
proof -
  have v: "views_ok L s" and rq: "requests_ok s" using assms(1) by (auto simp: as_inv_def)
  have w: "waiting_for (hold i ks s) k = waiting_for s k" "holding (hold i ks s) k = holding s k + (if k \<in> set ks then 1 else 0)" for k
    by (simp_all add: waiting_for_def holding_def)
  have "views_ok L (hold i ks s)"
    unfolding views_ok_iff
  proof
    fix k
    show "case map_option gate_core (jget (agates (hold i ks s)) k) of
       None \<Rightarrow> waiting_for (hold i ks s) k = [] \<and> holding (hold i ks s) k = 0
     | Some (n, mx, q) \<Rightarrow> q = waiting_for (hold i ks s) k \<and> n = holding (hold i ks s) k \<and> n \<le> L k \<and> (mx \<le> L k \<or> n = 0 \<and> q = [])"
      using spec [OF v [unfolded views_ok_iff], of k] room [of k] unfolding hold_frame take_slots_gates [OF assms(2)] w
      by (auto simp: gate_core_def split: option.splits)
  qed
  moreover have "requests_ok (hold i ks s)"
    using rq assms(2-5) fifo unfolding requests_ok_def by auto
  ultimately show ?thesis by (simp add: as_inv_def)
qed

text \<open>A request found ready has a free slot in every gate and is first in every queue.\<close>

lemma canAcquire_ready:
  assumes "canAcquire now i ks s = (True, s')" "k \<in> set ks" "distinct ks"
  shows "\<exists>g. jget (agates s) k = Some g \<and> \<not> blocked_at now g \<and> ag_running g < ag_max g \<and> ag_queue g \<noteq> [] \<and> hd (ag_queue g) = i"
  using assms
proof (induction now i ks s rule: canAcquire.induct)
  case (2 now i k' ks s)
  obtain g where g: "jget (agates s) k' = Some g" using 2(2) by (auto split: option.splits)
  define s1 where "s1 = modg (unblock_expired now) k' s"
  have ib: "isBlocked now k' s = (blocked_at now g, s1)" using g by (simp add: isBlocked_def s1_def)
  have c: "\<not> blocked_at now g" "ag_running g < ag_max g" "ag_queue g \<noteq> []" "hd (ag_queue g) = i" "canAcquire now i ks s1 = (True, s')"
    using 2(2) g ib by (auto split: if_splits)
  show ?case
  proof (cases "k = k'")
    case False
    then have "\<exists>g. jget (agates s1) k = Some g \<and> \<not> blocked_at now g \<and> ag_running g < ag_max g \<and> ag_queue g \<noteq> [] \<and> hd (ag_queue g) = i"
      using 2(1) [OF g ib [symmetric] refl] c 2(3,4) by auto
    then show ?thesis using False by (simp add: s1_def)
  qed (use g c in auto)
qed simp


lemma as_inv_alog [simp]: "as_inv L (s\<lparr>alog := lg\<rparr>) = as_inv L s"
proof -
  have "same_core s (s\<lparr>alog := lg\<rparr>)" "same_core (s\<lparr>alog := lg\<rparr>) s" by (simp_all add: same_core_def)
  then show ?thesis using as_inv_core by blast
qed

lemma admit_queued_hold:
  "admit_queued r s = (hold (rq_id r) (rq_keys r) (removeRequest r s))\<lparr>alog := alog s @ [(rq_id r, A_granted)]\<rparr>"
  by (simp add: admit_queued_def hold_def Let_def)

lemma head_is_oldest:
  assumes "requests_ok s" "waiting_for s k \<noteq> []" "hd (waiting_for s k) = i" "r \<in> set (queued s)" "k \<in> set (rq_keys r)"
  shows "i \<le> rq_id r"
proof -
  have "sorted (waiting_for s k)" using assms(1) by (simp add: waiting_for_def requests_ok_def sorted_filter)
  moreover have "rq_id r \<in> set (waiting_for s k)" using assms(4,5) by (auto simp: waiting_for_def)
  ultimately show ?thesis using assms(2,3) by (cases "waiting_for s k") auto
qed

lemma same_coreE:
  assumes "same_core s s'"
  shows "queued s' = queued s" "aholders s' = aholders s" "next_req s' = next_req s"
  using assms by (simp_all add: same_core_def)

lemma request_facts:
  assumes "requests_ok s" "r \<in> set (queued s)"
  shows "distinct (rq_keys r)" "rq_keys r \<noteq> []" "rq_id r < next_req s" "rq_id r \<notin> fst ` set (aholders s)"
    "\<And>r'. r' \<in> set (queued s) \<Longrightarrow> rq_id r' = rq_id r \<Longrightarrow> r' = r"
proof -
  show "distinct (rq_keys r)" "rq_keys r \<noteq> []" "rq_id r < next_req s" using assms unfolding requests_ok_def by blast+
  show "rq_id r \<notin> fst ` set (aholders s)" using assms unfolding requests_ok_def by fastforce
  show "r' = r" if "r' \<in> set (queued s)" "rq_id r' = rq_id r" for r'
    using assms that inj_onD [of rq_id "set (queued s)" r' r] unfolding requests_ok_def distinct_map by blast
qed

lemma admit_queued_inv:
  assumes "as_inv L s" "r \<in> set (queued s)" "canAcquire now (rq_id r) (rq_keys r) s = (True, s')"
  shows "as_inv L (admit_queued r s')"
proof -
  note core = canAcquire_core [OF assms(3)]
  have inv: "as_inv L s'" by (rule as_inv_core [OF core assms(1)])
  have v: "views_ok L s" and rq: "requests_ok s" using assms(1) by (auto simp: as_inv_def)
  note rf = request_facts [OF rq assms(2)]
  have r': "r \<in> set (queued s')" using assms(2) same_coreE [OF core] by simp
  have ready: "\<exists>g. jget (agates s) k = Some g \<and> ag_running g < ag_max g \<and> ag_queue g \<noteq> [] \<and> hd (ag_queue g) = rq_id r"
    if "k \<in> set (rq_keys r)" for k using canAcquire_ready [OF assms(3) that rf(1)] by blast
  have "as_inv L (hold (rq_id r) (rq_keys r) (removeRequest r s'))"
  proof (rule hold_inv [OF removeRequest_inv [OF inv r'] rf(1)])
    fix k assume k: "k \<in> set (rq_keys r)"
    obtain g where g: "jget (agates s) k = Some g" "ag_running g < ag_max g" "ag_queue g \<noteq> []" using ready [OF k] by blast
    have mx: "ag_max g \<le> L k" using views_okD [OF v g(1)] g(3) by (auto simp: idle_gate_def)
    have "map_option gate_core (jget (agates s') k) = Some (gate_core g)" using core g(1) by (simp add: same_core_def)
    then have "map_option gate_core (jget (agates (removeRequest r s')) k) = Some (ag_running g, ag_max g, remove1 (rq_id r) (ag_queue g))"
      using removeRequest_gates [OF rf(1), of s' k] k by (auto simp: gate_core_def)
    then show "\<exists>g. jget (agates (removeRequest r s')) k = Some g \<and> ag_running g < ag_max g \<and> ag_max g \<le> L k"
      using g(2) mx by (auto simp: gate_core_def)
  next
    fix r2 assume r2: "r2 \<in> set (queued (removeRequest r s'))" "set (rq_keys r) \<inter> set (rq_keys r2) \<noteq> {}"
    then obtain k where k: "k \<in> set (rq_keys r)" "k \<in> set (rq_keys r2)" by blast
    obtain g where g: "jget (agates s) k = Some g" "ag_queue g \<noteq> []" "hd (ag_queue g) = rq_id r" using ready [OF k(1)] by blast
    have "r2 \<in> set (queued s)" "rq_id r2 \<noteq> rq_id r" using r2(1) same_coreE [OF core] by auto
    moreover have "ag_queue g = waiting_for s k" using views_okD [OF v g(1)] by simp
    ultimately show "rq_id r < rq_id r2" using head_is_oldest [OF rq, of k "rq_id r" r2] g k by auto
  qed (use rf same_coreE [OF core] in auto)
  then show ?thesis by (simp add: admit_queued_hold)
qed

lemma first_ready_Some:
  assumes "first_ready now rs s = (Some r, s')" "as_inv L s"
  shows "\<exists>s0. as_inv L s0 \<and> same_core s s0 \<and> canAcquire now (rq_id r) (rq_keys r) s0 = (True, s')"
  using assms
proof (induction now rs s rule: first_ready.induct)
  case (2 now r0 rs s)
  obtain ok s1 where c: "canAcquire now (rq_id r0) (rq_keys r0) s = (ok, s1)" by fastforce
  show ?case
  proof (cases ok)
    case True
    then show ?thesis using 2(2,3) c by auto
  next
    case False
    note k = canAcquire_core [OF c]
    have "\<exists>s0. as_inv L s0 \<and> same_core s1 s0 \<and> canAcquire now (rq_id r) (rq_keys r) s0 = (True, s')"
      using 2(1) [OF refl c [symmetric] False] 2(2) c False as_inv_core [OF k 2(3)] by simp
    then show ?thesis using same_core_trans [OF k] by blast
  qed
qed simp

lemma drainQueues_inv: "as_inv L s \<Longrightarrow> as_inv L (drainQueues now s)"
proof (induction now s rule: drainQueues.induct)
  case (1 now s)
  obtain x s1 where f: "first_ready now (queued s) s = (x, s1)" by fastforce
  show ?case
  proof (cases x)
    case None
    then show ?thesis using f 1(2) first_ready_core [OF f] as_inv_core by (subst drainQueues.simps) auto
  next
    case (Some r)
    then obtain s0 where s0: "as_inv L s0" "same_core s s0" "canAcquire now (rq_id r) (rq_keys r) s0 = (True, s1)"
      using first_ready_Some f 1(2) by blast
    have "r \<in> set (queued s0)" using first_ready_mem [of now "queued s" s r s1] f Some same_coreE [OF s0(2)] by simp
    then have "as_inv L (admit_queued r s1)" using admit_queued_inv [OF s0(1) _ s0(3)] by blast
    then show ?thesis using 1(1) [OF f [symmetric] Some] f Some by (subst drainQueues.simps) simp
  qed
qed


text \<open>The other ways out of and into the queue.\<close>

lemma settle_queued_inv:
  assumes "as_inv L s" shows "as_inv L (settle_queued now i code s)"
proof (cases "find (\<lambda>r. rq_id r = i) (queued s)")
  case (Some r)
  then have "r \<in> set (queued s)" by (auto simp: find_Some_iff)
  then show ?thesis using Some removeRequest_inv [OF assms] by (simp add: settle_queued_def Let_def drainQueues_inv)
qed (simp add: settle_queued_def assms)

lemma holding_release:
  assumes "distinct (map fst (aholders s))" "map_of (aholders s) i = Some ks"
  shows "holding (s\<lparr>aholders := filter (\<lambda>(i', _). i' \<noteq> i) (aholders s)\<rparr>) k = holding s k - (if k \<in> set ks then 1 else 0)"
proof -
  obtain a b where h: "aholders s = a @ (i, ks) # b" using map_of_SomeD [OF assms(2)] by (meson split_list)
  then have "i \<notin> fst ` set a" "i \<notin> fst ` set b" using assms(1) by auto
  then have "filter (\<lambda>(i', _). i' \<noteq> i) a = a" "filter (\<lambda>(i', _). i' \<noteq> i) b = b"
    by (auto simp: filter_id_conv image_def)
  then show ?thesis using h by (simp add: holding_def)
qed

definition give_back :: "nat \<Rightarrow> string list \<Rightarrow> as_state \<Rightarrow> as_state" where
  "give_back i ks s = foldl (\<lambda>s k. dec_slot k s) (s\<lparr>aholders := filter (\<lambda>(i', _). i' \<noteq> i) (aholders s)\<rparr>) ks"

lemma give_back_frame [simp]:
  "queued (give_back i ks s) = queued s" "next_req (give_back i ks s) = next_req s" "alog (give_back i ks s) = alog s"
  "aholders (give_back i ks s) = filter (\<lambda>(i', _). i' \<noteq> i) (aholders s)"
  by (simp_all add: give_back_def foldl_frame dec_slot_def)

lemma give_back_inv:
  assumes "as_inv L s" "map_of (aholders s) i = Some ks"
  shows "as_inv L (give_back i ks s)"
proof -
  have v: "views_ok L s" and rq: "requests_ok s" using assms(1) by (auto simp: as_inv_def)
  have d: "distinct (map fst (aholders s))" "distinct ks" using rq map_of_SomeD [OF assms(2)] by (auto simp: requests_ok_def)
  have g: "map_option gate_core (jget (agates (give_back i ks s)) k) =
    (if k \<in> set ks then map_option (\<lambda>(n, m, q). (if n > 0 then n - 1 else n, m, q)) (map_option gate_core (jget (agates s) k))
     else map_option gate_core (jget (agates s) k))" for k
    unfolding give_back_def dec_slot_def
    by (subst foldl_gates [OF _ d(2), where f = "\<lambda>(n, m, q). (if n > 0 then n - 1 else n, m, q)"])
      (auto simp: option.map_comp comp_def gate_core_def intro!: option.map_cong)
  have w: "waiting_for (give_back i ks s) k = waiting_for s k" "holding (give_back i ks s) k = holding s k - (if k \<in> set ks then 1 else 0)" for k
    using holding_release [OF d(1) assms(2), of k] by (simp_all add: waiting_for_def holding_def)
  have pos: "holding s k > 0" if "k \<in> set ks" for k using w(2) [of k] holding_nonneg [of "give_back i ks s" k] that by (simp del: holding_nonneg)
  have "views_ok L (give_back i ks s)"
    unfolding views_ok_iff
  proof
    fix k
    show "case map_option gate_core (jget (agates (give_back i ks s)) k) of
       None \<Rightarrow> waiting_for (give_back i ks s) k = [] \<and> holding (give_back i ks s) k = 0
     | Some (n, mx, q) \<Rightarrow> q = waiting_for (give_back i ks s) k \<and> n = holding (give_back i ks s) k \<and> n \<le> L k \<and> (mx \<le> L k \<or> n = 0 \<and> q = [])"
      using spec [OF v [unfolded views_ok_iff], of k] pos [of k] unfolding g w by (auto split: option.splits)
  qed
  moreover have "requests_ok (give_back i ks s)" by (rule requests_ok_filter [OF rq, where P = "\<lambda>_. True"]) simp_all
  ultimately show ?thesis by (simp add: as_inv_def)
qed

lemma compositeRelease_unfold:
  "map_of (aholders s) i = Some ks \<Longrightarrow>
   compositeRelease now i s = foldl (\<lambda>s k. schedule_if_idle k s) (drainQueues now (give_back i ks s)) ks"
  by (simp add: compositeRelease_def give_back_def Let_def)

lemma compositeRelease_inv:
  assumes "as_inv L s" shows "as_inv L (compositeRelease now i s)"
proof (cases "map_of (aholders s) i")
  case (Some ks)
  have "same_core (drainQueues now (give_back i ks s)) (compositeRelease now i s)"
    unfolding compositeRelease_unfold [OF Some] by (intro foldl_core schedule_if_idle_core)
  then show ?thesis using as_inv_core drainQueues_inv [OF give_back_inv [OF assms Some]] by blast
qed (simp add: compositeRelease_def assms)

text \<open>Gates appear with the limit of the request, or idle.\<close>

lemma ensureGate_frame [simp]:
  "queued (ensureGate k mx s) = queued s" "aholders (ensureGate k mx s) = aholders s" "next_req (ensureGate k mx s) = next_req s"
  "alog (ensureGate k mx s) = alog s"
  by (auto simp: ensureGate_def split: option.split)

lemma ensureGate_get:
  "jget (agates (ensureGate k mx s)) k' = (if k' = k then Some (case jget (agates s) k of Some g \<Rightarrow> g\<lparr>ag_max := mx\<rparr>
     | None \<Rightarrow> \<lparr>ag_running = 0, ag_max = mx, ag_queue = [], ag_blocked = None, ag_cleanup = False\<rparr>) else jget (agates s) k')"
  by (auto simp: ensureGate_def split: option.split)

lemma ensureGate_inv:
  assumes "as_inv L s" "0 \<le> L k" "mx \<le> L k \<or> (\<forall>g. jget (agates s) k = Some g \<longrightarrow> mx = ag_max g)"
  shows "as_inv L (ensureGate k mx s)"
proof -
  have v: "views_ok L s" and rq: "requests_ok s" using assms(1) by (auto simp: as_inv_def)
  have w: "waiting_for (ensureGate k mx s) k' = waiting_for s k'" "holding (ensureGate k mx s) k' = holding s k'" for k'
    by (simp_all add: waiting_for_def holding_def)
  have "views_ok L (ensureGate k mx s)"
    unfolding views_ok_def ensureGate_get w
  proof
    fix k'
    show "case if k' = k then Some (case jget (agates s) k of Some g \<Rightarrow> g\<lparr>ag_max := mx\<rparr>
     | None \<Rightarrow> \<lparr>ag_running = 0, ag_max = mx, ag_queue = [], ag_blocked = None, ag_cleanup = False\<rparr>) else jget (agates s) k' of
       Some g \<Rightarrow> ag_queue g = waiting_for s k' \<and> ag_running g = holding s k' \<and> agate_ok (L k') g
     | None \<Rightarrow> waiting_for s k' = [] \<and> holding s k' = 0"
      using spec [OF v [unfolded views_ok_def], of k'] assms(2,3)
      by (auto simp: agate_ok_def idle_gate_def split: option.splits)
  qed
  moreover have "requests_ok (ensureGate k mx s)" using rq by (simp add: requests_ok_def)
  ultimately show ?thesis by (simp add: as_inv_def)
qed

lemma clearCleanupTimer_core: "same_core s (clearCleanupTimer k s)"
  unfolding clearCleanupTimer_def by (rule modg_core) (simp add: gate_core_def)

lemma prepare_gates_inv:
  assumes "as_inv L s" "\<And>k. k \<in> set ks \<Longrightarrow> \<exists>l. jget en k = Some l \<and> l \<le> L k" "\<And>k. 0 \<le> L k"
  shows "as_inv L (prepare_gates en ks s)"
  using assms unfolding prepare_gates_def
proof (induction ks arbitrary: s)
  case (Cons k ks)
  obtain l where l: "jget en k = Some l" "l \<le> L k" using Cons(3) by auto
  have "as_inv L (clearCleanupTimer k (ensureGate k l s))"
    using ensureGate_inv [OF Cons(2) assms(3)] l(2) clearCleanupTimer_core as_inv_core by blast
  then show ?case using Cons.IH [of "clearCleanupTimer k (ensureGate k l s)"] Cons(3,4) l by simp
qed simp

lemma clearCleanupTimer_frame [simp]:
  "queued (clearCleanupTimer k s) = queued s" "aholders (clearCleanupTimer k s) = aholders s" "next_req (clearCleanupTimer k s) = next_req s"
  "alog (clearCleanupTimer k s) = alog s"
  by (simp_all add: clearCleanupTimer_def)

lemma prepare_gates_frame [simp]:
  "queued (prepare_gates en ks s) = queued s" "aholders (prepare_gates en ks s) = aholders s" "next_req (prepare_gates en ks s) = next_req s"
  "alog (prepare_gates en ks s) = alog s"
  by (simp_all add: prepare_gates_def foldl_frame)

lemma prepare_gates_get:
  "distinct ks \<Longrightarrow> k \<in> set ks \<Longrightarrow>
   \<exists>g. jget (agates (prepare_gates en ks s)) k = Some g \<and> ag_max g = (case jget en k of Some l \<Rightarrow> l | None \<Rightarrow> 0)"
proof (induction ks arbitrary: s)
  case (Cons k' ks)
  define s1 where "s1 = clearCleanupTimer k' (ensureGate k' (case jget en k' of Some l \<Rightarrow> l | None \<Rightarrow> 0) s)"
  have p: "prepare_gates en (k' # ks) s = prepare_gates en ks s1" by (simp add: prepare_gates_def s1_def)
  show ?case
  proof (cases "k = k'")
    case True
    have keep: "jget (agates (prepare_gates en ks s)) k = jget (agates s) k" if "k \<notin> set ks" for ks s
      using that unfolding prepare_gates_def by (induction ks arbitrary: s) (auto simp: clearCleanupTimer_def ensureGate_get)
    show ?thesis using Cons(2) True keep [of ks s1] unfolding p
      by (auto simp: s1_def clearCleanupTimer_def ensureGate_get split: option.split)
  qed (use Cons p in auto)
qed simp


lemma js_trunc_le: "0 < q \<Longrightarrow> q \<le> of_int l \<Longrightarrow> js_trunc q \<le> l"
  unfolding js_trunc_def by (simp add: floor_le_iff)

lemma enabled_limits_ok:
  assumes "list_all (req_fits L) rs" "jmap_ok en" "\<And>k l. jget en k = Some l \<Longrightarrow> l \<le> L k"
  shows "jmap_ok (enabled_limits rs en) \<and> (\<forall>k l. jget (enabled_limits rs en) k = Some l \<longrightarrow> l \<le> L k)"
  using assms
proof (induction rs en rule: enabled_limits.induct)
  case (2 k mc rs en)
  show ?case
  proof (cases "isBypassed mc")
    case False
    then obtain q where q: "mc = Some (Fin q)" "0 < q" by (auto simp: isBypassed_def split: option.splits js_num.splits)
    then have "js_trunc q \<le> L k" using 2(3) js_trunc_le by (auto simp: req_fits_def)
    moreover define en' where "en' = jset k (min (case jget en k of Some x \<Rightarrow> x | None \<Rightarrow> js_trunc q) (js_trunc q)) en"
    ultimately have "jmap_ok en'" "jget en' k' = Some l \<Longrightarrow> l \<le> L k'" for k' l using 2(4,5) by (auto split: if_splits)
    moreover have "enabled_limits ((k, mc) # rs) en = enabled_limits rs en'" using False q by (simp add: en'_def Let_def)
    moreover have "jmap_ok (enabled_limits rs en') \<and> (\<forall>k l. jget (enabled_limits rs en') k = Some l \<longrightarrow> l \<le> L k)"
      using calculation(1,2) 2(3) q by (intro 2(2) [OF False, of "js_trunc q", folded en'_def]) auto
    ultimately show ?thesis by simp
  qed (use 2 in simp)
qed simp

lemma enqueue_frame [simp]:
  "queued (enqueue_request r s) = queued s @ [r]" "aholders (enqueue_request r s) = aholders s" "next_req (enqueue_request r s) = next_req s"
  "alog (enqueue_request r s) = alog s"
  by (simp_all add: enqueue_request_def foldl_frame)

lemma enqueue_inv:
  assumes "as_inv L s" "distinct (rq_keys r)" "rq_keys r \<noteq> []" "rq_id r < next_req s"
    and new: "\<And>r'. r' \<in> set (queued s) \<Longrightarrow> rq_id r' < rq_id r" "\<And>i ks. (i, ks) \<in> set (aholders s) \<Longrightarrow> i < rq_id r"
    and gate: "\<And>k. k \<in> set (rq_keys r) \<Longrightarrow> \<exists>g. jget (agates s) k = Some g \<and> ag_max g \<le> L k"
  shows "as_inv L (enqueue_request r s)"
proof -
  have v: "views_ok L s" and rq: "requests_ok s" using assms(1) by (auto simp: as_inv_def)
  have w: "waiting_for (enqueue_request r s) k = waiting_for s k @ (if k \<in> set (rq_keys r) then [rq_id r] else [])"
    "holding (enqueue_request r s) k = holding s k" for k by (simp_all add: waiting_for_def holding_def)
  have "views_ok L (enqueue_request r s)"
    unfolding views_ok_iff
  proof
    fix k
    show "case map_option gate_core (jget (agates (enqueue_request r s)) k) of
       None \<Rightarrow> waiting_for (enqueue_request r s) k = [] \<and> holding (enqueue_request r s) k = 0
     | Some (n, mx, q) \<Rightarrow> q = waiting_for (enqueue_request r s) k \<and> n = holding (enqueue_request r s) k \<and> n \<le> L k \<and> (mx \<le> L k \<or> n = 0 \<and> q = [])"
      using spec [OF v [unfolded views_ok_iff], of k] gate [of k] unfolding enqueue_gates [OF assms(2)] w
      by (auto simp: gate_core_def split: option.splits)
  qed
  moreover have "requests_ok (enqueue_request r s)"
    using rq assms(2-4) new unfolding requests_ok_def by (auto simp: sorted_append less_imp_le dest: less_imp_neq) (metis less_irrefl)+
  ultimately show ?thesis by (simp add: as_inv_def)
qed

lemma canAcquireImmediately_ready:
  assumes "canAcquireImmediately now ks s = (True, s')" "k \<in> set ks" "distinct ks"
  shows "\<exists>g. jget (agates s) k = Some g \<and> ag_queue g = [] \<and> ag_running g < ag_max g \<and> \<not> blocked_at now g"
  using assms
proof (induction now ks s rule: canAcquireImmediately.induct)
  case (2 now k' ks s)
  obtain g where g: "jget (agates s) k' = Some g" using 2(2) by (auto split: option.splits)
  define s1 where "s1 = modg (unblock_expired now) k' s"
  have ib: "isBlocked now k' s = (blocked_at now g, s1)" using g by (simp add: isBlocked_def s1_def)
  have c: "\<not> blocked_at now g" "ag_queue g = []" "ag_running g < ag_max g" "canAcquireImmediately now ks s1 = (True, s')"
    using 2(2) g ib by (auto split: if_splits)
  show ?case
  proof (cases "k = k'")
    case False
    then have "\<exists>g. jget (agates s1) k = Some g \<and> ag_queue g = [] \<and> ag_running g < ag_max g \<and> \<not> blocked_at now g"
      using 2(1) [OF g _ ib [symmetric] refl] c 2(3,4) by auto
    then show ?thesis using False by (simp add: s1_def)
  qed (use g c in auto)
qed simp


text \<open>The four outcomes of \<^verbatim>\<open>acquireMany\<close> that touch the gates.\<close>

definition am_keys :: "(string \<times> js_num option) list \<Rightarrow> string list" where
  "am_keys rs = sort (jkeys (enabled_limits rs []))"

definition am_prepared :: "(string \<times> js_num option) list \<Rightarrow> as_state \<Rightarrow> as_state" where
  "am_prepared rs s = prepare_gates (enabled_limits rs []) (am_keys rs) (s\<lparr>next_req := next_req s + 1\<rparr>)"

lemma acquireMany_cases:
  assumes "enabled_limits rs [] \<noteq> []" "sg \<noteq> Some True"
    and "canAcquireImmediately now (am_keys rs) (am_prepared rs s) = (ok, s2)"
  shows "acquireMany now rs sg mq ff s =
    (if ok then (Admitted (next_req s), hold (next_req s) (am_keys rs) s2)
     else case findQueueRejection (am_keys rs) mq ff s2 of
            Some k \<Rightarrow> (Queue_full_for k, s2)
          | None \<Rightarrow> (Wait_for (next_req s), drainQueues now
              (enqueue_request \<lparr>rq_id = next_req s, rq_keys = am_keys rs, rq_signal = (sg \<noteq> None)\<rparr> s2)))"
  using assms unfolding acquireMany_def am_keys_def am_prepared_def
  by (simp add: Let_def hold_def split: option.split)

lemma am_facts:
  assumes "list_all (req_fits L) rs" "as_inv L s" "\<And>k. 0 \<le> L k"
  shows "distinct (am_keys rs)" "as_inv L (am_prepared rs s)"
    "\<And>k. k \<in> set (am_keys rs) \<Longrightarrow> \<exists>g. jget (agates (am_prepared rs s)) k = Some g \<and> ag_max g \<le> L k"
    "queued (am_prepared rs s) = queued s" "aholders (am_prepared rs s) = aholders s" "next_req (am_prepared rs s) = next_req s + 1"
proof -
  define en where "en = enabled_limits rs []"
  have en: "jmap_ok en" "jget en k = Some l \<Longrightarrow> l \<le> L k" for k l using enabled_limits_ok [OF assms(1), of "[]"] by (auto simp: en_def)
  have get: "\<exists>l. jget en k = Some l \<and> l \<le> L k" if "k \<in> set (am_keys rs)" for k
    using that en(2) [of k] jget_in_keys [of en k] by (auto simp: am_keys_def en_def [symmetric])
  show dist: "distinct (am_keys rs)" using en(1) by (simp add: am_keys_def en_def [symmetric] jmap_ok_def)
  have "as_inv L (s\<lparr>next_req := next_req s + 1\<rparr>)"
  proof -
    have w: "waiting_for (s\<lparr>next_req := next_req s + 1\<rparr>) k = waiting_for s k" "holding (s\<lparr>next_req := next_req s + 1\<rparr>) k = holding s k" for k
      by (simp_all add: waiting_for_def holding_def)
    have "views_ok L (s\<lparr>next_req := next_req s + 1\<rparr>)" using assms(2) unfolding as_inv_def views_ok_def w by simp
    moreover have "requests_ok (s\<lparr>next_req := next_req s + 1\<rparr>)" using assms(2) unfolding as_inv_def requests_ok_def
      by (simp add: case_prod_unfold less_Suc_eq)
    ultimately show ?thesis by (simp add: as_inv_def)
  qed
  then show "as_inv L (am_prepared rs s)"
    unfolding am_prepared_def en_def [symmetric] by (rule prepare_gates_inv [OF _ get assms(3)])
  show "\<exists>g. jget (agates (am_prepared rs s)) k = Some g \<and> ag_max g \<le> L k" if "k \<in> set (am_keys rs)" for k
    using get [OF that] prepare_gates_get [OF dist that, of en "s\<lparr>next_req := next_req s + 1\<rparr>"]
    unfolding am_prepared_def en_def [symmetric] by auto
qed (simp_all add: am_prepared_def)

lemma requests_old:
  assumes "requests_ok s"
  shows "r \<in> set (queued s) \<Longrightarrow> rq_id r < next_req s" "(i, ks) \<in> set (aholders s) \<Longrightarrow> i < next_req s"
  using assms unfolding requests_ok_def by auto

lemma acquireMany_inv:
  assumes "list_all (req_fits L) rs" "as_inv L s" "\<And>k. 0 \<le> L k"
  shows "as_inv L (snd (acquireMany now rs sg mq ff s))"
proof (cases "enabled_limits rs [] = [] \<or> sg = Some True")
  case False
  obtain ok s2 where c: "canAcquireImmediately now (am_keys rs) (am_prepared rs s) = (ok, s2)" by fastforce
  note am = am_facts [OF assms]
  note core = canAcquireImmediately_core [OF c]
  have inv2: "as_inv L s2" by (rule as_inv_core [OF core am(2)])
  have s2: "queued s2 = queued s" "aholders s2 = aholders s" "next_req s2 = next_req s + 1" using core am by (simp_all add: same_core_def)
  have rq: "requests_ok s" using assms(2) by (simp add: as_inv_def)
  have old: "i \<in> rq_id ` set (queued s) \<Longrightarrow> i < next_req s" "i \<in> fst ` set (aholders s) \<Longrightarrow> i < next_req s" for i
    using requests_old [OF rq] by auto
  have ne: "am_keys rs \<noteq> []" using False by (simp add: am_keys_def) (metis length_0_conv length_map length_sort)
  have gate: "\<exists>g. jget (agates s2) k = Some g \<and> ag_max g \<le> L k" if "k \<in> set (am_keys rs)" for k
    using am(3) [OF that] core by (auto elim!: same_coreD [where k = k] simp: gate_core_def)
  have adm: "as_inv L (hold (next_req s) (am_keys rs) s2)" if okT: ok
  proof (rule hold_inv [OF inv2 am(1)])
    fix k assume k: "k \<in> set (am_keys rs)"
    obtain g where g: "jget (agates (am_prepared rs s)) k = Some g" "ag_queue g = []" "ag_running g < ag_max g"
      using canAcquireImmediately_ready [of now "am_keys rs" "am_prepared rs s" s2 k] c okT k am(1) by auto
    then show "\<exists>g. jget (agates s2) k = Some g \<and> ag_running g < ag_max g \<and> ag_max g \<le> L k"
      using core am(3) [OF k] by (auto elim!: same_coreD [where k = k] simp: gate_core_def)
  next
    fix r assume r: "r \<in> set (queued s2)" "set (am_keys rs) \<inter> set (rq_keys r) \<noteq> {}"
    then obtain k where k: "k \<in> set (am_keys rs)" "k \<in> set (rq_keys r)" by blast
    obtain g where g: "jget (agates (am_prepared rs s)) k = Some g" "ag_queue g = []"
      using canAcquireImmediately_ready [of now "am_keys rs" "am_prepared rs s" s2 k] c okT k am(1) by auto
    have "waiting_for (am_prepared rs s) k = []" using g views_okD(1) [of L "am_prepared rs s"] am(2) by (auto simp: as_inv_def)
    moreover have "rq_id r \<in> set (waiting_for (am_prepared rs s) k)" using r(1) k(2) s2 am(4) by (auto simp: waiting_for_def)
    ultimately show "next_req s < rq_id r" by simp
  qed (use old s2 in auto)
  have enq: "as_inv L (enqueue_request \<lparr>rq_id = next_req s, rq_keys = am_keys rs, rq_signal = b\<rparr> s2)" for b
    by (rule enqueue_inv [OF inv2]) (use am(1) ne s2 gate requests_old [OF rq] in auto)
  show ?thesis
    using False by (subst acquireMany_cases [OF _ _ c]) (auto simp: adm inv2 drainQueues_inv [OF enq] split: option.split)
qed (use assms(2) in \<open>auto simp: acquireMany_def Let_def\<close>)

text \<open>Blocking, unblocking and cleanup.\<close>

lemma markBlocked_inv:
  assumes "as_inv L s" "0 \<le> L k" shows "as_inv L (markBlocked now k u s)"
proof -
  let ?m = "case jget (agates s) k of Some g \<Rightarrow> ag_max g | None \<Rightarrow> 1"
  have "as_inv L (ensureGate k ?m s)" by (rule ensureGate_inv [OF assms]) simp
  then have "as_inv L (modg (\<lambda>g. g\<lparr>ag_cleanup := False, ag_blocked := Some q\<rparr>) k (ensureGate k ?m s))" for q
    by (rule as_inv_core [OF modg_core, rotated]) (simp add: gate_core_def)
  then show ?thesis using assms(1) by (simp add: markBlocked_def Let_def split: js_num.split)
qed

lemma drop_idle_inv:
  assumes "as_inv L s" "\<And>g. jget (agates s) k = Some g \<Longrightarrow> idle_gate g"
  shows "as_inv L (s\<lparr>agates := jdel k (agates s)\<rparr>)"
proof -
  have v: "views_ok L s" and rq: "requests_ok s" using assms(1) by (auto simp: as_inv_def)
  have w: "waiting_for (s\<lparr>agates := jdel k (agates s)\<rparr>) k' = waiting_for s k'" "holding (s\<lparr>agates := jdel k (agates s)\<rparr>) k' = holding s k'" for k'
    by (simp_all add: waiting_for_def holding_def)
  have "views_ok L (s\<lparr>agates := jdel k (agates s)\<rparr>)"
    unfolding views_ok_def w
  proof
    fix k'
    show "case jget (agates (s\<lparr>agates := jdel k (agates s)\<rparr>)) k' of
       Some g \<Rightarrow> ag_queue g = waiting_for s k' \<and> ag_running g = holding s k' \<and> agate_ok (L k') g
     | None \<Rightarrow> waiting_for s k' = [] \<and> holding s k' = 0"
      using spec [OF v [unfolded views_ok_def], of k'] assms(2) by (auto simp: idle_gate_def split: option.splits)
  qed
  moreover have "requests_ok (s\<lparr>agates := jdel k (agates s)\<rparr>)" using rq by (simp add: requests_ok_def)
  ultimately show ?thesis by (simp add: as_inv_def)
qed

lemma cleanupGateIfIdle_inv:
  assumes "as_inv L s" shows "as_inv L (cleanupGateIfIdle now k s)"
proof (cases "jget (agates s) k")
  case (Some g)
  obtain b s1 where ib: "isBlocked now k s = (b, s1)" by fastforce
  note core = isBlocked_core [OF ib]
  have inv1: "as_inv L s1" by (rule as_inv_core [OF core assms])
  have "ag_running g \<ge> 0" using views_okD(2) [OF _ Some] assms by (auto simp: as_inv_def)
  moreover obtain g1 where "jget (agates s1) k = Some g1" "gate_core g1 = gate_core g" by (rule same_coreD [OF core Some])
  ultimately have "as_inv L (s1\<lparr>agates := jdel k (agates s1)\<rparr>)" if "\<not> (ag_running g > 0 \<or> ag_queue g \<noteq> [])"
    using that by (intro drop_idle_inv [OF inv1]) (auto simp: idle_gate_def gate_core_def)
  then show ?thesis using Some ib inv1 assms by (simp add: cleanupGateIfIdle_def)
qed (simp add: cleanupGateIfIdle_def assms)

lemma unblock_inv:
  assumes "as_inv L s" shows "as_inv L (unblock now k s)"
proof -
  have "as_inv L (modg (\<lambda>g. g\<lparr>ag_blocked := None\<rparr>) k s)"
    by (rule as_inv_core [OF modg_core assms]) (simp add: gate_core_def)
  then show ?thesis using assms by (auto simp: unblock_def intro!: cleanupGateIfIdle_inv drainQueues_inv split: option.split)
qed

lemma check_full_inv:
  assumes "as_inv L s" shows "as_inv L (snd (isAccountSemaphoreFull now p a mc s))"
proof -
  have "as_inv L (snd (isBlocked now k s))" for k
    by (cases "isBlocked now k s") (auto intro: as_inv_core isBlocked_core assms)
  then show ?thesis using assms by (simp add: isAccountSemaphoreFull_def Let_def split: option.split js_num.split)
qed

lemma as_handle_inv:
  assumes "as_inv L s" "fits_limits L ev" "\<And>k. 0 \<le> L k" shows "as_inv L (as_handle now ev s)"
  using assms
  by (cases ev) (auto simp: fits_limits_def cleanup_fired_def intro: acquireMany_inv compositeRelease_inv settle_queued_inv
    markBlocked_inv unblock_inv check_full_inv cleanupGateIfIdle_inv as_inv_core clearCleanupTimer_core)


text \<open>The invariant along every history; a limit below zero never admits anything.\<close>

lemma fits_limits_mono: "fits_limits L ev \<Longrightarrow> fits_limits (\<lambda>k. max 0 (L k)) ev"
  by (auto simp: fits_limits_def req_fits_def list_all_iff split: as_event.splits option.splits js_num.splits)
     (force simp: max_def)+

interpretation acct: step_system "as_step L" "as_inv (\<lambda>k. max 0 (L k))"
proof
  fix e s s' assume "as_step L e s s'" "as_inv (\<lambda>k. max 0 (L k)) s"
  then show "as_inv (\<lambda>k. max 0 (L k)) s'"
    by cases (auto intro: as_handle_inv fits_limits_mono)
qed

lemma as_init_inv: "as_inv (\<lambda>k. max 0 (L k)) as_init"
  by (simp add: as_inv_def views_ok_def requests_ok_def as_init_def waiting_for_def holding_def)

lemmas as_reachable = acct.reaches_inv [OF _ as_init_inv]

section \<open>Progress\<close>

definition gate_ready :: "int \<Rightarrow> nat \<Rightarrow> agate \<Rightarrow> bool" where
  "gate_ready now i g \<longleftrightarrow> \<not> blocked_at now g \<and> ag_running g < ag_max g \<and> ag_queue g \<noteq> [] \<and> hd (ag_queue g) = i"

definition ready :: "int \<Rightarrow> as_state \<Rightarrow> areq \<Rightarrow> bool" where
  "ready now s r \<longleftrightarrow> (\<forall>k \<in> set (rq_keys r). \<exists>g. jget (agates s) k = Some g \<and> gate_ready now (rq_id r) g)"

text \<open>What a test at time \<open>now\<close> can see of the gates.\<close>

definition same_view :: "int \<Rightarrow> as_state \<Rightarrow> as_state \<Rightarrow> bool" where
  "same_view now s s' \<longleftrightarrow> (\<forall>k. map_option (\<lambda>g. (gate_core g, blocked_at now g)) (jget (agates s') k) =
     map_option (\<lambda>g. (gate_core g, blocked_at now g)) (jget (agates s) k))"

lemma same_view_refl [simp]: "same_view now s s"
  by (simp add: same_view_def)

lemma same_view_trans: "same_view now a b \<Longrightarrow> same_view now b c \<Longrightarrow> same_view now a c"
  by (simp add: same_view_def)

lemma same_viewD:
  assumes "same_view now s s'" "jget (agates s) k = Some g"
  obtains g' where "jget (agates s') k = Some g'" "gate_core g' = gate_core g" "blocked_at now g' = blocked_at now g"
proof -
  have "map_option (\<lambda>g. (gate_core g, blocked_at now g)) (jget (agates s') k) = Some (gate_core g, blocked_at now g)"
    using assms by (simp add: same_view_def)
  then show thesis using that by auto
qed

lemma same_view_sym: "same_view now s s' \<Longrightarrow> same_view now s' s"
  by (simp add: same_view_def)

lemma ready_view:
  assumes "same_view now s s'" "ready now s r" shows "ready now s' r"
  unfolding ready_def
proof
  fix k assume "k \<in> set (rq_keys r)"
  then obtain g where g: "jget (agates s) k = Some g" "gate_ready now (rq_id r) g" using assms(2) by (auto simp: ready_def)
  obtain g' where "jget (agates s') k = Some g'" "gate_core g' = gate_core g" "blocked_at now g' = blocked_at now g"
    by (rule same_viewD [OF assms(1) g(1)])
  then show "\<exists>g. jget (agates s') k = Some g \<and> gate_ready now (rq_id r) g" using g(2) by (auto simp: gate_ready_def gate_core_def)
qed

lemma isBlocked_view:
  assumes "isBlocked now k s = (b, s')" shows "same_view now s s'"
proof -
  have "gate_core (unblock_expired now g) = gate_core g" "blocked_at now (unblock_expired now g) = blocked_at now g" for g
    by (auto simp: unblock_expired_def gate_core_def blocked_at_def blocked_until_def)
  then show ?thesis using assms by (auto simp: isBlocked_def same_view_def option.map_comp comp_def split: option.splits)
qed

lemma canAcquire_view: "canAcquire now i ks s = (b, s') \<Longrightarrow> same_view now s s'"
  by (induction now i ks s arbitrary: b s' rule: canAcquire.induct)
    (auto dest: isBlocked_view intro: same_view_trans split: option.splits prod.splits if_splits)

lemma canAcquire_complete:
  assumes "canAcquire now i ks s = (b, s')" "\<forall>k \<in> set ks. \<exists>g. jget (agates s) k = Some g \<and> gate_ready now i g"
  shows b
  using assms
proof (induction now i ks s arbitrary: b s' rule: canAcquire.induct)
  case (2 now i k ks s)
  obtain g where g: "jget (agates s) k = Some g" "gate_ready now i g" using 2(3) by auto
  obtain x s1 where ib: "isBlocked now k s = (x, s1)" by fastforce
  have x: "\<not> x" using ib g by (auto simp: isBlocked_def gate_ready_def)
  have "\<forall>k \<in> set ks. \<exists>g. jget (agates s1) k = Some g \<and> gate_ready now i g"
  proof
    fix k' assume "k' \<in> set ks"
    then obtain h where h: "jget (agates s) k' = Some h" "gate_ready now i h" using 2(3) by auto
    obtain h' where "jget (agates s1) k' = Some h'" "gate_core h' = gate_core h" "blocked_at now h' = blocked_at now h"
      by (rule same_viewD [OF isBlocked_view [OF ib] h(1)])
    then show "\<exists>g. jget (agates s1) k' = Some g \<and> gate_ready now i g" using h(2) by (auto simp: gate_ready_def gate_core_def)
  qed
  then show ?case using 2(1) [OF g(1) ib [symmetric] refl] 2(2) g ib x by (auto simp: gate_ready_def)
qed simp

lemma first_ready_None:
  "first_ready now rs s = (None, s') \<Longrightarrow> same_view now s s' \<and> (\<forall>r \<in> set rs. \<not> ready now s r)"
proof (induction now rs s rule: first_ready.induct)
  case (2 now r rs s)
  obtain ok s1 where c: "canAcquire now (rq_id r) (rq_keys r) s = (ok, s1)" by fastforce
  note vw = canAcquire_view [OF c]
  have nok: "\<not> ok" and f: "first_ready now rs s1 = (None, s')" using 2(2) c by (auto split: if_splits)
  have "same_view now s1 s' \<and> (\<forall>r \<in> set rs. \<not> ready now s1 r)" using 2(1) [OF refl c [symmetric] nok f] .
  moreover have "\<not> ready now s r" using canAcquire_complete [OF c] nok unfolding ready_def by blast
  ultimately show ?case using ready_view [OF vw] same_view_trans [OF vw] by auto
qed simp

lemma drainQueues_done:
  "drainQueues now s = s' \<Longrightarrow> r \<in> set (queued s') \<Longrightarrow> \<not> ready now s' r"
proof (induction now s arbitrary: s' rule: drainQueues.induct)
  case (1 now s)
  obtain x s1 where f: "first_ready now (queued s) s = (x, s1)" by fastforce
  show ?case
  proof (cases x)
    case None
    then have "s' = s1" using 1(2) f by (subst (asm) drainQueues.simps) simp
    then show ?thesis using first_ready_None [of now "queued s" s s1] f None 1(3) first_ready_frame [OF f] ready_view same_view_sym
      by (metis (no_types, lifting))
  next
    case (Some q)
    then show ?thesis using 1(1) [OF f [symmetric] Some] 1(2,3) f by (subst (asm) drainQueues.simps) simp
  qed
qed

text \<open>The oldest request is first in all its queues, so only a blocked or full gate keeps it waiting.\<close>

lemma oldest_has_reason:
  assumes "as_inv L s" "\<not> ready now s r" "queued s = r # rest"
  shows "\<exists>k \<in> set (rq_keys r). \<exists>g. jget (agates s) k = Some g \<and> (blocked_at now g \<or> ag_max g \<le> holding s k)"
proof -
  have v: "views_ok L s" using assms(1) by (simp add: as_inv_def)
  obtain k where k: "k \<in> set (rq_keys r)" "\<And>g. jget (agates s) k = Some g \<Longrightarrow> \<not> gate_ready now (rq_id r) g"
    using assms(2) by (auto simp: ready_def)
  obtain g where g: "jget (agates s) k = Some g" by (rule waiting_has_gate [OF v _ k(1)]) (use assms(3) in simp)
  have "ag_queue g = rq_id r # map rq_id (filter (\<lambda>r. k \<in> set (rq_keys r)) rest)"
    using views_okD(1) [OF v g] assms(3) k(1) by (simp add: waiting_for_def)
  then have "blocked_at now g \<or> ag_max g \<le> holding s k" using k(2) [OF g] views_okD(2) [OF v g] by (auto simp: gate_ready_def)
  then show ?thesis using k(1) g by blast
qed


lemma schedule_if_idle_view: "same_view now s (schedule_if_idle k s)"
proof -
  have "blocked_at now (g\<lparr>ag_cleanup := True\<rparr>) = blocked_at now g" for g by (simp add: blocked_at_def blocked_until_def)
  then show ?thesis
    by (auto simp: schedule_if_idle_def scheduleCleanup_def same_view_def option.map_comp comp_def gate_core_def split: option.split)
qed

lemma foldl_view:
  assumes "\<And>s k. same_view now s (F s k)" shows "same_view now s (foldl F s ks)"
  by (induction ks arbitrary: s) (auto intro: same_view_trans assms)

fun drains :: "as_event \<Rightarrow> as_state \<Rightarrow> bool" where
  "drains (Release_all i) s \<longleftrightarrow> i \<in> fst ` set (aholders s)"
| "drains (Timeout_queued i) s \<longleftrightarrow> i \<in> rq_id ` set (queued s)"
| "drains (Abort_queued i) s \<longleftrightarrow> i \<in> rq_id ` set (queued s)"
| "drains _ s \<longleftrightarrow> False"

lemma settle_done:
  assumes "settle_queued now i code s = s'" "i \<in> rq_id ` set (queued s)" "r \<in> set (queued s')"
  shows "\<not> ready now s' r"
proof -
  obtain r0 where "find (\<lambda>r. rq_id r = i) (queued s) = Some r0" using assms(2) by (cases "find (\<lambda>r. rq_id r = i) (queued s)") (auto simp: find_None_iff)
  then show ?thesis using assms(1,3) drainQueues_done by (auto simp: settle_queued_def Let_def)
qed

lemma handle_done:
  assumes "drains ev s" "as_handle now ev s = s'" "r \<in> set (queued s')"
  shows "\<not> ready now s' r"
proof (cases ev)
  case (Release_all i)
  then obtain ks where ks: "map_of (aholders s) i = Some ks" using assms(1) by (cases "map_of (aholders s) i") (auto simp: map_of_eq_None_iff)
  define d where "d = drainQueues now (give_back i ks s)"
  have s': "s' = foldl (\<lambda>s k. schedule_if_idle k s) d ks" using assms(2) Release_all compositeRelease_unfold [OF ks] by (simp add: d_def)
  have "queued s' = queued d" by (simp add: s' foldl_frame)
  moreover have "same_view now d s'" unfolding s' by (intro foldl_view schedule_if_idle_view)
  ultimately show ?thesis using drainQueues_done [of now "give_back i ks s" d r] assms(3) ready_view [OF same_view_sym, of now d s' r] by (auto simp: d_def)
qed (use assms settle_done in auto)

section \<open>Properties\<close>


text \<open>Two tenants of one provider: the first takes account and provider gate, the second waits for the provider.\<close>

definition as_demo :: as_state where
  "as_demo = as_handle 2 (Acquire_many [(''p:b'', Some (Fin 1)), (''p'', Some (Fin 1))] None 20 False)
     (as_handle 1 (Acquire_many [(''p:a'', Some (Fin 1)), (''p'', Some (Fin 1))] None 20 False) as_init)"

lemma as_demo_reached: "reaches (as_step (\<lambda>_. 1)) as_init as_demo"
proof -
  have acq: "as_step (\<lambda>_. 1) (Acquire_many [(a, Some (Fin 1)), (b, Some (Fin 1))] None 20 False) s
      (as_handle now (Acquire_many [(a, Some (Fin 1)), (b, Some (Fin 1))] None 20 False) s)" for s now a b
    by (rule as_step.intros) (auto simp: fits_limits_def req_fits_def)
  show ?thesis unfolding as_demo_def by (rule reaches_start acq reaches_more)+
qed


text \<open>
  First come, first served. Nobody holds a gate ahead of an older request that is waiting for it:
  in every reachable state each holder of a gate arrived before each request waiting for that gate,
  newcomers on the fast path included.
\<close>

theorem account_fifo:
  assumes "reaches (as_step L) as_init s" "(i, ks) \<in> set (aholders s)" "r \<in> set (queued s)"
    and "k \<in> set ks" "k \<in> set (rq_keys r)"
  shows "i < rq_id r"
proof -
  have "requests_ok s" using as_reachable [OF assms(1)] by (simp add: as_inv_def)
  then have "\<forall>r \<in> set (queued s). \<forall>(i, ks) \<in> set (aholders s). set ks \<inter> set (rq_keys r) \<noteq> {} \<longrightarrow> i < rq_id r"
    unfolding requests_ok_def by fast
  then show ?thesis using assms(2-5) by blast
qed

theorem account_fifo_witness:
  "\<exists>r. queued as_demo = [r] \<and> rq_id r = 1 \<and> aholders as_demo = [(0, [''p'', ''p:a''])] \<and> 0 < rq_id r"
proof -
  have q: "queued as_demo = [\<lparr>rq_id = 1, rq_keys = [''p'', ''p:b''], rq_signal = False\<rparr>]" "aholders as_demo = [(0, [''p'', ''p:a''])]"
    by code_simp+
  then show ?thesis using account_fifo [OF as_demo_reached, of 0 "[''p'', ''p:a'']" _ "''p''"] by simp
qed

text \<open>
  C13. No lost wake-up. After a release, a timeout or an abort has been handled at time \<open>now\<close>, the oldest
  waiting request has a reason to wait: one of the gates it needs is blocked at \<open>now\<close>, or is held to its
  limit. In particular requests waiting for several gates at once cannot deadlock one another.
\<close>

theorem account_no_lost_wakeup:
  assumes "reaches (as_step L) as_init s" "as_enabled ev s" "fits_limits L ev" "drains ev s"
    and "as_handle now ev s = s'" "queued s' = r # rest"
  shows "\<exists>k \<in> set (rq_keys r). \<exists>g. jget (agates s') k = Some g \<and> (blocked_at now g \<or> ag_max g \<le> holding s' k)"
proof -
  have "reaches (as_step L) as_init s'" using reaches_more [OF assms(1) as_step.intros [OF assms(2,3)]] assms(5) by blast
  from as_reachable [OF this] show ?thesis
    using oldest_has_reason handle_done [OF assms(4,5)] assms(6) by fastforce
qed

definition as_demo3 :: as_state where
  "as_demo3 = as_handle 3 (Acquire_many [(''p:c'', Some (Fin 1)), (''p'', Some (Fin 1))] None 20 False) as_demo"

lemma as_demo3_reached: "reaches (as_step (\<lambda>_. 1)) as_init as_demo3"
  unfolding as_demo3_def
  by (rule reaches_more [OF as_demo_reached as_step.intros]) (auto simp: fits_limits_def req_fits_def)

theorem account_no_lost_wakeup_witness:
  "map rq_id (queued (as_handle 9 (Release_all 0) as_demo3)) = [2] \<and>
   (\<exists>k \<in> {''p'', ''p:c''}. \<exists>g. jget (agates (as_handle 9 (Release_all 0) as_demo3)) k = Some g \<and>
      (blocked_at 9 g \<or> ag_max g \<le> holding (as_handle 9 (Release_all 0) as_demo3) k))"
proof -
  have q: "queued (as_handle 9 (Release_all 0) as_demo3) = [\<lparr>rq_id = 2, rq_keys = [''p'', ''p:c''], rq_signal = False\<rparr>]" by code_simp
  have d: "drains (Release_all 0) as_demo3" by code_simp
  show ?thesis using account_no_lost_wakeup [OF as_demo3_reached _ _ d refl q] q by (simp add: fits_limits_def)
qed

section \<open>Where the semaphore waits too long or forgets a slot\<close>

text \<open>
  The end of a block does not wake anybody: here the only request became ready at time 11, nobody holds
  a slot and no cleanup is armed, so nothing but its own timeout, or an unrelated caller, will come.
\<close>

definition as_stuck :: as_state where
  "as_stuck = as_handle 1 (Acquire_many [(''a'', Some (Fin 1))] None 20 False) (as_handle 0 (Block_gate ''a'' (For_ms (Fin 10))) as_init)"

lemma block_expiry_not_drained:
  "\<exists>r. queued as_stuck = [r] \<and> ready 11 as_stuck r \<and> aholders as_stuck = [] \<and> list_all (\<lambda>(k, g). \<not> ag_cleanup g) (agates as_stuck)"
proof -
  have "queued as_stuck = [\<lparr>rq_id = 0, rq_keys = [''a''], rq_signal = False\<rparr>]" "aholders as_stuck = []"
    "agates as_stuck = [(''a'', \<lparr>ag_running = 0, ag_max = 1, ag_queue = [0], ag_blocked = Some 10, ag_cleanup = False\<rparr>)]"
    by code_simp+
  then show ?thesis by (simp add: ready_def gate_ready_def blocked_at_def blocked_until_def)
qed

text \<open>
  A limit between zero and one is not bypassed but truncated to zero: the request can never be admitted.
\<close>

lemma fractional_limit_starves:
  assumes "0 < q" "q < 1" "jget (agates s) k = None \<or> (\<exists>g. jget (agates s) k = Some g \<and> 0 \<le> ag_running g)"
  shows "fst (acquire_one now k (Some (Fin q)) None mq True s) = Queue_full_for k"
proof -
  have en: "enabled_limits [(k, Some (Fin q))] [] = [(k, 0)]" using assms(1,2) by (simp add: isBypassed_def Let_def js_trunc_def jset_def floor_eq_iff)
  have ks: "am_keys [(k, Some (Fin q))] = [k]" unfolding am_keys_def en by simp
  have pr: "am_prepared [(k, Some (Fin q))] s = clearCleanupTimer k (ensureGate k 0 (s\<lparr>next_req := next_req s + 1\<rparr>))"
    unfolding am_prepared_def ks en by (simp add: prepare_gates_def)
  have "\<exists>s2. canAcquireImmediately now (am_keys [(k, Some (Fin q))]) (am_prepared [(k, Some (Fin q))] s) = (False, s2)"
    unfolding ks pr using assms(3) by (auto simp: clearCleanupTimer_def ensureGate_get)
  then obtain s2 where c: "canAcquireImmediately now (am_keys [(k, Some (Fin q))]) (am_prepared [(k, Some (Fin q))] s) = (False, s2)" ..
  have ne: "enabled_limits [(k, Some (Fin q))] [] \<noteq> []" unfolding en by simp
  show ?thesis unfolding acquire_one_def by (subst acquireMany_cases [OF ne _ c]) (simp_all add: ks findQueueRejection_def)
qed


text \<open>
  \<^verbatim>\<open>resetAll\<close> drops the gates but not the release functions in flight: here request 0 holds the only slot
  when everything is reset, request 1 gets it again, and the late release of request 0 lets request 2
  in beside request 1.
\<close>

definition as_after_reset :: as_state where
  "as_after_reset = (let acq = (\<lambda>now. as_handle now (Acquire_many [(''a'', Some (Fin 1))] None 20 False)) in
     acq 3 (as_handle 2 (Release_all 0) (acq 2 (as_resetAll (acq 1 as_init)))))"

lemma reset_exceeds_limit: "holding as_after_reset ''a'' = 2"
  by code_simp

end
