(* ===== verification/Sliding_Window.thy ===== *)
theory Sliding_Window
  imports Js_Prelude Step_Systems
begin

text \<open>
  The trailing-window rate limiter of \<^verbatim>\<open>open-sse/services/slidingWindowLimiter.ts\<close>. A lease returned to
  a caller is the list of keys and hit ids it recorded; \<open>leases\<close> are the release functions not yet
  called. \<open>granted\<close> is a ghost log: every hit granted and not released, pruned by nothing, against which
  the limiter's own pruned lists are compared.
\<close>

section \<open>State and operations\<close>

record sw_window =
  requests :: int
  windowMs :: int

record hit =
  hit_id :: nat
  timestamp :: int

record sw_state =
  hits :: "(string, hit list) jmap"
  nextHitId :: nat
  leases :: "(nat \<times> (string \<times> nat) list) list"
  next_lease :: nat
  granted :: "(string \<times> hit) list"

definition MAX_KEYS :: nat where
  "MAX_KEYS = 5000"

definition sw_init :: sw_state where
  "sw_init = \<lparr>hits = [], nextHitId = 1, leases = [], next_lease = 0, granted = []\<rparr>"

definition sw_set :: "string \<Rightarrow> hit list \<Rightarrow> (string, hit list) jmap \<Rightarrow> (string, hit list) jmap" where
  "sw_set k live m =
     (if live = [] then jdel k m
      else jset k live (if \<not> jhas m k \<and> length m \<ge> MAX_KEYS then jdel (fst (hd m)) m else m))"

definition live_hits :: "int \<Rightarrow> sw_window \<Rightarrow> hit list option \<Rightarrow> hit list" where
  "live_hits now w previous =
     (case previous of None \<Rightarrow> [] | Some hs \<Rightarrow> filter (\<lambda>h. timestamp h > now - windowMs w) hs)"

definition scope_retry :: "int \<Rightarrow> sw_window \<Rightarrow> hit list \<Rightarrow> int" where
  "scope_retry now w live =
     (if int (length live) \<ge> requests w then max 0 (timestamp (hd live) + windowMs w - now) else 0)"

definition active_scopes :: "(string \<times> sw_window) list \<Rightarrow> (string \<times> sw_window) list" where
  "active_scopes scopes = filter (\<lambda>(k, w). requests w > 0 \<and> windowMs w > 0) scopes"

text \<open>One new hit per scope, in order.\<close>

fun record_hits :: "int \<Rightarrow> (string \<times> hit list) list \<Rightarrow> sw_state \<Rightarrow> (string \<times> nat) list \<times> sw_state" where
  "record_hits now [] s = ([], s)"
| "record_hits now ((k, live) # ps) s =
     (let h = \<lparr>hit_id = nextHitId s, timestamp = now\<rparr>;
          s1 = s\<lparr>nextHitId := nextHitId s + 1, hits := sw_set k (live @ [h]) (hits s), granted := granted s @ [(k, h)]\<rparr>;
          (es, s2) = record_hits now ps s1
      in ((k, hit_id h) # es, s2))"

datatype sw_result = Sw_allowed "nat option" | Sw_blocked int

definition tryAcquireMany :: "int \<Rightarrow> (string \<times> sw_window) list \<Rightarrow> sw_state \<Rightarrow> sw_result \<times> sw_state" where
  "tryAcquireMany now scopes s =
     (let active = active_scopes scopes in
      if active = [] then (Sw_allowed None, s)
      else
        (let prepared = map (\<lambda>(k, w). (k, w, live_hits now w (jget (hits s) k))) active;
             retry = fold (\<lambda>(k, w, live) m. max m (scope_retry now w live)) prepared 0;
             s1 = s\<lparr>hits := fold (\<lambda>(k, w, live) m. sw_set k live m) prepared (hits s)\<rparr>
         in if retry > 0 then (Sw_blocked retry, s1)
            else (let (es, s2) = record_hits now (map (\<lambda>(k, w, live). (k, live)) prepared) s1 in
                  (Sw_allowed (Some (next_lease s2)),
                   s2\<lparr>leases := (next_lease s2, es) # leases s2, next_lease := next_lease s2 + 1\<rparr>))))"

definition tryAcquire :: "int \<Rightarrow> string \<Rightarrow> sw_window \<Rightarrow> sw_state \<Rightarrow> sw_result \<times> sw_state" where
  "tryAcquire now k w s = tryAcquireMany now [(k, w)] s"

definition drop_hit :: "string \<times> nat \<Rightarrow> (string, hit list) jmap \<Rightarrow> (string, hit list) jmap" where
  "drop_hit e m =
     (case jget m (fst e) of
        None \<Rightarrow> m
      | Some live \<Rightarrow>
          (let remaining = filter (\<lambda>h. hit_id h \<noteq> snd e) live in
           if remaining \<noteq> [] then jset (fst e) remaining m else jdel (fst e) m))"

definition release_lease :: "nat \<Rightarrow> sw_state \<Rightarrow> sw_state" where
  "release_lease l s =
     (case map_of (leases s) l of
        None \<Rightarrow> s
      | Some es \<Rightarrow> s\<lparr>leases := filter (\<lambda>(l', _). l' \<noteq> l) (leases s), hits := fold drop_hit es (hits s),
                     granted := filter (\<lambda>(k, h). hit_id h \<notin> snd ` set es) (granted s)\<rparr>)"

definition sw_reset :: "string option \<Rightarrow> sw_state \<Rightarrow> sw_state" where
  "sw_reset k s = (case k of None \<Rightarrow> s\<lparr>hits := []\<rparr> | Some k' \<Rightarrow> s\<lparr>hits := jdel k' (hits s)\<rparr>)"

section \<open>Histories\<close>

text \<open>
  Time does not run backwards, the keys in use are among \<open>K\<close>, and for the keys in \<open>F\<close> the window is fixed by
  \<open>cfg\<close>; other keys may be asked for with a different window each time.
\<close>

record sw_run =
  limiter :: sw_state
  clock :: int

datatype sw_event = Sw_try int "(string \<times> sw_window) list" | Sw_release nat

definition sw_do :: "int \<Rightarrow> (string \<times> sw_window) list \<Rightarrow> sw_run \<Rightarrow> sw_run" where
  "sw_do now scopes r = r\<lparr>limiter := snd (tryAcquireMany now scopes (limiter r)), clock := now\<rparr>"

definition scopes_ok :: "(string \<Rightarrow> sw_window) \<Rightarrow> string set \<Rightarrow> string set \<Rightarrow> (string \<times> sw_window) list \<Rightarrow> bool" where
  "scopes_ok cfg F K scopes \<longleftrightarrow> distinct (map fst scopes) \<and> fst ` set scopes \<subseteq> K \<and> (\<forall>k w. (k, w) \<in> set scopes \<longrightarrow> k \<in> F \<longrightarrow> w = cfg k)"

inductive sw_step :: "(string \<Rightarrow> sw_window) \<Rightarrow> string set \<Rightarrow> string set \<Rightarrow> sw_event \<Rightarrow> sw_run \<Rightarrow> sw_run \<Rightarrow> bool" for cfg F K where
  sw_try: "clock r \<le> now \<Longrightarrow> scopes_ok cfg F K scopes \<Longrightarrow> sw_step cfg F K (Sw_try now scopes) r (sw_do now scopes r)"
| sw_rel: "sw_step cfg F K (Sw_release l) r (r\<lparr>limiter := release_lease l (limiter r)\<rparr>)"

definition hits_of :: "sw_state \<Rightarrow> string \<Rightarrow> hit list" where
  "hits_of s k = map snd (filter (\<lambda>(k', h). k' = k) (granted s))"

text \<open>The hits granted for \<open>k\<close> in the window of length \<open>w\<close> that ends at \<open>t\<close>.\<close>

definition window_count :: "sw_state \<Rightarrow> string \<Rightarrow> int \<Rightarrow> int \<Rightarrow> nat" where
  "window_count s k w t = length (filter (\<lambda>h. t - w < timestamp h \<and> timestamp h \<le> t) (hits_of s k))"

definition live_of :: "sw_state \<Rightarrow> string \<Rightarrow> hit list" where
  "live_of s k = (case jget (hits s) k of None \<Rightarrow> [] | Some hs \<Rightarrow> hs)"

definition recent :: "int \<Rightarrow> sw_window \<Rightarrow> hit list \<Rightarrow> hit list" where
  "recent now w hs = filter (\<lambda>h. timestamp h > now - windowMs w) hs"

text \<open>What the limiter knows at time \<open>now\<close>.\<close>

definition sw_ok :: "(string \<Rightarrow> sw_window) \<Rightarrow> string set \<Rightarrow> string set \<Rightarrow> int \<Rightarrow> sw_state \<Rightarrow> bool" where
  "sw_ok cfg F K now s \<longleftrightarrow>
     jmap_ok (hits s) \<and> set (jkeys (hits s)) \<subseteq> K \<and>
     (\<forall>k h. (k, h) \<in> set (granted s) \<longrightarrow> hit_id h < nextHitId s \<and> timestamp h \<le> now) \<and>
     (\<forall>l es k i. (l, es) \<in> set (leases s) \<longrightarrow> (k, i) \<in> set es \<longrightarrow>
        i < nextHitId s \<and> (\<forall>k' h. (k', h) \<in> set (granted s) \<longrightarrow> hit_id h = i \<longrightarrow> k' = k)) \<and>
     (\<forall>k \<in> F. recent now (cfg k) (live_of s k) = recent now (cfg k) (hits_of s k)) \<and>
     (\<forall>k \<in> F. \<forall>t. requests (cfg k) > 0 \<longrightarrow> windowMs (cfg k) > 0 \<longrightarrow> int (window_count s k (windowMs (cfg k)) t) \<le> requests (cfg k))"

definition sw_inv :: "(string \<Rightarrow> sw_window) \<Rightarrow> string set \<Rightarrow> string set \<Rightarrow> sw_run \<Rightarrow> bool" where
  "sw_inv cfg F K r \<longleftrightarrow> sw_ok cfg F K (clock r) (limiter r)"

lemma sw_okD:
  assumes "sw_ok cfg F K now s"
  shows "jmap_ok (hits s)" "set (jkeys (hits s)) \<subseteq> K"
    "\<And>k h. (k, h) \<in> set (granted s) \<Longrightarrow> hit_id h < nextHitId s \<and> timestamp h \<le> now"
    "\<And>l es k i. (l, es) \<in> set (leases s) \<Longrightarrow> (k, i) \<in> set es \<Longrightarrow> i < nextHitId s"
    "\<And>l es k i k' h. (l, es) \<in> set (leases s) \<Longrightarrow> (k, i) \<in> set es \<Longrightarrow> (k', h) \<in> set (granted s) \<Longrightarrow> hit_id h = i \<Longrightarrow> k' = k"
    "\<And>k. k \<in> F \<Longrightarrow> recent now (cfg k) (live_of s k) = recent now (cfg k) (hits_of s k)"
    "\<And>k t. k \<in> F \<Longrightarrow> requests (cfg k) > 0 \<Longrightarrow> windowMs (cfg k) > 0 \<Longrightarrow> int (window_count s k (windowMs (cfg k)) t) \<le> requests (cfg k)"
  using assms unfolding sw_ok_def by blast+

lemma sw_okI:
  assumes "jmap_ok (hits s)" "set (jkeys (hits s)) \<subseteq> K"
    "\<And>k h. (k, h) \<in> set (granted s) \<Longrightarrow> hit_id h < nextHitId s \<and> timestamp h \<le> now"
    "\<And>l es k i. (l, es) \<in> set (leases s) \<Longrightarrow> (k, i) \<in> set es \<Longrightarrow>
        i < nextHitId s \<and> (\<forall>k' h. (k', h) \<in> set (granted s) \<longrightarrow> hit_id h = i \<longrightarrow> k' = k)"
    "\<And>k. k \<in> F \<Longrightarrow> recent now (cfg k) (live_of s k) = recent now (cfg k) (hits_of s k)"
    "\<And>k t. k \<in> F \<Longrightarrow> requests (cfg k) > 0 \<Longrightarrow> windowMs (cfg k) > 0 \<Longrightarrow> int (window_count s k (windowMs (cfg k)) t) \<le> requests (cfg k)"
  shows "sw_ok cfg F K now s"
  using assms unfolding sw_ok_def by blast

lemma recent_Nil [simp]: "recent now w [] = []"
  by (simp add: recent_def)

lemma recent_append [simp]: "recent now w (a @ b) = recent now w a @ recent now w b"
  by (simp add: recent_def)

lemma recent_recent: "c \<le> now \<Longrightarrow> recent now w (recent c w hs) = recent now w hs"
  by (auto simp: recent_def intro: filter_cong)

lemma live_hits_recent: "live_hits now w (jget (hits s) k) = recent now w (live_of s k)"
  by (simp add: live_hits_def live_of_def recent_def split: option.split)

text \<open>With at most \<open>MAX_KEYS\<close> keys in use the cap never evicts.\<close>

lemma sw_set_room:
  assumes "finite K" "card K \<le> MAX_KEYS" "jmap_ok m" "set (jkeys m) \<subseteq> K" "k \<in> K"
  shows "sw_set k live m = (if live = [] then jdel k m else jset k live m)"
proof -
  have "length m < MAX_KEYS" if "k \<notin> set (jkeys m)"
  proof -
    have "set (jkeys m) \<subset> K" using that assms(4,5) by blast
    then have "card (set (jkeys m)) < card K" using assms(1) by (rule psubset_card_mono [rotated])
    moreover have "card (set (jkeys m)) = length m" using distinct_card [of "jkeys m"] assms(3) by (simp add: jmap_ok_def)
    ultimately show ?thesis using assms(2) by simp
  qed
  then show ?thesis by (auto simp: sw_set_def)
qed

lemma live_of_set:
  assumes "finite K" "card K \<le> MAX_KEYS" "jmap_ok (hits s)" "set (jkeys (hits s)) \<subseteq> K" "k \<in> K"
  shows "live_of (s\<lparr>hits := sw_set k live (hits s)\<rparr>) k' = (if k' = k then live else live_of s k')"
    "jmap_ok (sw_set k live (hits s))" "set (jkeys (sw_set k live (hits s))) \<subseteq> K"
  using assms(3-5) unfolding sw_set_room [OF assms] by (auto simp: live_of_def)

lemma live_of_frame [simp]:
  "live_of (s\<lparr>nextHitId := n\<rparr>) k = live_of s k" "live_of (s\<lparr>leases := l\<rparr>) k = live_of s k" "live_of (s\<lparr>next_lease := n\<rparr>) k = live_of s k"
  "live_of (s\<lparr>granted := g\<rparr>) k = live_of s k"
  by (simp_all add: live_of_def)

lemma hits_of_frame [simp]:
  "hits_of (s\<lparr>nextHitId := n\<rparr>) k = hits_of s k" "hits_of (s\<lparr>leases := l\<rparr>) k = hits_of s k" "hits_of (s\<lparr>next_lease := n\<rparr>) k = hits_of s k"
  "hits_of (s\<lparr>hits := g\<rparr>) k = hits_of s k"
  by (simp_all add: hits_of_def)

lemma window_count_frame:
  "hits_of s' k = hits_of s k \<Longrightarrow> window_count s' k w t = window_count s k w t"
  by (simp add: window_count_def)

text \<open>A new hit keeps the bound: every window that contains it ends at or after it.\<close>

lemma window_count_new:
  assumes "hits_of s' k = hits_of s k @ [\<lparr>hit_id = i, timestamp = now\<rparr>]" "0 < windowMs w"
    and "int (length (recent now w (hits_of s k))) < requests w" "int (window_count s k (windowMs w) t) \<le> requests w"
  shows "int (window_count s' k (windowMs w) t) \<le> requests w"
proof (cases "t - windowMs w < now \<and> now \<le> t")
  case True
  have "filter (\<lambda>h. t - windowMs w < timestamp h \<and> timestamp h \<le> t) (hits_of s k) =
      filter (\<lambda>h. t - windowMs w < timestamp h \<and> timestamp h \<le> t) (recent now w (hits_of s k))"
    using True by (auto simp: recent_def intro!: filter_cong)
  then have "window_count s k (windowMs w) t \<le> length (recent now w (hits_of s k))"
    by (simp add: window_count_def)
  then show ?thesis using assms(1,3) True by (simp add: window_count_def)
next
  case False
  then show ?thesis using assms(1,4) by (auto simp: window_count_def)
qed


definition add_hit :: "int \<Rightarrow> string \<Rightarrow> hit list \<Rightarrow> sw_state \<Rightarrow> sw_state" where
  "add_hit now k live s =
     (let h = \<lparr>hit_id = nextHitId s, timestamp = now\<rparr> in
      s\<lparr>nextHitId := nextHitId s + 1, hits := sw_set k (live @ [h]) (hits s), granted := granted s @ [(k, h)]\<rparr>)"

lemma record_hits_Cons:
  "record_hits now ((k, live) # ps) s =
     (let (es, s2) = record_hits now ps (add_hit now k live s) in ((k, nextHitId s) # es, s2))"
  by (simp add: add_hit_def Let_def)

lemma add_hit_ok:
  assumes ok: "sw_ok cfg F K now s" and K: "finite K" "card K \<le> MAX_KEYS" "k \<in> K"
    and live: "k \<in> F \<Longrightarrow> live = recent now (cfg k) (live_of s k)" "k \<in> F \<Longrightarrow> int (length live) < requests (cfg k)" "k \<in> F \<Longrightarrow> 0 < windowMs (cfg k)"
  shows "sw_ok cfg F K now (add_hit now k live s)"
    and "k' \<noteq> k \<Longrightarrow> live_of (add_hit now k live s) k' = live_of s k'"
proof -
  define h where "h = \<lparr>hit_id = nextHitId s, timestamp = now\<rparr>"
  note okD = sw_okD [OF ok]
  note set = live_of_set [OF K(1,2) okD(1,2) K(3), where live = "live @ [h]"]
  let ?s = "add_hit now k live s"
  have s': "?s = s\<lparr>nextHitId := nextHitId s + 1, hits := sw_set k (live @ [h]) (hits s), granted := granted s @ [(k, h)]\<rparr>"
    by (simp add: add_hit_def h_def Let_def)
  have lv: "live_of ?s k' = (if k' = k then live @ [h] else live_of s k')" for k'
    using set(1) [of k'] by (simp add: s' live_of_def)
  have ho: "hits_of ?s k' = hits_of s k' @ (if k' = k then [h] else [])" for k' by (simp add: s' hits_of_def)
  have rl: "recent now (cfg k) live = recent now (cfg k) (hits_of s k)" if "k \<in> F"
    using okD(6) [OF that] live(1) [OF that] recent_recent [of now now] by simp
  show "k' \<noteq> k \<Longrightarrow> live_of ?s k' = live_of s k'" by (simp add: lv)
  show "sw_ok cfg F K now ?s"
  proof (rule sw_okI)
    show "jmap_ok (hits ?s)" "set (jkeys (hits ?s)) \<subseteq> K" using set(2,3) by (simp_all add: s')
    show "hit_id g < nextHitId ?s \<and> timestamp g \<le> now" if "(k', g) \<in> set (granted ?s)" for k' g
      using that okD(3) [of k' g] by (auto simp: s' h_def)
    show "i < nextHitId ?s \<and> (\<forall>k'' g. (k'', g) \<in> set (granted ?s) \<longrightarrow> hit_id g = i \<longrightarrow> k'' = k')"
      if "(l, es) \<in> set (leases ?s)" "(k', i) \<in> set es" for l es k' i
      using that okD(4) [of l es k' i] okD(5) [of l es k' i] by (auto simp: s' h_def)
    show "recent now (cfg k') (live_of ?s k') = recent now (cfg k') (hits_of ?s k')" if "k' \<in> F" for k'
      using rl okD(6) [OF that] that by (cases "k' = k") (simp_all add: lv ho)
    show "int (window_count ?s k' (windowMs (cfg k')) t) \<le> requests (cfg k')" if "k' \<in> F" "requests (cfg k') > 0" "windowMs (cfg k') > 0" for k' t
    proof (cases "k' = k")
      case True
      have "int (length (recent now (cfg k) (hits_of s k))) < requests (cfg k)"
        using live(2) [OF that(1) [unfolded True]] length_filter_le [of "\<lambda>h. timestamp h > now - windowMs (cfg k)" live]
        unfolding rl [OF that(1) [unfolded True], symmetric] unfolding recent_def by linarith
      then show ?thesis using window_count_new [of ?s k s "nextHitId s" now "cfg k" t] ho [of k] okD(7) [OF that] True live(3) that(1)
        by (simp add: h_def)
    next
      case False
      then show ?thesis using window_count_frame [of ?s k' s] ho [of k'] okD(7) [OF that] by simp
    qed
  qed
qed

lemma record_hits_ok:
  assumes "sw_ok cfg F K now s" "finite K" "card K \<le> MAX_KEYS" "distinct (map fst ps)" "record_hits now ps s = (es, s')"
    and "\<And>k live. (k, live) \<in> set ps \<Longrightarrow> k \<in> K \<and> (k \<in> F \<longrightarrow> live = recent now (cfg k) (live_of s k) \<and>
       int (length live) < requests (cfg k) \<and> 0 < windowMs (cfg k))"
  shows "sw_ok cfg F K now s' \<and> leases s' = leases s \<and> next_lease s' = next_lease s \<and> nextHitId s \<le> nextHitId s' \<and>
    (\<forall>k h. (k, h) \<in> set (granted s') \<longrightarrow> (k, h) \<in> set (granted s) \<or> nextHitId s \<le> hit_id h) \<and>
    (\<forall>k i. (k, i) \<in> set es \<longrightarrow> nextHitId s \<le> i \<and> i < nextHitId s' \<and> (\<forall>k' h. (k', h) \<in> set (granted s') \<longrightarrow> hit_id h = i \<longrightarrow> k' = k))"
  using assms
proof (induction ps arbitrary: s es)
  case (Cons p ps)
  obtain k live where p: "p = (k, live)" by fastforce
  note kp = Cons.prems(6) [of k live, unfolded p, simplified]
  define s1 where "s1 = add_hit now k live s"
  obtain es1 where r: "record_hits now ps s1 = (es1, s')" "es = (k, nextHitId s) # es1"
    using Cons.prems(5) by (auto simp: p record_hits_Cons s1_def Let_def split: prod.splits simp del: record_hits.simps)
  note ah = add_hit_ok [OF Cons.prems(1-3), of k live]
  have ok1: "sw_ok cfg F K now s1" using ah(1) kp unfolding s1_def by blast
  have same: "live_of s1 k' = live_of s k'" if "k' \<noteq> k" for k' using ah(2) kp that unfolding s1_def by blast
  have n1: "nextHitId s1 = nextHitId s + 1" "leases s1 = leases s" "next_lease s1 = next_lease s"
    "granted s1 = granted s @ [(k, \<lparr>hit_id = nextHitId s, timestamp = now\<rparr>)]" by (simp_all add: s1_def add_hit_def Let_def)
  have pre: "k' \<in> K \<and> (k' \<in> F \<longrightarrow> live' = recent now (cfg k') (live_of s1 k') \<and> int (length live') < requests (cfg k') \<and> 0 < windowMs (cfg k'))"
    if "(k', live') \<in> set ps" for k' live'
  proof -
    have "k' \<noteq> k" using Cons.prems(4) that p by force
    then show ?thesis using Cons.prems(6) [of k' live'] that same by auto
  qed
  have IH: "sw_ok cfg F K now s' \<and> leases s' = leases s1 \<and> next_lease s' = next_lease s1 \<and> nextHitId s1 \<le> nextHitId s' \<and>
    (\<forall>k h. (k, h) \<in> set (granted s') \<longrightarrow> (k, h) \<in> set (granted s1) \<or> nextHitId s1 \<le> hit_id h) \<and>
    (\<forall>k i. (k, i) \<in> set es1 \<longrightarrow> nextHitId s1 \<le> i \<and> i < nextHitId s' \<and> (\<forall>k' h. (k', h) \<in> set (granted s') \<longrightarrow> hit_id h = i \<longrightarrow> k' = k))"
    using Cons.prems(4) p by (intro Cons.IH [OF ok1 Cons.prems(2,3) _ r(1) pre]) auto
  have old: "hit_id h < nextHitId s" if "(k', h) \<in> set (granted s)" for k' h using sw_okD(3) [OF Cons.prems(1) that] by simp
  have new: "k' = k" if "(k', h) \<in> set (granted s')" "hit_id h = nextHitId s" for k' h
  proof -
    have "(k', h) \<in> set (granted s1) \<or> nextHitId s1 \<le> hit_id h" using IH that(1) by blast
    then show ?thesis using that(2) old [of k' h] by (auto simp: n1)
  qed
  have "(k', h) \<in> set (granted s) \<or> nextHitId s \<le> hit_id h" if "(k', h) \<in> set (granted s')" for k' h
  proof -
    have "(k', h) \<in> set (granted s1) \<or> nextHitId s1 \<le> hit_id h" using IH that by blast
    then show ?thesis by (auto simp: n1)
  qed
  moreover have "nextHitId s \<le> i \<and> i < nextHitId s' \<and> (\<forall>k'' h. (k'', h) \<in> set (granted s') \<longrightarrow> hit_id h = i \<longrightarrow> k'' = k')"
    if "(k', i) \<in> set es" for k' i
  proof (cases "(k', i) \<in> set es1")
    case True
    then have "nextHitId s1 \<le> i \<and> i < nextHitId s' \<and> (\<forall>k'' h. (k'', h) \<in> set (granted s') \<longrightarrow> hit_id h = i \<longrightarrow> k'' = k')"
      using IH by blast
    then show ?thesis by (auto simp: n1)
  next
    case False
    then have "k' = k" "i = nextHitId s" using that r(2) by auto
    then show ?thesis using IH new by (auto simp: n1)
  qed
  ultimately show ?case using IH by (simp add: n1)
qed simp


text \<open>Writing back the pruned lists.\<close>

lemma prune_ok:
  assumes "jmap_ok (hits s)" "set (jkeys (hits s)) \<subseteq> K" "finite K" "card K \<le> MAX_KEYS" "distinct (map fst ps)" "set (map fst ps) \<subseteq> K"
  shows "let s' = s\<lparr>hits := fold (\<lambda>(k, w, live) m. sw_set k live m) ps (hits s)\<rparr> in
    jmap_ok (hits s') \<and> set (jkeys (hits s')) \<subseteq> K \<and>
    (\<forall>k. live_of s' k = (case map_of ps k of None \<Rightarrow> live_of s k | Some (w, live) \<Rightarrow> live))"
  using assms
proof (induction ps arbitrary: s)
  case (Cons p ps)
  obtain k w live where p: "p = (k, w, live)" by (cases p) auto
  have k: "k \<in> K" "k \<notin> fst ` set ps" using Cons.prems(5,6) p by auto
  define s1 where "s1 = s\<lparr>hits := sw_set k live (hits s)\<rparr>"
  note set = live_of_set [OF Cons.prems(3,4,1,2) k(1), where live = live]
  have "let s' = s1\<lparr>hits := fold (\<lambda>(k, w, live) m. sw_set k live m) ps (hits s1)\<rparr> in
    jmap_ok (hits s') \<and> set (jkeys (hits s')) \<subseteq> K \<and>
    (\<forall>k. live_of s' k = (case map_of ps k of None \<Rightarrow> live_of s1 k | Some (w, live) \<Rightarrow> live))"
    using Cons.prems set(2,3) p by (intro Cons.IH) (auto simp: s1_def)
  moreover have "map_of ps k = None" using k(2) by (simp add: map_of_eq_None_iff)
  ultimately show ?case using set(1) by (auto simp: p s1_def Let_def split: option.split)
qed simp

lemma retry_zero:
  "fold (\<lambda>(k, w, live) m. max m (scope_retry now w live)) ps (0 :: int) \<le> 0 \<Longrightarrow> (k, w, live) \<in> set ps \<Longrightarrow> scope_retry now w live \<le> 0"
proof -
  have mono: "m \<le> fold (\<lambda>(k, w, live) m. max m (scope_retry now w live)) ps m" for m and ps :: "('a \<times> sw_window \<times> hit list) list"
    by (induction ps arbitrary: m) (auto intro: order_trans [OF max.cobounded1])
  have "scope_retry now w live \<le> fold (\<lambda>(k, w, live) m. max m (scope_retry now w live)) ps m" if "(k, w, live) \<in> set ps" for m
    using that
  proof (induction ps arbitrary: m)
    case (Cons p ps)
    show ?case
    proof (cases "p = (k, w, live)")
      case True
      then show ?thesis using mono [of "max m (scope_retry now w live)" ps] by simp
    qed (use Cons in auto)
  qed simp
  then show "fold (\<lambda>(k, w, live) m. max m (scope_retry now w live)) ps (0 :: int) \<le> 0 \<Longrightarrow> (k, w, live) \<in> set ps \<Longrightarrow> scope_retry now w live \<le> 0"
    by (meson order_trans)
qed

lemma scope_free:
  assumes "scope_retry now w live \<le> 0" "live = recent now w hs" "0 < requests w"
  shows "int (length live) < requests w"
proof (rule ccontr)
  assume n: "\<not> int (length live) < requests w"
  then have "live \<noteq> []" using assms(3) by auto
  then have "hd live \<in> set live" by simp
  then have "timestamp (hd live) > now - windowMs w" using assms(2) by (auto simp: recent_def)
  then show False using assms(1) n by (simp add: scope_retry_def)
qed

lemma sw_ok_later:
  assumes "sw_ok cfg F K c s" "c \<le> now" shows "sw_ok cfg F K now s"
proof -
  note d = sw_okD [OF assms(1)]
  show ?thesis
  proof (rule sw_okI)
    show "recent now (cfg k) (live_of s k) = recent now (cfg k) (hits_of s k)" if "k \<in> F" for k
      using recent_recent [OF assms(2), of "cfg k"] d(6) [OF that] by metis
  qed (use d assms(2) in fastforce)+
qed

lemma tryAcquireMany_ok:
  assumes "sw_ok cfg F K c s" "c \<le> now" "finite K" "card K \<le> MAX_KEYS" "scopes_ok cfg F K scopes"
  shows "sw_ok cfg F K now (snd (tryAcquireMany now scopes s))"
proof -
  have ok: "sw_ok cfg F K now s" by (rule sw_ok_later [OF assms(1,2)])
  note d = sw_okD [OF ok]
  define act where "act = active_scopes scopes"
  define ps where "ps = map (\<lambda>(k, w). (k, w, recent now w (live_of s k))) act"
  have sub: "set act \<subseteq> set scopes" "distinct (map fst act)" using assms(5) by (auto simp: act_def active_scopes_def scopes_ok_def distinct_map_filter)
  have act: "fst ` set act \<subseteq> K" "\<And>k w. (k, w) \<in> set act \<Longrightarrow> requests w > 0 \<and> windowMs w > 0"
    "\<And>k w. (k, w) \<in> set act \<Longrightarrow> k \<in> F \<Longrightarrow> w = cfg k"
    using assms(5) sub(1) by (auto simp: act_def active_scopes_def scopes_ok_def)
  define s1 where "s1 = s\<lparr>hits := fold (\<lambda>(k, w, live) m. sw_set k live m) ps (hits s)\<rparr>"
  have mp: "map_of ps k = map_option (\<lambda>w. (w, recent now w (live_of s k))) (map_of act k)" for k
    unfolding ps_def by (induction act) auto
  have fst_ps: "map fst ps = map fst act" by (simp add: ps_def case_prod_unfold comp_def)
  have pr: "jmap_ok (hits s1)" "set (jkeys (hits s1)) \<subseteq> K"
    "live_of s1 k = (case map_of act k of Some w \<Rightarrow> recent now w (live_of s k) | None \<Rightarrow> live_of s k)" for k
    using prune_ok [OF d(1,2) assms(3,4), of ps] act(1) sub(2) by (auto simp: fst_ps s1_def Let_def mp split: option.splits)
  have rr: "recent now (cfg k) (live_of s1 k) = recent now (cfg k) (live_of s k)" if "k \<in> F" for k
    using act(3) [OF map_of_SomeD that] by (auto simp: pr(3) recent_recent split: option.splits)
  have ok1: "sw_ok cfg F K now s1"
    by (rule sw_okI) (use d pr(1,2) rr in \<open>auto simp: s1_def hits_of_def window_count_def\<close>)
  have run: "tryAcquireMany now scopes s =
      (if act = [] then (Sw_allowed None, s)
       else if fold (\<lambda>(k, w, live) m. max m (scope_retry now w live)) ps 0 > 0
       then (Sw_blocked (fold (\<lambda>(k, w, live) m. max m (scope_retry now w live)) ps 0), s1)
       else (let (es, s2) = record_hits now (map (\<lambda>(k, w, live). (k, live)) ps) s1 in
             (Sw_allowed (Some (next_lease s2)), s2\<lparr>leases := (next_lease s2, es) # leases s2, next_lease := next_lease s2 + 1\<rparr>)))"
    unfolding tryAcquireMany_def act_def [symmetric] Let_def ps_def s1_def live_hits_recent ..
  show ?thesis
  proof (cases "act = [] \<or> fold (\<lambda>(k, w, live) m. max m (scope_retry now w live)) ps 0 > 0")
    case True
    then have "snd (tryAcquireMany now scopes s) \<in> {s, s1}" unfolding run by auto
    then show ?thesis using ok ok1 by auto
  next
    case False
    obtain es s2 where r: "record_hits now (map (\<lambda>(k, w, live). (k, live)) ps) s1 = (es, s2)" by fastforce
    have rh: "sw_ok cfg F K now s2 \<and> leases s2 = leases s1 \<and> next_lease s2 = next_lease s1 \<and> nextHitId s1 \<le> nextHitId s2 \<and>
      (\<forall>k h. (k, h) \<in> set (granted s2) \<longrightarrow> (k, h) \<in> set (granted s1) \<or> nextHitId s1 \<le> hit_id h) \<and>
      (\<forall>k i. (k, i) \<in> set es \<longrightarrow> nextHitId s1 \<le> i \<and> i < nextHitId s2 \<and> (\<forall>k' h. (k', h) \<in> set (granted s2) \<longrightarrow> hit_id h = i \<longrightarrow> k' = k))"
    proof (rule record_hits_ok [OF ok1 assms(3,4) _ r])
      show "distinct (map fst (map (\<lambda>(k, w, live). (k, live)) ps))" using sub(2) fst_ps by (simp add: comp_def case_prod_unfold)
      fix k live assume "(k, live) \<in> set (map (\<lambda>(k, w, live). (k, live)) ps)"
      then obtain w where k: "(k, w) \<in> set act" "live = recent now w (live_of s k)" by (auto simp: ps_def)
      then have "(k, w, live) \<in> set ps" by (auto simp: ps_def)
      then have "scope_retry now w live \<le> 0" using retry_zero False by (metis not_less)
      then have "int (length live) < requests w" using scope_free k(2) act(2) [OF k(1)] by blast
      then show "k \<in> K \<and> (k \<in> F \<longrightarrow> live = recent now (cfg k) (live_of s1 k) \<and> int (length live) < requests (cfg k) \<and> 0 < windowMs (cfg k))"
        using k act(1) act(2,3) [OF k(1)] rr by force
    qed
    then have ok2: "sw_ok cfg F K now s2" by blast
    note d2 = sw_okD [OF ok2]
    have "snd (tryAcquireMany now scopes s) = s2\<lparr>leases := (next_lease s2, es) # leases s2, next_lease := next_lease s2 + 1\<rparr>"
      using False r unfolding run by simp
    moreover have "sw_ok cfg F K now (s2\<lparr>leases := (next_lease s2, es) # leases s2, next_lease := next_lease s2 + 1\<rparr>)"
    proof (rule sw_okI)
      fix l es' k i
      assume "(l, es') \<in> set (leases (s2\<lparr>leases := (next_lease s2, es) # leases s2, next_lease := next_lease s2 + 1\<rparr>))" "(k, i) \<in> set es'"
      then show "i < nextHitId (s2\<lparr>leases := (next_lease s2, es) # leases s2, next_lease := next_lease s2 + 1\<rparr>) \<and>
        (\<forall>k' h. (k', h) \<in> set (granted (s2\<lparr>leases := (next_lease s2, es) # leases s2, next_lease := next_lease s2 + 1\<rparr>)) \<longrightarrow> hit_id h = i \<longrightarrow> k' = k)"
        using rh d2(4,5) [of l es' k i] by auto
    qed (use d2 in \<open>auto simp: window_count_def\<close>)
    ultimately show ?thesis by simp
  qed
qed


text \<open>Releasing removes a hit from the log and from the limiter's list alike.\<close>

lemma drop_hit_spec:
  assumes "jmap_ok m" "set (jkeys m) \<subseteq> K"
  shows "jmap_ok (drop_hit e m)" "set (jkeys (drop_hit e m)) \<subseteq> K"
    "(case jget (drop_hit e m) k of None \<Rightarrow> [] | Some hs \<Rightarrow> hs) =
       filter (\<lambda>h. k = fst e \<longrightarrow> hit_id h \<noteq> snd e) (case jget m k of None \<Rightarrow> [] | Some hs \<Rightarrow> hs)"
proof -
  have "set (jkeys m) \<subseteq> K \<Longrightarrow> jget m (fst e) = Some live \<Longrightarrow> fst e \<in> K" for live using jget_in_keys [of m "fst e"] by auto
  then show "jmap_ok (drop_hit e m)" "set (jkeys (drop_hit e m)) \<subseteq> K" using assms by (auto simp: drop_hit_def Let_def split: option.split)
  show "(case jget (drop_hit e m) k of None \<Rightarrow> [] | Some hs \<Rightarrow> hs) =
       filter (\<lambda>h. k = fst e \<longrightarrow> hit_id h \<noteq> snd e) (case jget m k of None \<Rightarrow> [] | Some hs \<Rightarrow> hs)"
    by (cases "k = fst e") (auto simp: drop_hit_def Let_def split: option.split)
qed

lemma drop_hits_spec:
  assumes "jmap_ok m" "set (jkeys m) \<subseteq> K"
  shows "jmap_ok (fold drop_hit es m) \<and> set (jkeys (fold drop_hit es m)) \<subseteq> K \<and>
    (case jget (fold drop_hit es m) k of None \<Rightarrow> [] | Some hs \<Rightarrow> hs) =
       filter (\<lambda>h. (k, hit_id h) \<notin> set es) (case jget m k of None \<Rightarrow> [] | Some hs \<Rightarrow> hs)"
  using assms
proof (induction es arbitrary: m)
  case (Cons e es)
  note ds = drop_hit_spec [OF Cons.prems, of e]
  have "filter (\<lambda>h. (k, hit_id h) \<notin> set es) (filter (\<lambda>h. k = fst e \<longrightarrow> hit_id h \<noteq> snd e) hs) = filter (\<lambda>h. (k, hit_id h) \<notin> set (e # es)) hs" for hs
    by (cases e) (auto simp: filter_filter intro!: filter_cong)
  then show ?case using Cons.IH [OF ds(1,2)] ds(3) [of k] by simp
qed simp

lemma filter_recent: "recent now w (filter P hs) = filter P (recent now w hs)"
  by (simp add: recent_def conj_commute)

lemma release_lease_ok:
  assumes "sw_ok cfg F K now s" shows "sw_ok cfg F K now (release_lease l s)"
proof (cases "map_of (leases s) l")
  case (Some es)
  note d = sw_okD [OF assms]
  let ?s = "release_lease l s"
  have s': "?s = s\<lparr>leases := filter (\<lambda>(l', _). l' \<noteq> l) (leases s), hits := fold drop_hit es (hits s),
                     granted := filter (\<lambda>(k, h). hit_id h \<notin> snd ` set es) (granted s)\<rparr>" using Some by (simp add: release_lease_def)
  have l: "(l, es) \<in> set (leases s)" by (rule map_of_SomeD [OF Some])
  note dh = drop_hits_spec [OF d(1,2), of es]
  have lv: "live_of ?s k = filter (\<lambda>h. (k, hit_id h) \<notin> set es) (live_of s k)" for k using dh [of k] by (simp add: live_of_def s')
  have "filter (\<lambda>(k', h). k' = k) (filter (\<lambda>(k, h). hit_id h \<notin> snd ` set es) xs) =
      filter (\<lambda>(k', h). hit_id h \<notin> snd ` set es) (filter (\<lambda>(k', h). k' = k) xs)" for k :: string and xs :: "(string \<times> hit) list"
    by (simp add: filter_filter case_prod_unfold conj_commute)
  then have ho: "hits_of ?s k = filter (\<lambda>h. hit_id h \<notin> snd ` set es) (hits_of s k)" for k
    by (simp add: hits_of_def s' filter_map comp_def case_prod_unfold)
  have mem: "h \<in> set (hits_of s k) \<longleftrightarrow> (k, h) \<in> set (granted s)" for h k by (force simp: hits_of_def)
  have same: "(k, hit_id h) \<in> set es \<longleftrightarrow> hit_id h \<in> snd ` set es" if "h \<in> set (hits_of s k)" for h k
  proof
    assume "hit_id h \<in> snd ` set es"
    then obtain k' where k': "(k', hit_id h) \<in> set es" by auto
    have "(k, h) \<in> set (granted s)" using that mem by blast
    then have "k = k'" using d(5) [OF l k'] by blast
    then show "(k, hit_id h) \<in> set es" using k' by simp
  qed force
  show ?thesis
  proof (rule sw_okI)
    show "jmap_ok (hits ?s)" "set (jkeys (hits ?s)) \<subseteq> K" using dh by (simp_all add: s')
    show "recent now (cfg k) (live_of ?s k) = recent now (cfg k) (hits_of ?s k)" if "k \<in> F" for k
    proof -
      have "recent now (cfg k) (live_of ?s k) = filter (\<lambda>h. (k, hit_id h) \<notin> set es) (recent now (cfg k) (hits_of s k))"
        by (simp add: lv filter_recent d(6) [OF that])
      also have "\<dots> = filter (\<lambda>h. hit_id h \<notin> snd ` set es) (recent now (cfg k) (hits_of s k))"
        using same by (intro filter_cong) (auto simp: recent_def)
      finally show ?thesis by (simp add: ho filter_recent)
    qed
    show "int (window_count ?s k (windowMs (cfg k)) t) \<le> requests (cfg k)" if "k \<in> F" "requests (cfg k) > 0" "windowMs (cfg k) > 0" for k t
    proof -
      have "window_count ?s k (windowMs (cfg k)) t \<le> window_count s k (windowMs (cfg k)) t"
        using length_filter_le [of "\<lambda>h. hit_id h \<notin> snd ` set es" "filter (\<lambda>h. t - windowMs (cfg k) < timestamp h \<and> timestamp h \<le> t) (hits_of s k)"]
        unfolding window_count_def ho by (simp add: conj_commute)
      then show ?thesis using d(7) [OF that, of t] by linarith
    qed
  qed (use d in \<open>auto simp: s'\<close>)
qed (simp add: release_lease_def assms)


lemma sw_step_inv:
  assumes "finite K" "card K \<le> MAX_KEYS" "sw_step cfg F K e r r'" "sw_inv cfg F K r" shows "sw_inv cfg F K r'"
  using assms(3)
proof cases
  case (sw_try now scopes)
  then show ?thesis using tryAcquireMany_ok [of cfg F K "clock r" "limiter r" now scopes] assms(1,2,4) by (simp add: sw_inv_def sw_do_def)
next
  case (sw_rel l)
  then show ?thesis using release_lease_ok assms(4) by (simp add: sw_inv_def)
qed

text \<open>The step relation guarded by the size of the key space, so that every instance keeps the invariant.\<close>

definition sw_small :: "(string \<Rightarrow> sw_window) \<Rightarrow> string set \<Rightarrow> string set \<Rightarrow> sw_event \<Rightarrow> sw_run \<Rightarrow> sw_run \<Rightarrow> bool" where
  "sw_small cfg F K e r r' \<longleftrightarrow> finite K \<and> card K \<le> MAX_KEYS \<and> sw_step cfg F K e r r'"

interpretation sw: step_system "sw_small cfg F K" "sw_inv cfg F K"
  by unfold_locales (auto simp: sw_small_def intro: sw_step_inv)

lemma sw_init_inv: "sw_inv cfg F K \<lparr>limiter = sw_init, clock = t\<rparr>"
  by (simp add: sw_inv_def sw_ok_def sw_init_def live_of_def hits_of_def window_count_def)

section \<open>Properties\<close>


definition sw_demo_win :: "int \<Rightarrow> sw_window" where
  "sw_demo_win n = \<lparr>requests = n, windowMs = 10\<rparr>"

text \<open>Two requests use up the key that allows two, although another key comes with changing windows.\<close>

definition sw_demo :: sw_run where
  "sw_demo = sw_do 9 [(''g'', sw_demo_win 2), (''a'', sw_demo_win 7)] (sw_do 5 [(''g'', sw_demo_win 2), (''a'', sw_demo_win 3)]
     (sw_do 1 [(''g'', sw_demo_win 2), (''a'', sw_demo_win 1)] \<lparr>limiter = sw_init, clock = 0\<rparr>))"

lemma sw_demo_reached: "reaches (sw_small (\<lambda>_. sw_demo_win 2) {''g''} {''g'', ''a''}) \<lparr>limiter = sw_init, clock = 0\<rparr> sw_demo"
proof -
  let ?S = "sw_small (\<lambda>_. sw_demo_win 2) {''g''} {''g'', ''a''}"
  have st: "?S (Sw_try now [(''g'', sw_demo_win 2), (''a'', w)]) r (sw_do now [(''g'', sw_demo_win 2), (''a'', w)] r)"
    if "clock r \<le> now" for now w r
    using that by (auto simp: sw_small_def MAX_KEYS_def scopes_ok_def intro!: sw_step.intros)
  have more: "reaches ?S a (sw_do now [(''g'', sw_demo_win 2), (''a'', w)] b)" if "reaches ?S a b" "clock b \<le> now" for a b now w
    by (rule reaches_event [where step = ?S, OF that(1) st [OF that(2)]])
  show ?thesis unfolding sw_demo_def by (intro more reaches_start) (simp_all add: sw_do_def)
qed


end
