(* ===== verification/Rolling_Gate.thy ===== *)
theory Rolling_Gate
  imports Sliding_Window
begin

text \<open>
  The requests-per-minute gate of \<^verbatim>\<open>open-sse/services/rollingRpmGate.ts\<close>, a client of the sliding-window
  limiter. The loop of \<^verbatim>\<open>acquire\<close> sleeps between attempts, so one iteration is one operation whose result
  says how the loop goes on. The rates, provider windows and the key function passed to the constructor
  are a record of options. \<open>rg_clock\<close> is the time of the last attempt.
\<close>

section \<open>State and operations\<close>

record rpm_opts =
  globalRpm :: "int option"
  providerWindow :: "string \<Rightarrow> sw_window option"
  connectionRpm :: "string \<Rightarrow> int option"
  limiterKey :: "string \<Rightarrow> string \<Rightarrow> string option \<Rightarrow> string"

record rpm_gate =
  rg_limiter :: sw_state
  rg_blockedUntil :: "(string, int) jmap"
  learnedHeaderWindows :: "(string, sw_window \<times> int) jmap"
  rg_clock :: int

definition new_gate :: "int \<Rightarrow> rpm_gate" where
  "new_gate t = \<lparr>rg_limiter = sw_init, rg_blockedUntil = [], learnedHeaderWindows = [], rg_clock = t\<rparr>"

definition minute :: int where
  "minute = 60000"

definition blocked_at :: "rpm_gate \<Rightarrow> string \<Rightarrow> int" where
  "blocked_at g k = (case jget (rg_blockedUntil g) k of Some t \<Rightarrow> t | None \<Rightarrow> 0)"

definition headerKey :: "rpm_opts \<Rightarrow> string \<Rightarrow> string \<Rightarrow> string option \<Rightarrow> string" where
  "headerKey opt p c m = ''header:'' @ limiterKey opt p c m"

definition fixed_scopes :: "rpm_opts \<Rightarrow> string \<Rightarrow> string \<Rightarrow> (string \<times> sw_window) list" where
  "fixed_scopes opt p c =
     (case globalRpm opt of Some n \<Rightarrow> if n > 0 then [(''global'', \<lparr>requests = n, windowMs = minute\<rparr>)] else [] | None \<Rightarrow> []) @
     (case providerWindow opt p of Some w \<Rightarrow> [(''provider:'' @ p, w)] | None \<Rightarrow> []) @
     (case connectionRpm opt c of
        Some n \<Rightarrow> if n > 0 then [(''provider-account:'' @ p @ '':'' @ c, \<lparr>requests = n, windowMs = minute\<rparr>)] else []
      | None \<Rightarrow> [])"

definition getScopes :: "rpm_opts \<Rightarrow> string \<Rightarrow> string \<Rightarrow> string option \<Rightarrow> int \<Rightarrow> rpm_gate \<Rightarrow> (string \<times> sw_window) list \<times> rpm_gate" where
  "getScopes opt p c m now g =
     (let scopes = fixed_scopes opt p c; hk = headerKey opt p c m; hb = blocked_at g hk in
      if hb - now > 0 then (scopes @ [(hk, \<lparr>requests = 1, windowMs = hb - now\<rparr>)], g)
      else
        (let g1 = (if hb > 0 then g\<lparr>rg_blockedUntil := jdel hk (rg_blockedUntil g)\<rparr> else g) in
         case jget (learnedHeaderWindows g1) hk of
           None \<Rightarrow> (scopes, g1)
         | Some (w, expiresAt) \<Rightarrow>
             if expiresAt > now then (scopes @ [(hk, w)], g1)
             else (scopes, g1\<lparr>learnedHeaderWindows := jdel hk (learnedHeaderWindows g1)\<rparr>)))"

text \<open>The blocks of the scopes: the latest one in force, expired ones dropped.\<close>

fun scope_blocks :: "int \<Rightarrow> string list \<Rightarrow> int \<Rightarrow> rpm_gate \<Rightarrow> int \<times> rpm_gate" where
  "scope_blocks now [] acc g = (acc, g)"
| "scope_blocks now (k # ks) acc g =
     (let b = blocked_at g k in
      if b > now then scope_blocks now ks (max acc b) g
      else scope_blocks now ks acc (if b > 0 then g\<lparr>rg_blockedUntil := jdel k (rg_blockedUntil g)\<rparr> else g))"

datatype turn = T_open | T_lease "nat option" | T_timeout bool | T_sleep int | T_aborted

definition wait_or_timeout :: "bool \<Rightarrow> int \<Rightarrow> int \<Rightarrow> int \<Rightarrow> int \<Rightarrow> turn" where
  "wait_or_timeout upstream w maxWaitMs startedAt now =
     (let remaining = (if maxWaitMs > 0 then maxWaitMs - (now - startedAt) else w) in
      if maxWaitMs > 0 \<and> remaining \<le> 0 then T_timeout upstream
      else T_sleep (min w (if maxWaitMs > 0 then remaining else w)))"

definition acquire_turn ::
  "rpm_opts \<Rightarrow> string \<Rightarrow> string \<Rightarrow> string option \<Rightarrow> bool \<Rightarrow> int \<Rightarrow> int \<Rightarrow> int \<Rightarrow> rpm_gate \<Rightarrow> turn \<times> rpm_gate" where
  "acquire_turn opt p c m ab maxWaitMs startedAt now g =
     (if ab then (T_aborted, g)
      else
        (let bk = limiterKey opt p c m;
             (scopes, g1) = getScopes opt p c m now g;
             blockedUntil = blocked_at g1 bk
         in if scopes = [] \<and> blockedUntil \<le> now then (T_open, g1)
            else
              (let g2 = (if blockedUntil \<le> now then g1\<lparr>rg_blockedUntil := jdel bk (rg_blockedUntil g1)\<rparr> else g1);
                   (scopeBlocked, g3) = scope_blocks now (map fst scopes) 0 g2;
                   forcedWait = max 0 (max (blockedUntil - now) (scopeBlocked - now))
               in if forcedWait = 0 then
                    (let (res, s) = tryAcquireMany now scopes (rg_limiter g3); g4 = g3\<lparr>rg_limiter := s, rg_clock := now\<rparr> in
                     case res of
                       Sw_allowed l \<Rightarrow> (T_lease l, g4)
                     | Sw_blocked retry \<Rightarrow> (wait_or_timeout False (max 1 retry) maxWaitMs startedAt now, g4))
                  else (wait_or_timeout True forcedWait maxWaitMs startedAt now, g3))))"

text \<open>The test before the loop; after it the loop starts with the same readings.\<close>

definition acquire_first ::
  "rpm_opts \<Rightarrow> string \<Rightarrow> string \<Rightarrow> string option \<Rightarrow> bool \<Rightarrow> int \<Rightarrow> int \<Rightarrow> int \<Rightarrow> rpm_gate \<Rightarrow> turn \<times> rpm_gate" where
  "acquire_first opt p c m ab maxWaitMs startedAt now g =
     (let (scopes, g1) = getScopes opt p c m now g in
      if scopes = [] \<and> blocked_at g1 (limiterKey opt p c m) \<le> now then (T_open, g1)
      else acquire_turn opt p c m ab maxWaitMs startedAt now g1)"

definition rpm_block :: "rpm_opts \<Rightarrow> string \<Rightarrow> string \<Rightarrow> string option \<Rightarrow> int \<Rightarrow> int \<Rightarrow> rpm_gate \<Rightarrow> rpm_gate" where
  "rpm_block opt p c m retryAfterMs now g =
     (if retryAfterMs > 0 then g\<lparr>rg_blockedUntil := jset (limiterKey opt p c m) (now + retryAfterMs) (rg_blockedUntil g)\<rparr> else g)"

definition learnHeaderWindow :: "rpm_opts \<Rightarrow> string \<Rightarrow> string \<Rightarrow> string option \<Rightarrow> int \<Rightarrow> int \<Rightarrow> int \<Rightarrow> rpm_gate \<Rightarrow> rpm_gate" where
  "learnHeaderWindow opt p c m reqs winMs expiresAt g =
     (let key = headerKey opt p c m in
      if reqs \<le> 0 then g\<lparr>learnedHeaderWindows := jdel key (learnedHeaderWindows g), rg_blockedUntil := jset key expiresAt (rg_blockedUntil g)\<rparr>
      else g\<lparr>rg_blockedUntil := jdel key (rg_blockedUntil g),
             learnedHeaderWindows := jset key (\<lparr>requests = reqs, windowMs = winMs\<rparr>, expiresAt) (learnedHeaderWindows g)\<rparr>)"

definition clearLearnedHeaderWindow :: "rpm_opts \<Rightarrow> string \<Rightarrow> string \<Rightarrow> string option \<Rightarrow> rpm_gate \<Rightarrow> rpm_gate" where
  "clearLearnedHeaderWindow opt p c m g =
     (let key = headerKey opt p c m in
      g\<lparr>learnedHeaderWindows := jdel key (learnedHeaderWindows g), rg_blockedUntil := jdel key (rg_blockedUntil g)\<rparr>)"

definition keyContainsConnection :: "string \<Rightarrow> string \<Rightarrow> bool" where
  "keyContainsConnection key c =
     (let marker = '':'' @ c in
      (length marker \<le> length key \<and> drop (length key - length marker) key = marker) \<or> has_infix (marker @ '':'') key)"

definition clearConnection :: "string \<Rightarrow> rpm_gate \<Rightarrow> rpm_gate" where
  "clearConnection c g =
     g\<lparr>rg_blockedUntil := filter (\<lambda>(k, _). \<not> keyContainsConnection k c) (rg_blockedUntil g),
       learnedHeaderWindows := filter (\<lambda>(k, _). \<not> keyContainsConnection k c) (learnedHeaderWindows g)\<rparr>"

definition rpm_reset :: "rpm_gate \<Rightarrow> rpm_gate" where
  "rpm_reset g = g\<lparr>rg_limiter := sw_reset None (rg_limiter g), rg_blockedUntil := [], learnedHeaderWindows := []\<rparr>"

definition cleanupExpired :: "int \<Rightarrow> rpm_gate \<Rightarrow> rpm_gate" where
  "cleanupExpired now g =
     g\<lparr>rg_blockedUntil := filter (\<lambda>(k, t). \<not> t \<le> now) (rg_blockedUntil g),
       learnedHeaderWindows := filter (\<lambda>(k, w, t). \<not> t \<le> now) (learnedHeaderWindows g)\<rparr>"

text \<open>
  The whole loop: a wake-up comes with the delay beyond the requested sleep and with what others did to the
  gate meanwhile. When the wake-ups are used up the result of the last turn stands.
\<close>

fun rpm_acquire ::
  "rpm_opts \<Rightarrow> string \<Rightarrow> string \<Rightarrow> string option \<Rightarrow> int \<Rightarrow> int \<Rightarrow> int \<Rightarrow> (int \<times> (rpm_gate \<Rightarrow> rpm_gate)) list \<Rightarrow> rpm_gate \<Rightarrow> turn \<times> rpm_gate" where
  "rpm_acquire opt p c m maxWaitMs startedAt now [] g = acquire_turn opt p c m False maxWaitMs startedAt now g"
| "rpm_acquire opt p c m maxWaitMs startedAt now ((late, others) # ws) g =
     (case acquire_turn opt p c m False maxWaitMs startedAt now g of
        (T_sleep d, g') \<Rightarrow> rpm_acquire opt p c m maxWaitMs startedAt (now + d + late) ws (others g')
      | r \<Rightarrow> r)"

section \<open>One turn and the wait of one caller\<close>

lemma wait_or_timeout_sleep:
  assumes "wait_or_timeout u w maxWaitMs startedAt now = T_sleep d" "0 < w" "0 < maxWaitMs"
  shows "0 < d \<and> now + d \<le> startedAt + maxWaitMs"
  using assms by (auto simp: wait_or_timeout_def Let_def split: if_splits)

lemma fixed_scopes_distinct:
  "distinct (map fst (fixed_scopes opt p c))" "headerKey opt p c m \<notin> fst ` set (fixed_scopes opt p c)"
  by (auto simp: fixed_scopes_def headerKey_def split: option.splits if_splits)

lemma getScopes_frame [simp]:
  "rg_limiter (snd (getScopes opt p c m now g)) = rg_limiter g" "rg_clock (snd (getScopes opt p c m now g)) = rg_clock g"
  by (simp_all add: getScopes_def Let_def split: option.split)

lemma getScopes_again: "getScopes opt p c m now (snd (getScopes opt p c m now g)) = getScopes opt p c m now g"
  by (auto simp: getScopes_def blocked_at_def Let_def split: option.splits)

lemma scope_blocks_frame: "scope_blocks now ks acc g = (b, g') \<Longrightarrow> rg_limiter g' = rg_limiter g \<and> rg_clock g' = rg_clock g"
  by (induction ks arbitrary: acc g) (fastforce simp: Let_def split: if_splits)+

lemma getScopes_shape:
  "fst (getScopes opt p c m now g) = fixed_scopes opt p c \<or> (\<exists>w. fst (getScopes opt p c m now g) = fixed_scopes opt p c @ [(headerKey opt p c m, w)])"
  by (auto simp: getScopes_def Let_def split: option.splits)

lemma getScopes_blocked: "blocked_at g k \<le> now \<or> blocked_at (snd (getScopes opt p c m now g)) k = blocked_at g k"
  by (auto simp: getScopes_def blocked_at_def Let_def split: option.splits)

lemma getScopes_distinct: "distinct (map fst (fst (getScopes opt p c m now g)))"
  using getScopes_shape [of opt p c m now g] fixed_scopes_distinct [where opt = opt and p = p and c = c] by auto

lemma scope_blocks_max:
  "scope_blocks now ks acc g = (b, g') \<Longrightarrow> acc \<le> b \<and> (distinct ks \<longrightarrow> (\<forall>k \<in> set ks. blocked_at g k \<le> max now b))"
proof (induction ks arbitrary: acc g)
  case (Cons k ks)
  let ?g = "if blocked_at g k > 0 then g\<lparr>rg_blockedUntil := jdel k (rg_blockedUntil g)\<rparr> else g"
  have same: "blocked_at ?g k' = blocked_at g k'" if "k' \<noteq> k" for k' using that by (simp add: blocked_at_def)
  show ?case
  proof (cases "blocked_at g k > now")
    case True
    then have "max acc (blocked_at g k) \<le> b \<and> (distinct ks \<longrightarrow> (\<forall>k \<in> set ks. blocked_at g k \<le> max now b))"
      by (intro Cons.IH) (use Cons.prems True in \<open>simp add: Let_def\<close>)
    then show ?thesis by auto
  next
    case False
    then have IH: "acc \<le> b \<and> (distinct ks \<longrightarrow> (\<forall>k \<in> set ks. blocked_at ?g k \<le> max now b))"
      using Cons.IH [of acc ?g] Cons.prems by (simp add: Let_def)
    have "blocked_at g k' \<le> max now b" if "k' \<in> set (k # ks)" "distinct (k # ks)" for k'
      using that False IH same by (cases "k' = k") auto
    then show ?thesis using IH by blast
  qed
qed simp

text \<open>
  What one turn does: nothing after an abort; returns at once when nothing applies; one attempt on the
  limiter when no block is in force, on the limiter key or on a key of the scopes; otherwise a forced wait.
\<close>

lemma acquire_turn_outcome:
  assumes "acquire_turn opt p c m ab maxWaitMs startedAt now g = (r, g')"
  defines "scopes \<equiv> fst (getScopes opt p c m now g)"
  shows "r = T_aborted \<and> ab \<and> g' = g \<or>
    r = T_open \<and> rg_limiter g' = rg_limiter g \<and> rg_clock g' = rg_clock g \<or>
    (\<forall>k \<in> insert (limiterKey opt p c m) (fst ` set scopes). blocked_at g k \<le> now) \<and>
      rg_limiter g' = snd (tryAcquireMany now scopes (rg_limiter g)) \<and> rg_clock g' = now \<and>
      (case fst (tryAcquireMany now scopes (rg_limiter g)) of Sw_allowed l \<Rightarrow> r = T_lease l
       | Sw_blocked w \<Rightarrow> r = wait_or_timeout False (max 1 w) maxWaitMs startedAt now) \<or>
    rg_limiter g' = rg_limiter g \<and> rg_clock g' = rg_clock g \<and> (\<exists>w. 0 < w \<and> r = wait_or_timeout True w maxWaitMs startedAt now)"
proof -
  let ?bk = "limiterKey opt p c m"
  define g1 where "g1 = snd (getScopes opt p c m now g)"
  have gs: "getScopes opt p c m now g = (scopes, g1)" by (simp add: scopes_def g1_def)
  define g2 where "g2 = (if blocked_at g1 ?bk \<le> now then g1\<lparr>rg_blockedUntil := jdel ?bk (rg_blockedUntil g1)\<rparr> else g1)"
  obtain sb g3 where sb: "scope_blocks now (map fst scopes) 0 g2 = (sb, g3)" by fastforce
  have fr: "rg_limiter g1 = rg_limiter g" "rg_clock g1 = rg_clock g" "rg_limiter g3 = rg_limiter g" "rg_clock g3 = rg_clock g"
    using scope_blocks_frame [OF sb] by (simp_all add: g2_def g1_def)
  obtain res s where ta: "tryAcquireMany now scopes (rg_limiter g) = (res, s)" by fastforce
  define fw where "fw = max 0 (max (blocked_at g1 ?bk - now) (sb - now))"
  have run: "acquire_turn opt p c m ab maxWaitMs startedAt now g =
    (if ab then (T_aborted, g) else if scopes = [] \<and> blocked_at g1 ?bk \<le> now then (T_open, g1)
     else if fw = 0 then (case res of Sw_allowed l \<Rightarrow> T_lease l | Sw_blocked retry \<Rightarrow> wait_or_timeout False (max 1 retry) maxWaitMs startedAt now,
       g3\<lparr>rg_limiter := s, rg_clock := now\<rparr>)
     else (wait_or_timeout True fw maxWaitMs startedAt now, g3))"
    unfolding acquire_turn_def gs Let_def prod.case g2_def [symmetric] sb fr(3) ta fw_def by (simp split: sw_result.split)
  have "0 < fw" if "fw \<noteq> 0" using that by (simp add: fw_def)
  moreover have "\<forall>k \<in> insert ?bk (fst ` set scopes). blocked_at g k \<le> now" if "fw = 0"
  proof -
    have le: "blocked_at g1 ?bk \<le> now" "sb \<le> now" using that by (simp_all add: fw_def)
    have "blocked_at g2 k \<le> now" if "k \<in> fst ` set scopes" for k
      using scope_blocks_max [OF sb] getScopes_distinct [of opt p c m now g] le(2) that by (fastforce simp: scopes_def)
    moreover have "blocked_at g1 k \<le> now \<or> blocked_at g1 k = blocked_at g2 k" for k
      using le(1) by (cases "k = ?bk") (simp_all add: g2_def blocked_at_def)
    ultimately have "blocked_at g1 k \<le> now" if "k \<in> insert ?bk (fst ` set scopes)" for k using le(1) that by fastforce
    then show ?thesis using getScopes_blocked [of g _ now opt p c m] unfolding g1_def by metis
  qed
  ultimately show ?thesis using assms(1) fr ta unfolding run by (auto split: if_splits sw_result.splits)
qed

lemma wait_not_aborted [simp]:
  "wait_or_timeout u w maxWaitMs startedAt now \<noteq> T_aborted" "T_aborted \<noteq> wait_or_timeout u w maxWaitMs startedAt now"
  by (auto simp: wait_or_timeout_def Let_def split: if_splits)

lemma acquire_turn_sleep:
  assumes "acquire_turn opt p c m ab maxWaitMs startedAt now g = (T_sleep d, g')" "0 < maxWaitMs"
  shows "0 < d \<and> now + d \<le> startedAt + maxWaitMs"
  using acquire_turn_outcome [OF assms(1)] wait_or_timeout_sleep [OF sym _ assms(2)] by (auto split: sw_result.splits)

lemma rpm_acquire_ends:
  assumes "0 < maxWaitMs" "list_all (\<lambda>(late, others). 0 \<le> late) ws" "nat (startedAt + maxWaitMs - now) \<le> length ws"
  shows "fst (rpm_acquire opt p c m maxWaitMs startedAt now ws g) \<noteq> T_sleep d"
  using assms(2,3)
proof (induction ws arbitrary: now g)
  case Nil
  obtain r g' where r: "acquire_turn opt p c m False maxWaitMs startedAt now g = (r, g')" by fastforce
  show ?case
  proof
    assume "fst (rpm_acquire opt p c m maxWaitMs startedAt now [] g) = T_sleep d"
    then have "acquire_turn opt p c m False maxWaitMs startedAt now g = (T_sleep d, g')" using r by simp
    then have "0 < d \<and> now + d \<le> startedAt + maxWaitMs" using acquire_turn_sleep assms(1) by blast
    then show False using Nil.prems(2) by simp
  qed
next
  case (Cons a ws)
  obtain late oth where a: "a = (late, oth)" by fastforce
  obtain r g' where r: "acquire_turn opt p c m False maxWaitMs startedAt now g = (r, g')" by fastforce
  show ?case
  proof (cases r)
    case (T_sleep e)
    then have "0 < e" using acquire_turn_sleep r assms(1) by blast
    moreover have "nat (startedAt + maxWaitMs - (now + e + late)) \<le> length ws" using Cons.prems \<open>0 < e\<close> by (simp add: a) linarith
    ultimately show ?thesis using Cons.IH [of "now + e + late" "oth g'"] Cons.prems(1) r T_sleep by (simp add: a)
  qed (use r a in simp_all)
qed

lemma rpm_acquire_not_aborted: "fst (rpm_acquire opt p c m maxWaitMs startedAt now ws g) \<noteq> T_aborted"
proof (induction ws arbitrary: now g)
  case Nil
  then show ?case
    using acquire_turn_outcome [OF surjective_pairing, of opt p c m False maxWaitMs startedAt now g] by (auto split: sw_result.splits)
next
  case (Cons a ws)
  then show ?case
    using acquire_turn_outcome [OF surjective_pairing, of opt p c m False maxWaitMs startedAt now g]
    by (cases a) (auto split: sw_result.splits prod.splits turn.splits)
qed

section \<open>Histories of the gate\<close>

text \<open>
  The rates are fixed, time does not run backwards and the keys asked for are among \<open>K\<close>; blocks, learned
  windows, clearing and releases may come in any order.
\<close>

datatype rpm_event =
  Rg_first string string "string option" bool int int int
| Rg_turn string string "string option" bool int int int
| Rg_block string string "string option" int int
| Rg_learn string string "string option" int int int
| Rg_clear string string "string option"
| Rg_clearConnection string
| Rg_cleanup int
| Rg_release nat

fun rpm_do :: "rpm_opts \<Rightarrow> rpm_event \<Rightarrow> rpm_gate \<Rightarrow> rpm_gate" where
  "rpm_do opt (Rg_first p c m ab mw st now) g = snd (acquire_first opt p c m ab mw st now g)"
| "rpm_do opt (Rg_turn p c m ab mw st now) g = snd (acquire_turn opt p c m ab mw st now g)"
| "rpm_do opt (Rg_block p c m ra now) g = rpm_block opt p c m ra now g"
| "rpm_do opt (Rg_learn p c m n w ex) g = learnHeaderWindow opt p c m n w ex g"
| "rpm_do opt (Rg_clear p c m) g = clearLearnedHeaderWindow opt p c m g"
| "rpm_do opt (Rg_clearConnection c) g = clearConnection c g"
| "rpm_do opt (Rg_cleanup now) g = cleanupExpired now g"
| "rpm_do opt (Rg_release l) g = g\<lparr>rg_limiter := release_lease l (rg_limiter g)\<rparr>"

fun rpm_enabled :: "rpm_opts \<Rightarrow> string set \<Rightarrow> rpm_event \<Rightarrow> rpm_gate \<Rightarrow> bool" where
  "rpm_enabled opt K (Rg_first p c m ab mw st now) g \<longleftrightarrow> rg_clock g \<le> now \<and> fst ` set (fst (getScopes opt p c m now g)) \<subseteq> K"
| "rpm_enabled opt K (Rg_turn p c m ab mw st now) g \<longleftrightarrow> rg_clock g \<le> now \<and> fst ` set (fst (getScopes opt p c m now g)) \<subseteq> K"
| "rpm_enabled opt K _ g \<longleftrightarrow> True"

definition rpm_step :: "rpm_opts \<Rightarrow> string set \<Rightarrow> rpm_event \<Rightarrow> rpm_gate \<Rightarrow> rpm_gate \<Rightarrow> bool" where
  "rpm_step opt K e g g' \<longleftrightarrow> finite K \<and> card K \<le> MAX_KEYS \<and> rpm_enabled opt K e g \<and> g' = rpm_do opt e g"

text \<open>The windows that stay the same: the global one and those of the providers.\<close>

definition fixed_keys :: "rpm_opts \<Rightarrow> string set" where
  "fixed_keys opt = insert ''global'' {''provider:'' @ p |p. True}"

definition fixed_window :: "rpm_opts \<Rightarrow> string \<Rightarrow> sw_window" where
  "fixed_window opt k =
     (if k = ''global'' then \<lparr>requests = (case globalRpm opt of Some n \<Rightarrow> n | None \<Rightarrow> 0), windowMs = minute\<rparr>
      else (case providerWindow opt (drop 9 k) of Some w \<Rightarrow> w | None \<Rightarrow> \<lparr>requests = 0, windowMs = 0\<rparr>))"

lemma getScopes_ok:
  assumes "fst ` set (fst (getScopes opt p c m now g)) \<subseteq> K"
  shows "scopes_ok (fixed_window opt) (fixed_keys opt) K (fst (getScopes opt p c m now g))"
proof -
  have fs: "\<And>k w. (k, w) \<in> set (fixed_scopes opt p c) \<Longrightarrow> k \<in> fixed_keys opt \<Longrightarrow> w = fixed_window opt k"
    by (auto simp: fixed_scopes_def fixed_keys_def fixed_window_def split: option.splits if_splits)
  have "headerKey opt p c m \<notin> fixed_keys opt" by (auto simp: headerKey_def fixed_keys_def)
  then show ?thesis using getScopes_shape [of opt p c m now g] getScopes_distinct [of opt p c m now g] assms fs unfolding scopes_ok_def by auto
qed

definition rpm_inv :: "rpm_opts \<Rightarrow> string set \<Rightarrow> rpm_gate \<Rightarrow> bool" where
  "rpm_inv opt K g \<longleftrightarrow> sw_ok (fixed_window opt) (fixed_keys opt) K (rg_clock g) (rg_limiter g)"

lemma acquire_turn_inv:
  assumes "finite K" "card K \<le> MAX_KEYS" "rg_clock g \<le> now" "fst ` set (fst (getScopes opt p c m now g)) \<subseteq> K" "rpm_inv opt K g"
  shows "rpm_inv opt K (snd (acquire_turn opt p c m ab mw st now g))"
proof -
  obtain r g' where r: "acquire_turn opt p c m ab mw st now g = (r, g')" by fastforce
  have "sw_ok (fixed_window opt) (fixed_keys opt) K now (snd (tryAcquireMany now (fst (getScopes opt p c m now g)) (rg_limiter g)))"
    using assms by (intro tryAcquireMany_ok getScopes_ok) (simp_all add: rpm_inv_def)
  then show ?thesis using acquire_turn_outcome [OF r] assms(5) r by (auto simp: rpm_inv_def)
qed

lemma acquire_first_cases:
  "acquire_first opt p c m ab mw st now g = (T_open, snd (getScopes opt p c m now g)) \<or>
   acquire_first opt p c m ab mw st now g = acquire_turn opt p c m ab mw st now (snd (getScopes opt p c m now g))"
  by (simp add: acquire_first_def case_prod_unfold Let_def)

lemma rpm_step_inv:
  assumes "rpm_step opt K e g g'" "rpm_inv opt K g" shows "rpm_inv opt K g'"
proof (cases e)
  case (Rg_first p c m ab mw st now)
  let ?g = "snd (getScopes opt p c m now g)"
  have "rpm_inv opt K ?g" using assms(2) by (simp add: rpm_inv_def)
  moreover have "rpm_inv opt K (snd (acquire_turn opt p c m ab mw st now ?g))"
    using assms Rg_first by (intro acquire_turn_inv) (simp_all add: rpm_step_def getScopes_again rpm_inv_def)
  ultimately show ?thesis using acquire_first_cases [of opt p c m ab mw st now g] assms(1) Rg_first by (auto simp: rpm_step_def)
next
  case (Rg_turn p c m ab mw st now)
  then show ?thesis using assms by (auto simp: rpm_step_def intro!: acquire_turn_inv)
next
  case (Rg_release l)
  then show ?thesis using assms release_lease_ok by (simp add: rpm_step_def rpm_inv_def)
qed (use assms in \<open>simp_all add: rpm_step_def rpm_inv_def rpm_block_def learnHeaderWindow_def clearLearnedHeaderWindow_def
  clearConnection_def cleanupExpired_def Let_def\<close>)

interpretation rpm: step_system "rpm_step opt K" "rpm_inv opt K"
  by unfold_locales (rule rpm_step_inv)

lemma new_gate_inv: "rpm_inv opt K (new_gate t)"
  using sw_init_inv [of "fixed_window opt" "fixed_keys opt" K t] by (simp add: rpm_inv_def new_gate_def sw_inv_def)

section \<open>Properties\<close>

text \<open>
  C22. The wait in the gate is bounded. With a positive \<^verbatim>\<open>maxWaitMs\<close> the loop of \<^verbatim>\<open>acquire\<close> ends after at
  most as many sleeps as milliseconds are left, whatever other callers, blocks and learned windows do to
  the gate while it sleeps and however late the timers fire: it has then returned, with or without a
  lease, or thrown the queue timeout.
\<close>

theorem rpm_acquire_terminates:
  assumes "0 < maxWaitMs" "startedAt \<le> now" "list_all (\<lambda>(late, others). 0 \<le> late) ws" "nat maxWaitMs \<le> length ws"
  shows "case fst (rpm_acquire opt p c m maxWaitMs startedAt now ws g) of
      T_open \<Rightarrow> True | T_lease _ \<Rightarrow> True | T_timeout _ \<Rightarrow> True | T_sleep _ \<Rightarrow> False | T_aborted \<Rightarrow> False"
proof -
  have "nat (startedAt + maxWaitMs - now) \<le> length ws" using assms(2,4) by linarith
  then have "fst (rpm_acquire opt p c m maxWaitMs startedAt now ws g) \<noteq> T_sleep d" for d using rpm_acquire_ends assms(1,3) by blast
  moreover have "fst (rpm_acquire opt p c m maxWaitMs startedAt now ws g) \<noteq> T_aborted" by (rule rpm_acquire_not_aborted)
  ultimately show ?thesis by (simp split: turn.split)
qed

text \<open>Options with a global rate of two per minute; after two grants a third caller waits and times out.\<close>

definition rpm_demo_opts :: rpm_opts where
  "rpm_demo_opts = \<lparr>globalRpm = Some 2, providerWindow = (\<lambda>p. Some \<lparr>requests = 5, windowMs = 1000\<rparr>), connectionRpm = (\<lambda>c. None),
     limiterKey = (\<lambda>p c m. p @ '':'' @ c)\<rparr>"

definition rpm_demo_turn :: "int \<Rightarrow> rpm_event" where
  "rpm_demo_turn now = Rg_turn ''p'' ''c'' None False 2 now now"

definition rpm_demo :: rpm_gate where
  "rpm_demo = rpm_do rpm_demo_opts (rpm_demo_turn 20) (rpm_do rpm_demo_opts (rpm_demo_turn 10) (new_gate 0))"

theorem rpm_acquire_terminates_witness:
  "fst (rpm_acquire rpm_demo_opts ''p'' ''c'' None 2 30 30 [(0, id), (4, id)] rpm_demo) = T_timeout False \<and>
   (case fst (rpm_acquire rpm_demo_opts ''p'' ''c'' None 2 30 30 [(0, id), (4, id)] rpm_demo) of
      T_open \<Rightarrow> True | T_lease _ \<Rightarrow> True | T_timeout _ \<Rightarrow> True | T_sleep _ \<Rightarrow> False | T_aborted \<Rightarrow> False)"
proof
  show "fst (rpm_acquire rpm_demo_opts ''p'' ''c'' None 2 30 30 [(0, id), (4, id)] rpm_demo) = T_timeout False" by code_simp
qed (rule rpm_acquire_terminates; simp)


lemma rpm_demo_reached: "reaches (rpm_step rpm_demo_opts {''global'', ''provider:p''}) (new_gate 0) rpm_demo"
proof -
  let ?S = "rpm_step rpm_demo_opts {''global'', ''provider:p''}"
  have 1: "?S (rpm_demo_turn 10) (new_gate 0) (rpm_do rpm_demo_opts (rpm_demo_turn 10) (new_gate 0))"
    unfolding rpm_step_def by (simp add: MAX_KEYS_def rpm_demo_turn_def new_gate_def getScopes_def fixed_scopes_def rpm_demo_opts_def blocked_at_def)
  have "rpm_enabled rpm_demo_opts {''global'', ''provider:p''} (rpm_demo_turn 20) (rpm_do rpm_demo_opts (rpm_demo_turn 10) (new_gate 0))"
    by code_simp
  then have 2: "?S (rpm_demo_turn 20) (rpm_do rpm_demo_opts (rpm_demo_turn 10) (new_gate 0)) rpm_demo"
    unfolding rpm_step_def rpm_demo_def by (simp add: MAX_KEYS_def)
  show ?thesis by (rule reaches_event [where step = ?S, OF reaches_one [where step = ?S, OF 1] 2])
qed


end
