(* ===== verification/Bounded_Map.thy ===== *)
theory Bounded_Map
  imports Js_Prelude
begin

text \<open>
  The size-capped map of \<^verbatim>\<open>src/lib/quota/boundedMap.ts\<close> and the interface its clients rely on. The
  closure's parameters are a configuration record; the aggregated log line is not modelled, its two
  lifetime counters are.
\<close>

section \<open>State and operations\<close>

record 'v bentry =
  bvalue :: 'v
  bts :: int

record 'v bmap =
  inner :: "(string, 'v bentry) jmap"
  evictions :: nat
  overflowInserts :: nat

datatype bpolicy = LRU | TTL

record 'v bconfig =
  b_limit :: nat
  b_policy :: bpolicy
  b_ttlMs :: int
  b_shouldEvict :: "'v \<Rightarrow> string \<Rightarrow> int \<Rightarrow> bool"

definition bm_empty :: "'v bmap" where
  "bm_empty = \<lparr>inner = [], evictions = 0, overflowInserts = 0\<rparr>"

definition bm_expires :: "'v bconfig \<Rightarrow> bool" where
  "bm_expires c \<longleftrightarrow> b_policy c = TTL \<and> b_ttlMs c > 0"

definition isExpired :: "'v bconfig \<Rightarrow> 'v bentry \<Rightarrow> int \<Rightarrow> bool" where
  "isExpired c e now \<longleftrightarrow> bm_expires c \<and> now - bts e > b_ttlMs c"

definition sweepExpired :: "'v bconfig \<Rightarrow> int \<Rightarrow> 'v bmap \<Rightarrow> 'v bmap" where
  "sweepExpired c now m = m\<lparr>inner := filter (\<lambda>(k, e). \<not> isExpired c e now) (inner m)\<rparr>"

definition findVictim :: "'v bconfig \<Rightarrow> int \<Rightarrow> 'v bmap \<Rightarrow> string option" where
  "findVictim c now m = map_option fst (find (\<lambda>(k, e). b_shouldEvict c (bvalue e) k now) (inner m))"

lemma findVictim_Some:
  assumes "findVictim c now m = Some k"
  obtains e where "(k, e) \<in> set (inner m)" "b_shouldEvict c (bvalue e) k now"
  using assms by (auto simp: findVictim_def find_Some_iff) (metis nth_mem)

function room_loop :: "'v bconfig \<Rightarrow> int \<Rightarrow> 'v bmap \<Rightarrow> 'v bmap" where
  "room_loop c now m =
     (if length (inner m) \<ge> b_limit c then
        (case findVictim c now m of
           None \<Rightarrow> m\<lparr>overflowInserts := overflowInserts m + 1\<rparr>
         | Some k \<Rightarrow> room_loop c now (m\<lparr>inner := jdel k (inner m), evictions := evictions m + 1\<rparr>))
      else m)"
  by pat_completeness auto
termination
  by (relation "measure (\<lambda>(c, now, m). length (inner m))") (auto elim!: findVictim_Some intro: length_jdel)

declare room_loop.simps [simp del]

definition makeRoom :: "'v bconfig \<Rightarrow> int \<Rightarrow> 'v bmap \<Rightarrow> 'v bmap" where
  "makeRoom c now m =
     (if length (inner m) < b_limit c then m
      else room_loop c now (if bm_expires c then sweepExpired c now m else m))"

definition bm_get :: "'v bconfig \<Rightarrow> string \<Rightarrow> int \<Rightarrow> 'v bmap \<Rightarrow> 'v option \<times> 'v bmap" where
  "bm_get c k now m =
     (case jget (inner m) k of
        None \<Rightarrow> (None, m)
      | Some e \<Rightarrow>
          if isExpired c e now then (None, m\<lparr>inner := jdel k (inner m)\<rparr>)
          else (Some (bvalue e), if b_policy c = LRU then m\<lparr>inner := jset k e (jdel k (inner m))\<rparr> else m))"

definition bm_set :: "'v bconfig \<Rightarrow> string \<Rightarrow> 'v \<Rightarrow> int \<Rightarrow> 'v bmap \<Rightarrow> 'v bmap" where
  "bm_set c k v now m =
     (let m1 = (if jhas (inner m) k then m\<lparr>inner := jdel k (inner m)\<rparr> else makeRoom c now m)
      in m1\<lparr>inner := jset k \<lparr>bvalue = v, bts = now\<rparr> (inner m1)\<rparr>)"

definition bm_delete :: "string \<Rightarrow> 'v bmap \<Rightarrow> bool \<times> 'v bmap" where
  "bm_delete k m = (jhas (inner m) k, m\<lparr>inner := jdel k (inner m)\<rparr>)"

definition bm_clear :: "'v bmap \<Rightarrow> 'v bmap" where
  "bm_clear m = m\<lparr>inner := []\<rparr>"

definition bm_entries :: "'v bconfig \<Rightarrow> int \<Rightarrow> 'v bmap \<Rightarrow> (string \<times> 'v) list" where
  "bm_entries c now m = map (\<lambda>(k, e). (k, bvalue e)) (filter (\<lambda>(k, e). \<not> isExpired c e now) (inner m))"

section \<open>The interface\<close>

text \<open>
  What a client may assume of a store that protects some of its entries: \<open>look\<close> is what a read returns,
  writing a key makes it readable, and no operation loses another key as long as its entry is protected.
\<close>

datatype 'v store_op = Op_get string int | Op_put string 'v int | Op_del string

fun op_key :: "'v store_op \<Rightarrow> string" where
  "op_key (Op_get k now) = k"
| "op_key (Op_put k v now) = k"
| "op_key (Op_del k) = k"

fun run_op :: "(string \<Rightarrow> int \<Rightarrow> 'm \<Rightarrow> 'v option \<times> 'm) \<Rightarrow> (string \<Rightarrow> 'v \<Rightarrow> int \<Rightarrow> 'm \<Rightarrow> 'm) \<Rightarrow> (string \<Rightarrow> 'm \<Rightarrow> 'm) \<Rightarrow>
    'v store_op \<Rightarrow> 'm \<Rightarrow> 'm" where
  "run_op get put del (Op_get k now) m = snd (get k now m)"
| "run_op get put del (Op_put k v now) m = put k v now m"
| "run_op get put del (Op_del k) m = del k m"

fun op_guards :: "('v \<Rightarrow> string \<Rightarrow> int \<Rightarrow> bool) \<Rightarrow> 'v \<Rightarrow> string \<Rightarrow> 'v store_op \<Rightarrow> bool" where
  "op_guards protected w k (Op_put k' v now) \<longleftrightarrow> protected w k now"
| "op_guards protected w k _ \<longleftrightarrow> True"

locale protecting_store =
  fixes ok :: "'m \<Rightarrow> bool"
    and look :: "'m \<Rightarrow> string \<Rightarrow> 'v option"
    and get :: "string \<Rightarrow> int \<Rightarrow> 'm \<Rightarrow> 'v option \<times> 'm"
    and put :: "string \<Rightarrow> 'v \<Rightarrow> int \<Rightarrow> 'm \<Rightarrow> 'm"
    and del :: "string \<Rightarrow> 'm \<Rightarrow> 'm"
    and protected :: "'v \<Rightarrow> string \<Rightarrow> int \<Rightarrow> bool"
  assumes get_ok: "ok m \<Longrightarrow> ok (snd (get k now m))"
    and put_ok: "ok m \<Longrightarrow> ok (put k v now m)"
    and del_ok: "ok m \<Longrightarrow> ok (del k m)"
    and get_look: "ok m \<Longrightarrow> fst (get k now m) = look m k"
    and get_keeps: "ok m \<Longrightarrow> look (snd (get k now m)) k' = look m k'"
    and put_look: "ok m \<Longrightarrow> look (put k v now m) k = Some v"
    and put_new: "ok m \<Longrightarrow> k' \<noteq> k \<Longrightarrow> look (put k v now m) k' = Some w \<Longrightarrow> look m k' = Some w"
    and put_keeps: "ok m \<Longrightarrow> k' \<noteq> k \<Longrightarrow> look m k' = Some w \<Longrightarrow> protected w k' now \<Longrightarrow> look (put k v now m) k' = Some w"
    and del_look: "ok m \<Longrightarrow> look (del k m) k' = (if k' = k then None else look m k')"
begin

lemma run_op_ok: "ok m \<Longrightarrow> ok (run_op get put del opn m)"
  by (cases opn) (simp_all add: get_ok put_ok del_ok)

lemma run_op_keeps:
  assumes "ok m" "look m k = Some w" "op_guards protected w k opn" "op_key opn = k \<Longrightarrow> \<exists>now. opn = Op_get k now"
  shows "look (run_op get put del opn m) k = Some w"
proof (cases opn)
  case (Op_put k' v now)
  then have "k \<noteq> k'" using assms(4) by auto
  then show ?thesis using put_keeps [OF assms(1) _ assms(2)] assms(3) Op_put by simp
qed (use assms in \<open>auto simp: get_keeps del_look\<close>)

text \<open>A protected entry survives any traffic on the other keys.\<close>

lemma protected_survives:
  assumes "ok m" "look m k = Some w" "\<And>opn. opn \<in> set ops \<Longrightarrow> op_guards protected w k opn"
    and "\<And>opn. opn \<in> set ops \<Longrightarrow> op_key opn = k \<Longrightarrow> \<exists>now. opn = Op_get k now"
  shows "ok (fold (run_op get put del) ops m) \<and> look (fold (run_op get put del) ops m) k = Some w"
  using assms
proof (induction ops arbitrary: m)
  case (Cons opn ops)
  have "look (run_op get put del opn m) k = Some w" using Cons.prems by (intro run_op_keeps) auto
  then show ?case using Cons.IH [OF run_op_ok [OF Cons.prems(1)]] Cons.prems(3,4) by simp
qed simp

end

section \<open>The map implements it\<close>

definition bm_ok :: "'v bmap \<Rightarrow> bool" where
  "bm_ok m \<longleftrightarrow> jmap_ok (inner m)"

text \<open>Making room deletes only what may be evicted or has expired, and ends below the limit unless all is protected.\<close>

lemma room_loop_spec:
  assumes "bm_ok m"
  shows "bm_ok (room_loop c now m) \<and>
    (\<forall>k e. jget (inner (room_loop c now m)) k = Some e \<longrightarrow> jget (inner m) k = Some e) \<and>
    (\<forall>k e. jget (inner m) k = Some e \<longrightarrow> \<not> b_shouldEvict c (bvalue e) k now \<longrightarrow> jget (inner (room_loop c now m)) k = Some e) \<and>
    (length (inner (room_loop c now m)) < b_limit c \<or>
     (\<forall>(k, e) \<in> set (inner (room_loop c now m)). \<not> b_shouldEvict c (bvalue e) k now))"
  using assms
proof (induction c now m rule: room_loop.induct)
  case (1 c now m)
  show ?case
  proof (cases "length (inner m) \<ge> b_limit c")
    case full: True
    show ?thesis
    proof (cases "findVictim c now m")
      case None
      then have "\<forall>(k, e) \<in> set (inner m). \<not> b_shouldEvict c (bvalue e) k now"
        by (auto simp: findVictim_def find_None_iff)
      then show ?thesis using None full 1(2) by (subst (1 2 3 4 5) room_loop.simps) (simp add: bm_ok_def)
    next
      case (Some v)
      define m1 where "m1 = m\<lparr>inner := jdel v (inner m), evictions := evictions m + 1\<rparr>"
      have eq: "room_loop c now m = room_loop c now m1" using Some full by (subst room_loop.simps) (simp add: m1_def)
      obtain e where "(v, e) \<in> set (inner m)" "b_shouldEvict c (bvalue e) v now" by (rule findVictim_Some [OF Some])
      then have ev: "jget (inner m) v = Some e" "b_shouldEvict c (bvalue e) v now" using 1(2) jget_mem by (auto simp: bm_ok_def)
      have m1: "bm_ok m1" "jget (inner m1) k = (if k = v then None else jget (inner m) k)" for k
        using 1(2) by (simp_all add: m1_def bm_ok_def)
      note IH = 1(1) [OF full Some, folded m1_def, OF m1(1)]
      have "jget (inner m) k = Some e'" if "jget (inner m1) k = Some e'" for k e' using that m1(2) by (simp split: if_splits)
      moreover have "jget (inner m1) k = Some e'" if "jget (inner m) k = Some e'" "\<not> b_shouldEvict c (bvalue e') k now" for k e'
        using that m1(2) ev by auto
      ultimately show ?thesis using IH unfolding eq by (intro conjI allI impI) blast+
    qed
  next
    case False
    then have eq: "room_loop c now m = m" by (subst room_loop.simps) simp
    show ?thesis unfolding eq using False 1(2) by auto
  qed
qed

lemma makeRoom_spec:
  assumes "bm_ok m"
  shows "bm_ok (makeRoom c now m)"
    "jget (inner (makeRoom c now m)) k = Some e \<Longrightarrow> jget (inner m) k = Some e"
    "jget (inner m) k = Some e \<Longrightarrow> \<not> b_shouldEvict c (bvalue e) k now \<Longrightarrow> \<not> isExpired c e now \<Longrightarrow>
       jget (inner (makeRoom c now m)) k = Some e"
    "length (inner (makeRoom c now m)) < b_limit c \<or>
     (\<forall>(k, e) \<in> set (inner (makeRoom c now m)). \<not> b_shouldEvict c (bvalue e) k now)"
proof -
  define m1 where "m1 = (if bm_expires c then sweepExpired c now m else m)"
  have m1: "bm_ok m1" "jget (inner m1) k = Some e \<Longrightarrow> jget (inner m) k = Some e"
    "jget (inner m) k = Some e \<Longrightarrow> \<not> isExpired c e now \<Longrightarrow> jget (inner m1) k = Some e" for k e
    using assms by (auto simp: m1_def sweepExpired_def bm_ok_def jget_filter jmap_ok_filter split: option.splits if_splits)
  note rl = room_loop_spec [OF m1(1), of c now]
  have eq: "makeRoom c now m = (if length (inner m) < b_limit c then m else room_loop c now m1)" by (simp add: makeRoom_def m1_def)
  show "bm_ok (makeRoom c now m)" using rl assms by (simp add: eq)
  show "jget (inner (makeRoom c now m)) k = Some e \<Longrightarrow> jget (inner m) k = Some e"
  proof (cases "length (inner m) < b_limit c")
    case False
    assume "jget (inner (makeRoom c now m)) k = Some e"
    then have "jget (inner (room_loop c now m1)) k = Some e" using False by (simp add: eq)
    then have "jget (inner m1) k = Some e" using rl by blast
    then show ?thesis by (rule m1(2))
  qed (simp add: eq)
  show "jget (inner m) k = Some e \<Longrightarrow> \<not> b_shouldEvict c (bvalue e) k now \<Longrightarrow> \<not> isExpired c e now \<Longrightarrow>
       jget (inner (makeRoom c now m)) k = Some e"
  proof (cases "length (inner m) < b_limit c")
    case False
    assume "jget (inner m) k = Some e" "\<not> b_shouldEvict c (bvalue e) k now" "\<not> isExpired c e now"
    then have "jget (inner (room_loop c now m1)) k = Some e" using rl m1(3) [of k e] by blast
    then show ?thesis using False by (simp add: eq)
  qed (simp add: eq)
  show "length (inner (makeRoom c now m)) < b_limit c \<or>
     (\<forall>(k, e) \<in> set (inner (makeRoom c now m)). \<not> b_shouldEvict c (bvalue e) k now)" using rl by (simp add: eq)
qed


lemma bm_set_ok: "bm_ok m \<Longrightarrow> bm_ok (bm_set c k v now m)"
  using makeRoom_spec(1) [of m c now] by (auto simp: bm_set_def bm_ok_def Let_def)

lemma bm_set_inner:
  assumes "bm_ok m"
  shows "jget (inner (bm_set c k v now m)) k = Some \<lparr>bvalue = v, bts = now\<rparr>"
    "k' \<noteq> k \<Longrightarrow> jget (inner (bm_set c k v now m)) k' = Some e \<Longrightarrow> jget (inner m) k' = Some e"
    "k' \<noteq> k \<Longrightarrow> jget (inner m) k' = Some e \<Longrightarrow> \<not> b_shouldEvict c (bvalue e) k' now \<Longrightarrow> \<not> isExpired c e now \<Longrightarrow>
       jget (inner (bm_set c k v now m)) k' = Some e"
  using makeRoom_spec(2) [OF assms, of c now k' e] makeRoom_spec(3) [OF assms, of k' e c now] by (auto simp: bm_set_def Let_def split: if_splits)

text \<open>With the \<^verbatim>\<open>lru\<close> policy nothing expires, and the map is a protecting store.\<close>

definition bm_look :: "'v bmap \<Rightarrow> string \<Rightarrow> 'v option" where
  "bm_look m k = map_option bvalue (jget (inner m) k)"

interpretation lru: protecting_store bm_ok bm_look "bm_get (c\<lparr>b_policy := LRU\<rparr>)" "bm_set (c\<lparr>b_policy := LRU\<rparr>)"
  "\<lambda>k m. snd (bm_delete k m)" "\<lambda>v k now. \<not> b_shouldEvict c v k now" for c
proof -
  let ?c = "c\<lparr>b_policy := LRU\<rparr>"
  have ne: "\<not> isExpired ?c e now" for e now by (simp add: isExpired_def bm_expires_def)
  show "protecting_store bm_ok bm_look (bm_get ?c) (bm_set ?c) (\<lambda>k m. snd (bm_delete k m)) (\<lambda>v k now. \<not> b_shouldEvict c v k now)"
  proof
    fix m :: "'a bmap" and k k' v w now assume ok: "bm_ok m"
    show "bm_ok (snd (bm_get ?c k now m))" using ok by (auto simp: bm_get_def bm_ok_def ne split: option.split)
    show "bm_ok (bm_set ?c k v now m)" by (rule bm_set_ok [OF ok])
    show "bm_ok (snd (bm_delete k m))" using ok by (simp add: bm_delete_def bm_ok_def)
    show "fst (bm_get ?c k now m) = bm_look m k" by (simp add: bm_get_def bm_look_def ne split: option.split)
    show "bm_look (snd (bm_get ?c k now m)) k' = bm_look m k'" by (simp add: bm_get_def bm_look_def ne split: option.split)
    show "bm_look (bm_set ?c k v now m) k = Some v" using bm_set_inner(1) [OF ok] by (simp add: bm_look_def)
    show "bm_look (snd (bm_delete k m)) k' = (if k' = k then None else bm_look m k')" by (simp add: bm_delete_def bm_look_def)
    { assume "k' \<noteq> k" "bm_look (bm_set ?c k v now m) k' = Some w"
      then show "bm_look m k' = Some w" using bm_set_inner(2) [OF ok] by (auto simp: bm_look_def) }
    { assume "k' \<noteq> k" "bm_look m k' = Some w" "\<not> b_shouldEvict c w k' now"
      then show "bm_look (bm_set ?c k v now m) k' = Some w" using bm_set_inner(3) [OF ok, of k' k _ ?c] ne by (auto simp: bm_look_def) }
  qed
qed

text \<open>
  The cap. A write leaves at most \<^verbatim>\<open>limit\<close> entries, or else every entry other than the new one is
  protected at that moment; the new value can be read back at once, and no protected, unexpired entry of
  another key is lost.
\<close>

theorem bounded_map_cap:
  assumes "bm_ok m" "jhas (inner m) k \<longrightarrow> length (inner m) \<le> b_limit c" "0 < b_limit c"
  shows "(length (inner (bm_set c k v now m)) \<le> b_limit c \<or>
      list_all (\<lambda>(k', e). k' = k \<or> \<not> b_shouldEvict c (bvalue e) k' now) (inner (bm_set c k v now m))) \<and>
    fst (bm_get c k now (bm_set c k v now m)) = Some v \<and>
    (\<forall>k' e. k' \<noteq> k \<and> jget (inner m) k' = Some e \<and> \<not> b_shouldEvict c (bvalue e) k' now \<and> \<not> isExpired c e now \<longrightarrow>
       jget (inner (bm_set c k v now m)) k' = Some e)"
proof (intro conjI)
  define m1 where "m1 = (if jhas (inner m) k then m\<lparr>inner := jdel k (inner m)\<rparr> else makeRoom c now m)"
  have s: "inner (bm_set c k v now m) = jset k \<lparr>bvalue = v, bts = now\<rparr> (inner m1)" by (simp add: bm_set_def m1_def Let_def)
  have "k \<notin> set (jkeys (inner m1))"
    using makeRoom_spec(2) [OF assms(1)] jget_None [of "inner m1" k] jget_None [of "inner m" k]
    by (auto simp: m1_def split: if_splits)
  then have app: "inner (bm_set c k v now m) = inner m1 @ [(k, \<lparr>bvalue = v, bts = now\<rparr>)]" by (simp add: s jset_append)
  show "length (inner (bm_set c k v now m)) \<le> b_limit c \<or>
      list_all (\<lambda>(k', e). k' = k \<or> \<not> b_shouldEvict c (bvalue e) k' now) (inner (bm_set c k v now m))"
  proof (cases "jhas (inner m) k")
    case True
    then obtain e where "(k, e) \<in> set (inner m)" by auto
    then have "length (jdel k (inner m)) < length (inner m)" by (rule length_jdel)
    then show ?thesis using True assms(2) app by (simp add: m1_def)
  next
    case False
    then show ?thesis using makeRoom_spec(4) [OF assms(1), of c now] app by (auto simp: m1_def list_all_iff)
  qed
  show "fst (bm_get c k now (bm_set c k v now m)) = Some v"
    using bm_set_inner(1) [OF assms(1), of c k v now] by (auto simp: bm_get_def isExpired_def bm_expires_def)
  show "\<forall>k' e. k' \<noteq> k \<and> jget (inner m) k' = Some e \<and> \<not> b_shouldEvict c (bvalue e) k' now \<and> \<not> isExpired c e now \<longrightarrow>
       jget (inner (bm_set c k v now m)) k' = Some e" using bm_set_inner(3) [OF assms(1)] by blast
qed

definition bm_demo :: "int bmap" where
  "bm_demo = \<lparr>inner = [(''a'', \<lparr>bvalue = 1, bts = 0\<rparr>), (''b'', \<lparr>bvalue = 2, bts = 0\<rparr>)], evictions = 0, overflowInserts = 0\<rparr>"

definition bm_demo_cfg :: "int bconfig" where
  "bm_demo_cfg = \<lparr>b_limit = 2, b_policy = LRU, b_ttlMs = 0, b_shouldEvict = (\<lambda>v k now. v \<noteq> 1)\<rparr>"

theorem bounded_map_cap_witness:
  "map fst (inner (bm_set bm_demo_cfg ''c'' 3 5 bm_demo)) = [''a'', ''c''] \<and>
   fst (bm_get bm_demo_cfg ''c'' 5 (bm_set bm_demo_cfg ''c'' 3 5 bm_demo)) = Some 3"
proof -
  have ok: "bm_ok bm_demo" by (simp add: bm_ok_def jmap_ok_def bm_demo_def)
  have "map fst (inner (bm_set bm_demo_cfg ''c'' 3 5 bm_demo)) = [''a'', ''c'']" by code_simp
  then show ?thesis using bounded_map_cap [OF ok, of "''c''" bm_demo_cfg 3 5] by (simp add: bm_demo_def bm_demo_cfg_def)
qed

end
