(* ===== verification/Quota_Buckets.thy ===== *)
theory Quota_Buckets
  imports Bounded_Map
begin

text \<open>
  The saturation buckets of \<^verbatim>\<open>src/lib/quota/accountBuckets.ts\<close>, a client of the bounded map. The instant a
  \<^verbatim>\<open>resetAt\<close> string denotes enters as the number \<^verbatim>\<open>Date.parse\<close> gives for it.
\<close>

section \<open>Operations\<close>

record bucket =
  saturated :: bool
  resetsAtMs :: rat

definition SATURATION_THRESHOLD_PCT :: rat where
  "SATURATION_THRESHOLD_PCT = 100"

definition ACCOUNT_BUCKETS_SOFT_CAP :: nat where
  "ACCOUNT_BUCKETS_SOFT_CAP = 4096"

definition rolled_over :: "bucket \<Rightarrow> int \<Rightarrow> bool" where
  "rolled_over e now \<longleftrightarrow> resetsAtMs e > 0 \<and> of_int now \<ge> resetsAtMs e"

definition bucket_cfg :: "bucket bconfig" where
  "bucket_cfg = \<lparr>b_limit = ACCOUNT_BUCKETS_SOFT_CAP, b_policy = LRU, b_ttlMs = 0, b_shouldEvict = (\<lambda>e k now. rolled_over e now)\<rparr>"

definition storeKey :: "string \<Rightarrow> string \<Rightarrow> string" where
  "storeKey cid w = cid @ ''::'' @ w"

definition parseResetAtMs :: "js_num option \<Rightarrow> rat" where
  "parseResetAtMs r = (case r of Some (Fin ms) \<Rightarrow> if ms > 0 then ms else 0 | _ \<Rightarrow> 0)"

definition isBucketSaturated :: "string \<Rightarrow> string \<Rightarrow> int \<Rightarrow> bucket bmap \<Rightarrow> bool \<times> bucket bmap" where
  "isBucketSaturated cid w now m =
     (if cid = [] \<or> w = [] then (False, m)
      else (let k = storeKey cid w; (found, m1) = bm_get bucket_cfg k now m in
            case found of
              None \<Rightarrow> (False, m1)
            | Some e \<Rightarrow> if rolled_over e now then (False, snd (bm_delete k m1)) else (saturated e, m1)))"

definition recordUsage :: "string \<Rightarrow> string \<Rightarrow> js_num \<Rightarrow> js_num option \<Rightarrow> int \<Rightarrow> bucket bmap \<Rightarrow> bucket bmap" where
  "recordUsage cid w usedPct resetAt now m =
     (if cid = [] \<or> w = [] then m
      else (let k = storeKey cid w; r = parseResetAtMs resetAt in
            if r > 0 \<and> of_int now \<ge> r then snd (bm_delete k m)
            else if \<not> (case usedPct of Fin q \<Rightarrow> q \<ge> SATURATION_THRESHOLD_PCT | _ \<Rightarrow> False) then snd (bm_delete k m)
            else bm_set bucket_cfg k \<lparr>saturated = True, resetsAtMs = r\<rparr> now m))"

record usage_quota =
  uq_used :: js_val
  uq_resetAt :: "js_num option"

definition processQuotaEntry :: "string \<Rightarrow> string \<Rightarrow> usage_quota option \<Rightarrow> int \<Rightarrow> bucket bmap \<Rightarrow> bucket bmap" where
  "processQuotaEntry cid w entry now m =
     (case entry of
        Some q \<Rightarrow> (case uq_used q of Num n \<Rightarrow> recordUsage cid w n (uq_resetAt q) now m | _ \<Rightarrow> m)
      | None \<Rightarrow> m)"

text \<open>The match of \<^verbatim>\<open>/^weekly (.+) \(7d\)$/\<close>: a fixed prefix and suffix around a non-empty line.\<close>

definition weekly_model :: "string \<Rightarrow> string option" where
  "weekly_model key =
     (let pre = ''weekly ''; suf = '' (7d)''; mid = take (length key - length pre - length suf) (drop (length pre) key) in
      if key = pre @ mid @ suf \<and> mid \<noteq> [] \<and> list_all (\<lambda>ch. ch \<noteq> CHR 0x0A \<and> ch \<noteq> CHR 0x0D) mid then Some mid else None)"

definition updateAccountBuckets :: "string \<Rightarrow> (string, usage_quota option) jmap option \<Rightarrow> int \<Rightarrow> bucket bmap \<Rightarrow> bucket bmap" where
  "updateAccountBuckets cid quotas now m =
     (case quotas of
        None \<Rightarrow> m
      | Some qs \<Rightarrow>
          if cid = [] then m
          else (let entry = (\<lambda>k. case jget qs k of Some e \<Rightarrow> e | None \<Rightarrow> None);
                    m1 = processQuotaEntry cid ''5h'' (entry ''session (5h)'') now m;
                    m2 = processQuotaEntry cid ''7d'' (entry ''weekly (7d)'') now m1
                in fold (\<lambda>(key, e) m. case weekly_model key of Some md \<Rightarrow> processQuotaEntry cid (''7d:'' @ md) e now m | None \<Rightarrow> m) qs m2))"

section \<open>The bucket store as a client of the protecting store\<close>

abbreviation bucket_op :: "bucket store_op \<Rightarrow> bucket bmap \<Rightarrow> bucket bmap" where
  "bucket_op \<equiv> run_op (bm_get bucket_cfg) (bm_set bucket_cfg) (\<lambda>k m. snd (bm_delete k m))"

interpretation buckets: protecting_store bm_ok bm_look "bm_get bucket_cfg" "bm_set bucket_cfg" "\<lambda>k m. snd (bm_delete k m)"
  "\<lambda>e k now. \<not> rolled_over e now"
  using lru.protecting_store_axioms [of bucket_cfg] by (simp add: bucket_cfg_def)

datatype bucket_event = Ask string string int | Observe string string js_num "js_num option" int

fun bucket_run :: "bucket_event \<Rightarrow> bucket bmap \<Rightarrow> bucket bmap" where
  "bucket_run (Ask cid w now) m = snd (isBucketSaturated cid w now m)"
| "bucket_run (Observe cid w p r now) m = recordUsage cid w p r now m"

fun event_key :: "bucket_event \<Rightarrow> string" where
  "event_key (Ask cid w now) = storeKey cid w"
| "event_key (Observe cid w p r now) = storeKey cid w"

fun event_time :: "bucket_event \<Rightarrow> int" where
  "event_time (Ask cid w now) = now"
| "event_time (Observe cid w p r now) = now"

fun is_ask :: "bucket_event \<Rightarrow> bool" where
  "is_ask (Ask cid w now) = True"
| "is_ask _ = False"

lemma bucket_event_keeps:
  assumes "bm_ok m" "bm_look m k = Some e" "\<not> rolled_over e (event_time ev)" "event_key ev = k \<Longrightarrow> is_ask ev"
  shows "bm_ok (bucket_run ev m) \<and> bm_look (bucket_run ev m) k = Some e"
proof (cases ev)
  case (Ask cid w now)
  let ?k = "storeKey cid w"
  obtain found m1 where g: "bm_get bucket_cfg ?k now m = (found, m1)" by fastforce
  have m1: "bm_ok m1" "bm_look m1 k = Some e" "found = bm_look m ?k"
    using buckets.get_ok [OF assms(1), of ?k now] buckets.get_keeps [OF assms(1), of ?k now k] buckets.get_look [OF assms(1), of ?k now] g assms(2)
    by simp_all
  have "bm_look (snd (bm_delete ?k m1)) k = Some e" if "bm_look m ?k = Some e'" "rolled_over e' now" for e'
    using that assms(2,3) Ask m1(2) buckets.del_look [OF m1(1), of ?k k] by auto
  then show ?thesis using Ask g m1 assms(1,2) buckets.del_ok [OF m1(1), of ?k]
    by (auto simp: isBucketSaturated_def Let_def split: option.split)
next
  case (Observe cid w p r now)
  let ?k = "storeKey cid w"
  have ne: "?k \<noteq> k" using assms(4) Observe by auto
  have d: "bm_ok (snd (bm_delete ?k m))" "bm_look (snd (bm_delete ?k m)) k = Some e"
    using buckets.del_ok [OF assms(1)] buckets.del_look [OF assms(1), of ?k k] ne assms(2) by auto
  have s: "bm_ok (bm_set bucket_cfg ?k v now m)" "bm_look (bm_set bucket_cfg ?k v now m) k = Some e" for v
    using buckets.put_ok [OF assms(1)] buckets.put_keeps [OF assms(1) _ assms(2), of ?k now v] ne assms(3) Observe by auto
  show ?thesis using Observe d s assms(1,2) by (simp add: recordUsage_def Let_def)
qed

lemma bucket_events_keep:
  assumes "bm_ok m" "bm_look m k = Some e" "\<And>ev. ev \<in> set evs \<Longrightarrow> \<not> rolled_over e (event_time ev)"
    and "\<And>ev. ev \<in> set evs \<Longrightarrow> event_key ev = k \<Longrightarrow> is_ask ev"
  shows "bm_ok (fold bucket_run evs m) \<and> bm_look (fold bucket_run evs m) k = Some e"
  using assms
proof (induction evs arbitrary: m)
  case (Cons ev evs)
  have "bm_ok (bucket_run ev m) \<and> bm_look (bucket_run ev m) k = Some e" using Cons.prems by (intro bucket_event_keeps) auto
  then show ?case using Cons.IH [of "bucket_run ev m"] Cons.prems(3,4) by simp
qed simp

section \<open>Property\<close>

text \<open>
  Saturation is never forgotten early. Once a window of a connection has been observed at 100 per
  cent with a reset instant \<open>r\<close> (zero when unknown), every question about it before \<open>r\<close> answers
  saturated, however many other windows are recorded and asked about in between and although the store
  is capped: only the reset instant, or a new observation of this very window, ends it.
\<close>

theorem saturation_sticky:
  assumes "bm_ok m" "cid \<noteq> []" "w \<noteq> []" "100 \<le> q" "parseResetAtMs resetAt = r" "r = 0 \<or> of_int now < r"
    and "list_all (\<lambda>ev. (r = 0 \<or> of_int (event_time ev) < r) \<and> (event_key ev = storeKey cid w \<longrightarrow> is_ask ev)) evs"
    and "r = 0 \<or> of_int t < r"
  shows "fst (isBucketSaturated cid w t (fold bucket_run evs (recordUsage cid w (Fin q) resetAt now m)))"
proof -
  let ?e = "\<lparr>saturated = True, resetsAtMs = r\<rparr>" and ?k = "storeKey cid w"
  define m1 where "m1 = recordUsage cid w (Fin q) resetAt now m"
  have "m1 = bm_set bucket_cfg ?k ?e now m"
    using assms(2-6) by (auto simp: m1_def recordUsage_def SATURATION_THRESHOLD_PCT_def Let_def)
  then have m1: "bm_ok m1" "bm_look m1 ?k = Some ?e" using buckets.put_ok buckets.put_look assms(1) by auto
  define m2 where "m2 = fold bucket_run evs m1"
  have m2: "bm_ok m2 \<and> bm_look m2 ?k = Some ?e"
    unfolding m2_def by (rule bucket_events_keep [OF m1]) (use assms(7) in \<open>auto simp: list_all_iff rolled_over_def\<close>)
  obtain found m3 where g: "bm_get bucket_cfg ?k t m2 = (found, m3)" by fastforce
  then have "found = Some ?e" using buckets.get_look [of m2 ?k t] m2 by simp
  then show ?thesis using g assms(2,3,8) by (auto simp: isBucketSaturated_def rolled_over_def m1_def [symmetric] m2_def [symmetric])
qed

theorem saturation_sticky_witness:
  "fst (isBucketSaturated ''c1'' ''5h'' 90
     (fold bucket_run [Observe ''c2'' ''5h'' (Fin 100) None 20, Ask ''c1'' ''5h'' 30, Observe ''c1'' ''7d'' (Fin 40) None 40]
       (recordUsage ''c1'' ''5h'' (Fin 100) (Some (Fin 100)) 10 bm_empty)))"
proof -
  have ok: "bm_ok (bm_empty :: bucket bmap)" by (simp add: bm_ok_def bm_empty_def)
  show ?thesis
    by (rule saturation_sticky [OF ok, where r = 100]) (simp_all add: parseResetAtMs_def storeKey_def)
qed

end
