(* ===== verification/Quota_Share.thy ===== *)
theory Quota_Share
  imports Quota_Buckets
begin

text \<open>
  The selection strategy of quota-share combos: the in-flight counter of
  \<^verbatim>\<open>open-sse/services/combo/quotaShareInflight.ts\<close>, the deficit round robin, the concurrency gate and the
  two-choices step of \<^verbatim>\<open>open-sse/services/combo/quotaShareStrategy.ts\<close>. The three module-level maps
  (in-flight leases, deficits, saturation buckets) are one state record.
\<close>

section \<open>In-flight leases\<close>

type_synonym inflight = "(string, int list) jmap"

definition DEFAULT_LEASE_MS :: int where
  "DEFAULT_LEASE_MS = 120000"

definition MAX_LEASES_PER_CONNECTION :: nat where
  "MAX_LEASES_PER_CONNECTION = 4096"

definition retireExpired :: "int \<Rightarrow> int list \<Rightarrow> int list" where
  "retireExpired now ls = filter (\<lambda>x. x > now) ls"

definition pruneExpired :: "int \<Rightarrow> inflight \<Rightarrow> inflight" where
  "pruneExpired now m = filter (\<lambda>(k, ls). ls \<noteq> []) (map (\<lambda>(k, ls). (k, retireExpired now ls)) m)"

definition leases_of :: "inflight \<Rightarrow> string \<Rightarrow> int list" where
  "leases_of m cid = (case jget m cid of Some ls \<Rightarrow> ls | None \<Rightarrow> [])"

definition incrementInflight :: "string \<Rightarrow> int \<Rightarrow> int \<Rightarrow> inflight \<Rightarrow> nat \<times> inflight" where
  "incrementInflight cid leaseMs now m =
     (if cid = [] then (0, m)
      else (let m1 = pruneExpired now m;
                ls = leases_of m1 cid @ [now + leaseMs];
                ls1 = (if length ls > MAX_LEASES_PER_CONNECTION then tl ls else ls)
            in (length ls1, jset cid ls1 m1)))"

fun lastIndexWhere :: "('a \<Rightarrow> bool) \<Rightarrow> 'a list \<Rightarrow> nat option" where
  "lastIndexWhere P [] = None"
| "lastIndexWhere P (x # xs) =
     (case lastIndexWhere P xs of Some i \<Rightarrow> Some (Suc i) | None \<Rightarrow> if P x then Some 0 else None)"

definition decrementInflight :: "string \<Rightarrow> int \<Rightarrow> inflight \<Rightarrow> inflight" where
  "decrementInflight cid now m =
     (if cid = [] then m
      else case jget m cid of
             None \<Rightarrow> m
           | Some ls \<Rightarrow>
               (let ls1 = (case lastIndexWhere (\<lambda>x. x \<le> now) ls of Some i \<Rightarrow> splice_out i ls | None \<Rightarrow> butlast ls);
                    ls2 = retireExpired now ls1
                in if ls2 = [] then jdel cid m else jset cid ls2 m))"

definition getInflight :: "string \<Rightarrow> int \<Rightarrow> inflight \<Rightarrow> nat \<times> inflight" where
  "getInflight cid now m =
     (if cid = [] then (0, m)
      else case jget m cid of
             None \<Rightarrow> (0, m)
           | Some ls \<Rightarrow> (length (retireExpired now ls), jset cid (retireExpired now ls) m))"

section \<open>Targets and state\<close>

record target =
  executionKey :: string
  modelStr :: string
  connectionId :: "string option"
  weight :: js_num

record qs_state =
  flights :: inflight
  drrState :: "(string, (string, rat) jmap) jmap"
  qs_buckets :: "bucket bmap"

definition conn :: "target \<Rightarrow> string" where
  "conn t = (case connectionId t of Some c \<Rightarrow> c | None \<Rightarrow> [])"

definition MAX_DRR_COMBOS :: nat where
  "MAX_DRR_COMBOS = 200"

definition getDrrDeficits :: "string \<Rightarrow> (string, (string, rat) jmap) jmap \<Rightarrow> (string, rat) jmap \<times> (string, (string, rat) jmap) jmap" where
  "getDrrDeficits combo st =
     (case jget st combo of
        Some d \<Rightarrow> (d, st)
      | None \<Rightarrow> ([], jset combo [] (if length st \<ge> MAX_DRR_COMBOS then jdel (fst (hd st)) st else st)))"

text \<open>The part after the first slash.\<close>

definition bareModelName :: "string \<Rightarrow> string" where
  "bareModelName s = (if CHR ''/'' \<in> set s then tl (dropWhile (\<lambda>c. c \<noteq> CHR ''/'') s) else s)"

text \<open>The disjunction reads the buckets in order and stops at the first saturated one.\<close>

definition target_saturated :: "string \<Rightarrow> int \<Rightarrow> target \<Rightarrow> bucket bmap \<Rightarrow> bool \<times> bucket bmap" where
  "target_saturated modelName now t m =
     (let (s1, m1) = isBucketSaturated (conn t) ''5h'' now m in
      if s1 then (True, m1)
      else (let (s2, m2) = isBucketSaturated (conn t) ''7d'' now m1 in
            if s2 then (True, m2)
            else if modelName \<noteq> [] then isBucketSaturated (conn t) (''7d:'' @ modelName) now m2 else (False, m2)))"

fun filter_eligible :: "string \<Rightarrow> int \<Rightarrow> target list \<Rightarrow> bucket bmap \<Rightarrow> target list \<times> bucket bmap" where
  "filter_eligible md now [] m = ([], m)"
| "filter_eligible md now (t # ts) m =
     (let (sat, m1) = (if conn t = [] then (False, m) else target_saturated md now t m);
          (es, m2) = filter_eligible md now ts m1
      in (if sat then es else t # es, m2))"

definition filterEligibleBySaturation :: "target list \<Rightarrow> string \<Rightarrow> int \<Rightarrow> bucket bmap \<Rightarrow> target list \<times> bucket bmap" where
  "filterEligibleBySaturation ts model now m =
     (let (es, m1) = filter_eligible (bareModelName model) now ts m in (if es \<noteq> [] then es else ts, m1))"

definition resolveConnectionCap :: "string \<Rightarrow> (string, js_num option) jmap option \<Rightarrow> rat option" where
  "resolveConnectionCap cid caps =
     (if cid = [] then None
      else case caps of
             None \<Rightarrow> None
           | Some cs \<Rightarrow> (case jget cs cid of Some (Some (Fin q)) \<Rightarrow> if q \<le> 0 then None else Some q | _ \<Rightarrow> None))"

fun partition_caps :: "(string, js_num option) jmap \<Rightarrow> int \<Rightarrow> target list \<Rightarrow> inflight \<Rightarrow> (target list \<times> target list) \<times> inflight" where
  "partition_caps caps now [] m = (([], []), m)"
| "partition_caps caps now (t # ts) m =
     (case resolveConnectionCap (conn t) (Some caps) of
        None \<Rightarrow> (let ((r, a), m1) = partition_caps caps now ts m in ((t # r, a), m1))
      | Some cap \<Rightarrow>
          (let (n, m1) = getInflight (conn t) now m;
               ((r, a), m2) = partition_caps caps now ts m1
           in if of_nat n \<ge> cap then ((r, t # a), m2) else ((t # r, a), m2)))"

definition partitionByConcurrencyCap ::
  "target list \<Rightarrow> (string, js_num option) jmap option \<Rightarrow> int \<Rightarrow> inflight \<Rightarrow> (target list \<times> target list) \<times> inflight" where
  "partitionByConcurrencyCap ts caps now m =
     (case caps of
        None \<Rightarrow> ((ts, []), m)
      | Some cs \<Rightarrow>
          if cs = [] then ((ts, []), m)
          else (let ((r, a), m1) = partition_caps cs now ts m in if r = [] then ((ts, []), m1) else ((r, a), m1)))"

section \<open>Deficit round robin\<close>

definition normalizeWeight :: "js_num \<Rightarrow> rat" where
  "normalizeWeight w = (case w of Fin q \<Rightarrow> if q = 0 then 0 else if q > 0 then q else 1 | _ \<Rightarrow> 1)"

definition total_weight :: "target list \<Rightarrow> rat" where
  "total_weight ts = sum_list (map (\<lambda>t. normalizeWeight (weight t)) ts)"

definition quantum :: "target list \<Rightarrow> target \<Rightarrow> rat" where
  "quantum ts t =
     (if total_weight ts \<le> 0 then 1 / of_nat (length ts) else normalizeWeight (weight t) / total_weight ts)"

definition deficit :: "(string, rat) jmap \<Rightarrow> string \<Rightarrow> rat" where
  "deficit d k = (case jget d k of Some x \<Rightarrow> x | None \<Rightarrow> 0)"

definition credit :: "target list \<Rightarrow> (string, rat) jmap \<Rightarrow> (string, rat) jmap" where
  "credit ts d = fold (\<lambda>t d. jset (executionKey t) (deficit d (executionKey t) + quantum ts t) d) ts d"

definition pick :: "(string, rat) jmap \<Rightarrow> target list \<Rightarrow> target \<Rightarrow> target" where
  "pick d ts w = fold (\<lambda>t best. if deficit d (executionKey t) > deficit d (executionKey best) then t else best) ts w"

definition applyDrr :: "target list \<Rightarrow> string \<Rightarrow> (string, (string, rat) jmap) jmap \<Rightarrow> target list \<times> (string, (string, rat) jmap) jmap" where
  "applyDrr ts combo st =
     (if length ts \<le> 1 then (ts, st)
      else (let (d, st1) = getDrrDeficits combo st;
                d1 = credit ts d;
                w = pick d1 (tl ts) (hd ts);
                d2 = jset (executionKey w) (deficit d1 (executionKey w) - 1) d1
            in (w # filter (\<lambda>t. executionKey t \<noteq> executionKey w) ts, jset combo d2 st1)))"

definition pickByInflightP2C :: "target \<Rightarrow> target \<Rightarrow> int \<Rightarrow> inflight \<Rightarrow> bool \<times> inflight" where
  "pickByInflightP2C a b now m =
     (let (x, m1) = getInflight (conn a) now m; (y, m2) = getInflight (conn b) now m1 in (y < x, m2))"

record qs_result =
  winner :: "target option"
  orderedTargets :: "target list"
  release_conn :: "string option"
  released :: bool

definition selectQuotaShareTarget ::
  "target list \<Rightarrow> string \<Rightarrow> string \<Rightarrow> int \<Rightarrow> (string, js_num option) jmap option \<Rightarrow> qs_state \<Rightarrow> qs_result \<times> qs_state" where
  "selectQuotaShareTarget ts combo model now caps s =
     (if ts = [] then (\<lparr>winner = None, orderedTargets = [], release_conn = None, released = False\<rparr>, s)
      else
        (let (eligible, bs) = filterEligibleBySaturation ts model now (qs_buckets s);
             demoted = filter (\<lambda>t. t \<notin> set eligible) ts;
             ((withRoom, atCap), f1) = partitionByConcurrencyCap eligible caps now (flights s);
             (ordered, dr) = applyDrr withRoom combo (drrState s);
             (swap, f2) = (if length ordered \<ge> 2 then pickByInflightP2C (ordered ! 0) (ordered ! 1) now f1 else (False, f1));
             w = (if swap then ordered ! 1 else ordered ! 0);
             rest = (if swap then ordered ! 0 # drop 2 ordered else drop 1 ordered);
             f3 = (if conn w \<noteq> [] then snd (incrementInflight (conn w) DEFAULT_LEASE_MS now f2) else f2)
         in (\<lparr>winner = Some w, orderedTargets = w # rest @ atCap @ demoted,
              release_conn = (if conn w \<noteq> [] then Some (conn w) else None), released = False\<rparr>,
             s\<lparr>flights := f3, drrState := dr, qs_buckets := bs\<rparr>)))"

text \<open>The callback returned to the caller; it keeps the clock of the selection and does its work once.\<close>

definition release_selection :: "int \<Rightarrow> qs_result \<times> qs_state \<Rightarrow> qs_result \<times> qs_state" where
  "release_selection selected_at rs =
     (case rs of (r, s) \<Rightarrow>
        if released r then (r, s)
        else (r\<lparr>released := True\<rparr>,
              case release_conn r of None \<Rightarrow> s | Some c \<Rightarrow> s\<lparr>flights := decrementInflight c selected_at (flights s)\<rparr>))"

section \<open>Fairness of the round robin\<close>

lemma deficit_jset [simp]: "deficit (jset k x d) k' = (if k' = k then x else deficit d k')"
  by (simp add: deficit_def)

lemma credit_fold:
  assumes "distinct (map executionKey us)"
  shows "t \<in> set us \<Longrightarrow> deficit (fold (\<lambda>t d. jset (executionKey t) (deficit d (executionKey t) + q t) d) us d) (executionKey t) =
      deficit d (executionKey t) + q t"
    and "k \<notin> executionKey ` set us \<Longrightarrow> deficit (fold (\<lambda>t d. jset (executionKey t) (deficit d (executionKey t) + q t) d) us d) k = deficit d k"
proof -
  have other: "deficit (fold (\<lambda>t d. jset (executionKey t) (deficit d (executionKey t) + q t) d) us d) k = deficit d k"
    if "k \<notin> executionKey ` set us" for us d k using that by (induction us arbitrary: d) auto
  show "k \<notin> executionKey ` set us \<Longrightarrow> deficit (fold (\<lambda>t d. jset (executionKey t) (deficit d (executionKey t) + q t) d) us d) k = deficit d k"
    by (rule other)
  show "t \<in> set us \<Longrightarrow> deficit (fold (\<lambda>t d. jset (executionKey t) (deficit d (executionKey t) + q t) d) us d) (executionKey t) =
      deficit d (executionKey t) + q t"
    using assms
  proof (induction us arbitrary: d)
    case (Cons u us)
    show ?case
    proof (cases "t = u")
      case True
      then have "executionKey t \<notin> executionKey ` set us" using Cons.prems(2) by simp
      then show ?thesis using other True by simp
    next
      case False
      then have "t \<in> set us" using Cons.prems(1) by simp
      then have "executionKey t \<noteq> executionKey u" using Cons.prems(2) by (metis distinct.simps(2) image_eqI list.map(2) list.set_map)
      then show ?thesis using Cons.IH Cons.prems False by simp
    qed
  qed simp
qed

lemma pick_max:
  "pick d ts w \<in> insert w (set ts)"
  "t \<in> insert w (set ts) \<Longrightarrow> deficit d (executionKey t) \<le> deficit d (executionKey (pick d ts w))"
proof -
  have "pick d ts w \<in> insert w (set ts) \<and> (\<forall>t \<in> insert w (set ts). deficit d (executionKey t) \<le> deficit d (executionKey (pick d ts w)))" for ts w
    unfolding pick_def
  proof (induction ts arbitrary: w)
    case (Cons u us)
    let ?w = "if deficit d (executionKey w) < deficit d (executionKey u) then u else w"
    have le: "deficit d (executionKey w) \<le> deficit d (executionKey ?w)" "deficit d (executionKey u) \<le> deficit d (executionKey ?w)" by auto
    show ?case using Cons.IH [of ?w] order_trans [OF le(1)] order_trans [OF le(2)] by (auto split: if_splits)
  qed simp
  then show "pick d ts w \<in> insert w (set ts)"
    "t \<in> insert w (set ts) \<Longrightarrow> deficit d (executionKey t) \<le> deficit d (executionKey (pick d ts w))" by blast+
qed

lemma indicator_sum:
  assumes "distinct (map executionKey ts)" "w \<in> set ts"
  shows "sum_list (map (\<lambda>t. if executionKey t = executionKey w then 1 else (0 :: rat)) ts) = 1"
proof -
  have zero: "sum_list (map (\<lambda>t. if executionKey t = k then 1 else (0 :: rat)) us) = 0" if "k \<notin> executionKey ` set us" for k us
    using that by (induction us) auto
  show ?thesis using assms
  proof (induction ts)
    case (Cons u us)
    show ?case
    proof (cases "w = u")
      case True
      then show ?thesis using Cons.prems(1) zero [of "executionKey w" us] by simp
    next
      case False
      then have "w \<in> set us" using Cons.prems(2) by simp
      moreover from this have "executionKey u \<noteq> executionKey w" using Cons.prems(1) by auto
      ultimately show ?thesis using Cons by simp
    qed
  qed simp
qed

lemma quantum_nonneg: "0 \<le> quantum ts t"
proof -
  have "0 \<le> normalizeWeight w" for w by (simp add: normalizeWeight_def split: js_num.split)
  then show ?thesis by (simp add: quantum_def)
qed

lemma sum_list_divide_rat: "sum_list (map (\<lambda>t. f t / c) ts) = sum_list (map f ts) / (c :: rat)"
  by (induction ts) (simp_all add: add_divide_distrib)

lemma quantum_sum: "ts \<noteq> [] \<Longrightarrow> sum_list (map (quantum ts) ts) = 1"
proof -
  assume "ts \<noteq> []"
  then have n: "(of_nat (length ts) :: rat) \<noteq> 0" by simp
  show ?thesis
  proof (cases "total_weight ts \<le> 0")
    case True
    then have "map (quantum ts) ts = map (\<lambda>_. 1 / of_nat (length ts)) ts" by (simp add: quantum_def)
    also have "\<dots> = replicate (length ts) (1 / of_nat (length ts))" by (simp add: map_replicate_const)
    finally show ?thesis using n by (simp add: sum_list_replicate)
  next
    case False
    then have "map (quantum ts) ts = map (\<lambda>t. normalizeWeight (weight t) / total_weight ts) ts" by (simp add: quantum_def)
    then have "sum_list (map (quantum ts) ts) = sum_list (map (\<lambda>t. normalizeWeight (weight t) / total_weight ts) ts)" by (rule arg_cong)
    also have "\<dots> = total_weight ts / total_weight ts" unfolding sum_list_divide_rat by (simp add: total_weight_def)
    finally show ?thesis using False by simp
  qed
qed

text \<open>\<open>n\<close> rounds over the same targets, with the keys of the winners.\<close>

fun drr_run :: "target list \<Rightarrow> string \<Rightarrow> nat \<Rightarrow> (string, (string, rat) jmap) jmap \<Rightarrow> string list \<times> (string, (string, rat) jmap) jmap" where
  "drr_run ts combo 0 st = ([], st)"
| "drr_run ts combo (Suc n) st =
     (let (ws, st1) = drr_run ts combo n st; (ordered, st2) = applyDrr ts combo st1
      in (ws @ [executionKey (hd ordered)], st2))"

definition combo_deficit :: "string \<Rightarrow> (string, (string, rat) jmap) jmap \<Rightarrow> string \<Rightarrow> rat" where
  "combo_deficit combo st k = (case jget st combo of Some d \<Rightarrow> deficit d k | None \<Rightarrow> 0)"

definition drr_ok :: "target list \<Rightarrow> (string \<Rightarrow> rat) \<Rightarrow> bool" where
  "drr_ok ts f \<longleftrightarrow> sum_list (map (\<lambda>t. f (executionKey t)) ts) = 0 \<and> (\<forall>t \<in> set ts. -1 < f (executionKey t))"

lemma applyDrr_round:
  assumes "distinct (map executionKey ts)" "2 \<le> length ts" "drr_ok ts (combo_deficit combo st)" "applyDrr ts combo st = (ordered, st')"
  shows "drr_ok ts (combo_deficit combo st')" "hd ordered \<in> set ts"
    "t \<in> set ts \<Longrightarrow> combo_deficit combo st' (executionKey t) =
       combo_deficit combo st (executionKey t) + quantum ts t - (if executionKey t = executionKey (hd ordered) then 1 else 0)"
proof -
  obtain d st1 where g: "getDrrDeficits combo st = (d, st1)" by fastforce
  define d1 where "d1 = credit ts d"
  define w where "w = pick d1 (tl ts) (hd ts)"
  have ne: "ts \<noteq> []" using assms(2) by auto
  have ins: "insert (hd ts) (set (tl ts)) = set ts" using ne by (cases ts) auto
  have o: "hd ordered = w" "jget st' combo = Some (jset (executionKey w) (deficit d1 (executionKey w) - 1) d1)"
    using assms(2,4) g by (auto simp: applyDrr_def Let_def d1_def w_def)
  have dd: "deficit d k = combo_deficit combo st k" for k
    using g by (auto simp: getDrrDeficits_def combo_deficit_def deficit_def split: option.splits)
  have c1: "deficit d1 (executionKey t) = combo_deficit combo st (executionKey t) + quantum ts t" if "t \<in> set ts" for t
    using credit_fold(1) [OF assms(1) that, of "quantum ts" d] by (simp add: d1_def credit_def dd)
  have w: "w \<in> set ts" "\<And>t. t \<in> set ts \<Longrightarrow> deficit d1 (executionKey t) \<le> deficit d1 (executionKey w)"
    using pick_max(1) [of d1 "tl ts" "hd ts"] pick_max(2) [where d = d1 and ts = "tl ts" and w = "hd ts"] ins by (auto simp: w_def)
  show "hd ordered \<in> set ts" using w(1) o by simp
  have new: "combo_deficit combo st' (executionKey t) = combo_deficit combo st (executionKey t) + quantum ts t -
      (if executionKey t = executionKey w then 1 else 0)" if "t \<in> set ts" for t
    using c1 [OF that] c1 [OF w(1)] by (auto simp: combo_deficit_def o)
  then show "t \<in> set ts \<Longrightarrow> combo_deficit combo st' (executionKey t) =
       combo_deficit combo st (executionKey t) + quantum ts t - (if executionKey t = executionKey (hd ordered) then 1 else 0)"
    by (simp add: o)
  have total1: "sum_list (map (\<lambda>t. deficit d1 (executionKey t)) ts) = 1"
  proof -
    have "map (\<lambda>t. deficit d1 (executionKey t)) ts = map (\<lambda>t. combo_deficit combo st (executionKey t) + quantum ts t) ts" using c1 by simp
    then have "sum_list (map (\<lambda>t. deficit d1 (executionKey t)) ts) = sum_list (map (\<lambda>t. combo_deficit combo st (executionKey t) + quantum ts t) ts)"
      by (rule arg_cong)
    then show ?thesis using assms(3) quantum_sum [OF ne] by (simp add: sum_list_addf drr_ok_def)
  qed
  have wpos: "0 < deficit d1 (executionKey w)"
  proof (rule ccontr)
    assume "\<not> 0 < deficit d1 (executionKey w)"
    then have "\<forall>x \<in> set (map (\<lambda>t. deficit d1 (executionKey t)) ts). x \<le> 0" using w(2) by fastforce
    then have "sum_list (map (\<lambda>t. deficit d1 (executionKey t)) ts) \<le> 0" by (intro sum_list_nonpos) auto
    then show False using total1 by simp
  qed
  have one: "sum_list (map (\<lambda>t. if executionKey t = executionKey w then 1 else (0 :: rat)) ts) = 1"
    using indicator_sum assms(1) w(1) by blast
  have "map (\<lambda>t. combo_deficit combo st' (executionKey t)) ts =
      map (\<lambda>t. deficit d1 (executionKey t) - (if executionKey t = executionKey w then 1 else 0)) ts"
    using new c1 by auto
  then have "sum_list (map (\<lambda>t. combo_deficit combo st' (executionKey t)) ts) =
      sum_list (map (\<lambda>t. deficit d1 (executionKey t) - (if executionKey t = executionKey w then 1 else 0)) ts)" by (rule arg_cong)
  then have "sum_list (map (\<lambda>t. combo_deficit combo st' (executionKey t)) ts) = 0"
    using total1 one by (simp add: sum_list_subtractf)
  moreover have "-1 < combo_deficit combo st' (executionKey t)" if "t \<in> set ts" for t
  proof (cases "executionKey t = executionKey w")
    case True
    then show ?thesis using wpos by (simp add: combo_deficit_def o)
  next
    case False
    then show ?thesis using new [OF that] quantum_nonneg [of ts t] assms(3) that by (auto simp: drr_ok_def)
  qed
  ultimately show "drr_ok ts (combo_deficit combo st')" by (simp add: drr_ok_def)
qed


lemma drr_run_ok:
  assumes "distinct (map executionKey ts)" "2 \<le> length ts" "drr_run ts combo n [] = (ws, st)"
  shows "drr_ok ts (combo_deficit combo st) \<and> length ws = n \<and> set ws \<subseteq> executionKey ` set ts \<and>
    (\<forall>t \<in> set ts. combo_deficit combo st (executionKey t) = of_nat n * quantum ts t - of_nat (count_list ws (executionKey t)))"
  using assms(3)
proof (induction n arbitrary: ws st)
  case 0
  have "sum_list (map (\<lambda>t. 0 :: rat) ts) = 0" by (induction ts) auto
  then show ?case using 0 by (simp add: drr_ok_def combo_deficit_def)
next
  case (Suc n)
  obtain ws1 st1 where r: "drr_run ts combo n [] = (ws1, st1)" by fastforce
  obtain ordered st2 where a: "applyDrr ts combo st1 = (ordered, st2)" by fastforce
  have ws: "ws = ws1 @ [executionKey (hd ordered)]" "st = st2" using Suc.prems r a by auto
  note IH = Suc.IH [OF r]
  note rd = applyDrr_round [OF assms(1,2) conjunct1 [OF IH] a]
  have "combo_deficit combo st (executionKey t) = of_nat (Suc n) * quantum ts t - of_nat (count_list ws (executionKey t))" if "t \<in> set ts" for t
    using rd(3) [OF that] IH that by (auto simp: ws algebra_simps)
  then show ?case using rd(1,2) IH ws by auto
qed

lemma behind_bound:
  assumes "drr_ok ts f" "t \<in> set ts" "distinct ts" "2 \<le> length ts"
  shows "f (executionKey t) < of_nat (length ts) - 1"
proof -
  have "sum_list (map (\<lambda>t. f (executionKey t)) ts) = f (executionKey t) + sum_list (map (\<lambda>t. f (executionKey t)) (remove1 t ts))"
    using assms(2) by (simp add: sum_list_map_remove1)
  moreover have "sum_list (map (\<lambda>t. - 1 :: rat) (remove1 t ts)) < sum_list (map (\<lambda>t. f (executionKey t)) (remove1 t ts))"
  proof -
    have len: "remove1 t ts \<noteq> []" using assms(2,4) length_remove1 [of t ts] by (metis One_nat_def Suc_1 Suc_pred length_greater_0_conv length_pos_if_in_set list.size(3) not_less_eq_eq zero_le)
    have gt: "-1 < f (executionKey u)" if "u \<in> set (remove1 t ts)" for u using that assms(1) by (auto simp: drr_ok_def dest: notin_set_remove1)
    have "sum_list (map (\<lambda>t. - 1 :: rat) us) < sum_list (map (\<lambda>t. f (executionKey t)) us)" if "us \<noteq> []" "\<forall>u \<in> set us. -1 < f (executionKey u)" for us :: "target list"
      using that by (induction us rule: list_nonempty_induct) (auto intro: add_strict_mono)
    then show ?thesis using len gt by blast
  qed
  moreover have "sum_list (map (\<lambda>t. - 1 :: rat) (remove1 t ts)) = 1 - of_nat (length ts)"
    using assms(2,4) of_nat_diff [of 1 "length ts", where ?'a = rat] by (simp add: map_replicate_const sum_list_replicate length_remove1)
  ultimately show ?thesis using assms(1) by (simp add: drr_ok_def)
qed


section \<open>Selection\<close>

lemma filter_eligible_sub: "filter_eligible md now ts m = (es, m') \<Longrightarrow> distinct ts \<Longrightarrow> set es \<subseteq> set ts \<and> distinct es"
proof (induction md now ts m arbitrary: es m' rule: filter_eligible.induct)
  case (2 md now t ts m)
  obtain sat m1 where a: "(if conn t = [] then (False, m) else target_saturated md now t m) = (sat, m1)" by fastforce
  obtain es2 m2 where f: "filter_eligible md now ts m1 = (es2, m2)" by fastforce
  have "set es2 \<subseteq> set ts \<and> distinct es2" using 2(1) [OF a [symmetric] refl f] 2(3) by simp
  moreover have "es = (if sat then es2 else t # es2)" using 2(2) a f by simp
  ultimately show ?case using 2(3) by auto
qed simp

lemma filterEligible_sub:
  assumes "filterEligibleBySaturation ts model now m = (es, m')" "distinct ts" "ts \<noteq> []"
  shows "set es \<subseteq> set ts \<and> distinct es \<and> es \<noteq> []"
  using assms filter_eligible_sub [of "bareModelName model" now ts m]
  by (auto simp: filterEligibleBySaturation_def split: prod.splits if_splits)

lemma partition_caps_perm: "partition_caps caps now ts m = ((r, a), m') \<Longrightarrow> mset r + mset a = mset ts"
proof (induction caps now ts m arbitrary: r a m' rule: partition_caps.induct)
  case (2 caps now t ts m)
  show ?case
  proof (cases "resolveConnectionCap (conn t) (Some caps)")
    case None
    obtain r1 a1 m1 where p: "partition_caps caps now ts m = ((r1, a1), m1)" by (metis surj_pair)
    then show ?thesis using 2(1) [OF None p] 2(3) None by auto
  next
    case (Some cap)
    obtain n m1 where g: "getInflight (conn t) now m = (n, m1)" by fastforce
    obtain r1 a1 m2 where p: "partition_caps caps now ts m1 = ((r1, a1), m2)" by (metis surj_pair)
    then show ?thesis using 2(2) [OF Some g [symmetric] refl p] 2(3) Some g by (auto split: if_splits)
  qed
qed simp

lemma partitionByConcurrencyCap_perm:
  assumes "partitionByConcurrencyCap ts caps now m = ((r, a), m')" "ts \<noteq> []"
  shows "mset r + mset a = mset ts \<and> r \<noteq> []"
  using assms partition_caps_perm [of _ now ts m]
  by (fastforce simp: partitionByConcurrencyCap_def split: option.splits if_splits prod.splits)

lemma applyDrr_perm:
  assumes "applyDrr ts combo st = (ordered, st')" "distinct (map executionKey ts)" "ts \<noteq> []"
  shows "mset ordered = mset ts"
proof (cases "length ts \<le> 1")
  case False
  obtain d st1 where g: "getDrrDeficits combo st = (d, st1)" by fastforce
  define w where "w = pick (credit ts d) (tl ts) (hd ts)"
  have "insert (hd ts) (set (tl ts)) = set ts" using assms(3) by (cases ts) auto
  then have w: "w \<in> set ts" using pick_max(1) [of "credit ts d" "tl ts" "hd ts"] by (simp add: w_def)
  have o: "ordered = w # filter (\<lambda>t. executionKey t \<noteq> executionKey w) ts"
    using assms(1) False g by (auto simp: applyDrr_def Let_def w_def)
  have "executionKey t \<noteq> executionKey w \<longleftrightarrow> t \<noteq> w" if "t \<in> set ts" for t
    using assms(2) w that by (auto simp: distinct_map dest: inj_onD)
  then have "filter (\<lambda>t. executionKey t \<noteq> executionKey w) ts = filter (\<lambda>t. t \<noteq> w) ts" by (intro filter_cong) auto
  also have "\<dots> = remove1 w ts" using assms(2) by (simp add: distinct_remove1_removeAll removeAll_filter_not_eq distinct_map) metis
  finally show ?thesis using o w by simp
qed (use assms in \<open>simp add: applyDrr_def\<close>)


lemma select_parts:
  assumes "selectQuotaShareTarget ts combo model now caps s = (r, s')" "ts \<noteq> []" "distinct (map executionKey ts)"
  shows "mset (orderedTargets r) = mset ts \<and> winner r = Some (hd (orderedTargets r))"
proof -
  have dts: "distinct ts" using assms(3) by (simp add: distinct_map)
  obtain eligible bs where e: "filterEligibleBySaturation ts model now (qs_buckets s) = (eligible, bs)" by fastforce
  obtain room cap f1 where p: "partitionByConcurrencyCap eligible caps now (flights s) = ((room, cap), f1)" by (metis surj_pair)
  obtain ordered dr where a: "applyDrr room combo (drrState s) = (ordered, dr)" by fastforce
  obtain swap f2 where sw: "(if length ordered \<ge> 2 then pickByInflightP2C (ordered ! 0) (ordered ! 1) now f1 else (False, f1)) = (swap, f2)" by fastforce
  define demoted where "demoted = filter (\<lambda>t. t \<notin> set eligible) ts"
  note el = filterEligible_sub [OF e dts assms(2)]
  have pp: "mset room + mset cap = mset eligible" "room \<noteq> []" using partitionByConcurrencyCap_perm [OF p] el by auto
  have sub: "set room \<subseteq> set ts"
  proof
    fix t assume "t \<in> set room"
    then have "t \<in># mset room + mset cap" by simp
    then show "t \<in> set ts" unfolding pp(1) using el by auto
  qed
  have "distinct room" using el pp(1) by (metis distinct_append mset_append mset_eq_imp_distinct_iff)
  then have dk: "distinct (map executionKey room)" using assms(3) sub by (auto simp: distinct_map intro: inj_on_subset)
  have om: "mset ordered = mset room" by (rule applyDrr_perm [OF a dk pp(2)])
  then have one: "ordered \<noteq> []" using pp(2) by auto
  have two: "swap \<Longrightarrow> length ordered \<ge> 2" using sw by (auto split: if_splits)
  have r: "winner r = Some (if swap then ordered ! 1 else ordered ! 0)"
    "orderedTargets r = (if swap then ordered ! 1 else ordered ! 0) #
       (if swap then ordered ! 0 # drop 2 ordered else drop 1 ordered) @ cap @ demoted"
    using assms(1,2) by (auto simp: selectQuotaShareTarget_def e p a sw demoted_def Let_def)
  have "mset ((if swap then ordered ! 1 else ordered ! 0) # (if swap then ordered ! 0 # drop 2 ordered else drop 1 ordered)) = mset ordered"
  proof (cases swap)
    case True
    then obtain x y zs where "ordered = x # y # zs" using two by (metis One_nat_def Suc_1 Suc_le_length_iff)
    then show ?thesis using True by (simp add: add_mset_commute)
  next
    case False
    then show ?thesis using one by (cases ordered) simp_all
  qed
  moreover define front where "front = (if swap then ordered ! 1 else ordered ! 0) # (if swap then ordered ! 0 # drop 2 ordered else drop 1 ordered)"
  ultimately have "mset front = mset room" using om by simp
  moreover have "orderedTargets r = front @ cap @ demoted" using r(2) by (simp add: front_def)
  ultimately have "mset (orderedTargets r) = mset eligible + mset demoted" using pp(1) by (simp add: add.assoc [symmetric])
  also have "\<dots> = mset ts"
  proof -
    have "mset (eligible @ demoted) = mset ts"
      using el dts by (subst set_eq_iff_mset_eq_distinct [symmetric]) (auto simp: demoted_def)
    then show ?thesis by simp
  qed
  finally show ?thesis using r by simp
qed

section \<open>The in-flight counter\<close>

lemma lastIndexWhere_None: "lastIndexWhere P xs = None \<longleftrightarrow> (\<forall>x \<in> set xs. \<not> P x)"
  by (induction xs) (auto split: option.splits)

lemma jget_pruned: "jmap_ok m \<Longrightarrow> jget (pruneExpired now m) c =
   (case jget m c of Some ls \<Rightarrow> if retireExpired now ls = [] then None else Some (retireExpired now ls) | None \<Rightarrow> None)"
proof (induction m)
  case (Cons p m)
  obtain k ls where p: "p = (k, ls)" by fastforce
  have IH: "jget (pruneExpired now m) c =
    (case jget m c of Some ls \<Rightarrow> if retireExpired now ls = [] then None else Some (retireExpired now ls) | None \<Rightarrow> None)"
    using Cons by (simp add: jmap_ok_def)
  have "k \<notin> fst ` set m" using Cons.prems p by (simp add: jmap_ok_def)
  then have "jget m k = None" by (simp add: jget_None)
  then show ?case using IH by (auto simp: pruneExpired_def p)
qed (simp add: pruneExpired_def)

lemma getInflight_count: "fst (getInflight c now m) = (if c = [] then 0 else length (retireExpired now (leases_of m c)))"
  by (simp add: getInflight_def leases_of_def retireExpired_def split: option.split)

lemma retire_idem [simp]: "retireExpired now (retireExpired now ls) = retireExpired now ls"
  by (simp add: retireExpired_def)

lemma leases_pruned: "jmap_ok m \<Longrightarrow> leases_of (pruneExpired now m) c = retireExpired now (leases_of m c)"
  by (simp add: leases_of_def jget_pruned retireExpired_def split: option.split)

lemma leases_jset [simp]: "leases_of (jset c ls m) c' = (if c' = c then ls else leases_of m c')"
  by (simp add: leases_of_def)

lemma leases_jdel [simp]: "leases_of (jdel c m) c' = (if c' = c then [] else leases_of m c')"
  by (simp add: leases_of_def)

text \<open>What an increment records for a connection with room.\<close>

lemma increment_leases:
  assumes "jmap_ok m" "cid \<noteq> []" "fst (getInflight cid now m) < MAX_LEASES_PER_CONNECTION"
  shows "leases_of (snd (incrementInflight cid leaseMs now m)) c =
      retireExpired now (leases_of m c) @ (if c = cid then [now + leaseMs] else [])"
    "fst (incrementInflight cid leaseMs now m) = fst (getInflight cid now m) + 1"
    "jget (snd (incrementInflight cid leaseMs now m)) cid = Some (retireExpired now (leases_of m cid) @ [now + leaseMs])"
  using assms by (auto simp: incrementInflight_def Let_def leases_pruned getInflight_count)

text \<open>
  C15. Fair shares. For any number of rounds over the same weighted targets, every target has been
  chosen at most one time more than its exact share and its lag behind that share stays below the number
  of targets minus one, whatever the weights: shares are followed without drift.
\<close>

theorem drr_fair:
  assumes "distinct (map executionKey ts)" "2 \<le> length ts" "t \<in> set ts" "drr_run ts combo n [] = (ws, st)"
  shows "length ws = n \<and> of_nat (count_list ws (executionKey t)) < of_nat n * quantum ts t + 1 \<and>
    of_nat n * quantum ts t < of_nat (count_list ws (executionKey t)) + of_nat (length ts) - 1"
proof -
  note run = drr_run_ok [OF assms(1,2,4)]
  have ok: "drr_ok ts (combo_deficit combo st)" using run by blast
  have eq: "combo_deficit combo st (executionKey t) = of_nat n * quantum ts t - of_nat (count_list ws (executionKey t))"
    using run assms(3) by blast
  have "-1 < combo_deficit combo st (executionKey t)" using ok assms(3) by (simp add: drr_ok_def)
  moreover have "combo_deficit combo st (executionKey t) < of_nat (length ts) - 1"
    by (rule behind_bound [OF ok assms(3) _ assms(2)]) (use assms(1) in \<open>simp add: distinct_map\<close>)
  ultimately show ?thesis using run eq by simp
qed

definition qs_target :: "string \<Rightarrow> string \<Rightarrow> rat \<Rightarrow> target" where
  "qs_target k c w = \<lparr>executionKey = k, modelStr = ''m'', connectionId = Some c, weight = Fin w\<rparr>"

definition qs_targets :: "target list" where
  "qs_targets = [qs_target ''x'' ''c1'' 2, qs_target ''y'' ''c2'' 1]"

theorem drr_fair_witness:
  "fst (drr_run qs_targets ''combo'' 6 []) = [''x'', ''y'', ''x'', ''x'', ''y'', ''x''] \<and>
   of_nat (count_list (fst (drr_run qs_targets ''combo'' 6 [])) ''x'') < 6 * quantum qs_targets (qs_target ''x'' ''c1'' 2) + 1"
proof -
  have run: "fst (drr_run qs_targets ''combo'' 6 []) = [''x'', ''y'', ''x'', ''x'', ''y'', ''x'']" by code_simp
  have d: "distinct (map executionKey qs_targets)" "2 \<le> length qs_targets" "qs_target ''x'' ''c1'' 2 \<in> set qs_targets"
    by (simp_all add: qs_targets_def qs_target_def)
  have k: "executionKey (qs_target ''x'' ''c1'' 2) = ''x''" by (simp add: qs_target_def)
  obtain ws st where e: "drr_run qs_targets ''combo'' 6 [] = (ws, st)" by fastforce
  show ?thesis using drr_fair [OF d e] run unfolding k by (simp add: e)
qed

text \<open>
  A selection never loses a target. Saturated and busy connections are only moved to the back: the
  dispatch list is a rearrangement of the given targets with the winner first, so a quota-share combo
  is never blocked by these gates.
\<close>

theorem selection_is_permutation:
  assumes "distinct (map executionKey ts)" "ts \<noteq> []"
  shows "let r = fst (selectQuotaShareTarget ts combo model now caps s) in
    mset (orderedTargets r) = mset ts \<and> winner r = Some (hd (orderedTargets r))"
proof -
  obtain r s' where r: "selectQuotaShareTarget ts combo model now caps s = (r, s')" by fastforce
  show ?thesis using select_parts [OF r assms(2,1)] by (simp add: r)
qed

definition qs_start :: qs_state where
  "qs_start = \<lparr>flights = [(''c1'', [500])], drrState = [], qs_buckets = bm_empty\<rparr>"

theorem selection_is_permutation_witness:
  "map executionKey (orderedTargets (fst (selectQuotaShareTarget qs_targets ''combo'' ''p/m'' 10 (Some [(''c1'', Some (Fin 1))]) qs_start))) = [''y'', ''x''] \<and>
   mset (orderedTargets (fst (selectQuotaShareTarget qs_targets ''combo'' ''p/m'' 10 (Some [(''c1'', Some (Fin 1))]) qs_start))) = mset qs_targets"
proof -
  have d: "distinct (map executionKey qs_targets)" "qs_targets \<noteq> []" by (simp_all add: qs_targets_def qs_target_def)
  have "map executionKey (orderedTargets (fst (selectQuotaShareTarget qs_targets ''combo'' ''p/m'' 10 (Some [(''c1'', Some (Fin 1))]) qs_start))) = [''y'', ''x'']"
    by code_simp
  then show ?thesis using selection_is_permutation [OF d, of "''combo''" "''p/m''" 10 "Some [(''c1'', Some (Fin 1))]" qs_start] by (simp add: Let_def)
qed

text \<open>
  Taking and returning a slot at the same instant is a round trip: it leaves the number of requests
  in flight of every connection as it was.
\<close>

theorem inflight_roundtrip:
  assumes "jmap_ok m" "0 < leaseMs" "fst (getInflight cid now m) < MAX_LEASES_PER_CONNECTION"
  shows "fst (getInflight c now (decrementInflight cid now (snd (incrementInflight cid leaseMs now m)))) = fst (getInflight c now m)"
proof (cases "cid = []")
  case True
  then show ?thesis by (simp add: incrementInflight_def decrementInflight_def)
next
  case False
  note inc = increment_leases [OF assms(1) False assms(3), of leaseMs]
  define ls where "ls = retireExpired now (leases_of m cid)"
  define m1 where "m1 = snd (incrementInflight cid leaseMs now m)"
  have "lastIndexWhere (\<lambda>x. x \<le> now) (ls @ [now + leaseMs]) = None"
    using assms(2) by (auto simp: lastIndexWhere_None ls_def retireExpired_def)
  then have "decrementInflight cid now m1 = (if ls = [] then jdel cid m1 else jset cid ls m1)"
    using False inc(3) by (simp add: decrementInflight_def Let_def m1_def [symmetric] ls_def [symmetric]) (simp add: ls_def retireExpired_def)
  then have "leases_of (decrementInflight cid now m1) c = retireExpired now (leases_of m c)"
    using inc(1) [of c] by (auto simp: m1_def [symmetric] ls_def)
  then show ?thesis by (simp add: getInflight_count m1_def)
qed

theorem inflight_roundtrip_witness:
  "fst (getInflight ''c'' 5 (decrementInflight ''c'' 5 (snd (incrementInflight ''c'' 100 5 [(''c'', [3, 9])])))) = 1"
  using inflight_roundtrip [of "[(''c'', [3, 9])]" 100 "''c''" 5 "''c''"]
  by (simp add: jmap_ok_def getInflight_count leases_of_def retireExpired_def MAX_LEASES_PER_CONNECTION_def)

section \<open>A late release\<close>

text \<open>
  \<^verbatim>\<open>decrementInflight\<close> retires an expired lease first when a request has outlived its own. The callback of
  \<^verbatim>\<open>selectQuotaShareTarget\<close> calls it with the clock of the selection, to which no lease looks expired: here
  a first request selected at 0 settles at 130000, its release retires the lease of the second one,
  and the connection counts as idle while that request still runs.
\<close>

lemma late_release_undercounts:
  "fst (getInflight ''c'' 130000 (decrementInflight ''c'' 0
     (snd (incrementInflight ''c'' DEFAULT_LEASE_MS 119000 (snd (incrementInflight ''c'' DEFAULT_LEASE_MS 0 [])))))) = 0 \<and>
   fst (getInflight ''c'' 130000 (decrementInflight ''c'' 130000
     (snd (incrementInflight ''c'' DEFAULT_LEASE_MS 119000 (snd (incrementInflight ''c'' DEFAULT_LEASE_MS 0 [])))))) = 1"
  by code_simp

end
