(* ===== verification/Fair_Share.thy ===== *)
theory Fair_Share
  imports Js_Prelude
begin

text \<open>
  The quota decision of \<^verbatim>\<open>src/lib/quota/fairShare.ts\<close>: one API key against all dimensions of a quota pool.
  Amounts are finite numbers; a policy read from the database may be outside the three known ones.
\<close>

section \<open>Types\<close>

datatype policy = Hard | Soft | Burst | Unknown_policy string

record dimension =
  d_poolId :: string
  d_unit :: string
  d_window :: string
  d_limit :: rat
  consumedTotal :: rat
  globalUsedPercent :: rat

record allocation =
  al_weight :: rat
  capValue :: "rat option"
  capUnit :: "string option"
  al_policy :: policy

record fair_input =
  dimensions :: "dimension list"
  allocation :: allocation
  consumedByThisKey :: "(string, rat) jmap"
  saturationThreshold :: rat

datatype block_reason = Fair_share | Cap_absolute | Global_saturated

datatype decision = Allow bool | Block block_reason

definition dimensionKeyString :: "dimension \<Rightarrow> string" where
  "dimensionKeyString d = d_poolId d @ '':'' @ d_unit d @ '':'' @ d_window d"

definition normalizePolicy :: "policy \<Rightarrow> policy" where
  "normalizePolicy p = (if p \<in> {Hard, Soft, Burst} then p else Hard)"

section \<open>The decision\<close>

definition consumed_in :: "fair_input \<Rightarrow> dimension \<Rightarrow> rat" where
  "consumed_in i d = (case jget (consumedByThisKey i) (dimensionKeyString d) of Some c \<Rightarrow> c | None \<Rightarrow> 0)"

definition fair_share_of :: "fair_input \<Rightarrow> dimension \<Rightarrow> rat" where
  "fair_share_of i d = al_weight (allocation i) / 100 * d_limit d"

definition cap_reached :: "fair_input \<Rightarrow> dimension \<Rightarrow> bool" where
  "cap_reached i d =
     (case capValue (allocation i) of
        None \<Rightarrow> False
      | Some c \<Rightarrow> capUnit (allocation i) = Some (d_unit d) \<and> consumed_in i d \<ge> c)"

text \<open>The loop over the dimensions; the accumulator is \<^verbatim>\<open>anyPenalized\<close>.\<close>

fun decide_loop :: "fair_input \<Rightarrow> policy \<Rightarrow> dimension list \<Rightarrow> bool \<Rightarrow> decision" where
  "decide_loop i pol [] penalized = Allow penalized"
| "decide_loop i pol (d # ds) penalized =
     (if cap_reached i d then Block Cap_absolute
      else if consumedTotal d \<ge> d_limit d then Block Global_saturated
      else if globalUsedPercent d \<ge> saturationThreshold i then
        (case pol of
           Hard \<Rightarrow> if consumed_in i d \<ge> fair_share_of i d then Block Fair_share else decide_loop i pol ds penalized
         | Soft \<Rightarrow> decide_loop i pol ds (penalized \<or> consumed_in i d \<ge> fair_share_of i d)
         | _ \<Rightarrow> decide_loop i pol ds penalized)
      else
        (case pol of
           Hard \<Rightarrow> if consumed_in i d \<ge> d_limit d then Block Global_saturated else decide_loop i pol ds penalized
         | Soft \<Rightarrow> decide_loop i pol ds (penalized \<or> consumed_in i d \<ge> fair_share_of i d)
         | _ \<Rightarrow> decide_loop i pol ds penalized))"

definition decideFairShare :: "fair_input \<Rightarrow> decision" where
  "decideFairShare i =
     (if dimensions i = [] then Allow False
      else decide_loop i (normalizePolicy (al_policy (allocation i))) (dimensions i) False)"

section \<open>The specification\<close>

text \<open>What blocks in one dimension, and the order of blame: the first dimension that blocks decides.\<close>

definition strict :: "fair_input \<Rightarrow> dimension \<Rightarrow> bool" where
  "strict i d \<longleftrightarrow> globalUsedPercent d \<ge> saturationThreshold i"

definition violation :: "fair_input \<Rightarrow> policy \<Rightarrow> dimension \<Rightarrow> block_reason option" where
  "violation i pol d =
     (if cap_reached i d then Some Cap_absolute
      else if consumedTotal d \<ge> d_limit d then Some Global_saturated
      else if pol = Hard \<and> strict i d \<and> consumed_in i d \<ge> fair_share_of i d then Some Fair_share
      else if pol = Hard \<and> \<not> strict i d \<and> consumed_in i d \<ge> d_limit d then Some Global_saturated
      else None)"

lemma decide_loop_spec:
  assumes "pol \<in> {Hard, Soft, Burst}"
  shows "decide_loop i pol ds penalized =
    (case find (\<lambda>d. violation i pol d \<noteq> None) ds of
       Some d \<Rightarrow> Block (the (violation i pol d))
     | None \<Rightarrow> Allow (penalized \<or> pol = Soft \<and> (\<exists>d \<in> set ds. consumed_in i d \<ge> fair_share_of i d)))"
proof (induction ds arbitrary: penalized)
  case (Cons d ds)
  show ?case
  proof (cases "violation i pol d")
    case None
    then have "decide_loop i pol (d # ds) penalized = decide_loop i pol ds (penalized \<or> pol = Soft \<and> consumed_in i d \<ge> fair_share_of i d)"
      using assms by (cases pol) (auto simp: violation_def strict_def split: if_splits)
    then show ?thesis unfolding Cons.IH using None by (auto split: option.splits)
  next
    case (Some b)
    then have "decide_loop i pol (d # ds) penalized = Block b"
      using assms by (cases pol) (auto simp: violation_def strict_def split: if_splits)
    then show ?thesis using Some by simp
  qed
qed simp

lemma normalizePolicy_known: "normalizePolicy p \<in> {Hard, Soft, Burst}"
  by (simp add: normalizePolicy_def)

lemma decideFairShare_spec:
  "decideFairShare i =
    (let pol = normalizePolicy (al_policy (allocation i)) in
     case find (\<lambda>d. violation i pol d \<noteq> None) (dimensions i) of
       Some d \<Rightarrow> Block (the (violation i pol d))
     | None \<Rightarrow> Allow (pol = Soft \<and> (\<exists>d \<in> set (dimensions i). consumed_in i d \<ge> fair_share_of i d)))"
  using decide_loop_spec [OF normalizePolicy_known, of i "al_policy (allocation i)" "dimensions i" False]
  by (auto simp: decideFairShare_def Let_def split: option.splits)

section \<open>Properties\<close>

text \<open>
  C23. The decision over all dimensions. A request is allowed exactly if in no dimension the absolute cap
  is reached, in every dimension the pool has headroom, and, unless the policy is soft or burst, the key is
  below its fair share where the pool is saturated and below the whole limit elsewhere. A policy that is
  none of the three known ones is enforced as hard. Being allowed with a penalty means the policy is soft and
  the fair share of some dimension is used up.
\<close>

theorem fair_share_decision:
  "((\<exists>p. decideFairShare i = Allow p) =
     (\<forall>d \<in> set (dimensions i). \<not> cap_reached i d \<and> consumedTotal d < d_limit d \<and>
        (al_policy (allocation i) \<in> {Soft, Burst} \<or>
         consumed_in i d < (if globalUsedPercent d \<ge> saturationThreshold i then fair_share_of i d else d_limit d)))) \<and>
   (decideFairShare i = Allow True \<longrightarrow>
     al_policy (allocation i) = Soft \<and> (\<exists>d \<in> set (dimensions i). consumed_in i d \<ge> fair_share_of i d))"
proof -
  define pol where "pol = normalizePolicy (al_policy (allocation i))"
  have known: "pol \<in> {Hard, Soft, Burst}" unfolding pol_def by (rule normalizePolicy_known)
  have hard: "pol = Hard \<longleftrightarrow> al_policy (allocation i) \<notin> {Soft, Burst}" "pol = Soft \<longleftrightarrow> al_policy (allocation i) = Soft"
    by (auto simp: pol_def normalizePolicy_def)
  have none: "violation i pol d = None \<longleftrightarrow> \<not> cap_reached i d \<and> consumedTotal d < d_limit d \<and>
        (al_policy (allocation i) \<in> {Soft, Burst} \<or>
         consumed_in i d < (if globalUsedPercent d \<ge> saturationThreshold i then fair_share_of i d else d_limit d))" for d
    using hard(1) by (auto simp: violation_def strict_def)
  have "(\<exists>p. decideFairShare i = Allow p) \<longleftrightarrow> (\<forall>d \<in> set (dimensions i). violation i pol d = None)"
  proof -
    have "(\<exists>p. decideFairShare i = Allow p) \<longleftrightarrow> find (\<lambda>d. violation i pol d \<noteq> None) (dimensions i) = None"
      unfolding decideFairShare_spec Let_def pol_def [symmetric] by (simp split: option.splits)
    then show ?thesis unfolding find_None_iff by (simp add: Ball_def)
  qed
  moreover have "decideFairShare i = Allow True \<Longrightarrow> pol = Soft \<and> (\<exists>d \<in> set (dimensions i). consumed_in i d \<ge> fair_share_of i d)"
    unfolding decideFairShare_spec Let_def pol_def [symmetric] by (auto split: option.splits)
  ultimately show ?thesis unfolding none hard(2) by blast
qed

definition demo_pool :: "policy \<Rightarrow> fair_input" where
  "demo_pool p = \<lparr>dimensions = [\<lparr>d_poolId = ''p'', d_unit = ''tokens'', d_window = ''5h'', d_limit = 100, consumedTotal = 70, globalUsedPercent = 7/10\<rparr>],
     allocation = \<lparr>al_weight = 50, capValue = None, capUnit = None, al_policy = p\<rparr>, consumedByThisKey = [(''p:tokens:5h'', 60)], saturationThreshold = 1/2\<rparr>"

theorem fair_share_decision_witness:
  "decideFairShare (demo_pool Soft) = Allow True \<and> decideFairShare (demo_pool (Unknown_policy ''x'')) = Block Fair_share \<and>
   (\<exists>d \<in> set (dimensions (demo_pool Soft)). consumed_in (demo_pool Soft) d \<ge> fair_share_of (demo_pool Soft) d)"
proof -
  have "decideFairShare (demo_pool Soft) = Allow True" "decideFairShare (demo_pool (Unknown_policy ''x'')) = Block Fair_share" by code_simp+
  then show ?thesis using fair_share_decision [of "demo_pool Soft"] by simp
qed

end
