(* ===== verification/Lockout_Policy.thy ===== *)
theory Lockout_Policy
  imports Js_Prelude Step_Systems "HOL-Library.Sublist"
begin

text \<open>
  Account lockout after failed attempts: \<^verbatim>\<open>src/domain/lockoutPolicy.ts\<close> with the rows of
  \<^verbatim>\<open>src/lib/db/domainState.ts\<close> it is saved in. Every operation says whether the database answers, since the
  code swallows database errors; a restart empties the cache and keeps the rows. The order of rows is not
  modelled. \<open>failed\<close> is a ghost log of all failed attempts.
\<close>

section \<open>State and operations\<close>

record lock_config =
  maxAttempts :: int
  lockoutDurationMs :: int
  attemptWindowMs :: int

definition DEFAULT_CONFIG :: lock_config where
  "DEFAULT_CONFIG = \<lparr>maxAttempts = 5, lockoutDurationMs = 15 * 60 * 1000, attemptWindowMs = 5 * 60 * 1000\<rparr>"

record lock_state =
  attempts :: "int list"
  lockedUntil :: "int option"

record lockout =
  lockoutCache :: "(string, lock_state) jmap"
  lockout_rows :: "(string, lock_state) jmap"
  failed :: "(string \<times> int) list"

definition no_lockouts :: lockout where
  "no_lockouts = \<lparr>lockoutCache = [], lockout_rows = [], failed = []\<rparr>"

definition saveLockoutState :: "string \<Rightarrow> lock_state \<Rightarrow> (string, lock_state) jmap \<Rightarrow> (string, lock_state) jmap" where
  "saveLockoutState i st rows = jset i st rows"

definition loadLockoutState :: "string \<Rightarrow> (string, lock_state) jmap \<Rightarrow> lock_state option" where
  "loadLockoutState i rows = jget rows i"

definition deleteLockoutState :: "string \<Rightarrow> (string, lock_state) jmap \<Rightarrow> (string, lock_state) jmap" where
  "deleteLockoutState i rows = jdel i rows"

definition loadAllLockedIdentifiers :: "int \<Rightarrow> (string, lock_state) jmap \<Rightarrow> (string \<times> int) list" where
  "loadAllLockedIdentifiers now rows =
     [(i, u). (i, st) \<leftarrow> rows, u \<leftarrow> (case lockedUntil st of Some u \<Rightarrow> [u] | None \<Rightarrow> []), u > now, i \<noteq> []]"

definition getState :: "bool \<Rightarrow> string \<Rightarrow> lockout \<Rightarrow> lock_state option \<times> lockout" where
  "getState up i s =
     (case jget (lockoutCache s) i of
        Some st \<Rightarrow> (Some st, s)
      | None \<Rightarrow>
          (case (if up then loadLockoutState i (lockout_rows s) else None) of
             Some st \<Rightarrow> (Some st, s\<lparr>lockoutCache := jset i st (lockoutCache s)\<rparr>)
           | None \<Rightarrow> (None, s)))"

definition persistState :: "bool \<Rightarrow> string \<Rightarrow> lock_state \<Rightarrow> lockout \<Rightarrow> lockout" where
  "persistState up i st s =
     s\<lparr>lockoutCache := jset i st (lockoutCache s),
       lockout_rows := (if up then saveLockoutState i st (lockout_rows s) else lockout_rows s)\<rparr>"

text \<open>The time stamp read as a condition: neither \<^verbatim>\<open>null\<close> nor zero.\<close>

definition until_set :: "lock_state \<Rightarrow> bool" where
  "until_set st \<longleftrightarrow> lockedUntil st \<notin> {None, Some 0}"

datatype lock_check = Locked int nat | Unlocked nat

definition checkLockout :: "lock_config \<Rightarrow> bool \<Rightarrow> string \<Rightarrow> int \<Rightarrow> lockout \<Rightarrow> lock_check \<times> lockout" where
  "checkLockout cfg up i now s =
     (case getState up i s of
        (None, s1) \<Rightarrow> (Unlocked 0, s1)
      | (Some st, s1) \<Rightarrow>
          if until_set st \<and> now < the (lockedUntil st)
          then (Locked (the (lockedUntil st) - now) (length (attempts st)), s1)
          else
            (let (st2, s2) = (if until_set st then (let c = \<lparr>attempts = [], lockedUntil = None\<rparr> in (c, persistState up i c s1)) else (st, s1));
                 st3 = st2\<lparr>attempts := filter (\<lambda>t. t > now - attemptWindowMs cfg) (attempts st2)\<rparr>
             in (Unlocked (length (attempts st3)), persistState up i st3 s2)))"

text \<open>The result is the remaining time when the identifier is now locked out.\<close>

definition recordFailedAttempt :: "lock_config \<Rightarrow> bool \<Rightarrow> string \<Rightarrow> int \<Rightarrow> lockout \<Rightarrow> int option \<times> lockout" where
  "recordFailedAttempt cfg up i now s =
     (let (found, s1) = getState up i s;
          st = (case found of Some st \<Rightarrow> st | None \<Rightarrow> \<lparr>attempts = [], lockedUntil = None\<rparr>);
          st1 = st\<lparr>attempts := filter (\<lambda>t. t > now - attemptWindowMs cfg) (attempts st) @ [now]\<rparr>;
          s2 = s1\<lparr>failed := failed s1 @ [(i, now)]\<rparr>
      in if int (length (attempts st1)) \<ge> maxAttempts cfg
         then (Some (lockoutDurationMs cfg), persistState up i (st1\<lparr>lockedUntil := Some (now + lockoutDurationMs cfg)\<rparr>) s2)
         else (None, persistState up i st1 s2))"

definition recordSuccess :: "bool \<Rightarrow> string \<Rightarrow> lockout \<Rightarrow> lockout" where
  "recordSuccess up i s =
     s\<lparr>lockoutCache := jdel i (lockoutCache s), lockout_rows := (if up then deleteLockoutState i (lockout_rows s) else lockout_rows s)\<rparr>"

definition forceUnlock :: "bool \<Rightarrow> string \<Rightarrow> lockout \<Rightarrow> lockout" where
  "forceUnlock up i s =
     s\<lparr>lockoutCache := jdel i (lockoutCache s), lockout_rows := (if up then deleteLockoutState i (lockout_rows s) else lockout_rows s)\<rparr>"

definition merge_row :: "string \<times> int \<Rightarrow> (string, lock_state) jmap \<Rightarrow> (string, lock_state) jmap" where
  "merge_row e c = (if jhas c (fst e) then c else jset (fst e) \<lparr>attempts = [], lockedUntil = Some (snd e)\<rparr> c)"

definition getLockedIdentifiers :: "bool \<Rightarrow> int \<Rightarrow> lockout \<Rightarrow> (string \<times> int \<times> int) list \<times> lockout" where
  "getLockedIdentifiers up now s =
     (let c = (if up then fold merge_row (loadAllLockedIdentifiers now (lockout_rows s)) (lockoutCache s) else lockoutCache s) in
      ([(i, the (lockedUntil st), the (lockedUntil st) - now). (i, st) \<leftarrow> c, until_set st \<and> the (lockedUntil st) > now],
       s\<lparr>lockoutCache := c\<rparr>))"

section \<open>Histories\<close>

record lk_run =
  store :: lockout
  lk_now :: int

datatype lk_event =
  L_check bool string int | L_fail bool string int | L_success bool string | L_unlock bool string | L_list bool int | L_restart

fun lk_do :: "lock_config \<Rightarrow> lk_event \<Rightarrow> lk_run \<Rightarrow> lk_run" where
  "lk_do cfg (L_check up i now) r = \<lparr>store = snd (checkLockout cfg up i now (store r)), lk_now = now\<rparr>"
| "lk_do cfg (L_fail up i now) r = \<lparr>store = snd (recordFailedAttempt cfg up i now (store r)), lk_now = now\<rparr>"
| "lk_do cfg (L_success up i) r = r\<lparr>store := recordSuccess up i (store r)\<rparr>"
| "lk_do cfg (L_unlock up i) r = r\<lparr>store := forceUnlock up i (store r)\<rparr>"
| "lk_do cfg (L_list up now) r = \<lparr>store = snd (getLockedIdentifiers up now (store r)), lk_now = now\<rparr>"
| "lk_do cfg L_restart r = r\<lparr>store := (store r)\<lparr>lockoutCache := []\<rparr>\<rparr>"

text \<open>Time does not run backwards, and the window for counting attempts is not empty.\<close>

definition lk_step :: "lock_config \<Rightarrow> lk_event \<Rightarrow> lk_run \<Rightarrow> lk_run \<Rightarrow> bool" where
  "lk_step cfg e r r' \<longleftrightarrow> 0 < attemptWindowMs cfg \<and> r' = lk_do cfg e r \<and> lk_now r \<le> lk_now r'"

text \<open>
  Events that must not end a lock of \<open>i\<close>: no success and no forced unlock of \<open>i\<close>; and either the database
  always answers or the process is not restarted.
\<close>

fun keeps_lock :: "bool \<Rightarrow> string \<Rightarrow> lk_event \<Rightarrow> bool" where
  "keeps_lock reliable i (L_check up j now) \<longleftrightarrow> up \<or> \<not> reliable"
| "keeps_lock reliable i (L_fail up j now) \<longleftrightarrow> up \<or> \<not> reliable"
| "keeps_lock reliable i (L_success up j) \<longleftrightarrow> j \<noteq> i"
| "keeps_lock reliable i (L_unlock up j) \<longleftrightarrow> j \<noteq> i"
| "keeps_lock reliable i (L_list up now) \<longleftrightarrow> True"
| "keeps_lock reliable i L_restart \<longleftrightarrow> reliable"

definition guarded_step :: "lock_config \<Rightarrow> bool \<Rightarrow> string \<Rightarrow> lk_event \<Rightarrow> lk_run \<Rightarrow> lk_run \<Rightarrow> bool" where
  "guarded_step cfg reliable i e r r' \<longleftrightarrow> lk_step cfg e r r' \<and> keeps_lock reliable i e"

section \<open>The states are justified by the log\<close>

lemma set_subseq: "subseq as bs \<Longrightarrow> set as \<subseteq> set bs"
  by (induction rule: list_emb.induct) auto


definition fails_of :: "(string \<times> int) list \<Rightarrow> string \<Rightarrow> int list" where
  "fails_of fs i = map snd (filter (\<lambda>p. fst p = i) fs)"

text \<open>The failures of \<open>i\<close> in the window that ends at \<open>t\<close>.\<close>

definition fail_count :: "lock_config \<Rightarrow> (string \<times> int) list \<Rightarrow> string \<Rightarrow> int \<Rightarrow> nat" where
  "fail_count cfg fs i t = length (filter (\<lambda>x. t - attemptWindowMs cfg < x \<and> x \<le> t) (fails_of fs i))"

definition justified :: "lock_config \<Rightarrow> int \<Rightarrow> (string \<times> int) list \<Rightarrow> string \<Rightarrow> lock_state \<Rightarrow> bool" where
  "justified cfg now fs i st \<longleftrightarrow>
     subseq (attempts st) (fails_of fs i) \<and>
     (\<forall>u. lockedUntil st = Some u \<longrightarrow> (\<exists>t \<le> now. u = t + lockoutDurationMs cfg \<and> maxAttempts cfg \<le> int (fail_count cfg fs i t)))"

definition lk_ok :: "lock_config \<Rightarrow> int \<Rightarrow> lockout \<Rightarrow> bool" where
  "lk_ok cfg now s \<longleftrightarrow>
     jmap_ok (lockoutCache s) \<and> jmap_ok (lockout_rows s) \<and> (\<forall>x \<in> set (failed s). snd x \<le> now) \<and>
     (\<forall>i st. jget (lockoutCache s) i = Some st \<or> jget (lockout_rows s) i = Some st \<longrightarrow> justified cfg now (failed s) i st)"

definition lk_inv :: "lock_config \<Rightarrow> lk_run \<Rightarrow> bool" where
  "lk_inv cfg r \<longleftrightarrow> lk_ok cfg (lk_now r) (store r)"

lemma fails_of_append [simp]: "fails_of (a @ b) i = fails_of a i @ fails_of b i"
  by (simp add: fails_of_def)

lemma fails_of_one [simp]: "fails_of [(j, t)] i = (if i = j then [t] else [])"
  by (simp add: fails_of_def)

lemma justified_later:
  assumes "justified cfg c fs i st" "c \<le> now" shows "justified cfg now (fs @ gs) i st"
proof -
  have "fail_count cfg fs i t \<le> fail_count cfg (fs @ gs) i t" for t by (simp add: fail_count_def)
  then have "maxAttempts cfg \<le> int (fail_count cfg (fs @ gs) i t)" if "maxAttempts cfg \<le> int (fail_count cfg fs i t)" for t
    using that by (meson of_nat_mono order_trans)
  moreover have "subseq (attempts st) (fails_of (fs @ gs) i)"
    using assms(1) unfolding justified_def fails_of_append by (blast intro: subseq_rev_drop_many)
  ultimately show ?thesis using assms unfolding justified_def by (meson order_trans)
qed

lemma lk_ok_later:
  assumes "lk_ok cfg c s" "c \<le> now" shows "lk_ok cfg now s"
  using assms justified_later [of cfg c "failed s" _ _ now "[]"] unfolding lk_ok_def by fastforce

lemma lk_ok_failed:
  assumes "lk_ok cfg now s" shows "lk_ok cfg now (s\<lparr>failed := failed s @ [(i, now)]\<rparr>)"
  using assms justified_later [of cfg now "failed s" _ _ now "[(i, now)]"] by (auto simp: lk_ok_def)

lemma getState_ok:
  assumes "lk_ok cfg now s" "getState up i s = (f, s1)"
  shows "lk_ok cfg now s1" "failed s1 = failed s" "f = Some st \<Longrightarrow> justified cfg now (failed s) i st"
  using assms by (auto simp: getState_def loadLockoutState_def lk_ok_def split: option.splits if_splits)

lemma persistState_ok:
  assumes "lk_ok cfg now s" "justified cfg now (failed s) i st" shows "lk_ok cfg now (persistState up i st s)"
  using assms by (auto simp: persistState_def saveLockoutState_def lk_ok_def split: if_splits)

lemma justified_none: "subseq as (fails_of fs i) \<Longrightarrow> justified cfg now fs i \<lparr>attempts = as, lockedUntil = None\<rparr>"
  by (simp add: justified_def)

lemma checkLockout_ok:
  assumes "lk_ok cfg now s" shows "lk_ok cfg now (snd (checkLockout cfg up i now s))"
proof -
  obtain f s1 where g: "getState up i s = (f, s1)" by fastforce
  note g' = getState_ok [OF assms g]
  show ?thesis
  proof (cases f)
    case (Some st)
    note j = g'(3) [OF Some]
    let ?st = "st\<lparr>attempts := filter (\<lambda>t. t > now - attemptWindowMs cfg) (attempts st)\<rparr>"
    have "subseq (filter P (attempts st)) (fails_of (failed s) i)" for P
      using j unfolding justified_def by (meson subseq_filter_left subseq_order.order_trans)
    then have "justified cfg now (failed s) i ?st" using j by (simp add: justified_def)
    then have 1: "lk_ok cfg now (persistState up i ?st s1)" using g' by (intro persistState_ok) simp_all
    have e: "justified cfg now (failed s) i \<lparr>attempts = [], lockedUntil = None\<rparr>" by (rule justified_none) simp
    have 2: "lk_ok cfg now (persistState up i \<lparr>attempts = [], lockedUntil = None\<rparr> s1)"
      using g' e by (intro persistState_ok) simp_all
    have "lk_ok cfg now (persistState up i \<lparr>attempts = [], lockedUntil = None\<rparr> (persistState up i \<lparr>attempts = [], lockedUntil = None\<rparr> s1))"
      by (rule persistState_ok [OF 2]) (use e g'(2) in \<open>simp add: persistState_def\<close>)
    then show ?thesis using g g'(1) 1 Some by (simp add: checkLockout_def Let_def)
  qed (use g g' in \<open>simp add: checkLockout_def\<close>)
qed

text \<open>The attempts kept are failures of the window, so their number is at most the count of the log.\<close>

lemma kept_le_count:
  assumes "subseq as (fails_of fs i)" "\<And>x. x \<in> set (fails_of fs i) \<Longrightarrow> x \<le> now" "0 < attemptWindowMs cfg"
  shows "length (filter (\<lambda>t. t > now - attemptWindowMs cfg) as @ [now]) \<le> fail_count cfg (fs @ [(i, now)]) i now"
proof -
  let ?P = "\<lambda>x. now - attemptWindowMs cfg < x \<and> x \<le> now"
  have "x \<le> now" if "x \<in> set as" for x using assms(2) set_subseq [OF assms(1)] that by blast
  then have "filter (\<lambda>t. t > now - attemptWindowMs cfg) as = filter ?P as" by (auto intro: filter_cong)
  moreover have "subseq (filter ?P as) (filter ?P (fails_of fs i))" using assms(1) by (rule subseq_filter)
  ultimately have "length (filter (\<lambda>t. t > now - attemptWindowMs cfg) as) \<le> length (filter ?P (fails_of fs i))"
    using list_emb_length [of "(=)" "filter ?P as" "filter ?P (fails_of fs i)"] by simp
  then show ?thesis using assms(3) by (simp add: fail_count_def)
qed

lemma recordFailedAttempt_ok:
  assumes "lk_ok cfg now s" "0 < attemptWindowMs cfg" shows "lk_ok cfg now (snd (recordFailedAttempt cfg up i now s))"
proof -
  obtain f s1 where g: "getState up i s = (f, s1)" by fastforce
  note g' = getState_ok [OF assms(1) g]
  define st where "st = (case f of Some st \<Rightarrow> st | None \<Rightarrow> \<lparr>attempts = [], lockedUntil = None\<rparr>)"
  define as where "as = filter (\<lambda>t. t > now - attemptWindowMs cfg) (attempts st) @ [now]"
  define s2 where "s2 = s1\<lparr>failed := failed s1 @ [(i, now)]\<rparr>"
  have j: "justified cfg now (failed s) i st" using g'(3) by (auto simp: st_def justified_none split: option.split)
  have sub: "subseq (attempts st) (fails_of (failed s) i)" using j by (simp add: justified_def)
  have ok2: "lk_ok cfg now s2" unfolding s2_def by (rule lk_ok_failed [OF g'(1)])
  have f2: "failed s2 = failed s @ [(i, now)]" by (simp add: s2_def g'(2))
  have "x \<le> now" if "x \<in> set (fails_of (failed s) i)" for x using that assms(1) by (auto simp: fails_of_def lk_ok_def)
  then have le: "length as \<le> fail_count cfg (failed s2) i now" unfolding as_def f2 using kept_le_count [OF sub _ assms(2)] by blast
  have "subseq (filter (\<lambda>t. t > now - attemptWindowMs cfg) (attempts st)) (fails_of (failed s) i)"
    using sub by (meson subseq_filter_left subseq_order.order_trans)
  then have sub2: "subseq as (fails_of (failed s2) i)" unfolding as_def f2 by (auto intro: list_emb_append_mono)
  have j2: "justified cfg now (failed s2) i (st\<lparr>attempts := as\<rparr>)"
    using sub2 justified_later [OF j order_refl, of "[(i, now)]"] unfolding f2 by (simp add: justified_def)
  have j3: "justified cfg now (failed s2) i (st\<lparr>attempts := as, lockedUntil := Some (now + lockoutDurationMs cfg)\<rparr>)"
    if "maxAttempts cfg \<le> int (length as)"
    using sub2 le that by (auto simp: justified_def)
  have "recordFailedAttempt cfg up i now s =
    (if int (length as) \<ge> maxAttempts cfg
     then (Some (lockoutDurationMs cfg), persistState up i (st\<lparr>attempts := as, lockedUntil := Some (now + lockoutDurationMs cfg)\<rparr>) s2)
     else (None, persistState up i (st\<lparr>attempts := as\<rparr>) s2))"
    by (simp add: recordFailedAttempt_def g Let_def st_def as_def s2_def)
  then show ?thesis using persistState_ok [OF ok2 j2] persistState_ok [OF ok2 j3] by simp
qed

text \<open>What listing adds to the cache.\<close>

lemma jget_merge: "jget (fold merge_row es c) i = (case jget c i of Some st \<Rightarrow> Some st | None \<Rightarrow> map_option (\<lambda>u. \<lparr>attempts = [], lockedUntil = Some u\<rparr>) (map_of es i))"
  by (induction es arbitrary: c) (auto simp: merge_row_def jhas_def simp del: jhas_iff split: option.splits)

lemma jmap_ok_merge: "jmap_ok c \<Longrightarrow> jmap_ok (fold merge_row es c)"
  by (induction es arbitrary: c) (auto simp: merge_row_def)

lemma loaded_row:
  assumes "map_of (loadAllLockedIdentifiers now rows) i = Some u" "jmap_ok rows"
  shows "\<exists>st. jget rows i = Some st \<and> lockedUntil st = Some u"
proof -
  have "(i, u) \<in> set (loadAllLockedIdentifiers now rows)" using assms(1) by (rule map_of_SomeD)
  then obtain st where "(i, st) \<in> set rows" "lockedUntil st = Some u"
    by (auto simp: loadAllLockedIdentifiers_def split: option.splits if_splits)
  then show ?thesis using jget_mem [OF assms(2)] by blast
qed

lemma listed_cache:
  assumes "jmap_ok (lockout_rows s)" "jget (lockoutCache (snd (getLockedIdentifiers up now s))) i = Some st"
  shows "jget (lockoutCache s) i = Some st \<or>
    jget (lockoutCache s) i = None \<and> attempts st = [] \<and> (\<exists>st'. jget (lockout_rows s) i = Some st' \<and> lockedUntil st' = lockedUntil st)"
  using assms(2) loaded_row [OF _ assms(1), of now i]
  by (fastforce simp: getLockedIdentifiers_def Let_def jget_merge split: option.splits if_splits)

lemma getLockedIdentifiers_ok:
  assumes "lk_ok cfg now s" shows "lk_ok cfg now (snd (getLockedIdentifiers up now s))"
proof -
  let ?s = "snd (getLockedIdentifiers up now s)"
  have fr: "lockout_rows ?s = lockout_rows s" "failed ?s = failed s" "jmap_ok (lockoutCache ?s)"
    using assms by (simp_all add: getLockedIdentifiers_def Let_def lk_ok_def jmap_ok_merge)
  have "justified cfg now (failed s) i st" if "jget (lockoutCache ?s) i = Some st" for i st
  proof -
    have r: "jmap_ok (lockout_rows s)" using assms by (simp add: lk_ok_def)
    from listed_cache [OF r that] assms show ?thesis by (auto simp: lk_ok_def justified_def)
  qed
  then show ?thesis using assms fr by (auto simp: lk_ok_def)
qed

lemma dropped_ok:
  assumes "lk_ok cfg now s"
  shows "lk_ok cfg now (recordSuccess up i s)" "lk_ok cfg now (forceUnlock up i s)" "lk_ok cfg now (s\<lparr>lockoutCache := []\<rparr>)"
  using assms by (auto simp: lk_ok_def recordSuccess_def forceUnlock_def deleteLockoutState_def split: if_splits)

lemma lk_step_inv:
  assumes "lk_step cfg e r r'" "lk_inv cfg r" shows "lk_inv cfg r'"
  using assms lk_ok_later [of cfg "lk_now r" "store r" "lk_now r'"]
  by (cases e) (auto simp: lk_step_def lk_inv_def checkLockout_ok recordFailedAttempt_ok getLockedIdentifiers_ok dropped_ok)

interpretation lk: step_system "lk_step cfg" "lk_inv cfg"
  by unfold_locales (rule lk_step_inv)

lemma no_lockouts_inv: "lk_inv cfg \<lparr>store = no_lockouts, lk_now = t\<rparr>"
  by (simp add: lk_inv_def lk_ok_def no_lockouts_def)

section \<open>A lock holds until its end\<close>

definition locks :: "int \<Rightarrow> lock_state \<Rightarrow> bool" where
  "locks u st \<longleftrightarrow> (\<exists>v. lockedUntil st = Some v \<and> u \<le> v)"

definition held_lock :: "bool \<Rightarrow> string \<Rightarrow> int \<Rightarrow> lockout \<Rightarrow> bool" where
  "held_lock reliable i u s \<longleftrightarrow>
     (\<forall>st. jget (lockoutCache s) i = Some st \<longrightarrow> locks u st) \<and> (jget (lockoutCache s) i = None \<longrightarrow> reliable) \<and>
     (reliable \<longrightarrow> (\<exists>st. jget (lockout_rows s) i = Some st \<and> locks u st))"

lemma getState_held:
  assumes "held_lock reliable i u s" "getState up j s = (f, s1)" "reliable \<longrightarrow> up"
  shows "held_lock reliable i u s1" "j = i \<Longrightarrow> \<exists>st. f = Some st \<and> locks u st"
  using assms by (cases "jget (lockoutCache s) j"; cases "jget (lockout_rows s) j";
      auto simp: held_lock_def getState_def loadLockoutState_def split: if_splits)+

lemma persistState_held:
  assumes "held_lock reliable i u s" "j = i \<Longrightarrow> locks u st" "reliable \<longrightarrow> up"
  shows "held_lock reliable i u (persistState up j st s)"
  using assms by (auto simp: held_lock_def persistState_def saveLockoutState_def split: if_splits)

lemma checkLockout_held:
  assumes "held_lock reliable i u s" "reliable \<longrightarrow> up" "now < u" "0 < u"
  shows "held_lock reliable i u (snd (checkLockout cfg up j now s))"
    and "j = i \<Longrightarrow> \<exists>rem n. fst (checkLockout cfg up j now s) = Locked rem n \<and> u - now \<le> rem"
proof -
  obtain f s1 where g: "getState up j s = (f, s1)" by fastforce
  note h = getState_held [OF assms(1) g assms(2)]
  have lock: "until_set st \<and> now < the (lockedUntil st)" if "locks u st" for st using that assms(3,4) by (auto simp: locks_def until_set_def)
  show "held_lock reliable i u (snd (checkLockout cfg up j now s))"
  proof (cases "j = i")
    case True
    then show ?thesis using h lock g by (auto simp: checkLockout_def)
  next
    case False
    then show ?thesis using h(1) g assms(2)
      by (auto simp: checkLockout_def Let_def split: option.split intro!: persistState_held)
  qed
  show "\<exists>rem n. fst (checkLockout cfg up j now s) = Locked rem n \<and> u - now \<le> rem" if "j = i"
  proof -
    obtain st where st: "f = Some st" "locks u st" using h(2) \<open>j = i\<close> by blast
    then have "fst (checkLockout cfg up j now s) = Locked (the (lockedUntil st) - now) (length (attempts st))"
      using lock [OF st(2)] g by (simp add: checkLockout_def)
    then show ?thesis using st(2) by (auto simp: locks_def)
  qed
qed

lemma recordFailedAttempt_held:
  assumes "held_lock reliable i u s" "reliable \<longrightarrow> up" "u \<le> now + lockoutDurationMs cfg"
  shows "held_lock reliable i u (snd (recordFailedAttempt cfg up j now s))"
proof -
  obtain f s1 where g: "getState up j s = (f, s1)" by fastforce
  note h = getState_held [OF assms(1) g assms(2)]
  have h1: "held_lock reliable i u (s1\<lparr>failed := x\<rparr>)" for x using h(1) by (simp add: held_lock_def)
  show ?thesis using h(2) assms(2,3) g unfolding recordFailedAttempt_def
    by (auto simp: Let_def locks_def intro!: persistState_held h1)
qed

lemma listed_held:
  assumes "held_lock reliable i u s" "jmap_ok (lockout_rows s)"
  shows "held_lock reliable i u (snd (getLockedIdentifiers up now s))"
proof -
  let ?s = "snd (getLockedIdentifiers up now s)"
  have rows: "lockout_rows ?s = lockout_rows s" by (simp add: getLockedIdentifiers_def Let_def)
  have "locks u st" if "jget (lockoutCache ?s) i = Some st" for st
    using listed_cache [OF assms(2) that] assms(1) unfolding held_lock_def locks_def by (metis option.inject)
  moreover have "reliable" if "jget (lockoutCache ?s) i = None"
    using that assms(1) by (auto simp: getLockedIdentifiers_def Let_def jget_merge held_lock_def split: option.splits if_splits)
  ultimately show ?thesis using assms(1) rows by (simp add: held_lock_def)
qed

text \<open>While the clock is before the end \<open>t0 + lockoutDurationMs\<close> of the lock set at \<open>t0\<close>.\<close>

definition guarded_inv :: "lock_config \<Rightarrow> bool \<Rightarrow> string \<Rightarrow> int \<Rightarrow> lk_run \<Rightarrow> bool" where
  "guarded_inv cfg reliable i t0 r \<longleftrightarrow>
     lk_inv cfg r \<and> t0 \<le> lk_now r \<and> 0 < t0 + lockoutDurationMs cfg \<and>
     (lk_now r < t0 + lockoutDurationMs cfg \<longrightarrow> held_lock reliable i (t0 + lockoutDurationMs cfg) (store r))"

lemma guarded_step_inv:
  assumes "guarded_step cfg reliable i e r r'" "guarded_inv cfg reliable i t0 r"
  shows "guarded_inv cfg reliable i t0 r'"
proof -
  let ?u = "t0 + lockoutDurationMs cfg"
  have st: "lk_step cfg e r r'" "keeps_lock reliable i e" using assms(1) by (simp_all add: guarded_step_def)
  have inv: "lk_inv cfg r'" using lk_step_inv st(1) assms(2) by (simp add: guarded_inv_def)
  have now: "lk_now r \<le> lk_now r'" "t0 \<le> lk_now r'" using st(1) assms(2) unfolding lk_step_def guarded_inv_def by linarith+
  have "held_lock reliable i ?u (store r')" if before: "lk_now r' < ?u"
  proof -
    have h: "held_lock reliable i ?u (store r)" and rows: "jmap_ok (lockout_rows (store r))" and pos: "0 < ?u"
      using assms(2) now before by (simp_all add: guarded_inv_def lk_inv_def lk_ok_def)
    show ?thesis
    proof (cases e)
      case (L_check up j t)
      then show ?thesis using checkLockout_held(1) [OF h] st before pos by (auto simp: lk_step_def)
    next
      case (L_fail up j t)
      then show ?thesis using recordFailedAttempt_held [OF h] st now(2) by (auto simp: lk_step_def)
    next
      case (L_list up t)
      then show ?thesis using listed_held [OF h rows] st by (auto simp: lk_step_def)
    qed (use h st in \<open>auto simp: lk_step_def held_lock_def recordSuccess_def forceUnlock_def deleteLockoutState_def\<close>)
  qed
  then show ?thesis using inv now assms(2) by (simp add: guarded_inv_def)
qed

interpretation lock: step_system "guarded_step cfg reliable i" "guarded_inv cfg reliable i t0"
  by unfold_locales (rule guarded_step_inv)

lemma lock_set:
  assumes "fst (recordFailedAttempt cfg up i t0 s) = Some d" "reliable \<longrightarrow> up"
  shows "held_lock reliable i (t0 + lockoutDurationMs cfg) (snd (recordFailedAttempt cfg up i t0 s))"
  using assms by (auto simp: recordFailedAttempt_def Let_def held_lock_def locks_def persistState_def saveLockoutState_def split: prod.splits if_splits)

section \<open>Properties\<close>

text \<open>
  C24. A lockout holds. Once a failed attempt has reported a lockout, every check of the identifier before the
  end of the lockout says so, with at least the time that is left, whatever happens in between: checks and
  further failures of the same identifier, all events of others, the monitoring list, and, as long as the
  database answers, restarts of the process. Without restarts it holds even if no database call succeeds.
\<close>

theorem lockout_holds:
  assumes "reaches (lk_step cfg) \<lparr>store = no_lockouts, lk_now = start\<rparr> r0" "lk_now r0 \<le> t0" "0 < attemptWindowMs cfg" "0 < t0 + lockoutDurationMs cfg"
    and "fst (recordFailedAttempt cfg up i t0 (store r0)) = Some d" "reliable \<longrightarrow> up"
    and "reaches (guarded_step cfg reliable i) (lk_do cfg (L_fail up i t0) r0) r" "lk_now r \<le> now" "now < t0 + lockoutDurationMs cfg" "reliable \<longrightarrow> up'"
  shows "\<exists>rem n. fst (checkLockout cfg up' i now (store r)) = Locked rem n \<and> t0 + lockoutDurationMs cfg - now \<le> rem"
proof -
  have "lk_inv cfg r0" by (rule lk.reaches_inv [OF assms(1) no_lockouts_inv])
  then have "lk_inv cfg (lk_do cfg (L_fail up i t0) r0)"
    by (rule lk_step_inv [where e = "L_fail up i t0", rotated]) (use assms(2,3) in \<open>simp add: lk_step_def\<close>)
  then have "guarded_inv cfg reliable i t0 (lk_do cfg (L_fail up i t0) r0)"
    using lock_set [OF assms(5,6)] assms(4) by (simp add: guarded_inv_def)
  then have "guarded_inv cfg reliable i t0 r" by (rule lock.reaches_inv [OF assms(7)])
  then have "held_lock reliable i (t0 + lockoutDurationMs cfg) (store r)" using assms(8,9) by (simp add: guarded_inv_def)
  then show ?thesis using checkLockout_held(2) assms(4,9,10) by blast
qed

text \<open>Two failures within ten milliseconds lock for a hundred; then the process restarts.\<close>

definition lk_demo_cfg :: lock_config where
  "lk_demo_cfg = \<lparr>maxAttempts = 2, lockoutDurationMs = 100, attemptWindowMs = 10\<rparr>"

definition lk_demo0 :: lk_run where
  "lk_demo0 = lk_do lk_demo_cfg (L_fail True ''u'' 1) \<lparr>store = no_lockouts, lk_now = 0\<rparr>"

definition lk_demo :: lk_run where
  "lk_demo = lk_do lk_demo_cfg L_restart (lk_do lk_demo_cfg (L_fail True ''u'' 2) lk_demo0)"

lemma lk_demo0_reached: "reaches (lk_step lk_demo_cfg) \<lparr>store = no_lockouts, lk_now = 0\<rparr> lk_demo0"
  by (rule reaches_one [where e = "L_fail True ''u'' 1"]) (simp add: lk_step_def lk_demo0_def lk_demo_cfg_def)

lemma lk_demo_guarded: "reaches (guarded_step lk_demo_cfg True ''u'') (lk_do lk_demo_cfg (L_fail True ''u'' 2) lk_demo0) lk_demo"
  by (rule reaches_one [where e = L_restart]) (simp add: guarded_step_def lk_step_def lk_demo_def lk_demo_cfg_def)

lemma lk_demo_reached: "reaches (lk_step lk_demo_cfg) \<lparr>store = no_lockouts, lk_now = 0\<rparr> lk_demo"
proof -
  have "lk_step lk_demo_cfg (L_fail True ''u'' 2) lk_demo0 (lk_do lk_demo_cfg (L_fail True ''u'' 2) lk_demo0)"
    by (simp add: lk_step_def lk_demo0_def lk_demo_cfg_def)
  moreover have "lk_step lk_demo_cfg L_restart (lk_do lk_demo_cfg (L_fail True ''u'' 2) lk_demo0) lk_demo"
    by (simp add: lk_step_def lk_demo_def lk_demo_cfg_def)
  ultimately show ?thesis using lk_demo0_reached by (meson reaches_event)
qed

theorem lockout_holds_witness:
  "\<exists>rem n. fst (checkLockout lk_demo_cfg True ''u'' 50 (store lk_demo)) = Locked rem n \<and> 52 \<le> rem"
proof -
  have 1: "lk_now lk_demo0 = 1" "lk_now lk_demo = 2" by (simp_all add: lk_demo_def lk_demo0_def)
  have "fst (recordFailedAttempt lk_demo_cfg True ''u'' 2 (store lk_demo0)) = Some 100" by code_simp
  from lockout_holds [OF lk_demo0_reached _ _ _ this _ lk_demo_guarded, of 50 True] 1
  show ?thesis by (simp add: lk_demo_cfg_def)
qed

text \<open>
  Nobody is locked out without cause. Along every history, with successes, unlocks, restarts and failing
  database calls, a check that reports a lockout is preceded by an instant less than the lockout duration ago at
  which at least \<^verbatim>\<open>maxAttempts\<close> failed attempts of the identifier fell into the window.
\<close>

theorem lockout_justified:
  assumes "reaches (lk_step cfg) \<lparr>store = no_lockouts, lk_now = start\<rparr> r" "lk_now r \<le> now"
    and "fst (checkLockout cfg up i now (store r)) = Locked rem n"
  shows "\<exists>t \<le> now. now < t + lockoutDurationMs cfg \<and> rem = t + lockoutDurationMs cfg - now \<and>
    maxAttempts cfg \<le> int (fail_count cfg (failed (store r)) i t)"
proof -
  have "lk_inv cfg r" by (rule lk.reaches_inv [OF assms(1) no_lockouts_inv])
  then have ok: "lk_ok cfg now (store r)" using lk_ok_later assms(2) by (simp add: lk_inv_def)
  obtain f s1 where g: "getState up i (store r) = (f, s1)" by fastforce
  obtain st where st: "f = Some st" "until_set st" "now < the (lockedUntil st)" "rem = the (lockedUntil st) - now"
    using assms(3) g by (auto simp: checkLockout_def Let_def split: option.splits if_splits)
  then show ?thesis using getState_ok(3) [OF ok g st(1)] by (auto simp: justified_def until_set_def)
qed

theorem lockout_justified_witness:
  "fst (checkLockout lk_demo_cfg True ''u'' 50 (store lk_demo)) = Locked 52 2 \<and>
   (\<exists>t. t \<le> 50 \<and> 50 < t + 100 \<and> 52 = t + 100 - 50 \<and> 2 \<le> int (fail_count lk_demo_cfg (failed (store lk_demo)) ''u'' t))"
proof -
  have c: "fst (checkLockout lk_demo_cfg True ''u'' 50 (store lk_demo)) = Locked 52 2" by code_simp
  have "lk_now lk_demo \<le> 50" by (simp add: lk_demo_def lk_demo0_def)
  from lockout_justified [OF lk_demo_reached this c] c show ?thesis by (auto simp: lk_demo_cfg_def)
qed

text \<open>
  A failed attempt during a lockout whose own window has passed is reported as not locked out, although the
  lockout is in force.
\<close>

lemma failure_during_lockout_says_unlocked:
  "fst (recordFailedAttempt lk_demo_cfg True ''u'' 50 (store lk_demo)) = None \<and>
   fst (checkLockout lk_demo_cfg True ''u'' 50 (snd (recordFailedAttempt lk_demo_cfg True ''u'' 50 (store lk_demo)))) = Locked 52 1"
  by code_simp

end
