(* ===== verification/Ip_Filter.thy ===== *)
theory Ip_Filter
  imports Js_Prelude Step_Systems "HOL-Library.Word"
begin

unbundle bit_operations_syntax

text \<open>
  The address filter of \<^verbatim>\<open>open-sse/services/ipFilter.ts\<close>: black and white lists with CIDR ranges and
  wildcards, temporary bans, and the configuration row shared with other processes. The bit operators of
  the language work on 32-bit words. The row is what \<^verbatim>\<open>JSON.parse\<close> makes of it, absent when there is none, the
  database fails or the text is malformed; list entries are strings. \<^verbatim>\<open>isIP\<close> of \<^verbatim>\<open>node:net\<close> is an argument.
\<close>

section \<open>Addresses and patterns\<close>

definition normalizeIP :: "string \<Rightarrow> string" where
  "normalizeIP ip = (if take 7 ip = ''::ffff:'' then js_trim (drop 7 ip) else js_trim ip)"

fun ip_octets :: "string list \<Rightarrow> 32 word \<Rightarrow> 32 word option" where
  "ip_octets [] num = Some num"
| "ip_octets (p # ps) num =
     (case parseInt10 p of
        None \<Rightarrow> None
      | Some n \<Rightarrow> if n < 0 \<or> n > 255 then None else ip_octets ps (push_bit 8 num OR word_of_int n))"

definition ipToNum :: "string \<Rightarrow> 32 word option" where
  "ipToNum ip = (let parts = js_split CHR ''.'' ip in if length parts \<noteq> 4 then None else ip_octets parts 0)"

text \<open>A shift by \<open>k\<close> uses the last five bits of \<open>k\<close>.\<close>

definition js_shl :: "32 word \<Rightarrow> int \<Rightarrow> 32 word" where
  "js_shl w k = push_bit (nat (k mod 32)) w"

definition matchesCIDR :: "string \<Rightarrow> string \<Rightarrow> bool" where
  "matchesCIDR ip cidr =
     (case js_split CHR ''/'' cidr of
        rng # bits # _ \<Rightarrow>
          (case parseInt10 bits of
             None \<Rightarrow> False
           | Some m \<Rightarrow>
               if m < 0 \<or> m > 32 then False
               else (case (ipToNum ip, ipToNum rng) of
                       (Some ipNum, Some rangeNum) \<Rightarrow>
                         (let maskBits = js_shl (- 1) (32 - m) in ipNum AND maskBits = rangeNum AND maskBits)
                     | _ \<Rightarrow> False))
      | _ \<Rightarrow> False)"

definition matchesWildcard :: "string \<Rightarrow> string \<Rightarrow> bool" where
  "matchesWildcard ip pat =
     (let ipParts = js_split CHR ''.'' ip; patParts = js_split CHR ''.'' pat in
      length ipParts = 4 \<and> length patParts = 4 \<and> list_all2 (\<lambda>part p. p = ''*'' \<or> part = p) ipParts patParts)"

definition entry_matches :: "string \<Rightarrow> string \<Rightarrow> bool" where
  "entry_matches ip e \<longleftrightarrow> CHR ''/'' \<in> set e \<and> matchesCIDR ip e \<or> CHR ''*'' \<in> set e \<and> matchesWildcard ip e"

definition matchesAny :: "string \<Rightarrow> string list \<Rightarrow> bool" where
  "matchesAny ip es \<longleftrightarrow> ip \<in> set es \<or> list_ex (entry_matches ip) es"

section \<open>State and operations\<close>

record ip_row =
  row_enabled :: bool
  row_mode :: "string option"
  row_blacklist :: "string list option"
  row_whitelist :: "string list option"

record ip_filter =
  ip_enabled :: bool
  ip_mode :: string
  blacklist :: "string list"
  whitelist :: "string list"
  tempBans :: "(string, int \<times> string) jmap"
  ip_row :: "ip_row option"

definition resetIPFilter :: "ip_filter \<Rightarrow> ip_filter" where
  "resetIPFilter f = f\<lparr>ip_enabled := False, ip_mode := ''blacklist'', blacklist := [], whitelist := [], tempBans := []\<rparr>"

text \<open>\<^verbatim>\<open>new Set(xs)\<close> and \<^verbatim>\<open>set.add(x)\<close> keep the order of first insertion.\<close>

definition set_add :: "string \<Rightarrow> string list \<Rightarrow> string list" where
  "set_add x xs = (if x \<in> set xs then xs else xs @ [x])"

definition new_Set :: "string list \<Rightarrow> string list" where
  "new_Set xs = fold set_add xs []"

definition ensureLoaded :: "ip_filter \<Rightarrow> ip_filter" where
  "ensureLoaded f =
     (case ip_row f of
        None \<Rightarrow> f
      | Some r \<Rightarrow>
          f\<lparr>ip_enabled := row_enabled r,
            ip_mode := (case row_mode r of Some m \<Rightarrow> m | None \<Rightarrow> ip_mode f),
            blacklist := new_Set (case row_blacklist r of Some l \<Rightarrow> l | None \<Rightarrow> []),
            whitelist := new_Set (case row_whitelist r of Some l \<Rightarrow> l | None \<Rightarrow> [])\<rparr>)"

definition ip_persist :: "bool \<Rightarrow> ip_filter \<Rightarrow> ip_filter" where
  "ip_persist up f =
     (if up then f\<lparr>ip_row := Some \<lparr>row_enabled = ip_enabled f, row_mode = Some (ip_mode f),
                                   row_blacklist = Some (blacklist f), row_whitelist = Some (whitelist f)\<rparr>\<rparr> else f)"

definition tempBanSweep :: "int \<Rightarrow> ip_filter \<Rightarrow> ip_filter" where
  "tempBanSweep now f = f\<lparr>tempBans := filter (\<lambda>(ip, until, reason). \<not> now \<ge> until) (tempBans f)\<rparr>"

record ip_update =
  u_enabled :: "bool option"
  u_mode :: "string option"
  u_blacklist :: "string list option"
  u_whitelist :: "string list option"

definition configureIPFilter :: "bool \<Rightarrow> ip_update \<Rightarrow> ip_filter \<Rightarrow> ip_filter" where
  "configureIPFilter up u f =
     (let g = ensureLoaded f in
      ip_persist up (g\<lparr>ip_enabled := (case u_enabled u of Some b \<Rightarrow> b | None \<Rightarrow> ip_enabled g),
        ip_mode := (case u_mode u of Some m \<Rightarrow> if m = [] then ip_mode g else m | None \<Rightarrow> ip_mode g),
        blacklist := (case u_blacklist u of Some l \<Rightarrow> new_Set l | None \<Rightarrow> blacklist g),
        whitelist := (case u_whitelist u of Some l \<Rightarrow> new_Set l | None \<Rightarrow> whitelist g)\<rparr>))"

datatype ip_verdict = Allowed | Banned string | Not_in_whitelist | Blacklisted

definition list_verdict :: "string \<Rightarrow> ip_filter \<Rightarrow> ip_verdict" where
  "list_verdict ip f =
     (if ip_mode f = ''whitelist'' then
        (if whitelist f = [] then Allowed else if \<not> matchesAny ip (whitelist f) then Not_in_whitelist else Allowed)
      else if ip_mode f = ''whitelist-priority'' then
        (if matchesAny ip (whitelist f) then Allowed else if matchesAny ip (blacklist f) then Blacklisted else Allowed)
      else if matchesAny ip (blacklist f) then Blacklisted else Allowed)"

definition checkIP :: "int \<Rightarrow> string \<Rightarrow> ip_filter \<Rightarrow> ip_verdict \<times> ip_filter" where
  "checkIP now ip f0 =
     (let f = ensureLoaded f0 in
      if \<not> ip_enabled f then (Allowed, f)
      else if ip = [] then (Allowed, f)
      else
        (let nip = normalizeIP ip in
         case jget (tempBans f) nip of
           Some (until, reason) \<Rightarrow>
             if now < until then (Banned reason, f)
             else (let g = f\<lparr>tempBans := jdel nip (tempBans f)\<rparr> in (list_verdict nip g, g))
         | None \<Rightarrow> (list_verdict nip f, f)))"

definition tempBanIP :: "string \<Rightarrow> int \<Rightarrow> string \<Rightarrow> int \<Rightarrow> ip_filter \<Rightarrow> ip_filter" where
  "tempBanIP ip durationMs reason now f = f\<lparr>tempBans := jset (normalizeIP ip) (now + durationMs, reason) (tempBans f)\<rparr>"

definition removeTempBan :: "string \<Rightarrow> ip_filter \<Rightarrow> ip_filter" where
  "removeTempBan ip f = f\<lparr>tempBans := jdel (normalizeIP ip) (tempBans f)\<rparr>"

definition addToBlacklist :: "bool \<Rightarrow> string \<Rightarrow> ip_filter \<Rightarrow> ip_filter" where
  "addToBlacklist up ip f = (let g = ensureLoaded f in ip_persist up (g\<lparr>blacklist := set_add (normalizeIP ip) (blacklist g)\<rparr>))"

definition removeFromBlacklist :: "bool \<Rightarrow> string \<Rightarrow> ip_filter \<Rightarrow> ip_filter" where
  "removeFromBlacklist up ip f = (let g = ensureLoaded f in ip_persist up (g\<lparr>blacklist := filter (\<lambda>e. e \<noteq> normalizeIP ip) (blacklist g)\<rparr>))"

definition addToWhitelist :: "bool \<Rightarrow> string \<Rightarrow> ip_filter \<Rightarrow> ip_filter" where
  "addToWhitelist up ip f = (let g = ensureLoaded f in ip_persist up (g\<lparr>whitelist := set_add (normalizeIP ip) (whitelist g)\<rparr>))"

definition removeFromWhitelist :: "bool \<Rightarrow> string \<Rightarrow> ip_filter \<Rightarrow> ip_filter" where
  "removeFromWhitelist up ip f = (let g = ensureLoaded f in ip_persist up (g\<lparr>whitelist := filter (\<lambda>e. e \<noteq> normalizeIP ip) (whitelist g)\<rparr>))"

section \<open>The address of a request\<close>

definition pickFirstValidIp :: "(string \<Rightarrow> nat) \<Rightarrow> string option \<Rightarrow> string option" where
  "pickFirstValidIp isIP raw =
     (case raw of
        None \<Rightarrow> None
      | Some v \<Rightarrow>
          if js_trim v = [] then None
          else find (\<lambda>n. n \<noteq> [] \<and> isIP n \<noteq> 0) (map normalizeIP (js_split CHR '','' v)))"

fun first_some :: "'a option list \<Rightarrow> 'a option" where
  "first_some [] = None"
| "first_some (None # xs) = first_some xs"
| "first_some (Some x # xs) = Some x"

record ip_request =
  req_header :: "string \<Rightarrow> string option"
  req_remoteAddress :: "string option"
  req_ip :: "string option"

definition request_address :: "(string \<Rightarrow> nat) \<Rightarrow> ip_request \<Rightarrow> string option \<Rightarrow> string" where
  "request_address isIP req peer =
     (let pick = pickFirstValidIp isIP in
      case first_some [pick peer, pick (req_header req ''cf-connecting-ip''), pick (req_header req ''x-forwarded-for''), pick (req_header req ''x-real-ip'')] of
        Some ip \<Rightarrow> ip
      | None \<Rightarrow> (let n = normalizeIP (case req_ip req of Some ip \<Rightarrow> ip | None \<Rightarrow> []) in if n = [] then ''unknown'' else n))"

definition checkRequestIP :: "(string \<Rightarrow> nat) \<Rightarrow> int \<Rightarrow> ip_request \<Rightarrow> string option \<Rightarrow> ip_filter \<Rightarrow> ip_verdict \<times> ip_filter" where
  "checkRequestIP isIP now req peer f = checkIP now (request_address isIP req peer) f"

definition extractClientIP :: "(string \<Rightarrow> nat) \<Rightarrow> ip_request \<Rightarrow> string" where
  "extractClientIP isIP req =
     (let pick = pickFirstValidIp isIP in
      case first_some [pick (req_header req ''cf-connecting-ip''), pick (req_header req ''x-forwarded-for''), pick (req_header req ''x-real-ip''),
                       pick (req_remoteAddress req), pick (req_ip req)] of
        Some ip \<Rightarrow> ip
      | None \<Rightarrow> ''unknown'')"

text \<open>The middleware: the status and error of the refusal, or \<open>None\<close> when the next handler is called.\<close>

definition ipFilterMiddleware :: "(string \<Rightarrow> nat) \<Rightarrow> int \<Rightarrow> ip_request \<Rightarrow> ip_filter \<Rightarrow> (nat \<times> ip_verdict) option \<times> ip_filter" where
  "ipFilterMiddleware isIP now req f =
     (let (v, g) = checkIP now (extractClientIP isIP req) f in (if v \<noteq> Allowed then Some (403, v) else None, g))"

section \<open>Addresses in decimal\<close>

text \<open>The decimal form of an address, as clients and administrators write it.\<close>

definition dotted :: "32 word \<Rightarrow> string" where
  "dotted w =
     (let n = unat w in
      dec (n div 256 ^ 3) @ ''.'' @ dec (n div 256 ^ 2 mod 256) @ ''.'' @ dec (n div 256 mod 256) @ ''.'' @ dec (n mod 256))"

section \<open>Words\<close>

lemma octet_or:
  fixes w :: "32 word"
  assumes "0 \<le> n" "n \<le> 255" shows "push_bit 8 w OR word_of_int n = w * 256 + word_of_int n"
proof -
  have "n = take_bit 8 n" using assms by (simp add: take_bit_eq_mod)
  then have "bit n m \<Longrightarrow> m < 8" for m by (metis bit_take_bit_iff)
  then have "push_bit 8 w AND word_of_int n = 0" by (intro bit_eqI) (fastforce simp: bit_simps)
  then show ?thesis by (simp add: disjunctive_add_eq_or [symmetric] push_bit_eq_mult)
qed

lemma ip_octets_dec: "n \<le> 255 \<Longrightarrow> ip_octets (dec n # ps) num = ip_octets ps (num * 256 + of_nat n)"
proof -
  assume n: "n \<le> 255"
  then have "ip_octets (dec n # ps) num = ip_octets ps (push_bit 8 num OR word_of_int (int n))" by simp
  also have "push_bit 8 num OR word_of_int (int n) = num * 256 + of_nat n" using octet_or [of "int n" num] n by simp
  finally show ?thesis .
qed

lemma ip_octets_four:
  assumes "a \<le> 255" "b \<le> 255" "c \<le> 255" "d \<le> 255"
  shows "ip_octets [dec a, dec b, dec c, dec d] 0 = Some (of_nat (((a * 256 + b) * 256 + c) * 256 + d))"
  unfolding ip_octets_dec [OF assms(1)] ip_octets_dec [OF assms(2)] ip_octets_dec [OF assms(3)] ip_octets_dec [OF assms(4)] by simp

lemma octets_sum: "((n div 256 ^ 3 * 256 + n div 256 ^ 2 mod 256) * 256 + n div 256 mod 256) * 256 + n mod 256 = n" for n :: nat
proof -
  have "n div 256 ^ 3 = n div 256 ^ 2 div 256" "n div 256 ^ 2 = n div 256 div 256" by (simp_all add: div_mult2_eq [symmetric] power_def)
  then show ?thesis by (metis div_mult_mod_eq)
qed

lemma ipToNum_dotted: "ipToNum (dotted w) = Some w"
proof -
  define n where "n = unat w"
  have "n < 256 ^ 4" using unsigned_less [of w] by (simp add: n_def)
  then have "n div 256 ^ 3 \<le> 255" by simp
  moreover have "x mod 256 \<le> 255" for x :: nat using mod_less_divisor [of 256 x] by simp
  ultimately have "ip_octets [dec (n div 256 ^ 3), dec (n div 256 ^ 2 mod 256), dec (n div 256 mod 256), dec (n mod 256)] 0 = Some (of_nat n)"
    using ip_octets_four [of "n div 256 ^ 3" "n div 256 ^ 2 mod 256" "n div 256 mod 256" "n mod 256"] unfolding octets_sum by blast
  moreover have "js_split CHR ''.'' (dotted w) = [dec (n div 256 ^ 3), dec (n div 256 ^ 2 mod 256), dec (n div 256 mod 256), dec (n mod 256)]"
    by (simp add: dotted_def Let_def js_split_append js_split_no n_def del: power_numeral)
  ultimately show ?thesis by (simp add: ipToNum_def n_def del: ip_octets.simps power_numeral)
qed

lemma mask_agree:
  fixes a b :: "32 word"
  shows "a AND push_bit k (- 1) = b AND push_bit k (- 1) \<longleftrightarrow> unat a div 2 ^ k = unat b div 2 ^ k"
proof -
  have "a AND push_bit k (- 1) = b AND push_bit k (- 1) \<longleftrightarrow> drop_bit k a = drop_bit k b"
  proof
    assume h: "a AND push_bit k (- 1) = b AND push_bit k (- 1)"
    have "bit a (k + n) = bit b (k + n)" for n
      using arg_cong [OF h, of "\<lambda>w. bit w (k + n)"] bit_imp_le_length [of a "k + n"] bit_imp_le_length [of b "k + n"] by (auto simp: bit_simps)
    then show "drop_bit k a = drop_bit k b" by (auto intro!: bit_eqI simp: bit_simps)
  next
    assume h: "drop_bit k a = drop_bit k b"
    have "bit a n = bit b n" if "k \<le> n" for n
      using arg_cong [OF h, of "\<lambda>w. bit w (n - k)"] that by (simp add: bit_simps)
    then show "a AND push_bit k (- 1) = b AND push_bit k (- 1)" by (intro bit_eqI) (simp only: bit_and_iff bit_push_bit_iff, blast)
  qed
  also have "\<dots> \<longleftrightarrow> unat (drop_bit k a) = unat (drop_bit k b)" by (simp add: unsigned_word_eqI word_eq_iff_unsigned)
  also have "\<dots> \<longleftrightarrow> unat a div 2 ^ k = unat b div 2 ^ k" by (subst (1 2) unat_drop_bit_eq) (simp only: drop_bit_eq_div)
  finally show ?thesis .
qed

lemma matchesCIDR_dotted:
  assumes "m \<le> 32"
  shows "matchesCIDR (dotted a) (dotted b @ ''/'' @ dec m) =
    (if m = 0 then a = b else unat a div 2 ^ (32 - m) = unat b div 2 ^ (32 - m))"
proof -
  have "CHR ''/'' \<notin> set (dotted b)" by (simp add: dotted_def Let_def)
  then have sp: "js_split CHR ''/'' (dotted b @ ''/'' @ dec m) = [dotted b, dec m]" by (simp add: js_split_append js_split_no)
  have "(32 - int m) mod 32 = 32 - int m" if "m \<noteq> 0" using that assms by (intro mod_pos_pos_trivial) auto
  then have k: "nat ((32 - int m) mod 32) = (if m = 0 then 0 else 32 - m)" using assms by (simp add: nat_diff_distrib)
  have "matchesCIDR (dotted a) (dotted b @ ''/'' @ dec m) \<longleftrightarrow> a AND js_shl (- 1) (32 - int m) = b AND js_shl (- 1) (32 - int m)"
    using assms unfolding matchesCIDR_def sp by (simp add: ipToNum_dotted Let_def)
  also have "\<dots> \<longleftrightarrow> (if m = 0 then a = b else unat a div 2 ^ (32 - m) = unat b div 2 ^ (32 - m))"
    unfolding js_shl_def k mask_agree by (simp add: word_unat_eq_iff)
  finally show ?thesis .
qed

lemma cidr_length_zero: "matchesCIDR (dotted a) (dotted b @ ''/'' @ dec 0) \<longleftrightarrow> a = b"
  using matchesCIDR_dotted [of 0 a b] by simp

section \<open>A ban holds until its end\<close>

record ip_run =
  ip_state :: ip_filter
  ip_now :: int

datatype ip_event =
  I_check string int | I_configure bool ip_update | I_ban string int string int | I_unban string | I_sweep int
| I_addBlack bool string | I_removeBlack bool string | I_addWhite bool string | I_removeWhite bool string | I_row "ip_row option"

text \<open>\<open>I_row\<close> is another process writing the row, or the database failing or coming back.\<close>

fun ip_do :: "ip_event \<Rightarrow> ip_run \<Rightarrow> ip_run" where
  "ip_do (I_check ip now) r = \<lparr>ip_state = snd (checkIP now ip (ip_state r)), ip_now = now\<rparr>"
| "ip_do (I_configure up u) r = r\<lparr>ip_state := configureIPFilter up u (ip_state r)\<rparr>"
| "ip_do (I_ban ip d reason now) r = \<lparr>ip_state = tempBanIP ip d reason now (ip_state r), ip_now = now\<rparr>"
| "ip_do (I_unban ip) r = r\<lparr>ip_state := removeTempBan ip (ip_state r)\<rparr>"
| "ip_do (I_sweep now) r = \<lparr>ip_state = tempBanSweep now (ip_state r), ip_now = now\<rparr>"
| "ip_do (I_addBlack up ip) r = r\<lparr>ip_state := addToBlacklist up ip (ip_state r)\<rparr>"
| "ip_do (I_removeBlack up ip) r = r\<lparr>ip_state := removeFromBlacklist up ip (ip_state r)\<rparr>"
| "ip_do (I_addWhite up ip) r = r\<lparr>ip_state := addToWhitelist up ip (ip_state r)\<rparr>"
| "ip_do (I_removeWhite up ip) r = r\<lparr>ip_state := removeFromWhitelist up ip (ip_state r)\<rparr>"
| "ip_do (I_row row) r = r\<lparr>ip_state := (ip_state r)\<lparr>ip_row := row\<rparr>\<rparr>"

text \<open>Events that must not end a ban of \<open>nip\<close> up to \<open>u\<close>: it is not lifted and not replaced by a shorter one.\<close>

fun keeps_ban :: "string \<Rightarrow> int \<Rightarrow> ip_event \<Rightarrow> bool" where
  "keeps_ban nip u (I_unban ip) \<longleftrightarrow> normalizeIP ip \<noteq> nip"
| "keeps_ban nip u (I_ban ip d reason now) \<longleftrightarrow> normalizeIP ip \<noteq> nip \<or> u \<le> now + d"
| "keeps_ban nip u _ \<longleftrightarrow> True"

definition ban_step :: "string \<Rightarrow> int \<Rightarrow> ip_event \<Rightarrow> ip_run \<Rightarrow> ip_run \<Rightarrow> bool" where
  "ban_step nip u e r r' \<longleftrightarrow> r' = ip_do e r \<and> ip_now r \<le> ip_now r' \<and> keeps_ban nip u e"

definition banned_until :: "string \<Rightarrow> int \<Rightarrow> ip_filter \<Rightarrow> bool" where
  "banned_until nip u f \<longleftrightarrow> (\<exists>v reason. jget (tempBans f) nip = Some (v, reason) \<and> u \<le> v)"

definition ban_inv :: "string \<Rightarrow> int \<Rightarrow> ip_run \<Rightarrow> bool" where
  "ban_inv nip u r \<longleftrightarrow> (ip_now r < u \<longrightarrow> banned_until nip u (ip_state r))"

lemma tempBans_frame [simp]:
  "tempBans (ensureLoaded f) = tempBans f" "tempBans (ip_persist up f) = tempBans f" "tempBans (configureIPFilter up w f) = tempBans f"
  "tempBans (addToBlacklist up ip f) = tempBans f" "tempBans (removeFromBlacklist up ip f) = tempBans f"
  "tempBans (addToWhitelist up ip f) = tempBans f" "tempBans (removeFromWhitelist up ip f) = tempBans f"
  by (simp_all add: ensureLoaded_def ip_persist_def configureIPFilter_def addToBlacklist_def removeFromBlacklist_def
      addToWhitelist_def removeFromWhitelist_def Let_def split: option.split)

lemma jget_filter_hit: "jget m k = Some v \<Longrightarrow> P (k, v) \<Longrightarrow> jget (filter P m) k = Some v"
  by (induction m) (auto split: if_splits)

lemma checkIP_bans: "jget (tempBans f) nip = Some (v, reason) \<Longrightarrow> now < v \<Longrightarrow> jget (tempBans (snd (checkIP now ip f))) nip = Some (v, reason)"
  by (auto simp: checkIP_def Let_def split: option.split prod.split)

lemma ban_step_inv:
  assumes "ban_step nip u e r r'" "ban_inv nip u r" shows "ban_inv nip u r'"
proof -
  have st: "r' = ip_do e r" "ip_now r \<le> ip_now r'" "keeps_ban nip u e" using assms(1) unfolding ban_step_def by blast+
  have "banned_until nip u (ip_state r')" if before: "ip_now r' < u"
  proof -
    obtain v reason where b: "jget (tempBans (ip_state r)) nip = Some (v, reason)" "u \<le> v"
      using assms(2) st(2) before by (auto simp: ban_inv_def banned_until_def)
    show ?thesis
    proof (cases e)
      case (I_check ip t)
      then show ?thesis using checkIP_bans [OF b(1)] b(2) before st(1) by (auto simp: banned_until_def)
    next
      case (I_sweep t)
      then show ?thesis using jget_filter_hit [OF b(1)] b(2) before st(1) by (auto simp: banned_until_def tempBanSweep_def)
    qed (use b st in \<open>auto simp: banned_until_def tempBanIP_def removeTempBan_def\<close>)
  qed
  then show ?thesis by (simp add: ban_inv_def)
qed

interpretation ban: step_system "ban_step nip u" "ban_inv nip u"
  by unfold_locales (rule ban_step_inv)

section \<open>Properties\<close>

text \<open>
  C25. Ranges in CIDR notation. For every pair of IPv4 addresses in decimal form and every prefix length from 1
  to 32 the filter's match on 32-bit words is agreement of the leading bits, that is, equality of the addresses
  divided by the size of the range. For length 0 it is equality of the whole addresses: the shift by 32
  places is a shift by none, so \<^verbatim>\<open>0.0.0.0/0\<close> matches one address only.
\<close>

theorem matchesCIDR_spec:
  assumes "m \<le> 32"
  shows "matchesCIDR (dotted a) (dotted b @ ''/'' @ dec m) =
    (if m = 0 then a = b else unat a div 2 ^ (32 - m) = unat b div 2 ^ (32 - m))"
  using assms by (rule matchesCIDR_dotted)

theorem matchesCIDR_spec_witness:
  "dotted 3232235777 = ''192.168.1.1'' \<and> matchesCIDR ''192.168.1.1'' ''192.168.0.0/16'' \<and> \<not> matchesCIDR ''192.168.1.1'' ''0.0.0.0/0''"
proof -
  have d: "dotted 3232235777 = ''192.168.1.1''" "dotted 3232235520 = ''192.168.0.0''" "dotted 0 = ''0.0.0.0''"
    "dec 16 = ''16''" "dec 0 = ''0''" by (simp_all add: dotted_def dec.simps char_of_def bit_0)
  show ?thesis using matchesCIDR_spec [of 16 3232235777 3232235520] matchesCIDR_spec [of 0 3232235777 0] by (simp add: d)
qed

text \<open>
  A temporary ban holds. From the moment an address is banned until the ban ends, every check of the address
  (in plain or in IPv4-mapped form, with surrounding blanks) while the filter is enabled refuses it as
  banned, in every mode and whatever the lists say, whatever checks, sweeps, configuration changes, list edits and
  writes of other processes happened in between, unless the ban itself was lifted or replaced by a shorter one.
\<close>

theorem temp_ban_holds:
  assumes "reaches (ban_step (normalizeIP ip) (t0 + d)) \<lparr>ip_state = tempBanIP ip d reason t0 f, ip_now = t0\<rparr> r"
    and "ip_now r \<le> now" "now < t0 + d" "ip' \<noteq> []" "normalizeIP ip' = normalizeIP ip" "ip_enabled (ensureLoaded (ip_state r))"
  shows "\<exists>why. fst (checkIP now ip' (ip_state r)) = Banned why"
proof -
  have "ban_inv (normalizeIP ip) (t0 + d) \<lparr>ip_state = tempBanIP ip d reason t0 f, ip_now = t0\<rparr>"
    by (simp add: ban_inv_def banned_until_def tempBanIP_def)
  then have "ban_inv (normalizeIP ip) (t0 + d) r" by (rule ban.reaches_inv [OF assms(1)])
  then obtain v why where "jget (tempBans (ip_state r)) (normalizeIP ip) = Some (v, why)" "t0 + d \<le> v"
    using assms(2,3) by (auto simp: ban_inv_def banned_until_def)
  then show ?thesis using assms(3-6) by (simp add: checkIP_def Let_def)
qed

text \<open>A ban set while the filter is off; then the filter is switched on in whitelist mode with the address listed.\<close>

definition ip_demo0 :: ip_run where
  "ip_demo0 = \<lparr>ip_state = tempBanIP ''10.0.0.1'' 100 ''abuse'' 5
     \<lparr>ip_enabled = False, ip_mode = ''blacklist'', blacklist = [], whitelist = [], tempBans = [], ip_row = None\<rparr>, ip_now = 5\<rparr>"

definition ip_demo_update :: ip_update where
  "ip_demo_update = \<lparr>u_enabled = Some True, u_mode = Some ''whitelist'', u_blacklist = None, u_whitelist = Some [''10.0.0.1'']\<rparr>"

definition ip_demo :: ip_run where
  "ip_demo = ip_do (I_sweep 40) (ip_do (I_configure True ip_demo_update) ip_demo0)"

lemma ip_demo_reached: "reaches (ban_step (normalizeIP ''10.0.0.1'') (5 + 100)) ip_demo0 ip_demo"
proof -
  let ?S = "ban_step (normalizeIP ''10.0.0.1'') (5 + 100)"
  have "?S (I_configure True ip_demo_update) ip_demo0 (ip_do (I_configure True ip_demo_update) ip_demo0)"
    by (simp add: ban_step_def)
  moreover have "?S (I_sweep 40) (ip_do (I_configure True ip_demo_update) ip_demo0) ip_demo"
    by (simp add: ban_step_def ip_demo_def ip_demo0_def)
  ultimately show ?thesis by (meson reaches_one reaches_event)
qed

theorem temp_ban_holds_witness: "\<exists>why. fst (checkIP 50 ''::ffff:10.0.0.1'' (ip_state ip_demo)) = Banned why"
proof -
  have "ip_now ip_demo = 40" by (simp add: ip_demo_def)
  moreover have "normalizeIP ''::ffff:10.0.0.1'' = normalizeIP ''10.0.0.1''" "ip_enabled (ensureLoaded (ip_state ip_demo))" by code_simp+
  ultimately show ?thesis using temp_ban_holds [OF ip_demo_reached [unfolded ip_demo0_def], of 50 "''::ffff:10.0.0.1''"] by simp
qed

text \<open>
  Two consequences for administrators: a range of length zero covers one address, and the mapped prefix is
  recognised in lower case only, so an address listed in plain form is not found in the other form.
\<close>

lemma zero_prefix_matches_one: "\<not> matchesAny (dotted a) [dotted 0 @ ''/'' @ dec 0]" if "a \<noteq> 0"
proof -
  have "CHR ''*'' \<notin> set (dotted 0 @ ''/'' @ dec 0)" "CHR ''/'' \<notin> set (dotted a)" "CHR ''/'' \<in> set (dotted 0 @ ''/'' @ dec 0)"
    using dec_chars by (auto simp: dotted_def Let_def)
  moreover have "\<not> matchesCIDR (dotted a) (dotted 0 @ ''/'' @ dec 0)" using cidr_length_zero that by simp
  ultimately show ?thesis by (auto simp: matchesAny_def entry_matches_def)
qed

lemma upper_case_mapped_escapes:
  "matchesAny (normalizeIP ''::ffff:10.0.0.1'') [''10.0.0.1''] \<and> \<not> matchesAny (normalizeIP ''::FFFF:10.0.0.1'') [''10.0.0.1'']"
  by code_simp

end
