(* ===== verification/Js_Json.thy ===== *)
theory Js_Json
  imports Js_Prelude
begin

text \<open>
  Parsed JSON values, as request bodies and stored configuration reach the code: trees without sharing. An
  absent property reads as \<^verbatim>\<open>undefined\<close>, here \<open>None\<close>.
\<close>

datatype json =
    JNull
  | JBool bool
  | JNum js_num
  | JStr string
  | JArr "json list"
  | JObj "(string \<times> json) list"

type_synonym layer = "(string \<times> json) list"

definition prop_of :: "layer \<Rightarrow> string \<Rightarrow> json option" where
  "prop_of l k = map_of l k"

definition or_else :: "'a option \<Rightarrow> 'a option \<Rightarrow> 'a option" where
  "or_else a b = (case a of Some _ \<Rightarrow> a | None \<Rightarrow> b)"

text \<open>
  \<^verbatim>\<open>Number(v)\<close>; \<open>number\<close> reads a string. An array is read as the string it prints as, so one of a single
  element as that element (null prints as nothing), one of several never is a number.
\<close>

fun js_number :: "(string \<Rightarrow> js_num) \<Rightarrow> json \<Rightarrow> js_num" where
  "js_number number JNull = Fin 0"
| "js_number number (JBool b) = Fin (if b then 1 else 0)"
| "js_number number (JNum n) = n"
| "js_number number (JStr s) = number s"
| "js_number number (JObj kvs) = NaN"
| "js_number number (JArr []) = Fin 0"
| "js_number number (JArr [JBool b]) = NaN"
| "js_number number (JArr [v]) = js_number number v"
| "js_number number (JArr (v # w # vs)) = NaN"

end
