(* ===== verification/Request_Features.thy ===== *)
theory Request_Features
  imports Admission_Cost Js_Json
begin

text \<open>
  From a request body to its admission cost: the size estimator of \<^verbatim>\<open>open-sse/utils/estimateSize.ts\<close> and the
  feature extraction of \<^verbatim>\<open>open-sse/services/admission/requestFeatures.ts\<close>. Bodies are parsed JSON values,
  trees without sharing, so the sets of visited objects never exclude anything and are left out.
\<close>

section \<open>The size estimator\<close>

definition ESTIMATE_SIZE_NODE_BUDGET :: nat where
  "ESTIMATE_SIZE_NODE_BUDGET = 16384"

text \<open>A value still to visit, an array with the next index, an object with the values its iterator has left.\<close>

datatype frame = FV json | FA "json list" nat | FO "json list"

definition addPrimitiveBytes :: "int \<Rightarrow> json \<Rightarrow> int" where
  "addPrimitiveBytes bytes v =
     (case v of JStr s \<Rightarrow> bytes + int (length s) | JNum _ \<Rightarrow> bytes + 8 | _ \<Rightarrow> bytes + 4)"

definition enqueueContainer :: "json \<Rightarrow> frame list \<Rightarrow> frame list" where
  "enqueueContainer v stack =
     (case v of
        JArr xs \<Rightarrow> if length xs > 0 then FA xs 0 # stack else stack
      | JObj kvs \<Rightarrow> FO (map snd kvs) # stack
      | _ \<Rightarrow> stack)"

fun expandContainerFrame :: "frame \<Rightarrow> frame list \<Rightarrow> frame list" where
  "expandContainerFrame (FA a i) stack =
     (if i \<ge> length a then stack
      else FV (a ! i) # (if i + 1 < length a then FA a (i + 1) # stack else stack))"
| "expandContainerFrame (FO []) stack = stack"
| "expandContainerFrame (FO (v # vs)) stack = FV v # FO vs # stack"
| "expandContainerFrame (FV v) stack = FV v # stack"

text \<open>The work left in a value and in a frame: what makes the walk end.\<close>

fun json_work :: "json \<Rightarrow> nat" where
  "json_work (JArr xs) = 2 + sum_list (map (\<lambda>v. json_work v + 1) xs)"
| "json_work (JObj kvs) = 2 + sum_list (map (\<lambda>kv. json_work (snd kv) + 1) kvs)"
| "json_work _ = 1"

fun frame_work :: "frame \<Rightarrow> nat" where
  "frame_work (FV v) = json_work v"
| "frame_work (FA a i) = 1 + sum_list (map (\<lambda>v. json_work v + 1) (drop i a))"
| "frame_work (FO vs) = 1 + sum_list (map (\<lambda>v. json_work v + 1) vs)"

lemma json_work_pos [simp]: "0 < json_work v"
  by (cases v) simp_all

lemma expand_work:
  "\<not> (\<exists>v. fr = FV v) \<Longrightarrow> sum_list (map frame_work (expandContainerFrame fr st)) < frame_work fr + sum_list (map frame_work st)"
proof (induction fr st rule: expandContainerFrame.induct)
  case (1 a i st)
  then show ?case by (cases "i < length a") (simp_all add: Cons_nth_drop_Suc [symmetric])
qed simp_all

lemma enqueue_work: "sum_list (map frame_work (enqueueContainer v st)) < json_work v + sum_list (map frame_work st)"
  by (cases v) (simp_all add: enqueueContainer_def comp_def)

function walk :: "int \<Rightarrow> nat \<Rightarrow> int \<Rightarrow> frame list \<Rightarrow> int" where
  "walk byteLimit visitsLeft bytes [] = bytes"
| "walk byteLimit visitsLeft bytes (fr # st) =
     (if visitsLeft = 0 then byteLimit + 1
      else case fr of
             FV v \<Rightarrow>
               (case v of
                  JNull \<Rightarrow> walk byteLimit (visitsLeft - 1) bytes st
                | JArr xs \<Rightarrow> walk byteLimit (visitsLeft - 1) bytes (enqueueContainer v st)
                | JObj kvs \<Rightarrow> walk byteLimit (visitsLeft - 1) bytes (enqueueContainer v st)
                | _ \<Rightarrow>
                    if addPrimitiveBytes bytes v > byteLimit then addPrimitiveBytes bytes v
                    else walk byteLimit (visitsLeft - 1) (addPrimitiveBytes bytes v) st)
           | _ \<Rightarrow> walk byteLimit visitsLeft bytes (expandContainerFrame fr st))"
  by pat_completeness auto
termination
proof (relation "measure (\<lambda>(l, n, b, st). sum_list (map frame_work st))", simp_all del: expandContainerFrame.simps)
  fix xs :: "json list" and st
  show "sum_list (map frame_work (enqueueContainer (JArr xs) st)) < Suc (Suc (sum_list (map (\<lambda>v. Suc (json_work v)) xs) + sum_list (map frame_work st)))"
    using enqueue_work [of "JArr xs" st] by simp
next
  fix kvs :: "(string \<times> json) list" and st
  show "sum_list (map frame_work (enqueueContainer (JObj kvs) st)) < Suc (Suc (sum_list (map (\<lambda>kv. Suc (json_work (snd kv))) kvs) + sum_list (map frame_work st)))"
    using enqueue_work [of "JObj kvs" st] by simp
next
  fix st a i
  show "sum_list (map frame_work (expandContainerFrame (FA a i) st)) < Suc (sum_list (map (\<lambda>v. Suc (json_work v)) (drop i a)) + sum_list (map frame_work st))"
    using expand_work [of "FA a i" st] by simp
next
  fix st vs
  show "sum_list (map frame_work (expandContainerFrame (FO vs) st)) < Suc (sum_list (map (\<lambda>v. Suc (json_work v)) vs) + sum_list (map frame_work st))"
    using expand_work [of "FO vs" st] by simp
qed

declare walk.simps [simp del]

definition estimateSizeFast :: "json \<Rightarrow> int \<Rightarrow> int" where
  "estimateSizeFast v byteLimit = walk byteLimit ESTIMATE_SIZE_NODE_BUDGET 0 [FV v]"

text \<open>The reference: all bytes of a value, and the number of values in it.\<close>

fun json_bytes :: "json \<Rightarrow> int" where
  "json_bytes JNull = 0"
| "json_bytes (JBool _) = 4"
| "json_bytes (JNum _) = 8"
| "json_bytes (JStr s) = int (length s)"
| "json_bytes (JArr xs) = sum_list (map json_bytes xs)"
| "json_bytes (JObj kvs) = sum_list (map (\<lambda>kv. json_bytes (snd kv)) kvs)"

fun json_nodes :: "json \<Rightarrow> nat" where
  "json_nodes (JArr xs) = 1 + sum_list (map json_nodes xs)"
| "json_nodes (JObj kvs) = 1 + sum_list (map (\<lambda>kv. json_nodes (snd kv)) kvs)"
| "json_nodes _ = 1"

fun frame_values :: "frame \<Rightarrow> json list" where
  "frame_values (FV v) = [v]"
| "frame_values (FA a i) = drop i a"
| "frame_values (FO vs) = vs"

definition stack_values :: "frame list \<Rightarrow> json list" where
  "stack_values st = concat (map frame_values st)"

definition stack_bytes :: "frame list \<Rightarrow> int" where
  "stack_bytes st = sum_list (map json_bytes (stack_values st))"

definition stack_nodes :: "frame list \<Rightarrow> nat" where
  "stack_nodes st = sum_list (map json_nodes (stack_values st))"

lemma stack_values_Cons [simp]: "stack_values (fr # st) = frame_values fr @ stack_values st" "stack_values [] = []"
  by (simp_all add: stack_values_def)

lemma expand_values: "stack_values (expandContainerFrame fr st) = frame_values fr @ stack_values st"
proof (induction fr st rule: expandContainerFrame.induct)
  case (1 a i st)
  then show ?case by (cases "i < length a") (auto simp: Cons_nth_drop_Suc [symmetric])
qed simp_all

lemma json_bytes_nonneg: "0 \<le> json_bytes v"
proof (induction v rule: json_bytes.induct)
  case (5 xs)
  then show ?case by (simp add: sum_list_nonneg_int)
next
  case (6 kvs)
  then show ?case by (simp add: sum_list_nonneg_int)
qed simp_all

lemma stack_bytes_nonneg: "0 \<le> stack_bytes st"
  unfolding stack_bytes_def by (rule sum_list_nonneg_int) (rule json_bytes_nonneg)

lemma enqueue_bytes:
  "stack_bytes (enqueueContainer (JArr xs) st) = json_bytes (JArr xs) + stack_bytes st"
  "stack_bytes (enqueueContainer (JObj kvs) st) = json_bytes (JObj kvs) + stack_bytes st"
  "stack_nodes (enqueueContainer (JArr xs) st) + 1 = json_nodes (JArr xs) + stack_nodes st"
  "stack_nodes (enqueueContainer (JObj kvs) st) + 1 = json_nodes (JObj kvs) + stack_nodes st"
  by (simp_all add: enqueueContainer_def stack_bytes_def stack_nodes_def comp_def)

lemma walk_spec:
  assumes "bytes \<le> byteLimit"
  shows "walk byteLimit n bytes st = bytes + stack_bytes st \<or>
    walk byteLimit n bytes st > byteLimit \<and> (bytes + stack_bytes st > byteLimit \<or> stack_nodes st \<ge> n)"
  using assms
proof (induction byteLimit n bytes st rule: walk.induct)
  case (1 byteLimit n bytes)
  then show ?case by (simp add: walk.simps stack_bytes_def)
next
  case (2 byteLimit n bytes fr st)
  show ?case
  proof (cases "n = 0")
    case True
    then show ?thesis by (simp add: walk.simps)
  next
    case n: False
    show ?thesis
    proof (cases fr)
      case (FV v)
      have bs: "stack_bytes (fr # st) = json_bytes v + stack_bytes st" "stack_nodes (fr # st) = json_nodes v + stack_nodes st"
        by (simp_all add: FV stack_bytes_def stack_nodes_def)
      have prim: ?thesis if p: "json_bytes v = addPrimitiveBytes bytes v - bytes" "json_nodes v = 1"
          "walk byteLimit n bytes (fr # st) = (if addPrimitiveBytes bytes v > byteLimit then addPrimitiveBytes bytes v
             else walk byteLimit (n - 1) (addPrimitiveBytes bytes v) st)"
          "\<not> addPrimitiveBytes bytes v > byteLimit \<Longrightarrow>
             walk byteLimit (n - 1) (addPrimitiveBytes bytes v) st = addPrimitiveBytes bytes v + stack_bytes st \<or>
             walk byteLimit (n - 1) (addPrimitiveBytes bytes v) st > byteLimit \<and>
               (addPrimitiveBytes bytes v + stack_bytes st > byteLimit \<or> stack_nodes st \<ge> n - 1)"
        using p stack_bytes_nonneg [of st] n by (cases "addPrimitiveBytes bytes v > byteLimit") (auto simp: bs)
      show ?thesis
      proof (cases v)
        case JNull
        then show ?thesis using "2.IH"(1) [OF n FV] "2.prems" n FV bs by (auto simp: walk.simps)
      next
        case (JArr xs)
        then show ?thesis using "2.IH"(5) [OF n FV] "2.prems" n FV bs enqueue_bytes(1,3) [of xs st] by (auto simp: walk.simps)
      next
        case (JObj kvs)
        then show ?thesis using "2.IH"(6) [OF n FV] "2.prems" n FV bs enqueue_bytes(2,4) [of kvs st] by (auto simp: walk.simps)
      next
        case (JBool b)
        show ?thesis by (rule prim) (use "2.IH"(2) [OF n FV JBool] n FV JBool in \<open>simp_all add: walk.simps addPrimitiveBytes_def\<close>)
      next
        case (JNum b)
        show ?thesis by (rule prim) (use "2.IH"(3) [OF n FV JNum] n FV JNum in \<open>simp_all add: walk.simps addPrimitiveBytes_def\<close>)
      next
        case (JStr b)
        show ?thesis by (rule prim) (use "2.IH"(4) [OF n FV JStr] n FV JStr in \<open>simp_all add: walk.simps addPrimitiveBytes_def\<close>)
      qed
    next
      case (FA a i)
      have "stack_bytes (expandContainerFrame fr st) = stack_bytes (fr # st)" "stack_nodes (expandContainerFrame fr st) = stack_nodes (fr # st)"
        by (simp_all add: stack_bytes_def stack_nodes_def expand_values)
      then show ?thesis using "2.IH"(7) [OF n FA] "2.prems" n FA by (simp add: walk.simps del: expandContainerFrame.simps)
    next
      case (FO vs)
      have "stack_bytes (expandContainerFrame fr st) = stack_bytes (fr # st)" "stack_nodes (expandContainerFrame fr st) = stack_nodes (fr # st)"
        by (simp_all add: stack_bytes_def stack_nodes_def expand_values)
      then show ?thesis using "2.IH"(8) [OF n FO] "2.prems" n FO by (simp add: walk.simps del: expandContainerFrame.simps)
    qed
  qed
qed

lemma estimateSizeFast_cases:
  assumes "0 \<le> byteLimit"
  shows "estimateSizeFast v byteLimit = json_bytes v \<or>
    estimateSizeFast v byteLimit > byteLimit \<and> (json_bytes v > byteLimit \<or> json_nodes v \<ge> ESTIMATE_SIZE_NODE_BUDGET)"
  using walk_spec [OF assms, of ESTIMATE_SIZE_NODE_BUDGET "[FV v]"]
  by (simp add: estimateSizeFast_def stack_bytes_def stack_nodes_def)

section \<open>Feature extraction\<close>

definition ADMISSION_TOOL_SCAN_BUDGET :: nat where
  "ADMISSION_TOOL_SCAN_BUDGET = 64"

fun plain_object :: "json option \<Rightarrow> layer option" where
  "plain_object (Some (JObj kvs)) = Some kvs"
| "plain_object _ = None"

fun asArray :: "json option \<Rightarrow> json list option" where
  "asArray (Some (JArr xs)) = Some xs"
| "asArray _ = None"

definition positiveInt :: "json option \<Rightarrow> int option" where
  "positiveInt v =
     (case v of
        Some (JNum (Fin q)) \<Rightarrow>
          if q \<le> 0 then None
          else if \<not> isSafeInteger (Fin q) then Some (min MAX_SAFE_INTEGER \<lfloor>q\<rfloor>)
          else Some \<lfloor>q\<rfloor>
      | _ \<Rightarrow> None)"

definition saturateCount :: "int \<Rightarrow> int" where
  "saturateCount n = (if n \<le> 0 then 0 else if n > MAX_SAFE_INTEGER then MAX_SAFE_INTEGER else n)"

definition tool_sources :: "layer list \<Rightarrow> json list list" where
  "tool_sources layers =
     concat (map (\<lambda>l. concat (map (\<lambda>k. case asArray (prop_of l k) of Some xs \<Rightarrow> [xs] | None \<Rightarrow> []) [''tools'', ''functions''])) layers)"

fun over_budget :: "nat \<Rightarrow> json list list \<Rightarrow> bool" where
  "over_budget entryCount [] = False"
| "over_budget entryCount (src # rest) =
     (if length src > ADMISSION_TOOL_SCAN_BUDGET - entryCount then True else over_budget (entryCount + length src) rest)"

definition entry_tools :: "json \<Rightarrow> int" where
  "entry_tools e =
     (case plain_object (Some e) of
        Some kvs \<Rightarrow> (case asArray (prop_of kvs ''functionDeclarations'') of Some ds \<Rightarrow> saturateCount (int (length ds)) | None \<Rightarrow> 1)
      | None \<Rightarrow> 1)"

definition countTools :: "layer list \<Rightarrow> int" where
  "countTools layers =
     (let sources = tool_sources layers in
      if over_budget 0 sources then MAX_SAFE_INTEGER
      else fold (\<lambda>e t. min MAX_SAFE_INTEGER (t + entry_tools e)) (concat sources) 0)"

definition countMessages :: "layer \<Rightarrow> int" where
  "countMessages l =
     (let len = (\<lambda>k. saturateCount (case asArray (prop_of l k) of Some xs \<Rightarrow> int (length xs) | None \<Rightarrow> 0));
          n = max (max (len ''messages'') (len ''contents'')) (len ''input'')
      in if n = 0 \<and> (case prop_of l ''input'' of Some (JStr s) \<Rightarrow> length s > 0 | _ \<Rightarrow> False) then 1 else n)"

definition readFanout :: "layer \<Rightarrow> int option" where
  "readFanout l =
     or_else (or_else (positiveInt (prop_of l ''n'')) (or_else (positiveInt (prop_of l ''candidateCount'')) (positiveInt (prop_of l ''candidate_count''))))
       (case plain_object (prop_of l ''generationConfig'') of
          Some g \<Rightarrow> or_else (positiveInt (prop_of g ''candidateCount'')) (positiveInt (prop_of g ''candidate_count''))
        | None \<Rightarrow> None)"

definition featureLayers :: "json \<Rightarrow> layer list" where
  "featureLayers body =
     (case plain_object (Some body) of
        None \<Rightarrow> []
      | Some outer \<Rightarrow> outer # (case plain_object (prop_of outer ''request'') of Some w \<Rightarrow> [w] | None \<Rightarrow> []))"

record feature_draft =
  d_messageCount :: int
  d_requestedFanout :: "int option"
  d_streaming :: "bool option"

definition absorbLayer :: "layer \<Rightarrow> feature_draft \<Rightarrow> feature_draft" where
  "absorbLayer l d =
     d\<lparr>d_messageCount := (if d_messageCount d = 0 then countMessages l else d_messageCount d),
       d_requestedFanout := or_else (d_requestedFanout d) (readFanout l),
       d_streaming := (if d_streaming d = None \<and> prop_of l ''stream'' \<noteq> None
                       then Some (prop_of l ''stream'' = Some (JBool True)) else d_streaming d)\<rparr>"

definition resolveStreaming :: "bool option \<Rightarrow> bool option \<Rightarrow> bool" where
  "resolveStreaming draft context = (case or_else context draft of Some b \<Rightarrow> b | None \<Rightarrow> False)"

definition extractAdmissionCostFeatures :: "json \<Rightarrow> bool option \<Rightarrow> cost_partial \<Rightarrow> range_error + cost_features" where
  "extractAdmissionCostFeatures body streaming_context p =
     sum_bind (resolveCostConfig p) (\<lambda>cost.
       let bytes = estimateSizeFast body (bodyBytesPerUnit cost * maxRequestCost cost);
           layers = featureLayers body;
           d = fold absorbLayer layers \<lparr>d_messageCount = 0, d_requestedFanout = None, d_streaming = None\<rparr>
       in Inr \<lparr>bodyBytes = js_int bytes,
               estimatedInputTokens = js_int (if bytes > 0 then min MAX_SAFE_INTEGER ((bytes + 3) div 4) else 0),
               messageCount = js_int (d_messageCount d), toolCount = js_int (countTools layers),
               requestedFanout = js_int (case d_requestedFanout d of Some n \<Rightarrow> n | None \<Rightarrow> 1),
               streaming = Bool (resolveStreaming (d_streaming d) streaming_context)\<rparr>)"

text \<open>The declared tools are never undercounted, whatever the scan budget cuts off.\<close>

lemma fold_saturating:
  assumes "\<And>e. e \<in> set es \<Longrightarrow> 0 \<le> f e" "0 \<le> t" "t \<le> MAX_SAFE_INTEGER"
  shows "fold (\<lambda>e t. min MAX_SAFE_INTEGER (t + f e)) es t = min MAX_SAFE_INTEGER (t + sum_list (map f es))"
  using assms
proof (induction es arbitrary: t)
  case (Cons e es)
  have "0 \<le> f e" "0 \<le> sum_list (map f es)" using Cons.prems(1) by (auto intro: sum_list_nonneg_int)
  moreover have "fold (\<lambda>e t. min MAX_SAFE_INTEGER (t + f e)) es (min MAX_SAFE_INTEGER (t + f e)) =
      min MAX_SAFE_INTEGER (min MAX_SAFE_INTEGER (t + f e) + sum_list (map f es))"
    using Cons.prems \<open>0 \<le> f e\<close> by (intro Cons.IH) auto
  ultimately show ?case by simp
qed simp

lemma countTools_conservative:
  "min MAX_SAFE_INTEGER (sum_list (map entry_tools (concat (tool_sources layers)))) \<le> countTools layers"
proof -
  have "0 \<le> entry_tools e" for e by (auto simp: entry_tools_def saturateCount_def split: option.splits)
  then show ?thesis using fold_saturating [of "concat (tool_sources layers)" entry_tools 0] by (simp add: countTools_def Let_def)
qed

text \<open>A fractional count is truncated to zero but still wins over a later candidate.\<close>

lemma fractional_fanout_hides:
  "readFanout [(''n'', JNum (Fin (1/2))), (''candidateCount'', JNum (Fin 8))] = Some 0"
  by code_simp

section \<open>Properties\<close>

lemma over_limit_units:
  assumes "0 < q" "0 < m" "q * m < b" "q * m < MAX_SAFE_INTEGER"
  shows "m < unitsFrom (finiteNonNegative (js_int b)) q"
proof -
  define x where "x = finiteNonNegative (js_int b)"
  have b: "0 < b" using assms mult_pos_pos [of q m] by linarith
  have x: "x = of_int (min b MAX_SAFE_INTEGER)" using b by (simp add: x_def finiteNonNegative_def of_int_min)
  have lt: "q * m < min b MAX_SAFE_INTEGER" using assms by simp
  then have "of_int (m * q) < x" unfolding x by (simp add: mult.commute del: of_int_mult)
  then have "of_int m < x / of_int q" using assms(1) by (simp add: pos_less_divide_eq)
  then have "m < \<lceil>x / of_int q\<rceil>" by (simp add: less_ceiling_iff)
  moreover have "\<not> x \<le> 0" unfolding x using b by (simp add: MAX_SAFE_INTEGER_def)
  ultimately show ?thesis by (simp add: unitsFrom_def x_def)
qed

text \<open>
  The size of a body is measured exactly or charged at the maximum. For a configuration whose byte
  range fits a safe integer, either the iterative, budgeted walk over the body gives the exact number of
  bytes of the whole tree, or the request costs \<^verbatim>\<open>maxRequestCost\<close>; a body beyond the byte range always
  does. Stopping the walk early, for bytes or for nodes, never makes a request cheaper.
\<close>

theorem body_size_exact_or_maximal:
  assumes "resolveCostConfig p = Inr cfg" "bodyBytesPerUnit cfg * maxRequestCost cfg < MAX_SAFE_INTEGER"
    "extractAdmissionCostFeatures body ctx p = Inr f" "estimateAdmissionCost f p = Inr c"
  shows "(bodyBytes f = js_int (json_bytes body) \<or> c = maxRequestCost cfg) \<and>
    (json_bytes body > bodyBytesPerUnit cfg * maxRequestCost cfg \<longrightarrow> c = maxRequestCost cfg)"
proof -
  let ?lim = "bodyBytesPerUnit cfg * maxRequestCost cfg"
  let ?b = "estimateSizeFast body ?lim"
  have ok: "cost_config_ok cfg" by (rule resolveCostConfig_ok [OF assms(1)])
  have pos: "0 < bodyBytesPerUnit cfg" "0 < maxRequestCost cfg" "0 < baseCost cfg" using ok by (simp_all add: cost_config_ok_def)
  have f: "bodyBytes f = js_int ?b" using assms(1,3) by (auto simp: extractAdmissionCostFeatures_def Let_def)
  have c: "c = min (maxRequestCost cfg) (min (baseCost cfg) (maxRequestCost cfg) + sum_list (contributions f cfg))"
    using assms(1,4) capped_sum(1) [OF ok, of f] by (simp add: estimateAdmissionCost_def)
  have full: "c = maxRequestCost cfg" if "?lim < ?b"
  proof -
    have "maxRequestCost cfg < unitsFrom (finiteNonNegative (bodyBytes f)) (bodyBytesPerUnit cfg)"
      unfolding f by (rule over_limit_units [OF pos(1,2) that assms(2)])
    moreover have "unitsFrom (finiteNonNegative (bodyBytes f)) (bodyBytesPerUnit cfg) \<in> set (contributions f cfg)"
      by (simp add: contributions_def)
    then have "unitsFrom (finiteNonNegative (bodyBytes f)) (bodyBytesPerUnit cfg) \<le> sum_list (contributions f cfg)"
      using member_le_sum_list_int [of _ "contributions f cfg" "\<lambda>x. x"] contributions_nonneg [OF ok] by simp
    ultimately show ?thesis using c pos by linarith
  qed
  have "0 \<le> ?lim" using pos by simp
  then show ?thesis using estimateSizeFast_cases [of ?lim body] full f by auto
qed

definition demo_body :: json where
  "demo_body = JObj [(''model'', JStr ''gpt''), (''messages'', JArr [JObj [(''role'', JStr ''user''), (''content'', JStr ''hello'')]]), (''stream'', JBool True)]"

theorem body_size_exact_or_maximal_witness:
  "json_bytes demo_body = 16 \<and> estimateSizeFast demo_body 10 = 12 \<and>
   (\<exists>f c. extractAdmissionCostFeatures demo_body None no_overrides = Inr f \<and> estimateAdmissionCost f no_overrides = Inr c \<and>
      (bodyBytes f = js_int 16 \<or> c = 1000))"
proof -
  have b: "json_bytes demo_body = 16" "estimateSizeFast demo_body 10 = 12"
    by (simp_all add: demo_body_def estimateSizeFast_def ESTIMATE_SIZE_NODE_BUDGET_def walk.simps enqueueContainer_def addPrimitiveBytes_def)
  obtain f where f: "extractAdmissionCostFeatures demo_body None no_overrides = Inr f"
    by (simp add: extractAdmissionCostFeatures_def resolveCostConfig_default Let_def)
  obtain c where c: "estimateAdmissionCost f no_overrides = Inr c" by (simp add: estimateAdmissionCost_def resolveCostConfig_default)
  have "bodyBytes f = js_int 16 \<or> c = 1000"
    using body_size_exact_or_maximal [OF resolveCostConfig_default _ f c] b(1)
    by (simp add: DEFAULT_ADMISSION_COST_CONFIG_def MAX_SAFE_INTEGER_def)
  then show ?thesis using b f c by blast
qed

end
