(* ===== verification/Pressure_Policy.thy ===== *)
theory Pressure_Policy
  imports Js_Prelude
begin

text \<open>
  The resource-pressure policy of \<^verbatim>\<open>open-sse/utils/resourcePressurePolicy.ts\<close>: validation of thresholds,
  classification of one sample, and the tracker with its hysteresis. Byte counts are the finite numbers
  the sampler delivers, pressure-stall averages may be any JavaScript number. The opt-out read from the
  environment on every sample is an argument.
\<close>

section \<open>Samples and thresholds\<close>

datatype pressure_severity = Sev_normal | Sev_high | Sev_critical

datatype pressure_reason =
  R_none | R_v8_heap_ratio | R_v8_heap_absolute | R_cgroup_ratio | R_cgroup_high | R_psi_some | R_psi_full | R_oom_event

record cgroup_events =
  ev_low :: "rat option"
  ev_high :: "rat option"
  ev_max :: "rat option"
  ev_oom :: "rat option"
  ev_oom_kill :: "rat option"

record cgroup_signals =
  currentBytes :: "rat option"
  maxBytes :: "rat option"
  highBytes :: "rat option"
  fileBytes :: "rat option"
  cg_events :: "cgroup_events option"

datatype psi_source = Psi_cgroup | Psi_host

record psi_signals =
  someAvg10 :: "js_num option"
  someAvg60 :: "js_num option"
  someAvg300 :: "js_num option"
  fullAvg10 :: "js_num option"
  fullAvg60 :: "js_num option"
  fullAvg300 :: "js_num option"
  psiSource :: "psi_source option"

record signals =
  observedAtMs :: int
  heapUsedBytes :: rat
  heapLimitBytes :: rat
  cgroup :: cgroup_signals
  psi :: "psi_signals option"

record thresholds =
  highRatio :: rat
  criticalRatio :: rat
  recoveryRatio :: rat
  highPsiAvg10 :: rat
  criticalPsiAvg10 :: rat
  recoveryPsiAvg10 :: rat
  sustainedSamplesHigh :: nat
  sustainedSamplesCritical :: nat
  sustainedSamplesRecovery :: nat
  heapAbsoluteThresholdMb :: "rat option"

text \<open>A field of the partial thresholds is absent (\<open>None\<close>) or has a value, which may be \<^verbatim>\<open>undefined\<close>.\<close>

record partial_thresholds =
  p_highRatio :: "js_val option"
  p_criticalRatio :: "js_val option"
  p_recoveryRatio :: "js_val option"
  p_highPsiAvg10 :: "js_val option"
  p_criticalPsiAvg10 :: "js_val option"
  p_recoveryPsiAvg10 :: "js_val option"
  p_sustainedSamplesHigh :: "js_val option"
  p_sustainedSamplesCritical :: "js_val option"
  p_sustainedSamplesRecovery :: "js_val option"
  p_heapAbsoluteThresholdMb :: "js_val option"

definition no_thresholds :: partial_thresholds where
  "no_thresholds = \<lparr>p_highRatio = None, p_criticalRatio = None, p_recoveryRatio = None, p_highPsiAvg10 = None,
     p_criticalPsiAvg10 = None, p_recoveryPsiAvg10 = None, p_sustainedSamplesHigh = None,
     p_sustainedSamplesCritical = None, p_sustainedSamplesRecovery = None, p_heapAbsoluteThresholdMb = None\<rparr>"

definition MAX_SUSTAINED_SAMPLES :: int where
  "MAX_SUSTAINED_SAMPLES = 10000"

definition DEFAULT_RESOURCE_PRESSURE_THRESHOLDS :: thresholds where
  "DEFAULT_RESOURCE_PRESSURE_THRESHOLDS =
     \<lparr>highRatio = 85/100, criticalRatio = 92/100, recoveryRatio = 75/100, highPsiAvg10 = 30, criticalPsiAvg10 = 60,
      recoveryPsiAvg10 = 15, sustainedSamplesHigh = 2, sustainedSamplesCritical = 2, sustainedSamplesRecovery = 1,
      heapAbsoluteThresholdMb = None\<rparr>"

datatype threshold_error = Out_of_range string | Ratio_order | Psi_order | Bad_sample_count string | Bad_heap_threshold

definition requireFiniteRange :: "string \<Rightarrow> js_val \<Rightarrow> rat \<Rightarrow> rat \<Rightarrow> threshold_error + rat" where
  "requireFiniteRange name v lo hi =
     (case v of Num (Fin q) \<Rightarrow> if q < lo \<or> q > hi then Inl (Out_of_range name) else Inr q | _ \<Rightarrow> Inl (Out_of_range name))"

definition requirePositiveInteger :: "string \<Rightarrow> js_val \<Rightarrow> threshold_error + nat" where
  "requirePositiveInteger name v =
     (case v of
        Num (Fin q) \<Rightarrow>
          if \<not> is_integer q \<or> q < 1 \<or> q > of_int MAX_SUSTAINED_SAMPLES then Inl (Bad_sample_count name) else Inr (nat \<lfloor>q\<rfloor>)
      | _ \<Rightarrow> Inl (Bad_sample_count name))"

definition requireHeapThreshold :: "js_val \<Rightarrow> threshold_error + rat option" where
  "requireHeapThreshold v =
     (case v of
        Null \<Rightarrow> Inr None
      | Num (Fin q) \<Rightarrow> if q \<le> 0 then Inl Bad_heap_threshold else Inr (Some q)
      | _ \<Rightarrow> Inl Bad_heap_threshold)"

text \<open>The spread of the partial record over the defaults: a present field wins, even an undefined one.\<close>

definition field :: "js_val option \<Rightarrow> rat \<Rightarrow> js_val" where
  "field p d = (case p of Some v \<Rightarrow> v | None \<Rightarrow> Num (Fin d))"

definition resolveResourcePressureThresholds :: "partial_thresholds \<Rightarrow> threshold_error + thresholds" where
  "resolveResourcePressureThresholds p =
     (let d = DEFAULT_RESOURCE_PRESSURE_THRESHOLDS in
      sum_bind (requireFiniteRange ''recoveryRatio'' (field (p_recoveryRatio p) (recoveryRatio d)) 0 1) (\<lambda>rec.
      sum_bind (requireFiniteRange ''highRatio'' (field (p_highRatio p) (highRatio d)) 0 1) (\<lambda>high.
      sum_bind (requireFiniteRange ''criticalRatio'' (field (p_criticalRatio p) (criticalRatio d)) 0 1) (\<lambda>crit.
      if \<not> (rec < high \<and> high < crit) then Inl Ratio_order else
      sum_bind (requireFiniteRange ''recoveryPsiAvg10'' (field (p_recoveryPsiAvg10 p) (recoveryPsiAvg10 d)) 0 100) (\<lambda>prec.
      sum_bind (requireFiniteRange ''highPsiAvg10'' (field (p_highPsiAvg10 p) (highPsiAvg10 d)) 0 100) (\<lambda>phigh.
      sum_bind (requireFiniteRange ''criticalPsiAvg10'' (field (p_criticalPsiAvg10 p) (criticalPsiAvg10 d)) 0 100) (\<lambda>pcrit.
      if \<not> (prec < phigh \<and> phigh < pcrit) then Inl Psi_order else
      sum_bind (requirePositiveInteger ''sustainedSamplesHigh'' (field (p_sustainedSamplesHigh p) (of_nat (sustainedSamplesHigh d)))) (\<lambda>sh.
      sum_bind (requirePositiveInteger ''sustainedSamplesCritical'' (field (p_sustainedSamplesCritical p) (of_nat (sustainedSamplesCritical d)))) (\<lambda>sc.
      sum_bind (requirePositiveInteger ''sustainedSamplesRecovery'' (field (p_sustainedSamplesRecovery p) (of_nat (sustainedSamplesRecovery d)))) (\<lambda>sr.
      sum_bind (requireHeapThreshold (case p_heapAbsoluteThresholdMb p of Some v \<Rightarrow> v | None \<Rightarrow> Null)) (\<lambda>heap.
      Inr \<lparr>highRatio = high, criticalRatio = crit, recoveryRatio = rec, highPsiAvg10 = phigh, criticalPsiAvg10 = pcrit,
           recoveryPsiAvg10 = prec, sustainedSamplesHigh = sh, sustainedSamplesCritical = sc, sustainedSamplesRecovery = sr,
           heapAbsoluteThresholdMb = heap\<rparr>)))))))))))"

definition psiPressureDisabled :: "string option \<Rightarrow> bool" where
  "psiPressureDisabled raw =
     (case raw of None \<Rightarrow> False | Some r \<Rightarrow> toLowerCase (js_trim r) \<in> {''1'', ''true'', ''yes'', ''on''})"

section \<open>Classification of one sample\<close>

type_synonym raw_level = "pressure_severity \<times> pressure_reason"

fun severityRank :: "pressure_severity \<Rightarrow> nat" where
  "severityRank Sev_critical = 2"
| "severityRank Sev_high = 1"
| "severityRank Sev_normal = 0"

definition maxLevel :: "raw_level \<Rightarrow> raw_level option \<Rightarrow> raw_level" where
  "maxLevel current candidate =
     (case candidate of
        None \<Rightarrow> current
      | Some l \<Rightarrow> if severityRank (fst l) \<le> severityRank (fst current) then current else l)"

definition ratioLevel :: "rat option \<Rightarrow> rat option \<Rightarrow> thresholds \<Rightarrow> pressure_reason \<Rightarrow> raw_level option" where
  "ratioLevel used limit th reason =
     (case (used, limit) of
        (Some u, Some l) \<Rightarrow>
          if u < 0 \<or> l \<le> 0 then None
          else if u / l \<ge> criticalRatio th then Some (Sev_critical, reason)
          else if u / l \<ge> highRatio th then Some (Sev_high, reason)
          else None
      | _ \<Rightarrow> None)"

definition psiLevel :: "js_num option \<Rightarrow> thresholds \<Rightarrow> pressure_reason \<Rightarrow> raw_level option" where
  "psiLevel v th reason =
     (case v of
        Some (Fin q) \<Rightarrow>
          if q \<ge> criticalPsiAvg10 th then Some (Sev_critical, reason)
          else if q \<ge> highPsiAvg10 th then Some (Sev_high, reason)
          else None
      | _ \<Rightarrow> None)"

text \<open>A JavaScript number strictly above a finite bound; \<^verbatim>\<open>null\<close>, \<^verbatim>\<open>undefined\<close> and \<^verbatim>\<open>NaN\<close> are not.\<close>

definition above :: "js_num option \<Rightarrow> rat \<Rightarrow> bool" where
  "above v b = (case v of Some (Fin q) \<Rightarrow> q > b | Some PosInf \<Rightarrow> True | _ \<Rightarrow> False)"

definition grows :: "rat option \<Rightarrow> rat option \<Rightarrow> bool" where
  "grows a b = (case (a, b) of (Some x, Some y) \<Rightarrow> x < y | _ \<Rightarrow> False)"

text \<open>Two counters of \<^verbatim>\<open>memory.events\<close>: high and max, or oom and oom_kill.\<close>

type_synonym counters = "rat option \<times> rat option"

definition hasCounterIncreaseGeneric :: "counters \<Rightarrow> counters \<Rightarrow> bool" where
  "hasCounterIncreaseGeneric old new \<longleftrightarrow> grows (fst old) (fst new) \<or> grows (snd old) (snd new)"

definition throttleCountersReset :: "counters \<Rightarrow> counters \<Rightarrow> bool" where
  "throttleCountersReset old new \<longleftrightarrow> grows (fst new) (fst old) \<or> grows (snd new) (snd old)"

definition hasKernelThrottleProof :: "bool \<Rightarrow> signals \<Rightarrow> counters option \<Rightarrow> bool option" where
  "hasKernelThrottleProof psiOff s previousEvents =
     (let psiAboveZero = (case psi s of None \<Rightarrow> False | Some p \<Rightarrow> above (someAvg10 p) 0 \<or> above (fullAvg10 p) 0);
          cgroupPsi = (case psi s of None \<Rightarrow> False | Some p \<Rightarrow> psiSource p = Some Psi_cgroup)
      in case cg_events (cgroup s) of
           None \<Rightarrow> if psi s = None \<or> psiOff then None else Some psiAboveZero
         | Some ev \<Rightarrow>
             (case previousEvents of
                Some old \<Rightarrow>
                  if throttleCountersReset old (ev_high ev, ev_max ev) then Some False
                  else if hasCounterIncreaseGeneric old (ev_high ev, ev_max ev) then Some True
                  else if psi s = None \<or> psiOff then Some False
                  else Some (cgroupPsi \<and> psiAboveZero)
              | None \<Rightarrow>
                  if psi s = None then (if ev_high ev = None \<and> ev_max ev = None then None else Some False)
                  else if psiOff then Some False
                  else Some (psiAboveZero \<and> cgroupPsi)))"

definition workingSetBytes :: "cgroup_signals \<Rightarrow> rat option" where
  "workingSetBytes c =
     (case currentBytes c of
        None \<Rightarrow> None
      | Some cur \<Rightarrow>
          (case fileBytes c of
             None \<Rightarrow> Some cur
           | Some f \<Rightarrow> if f \<le> 0 then Some cur else if f > cur then Some cur else Some (cur - f)))"

definition psi_some10 :: "signals \<Rightarrow> js_num option" where
  "psi_some10 s = (case psi s of None \<Rightarrow> None | Some p \<Rightarrow> someAvg10 p)"

definition psi_full10 :: "signals \<Rightarrow> js_num option" where
  "psi_full10 s = (case psi s of None \<Rightarrow> None | Some p \<Rightarrow> fullAvg10 p)"

text \<open>The heap and working-set part both classifiers start with, and the pressure-stall part they end with.\<close>

definition memory_level :: "signals \<Rightarrow> thresholds \<Rightarrow> raw_level" where
  "memory_level s th =
     maxLevel (maxLevel (Sev_normal, R_none) (ratioLevel (Some (heapUsedBytes s)) (Some (heapLimitBytes s)) th R_v8_heap_ratio))
       (ratioLevel (workingSetBytes (cgroup s)) (maxBytes (cgroup s)) th R_cgroup_ratio)"

definition stall_level :: "bool \<Rightarrow> signals \<Rightarrow> thresholds \<Rightarrow> raw_level \<Rightarrow> raw_level" where
  "stall_level psiOff s th best =
     (if psiOff then best
      else maxLevel (maxLevel best (psiLevel (psi_some10 s) th R_psi_some)) (psiLevel (psi_full10 s) th R_psi_full))"

definition high_mark :: "signals \<Rightarrow> thresholds \<Rightarrow> raw_level option" where
  "high_mark s th = ratioLevel (currentBytes (cgroup s)) (highBytes (cgroup s)) th R_cgroup_high"

definition cgroupHighLevel :: "signals \<Rightarrow> thresholds \<Rightarrow> raw_level option" where
  "cgroupHighLevel s th =
     (case high_mark s th of
        Some (Sev_critical, _) \<Rightarrow> Some (Sev_high, R_cgroup_high)
      | l \<Rightarrow> l)"

definition classifyAdaptiveResourcePressure :: "bool \<Rightarrow> signals \<Rightarrow> thresholds \<Rightarrow> raw_level" where
  "classifyAdaptiveResourcePressure psiOff s th =
     stall_level psiOff s th (maxLevel (memory_level s th) (cgroupHighLevel s th))"

definition classifyAdaptiveResourcePressureWithHistory :: "bool \<Rightarrow> signals \<Rightarrow> thresholds \<Rightarrow> counters option \<Rightarrow> raw_level" where
  "classifyAdaptiveResourcePressureWithHistory psiOff s th previousEvents =
     stall_level psiOff s th
       (maxLevel (memory_level s th)
          (case high_mark s th of
             Some (Sev_critical, r) \<Rightarrow>
               if hasKernelThrottleProof psiOff s previousEvents = Some False then Some (Sev_high, R_cgroup_high)
               else Some (Sev_critical, r)
           | l \<Rightarrow> l))"

definition MB :: rat where
  "MB = 1024 * 1024"

definition over_recovery :: "thresholds \<Rightarrow> rat option \<times> rat option \<Rightarrow> bool" where
  "over_recovery th ul =
     (case ul of (Some u, Some l) \<Rightarrow> l > 0 \<and> u / l > recoveryRatio th | _ \<Rightarrow> False)"

definition isRecovered :: "bool \<Rightarrow> signals \<Rightarrow> thresholds \<Rightarrow> bool" where
  "isRecovered psiOff s th =
     (if list_ex (over_recovery th)
           [(Some (heapUsedBytes s), Some (heapLimitBytes s)),
            (workingSetBytes (cgroup s), maxBytes (cgroup s)),
            (currentBytes (cgroup s), highBytes (cgroup s))] then False
      else if (case heapAbsoluteThresholdMb th of None \<Rightarrow> False | Some mb \<Rightarrow> heapUsedBytes s / MB > mb * recoveryRatio th) then False
      else if psiOff then True
      else \<not> list_ex (\<lambda>v. above v (recoveryPsiAvg10 th)) [psi_some10 s, psi_full10 s])"

section \<open>The tracker\<close>

record pressure_state =
  ps_severity :: pressure_severity
  ps_reason :: pressure_reason
  elevatedStreak :: nat
  recoveryStreak :: nat
  lastTransitionAtMs :: int
  ps_observedAtMs :: int

definition initialState :: pressure_state where
  "initialState = \<lparr>ps_severity = Sev_normal, ps_reason = R_none, elevatedStreak = 0, recoveryStreak = 0,
     lastTransitionAtMs = 0, ps_observedAtMs = 0\<rparr>"

record tracker =
  tr_state :: pressure_state
  pending :: "raw_level option"
  previousOom :: "counters option"
  previousEvents :: "counters option"

definition new_tracker :: tracker where
  "new_tracker = \<lparr>tr_state = initialState, pending = None, previousOom = None, previousEvents = None\<rparr>"

definition hasCounterIncrease :: "counters \<Rightarrow> counters \<Rightarrow> bool" where
  "hasCounterIncrease old new \<longleftrightarrow> grows (fst old) (fst new) \<or> grows (snd old) (snd new)"

definition countersReset :: "counters \<Rightarrow> counters \<Rightarrow> bool" where
  "countersReset old new \<longleftrightarrow> grows (fst new) (fst old) \<or> grows (snd new) (snd old)"

definition oom_of :: "signals \<Rightarrow> counters option" where
  "oom_of s = map_option (\<lambda>ev. (ev_oom ev, ev_oom_kill ev)) (cg_events (cgroup s))"

definition throttle_of :: "signals \<Rightarrow> counters option" where
  "throttle_of s = map_option (\<lambda>ev. (ev_high ev, ev_max ev)) (cg_events (cgroup s))"

definition oom_event :: "signals \<Rightarrow> tracker \<Rightarrow> bool" where
  "oom_event s tr =
     (case (previousOom tr, oom_of s) of
        (Some old, Some new) \<Rightarrow> \<not> countersReset old new \<and> hasCounterIncrease old new
      | _ \<Rightarrow> False)"

definition rebased_events :: "signals \<Rightarrow> tracker \<Rightarrow> counters option" where
  "rebased_events s tr =
     (case (previousEvents tr, throttle_of s) of
        (Some old, Some new) \<Rightarrow> if throttleCountersReset old new then Some new else Some old
      | _ \<Rightarrow> previousEvents tr)"

definition raw_of :: "bool \<Rightarrow> thresholds \<Rightarrow> signals \<Rightarrow> tracker \<Rightarrow> raw_level" where
  "raw_of psiOff th s tr =
     (if oom_event s tr then (Sev_critical, R_oom_event)
      else classifyAdaptiveResourcePressureWithHistory psiOff s th (rebased_events s tr))"

definition needed :: "thresholds \<Rightarrow> pressure_severity \<Rightarrow> nat" where
  "needed th sev = (if sev = Sev_critical then sustainedSamplesCritical th else sustainedSamplesHigh th)"

text \<open>
  The decision on severity, reason, the two streaks and the pending level: the chain of branches of
  \<^verbatim>\<open>observe\<close>. \<open>escalate_to\<close> is the bookkeeping two of them share.
\<close>

type_synonym level_vars = "pressure_severity \<times> pressure_reason \<times> nat \<times> nat \<times> raw_level option"

definition escalate_to :: "raw_level \<Rightarrow> nat \<Rightarrow> raw_level option \<Rightarrow> pressure_state \<Rightarrow> level_vars" where
  "escalate_to raw n pend st =
     (let streak = (if pend = Some raw then elevatedStreak st + 1 else 1) in
      if streak \<ge> n then (fst raw, snd raw, 0, 0, None)
      else (ps_severity st, ps_reason st, streak, 0, Some raw))"

definition advance :: "thresholds \<Rightarrow> bool \<Rightarrow> raw_level \<Rightarrow> bool \<Rightarrow> raw_level option \<Rightarrow> pressure_state \<Rightarrow> level_vars" where
  "advance th oom raw recovered pend st =
     (let sev = ps_severity st in
      if oom then (Sev_critical, R_oom_event, 0, 0, None)
      else if sev = Sev_normal then
        (if fst raw = Sev_normal then (sev, R_none, 0, 0, None)
         else escalate_to raw (needed th (fst raw)) pend st)
      else if sev = Sev_high \<and> fst raw = Sev_critical then
        escalate_to raw (sustainedSamplesCritical th) pend st
      else if fst raw = sev then (sev, snd raw, 0, 0, None)
      else if recovered then
        (if recoveryStreak st + 1 \<ge> sustainedSamplesRecovery th then (Sev_normal, R_none, 0, 0, None)
         else (sev, ps_reason st, 0, recoveryStreak st + 1, None))
      else (sev, ps_reason st, 0, 0, None))"

definition observe :: "bool \<Rightarrow> thresholds \<Rightarrow> signals \<Rightarrow> tracker \<Rightarrow> tracker" where
  "observe psiOff th s tr =
     (let st = tr_state tr;
          (sev, reason, el, rec, pend) =
            advance th (oom_event s tr) (raw_of psiOff th s tr) (isRecovered psiOff s th) (pending tr) st;
          transitioned = (sev \<noteq> ps_severity st \<or> reason \<noteq> ps_reason st)
      in \<lparr>tr_state = \<lparr>ps_severity = sev, ps_reason = reason, elevatedStreak = el, recoveryStreak = rec,
            lastTransitionAtMs = (if transitioned then observedAtMs s else lastTransitionAtMs st), ps_observedAtMs = observedAtMs s\<rparr>,
          pending = pend, previousOom = oom_of s, previousEvents = throttle_of s\<rparr>)"

section \<open>What validation guarantees\<close>

definition thresholds_ok :: "thresholds \<Rightarrow> bool" where
  "thresholds_ok th \<longleftrightarrow>
     0 \<le> recoveryRatio th \<and> recoveryRatio th < highRatio th \<and> highRatio th < criticalRatio th \<and> criticalRatio th \<le> 1 \<and>
     0 \<le> recoveryPsiAvg10 th \<and> recoveryPsiAvg10 th < highPsiAvg10 th \<and> highPsiAvg10 th < criticalPsiAvg10 th \<and> criticalPsiAvg10 th \<le> 100 \<and>
     1 \<le> sustainedSamplesHigh th \<and> 1 \<le> sustainedSamplesCritical th \<and> 1 \<le> sustainedSamplesRecovery th \<and>
     (\<forall>mb. heapAbsoluteThresholdMb th = Some mb \<longrightarrow> 0 < mb)"

lemma requireFiniteRange_Inr [simp]:
  "requireFiniteRange name v lo hi = Inr q \<longleftrightarrow> v = Num (Fin q) \<and> lo \<le> q \<and> q \<le> hi"
  by (auto simp: requireFiniteRange_def split: js_val.splits js_num.splits)

lemma requirePositiveInteger_pos: "requirePositiveInteger name v = Inr n \<Longrightarrow> 1 \<le> n"
  by (auto simp: requirePositiveInteger_def nat_le_eq_zle le_nat_iff le_floor_iff split: js_val.splits js_num.splits if_splits)

lemma requireHeapThreshold_pos: "requireHeapThreshold v = Inr (Some mb) \<Longrightarrow> 0 < mb"
  by (auto simp: requireHeapThreshold_def split: js_val.splits js_num.splits if_splits)

lemma resolved_thresholds_ok: "resolveResourcePressureThresholds p = Inr th \<Longrightarrow> thresholds_ok th"
  by (auto simp: resolveResourcePressureThresholds_def Let_def thresholds_ok_def dest: requirePositiveInteger_pos requireHeapThreshold_pos
      split: if_splits)

section \<open>The hysteresis gap\<close>

text \<open>No sample is both elevated and recovered: every level is taken at a mark above the recovery mark.\<close>

lemma maxLevel_elevated:
  "fst (maxLevel l c) \<noteq> Sev_normal \<Longrightarrow> fst l \<noteq> Sev_normal \<or> (\<exists>l'. c = Some l' \<and> fst l' \<noteq> Sev_normal)"
  by (auto simp: maxLevel_def split: option.splits if_splits)

lemma ratioLevel_over: "ratioLevel u l th r = Some x \<Longrightarrow> thresholds_ok th \<Longrightarrow> over_recovery th (u, l)"
  by (auto simp: ratioLevel_def over_recovery_def thresholds_ok_def split: option.splits if_splits)

lemma psiLevel_above: "psiLevel v th r = Some x \<Longrightarrow> thresholds_ok th \<Longrightarrow> above v (recoveryPsiAvg10 th)"
  by (auto simp: psiLevel_def above_def thresholds_ok_def split: option.splits js_num.splits if_splits)

lemma memory_level_over:
  assumes "fst (memory_level s th) \<noteq> Sev_normal" "thresholds_ok th" shows "\<not> isRecovered psiOff s th"
proof -
  have "(\<exists>x. ratioLevel (Some (heapUsedBytes s)) (Some (heapLimitBytes s)) th R_v8_heap_ratio = Some x) \<or>
      (\<exists>x. ratioLevel (workingSetBytes (cgroup s)) (maxBytes (cgroup s)) th R_cgroup_ratio = Some x)"
    using assms(1) unfolding memory_level_def by (auto dest!: maxLevel_elevated)
  then show ?thesis using ratioLevel_over [OF _ assms(2)] by (auto simp: isRecovered_def)
qed

lemma high_mark_over: "high_mark s th = Some x \<Longrightarrow> thresholds_ok th \<Longrightarrow> \<not> isRecovered psiOff s th"
  unfolding high_mark_def by (drule ratioLevel_over) (auto simp: isRecovered_def)

lemma stall_level_over:
  assumes "fst (stall_level psiOff s th best) \<noteq> Sev_normal" "thresholds_ok th"
  shows "fst best \<noteq> Sev_normal \<or> \<not> isRecovered psiOff s th"
proof (cases psiOff)
  case False
  have "fst best \<noteq> Sev_normal \<or> (\<exists>x. psiLevel (psi_some10 s) th R_psi_some = Some x) \<or> (\<exists>x. psiLevel (psi_full10 s) th R_psi_full = Some x)"
    using assms(1) False unfolding stall_level_def by (auto dest!: maxLevel_elevated)
  then show ?thesis using psiLevel_above [OF _ assms(2)] False by (auto simp: isRecovered_def)
qed (use assms in \<open>simp add: stall_level_def\<close>)

lemma classified_not_recovered:
  assumes "fst (classifyAdaptiveResourcePressureWithHistory psiOff s th old) \<noteq> Sev_normal" "thresholds_ok th"
  shows "\<not> isRecovered psiOff s th"
proof
  assume rec: "isRecovered psiOff s th"
  have none: "high_mark s th = None" using high_mark_over [OF _ assms(2)] rec by (cases "high_mark s th") auto
  have "fst (maxLevel (memory_level s th) None) \<noteq> Sev_normal"
    using stall_level_over [OF assms(1) [unfolded classifyAdaptiveResourcePressureWithHistory_def] assms(2)] rec none by simp
  then show False using memory_level_over [OF _ assms(2)] rec by (simp add: maxLevel_def)
qed

text \<open>The total charge above the high mark becomes critical only with proof of throttling, or with no evidence either way.\<close>

lemma maxLevel_reason: "maxLevel l c = x \<Longrightarrow> x = l \<or> c = Some x"
  by (auto simp: maxLevel_def split: option.splits if_splits)

lemma cgroup_high_needs_proof:
  assumes "classifyAdaptiveResourcePressureWithHistory psiOff s th old = (Sev_critical, R_cgroup_high)"
  shows "hasKernelThrottleProof psiOff s old \<noteq> Some False"
proof
  assume p: "hasKernelThrottleProof psiOff s old = Some False"
  have r: "ratioLevel u l th r = Some (v, r') \<Longrightarrow> r' = r" for u l r v r'
    by (auto simp: ratioLevel_def split: option.splits if_splits)
  have q: "psiLevel u th r = Some (v, r') \<Longrightarrow> r' = r" for u r v r'
    by (auto simp: psiLevel_def split: option.splits js_num.splits if_splits)
  have m: "maxLevel l c = (v, r') \<Longrightarrow> l = (v, r') \<or> c = Some (v, r')" for l c v r' by (drule maxLevel_reason) auto
  let ?h = "case high_mark s th of
      Some (Sev_critical, r) \<Rightarrow>
        if hasKernelThrottleProof psiOff s old = Some False then Some (Sev_high, R_cgroup_high) else Some (Sev_critical, r)
    | l \<Rightarrow> l"
  have h: "?h \<noteq> Some (Sev_critical, R_cgroup_high)" using p by (auto split: option.splits pressure_severity.splits)
  have mem: "memory_level s th \<noteq> (Sev_critical, R_cgroup_high)" unfolding memory_level_def by (auto dest!: m r)
  have "maxLevel (memory_level s th) ?h = (Sev_critical, R_cgroup_high)"
    using assms unfolding classifyAdaptiveResourcePressureWithHistory_def stall_level_def by (auto dest!: m q split: if_splits)
  then show False using m h mem by blast
qed

section \<open>Histories of samples\<close>

text \<open>
  A history is the list of samples with the opt-out in force at each. \<open>facts\<close> are what the tracker saw: an
  out-of-memory event, the classified level, and whether the sample counts as recovered.
\<close>

type_synonym fact = "bool \<times> raw_level \<times> bool"

definition fact_of :: "thresholds \<Rightarrow> tracker \<Rightarrow> bool \<times> signals \<Rightarrow> fact" where
  "fact_of th tr x = (oom_event (snd x) tr, raw_of (fst x) th (snd x) tr, isRecovered (fst x) (snd x) th)"

fun track :: "thresholds \<Rightarrow> (bool \<times> signals) list \<Rightarrow> tracker \<Rightarrow> fact list \<times> tracker" where
  "track th [] tr = ([], tr)"
| "track th (x # xs) tr =
     (let (fs, tr') = track th xs (observe (fst x) th (snd x) tr) in (fact_of th tr x # fs, tr'))"

lemma track_snoc:
  "track th (xs @ [x]) tr =
     (let (fs, tr') = track th xs tr in (fs @ [fact_of th tr' x], observe (fst x) th (snd x) tr'))"
  by (induction xs arbitrary: tr) (auto simp: Let_def split: prod.splits)

text \<open>The last \<open>n\<close> facts exist and satisfy \<open>P\<close>.\<close>

definition last_n :: "nat \<Rightarrow> ('a \<Rightarrow> bool) \<Rightarrow> 'a list \<Rightarrow> bool" where
  "last_n n P fs \<longleftrightarrow> n \<le> length fs \<and> list_all P (drop (length fs - n) fs)"

lemma last_n_0 [simp]: "last_n 0 P fs"
  by (simp add: last_n_def)

lemma last_n_snoc [simp]: "last_n (Suc n) P (fs @ [f]) \<longleftrightarrow> P f \<and> last_n n P fs"
  by (auto simp: last_n_def)

lemma last_n_mono: "last_n k P fs \<Longrightarrow> n \<le> k \<Longrightarrow> last_n n P fs"
proof -
  assume k: "last_n k P fs" and "n \<le> k"
  then have "set (drop (length fs - n) fs) \<subseteq> set (drop (length fs - k) fs)" by (intro set_drop_subset_set_drop) simp
  then show ?thesis using k \<open>n \<le> k\<close> by (auto simp: last_n_def list_all_iff)
qed

definition elevated_fact :: "raw_level \<Rightarrow> fact \<Rightarrow> bool" where
  "elevated_fact l f \<longleftrightarrow> \<not> fst f \<and> fst (snd f) = l"

definition calm_fact :: "fact \<Rightarrow> bool" where
  "calm_fact f \<longleftrightarrow> \<not> fst f \<and> fst (fst (snd f)) = Sev_normal \<and> snd (snd f)"

text \<open>The streaks count what they say.\<close>

definition streaks_ok :: "fact list \<Rightarrow> tracker \<Rightarrow> bool" where
  "streaks_ok fs tr \<longleftrightarrow>
     (case pending tr of
        None \<Rightarrow> True
      | Some l \<Rightarrow> last_n (elevatedStreak (tr_state tr)) (elevated_fact l) fs) \<and>
     last_n (recoveryStreak (tr_state tr)) calm_fact fs"

lemma streaks_okI:
  "(\<And>l. pending tr = Some l \<Longrightarrow> last_n (elevatedStreak (tr_state tr)) (elevated_fact l) fs) \<Longrightarrow>
   last_n (recoveryStreak (tr_state tr)) calm_fact fs \<Longrightarrow> streaks_ok fs tr"
  by (auto simp: streaks_ok_def split: option.splits)

lemma recovered_calm:
  assumes "thresholds_ok th" "\<not> oom_event (snd x) tr" "isRecovered (fst x) (snd x) th"
  shows "calm_fact (fact_of th tr x)"
proof -
  have "fst (raw_of (fst x) th (snd x) tr) = Sev_normal"
    using classified_not_recovered [of "fst x" "snd x" th "rebased_events (snd x) tr"] assms by (auto simp: raw_of_def)
  then show ?thesis using assms by (simp add: calm_fact_def fact_of_def)
qed

lemma observe_fields:
  assumes "advance th (oom_event s tr) (raw_of psiOff th s tr) (isRecovered psiOff s th) (pending tr) (tr_state tr) = (sev, reason, el, rec, pend)"
  shows "ps_severity (tr_state (observe psiOff th s tr)) = sev" "ps_reason (tr_state (observe psiOff th s tr)) = reason"
    "elevatedStreak (tr_state (observe psiOff th s tr)) = el" "recoveryStreak (tr_state (observe psiOff th s tr)) = rec"
    "pending (observe psiOff th s tr) = pend"
  using assms by (simp_all add: observe_def Let_def)

text \<open>One decision, given that the streaks so far count what they say.\<close>

lemma escalate_to_sound:
  assumes "escalate_to raw n pend st = (sev, reason, el, rec, pend')" "elevated_fact raw f"
    "pend = Some raw \<Longrightarrow> last_n (elevatedStreak st) (elevated_fact raw) fs"
  shows "rec = 0"
    and "pend' = Some l \<Longrightarrow> last_n el (elevated_fact l) (fs @ [f])"
    and "sev = ps_severity st \<or> sev = fst raw \<and> reason = snd raw \<and> (1 \<le> n \<longrightarrow> last_n n (elevated_fact raw) (fs @ [f]))"
proof -
  define k where "k = (if pend = Some raw then elevatedStreak st + 1 else 1)"
  have k: "last_n k (elevated_fact raw) (fs @ [f])" using assms(2,3) by (auto simp: k_def)
  have e: "(sev, reason, el, rec, pend') = (if k \<ge> n then (fst raw, snd raw, 0, 0, None) else (ps_severity st, ps_reason st, k, 0, Some raw))"
    using assms(1) unfolding escalate_to_def Let_def k_def by (rule sym)
  have less: "last_n n (elevated_fact raw) (fs @ [f])" if "n \<le> k"
    by (rule last_n_mono [OF k that])
  show "rec = 0" using e by (simp split: if_splits)
  show "last_n el (elevated_fact l) (fs @ [f])" if "pend' = Some l" using e that k by (simp split: if_splits)
  show "sev = ps_severity st \<or> sev = fst raw \<and> reason = snd raw \<and> (1 \<le> n \<longrightarrow> last_n n (elevated_fact raw) (fs @ [f]))"
    using e less by (auto split: if_splits)
qed

lemma advance_sound:
  assumes "advance th (fst f) (fst (snd f)) (snd (snd f)) pend st = (sev, reason, el, rec, pend')"
    "\<And>l. pend = Some l \<Longrightarrow> last_n (elevatedStreak st) (elevated_fact l) fs"
    "last_n (recoveryStreak st) calm_fact fs" "thresholds_ok th"
    "\<not> fst f \<Longrightarrow> snd (snd f) \<Longrightarrow> calm_fact f"
  shows "last_n rec calm_fact (fs @ [f])"
    and "pend' = Some l \<Longrightarrow> last_n el (elevated_fact l) (fs @ [f])"
    and "severityRank (ps_severity st) < severityRank sev \<Longrightarrow>
      fst f \<and> sev = Sev_critical \<and> reason = R_oom_event \<or> last_n (needed th sev) (elevated_fact (sev, reason)) (fs @ [f])"
    and "severityRank sev < severityRank (ps_severity st) \<Longrightarrow>
      sev = Sev_normal \<and> last_n (sustainedSamplesRecovery th) calm_fact (fs @ [f])"
proof -
  have pos: "1 \<le> sustainedSamplesHigh th" "1 \<le> sustainedSamplesCritical th" using assms(4) by (simp_all add: thresholds_ok_def)
  have ef: "\<not> fst f \<Longrightarrow> elevated_fact (fst (snd f)) f" by (simp add: elevated_fact_def)
  consider (oom) "fst f" "(sev, reason, el, rec, pend') = (Sev_critical, R_oom_event, 0, 0, None)"
    | (up) n where "\<not> fst f" "escalate_to (fst (snd f)) n pend st = (sev, reason, el, rec, pend')"
        "severityRank (ps_severity st) < severityRank (fst (fst (snd f)))" "n = needed th (fst (fst (snd f)))"
    | (stay) "sev = ps_severity st" "el = 0" "rec = 0" "pend' = None"
    | (rec) "\<not> fst f" "snd (snd f)" "(sev, reason, el, rec, pend') = (if recoveryStreak st + 1 \<ge> sustainedSamplesRecovery th then (Sev_normal, R_none, 0, 0, None)
         else (ps_severity st, ps_reason st, 0, recoveryStreak st + 1, None))"
    using assms(1) unfolding advance_def Let_def
    by (cases "ps_severity st"; cases "fst (fst (snd f))") (auto simp: needed_def split: if_splits)
  note cases = this
  show "last_n rec calm_fact (fs @ [f])"
    using cases
  proof cases
    case up
    then show ?thesis using escalate_to_sound(1) [OF up(2) ef assms(2)] by simp
  next
    case rec
    then show ?thesis using assms(3,5) by (auto split: if_splits)
  qed auto
  show "last_n el (elevated_fact l) (fs @ [f])" if "pend' = Some l"
    using cases
  proof cases
    case up
    then show ?thesis using escalate_to_sound(2) [OF up(2) ef assms(2) that] by simp
  qed (use that in \<open>auto split: if_splits\<close>)
  show "fst f \<and> sev = Sev_critical \<and> reason = R_oom_event \<or> last_n (needed th sev) (elevated_fact (sev, reason)) (fs @ [f])"
    if "severityRank (ps_severity st) < severityRank sev"
    using cases
  proof cases
    case up
    then show ?thesis using escalate_to_sound(3) [OF up(2) ef assms(2)] that pos by (cases "fst (snd f)") (auto simp: needed_def split: if_splits)
  qed (use that in \<open>auto split: if_splits\<close>)
  show "sev = Sev_normal \<and> last_n (sustainedSamplesRecovery th) calm_fact (fs @ [f])"
    if "severityRank sev < severityRank (ps_severity st)"
    using cases
  proof cases
    case up
    then show ?thesis using escalate_to_sound(3) [OF up(2) ef assms(2)] that by auto
  next
    case rec
    have l: "last_n (Suc (recoveryStreak st)) calm_fact (fs @ [f])" using rec assms(3,5) by simp
    have "last_n (sustainedSamplesRecovery th) calm_fact (fs @ [f])" if "sustainedSamplesRecovery th \<le> Suc (recoveryStreak st)"
      by (rule last_n_mono [OF l that])
    then show ?thesis using rec that by (auto split: if_splits)
  next
    case oom
    then show ?thesis using that by (cases "ps_severity st") auto
  qed (use that in auto)
qed

lemma streaks_okD:
  assumes "streaks_ok fs tr"
  shows "pending tr = Some l \<Longrightarrow> last_n (elevatedStreak (tr_state tr)) (elevated_fact l) fs"
    and "last_n (recoveryStreak (tr_state tr)) calm_fact fs"
  using assms by (auto simp: streaks_ok_def)

lemma observe_advance:
  "advance th (fst (fact_of th tr x)) (fst (snd (fact_of th tr x))) (snd (snd (fact_of th tr x))) (pending tr) (tr_state tr) =
     (let t = observe (fst x) th (snd x) tr in
      (ps_severity (tr_state t), ps_reason (tr_state t), elevatedStreak (tr_state t), recoveryStreak (tr_state t), pending t))"
proof -
  obtain sev reason el rec pend where
    "advance th (oom_event (snd x) tr) (raw_of (fst x) th (snd x) tr) (isRecovered (fst x) (snd x) th) (pending tr) (tr_state tr) = (sev, reason, el, rec, pend)"
    by (metis prod_cases5)
  then show ?thesis using observe_fields by (simp add: fact_of_def Let_def)
qed

lemma fact_calm: "thresholds_ok th \<Longrightarrow> \<not> fst (fact_of th tr x) \<Longrightarrow> snd (snd (fact_of th tr x)) \<Longrightarrow> calm_fact (fact_of th tr x)"
  by (rule recovered_calm) (simp_all add: fact_of_def)

lemma observe_sound:
  fixes x tr th
  defines "f \<equiv> fact_of th tr x" and "t \<equiv> observe (fst x) th (snd x) tr"
  assumes ok: "streaks_ok fs tr" and th: "thresholds_ok th"
  shows "streaks_ok (fs @ [f]) t"
    and "severityRank (ps_severity (tr_state tr)) < severityRank (ps_severity (tr_state t)) \<Longrightarrow>
      fst f \<and> ps_severity (tr_state t) = Sev_critical \<and> ps_reason (tr_state t) = R_oom_event \<or>
      last_n (needed th (ps_severity (tr_state t))) (elevated_fact (ps_severity (tr_state t), ps_reason (tr_state t))) (fs @ [f])"
    and "severityRank (ps_severity (tr_state t)) < severityRank (ps_severity (tr_state tr)) \<Longrightarrow>
      ps_severity (tr_state t) = Sev_normal \<and> last_n (sustainedSamplesRecovery th) calm_fact (fs @ [f])"
proof -
  have calm: "\<not> fst f \<Longrightarrow> snd (snd f) \<Longrightarrow> calm_fact f" unfolding f_def by (rule fact_calm [OF th])
  note adv = observe_advance [of th tr x, folded f_def t_def, unfolded Let_def]
  note d = streaks_okD [OF ok]
  have "last_n (recoveryStreak (tr_state t)) calm_fact (fs @ [f])" by (rule advance_sound(1) [OF adv]) (fact d th calm)+
  moreover have "last_n (elevatedStreak (tr_state t)) (elevated_fact l) (fs @ [f])" if "pending t = Some l" for l
    by (rule advance_sound(2) [OF adv]) (fact d th calm that)+
  ultimately show "streaks_ok (fs @ [f]) t" by (intro streaks_okI)
  show "fst f \<and> ps_severity (tr_state t) = Sev_critical \<and> ps_reason (tr_state t) = R_oom_event \<or>
      last_n (needed th (ps_severity (tr_state t))) (elevated_fact (ps_severity (tr_state t), ps_reason (tr_state t))) (fs @ [f])"
    if "severityRank (ps_severity (tr_state tr)) < severityRank (ps_severity (tr_state t))"
    by (rule advance_sound(3) [OF adv]) (fact d th calm that)+
  show "ps_severity (tr_state t) = Sev_normal \<and> last_n (sustainedSamplesRecovery th) calm_fact (fs @ [f])"
    if "severityRank (ps_severity (tr_state t)) < severityRank (ps_severity (tr_state tr))"
    by (rule advance_sound(4) [OF adv]) (fact d th calm that)+
qed

lemma track_streaks_ok:
  assumes "thresholds_ok th" "track th xs new_tracker = (fs, tr)" shows "streaks_ok fs tr"
  using assms(2)
proof (induction xs arbitrary: fs tr rule: rev_induct)
  case Nil
  then show ?case by (auto simp: streaks_ok_def new_tracker_def initialState_def)
next
  case (snoc x xs)
  obtain fs0 tr0 where t: "track th xs new_tracker = (fs0, tr0)" by fastforce
  have eqs: "fs = fs0 @ [fact_of th tr0 x]" "tr = observe (fst x) th (snd x) tr0" using snoc.prems t by (simp_all add: track_snoc)
  show ?case unfolding eqs by (rule observe_sound(1) [OF snoc.IH [OF t] assms(1)])
qed

section \<open>Properties\<close>

text \<open>
  C18. The tracker never moves on one sample alone, and never flaps. Fix thresholds that passed
  validation and any history of samples. If the severity rises with the last sample, that sample is an
  out-of-memory event, or the configured number of last samples all have exactly the new level and
  reason. If the severity falls, it falls to normal, and the configured number of last samples are all
  below every recovery mark; such samples are never themselves elevated.
\<close>

theorem severity_changes_justified:
  assumes "resolveResourcePressureThresholds p = Inr th" "track th xs new_tracker = (fs, tr)" "track th (xs @ [x]) new_tracker = (fs', tr')"
  shows "(severityRank (ps_severity (tr_state tr)) < severityRank (ps_severity (tr_state tr')) \<longrightarrow>
      fst (last fs') \<and> ps_severity (tr_state tr') = Sev_critical \<and> ps_reason (tr_state tr') = R_oom_event \<or>
      last_n (needed th (ps_severity (tr_state tr'))) (elevated_fact (ps_severity (tr_state tr'), ps_reason (tr_state tr'))) fs') \<and>
    (severityRank (ps_severity (tr_state tr')) < severityRank (ps_severity (tr_state tr)) \<longrightarrow>
      ps_severity (tr_state tr') = Sev_normal \<and> last_n (sustainedSamplesRecovery th) calm_fact fs')"
proof -
  have th: "thresholds_ok th" by (rule resolved_thresholds_ok [OF assms(1)])
  have eqs: "fs' = fs @ [fact_of th tr x]" "tr' = observe (fst x) th (snd x) tr" using assms(2,3) by (simp_all add: track_snoc)
  show ?thesis unfolding eqs using observe_sound(2,3) [OF track_streaks_ok [OF th assms(2)] th, of x] by auto
qed

definition demo_signals :: "int \<Rightarrow> rat \<Rightarrow> signals" where
  "demo_signals t used = \<lparr>observedAtMs = t, heapUsedBytes = used, heapLimitBytes = 100,
     cgroup = \<lparr>currentBytes = None, maxBytes = None, highBytes = None, fileBytes = None, cg_events = None\<rparr>, psi = None\<rparr>"

theorem severity_changes_justified_witness:
  "map (\<lambda>n. ps_severity (tr_state (snd (track DEFAULT_RESOURCE_PRESSURE_THRESHOLDS (take n [(False, demo_signals 1 95), (False, demo_signals 2 95), (False, demo_signals 3 80), (False, demo_signals 4 70)]) new_tracker))))
     [1, 2, 3, 4] = [Sev_normal, Sev_critical, Sev_critical, Sev_normal] \<and>
   last_n 1 calm_fact (fst (track DEFAULT_RESOURCE_PRESSURE_THRESHOLDS [(False, demo_signals 1 95), (False, demo_signals 2 95), (False, demo_signals 3 80), (False, demo_signals 4 70)] new_tracker))"
proof -
  let ?xs = "[(False, demo_signals 1 95), (False, demo_signals 2 95), (False, demo_signals 3 80)]"
  let ?x = "(False, demo_signals 4 70)"
  let ?th = DEFAULT_RESOURCE_PRESSURE_THRESHOLDS
  have res: "resolveResourcePressureThresholds no_thresholds = Inr ?th" by code_simp
  have a: "map (\<lambda>n. ps_severity (tr_state (snd (track ?th (take n (?xs @ [?x])) new_tracker)))) [1, 2, 3, 4] =
    [Sev_normal, Sev_critical, Sev_critical, Sev_normal]" by code_simp
  obtain fs tr where t: "track ?th ?xs new_tracker = (fs, tr)" by fastforce
  obtain fs' tr' where t': "track ?th (?xs @ [?x]) new_tracker = (fs', tr')" by fastforce
  have "ps_severity (tr_state tr) = Sev_critical" "ps_severity (tr_state tr') = Sev_normal" using a t t' by simp_all
  then have "last_n 1 calm_fact fs'" using severity_changes_justified [OF res t t']
    by (simp add: DEFAULT_RESOURCE_PRESSURE_THRESHOLDS_def)
  then show ?thesis using a t' by simp
qed

end
