(* ===== verification/Pressure_Guard.thy ===== *)
theory Pressure_Guard
  imports Pressure_Policy Step_Systems
begin

text \<open>
  The pressure guard of \<^verbatim>\<open>open-sse/utils/resourcePressure.ts\<close> with the heap threshold of
  \<^verbatim>\<open>open-sse/utils/heapPressure.ts\<close>: the closure returned by \<^verbatim>\<open>createResourcePressureRuntime\<close> as a record of
  its variables. Sampling is asynchronous, so a refresh is two events: its start, and its settling with a
  sample or a failure. The 503 response is the reason it carries. Ghost fields: the samples that settled,
  their time and the severity after them (newest first), and the exits of the self-restart circuit with
  the log at that moment.
\<close>

section \<open>Options\<close>

definition computeHeapPressureThresholdMb :: "rat \<Rightarrow> js_num \<Rightarrow> rat" where
  "computeHeapPressureThresholdMb heapSizeLimitMb explicit =
     (case explicit of
        Fin q \<Rightarrow> if q > 0 then of_int \<lfloor>q\<rfloor> else max (of_int \<lfloor>heapSizeLimitMb * 85/100 + 1/2\<rfloor>) 400
      | _ \<Rightarrow> max (of_int \<lfloor>heapSizeLimitMb * 85/100 + 1/2\<rfloor>) 400)"

record guard_input =
  i_thresholds :: partial_thresholds
  i_heapThresholdMb :: js_val
  i_staleAfterMs :: js_val
  i_maxStaleMs :: js_val
  i_retryAfterMs :: js_val
  i_enabled :: "bool option"
  i_afterMs :: js_val
  i_exitCode :: js_val
  env_selfRestart :: "string option"
  env_afterMs :: "js_num option"

record guard_opts =
  g_thresholds :: thresholds
  heapThresholdMb :: "rat option"
  staleAfterMs :: int
  maxStaleMs :: int
  g_retryAfterMs :: int
  restart_enabled :: bool
  restart_afterMs :: int
  restart_exitCode :: int

datatype guard_error =
  Bad_thresholds threshold_error | Bad_heapThreshold | Bad_duration string | Stale_order | Bad_exitCode

definition requireDuration :: "string \<Rightarrow> js_val \<Rightarrow> guard_error + int" where
  "requireDuration name v =
     (case v of
        Num (Fin q) \<Rightarrow> if \<not> is_integer q \<or> q < 0 \<or> q > 3600000 then Inl (Bad_duration name) else Inr \<lfloor>q\<rfloor>
      | _ \<Rightarrow> Inl (Bad_duration name))"

definition envFlagEnabled :: "string option \<Rightarrow> bool" where
  "envFlagEnabled raw = (case raw of None \<Rightarrow> False | Some r \<Rightarrow> toLowerCase (js_trim r) \<in> {''1'', ''true'', ''yes'', ''on''})"

definition SELF_RESTART_DEFAULT_AFTER_MS :: int where
  "SELF_RESTART_DEFAULT_AFTER_MS = 120000"

text \<open>\<open>env_afterMs\<close> is \<^verbatim>\<open>Number(rawAfter)\<close>, absent when the variable is unset or blank.\<close>

definition resolveSelfRestartOptions :: "guard_input \<Rightarrow> guard_error + (bool \<times> int \<times> int)" where
  "resolveSelfRestartOptions i =
     (let enabled = (case i_enabled i of Some b \<Rightarrow> b | None \<Rightarrow> envFlagEnabled (env_selfRestart i));
          envAfter = (case env_afterMs i of Some (Fin q) \<Rightarrow> Num (Fin q) | _ \<Rightarrow> Undefined)
      in sum_bind (requireDuration ''selfRestart.afterMs'' (nullish (i_afterMs i) (nullish envAfter (js_int SELF_RESTART_DEFAULT_AFTER_MS)))) (\<lambda>afterMs.
         case nullish (i_exitCode i) (js_int 1) of
           Num (Fin q) \<Rightarrow> if \<not> is_integer q \<or> q < 1 \<or> q > 255 then Inl Bad_exitCode else Inr (enabled, afterMs, \<lfloor>q\<rfloor>)
         | _ \<Rightarrow> Inl Bad_exitCode))"

definition resolve_heapThreshold :: "rat \<Rightarrow> js_val \<Rightarrow> guard_error + rat option" where
  "resolve_heapThreshold dflt v =
     (case v of
        Undefined \<Rightarrow> if dflt \<le> 0 then Inl Bad_heapThreshold else Inr (Some dflt)
      | Null \<Rightarrow> Inr None
      | Num (Fin q) \<Rightarrow> if q \<le> 0 then Inl Bad_heapThreshold else Inr (Some q)
      | _ \<Rightarrow> Inl Bad_heapThreshold)"

definition guard_thresholds :: "partial_thresholds \<Rightarrow> partial_thresholds" where
  "guard_thresholds p =
     p\<lparr>p_heapAbsoluteThresholdMb := Some (case p_heapAbsoluteThresholdMb p of None \<Rightarrow> Null | Some Undefined \<Rightarrow> Null | Some v \<Rightarrow> v)\<rparr>"

definition guard_resolve :: "rat \<Rightarrow> guard_input \<Rightarrow> guard_error + guard_opts" where
  "guard_resolve default_heap i =
     sum_bind (resolve_heapThreshold default_heap (i_heapThresholdMb i)) (\<lambda>heap.
     sum_bind (case resolveResourcePressureThresholds (guard_thresholds (i_thresholds i)) of
                 Inl e \<Rightarrow> Inl (Bad_thresholds e) | Inr th \<Rightarrow> Inr th) (\<lambda>th.
     sum_bind (requireDuration ''staleAfterMs'' (nullish (i_staleAfterMs i) (js_int 1000))) (\<lambda>stale.
     sum_bind (requireDuration ''maxStaleMs'' (nullish (i_maxStaleMs i) (js_int 30000))) (\<lambda>maxStale.
     sum_bind (requireDuration ''retryAfterMs'' (nullish (i_retryAfterMs i) (js_int 1000))) (\<lambda>retry.
     if maxStale < stale then Inl Stale_order else
     sum_bind (resolveSelfRestartOptions i) (\<lambda>(enabled, afterMs, code).
     Inr \<lparr>g_thresholds = th, heapThresholdMb = heap, staleAfterMs = stale, maxStaleMs = maxStale, g_retryAfterMs = retry,
          restart_enabled = enabled, restart_afterMs = afterMs, restart_exitCode = code\<rparr>))))))"

text \<open>An override between 0 and 1 is floored to 0, which the runtime then refuses.\<close>

lemma fractional_override_fails:
  "computeHeapPressureThresholdMb 2048 (Fin (1/2)) = 0"
  "resolve_heapThreshold (computeHeapPressureThresholdMb 2048 (Fin (1/2))) Undefined = Inl Bad_heapThreshold"
  by (simp_all add: computeHeapPressureThresholdMb_def resolve_heapThreshold_def floor_eq_iff)

section \<open>State and operations\<close>

text \<open>\<open>None\<close> in the two refresh instants is minus infinity.\<close>

record guard_state =
  g_tracker :: tracker
  g_state :: pressure_state
  lastSignals :: "signals option"
  lastRefreshAtMs :: "int option"
  nextRefreshAtMs :: "int option"
  scheduled :: bool
  inFlight :: bool
  g_disposed :: bool
  criticalSinceMs :: "int option"
  selfRestartFired :: bool
  backgroundDriver :: bool
  samples :: "(bool \<times> signals) list"
  settled_log :: "(int \<times> pressure_severity) list"
  exits :: "(int \<times> int \<times> (int \<times> pressure_severity) list) list"

definition ensureDriver :: "guard_state \<Rightarrow> guard_state" where
  "ensureDriver g = (if g_disposed g then g else g\<lparr>backgroundDriver := True\<rparr>)"

definition maybeStopDriver :: "guard_opts \<Rightarrow> guard_state \<Rightarrow> guard_state" where
  "maybeStopDriver opt g =
     (if \<not> restart_enabled opt \<and> ps_severity (g_state g) = Sev_normal then g\<lparr>backgroundDriver := False\<rparr> else g)"

definition emptyState :: pressure_state where
  "emptyState = \<lparr>ps_severity = Sev_normal, ps_reason = R_none, elevatedStreak = 0, recoveryStreak = 0,
     lastTransitionAtMs = 0, ps_observedAtMs = 0\<rparr>"

definition new_guard :: "guard_opts \<Rightarrow> guard_state" where
  "new_guard opt =
     (let g = \<lparr>g_tracker = new_tracker, g_state = emptyState, lastSignals = None, lastRefreshAtMs = None, nextRefreshAtMs = None,
               scheduled = False, inFlight = False, g_disposed = False, criticalSinceMs = None, selfRestartFired = False,
               backgroundDriver = False, samples = [], settled_log = [], exits = []\<rparr>
      in if restart_enabled opt then ensureDriver g else g)"

definition createResourcePressureRuntime :: "rat \<Rightarrow> guard_input \<Rightarrow> guard_error + (guard_opts \<times> guard_state)" where
  "createResourcePressureRuntime default_heap i =
     sum_bind (guard_resolve default_heap i) (\<lambda>opt. Inr (opt, new_guard opt))"

text \<open>\<open>exit_fails\<close> says that the exit function of this process throws instead of returning.\<close>

definition observeSelfRestart :: "guard_opts \<Rightarrow> bool \<Rightarrow> int \<Rightarrow> guard_state \<Rightarrow> guard_state" where
  "observeSelfRestart opt exit_fails now g =
     (if ps_severity (g_state g) \<noteq> Sev_critical then g\<lparr>criticalSinceMs := None\<rparr>
      else case criticalSinceMs g of
             None \<Rightarrow> g\<lparr>criticalSinceMs := Some now\<rparr>
           | Some since \<Rightarrow>
               if \<not> restart_enabled opt \<or> selfRestartFired g \<or> now - since < restart_afterMs opt then g
               else (let g1 = g\<lparr>exits := (now, restart_exitCode opt, settled_log g) # exits g\<rparr> in
                     if exit_fails then g1\<lparr>criticalSinceMs := None\<rparr> else g1\<lparr>selfRestartFired := True\<rparr>))"

definition scheduleRefresh :: "guard_state \<Rightarrow> guard_state" where
  "scheduleRefresh g = (if g_disposed g \<or> scheduled g \<or> inFlight g then g else g\<lparr>scheduled := True\<rparr>)"

definition refresh :: "guard_state \<Rightarrow> guard_state" where
  "refresh g = (if g_disposed g \<or> inFlight g then g else g\<lparr>scheduled := False, inFlight := True\<rparr>)"

definition refresh_settled :: "guard_opts \<Rightarrow> bool \<Rightarrow> bool \<Rightarrow> signals \<Rightarrow> int \<Rightarrow> guard_state \<Rightarrow> guard_state" where
  "refresh_settled opt exit_fails psiOff sg now g =
     (if g_disposed g then g\<lparr>inFlight := False\<rparr>
      else
        (let tr = observe psiOff (g_thresholds opt) sg (g_tracker g);
             g1 = g\<lparr>lastSignals := Some sg, g_tracker := tr, g_state := tr_state tr, samples := samples g @ [(psiOff, sg)],
                    settled_log := (now, ps_severity (tr_state tr)) # settled_log g\<rparr>;
             g2 = observeSelfRestart opt exit_fails now g1;
             g3 = (if ps_severity (g_state g2) \<noteq> Sev_normal then ensureDriver g2 else maybeStopDriver opt g2)
         in g3\<lparr>lastRefreshAtMs := Some now, nextRefreshAtMs := Some (now + staleAfterMs opt), inFlight := False\<rparr>))"

definition refresh_failed :: "guard_opts \<Rightarrow> int \<Rightarrow> guard_state \<Rightarrow> guard_state" where
  "refresh_failed opt now g =
     (if g_disposed g then g\<lparr>inFlight := False\<rparr> else g\<lparr>nextRefreshAtMs := Some (now + g_retryAfterMs opt), inFlight := False\<rparr>)"

definition driverIntervalMs :: "guard_opts \<Rightarrow> int" where
  "driverIntervalMs opt = max 1000 (min (staleAfterMs opt) 10000)"

definition driver_fired :: "int \<Rightarrow> guard_state \<Rightarrow> guard_state" where
  "driver_fired now g =
     (if g_disposed g then g
      else scheduleRefresh (g\<lparr>nextRefreshAtMs := map_option (\<lambda>t. min t now) (nextRefreshAtMs g)\<rparr>))"

definition checkHeapPressureGuard :: "rat \<Rightarrow> rat \<Rightarrow> bool" where
  "checkHeapPressureGuard heapUsedMb thresholdMb \<longleftrightarrow> \<not> heapUsedMb \<le> thresholdMb"

definition immediateHeapGuard :: "rat \<Rightarrow> rat option \<Rightarrow> bool" where
  "immediateHeapGuard heapUsedMb thresholdMb =
     (case thresholdMb of None \<Rightarrow> False | Some mb \<Rightarrow> checkHeapPressureGuard heapUsedMb mb)"

text \<open>The age of the cached sample is infinite while there is none.\<close>

definition fresh_cache :: "guard_opts \<Rightarrow> int \<Rightarrow> guard_state \<Rightarrow> bool" where
  "fresh_cache opt now g =
     (case (lastSignals g, lastRefreshAtMs g) of
        (Some _, Some t) \<Rightarrow> max 0 (now - t) \<le> maxStaleMs opt
      | _ \<Rightarrow> False)"

text \<open>\<open>heap\<close> is the heap use read by \<^verbatim>\<open>check\<close>, \<open>None\<close> when reading it throws.\<close>

definition check :: "guard_opts \<Rightarrow> rat option \<Rightarrow> int \<Rightarrow> guard_state \<Rightarrow> pressure_reason option \<times> guard_state" where
  "check opt heap now g =
     (let heapUsedMb = (case heap of Some h \<Rightarrow> h | None \<Rightarrow> 0);
          g1 = (if (case nextRefreshAtMs g of None \<Rightarrow> True | Some t \<Rightarrow> now \<ge> t) then scheduleRefresh g else g)
      in if immediateHeapGuard heapUsedMb (heapThresholdMb opt) then
           (Some R_v8_heap_absolute,
            ensureDriver (g1\<lparr>g_state := \<lparr>ps_severity = Sev_critical, ps_reason = R_v8_heap_absolute, elevatedStreak = 0,
              recoveryStreak = 0, lastTransitionAtMs = now, ps_observedAtMs = now\<rparr>\<rparr>))
         else if \<not> fresh_cache opt now g1 \<or> ps_severity (g_state g1) \<noteq> Sev_critical then (None, g1)
         else (Some (ps_reason (g_state g1)), g1))"

definition getObservation :: "guard_state \<Rightarrow> signals option \<times> pressure_state" where
  "getObservation g = (lastSignals g, g_state g)"

definition dispose :: "guard_state \<Rightarrow> guard_state" where
  "dispose g = g\<lparr>g_disposed := True, scheduled := False, backgroundDriver := False\<rparr>"

section \<open>Histories\<close>

text \<open>
  A scheduled refresh starts, a started one settles or fails, the driver fires while it is armed. A callback
  scheduled before the runtime was disposed may still run.
\<close>

datatype guard_event =
  G_check "rat option" int | G_refresh | G_settled bool bool signals int | G_failed int | G_driver int | G_dispose

inductive guard_step :: "guard_opts \<Rightarrow> guard_event \<Rightarrow> guard_state \<Rightarrow> guard_state \<Rightarrow> bool" for opt where
  g_check: "guard_step opt (G_check heap now) g (snd (check opt heap now g))"
| g_refresh: "scheduled g \<or> g_disposed g \<Longrightarrow> guard_step opt G_refresh g (refresh g)"
| g_settled: "inFlight g \<Longrightarrow> guard_step opt (G_settled ef off sg now) g (refresh_settled opt ef off sg now g)"
| g_failed: "inFlight g \<Longrightarrow> guard_step opt (G_failed now) g (refresh_failed opt now g)"
| g_driver: "backgroundDriver g \<Longrightarrow> guard_step opt (G_driver now) g (driver_fired now g)"
| g_dispose: "guard_step opt G_dispose g (dispose g)"

text \<open>
  What a live guard knows: it has at most one refresh under way; its tracker has seen exactly the settled
  samples, and its state is the tracker's unless a heap trip has overwritten it since; a background driver
  runs while the state is not normal or the restart circuit is on; and \<^verbatim>\<open>criticalSinceMs\<close> is the first of the
  unbroken run of critical samples that ends now.
\<close>

definition critical_run :: "int \<Rightarrow> (int \<times> pressure_severity) list \<Rightarrow> (int \<times> pressure_severity) list \<Rightarrow> bool" where
  "critical_run t0 a lg \<longleftrightarrow> (\<exists>b. lg = a @ (t0, Sev_critical) # b) \<and> list_all (\<lambda>x. snd x = Sev_critical) a"

definition justified_exit :: "guard_opts \<Rightarrow> int \<Rightarrow> (int \<times> pressure_severity) list \<Rightarrow> bool" where
  "justified_exit opt t lg \<longleftrightarrow>
     (\<exists>t0 a. critical_run t0 a lg \<and> a \<noteq> [] \<and> fst (hd a) = t \<and> restart_afterMs opt \<le> t - t0)"

definition guard_inv :: "guard_opts \<Rightarrow> guard_state \<Rightarrow> bool" where
  "guard_inv opt g \<longleftrightarrow>
     \<not> (scheduled g \<and> inFlight g) \<and>
     g_tracker g = snd (track (g_thresholds opt) (samples g) new_tracker) \<and>
     (g_state g = tr_state (g_tracker g) \<or> ps_severity (g_state g) = Sev_critical \<and> ps_reason (g_state g) = R_v8_heap_absolute) \<and>
     (\<not> g_disposed g \<longrightarrow> ps_severity (g_state g) \<noteq> Sev_normal \<or> restart_enabled opt \<longrightarrow> backgroundDriver g) \<and>
     (\<forall>t0. criticalSinceMs g = Some t0 \<longrightarrow> (\<exists>a. critical_run t0 a (settled_log g))) \<and>
     (\<forall>t c lg. (t, c, lg) \<in> set (exits g) \<longrightarrow> restart_enabled opt \<and> c = restart_exitCode opt \<and> justified_exit opt t lg)"

lemma guard_invI:
  assumes "\<not> (scheduled g \<and> inFlight g)" "g_tracker g = snd (track (g_thresholds opt) (samples g) new_tracker)"
    "g_state g = tr_state (g_tracker g) \<or> ps_severity (g_state g) = Sev_critical \<and> ps_reason (g_state g) = R_v8_heap_absolute"
    "\<not> g_disposed g \<Longrightarrow> ps_severity (g_state g) \<noteq> Sev_normal \<or> restart_enabled opt \<Longrightarrow> backgroundDriver g"
    "\<And>t0. criticalSinceMs g = Some t0 \<Longrightarrow> \<exists>a. critical_run t0 a (settled_log g)"
    "\<And>t c lg. (t, c, lg) \<in> set (exits g) \<Longrightarrow> restart_enabled opt \<and> c = restart_exitCode opt \<and> justified_exit opt t lg"
  shows "guard_inv opt g"
  using assms unfolding guard_inv_def by blast

lemma guard_invD:
  assumes "guard_inv opt g"
  shows "\<not> (scheduled g \<and> inFlight g)" "g_tracker g = snd (track (g_thresholds opt) (samples g) new_tracker)"
    "g_state g = tr_state (g_tracker g) \<or> ps_severity (g_state g) = Sev_critical \<and> ps_reason (g_state g) = R_v8_heap_absolute"
    "\<not> g_disposed g \<Longrightarrow> ps_severity (g_state g) \<noteq> Sev_normal \<or> restart_enabled opt \<Longrightarrow> backgroundDriver g"
    "criticalSinceMs g = Some t0 \<Longrightarrow> \<exists>a. critical_run t0 a (settled_log g)"
    "(t, c, lg) \<in> set (exits g) \<Longrightarrow> restart_enabled opt \<and> c = restart_exitCode opt \<and> justified_exit opt t lg"
  using assms unfolding guard_inv_def by blast+

lemma critical_run_Cons: "critical_run t0 a lg \<Longrightarrow> critical_run t0 ((t, Sev_critical) # a) ((t, Sev_critical) # lg)"
  by (auto simp: critical_run_def)

lemma new_guard_inv: "guard_inv opt (new_guard opt)"
  by (auto simp: guard_inv_def new_guard_def Let_def ensureDriver_def emptyState_def new_tracker_def initialState_def)

lemma scheduleRefresh_inv: "guard_inv opt g \<Longrightarrow> guard_inv opt (scheduleRefresh g)"
  by (auto simp: guard_inv_def scheduleRefresh_def)

lemma check_inv: assumes "guard_inv opt g" shows "guard_inv opt (snd (check opt heap now g))"
proof -
  have "guard_inv opt (if c then scheduleRefresh g else g)" for c using assms scheduleRefresh_inv by simp
  moreover have "guard_inv opt (ensureDriver (g1\<lparr>g_state := st\<rparr>))"
    if "guard_inv opt g1" "ps_severity st = Sev_critical" "ps_reason st = R_v8_heap_absolute" for g1 st
    using that by (auto simp: guard_inv_def ensureDriver_def)
  ultimately show ?thesis by (auto simp: check_def Let_def)
qed

text \<open>The restart circuit after a sample whose log entry is on top.\<close>

lemma observeSelfRestart_frame [frame_simps]:
  "scheduled (observeSelfRestart opt ef now g) = scheduled g" "inFlight (observeSelfRestart opt ef now g) = inFlight g"
  "g_tracker (observeSelfRestart opt ef now g) = g_tracker g" "samples (observeSelfRestart opt ef now g) = samples g"
  "g_state (observeSelfRestart opt ef now g) = g_state g" "g_disposed (observeSelfRestart opt ef now g) = g_disposed g"
  "settled_log (observeSelfRestart opt ef now g) = settled_log g" "backgroundDriver (observeSelfRestart opt ef now g) = backgroundDriver g"
  by (simp_all add: observeSelfRestart_def Let_def split: option.splits)

lemma observeSelfRestart_circuit:
  fixes ef :: bool
  assumes "settled_log g = (now, ps_severity (g_state g)) # lg" "\<And>t0. criticalSinceMs g = Some t0 \<Longrightarrow> \<exists>a. critical_run t0 a lg"
    "\<And>t c l. (t, c, l) \<in> set (exits g) \<Longrightarrow> restart_enabled opt \<and> c = restart_exitCode opt \<and> justified_exit opt t l"
  defines "g' \<equiv> observeSelfRestart opt ef now g"
  shows "criticalSinceMs g' = Some t0 \<Longrightarrow> \<exists>a. critical_run t0 a (settled_log g)"
    and "(t, c, l) \<in> set (exits g') \<Longrightarrow> restart_enabled opt \<and> c = restart_exitCode opt \<and> justified_exit opt t l"
proof -
  have run: "\<exists>a. critical_run t0 ((now, Sev_critical) # a) (settled_log g)"
    if "criticalSinceMs g = Some t0" "ps_severity (g_state g) = Sev_critical" for t0
    using assms(1,2) that critical_run_Cons by fastforce
  have start: "critical_run now [] (settled_log g)" if "ps_severity (g_state g) = Sev_critical"
    using assms(1) that by (simp add: critical_run_def)
  show "\<exists>a. critical_run t0 a (settled_log g)" if "criticalSinceMs g' = Some t0"
    using that run start unfolding g'_def observeSelfRestart_def Let_def by (fastforce split: if_splits option.splits)
  have exit: "justified_exit opt now (settled_log g)"
    if since: "criticalSinceMs g = Some t0" and crit: "ps_severity (g_state g) = Sev_critical" and due: "\<not> now - t0 < restart_afterMs opt" for t0
  proof -
    obtain a where "critical_run t0 ((now, Sev_critical) # a) (settled_log g)" using run [OF since crit] by blast
    then show ?thesis unfolding justified_exit_def using due by (intro exI [of _ t0] exI [of _ "(now, Sev_critical) # a"]) simp
  qed
  show "restart_enabled opt \<and> c = restart_exitCode opt \<and> justified_exit opt t l" if "(t, c, l) \<in> set (exits g')"
    using that exit assms(3) unfolding g'_def observeSelfRestart_def Let_def by (auto split: if_splits option.splits)
qed

lemma refresh_settled_inv:
  assumes "guard_inv opt g" shows "guard_inv opt (refresh_settled opt ef off sg now g)"
proof (cases "g_disposed g")
  case True
  then show ?thesis using assms by (auto simp: refresh_settled_def guard_inv_def)
next
  case False
  note d = guard_invD [OF assms]
  define tr where "tr = observe off (g_thresholds opt) sg (g_tracker g)"
  define g1 where "g1 = g\<lparr>lastSignals := Some sg, g_tracker := tr, g_state := tr_state tr, samples := samples g @ [(off, sg)],
                    settled_log := (now, ps_severity (tr_state tr)) # settled_log g\<rparr>"
  define g2 where "g2 = observeSelfRestart opt ef now g1"
  have tracked: "tr = snd (track (g_thresholds opt) (samples g @ [(off, sg)]) new_tracker)"
    using d(2) by (simp add: track_snoc tr_def Let_def split: prod.splits)
  have circuit: "criticalSinceMs g2 = Some t0 \<Longrightarrow> \<exists>a. critical_run t0 a (settled_log g1)"
    "(t, c, l) \<in> set (exits g2) \<Longrightarrow> restart_enabled opt \<and> c = restart_exitCode opt \<and> justified_exit opt t l" for t0 t c l
    unfolding g2_def
    by (rule observeSelfRestart_circuit [of g1 now "settled_log g"]; use d(5,6) in \<open>simp add: g1_def\<close>)+
  have fields: "g_disposed g2 = False" "g_state g2 = tr_state tr" "g_tracker g2 = tr" "samples g2 = samples g @ [(off, sg)]"
    "settled_log g2 = settled_log g1" "backgroundDriver g2 = backgroundDriver g" "scheduled g2 = scheduled g"
    using False by (simp_all add: g2_def frame_simps g1_def)
  define g3 where "g3 = (if ps_severity (g_state g2) \<noteq> Sev_normal then ensureDriver g2 else maybeStopDriver opt g2)"
  have res: "refresh_settled opt ef off sg now g = g3\<lparr>lastRefreshAtMs := Some now, nextRefreshAtMs := Some (now + staleAfterMs opt), inFlight := False\<rparr>"
    using False by (simp add: refresh_settled_def tr_def g1_def g2_def g3_def Let_def)
  have driver: "ps_severity (tr_state tr) \<noteq> Sev_normal \<or> restart_enabled opt \<Longrightarrow> backgroundDriver g3"
    using d(4) [OF False] fields by (auto simp: g3_def ensureDriver_def maybeStopDriver_def)
  have same: "g_state g3 = g_state g2" "g_tracker g3 = g_tracker g2" "samples g3 = samples g2" "settled_log g3 = settled_log g2"
    "criticalSinceMs g3 = criticalSinceMs g2" "exits g3 = exits g2"
    by (simp_all add: g3_def ensureDriver_def maybeStopDriver_def)
  show ?thesis unfolding res
    by (rule guard_invI) (use tracked circuit fields driver same in auto)
qed

lemma guard_step_inv: "guard_step opt e g g' \<Longrightarrow> guard_inv opt g \<Longrightarrow> guard_inv opt g'"
proof (induction rule: guard_step.induct)
  case (g_check heap now g)
  then show ?case by (rule check_inv)
next
  case (g_settled g ef off sg now)
  then show ?case by (intro refresh_settled_inv)
next
  case (g_driver g now)
  then have "guard_inv opt (g\<lparr>nextRefreshAtMs := x\<rparr>)" for x by (auto simp: guard_inv_def)
  then show ?case using g_driver scheduleRefresh_inv by (simp add: driver_fired_def)
qed (auto simp: guard_inv_def refresh_def refresh_failed_def dispose_def)

interpretation guard: step_system "guard_step opt" "guard_inv opt"
  by unfold_locales (rule guard_step_inv)

lemmas guard_reached = guard.reaches_inv [OF _ new_guard_inv]

section \<open>Properties\<close>


definition demo_opts :: guard_opts where
  "demo_opts = \<lparr>g_thresholds = DEFAULT_RESOURCE_PRESSURE_THRESHOLDS, heapThresholdMb = None, staleAfterMs = 1000, maxStaleMs = 30000,
     g_retryAfterMs = 1000, restart_enabled = True, restart_afterMs = 5000, restart_exitCode = 1\<rparr>"

text \<open>Samples of a full heap settle at the given times.\<close>

definition demo_sample :: "int \<Rightarrow> guard_state \<Rightarrow> guard_state" where
  "demo_sample now g = refresh_settled demo_opts False False (demo_signals now 95) now (refresh (driver_fired now g))"

definition demo_guard :: guard_state where
  "demo_guard = demo_sample 9000 (demo_sample 3000 (demo_sample 2000 (demo_sample 1000 (new_guard demo_opts))))"

lemma demo_sample_reaches:
  assumes "reaches (guard_step demo_opts) (new_guard demo_opts) g" "backgroundDriver g" "\<not> g_disposed g" "\<not> inFlight g"
  shows "reaches (guard_step demo_opts) (new_guard demo_opts) (demo_sample now g)"
proof -
  let ?R = "reaches (guard_step demo_opts) (new_guard demo_opts)"
  have sch: "scheduled (driver_fired now g)" "inFlight (refresh (driver_fired now g))"
    using assms(3,4) by (simp_all add: driver_fired_def scheduleRefresh_def refresh_def)
  have "?R (driver_fired now g)" by (rule reaches_event [where step = "guard_step demo_opts", OF assms(1) g_driver [OF assms(2)]])
  then have "?R (refresh (driver_fired now g))"
    by (rule reaches_event [where step = "guard_step demo_opts", OF _ g_refresh]) (simp add: sch)
  then show ?thesis unfolding demo_sample_def
    by (rule reaches_event [where step = "guard_step demo_opts", OF _ g_settled]) (rule sch)
qed

lemma demo_guard_reached: "reaches (guard_step demo_opts) (new_guard demo_opts) demo_guard"
proof -
  let ?g0 = "new_guard demo_opts" let ?g1 = "demo_sample 1000 ?g0" let ?g2 = "demo_sample 2000 ?g1" let ?g3 = "demo_sample 3000 ?g2"
  have "backgroundDriver ?g0 \<and> \<not> g_disposed ?g0 \<and> \<not> inFlight ?g0" by code_simp
  moreover have "backgroundDriver ?g1 \<and> \<not> g_disposed ?g1 \<and> \<not> inFlight ?g1" by code_simp
  moreover have "backgroundDriver ?g2 \<and> \<not> g_disposed ?g2 \<and> \<not> inFlight ?g2" by code_simp
  moreover have "backgroundDriver ?g3 \<and> \<not> g_disposed ?g3 \<and> \<not> inFlight ?g3" by code_simp
  ultimately show ?thesis unfolding demo_guard_def by (intro demo_sample_reaches reaches_start) simp_all
qed


text \<open>
  C20. The self-restart circuit exits only after sustained pressure. In every history each exit happened
  with the circuit enabled and the configured code, at the settling of a critical sample, and every sample
  that settled since some critical one at least \<^verbatim>\<open>afterMs\<close> earlier was critical too: one calm sample in
  between restarts the count.
\<close>

theorem self_restart_justified:
  assumes "reaches (guard_step opt) (new_guard opt) g" "(t, code, lg) \<in> set (exits g)"
  shows "restart_enabled opt \<and> code = restart_exitCode opt \<and>
    (\<exists>t0 a b. lg = a @ (t0, Sev_critical) # b \<and> (\<forall>x \<in> set a. snd x = Sev_critical) \<and> a \<noteq> [] \<and> fst (hd a) = t \<and> restart_afterMs opt \<le> t - t0)"
  using guard_invD(6) [OF guard_reached [OF assms(1)] assms(2)]
  by (auto simp: justified_exit_def critical_run_def list_all_iff)

theorem self_restart_justified_witness:
  "map fst (exits demo_guard) = [9000] \<and> list_all (\<lambda>x. fst (snd x) = 1) (exits demo_guard)"
proof -
  have e: "map fst (exits demo_guard) = [9000]" by code_simp
  have "fst (snd x) = 1" if "x \<in> set (exits demo_guard)" for x
    using self_restart_justified [OF demo_guard_reached, of "fst x" "fst (snd x)" "snd (snd x)"] that by (simp add: demo_opts_def)
  with e show ?thesis by (simp add: list_all_iff)
qed

text \<open>
  Pressure is never left unobserved. In every history of a guard that is not disposed, whenever its
  state is not normal (or the restart circuit is on) a background driver is armed, and when that driver
  fires a refresh is scheduled or under way, never both: recovery is noticed without incoming requests
  and no refresh is ever blocked by another.
\<close>

theorem guard_keeps_observing:
  assumes "reaches (guard_step opt) (new_guard opt) g" "\<not> g_disposed g" "ps_severity (g_state g) \<noteq> Sev_normal \<or> restart_enabled opt"
  shows "backgroundDriver g \<and> scheduled (driver_fired now g) \<noteq> inFlight (driver_fired now g) \<and>
    (scheduled g \<longrightarrow> inFlight (refresh g))"
  using guard_invD(1,4) [OF guard_reached [OF assms(1)]] assms(2,3)
  by (auto simp: driver_fired_def scheduleRefresh_def refresh_def)

theorem guard_keeps_observing_witness:
  "backgroundDriver demo_guard \<and> scheduled (driver_fired 99 demo_guard) \<noteq> inFlight (driver_fired 99 demo_guard)"
proof -
  have "\<not> g_disposed demo_guard" by code_simp
  then show ?thesis using guard_keeps_observing [OF demo_guard_reached, of 99] by (simp add: demo_opts_def)
qed

end
