(* ===== verification/Admission_Runtime.thy ===== *)
theory Admission_Runtime
  imports Admission_Guarantees Request_Features Pressure_Guard
begin

text \<open>
  The runtime facade of \<^verbatim>\<open>open-sse/services/admission/runtime.ts\<close>: configuration from the environment, the
  acquisition path through pressure guard, feature extraction and controller, the translation of
  rejections to HTTP, and the life cycle that ties a lease to a streamed response. One record holds the
  facade with its controller and the process-wide pressure guard it consults by default.
\<close>

section \<open>Configuration from the environment\<close>

definition no_cost :: cost_partial where
  "no_cost = \<lparr>p_baseCost = Undefined, p_bodyBytesPerUnit = Undefined, p_tokensPerUnit = Undefined, p_messagesPerUnit = Undefined,
     p_toolsPerUnit = Undefined, p_fanoutPerUnit = Undefined, p_streamingClassCost = Undefined,
     p_nonStreamingClassCost = Undefined, p_maxRequestCost = Undefined\<rparr>"

definition DEFAULT_ADAPTIVE_ADMISSION_CONFIG :: admission_input where
  "DEFAULT_ADAPTIVE_ADMISSION_CONFIG =
     \<lparr>in_mode = Str ''shadow'', in_minLimit = js_int 8, in_maxLimit = js_int 1000, in_initialLimit = js_int 64,
      in_maxQueueCount = js_int 128, in_maxQueueCost = js_int 2000, in_defaultMaxWaitMs = js_int 5000, in_windowMs = js_int 1000,
      in_shortLatencyAlpha = Undefined, in_longLatencyAlpha = Undefined, in_increaseStep = Undefined,
      in_decreaseFactor = Undefined, in_criticalDecreaseFactor = Undefined, in_highUtilizationThreshold = Undefined,
      in_lowUtilizationThreshold = Undefined, in_latencyGradientThreshold = Undefined, in_maxIncreasePerWindow = Undefined,
      in_cost = no_cost, in_virtualLanes = Bool False\<rparr>"

datatype env_error = Env_not_integer string | Env_bad_mode | Env_range range_error

definition parsePositiveSafeInt :: "string \<Rightarrow> string \<Rightarrow> env_error + int" where
  "parsePositiveSafeInt name raw =
     (if raw = [] \<or> \<not> list_all is_digit raw then Inl (Env_not_integer name)
      else if digits_value raw > MAX_SAFE_INTEGER \<or> digits_value raw \<le> 0 then Inl (Env_not_integer name)
      else Inr (digits_value raw))"

definition int_fields :: "(string \<times> (js_val \<Rightarrow> admission_input \<Rightarrow> admission_input)) list" where
  "int_fields =
     [(''ADAPTIVE_ADMISSION_MIN_LIMIT'', \<lambda>v. in_minLimit_update (\<lambda>_. v)),
      (''ADAPTIVE_ADMISSION_INITIAL_LIMIT'', \<lambda>v. in_initialLimit_update (\<lambda>_. v)),
      (''ADAPTIVE_ADMISSION_MAX_LIMIT'', \<lambda>v. in_maxLimit_update (\<lambda>_. v)),
      (''ADAPTIVE_ADMISSION_MAX_QUEUE_COUNT'', \<lambda>v. in_maxQueueCount_update (\<lambda>_. v)),
      (''ADAPTIVE_ADMISSION_MAX_QUEUE_COST'', \<lambda>v. in_maxQueueCost_update (\<lambda>_. v)),
      (''ADAPTIVE_ADMISSION_MAX_WAIT_MS'', \<lambda>v. in_defaultMaxWaitMs_update (\<lambda>_. v)),
      (''ADAPTIVE_ADMISSION_WINDOW_MS'', \<lambda>v. in_windowMs_update (\<lambda>_. v))]"

fun apply_int_fields ::
  "(string \<Rightarrow> string option) \<Rightarrow> (string \<times> (js_val \<Rightarrow> admission_input \<Rightarrow> admission_input)) list \<Rightarrow> admission_input \<Rightarrow> env_error + admission_input" where
  "apply_int_fields vars [] cfg = Inr cfg"
| "apply_int_fields vars ((name, upd) # rest) cfg =
     (case vars name of
        None \<Rightarrow> apply_int_fields vars rest cfg
      | Some raw \<Rightarrow>
          if raw = [] then apply_int_fields vars rest cfg
          else sum_bind (parsePositiveSafeInt name raw) (\<lambda>v. apply_int_fields vars rest (upd (js_int v) cfg)))"

definition apply_mode :: "(string \<Rightarrow> string option) \<Rightarrow> admission_input \<Rightarrow> env_error + admission_input" where
  "apply_mode vars cfg =
     (case vars ''ADAPTIVE_ADMISSION_MODE'' of
        None \<Rightarrow> Inr cfg
      | Some m \<Rightarrow>
          if m = [] then Inr cfg
          else if m \<notin> {''off'', ''shadow'', ''enforce''} then Inl Env_bad_mode
          else Inr (cfg\<lparr>in_mode := Str m\<rparr>))"

definition resolveAdaptiveAdmissionConfigFromEnv :: "(string \<Rightarrow> string option) \<Rightarrow> env_error + admission_input" where
  "resolveAdaptiveAdmissionConfigFromEnv vars =
     sum_bind (apply_mode vars DEFAULT_ADAPTIVE_ADMISSION_CONFIG) (\<lambda>cfg0.
     sum_bind (apply_int_fields vars int_fields cfg0) (\<lambda>cfg.
     case validateConfig cfg of
       Inl e \<Rightarrow> Inl (Env_range e)
     | Inr _ \<Rightarrow> Inr (cfg\<lparr>in_virtualLanes := Bool (vars ''OMNIROUTE_CHAT_VIRTUAL_LANES'' \<in> {Some ''1'', Some ''true''})\<rparr>)))"

section \<open>Rejections as HTTP responses\<close>

record http_rejection =
  h_status :: int
  h_code :: string
  h_message :: string
  h_type :: string
  h_retryAfter :: "string option"

fun REJECT_MAP :: "reject_code \<Rightarrow> int \<times> string \<times> string \<times> string option" where
  "REJECT_MAP ADMISSION_ABORTED = (499, ''admission_aborted'', ''Request aborted'', None)"
| "REJECT_MAP ADMISSION_OVERSIZED = (503, ''admission_oversized'', ''Request too large for current capacity'', None)"
| "REJECT_MAP ADMISSION_QUEUE_FULL = (503, ''admission_queue_full'', ''Service temporarily unavailable'', Some ''1'')"
| "REJECT_MAP ADMISSION_DEADLINE = (503, ''admission_deadline'', ''Service temporarily unavailable'', Some ''1'')"
| "REJECT_MAP ADMISSION_SHUTDOWN = (503, ''admission_shutdown'', ''Service temporarily unavailable'', None)"
| "REJECT_MAP ADMISSION_UNAVAILABLE = (503, ''admission_unavailable'', ''Service temporarily unavailable'', Some ''1'')"
| "REJECT_MAP ADMISSION_LANE_EVICTED = (503, ''admission_lane_evicted'', ''Connection lane evicted'', Some ''1'')"

definition buildAdmissionRejectResponse :: "reject_code \<Rightarrow> http_rejection" where
  "buildAdmissionRejectResponse code =
     (case REJECT_MAP code of (st, c, msg, retry) \<Rightarrow>
        \<lparr>h_status = st, h_code = c, h_message = msg, h_type = (if st = 499 then ''client_disconnected'' else ''server_error''), h_retryAfter = retry\<rparr>)"

definition guard_response :: http_rejection where
  "guard_response = \<lparr>h_status = 503, h_code = ''resource_pressure'',
     h_message = ''Service temporarily unavailable due to resource pressure. Retry shortly.'', h_type = ''server_error'', h_retryAfter = Some ''5''\<rparr>"

section \<open>State\<close>

text \<open>
  A streamed response: the lease it holds, its local flags and the caller's signal. \<open>releases\<close> is a ghost
  log of the calls of \<^verbatim>\<open>lease.release\<close> that reached an unreleased lease.
\<close>

record stream =
  st_lease :: adm_id
  st_status :: int
  st_admittedAtMs :: int
  st_signal :: "nat option"
  st_settled :: bool
  st_readerCancelled :: bool
  st_listening :: bool
  st_closed :: bool

record runtime =
  ctl :: controller
  rt_costConfig :: cost_config
  lastObservationKey :: "(int \<times> pressure_severity \<times> pressure_reason) option"
  lastResource :: "pressure_severity \<times> pressure_reason \<times> int"
  pressureGuardRejectCount :: nat
  rt_disposed :: bool
  rt_guard :: guard_state
  streams :: "(nat, stream) jmap"
  releases :: "(adm_id \<times> release_outcome) list"

section \<open>Pressure\<close>

fun toAdmissionPressure :: "pressure_severity \<Rightarrow> admission_pressure" where
  "toAdmissionPressure Sev_critical = PCritical"
| "toAdmissionPressure Sev_high = PHigh"
| "toAdmissionPressure Sev_normal = PNormal"

definition observationIdentity :: "pressure_state \<Rightarrow> int \<times> pressure_severity \<times> pressure_reason" where
  "observationIdentity st = (ps_observedAtMs st, ps_severity st, ps_reason st)"

definition feedFreshPressureObservation :: "env \<Rightarrow> runtime \<Rightarrow> runtime" where
  "feedFreshPressureObservation e r =
     (let st = snd (getObservation (rt_guard r));
          r1 = r\<lparr>lastResource := (ps_severity st, ps_reason st, ps_observedAtMs st)\<rparr>
      in if ps_observedAtMs st \<le> 0 then r1
         else if lastObservationKey r1 = Some (observationIdentity st) then r1
         else r1\<lparr>lastObservationKey := Some (observationIdentity st),
                 ctl := observePressure e (toAdmissionPressure (ps_severity st)) (ctl r1)\<rparr>)"

section \<open>Acquisition\<close>

record runtime_request =
  ri_tenantKey :: string
  ri_body :: json
  ri_signal :: "nat option"
  ri_maxWaitMs :: js_val
  ri_streaming :: "bool option"

datatype runtime_result =
    Rt_admitted admission_mode adm_id int "shadow_decision option"
  | Rt_rejected http_rejection
  | Rt_pending adm_id
  | Rt_threw range_error

text \<open>Reading the mode through \<^verbatim>\<open>snapshot\<close> also samples the utilisation integral.\<close>

definition admitted_result :: "env \<Rightarrow> adm_id \<Rightarrow> shadow_decision option \<Rightarrow> runtime \<Rightarrow> runtime_result \<times> runtime" where
  "admitted_result e l decision r =
     (let (sn, c) = snapshot e (ctl r) in (Rt_admitted (s_mode sn) l (now e) decision, r\<lparr>ctl := c\<rparr>))"

definition controller_request :: "runtime_request \<Rightarrow> cost_features \<Rightarrow> admission_request" where
  "controller_request q f = \<lparr>rq_cost = Undefined, rq_features = Some f, rq_tenantKey = Some (ri_tenantKey q),
     rq_maxWaitMs = ri_maxWaitMs q, rq_signal = ri_signal q, rq_pressure = None\<rparr>"

definition rt_acquire :: "guard_opts \<Rightarrow> env \<Rightarrow> rat option \<Rightarrow> runtime_request \<Rightarrow> runtime \<Rightarrow> runtime_result \<times> runtime" where
  "rt_acquire opt e heap q r =
     (if rt_disposed r then (Rt_rejected (buildAdmissionRejectResponse ADMISSION_SHUTDOWN), r)
      else
        (let (verdict, g) = check opt heap (now e) (rt_guard r);
             r1 = feedFreshPressureObservation e (r\<lparr>rt_guard := g\<rparr>)
         in case verdict of
              Some _ \<Rightarrow> (Rt_rejected guard_response, r1\<lparr>pressureGuardRejectCount := pressureGuardRejectCount r1 + 1\<rparr>)
            | None \<Rightarrow>
                (case extractAdmissionCostFeatures (ri_body q) (ri_streaming q) (cost_partial_of (rt_costConfig r1)) of
                   Inl err \<Rightarrow> (Rt_threw err, r1)
                 | Inr f \<Rightarrow>
                     (let (res, c) = acquire e (controller_request q f) (ctl r1); r2 = r1\<lparr>ctl := c\<rparr> in
                      case res of
                        RThrew _ \<Rightarrow> (Rt_rejected (buildAdmissionRejectResponse ADMISSION_UNAVAILABLE), r2)
                      | RRejected code \<Rightarrow> (Rt_rejected (buildAdmissionRejectResponse code), r2)
                      | RQueued i \<Rightarrow> (Rt_pending i, r2)
                      | RAdmitted l _ decision \<Rightarrow> admitted_result e l decision r2))))"

text \<open>The continuation of a queued acquisition once its promise is settled.\<close>

definition rt_resume :: "env \<Rightarrow> adm_id \<Rightarrow> runtime \<Rightarrow> runtime_result \<times> runtime" where
  "rt_resume e i r =
     (case map_of (settled (ctl r)) i of
        None \<Rightarrow> (Rt_pending i, r)
      | Some (Rejected code) \<Rightarrow> (Rt_rejected (buildAdmissionRejectResponse code), r)
      | Some (Resolved l _) \<Rightarrow> admitted_result e l None r)"

definition rt_snapshot :: "env \<Rightarrow> runtime \<Rightarrow> (admission_snapshot \<times> (pressure_severity \<times> pressure_reason \<times> int) \<times> nat) \<times> runtime" where
  "rt_snapshot e r =
     (let (sn, c) = snapshot e (ctl r) in ((sn, lastResource r, pressureGuardRejectCount r), r\<lparr>ctl := c\<rparr>))"

definition rt_dispose :: "runtime \<Rightarrow> runtime" where
  "rt_dispose r = (if rt_disposed r then r else r\<lparr>rt_disposed := True, ctl := shutdown (ctl r)\<rparr>)"

section \<open>Leases and responses\<close>

definition releaseOnce :: "env \<Rightarrow> adm_id \<Rightarrow> release_outcome \<Rightarrow> int option \<Rightarrow> runtime \<Rightarrow> runtime" where
  "releaseOnce e i out admittedAtMs r =
     (if jget (active (ctl r)) i = None then r
      else r\<lparr>ctl := releaseLease e i out
               \<lparr>rm_latencyMs = map_option (\<lambda>t. Fin (of_int (max 0 (now e - t)))) admittedAtMs, rm_pressure = None\<rparr> (ctl r),
             releases := releases r @ [(i, out)]\<rparr>)"

definition releaseHandlerFailure :: "env \<Rightarrow> adm_id \<Rightarrow> release_outcome \<Rightarrow> int option \<Rightarrow> runtime \<Rightarrow> runtime" where
  "releaseHandlerFailure e i out admittedAtMs r = releaseOnce e i out admittedAtMs r"

definition signal_on :: "env \<Rightarrow> nat option \<Rightarrow> bool" where
  "signal_on e sg = (case sg of Some n \<Rightarrow> aborted e n | None \<Rightarrow> False)"

definition classifyHttpOutcome :: "int \<Rightarrow> bool \<Rightarrow> release_outcome" where
  "classifyHttpOutcome st ab =
     (if ab \<or> st = 499 then Cancelled
      else if st = 408 \<or> st = 504 then Timeout
      else if st \<ge> 500 then Upstream_error
      else if st \<ge> 400 then Local_reject
      else Success)"

record http_response =
  hr_status :: int
  hr_contentType :: "string option"
  hr_has_body :: bool

definition isSseResponse :: "http_response \<Rightarrow> bool" where
  "isSseResponse resp = has_infix ''text/event-stream'' (toLowerCase (case hr_contentType resp of Some t \<Rightarrow> t | None \<Rightarrow> []))"

text \<open>\<^verbatim>\<open>settle\<close> of a stream: the first call releases the lease.\<close>

definition settle_stream :: "env \<Rightarrow> nat \<Rightarrow> release_outcome \<Rightarrow> runtime \<Rightarrow> runtime" where
  "settle_stream e k out r =
     (case jget (streams r) k of
        None \<Rightarrow> r
      | Some s \<Rightarrow>
          if st_settled s then r
          else releaseOnce e (st_lease s) out (Some (st_admittedAtMs s)) (r\<lparr>streams := jset k (s\<lparr>st_settled := True\<rparr>) (streams r)\<rparr>))"

definition upd_stream :: "nat \<Rightarrow> (stream \<Rightarrow> stream) \<Rightarrow> runtime \<Rightarrow> runtime" where
  "upd_stream k f r = (case jget (streams r) k of None \<Rightarrow> r | Some s \<Rightarrow> r\<lparr>streams := jset k (f s) (streams r)\<rparr>)"

definition cancelReader :: "stream \<Rightarrow> stream" where
  "cancelReader s = s\<lparr>st_readerCancelled := True\<rparr>"

definition onAbort :: "env \<Rightarrow> nat \<Rightarrow> runtime \<Rightarrow> runtime" where
  "onAbort e k r = settle_stream e k Cancelled (upd_stream k (\<lambda>s. cancelReader (s\<lparr>st_listening := False\<rparr>)) r)"

definition attachResponseLifecycle :: "env \<Rightarrow> nat \<Rightarrow> http_response \<Rightarrow> adm_id \<Rightarrow> int \<Rightarrow> nat option \<Rightarrow> runtime \<Rightarrow> runtime" where
  "attachResponseLifecycle e k resp l admittedAtMs sg r =
     (if \<not> hr_has_body resp \<or> \<not> isSseResponse resp then
        releaseOnce e l (classifyHttpOutcome (hr_status resp) (signal_on e sg)) (Some admittedAtMs) r
      else
        (let s = \<lparr>st_lease = l, st_status = hr_status resp, st_admittedAtMs = admittedAtMs, st_signal = sg, st_settled = False,
                  st_readerCancelled = False, st_listening = (sg \<noteq> None \<and> \<not> signal_on e sg), st_closed = False\<rparr>;
             r1 = r\<lparr>streams := jset k s (streams r)\<rparr>
         in if signal_on e sg then onAbort e k r1 else r1))"

definition pull_start :: "nat \<Rightarrow> runtime \<Rightarrow> runtime" where
  "pull_start k r = upd_stream k (\<lambda>s. if st_settled s then s\<lparr>st_closed := True\<rparr> else s) r"

definition pull_done :: "env \<Rightarrow> nat \<Rightarrow> runtime \<Rightarrow> runtime" where
  "pull_done e k r =
     (case jget (streams r) k of
        None \<Rightarrow> r
      | Some s \<Rightarrow>
          upd_stream k (\<lambda>s. s\<lparr>st_closed := True\<rparr>)
            (settle_stream e k (classifyHttpOutcome (st_status s) (signal_on e (st_signal s)))
              (upd_stream k (\<lambda>s. s\<lparr>st_listening := False\<rparr>) r)))"

definition pull_error :: "env \<Rightarrow> nat \<Rightarrow> runtime \<Rightarrow> runtime" where
  "pull_error e k r =
     (case jget (streams r) k of
        None \<Rightarrow> r
      | Some s \<Rightarrow>
          upd_stream k (\<lambda>s. s\<lparr>st_closed := True\<rparr>)
            (settle_stream e k (if signal_on e (st_signal s) then Cancelled else Upstream_error)
              (upd_stream k (\<lambda>s. s\<lparr>st_listening := False\<rparr>) r)))"

definition cancel_stream :: "env \<Rightarrow> nat \<Rightarrow> runtime \<Rightarrow> runtime" where
  "cancel_stream e k r = settle_stream e k Cancelled (upd_stream k (\<lambda>s. cancelReader (s\<lparr>st_listening := False\<rparr>)) r)"

section \<open>Creation\<close>

definition new_runtime :: "env \<Rightarrow> guard_state \<Rightarrow> admission_input \<Rightarrow> range_error + runtime" where
  "new_runtime e g cfg =
     sum_bind (new_controller e cfg) (\<lambda>c.
     sum_bind (resolveCostConfig (in_cost cfg)) (\<lambda>cost.
     Inr \<lparr>ctl = c, rt_costConfig = cost, lastObservationKey = None, lastResource = (Sev_normal, R_none, 0),
          pressureGuardRejectCount = 0, rt_disposed = False, rt_guard = g, streams = [], releases = []\<rparr>))"

definition createAdaptiveAdmissionRuntime ::
  "env \<Rightarrow> guard_state \<Rightarrow> admission_input option \<Rightarrow> (string \<Rightarrow> string option) option \<Rightarrow> env_error + runtime" where
  "createAdaptiveAdmissionRuntime e g given vars =
     sum_bind (case given of
                 Some cfg \<Rightarrow> Inr cfg
               | None \<Rightarrow> (case vars of Some v \<Rightarrow> resolveAdaptiveAdmissionConfigFromEnv v | None \<Rightarrow> Inr DEFAULT_ADAPTIVE_ADMISSION_CONFIG))
       (\<lambda>cfg. case new_runtime e g cfg of Inl err \<Rightarrow> Inl (Env_range err) | Inr r \<Rightarrow> Inr r)"

definition createDefaultProcessRuntime ::
  "env \<Rightarrow> guard_state \<Rightarrow> admission_input option \<Rightarrow> (string \<Rightarrow> string option) \<Rightarrow> range_error + runtime" where
  "createDefaultProcessRuntime e g given vars =
     (case sum_bind (case given of Some cfg \<Rightarrow> Inr cfg | None \<Rightarrow> resolveAdaptiveAdmissionConfigFromEnv vars)
             (\<lambda>cfg. case new_runtime e g cfg of Inl err \<Rightarrow> Inl (Env_range err) | Inr r \<Rightarrow> Inr r) of
        Inr r \<Rightarrow> Inr r
      | Inl _ \<Rightarrow> new_runtime e g DEFAULT_ADAPTIVE_ADMISSION_CONFIG)"

section \<open>Histories\<close>

text \<open>
  The events of the facade: calls of its users, the settling of streams, the events of the pressure guard,
  and the timers and abort signals of the controller. Nobody calls the controller behind its back, and a
  response is attached to a lease that was admitted before.
\<close>

definition internal :: "ctl_event \<Rightarrow> bool" where
  "internal ev = (case ev of Window_timer \<Rightarrow> True | Deadline_timer _ \<Rightarrow> True | Abort_signal _ \<Rightarrow> True | Lane_timer \<Rightarrow> True | _ \<Rightarrow> False)"

text \<open>A lease that some earlier admission handed out.\<close>

definition issued :: "controller \<Rightarrow> adm_id \<Rightarrow> bool" where
  "issued c l \<longleftrightarrow> (\<exists>n \<le> leaseSeq c. l = Lease n)"

inductive rt_step :: "guard_opts \<Rightarrow> runtime \<Rightarrow> runtime \<Rightarrow> bool" for opt where
  rt_acq: "rt_step opt r (snd (rt_acquire opt e heap q r))"
| rt_res: "rt_step opt r (snd (rt_resume e i r))"
| rt_snap: "rt_step opt r (snd (rt_snapshot e r))"
| rt_disp: "rt_step opt r (rt_dispose r)"
| rt_fail: "rt_step opt r (releaseHandlerFailure e i out t r)"
| rt_attach: "issued (ctl r) l \<Longrightarrow> rt_step opt r (attachResponseLifecycle e k resp l t sg r)"
| rt_pull: "rt_step opt r (pull_start k r)"
| rt_done: "rt_step opt r (pull_done e k r)"
| rt_err: "rt_step opt r (pull_error e k r)"
| rt_cancel: "rt_step opt r (cancel_stream e k r)"
| rt_abort: "jget (streams r) k = Some s \<Longrightarrow> st_listening s \<Longrightarrow> rt_step opt r (onAbort e k r)"
| rt_ctl: "internal ev \<Longrightarrow> enabled ev (ctl r) \<Longrightarrow> rt_step opt r (r\<lparr>ctl := handle e ev (ctl r)\<rparr>)"
| rt_guard_ev: "guard_step opt ev (rt_guard r) g \<Longrightarrow> rt_step opt r (r\<lparr>rt_guard := g\<rparr>)"

abbreviation rt_history :: "guard_opts \<Rightarrow> runtime \<Rightarrow> runtime \<Rightarrow> bool" where
  "rt_history opt \<equiv> reaches (\<lambda>_::unit. rt_step opt)"

section \<open>Every event is a sequence of controller events\<close>

lemma steady_refl [simp, intro]: "reaches steady_step c c"
  by (rule reaches_start)

lemma steady_handle: "enabled ev c \<Longrightarrow> (\<And>inp. ev \<noteq> Reconfigure inp) \<Longrightarrow> reaches steady_step c (handle e ev c)"
  by (rule reaches_one [where e = ev]) (auto intro!: steady_event ctl_event)

lemma steady_observe: "reaches steady_step c (observePressure e p c)"
  using steady_handle [of "Observe p" c e] by simp

lemma steady_acquire: "reaches steady_step c (snd (acquire e rq c))"
  using steady_handle [of "Acquire rq" c e] by simp

lemma steady_snapshot: "reaches steady_step c (snd (snapshot e c))"
  using steady_handle [of Snapshot c e] by simp

lemma steady_release: "reaches steady_step c (releaseLease e i out meta c)"
  using steady_handle [of "Release i out meta" c e] by simp

lemma steady_shutdown: "reaches steady_step c (shutdown c)"
  using steady_handle [of Shutdown c] by simp

lemma feed_ctl: "reaches steady_step (ctl r) (ctl (feedFreshPressureObservation e r))"
  using steady_observe by (simp add: feedFreshPressureObservation_def Let_def)

lemma admitted_ctl: "reaches steady_step (ctl r) (ctl (snd (admitted_result e l d r)))"
  using steady_snapshot [of "ctl r" e] by (auto simp: admitted_result_def Let_def split: prod.splits)

lemma upd_stream_frame [simp]:
  "ctl (upd_stream k f r) = ctl r" "releases (upd_stream k f r) = releases r" "rt_costConfig (upd_stream k f r) = rt_costConfig r"
  by (simp_all add: upd_stream_def split: option.splits)

lemma releaseOnce_ctl: "reaches steady_step (ctl r) (ctl (releaseOnce e i out t r))"
  using steady_release by (simp add: releaseOnce_def)

lemma settle_stream_ctl: "reaches steady_step (ctl r) (ctl (settle_stream e k out r))"
proof -
  have "reaches steady_step (ctl r) (ctl (releaseOnce e i out t (r\<lparr>streams := ss\<rparr>)))" for i t ss
    using releaseOnce_ctl [of "r\<lparr>streams := ss\<rparr>"] by simp
  then show ?thesis by (auto simp: settle_stream_def split: option.splits)
qed

lemma settle_upd_ctl: "reaches steady_step (ctl r) (ctl (settle_stream e k out (upd_stream k f r)))"
  using settle_stream_ctl [of "upd_stream k f r"] by simp

lemma rt_acquire_ctl: "reaches steady_step (ctl r) (ctl (snd (rt_acquire opt e heap q r)))"
proof -
  obtain v g where ch: "check opt heap (now e) (rt_guard r) = (v, g)" by fastforce
  define r1 where "r1 = feedFreshPressureObservation e (r\<lparr>rt_guard := g\<rparr>)"
  have r1: "reaches steady_step (ctl r) (ctl r1)" using feed_ctl [of "r\<lparr>rt_guard := g\<rparr>" e] by (simp add: r1_def)
  have acq: "reaches steady_step (ctl r) c" if "acquire e rq (ctl r1) = (res, c)" for rq res c
    using reaches_trans [OF steady_acquire [of "ctl r1" e rq] r1] that by simp
  have adm: "reaches steady_step (ctl r) (ctl (snd (admitted_result e l d (r1\<lparr>ctl := c\<rparr>))))"
    if "acquire e rq (ctl r1) = (res, c)" for rq res c l d
    using reaches_trans [OF admitted_ctl [of "r1\<lparr>ctl := c\<rparr>" e l d]] acq [OF that] by simp
  show ?thesis using r1 acq adm
    by (auto simp: rt_acquire_def Let_def ch r1_def [symmetric] split: option.splits sum.splits prod.splits acquire_result.splits)
qed

lemma rt_step_ctl: "rt_step opt r r' \<Longrightarrow> reaches steady_step (ctl r) (ctl r')"
proof (induction rule: rt_step.induct)
  case (rt_acq r e heap q)
  show ?case by (rule rt_acquire_ctl)
next
  case (rt_res r e i)
  show ?case using admitted_ctl by (auto simp: rt_resume_def split: option.splits settlement.splits)
next
  case (rt_snap r e)
  show ?case using steady_snapshot [of "ctl r" e] by (auto simp: rt_snapshot_def Let_def split: prod.splits)
next
  case (rt_disp r)
  show ?case using steady_shutdown by (simp add: rt_dispose_def)
next
  case (rt_attach r l e k resp t sg)
  have "reaches steady_step (ctl r) (ctl (onAbort e k (r\<lparr>streams := ss\<rparr>)))" for ss
    using settle_upd_ctl [of "r\<lparr>streams := ss\<rparr>"] by (simp add: onAbort_def)
  then show ?case using releaseOnce_ctl by (simp add: attachResponseLifecycle_def Let_def)
next
  case (rt_ctl ev r e)
  then show ?case using steady_handle [of ev "ctl r" e] by (cases ev) (simp_all add: internal_def)
next
  case (rt_pull r k)
  show ?case by (simp add: pull_start_def)
qed (auto simp: releaseHandlerFailure_def pull_done_def pull_error_def cancel_stream_def onAbort_def
    intro: releaseOnce_ctl settle_upd_ctl split: option.splits)

lemma rt_history_ctl: "rt_history opt r r' \<Longrightarrow> reaches steady_step (ctl r) (ctl r')"
  by (induction rule: reaches.induct) (auto intro: reaches_trans rt_step_ctl)

section \<open>Leases are released once\<close>

definition gone :: "controller \<Rightarrow> adm_id \<Rightarrow> bool" where
  "gone c i \<longleftrightarrow> jget (active c) i = None \<and> issued c i"

lemma gone_stays:
  assumes "ctl_inv c" "reaches steady_step c c'"
  shows "issued c i \<Longrightarrow> issued c' i" "gone c i \<Longrightarrow> gone c' i"
proof -
  have h: "history_le c c'" by (rule ctl.reaches_le [OF steady_ctl [OF assms(2)] assms(1)])
  then show iss: "issued c i \<Longrightarrow> issued c' i" by (auto simp: history_le_def issued_def)
  assume g: "gone c i"
  have "i \<notin> set (jkeys (active c'))"
  proof
    assume "i \<in> set (jkeys (active c'))"
    then have "i \<in> set (jkeys (active c)) \<or> (\<exists>n > leaseSeq c. i = Lease n)" using h unfolding history_le_def active_grows_def by blast
    then show False using g jget_None [of "active c" i] by (auto simp: gone_def issued_def)
  qed
  then show "gone c' i" using g iss jget_None [of "active c'" i] by (auto simp: gone_def)
qed

definition rt_inv :: "runtime \<Rightarrow> bool" where
  "rt_inv r \<longleftrightarrow>
     ctl_inv (ctl r) \<and> cost_config_ok (rt_costConfig r) \<and> distinct (map fst (releases r)) \<and>
     (\<forall>i \<in> fst ` set (releases r). gone (ctl r) i) \<and>
     (\<forall>k s. jget (streams r) k = Some s \<longrightarrow> issued (ctl r) (st_lease s) \<and> (st_settled s \<longrightarrow> gone (ctl r) (st_lease s)))"

lemma rt_invD:
  assumes "rt_inv r"
  shows "ctl_inv (ctl r)" "cost_config_ok (rt_costConfig r)" "distinct (map fst (releases r))"
    "i \<in> fst ` set (releases r) \<Longrightarrow> gone (ctl r) i"
    "jget (streams r) k = Some s \<Longrightarrow> issued (ctl r) (st_lease s)"
    "jget (streams r) k = Some s \<Longrightarrow> st_settled s \<Longrightarrow> gone (ctl r) (st_lease s)"
  using assms unfolding rt_inv_def by blast+

lemma ctl_inv_steady: "ctl_inv c \<Longrightarrow> reaches steady_step c c' \<Longrightarrow> ctl_inv c'"
  using ctl.reaches_inv steady_ctl by blast

text \<open>Events that only move the controller, or change a stream without settling it.\<close>

lemma rt_inv_ctl:
  assumes "rt_inv r" "reaches steady_step (ctl r) (ctl r')" "releases r' = releases r" "streams r' = streams r" "rt_costConfig r' = rt_costConfig r"
  shows "rt_inv r'"
  using assms ctl_inv_steady [OF rt_invD(1) [OF assms(1)] assms(2)] gone_stays [OF rt_invD(1) [OF assms(1)] assms(2)]
  unfolding rt_inv_def by auto

lemmas rt_inv_step = rt_inv_ctl [OF _ rt_step_ctl]

lemma rt_inv_stream:
  assumes "rt_inv r" "issued (ctl r) (st_lease s)" "st_settled s \<Longrightarrow> gone (ctl r) (st_lease s)"
  shows "rt_inv (r\<lparr>streams := jset k s (streams r)\<rparr>)"
  using assms unfolding rt_inv_def by auto

lemma rt_inv_upd:
  assumes "rt_inv r" "\<And>s. st_lease (f s) = st_lease s" "\<And>s. st_settled (f s) = st_settled s"
  shows "rt_inv (upd_stream k f r)"
  unfolding upd_stream_def
proof (cases "jget (streams r) k")
  case (Some s)
  have "rt_inv (r\<lparr>streams := jset k (f s) (streams r)\<rparr>)"
    by (rule rt_inv_stream [OF assms(1)]) (use rt_invD(5,6) [OF assms(1) Some] assms(2,3) in auto)
  then show "rt_inv (case jget (streams r) k of None \<Rightarrow> r | Some s \<Rightarrow> r\<lparr>streams := jset k (f s) (streams r)\<rparr>)" using Some by simp
qed (simp add: assms(1))

lemma releaseLease_gone_now: "core_ok c \<Longrightarrow> jget (active c) i = Some rec \<Longrightarrow> gone (releaseLease e i out meta c) i"
proof -
  assume a: "core_ok c" "jget (active c) i = Some rec"
  note g = releaseLease_gone(1,2) [OF a, of e out meta]
  have "jget (active (releaseLease e i out meta c)) i = None" unfolding jget_None by (rule g(1))
  then show ?thesis using g(2) by (simp add: gone_def issued_def)
qed

lemma releaseOnce_inv:
  assumes "rt_inv r" shows "rt_inv (releaseOnce e i out t r)" "issued (ctl r) i \<Longrightarrow> gone (ctl (releaseOnce e i out t r)) i"
proof -
  have core: "core_ok (ctl r)" using rt_invD(1) [OF assms] by (simp add: ctl_inv_def)
  show "rt_inv (releaseOnce e i out t r)"
  proof (cases "jget (active (ctl r)) i")
    case (Some rec)
    define c where "c = releaseLease e i out \<lparr>rm_latencyMs = map_option (\<lambda>t. Fin (of_int (max 0 (now e - t)))) t, rm_pressure = None\<rparr> (ctl r)"
    have r': "releaseOnce e i out t r = r\<lparr>ctl := c, releases := releases r @ [(i, out)]\<rparr>" using Some by (simp add: releaseOnce_def c_def)
    have st: "reaches steady_step (ctl r) c" unfolding c_def by (rule steady_release)
    note stay = gone_stays [OF rt_invD(1) [OF assms] st]
    have "gone c i" unfolding c_def by (rule releaseLease_gone_now [OF core Some])
    moreover have "i \<notin> fst ` set (releases r)" using rt_invD(4) [OF assms, of i] Some by (auto simp: gone_def)
    ultimately show ?thesis unfolding r' using assms stay ctl_inv_steady [OF rt_invD(1) [OF assms] st] by (auto simp: rt_inv_def)
  qed (simp add: releaseOnce_def assms)
  show "gone (ctl (releaseOnce e i out t r)) i" if iss: "issued (ctl r) i"
  proof (cases "jget (active (ctl r)) i")
    case (Some rec)
    then show ?thesis using releaseLease_gone_now [OF core Some] by (simp add: releaseOnce_def)
  qed (simp add: releaseOnce_def gone_def iss)
qed

lemma releaseOnce_streams: "releaseOnce e i out t (r\<lparr>streams := ss\<rparr>) = (releaseOnce e i out t r)\<lparr>streams := ss\<rparr>"
  "streams (releaseOnce e i out t r) = streams r"
  by (simp_all add: releaseOnce_def)

lemma settle_stream_inv:
  assumes "rt_inv r"
  shows "rt_inv (settle_stream e k out r)"
    and "jget (streams r) k = Some s \<Longrightarrow> \<exists>s'. jget (streams (settle_stream e k out r)) k = Some s' \<and> st_settled s' \<and> st_lease s' = st_lease s"
proof -
  show "rt_inv (settle_stream e k out r)"
  proof (cases "jget (streams r) k")
    case (Some s)
    define r1 where "r1 = releaseOnce e (st_lease s) out (Some (st_admittedAtMs s)) r"
    have "rt_inv r1" "gone (ctl r1) (st_lease s)" "streams r1 = streams r"
      using releaseOnce_inv [OF assms] rt_invD(5) [OF assms Some] by (auto simp: r1_def releaseOnce_streams)
    then have "rt_inv (r1\<lparr>streams := jset k (s\<lparr>st_settled := True\<rparr>) (streams r)\<rparr>)"
      using rt_inv_stream [of r1 "s\<lparr>st_settled := True\<rparr>" k] by (simp add: gone_def)
    then show ?thesis using assms Some by (simp add: settle_stream_def releaseOnce_streams r1_def)
  qed (simp add: settle_stream_def assms)
  show "\<exists>s'. jget (streams (settle_stream e k out r)) k = Some s' \<and> st_settled s' \<and> st_lease s' = st_lease s" if "jget (streams r) k = Some s"
    using that by (simp add: settle_stream_def releaseOnce_streams)
qed

lemma rt_step_inv: "rt_step opt r r' \<Longrightarrow> rt_inv r \<Longrightarrow> rt_inv r'"
proof (induction rule: rt_step.induct)
  case (rt_acq r e heap q)
  have "releases (snd (rt_acquire opt e heap q r)) = releases r \<and> streams (snd (rt_acquire opt e heap q r)) = streams r \<and>
      rt_costConfig (snd (rt_acquire opt e heap q r)) = rt_costConfig r"
    by (auto simp: rt_acquire_def Let_def feedFreshPressureObservation_def admitted_result_def
        split: option.splits sum.splits prod.splits acquire_result.splits)
  then show ?case by (intro rt_inv_step [OF rt_acq rt_step.rt_acq]) blast+
next
  case (rt_res r e i)
  have "releases (snd (rt_resume e i r)) = releases r \<and> streams (snd (rt_resume e i r)) = streams r \<and>
      rt_costConfig (snd (rt_resume e i r)) = rt_costConfig r"
    by (auto simp: rt_resume_def Let_def admitted_result_def split: option.splits prod.splits settlement.splits)
  then show ?case by (intro rt_inv_step [OF rt_res rt_step.rt_res]) blast+
next
  case (rt_snap r e)
  have "releases (snd (rt_snapshot e r)) = releases r \<and> streams (snd (rt_snapshot e r)) = streams r \<and>
      rt_costConfig (snd (rt_snapshot e r)) = rt_costConfig r"
    by (auto simp: rt_snapshot_def Let_def split: prod.splits)
  then show ?case by (intro rt_inv_step [OF rt_snap rt_step.rt_snap]) blast+
next
  case (rt_disp r)
  then show ?case by (rule rt_inv_step [OF _ rt_step.rt_disp]) (simp_all add: rt_dispose_def)
next
  case (rt_fail r e i out t)
  then show ?case by (simp add: releaseHandlerFailure_def releaseOnce_inv)
next
  case (rt_attach r l e k resp t sg)
  have st: "rt_inv (r\<lparr>streams := jset k s (streams r)\<rparr>)" if "st_lease s = l" "\<not> st_settled s" for s
    using rt_attach that by (intro rt_inv_stream) auto
  show ?case
    unfolding attachResponseLifecycle_def Let_def onAbort_def using rt_attach(2)
    by (auto intro!: releaseOnce_inv settle_stream_inv(1) rt_inv_upd st simp: cancelReader_def)
next
  case (rt_pull r k)
  then show ?case unfolding pull_start_def by (intro rt_inv_upd) auto
next
  case (rt_ctl ev r e)
  show ?case by (rule rt_inv_step [OF rt_ctl(3) rt_step.rt_ctl [OF rt_ctl(1,2)]]) simp_all
next
  case (rt_guard_ev ev r g)
  show ?case by (rule rt_inv_step [OF rt_guard_ev(2) rt_step.rt_guard_ev [OF rt_guard_ev(1)]]) simp_all
qed (auto simp: pull_done_def pull_error_def cancel_stream_def onAbort_def cancelReader_def
    intro!: settle_stream_inv(1) rt_inv_upd split: option.splits)

interpretation runtime: step_system "\<lambda>_::unit. rt_step opt" rt_inv
  by unfold_locales (rule rt_step_inv)

lemma new_runtime_inv: "new_runtime e g cfg = Inr r \<Longrightarrow> rt_inv r"
  by (auto simp: new_runtime_def rt_inv_def dest: new_controller_inv(1) resolveCostConfig_ok)

lemmas runtime_reached = runtime.reaches_inv [OF _ new_runtime_inv]

section \<open>Properties\<close>

text \<open>
  C16. The runtime facade refines the controller. Whatever mix of acquisitions, resumed waits, responses,
  failures, pressure observations, timers and disposal happens, the controller inside has taken a
  sequence of its own events, none of them a reconfiguration; in enforce mode the cost of the unreleased
  leases therefore stays within \<^verbatim>\<open>maxLimit\<close> along the whole history. Extracting the features of a body never
  makes an acquisition throw.
\<close>

theorem runtime_refines_controller:
  assumes new: "new_runtime e g cfg = Inr r0" and run: "rt_history opt r0 r"
  shows "reaches steady_step (ctl r0) (ctl r) \<and>
    (mode (config (ctl r0)) = Enforce \<longrightarrow> activeCost (ctl r) \<le> maxLimit (config (ctl r0))) \<and>
    (\<nexists>err. fst (rt_acquire opt e' heap q r) = Rt_threw err)"
proof -
  have c0: "new_controller e cfg = Inr (ctl r0)" using new by (auto simp: new_runtime_def)
  have reach: "reaches steady_step (ctl r0) (ctl r)" by (rule rt_history_ctl [OF run])
  note n = new_controller_inv [OF c0]
  have "config_ok (config (ctl r0))" by (rule validated_config_ok [OF n(2)])
  then have "activeCost (ctl r0) \<le> maxLimit (config (ctl r0))" using n(4) by (simp add: config_ok_def)
  then have "mode (config (ctl r0)) = Enforce \<longrightarrow> activeCost (ctl r) \<le> maxLimit (config (ctl r0))"
    using steady.reaches_inv [OF reach] n(1) by blast
  moreover have "cost_config_ok (rt_costConfig (feedFreshPressureObservation e' (r\<lparr>rt_guard := g'\<rparr>)))" for g'
    using rt_invD(2) [OF runtime_reached [OF run new]] by (simp add: feedFreshPressureObservation_def Let_def)
  then have "\<nexists>err. fst (rt_acquire opt e' heap q r) = Rt_threw err"
    by (auto simp: rt_acquire_def Let_def extractAdmissionCostFeatures_def resolveCostConfig_roundtrip admitted_result_def
        split: option.splits prod.splits acquire_result.splits if_splits)
  ultimately show ?thesis using reach by blast
qed

text \<open>A calm process: a request is admitted, its streamed response ends, and the lease is returned.\<close>

definition rt_ask :: runtime_request where
  "rt_ask = \<lparr>ri_tenantKey = ''t'', ri_body = demo_body, ri_signal = None, ri_maxWaitMs = Undefined, ri_streaming = None\<rparr>"

definition rt_feats :: cost_features where
  "rt_feats = \<lparr>bodyBytes = js_int 16, estimatedInputTokens = js_int 4, messageCount = js_int 1, toolCount = js_int 0,
     requestedFanout = js_int 1, streaming = Bool True\<rparr>"

definition rt0 :: runtime where
  "rt0 = \<lparr>ctl = demo, rt_costConfig = DEFAULT_ADMISSION_COST_CONFIG, lastObservationKey = None, lastResource = (Sev_normal, R_none, 0),
     pressureGuardRejectCount = 0, rt_disposed = False, rt_guard = new_guard demo_opts, streams = [], releases = []\<rparr>"

definition rt1 :: runtime where
  "rt1 = rt0\<lparr>ctl := snd (snapshot (quiet 5) (snd (acquire (quiet 5) (controller_request rt_ask rt_feats) demo))),
     rt_guard := scheduleRefresh (new_guard demo_opts)\<rparr>"

lemma rt0_new: "new_runtime (quiet 0) (new_guard demo_opts) sample_input = Inr rt0"
proof -
  have "in_cost sample_input = no_overrides" by (simp add: sample_input_def)
  then show ?thesis by (simp add: new_runtime_def demo_new rt0_def resolveCostConfig_default)
qed

lemma rt_feats_eq: "extractAdmissionCostFeatures demo_body None (cost_partial_of DEFAULT_ADMISSION_COST_CONFIG) = Inr rt_feats"
proof -
  have ok: "cost_config_ok DEFAULT_ADMISSION_COST_CONFIG" by (rule resolveCostConfig_ok [OF resolveCostConfig_default])
  show ?thesis
    by (simp add: extractAdmissionCostFeatures_def resolveCostConfig_roundtrip [OF ok] Let_def)
      (simp add: demo_body_def rt_feats_def estimateSizeFast_def ESTIMATE_SIZE_NODE_BUDGET_def walk.simps enqueueContainer_def
        addPrimitiveBytes_def DEFAULT_ADMISSION_COST_CONFIG_def featureLayers_def prop_of_def absorbLayer_def countMessages_def
        saturateCount_def MAX_SAFE_INTEGER_def readFanout_def or_else_def positiveInt_def countTools_def tool_sources_def resolveStreaming_def)
qed

lemma rt1_admitted: "rt_acquire demo_opts (quiet 5) (Some 10) rt_ask rt0 = (Rt_admitted Enforce (Lease 1) 5 None, rt1)"
proof -
  have chk: "check demo_opts (Some 10) 5 (new_guard demo_opts) = (None, scheduleRefresh (new_guard demo_opts))" by code_simp
  have obs: "snd (getObservation (scheduleRefresh (new_guard demo_opts))) = emptyState" by code_simp
  have acq: "fst (acquire (quiet 5) (controller_request rt_ask rt_feats) demo) = RAdmitted (Lease 1) 6 None" by code_simp
  have sn: "s_mode (fst (snapshot (quiet 5) (snd (acquire (quiet 5) (controller_request rt_ask rt_feats) demo)))) = Enforce" by code_simp
  have feed: "feedFreshPressureObservation (quiet 5) (rt0\<lparr>rt_guard := scheduleRefresh (new_guard demo_opts)\<rparr>) =
      rt0\<lparr>rt_guard := scheduleRefresh (new_guard demo_opts)\<rparr>"
    by (simp add: feedFreshPressureObservation_def obs emptyState_def rt0_def)
  obtain c where c: "acquire (quiet 5) (controller_request rt_ask rt_feats) demo = (RAdmitted (Lease 1) 6 None, c)"
    using acq by (metis prod.collapse)
  obtain sn c' where s: "snapshot (quiet 5) c = (sn, c')" by fastforce
  have fields: "rt_disposed rt0 = False" "rt_guard rt0 = new_guard demo_opts" "ctl rt0 = demo" "rt_costConfig rt0 = DEFAULT_ADMISSION_COST_CONFIG"
    "now (quiet 5) = 5" "ri_body rt_ask = demo_body" "ri_streaming rt_ask = None"
    by (simp_all add: rt0_def quiet_def rt_ask_def)
  show ?thesis
    using sn by (simp add: rt_acquire_def fields chk feed rt_feats_eq c admitted_result_def s rt1_def)
qed

lemma rt1_reached: "rt_history demo_opts rt0 rt1"
  using reaches_one [where step = "\<lambda>_::unit. rt_step demo_opts", OF rt_acq [of demo_opts rt0 "quiet 5" "Some 10" rt_ask]]
  by (simp add: rt1_admitted)

theorem runtime_refines_controller_witness:
  "fst (rt_acquire demo_opts (quiet 5) (Some 10) rt_ask rt0) = Rt_admitted Enforce (Lease 1) 5 None \<and>
   activeCost (ctl rt1) = 6 \<and> activeCost (ctl rt1) \<le> maxLimit (config demo)"
proof -
  have "activeCost (ctl rt1) = 6" "mode (config (ctl rt0)) = Enforce" by code_simp+
  moreover have "ctl rt0 = demo" by (simp add: rt0_def)
  ultimately show ?thesis using runtime_refines_controller [OF rt0_new rt1_reached] by (simp add: rt1_admitted)
qed

text \<open>
  C17. A streamed response returns its lease exactly once. When the body of a response ends, fails, is
  cancelled by the client or aborted by its signal, the lease is not active afterwards, in that state and
  in every later one; and in no history is a lease released twice, whichever of these events coincide,
  also with failures reported by the handler.
\<close>

theorem lease_released_exactly_once:
  assumes new: "new_runtime e0 g cfg = Inr r0" and run: "rt_history opt r0 r" and st: "jget (streams r) k = Some s"
    and ending: "r1 = pull_done e k r \<or> r1 = pull_error e k r \<or> r1 = cancel_stream e k r \<or> st_listening s \<and> r1 = onAbort e k r"
    and later: "rt_history opt r1 r2"
  shows "jget (active (ctl r2)) (st_lease s) = None \<and> distinct (map fst (releases r2))"
proof -
  have inv: "rt_inv r" by (rule runtime_reached [OF run new])
  have "rt_step opt r r1" using ending st by (auto intro: rt_step.intros)
  then have inv1: "rt_inv r1" using inv by (rule rt_step_inv)
  have upd: "rt_inv (upd_stream k f r) \<and> (\<exists>s'. jget (streams (upd_stream k f r)) k = Some s' \<and> st_lease s' = st_lease s)"
    if "\<And>s. st_lease (f s) = st_lease s" "\<And>s. st_settled (f s) = st_settled s" for f
  proof
    show "rt_inv (upd_stream k f r)" by (rule rt_inv_upd [OF inv that])
    show "\<exists>s'. jget (streams (upd_stream k f r)) k = Some s' \<and> st_lease s' = st_lease s" using st that by (simp add: upd_stream_def)
  qed
  have settled: "\<exists>s'. jget (streams (settle_stream e k out (upd_stream k f r))) k = Some s' \<and> st_settled s' \<and> st_lease s' = st_lease s"
    if "\<And>s. st_lease (f s) = st_lease s" "\<And>s. st_settled (f s) = st_settled s" for f out
    using upd [OF that] settle_stream_inv(2) by fastforce
  have keep: "\<exists>s'. jget (streams (upd_stream k f' x)) k = Some s' \<and> st_settled s' \<and> st_lease s' = st_lease s"
    if "\<exists>s'. jget (streams x) k = Some s' \<and> st_settled s' \<and> st_lease s' = st_lease s" "\<And>s. st_lease (f' s) = st_lease s" "\<And>s. st_settled (f' s) = st_settled s"
    for f' x using that by (auto simp: upd_stream_def)
  have "\<exists>s'. jget (streams r1) k = Some s' \<and> st_settled s' \<and> st_lease s' = st_lease s"
    using ending st settled keep by (auto simp: pull_done_def pull_error_def cancel_stream_def onAbort_def cancelReader_def)
  then have "gone (ctl r1) (st_lease s)" using rt_invD(6) [OF inv1] by metis
  then have "gone (ctl r2) (st_lease s)" using gone_stays(2) [OF rt_invD(1) [OF inv1] rt_history_ctl [OF later]] by blast
  moreover have "rt_inv r2" by (rule runtime.reaches_inv [OF later inv1])
  ultimately show ?thesis using rt_invD(3) by (simp add: gone_def)
qed

definition rt2 :: runtime where
  "rt2 = attachResponseLifecycle (quiet 6) 1 \<lparr>hr_status = 200, hr_contentType = Some ''Text/Event-Stream; charset=utf-8'', hr_has_body = True\<rparr> (Lease 1) 5 None rt1"

definition rt3 :: runtime where
  "rt3 = pull_done (quiet 40) 1 rt2"

lemma rt2_reached: "rt_history demo_opts rt0 rt2"
proof -
  have "leaseSeq (ctl rt1) = 1" by code_simp
  then have "issued (ctl rt1) (Lease 1)" by (simp add: issued_def)
  from reaches_event [where step = "\<lambda>_::unit. rt_step demo_opts", OF rt1_reached rt_attach [OF this]]
  show ?thesis unfolding rt2_def .
qed

theorem lease_released_exactly_once_witness:
  "releases rt3 = [(Lease 1, Success)] \<and> jget (active (ctl rt2)) (Lease 1) \<noteq> None \<and>
   jget (active (ctl (cancel_stream (quiet 50) 1 rt3))) (Lease 1) = None \<and> releases (cancel_stream (quiet 50) 1 rt3) = releases rt3"
proof -
  have a: "releases rt3 = [(Lease 1, Success)]" "jget (active (ctl rt2)) (Lease 1) \<noteq> None"
    "releases (cancel_stream (quiet 50) 1 rt3) = [(Lease 1, Success)]" by code_simp+
  have "map_option st_lease (jget (streams rt2) 1) = Some (Lease 1)" by code_simp
  then obtain s where s: "jget (streams rt2) 1 = Some s" "st_lease s = Lease 1" by auto
  have "rt_history demo_opts rt3 (cancel_stream (quiet 50) 1 rt3)"
    by (rule reaches_one [where step = "\<lambda>_::unit. rt_step demo_opts", OF rt_cancel])
  then have "jget (active (ctl (cancel_stream (quiet 50) 1 rt3))) (Lease 1) = None"
    using lease_released_exactly_once [OF rt0_new rt2_reached s(1), of rt3 "quiet 40"] s(2) by (simp add: rt3_def)
  then show ?thesis using a by simp
qed

lemma default_config_valid: "\<exists>cfg. validateConfig DEFAULT_ADAPTIVE_ADMISSION_CONFIG = Inr cfg \<and> mode cfg = Shadow"
proof -
  have "case validateConfig DEFAULT_ADAPTIVE_ADMISSION_CONFIG of Inr cfg \<Rightarrow> mode cfg = Shadow | Inl _ \<Rightarrow> False" by code_simp
  then show ?thesis by (auto split: sum.splits)
qed

lemma default_runtime: "\<exists>r. new_runtime e g DEFAULT_ADAPTIVE_ADMISSION_CONFIG = Inr r \<and> mode (config (ctl r)) = Shadow"
proof -
  obtain cfg where cfg: "validateConfig DEFAULT_ADAPTIVE_ADMISSION_CONFIG = Inr cfg" "mode cfg = Shadow" using default_config_valid by blast
  have "\<exists>cc. resolveCostConfig (in_cost DEFAULT_ADAPTIVE_ADMISSION_CONFIG) = Inr cc" using cfg(1) by (auto simp: validateConfig_def split: if_splits)
  then show ?thesis using cfg by (auto simp: new_runtime_def new_controller_def armWindowTimer_def)
qed

text \<open>
  The process always has an admission runtime. Whatever the environment variables hold, and whatever
  configuration is given explicitly, creating the process runtime succeeds; when the variables do not
  describe a valid configuration the runtime is the default one, in shadow mode, which admits everything.
\<close>

theorem process_runtime_total:
  "\<exists>r. createDefaultProcessRuntime e g given vars = Inr r \<and>
     (given = None \<and> (\<exists>err. resolveAdaptiveAdmissionConfigFromEnv vars = Inl err) \<longrightarrow> mode (config (ctl r)) = Shadow)"
proof -
  obtain d where d: "new_runtime e g DEFAULT_ADAPTIVE_ADMISSION_CONFIG = Inr d" "mode (config (ctl d)) = Shadow"
    using default_runtime by blast
  define chosen where "chosen = (case given of Some cfg \<Rightarrow> Inr cfg | None \<Rightarrow> resolveAdaptiveAdmissionConfigFromEnv vars)"
  have eq: "createDefaultProcessRuntime e g given vars =
      (case sum_bind chosen (\<lambda>cfg. case new_runtime e g cfg of Inl err \<Rightarrow> Inl (Env_range err) | Inr r \<Rightarrow> Inr r) of
         Inr r \<Rightarrow> Inr r | Inl _ \<Rightarrow> Inr d)"
    unfolding createDefaultProcessRuntime_def chosen_def d(1) ..
  show ?thesis
  proof (cases chosen)
    case (Inl err)
    then show ?thesis using d(2) by (simp add: eq)
  next
    case (Inr cfg)
    then have "\<not> (given = None \<and> (\<exists>err. resolveAdaptiveAdmissionConfigFromEnv vars = Inl err))" by (auto simp: chosen_def)
    then show ?thesis using Inr by (cases "new_runtime e g cfg") (auto simp: eq)
  qed
qed

theorem process_runtime_total_witness:
  "resolveAdaptiveAdmissionConfigFromEnv [''ADAPTIVE_ADMISSION_MIN_LIMIT'' \<mapsto> ''1e3''] = Inl (Env_not_integer ''ADAPTIVE_ADMISSION_MIN_LIMIT'') \<and>
   (\<exists>r. createDefaultProcessRuntime (quiet 0) (new_guard demo_opts) None [''ADAPTIVE_ADMISSION_MIN_LIMIT'' \<mapsto> ''1e3''] = Inr r \<and> mode (config (ctl r)) = Shadow)"
proof -
  have e: "resolveAdaptiveAdmissionConfigFromEnv [''ADAPTIVE_ADMISSION_MIN_LIMIT'' \<mapsto> ''1e3''] = Inl (Env_not_integer ''ADAPTIVE_ADMISSION_MIN_LIMIT'')"
    by (simp add: resolveAdaptiveAdmissionConfigFromEnv_def apply_mode_def int_fields_def parsePositiveSafeInt_def is_digit_def)
  then show ?thesis
    using process_runtime_total [of "quiet 0" "new_guard demo_opts" None "[''ADAPTIVE_ADMISSION_MIN_LIMIT'' \<mapsto> ''1e3'']"] by auto
qed

end
