(* ===== verification/Combo_Steps.thy ===== *)
theory Combo_Steps
  imports Js_Json
begin

text \<open>
  The steps of a combo, \<^verbatim>\<open>src/lib/combos/steps.ts\<close>: what an administrator may write (a string or an object) is
  brought into one of three kinds. \<^verbatim>\<open>Number\<close> applied to a string is an argument of the definitions. A property that
  may be absent, null or a string is an \<open>option option\<close>; optional lists are absent when empty.
\<close>

section \<open>Steps\<close>

record model_step =
  ms_id :: string
  ms_model :: string
  ms_providerId :: "string option"
  ms_connectionId :: "string option option"
  ms_weight :: rat
  ms_label :: "string option"
  ms_prompt :: "string option"
  ms_tags :: "string list"
  ms_allowed :: "string list"
  ms_quotaOnly :: bool

record ref_step =
  rs_id :: string
  rs_comboName :: string
  rs_weight :: rat
  rs_label :: "string option"
  rs_quotaOnly :: bool

record wildcard_step =
  ws_id :: string
  ws_providerId :: string
  ws_modelPattern :: string
  ws_connectionId :: "string option option"
  ws_weight :: rat
  ws_label :: "string option"
  ws_allowed :: "string list"

datatype combo_step = S_model model_step | S_ref ref_step | S_wild wildcard_step

text \<open>The collections combo names are taken from: nothing, an array, an object with an array, an iterable of names.\<close>

datatype combo_collection = No_combos | Combo_array "json list" | Combo_record "json list" | Combo_names "string list"

record step_options =
  so_comboName :: "string option"
  so_index :: nat
  so_allCombos :: combo_collection

definition isRecord :: "json option \<Rightarrow> layer option" where
  "isRecord v = (case v of Some (JObj kvs) \<Rightarrow> Some kvs | _ \<Rightarrow> None)"

definition trimmed :: "string \<Rightarrow> string option" where
  "trimmed s = (if js_trim s \<noteq> [] then Some (js_trim s) else None)"

definition toTrimmedString :: "json option \<Rightarrow> string option" where
  "toTrimmedString v = (case v of Some (JStr s) \<Rightarrow> trimmed s | _ \<Rightarrow> None)"

definition toWeight :: "(string \<Rightarrow> js_num) \<Rightarrow> json option \<Rightarrow> rat" where
  "toWeight number v =
     (let parsed = (case v of Some (JNum n) \<Rightarrow> n | Some (JStr s) \<Rightarrow> if js_trim s \<noteq> [] then number s else Fin 0 | _ \<Rightarrow> Fin 0) in
      case parsed of Fin q \<Rightarrow> max 0 (min 100 q) | _ \<Rightarrow> 0)"

definition name_of :: "json \<Rightarrow> string option" where
  "name_of c = (case c of JStr s \<Rightarrow> trimmed s | JObj kvs \<Rightarrow> toTrimmedString (prop_of kvs ''name'') | _ \<Rightarrow> None)"

definition collectComboNames :: "combo_collection \<Rightarrow> string list" where
  "collectComboNames cs =
     (case cs of
        No_combos \<Rightarrow> []
      | Combo_names ns \<Rightarrow> List.map_filter trimmed ns
      | Combo_array js \<Rightarrow> List.map_filter name_of js
      | Combo_record js \<Rightarrow> List.map_filter name_of js)"

section \<open>Model strings\<close>

definition slash_index :: "string \<Rightarrow> nat option" where
  "slash_index s = findIndex (\<lambda>c. c = CHR ''/'') s"

definition parseProviderId :: "string \<Rightarrow> string option" where
  "parseProviderId model =
     (let t = js_trim model in
      case slash_index t of
        Some (Suc k) \<Rightarrow> trimmed (take (Suc k) t)
      | _ \<Rightarrow> None)"

definition parseProviderWildcardPattern :: "string \<Rightarrow> (string \<times> string) option" where
  "parseProviderWildcardPattern tgt =
     (let t = js_trim tgt in
      case slash_index t of
        Some (Suc k) \<Rightarrow>
          (let providerId = js_trim (take (Suc k) t); modelPattern = js_trim (drop (Suc (Suc k)) t) in
           if providerId = [] \<or> CHR ''*'' \<notin> set modelPattern then None else Some (providerId, modelPattern))
      | _ \<Rightarrow> None)"

definition toFullModelString :: "string \<Rightarrow> string option \<Rightarrow> string" where
  "toFullModelString model providerId =
     (let t = js_trim model in
      if CHR ''/'' \<in> set t then t
      else case (case providerId of Some p \<Rightarrow> trimmed p | None \<Rightarrow> None) of Some p \<Rightarrow> p @ ''/'' @ t | None \<Rightarrow> t)"

definition slug_char :: "char \<Rightarrow> bool" where
  "slug_char ch \<longleftrightarrow> is_digit ch \<or> (let n = of_char ch :: nat in 97 \<le> n \<and> n \<le> 122)"

fun dash_runs :: "bool \<Rightarrow> string \<Rightarrow> string" where
  "dash_runs inside [] = []"
| "dash_runs inside (c # cs) =
     (if slug_char c then c # dash_runs False cs else if inside then dash_runs True cs else CHR ''-'' # dash_runs True cs)"

definition slugify :: "string \<Rightarrow> string" where
  "slugify v =
     (let dash = (\<lambda>c. c = CHR ''-''); slug = rev (dropWhile dash (rev (dropWhile dash (dash_runs False (toLowerCase v))))) in
      if slug \<noteq> [] then slug else ''step'')"

datatype step_kind = K_model | K_ref | K_wildcard

definition buildStepId :: "step_kind \<Rightarrow> string option \<Rightarrow> nat \<Rightarrow> string \<Rightarrow> string" where
  "buildStepId kind comboName index seed =
     (let kindSlug = (case kind of K_ref \<Rightarrow> ''ref'' | K_wildcard \<Rightarrow> ''wildcard'' | K_model \<Rightarrow> ''model'') in
      take 200 (js_join ''-'' [slugify (case comboName of Some n \<Rightarrow> n | None \<Rightarrow> ''combo''), kindSlug, dec (index + 1), slugify seed]))"

definition shouldTreatAsComboRef :: "string \<Rightarrow> string option \<Rightarrow> step_options \<Rightarrow> bool" where
  "shouldTreatAsComboRef tgt providerId opt \<longleftrightarrow>
     providerId = None \<and>
     (tgt \<in> set (collectComboNames (so_allCombos opt)) \<or> Some tgt = Option.bind (so_comboName opt) trimmed)"

section \<open>Reading a step\<close>

definition has_kind :: "layer \<Rightarrow> string \<Rightarrow> bool" where
  "has_kind kvs k \<longleftrightarrow> prop_of kvs ''kind'' = Some (JStr k)"

definition provider_of :: "layer \<Rightarrow> string \<Rightarrow> string option" where
  "provider_of kvs rawModel =
     or_else (toTrimmedString (prop_of kvs ''providerId'')) (or_else (toTrimmedString (prop_of kvs ''provider'')) (parseProviderId rawModel))"

definition getComboStepWeight :: "(string \<Rightarrow> js_num) \<Rightarrow> json \<Rightarrow> rat" where
  "getComboStepWeight number v = (case isRecord (Some v) of Some kvs \<Rightarrow> toWeight number (prop_of kvs ''weight'') | None \<Rightarrow> 0)"

definition getComboModelString :: "json \<Rightarrow> string option" where
  "getComboModelString v =
     (case v of
        JStr s \<Rightarrow> trimmed s
      | JObj kvs \<Rightarrow>
          if has_kind kvs ''combo-ref'' then None
          else map_option (\<lambda>rawModel. toFullModelString rawModel (provider_of kvs rawModel)) (toTrimmedString (prop_of kvs ''model''))
      | _ \<Rightarrow> None)"

definition getComboModelProvider :: "json \<Rightarrow> string option" where
  "getComboModelProvider v =
     (case v of
        JStr s \<Rightarrow> parseProviderId s
      | JObj kvs \<Rightarrow>
          if has_kind kvs ''combo-ref'' then None
          else provider_of kvs (case toTrimmedString (prop_of kvs ''model'') of Some m \<Rightarrow> m | None \<Rightarrow> [])
      | _ \<Rightarrow> None)"

definition implicitPinAllowlist :: "string option \<Rightarrow> string list option \<Rightarrow> string list option" where
  "implicitPinAllowlist connectionId allowed =
     (let pin = js_trim (case connectionId of Some c \<Rightarrow> c | None \<Rightarrow> []) in
      if allowed \<noteq> None \<and> allowed \<noteq> Some [] then allowed
      else if pin \<noteq> [] then Some [pin]
      else if allowed \<noteq> None then Some [] else None)"

definition comboPinAllowlist :: "bool \<Rightarrow> string option \<Rightarrow> string list option \<Rightarrow> string list option" where
  "comboPinAllowlist isCombo forced allowed = (if \<not> isCombo then allowed else implicitPinAllowlist forced allowed)"

definition getComboStepTarget :: "json \<Rightarrow> step_options \<Rightarrow> string option" where
  "getComboStepTarget v opt =
     (case v of
        JStr s \<Rightarrow> trimmed s
      | JObj kvs \<Rightarrow>
          if has_kind kvs ''combo-ref'' then toTrimmedString (prop_of kvs ''comboName'')
          else if has_kind kvs ''provider-wildcard'' then
            map_option (\<lambda>p. p @ ''/'' @ (case toTrimmedString (prop_of kvs ''modelPattern'') of Some m \<Rightarrow> m | None \<Rightarrow> ''*''))
              (toTrimmedString (prop_of kvs ''providerId''))
          else
            (case toTrimmedString (prop_of kvs ''model'') of
               None \<Rightarrow> None
             | Some rawModel \<Rightarrow>
                 (let providerId = provider_of kvs rawModel in
                  if \<not> has_kind kvs ''model'' \<and> shouldTreatAsComboRef rawModel providerId opt then Some rawModel
                  else Some (toFullModelString rawModel providerId)))
      | _ \<Rightarrow> None)"

text \<open>The optional parts of an object.\<close>

definition pin_of :: "layer \<Rightarrow> string option option" where
  "pin_of kvs = (if prop_of kvs ''connectionId'' = Some JNull then Some None else map_option Some (toTrimmedString (prop_of kvs ''connectionId'')))"

definition string_list :: "layer \<Rightarrow> string \<Rightarrow> string list" where
  "string_list kvs k = (case prop_of kvs k of Some (JArr xs) \<Rightarrow> List.map_filter (\<lambda>x. toTrimmedString (Some x)) xs | _ \<Rightarrow> [])"

definition with_pin :: "string \<Rightarrow> string option option \<Rightarrow> string" where
  "with_pin seed pin = (case pin of Some (Some c) \<Rightarrow> seed @ '':'' @ c | _ \<Rightarrow> seed)"

definition wildcard_of :: "(string \<Rightarrow> js_num) \<Rightarrow> step_options \<Rightarrow> layer \<Rightarrow> string \<Rightarrow> string \<Rightarrow> combo_step" where
  "wildcard_of number opt kvs providerId modelPattern =
     S_wild \<lparr>ws_id = (case toTrimmedString (prop_of kvs ''id'') of
                        Some i \<Rightarrow> i
                      | None \<Rightarrow> buildStepId K_wildcard (Option.bind (so_comboName opt) trimmed) (so_index opt)
                                  (with_pin (providerId @ ''/'' @ modelPattern) (pin_of kvs))),
              ws_providerId = providerId, ws_modelPattern = modelPattern, ws_connectionId = pin_of kvs,
              ws_weight = toWeight number (prop_of kvs ''weight''), ws_label = toTrimmedString (prop_of kvs ''label''),
              ws_allowed = string_list kvs ''allowedConnectionIds''\<rparr>"

definition ref_of :: "(string \<Rightarrow> js_num) \<Rightarrow> step_options \<Rightarrow> layer \<Rightarrow> string \<Rightarrow> bool \<Rightarrow> combo_step" where
  "ref_of number opt kvs comboName quotaOnly =
     S_ref \<lparr>rs_id = (case toTrimmedString (prop_of kvs ''id'') of
                       Some i \<Rightarrow> i
                     | None \<Rightarrow> buildStepId K_ref (Option.bind (so_comboName opt) trimmed) (so_index opt) comboName),
             rs_comboName = comboName, rs_weight = toWeight number (prop_of kvs ''weight''),
             rs_label = toTrimmedString (prop_of kvs ''label''), rs_quotaOnly = quotaOnly\<rparr>"

definition normalize_string :: "step_options \<Rightarrow> string \<Rightarrow> combo_step option" where
  "normalize_string opt s =
     (let cn = Option.bind (so_comboName opt) trimmed; i = so_index opt in
      case trimmed s of
        None \<Rightarrow> None
      | Some tgt \<Rightarrow>
          if shouldTreatAsComboRef tgt None opt
          then Some (S_ref \<lparr>rs_id = buildStepId K_ref cn i tgt, rs_comboName = tgt, rs_weight = 0, rs_label = None, rs_quotaOnly = False\<rparr>)
          else (case parseProviderWildcardPattern tgt of
                  Some (p, m) \<Rightarrow>
                    Some (S_wild \<lparr>ws_id = buildStepId K_wildcard cn i (p @ ''/'' @ m), ws_providerId = p, ws_modelPattern = m,
                                  ws_connectionId = None, ws_weight = 0, ws_label = None, ws_allowed = []\<rparr>)
                | None \<Rightarrow>
                    Some (S_model \<lparr>ms_id = buildStepId K_model cn i tgt, ms_model = tgt, ms_providerId = parseProviderId tgt,
                                   ms_connectionId = None, ms_weight = 0, ms_label = None, ms_prompt = None, ms_tags = [],
                                   ms_allowed = [], ms_quotaOnly = False\<rparr>)))"

definition model_of :: "(string \<Rightarrow> js_num) \<Rightarrow> step_options \<Rightarrow> layer \<Rightarrow> string \<Rightarrow> string option \<Rightarrow> combo_step" where
  "model_of number opt kvs rawModel providerId =
     (let model = toFullModelString rawModel providerId in
      S_model \<lparr>ms_id = (case toTrimmedString (prop_of kvs ''id'') of
                          Some i \<Rightarrow> i
                        | None \<Rightarrow> buildStepId K_model (Option.bind (so_comboName opt) trimmed) (so_index opt) (with_pin model (pin_of kvs))),
               ms_model = model, ms_providerId = providerId, ms_connectionId = pin_of kvs,
               ms_weight = toWeight number (prop_of kvs ''weight''), ms_label = toTrimmedString (prop_of kvs ''label''),
               ms_prompt = toTrimmedString (prop_of kvs ''prompt''), ms_tags = string_list kvs ''tags'',
               ms_allowed = string_list kvs ''allowedConnectionIds'',
               ms_quotaOnly = (prop_of kvs ''fallbackOnlyOnQuotaExhaustion'' = Some (JBool True))\<rparr>)"

definition normalize_object :: "(string \<Rightarrow> js_num) \<Rightarrow> step_options \<Rightarrow> layer \<Rightarrow> combo_step option" where
  "normalize_object number opt kvs =
     (let quotaOnly = (prop_of kvs ''fallbackOnlyOnQuotaExhaustion'' = Some (JBool True)) in
      if has_kind kvs ''combo-ref'' then
        map_option (\<lambda>n. ref_of number opt kvs n quotaOnly) (toTrimmedString (prop_of kvs ''comboName''))
      else if has_kind kvs ''provider-wildcard'' then
        map_option (\<lambda>p. wildcard_of number opt kvs p (case toTrimmedString (prop_of kvs ''modelPattern'') of Some m \<Rightarrow> m | None \<Rightarrow> ''*''))
          (provider_of kvs (case toTrimmedString (prop_of kvs ''model'') of Some m \<Rightarrow> m | None \<Rightarrow> []))
      else
        (case toTrimmedString (prop_of kvs ''model'') of
           None \<Rightarrow> None
         | Some rawModel \<Rightarrow>
             (let providerId = provider_of kvs rawModel in
              case parseProviderWildcardPattern rawModel of
                Some (p, m) \<Rightarrow> Some (wildcard_of number opt kvs p m)
              | None \<Rightarrow>
                  if \<not> has_kind kvs ''model'' \<and> shouldTreatAsComboRef rawModel providerId opt
                  then Some (ref_of number opt kvs rawModel False)
                  else Some (model_of number opt kvs rawModel providerId))))"

definition normalizeComboStep :: "(string \<Rightarrow> js_num) \<Rightarrow> step_options \<Rightarrow> json \<Rightarrow> combo_step option" where
  "normalizeComboStep number opt v =
     (case v of JStr s \<Rightarrow> normalize_string opt s | JObj kvs \<Rightarrow> normalize_object number opt kvs | _ \<Rightarrow> None)"

definition normalizeComboModels :: "(string \<Rightarrow> js_num) \<Rightarrow> string option \<Rightarrow> combo_collection \<Rightarrow> json option \<Rightarrow> combo_step list" where
  "normalizeComboModels number comboName allCombos models =
     (let xs = (case models of Some (JArr xs) \<Rightarrow> xs | _ \<Rightarrow> []) in
      List.map_filter (\<lambda>(i, v). normalizeComboStep number \<lparr>so_comboName = comboName, so_index = i, so_allCombos = allCombos\<rparr> v)
        (enumerate 0 xs))"

section \<open>Stored steps\<close>

text \<open>The object a normalised step is, property by property, as it is written to the database.\<close>

definition opt_prop :: "string \<Rightarrow> string option \<Rightarrow> layer" where
  "opt_prop k v = (case v of Some s \<Rightarrow> [(k, JStr s)] | None \<Rightarrow> [])"

definition pin_prop :: "string option option \<Rightarrow> layer" where
  "pin_prop v = (case v of None \<Rightarrow> [] | Some None \<Rightarrow> [(''connectionId'', JNull)] | Some (Some c) \<Rightarrow> [(''connectionId'', JStr c)])"

definition list_prop :: "string \<Rightarrow> string list \<Rightarrow> layer" where
  "list_prop k xs = (if xs = [] then [] else [(k, JArr (map JStr xs))])"

definition flag_prop :: "bool \<Rightarrow> layer" where
  "flag_prop b = (if b then [(''fallbackOnlyOnQuotaExhaustion'', JBool True)] else [])"

fun step_json :: "combo_step \<Rightarrow> json" where
  "step_json (S_model m) =
     JObj ([(''id'', JStr (ms_id m)), (''kind'', JStr ''model''), (''model'', JStr (ms_model m))] @
       opt_prop ''providerId'' (ms_providerId m) @ pin_prop (ms_connectionId m) @ [(''weight'', JNum (Fin (ms_weight m)))] @
       opt_prop ''label'' (ms_label m) @ opt_prop ''prompt'' (ms_prompt m) @ list_prop ''tags'' (ms_tags m) @
       list_prop ''allowedConnectionIds'' (ms_allowed m) @ flag_prop (ms_quotaOnly m))"
| "step_json (S_ref r) =
     JObj ([(''id'', JStr (rs_id r)), (''kind'', JStr ''combo-ref''), (''comboName'', JStr (rs_comboName r)), (''weight'', JNum (Fin (rs_weight r)))] @
       opt_prop ''label'' (rs_label r) @ flag_prop (rs_quotaOnly r))"
| "step_json (S_wild w) =
     JObj ([(''id'', JStr (ws_id w)), (''kind'', JStr ''provider-wildcard''), (''providerId'', JStr (ws_providerId w)),
            (''modelPattern'', JStr (ws_modelPattern w))] @ pin_prop (ws_connectionId w) @ [(''weight'', JNum (Fin (ws_weight w)))] @
       opt_prop ''label'' (ws_label w) @ list_prop ''allowedConnectionIds'' (ws_allowed w))"

definition COMBO_SCHEMA_VERSION :: rat where
  "COMBO_SCHEMA_VERSION = 2"

text \<open>The whole record: all properties stay, the version and the steps are set.\<close>

definition normalizeComboRecord :: "(string \<Rightarrow> js_num) \<Rightarrow> combo_collection \<Rightarrow> layer \<Rightarrow> layer" where
  "normalizeComboRecord number allCombos combo =
     jset ''models'' (JArr (map step_json (normalizeComboModels number (toTrimmedString (prop_of combo ''name'')) allCombos (prop_of combo ''models''))))
       (jset ''version'' (JNum (Fin COMBO_SCHEMA_VERSION)) combo)"

text \<open>What every normalised step satisfies.\<close>

definition neat :: "string \<Rightarrow> bool" where
  "neat s \<longleftrightarrow> trimmed s = Some s"

definition neat_opt :: "string option \<Rightarrow> bool" where
  "neat_opt v = (case v of Some s \<Rightarrow> neat s | None \<Rightarrow> True)"

fun step_ok :: "combo_step \<Rightarrow> bool" where
  "step_ok (S_model m) \<longleftrightarrow>
     neat (ms_id m) \<and> neat (ms_model m) \<and> neat_opt (ms_providerId m) \<and> neat_opt (Option.bind (ms_connectionId m) id) \<and>
     0 \<le> ms_weight m \<and> ms_weight m \<le> 100 \<and> neat_opt (ms_label m) \<and> neat_opt (ms_prompt m) \<and> list_all neat (ms_tags m) \<and>
     list_all neat (ms_allowed m) \<and>
     (case ms_providerId m of None \<Rightarrow> parseProviderId (ms_model m) = None | Some p \<Rightarrow> CHR ''/'' \<in> set (ms_model m))"
| "step_ok (S_ref r) \<longleftrightarrow> neat (rs_id r) \<and> neat (rs_comboName r) \<and> 0 \<le> rs_weight r \<and> rs_weight r \<le> 100 \<and> neat_opt (rs_label r)"
| "step_ok (S_wild w) \<longleftrightarrow>
     neat (ws_id w) \<and> neat (ws_providerId w) \<and> neat (ws_modelPattern w) \<and> neat_opt (Option.bind (ws_connectionId w) id) \<and>
     0 \<le> ws_weight w \<and> ws_weight w \<le> 100 \<and> neat_opt (ws_label w) \<and> list_all neat (ws_allowed w)"

lemma neat_iff: "neat s \<longleftrightarrow> s \<noteq> [] \<and> \<not> is_space (hd s) \<and> \<not> is_space (last s)"
proof
  assume "neat s"
  then have "js_trim s = s" "s \<noteq> []" by (auto simp: neat_def trimmed_def split: if_splits)
  then show "s \<noteq> [] \<and> \<not> is_space (hd s) \<and> \<not> is_space (last s)" using js_trim_ends [of s] by simp
next
  assume "s \<noteq> [] \<and> \<not> is_space (hd s) \<and> \<not> is_space (last s)"
  then show "neat s" using js_trim_fix [of s] by (simp add: neat_def trimmed_def)
qed

lemma neat_trim: "neat s \<Longrightarrow> js_trim s = s" "neat s \<Longrightarrow> s \<noteq> []"
  by (auto simp: neat_def trimmed_def split: if_splits)

lemma trimmed_neat: "trimmed s = Some t \<Longrightarrow> neat t"
  by (auto simp: neat_def trimmed_def split: if_splits)

lemma toTrimmedString_neat: "toTrimmedString v = Some t \<Longrightarrow> neat t"
  by (auto simp: toTrimmedString_def trimmed_neat split: option.splits json.splits)

lemma toTrimmedString_opt [simp]: "neat_opt (toTrimmedString v)"
  by (auto simp: neat_opt_def toTrimmedString_neat split: option.split)

lemma toTrimmedString_JStr [simp]: "neat s \<Longrightarrow> toTrimmedString (Some (JStr s)) = Some s"
  by (simp add: toTrimmedString_def neat_def)

lemma toWeight_range: "0 \<le> toWeight number v \<and> toWeight number v \<le> 100"
  by (auto simp: toWeight_def Let_def split: js_num.split)

lemma toWeight_fix [simp]: "0 \<le> q \<Longrightarrow> q \<le> 100 \<Longrightarrow> toWeight number (Some (JNum (Fin q))) = q"
  by (simp add: toWeight_def)

lemma pin_neat [simp]: "neat_opt (Option.bind (pin_of kvs) id)"
  by (cases "toTrimmedString (prop_of kvs ''connectionId'')") (auto simp: pin_of_def neat_opt_def toTrimmedString_neat)

lemma string_list_neat [simp]: "list_all neat (string_list kvs k)"
  by (auto simp: string_list_def list_all_iff List.map_filter_def toTrimmedString_neat split: option.splits json.splits)

lemma parseProviderId_neat: "parseProviderId m = Some p \<Longrightarrow> neat p"
  by (auto simp: parseProviderId_def Let_def trimmed_neat split: option.splits nat.splits)

lemma provider_neat [simp]: "neat_opt (provider_of kvs m)"
  by (auto simp: provider_of_def or_else_def neat_opt_def toTrimmedString_neat parseProviderId_neat split: option.splits)

lemma findIndex_in: "findIndex (\<lambda>c. c = x) s = Some i \<Longrightarrow> x \<in> set s"
  using findIndex_Some [of "\<lambda>c. c = x" s i] nth_mem by blast

lemma parseProviderId_slash: "parseProviderId m = Some p \<Longrightarrow> CHR ''/'' \<in> set (js_trim m)"
  by (auto simp: parseProviderId_def slash_index_def Let_def dest: findIndex_in split: option.splits nat.splits)

lemma wildcard_neat: "parseProviderWildcardPattern m = Some (p, w) \<Longrightarrow> neat p \<and> neat w"
  by (auto simp: parseProviderWildcardPattern_def Let_def neat_def trimmed_def split: option.splits nat.splits if_splits)

text \<open>Generated identifiers consist of lower-case letters, digits and dashes.\<close>

definition id_char :: "char \<Rightarrow> bool" where
  "id_char ch \<longleftrightarrow> slug_char ch \<or> ch = CHR ''-''"

lemma id_char_no_space: "id_char ch \<Longrightarrow> \<not> is_space ch"
  by (auto simp: id_char_def slug_char_def is_digit_def is_space_def)

lemma dash_runs_chars: "list_all id_char (dash_runs b s)"
  by (induction b s rule: dash_runs.induct) (auto simp: id_char_def)

lemma slugify_chars: "list_all id_char (slugify v)"
proof -
  have "list_all id_char (rev (dropWhile P (rev (dropWhile P (dash_runs False s)))))" for P s
    using dash_runs_chars [of False s] by (auto simp: list_all_iff dest!: set_dropWhileD)
  then show ?thesis by (auto simp: slugify_def Let_def id_char_def slug_char_def)
qed

lemma slugify_ne: "slugify v \<noteq> []"
  by (auto simp: slugify_def Let_def)

lemma dec_id_chars: "list_all id_char (dec n)"
  using dec_spec [of n] by (auto simp: list_all_iff id_char_def slug_char_def)

lemma neat_chars: "s \<noteq> [] \<Longrightarrow> list_all id_char s \<Longrightarrow> neat s"
  by (auto simp: neat_iff list_all_iff id_char_no_space)

lemma buildStepId_neat: "neat (buildStepId kind n i seed)"
proof (rule neat_chars)
  show "buildStepId kind n i seed \<noteq> []" by (simp add: buildStepId_def Let_def slugify_ne)
  have "list_all id_char (case kind of K_ref \<Rightarrow> ''ref'' | K_wildcard \<Rightarrow> ''wildcard'' | K_model \<Rightarrow> ''model'')"
    by (cases kind) (simp_all add: id_char_def slug_char_def)
  moreover have "id_char CHR ''-''" by (simp add: id_char_def)
  ultimately show "list_all id_char (buildStepId kind n i seed)"
    using slugify_chars dec_id_chars unfolding buildStepId_def Let_def
    by (auto simp: list_all_iff dest!: in_set_takeD)
qed

lemma toFullModelString_eq:
  "neat m \<Longrightarrow> toFullModelString m None = m"
  "neat m \<Longrightarrow> neat q \<Longrightarrow> toFullModelString m (Some q) = (if CHR ''/'' \<in> set m then m else q @ ''/'' @ m)"
  using neat_trim [of m] by (simp_all add: toFullModelString_def Let_def neat_def)

lemma toFullModelString_ok:
  assumes "neat m" "neat_opt p"
  shows "neat (toFullModelString m p)" "p \<noteq> None \<Longrightarrow> CHR ''/'' \<in> set (toFullModelString m p)"
proof -
  have "neat (q @ ''/'' @ m)" if "neat q" for q using that assms(1) by (simp add: neat_iff)
  then show "neat (toFullModelString m p)" "p \<noteq> None \<Longrightarrow> CHR ''/'' \<in> set (toFullModelString m p)"
    using assms by (cases p; simp add: toFullModelString_eq neat_opt_def)+
qed

lemma model_of_ok:
  assumes "neat m" "p = provider_of kvs m" shows "step_ok (model_of number opt kvs m p)"
proof -
  have np: "neat_opt p" using assms(2) by simp
  note full = toFullModelString_ok [OF assms(1) np]
  have "neat (case toTrimmedString (prop_of kvs ''id'') of Some i \<Rightarrow> i | None \<Rightarrow> buildStepId k c j x)" for k c j x
    using toTrimmedString_neat buildStepId_neat by (cases "toTrimmedString (prop_of kvs ''id'')") auto
  moreover have "parseProviderId (toFullModelString m p) = None" if "p = None"
    using that assms toFullModelString_eq(1) by (auto simp: provider_of_def or_else_def split: option.splits)
  ultimately show ?thesis using full(1,2) np toWeight_range by (auto simp: model_of_def Let_def split: option.split)
qed

lemma wildcard_of_ok: "neat p \<Longrightarrow> neat w \<Longrightarrow> step_ok (wildcard_of number opt kvs p w)"
  using toTrimmedString_neat [of "prop_of kvs ''id''"] toWeight_range [of number "prop_of kvs ''weight''"]
  by (auto simp: wildcard_of_def buildStepId_neat split: option.split)

lemma ref_of_ok: "neat n \<Longrightarrow> step_ok (ref_of number opt kvs n b)"
  using toTrimmedString_neat [of "prop_of kvs ''id''"] toWeight_range [of number "prop_of kvs ''weight''"]
  by (auto simp: ref_of_def buildStepId_neat split: option.split)

lemma normalizeComboStep_ok:
  assumes "normalizeComboStep number opt v = Some st" shows "step_ok st"
proof (cases v)
  case (JStr s)
  obtain t where t: "trimmed s = Some t" "neat t"
    using assms JStr trimmed_neat by (auto simp: normalizeComboStep_def normalize_string_def Let_def split: option.splits)
  have "(case parseProviderId t of None \<Rightarrow> True | Some p \<Rightarrow> CHR ''/'' \<in> set t)"
    using parseProviderId_slash [of t] neat_trim [OF t(2)] by (auto split: option.split)
  moreover have "neat_opt (parseProviderId t)" by (auto simp: neat_opt_def parseProviderId_neat split: option.split)
  ultimately show ?thesis using assms JStr t wildcard_neat
    by (fastforce simp: normalizeComboStep_def normalize_string_def Let_def buildStepId_neat neat_opt_def split: option.splits if_splits)
next
  case (JObj kvs)
  have star: "neat ''*''" by (simp add: neat_iff is_space_def)
  have pr: "provider_of kvs m = Some p \<Longrightarrow> neat p" for m p using provider_neat [of kvs m] by (simp add: neat_opt_def)
  show ?thesis using assms JObj star pr wildcard_neat toTrimmedString_neat
    by (auto simp: normalizeComboStep_def normalize_object_def Let_def intro!: ref_of_ok wildcard_of_ok model_of_ok
        split: option.splits if_splits)
qed (use assms in \<open>simp_all add: normalizeComboStep_def\<close>)

text \<open>Reading the properties of a stored object back.\<close>

lemma prop_of_simps [simp]:
  "prop_of [] k = None" "prop_of ((k', v) # r) k = (if k = k' then Some v else prop_of r k)"
  "prop_of (opt_prop k' o' @ r) k = (if k = k' \<and> o' \<noteq> None then map_option JStr o' else prop_of r k)"
  "prop_of (pin_prop c @ r) k = (if k = ''connectionId'' \<and> c \<noteq> None then Some (case the c of None \<Rightarrow> JNull | Some x \<Rightarrow> JStr x) else prop_of r k)"
  "prop_of (list_prop k' xs @ r) k = (if k = k' \<and> xs \<noteq> [] then Some (JArr (map JStr xs)) else prop_of r k)"
  "prop_of (flag_prop b) k = (if k = ''fallbackOnlyOnQuotaExhaustion'' \<and> b then Some (JBool True) else None)"
  "prop_of (list_prop k' xs) k = (if k = k' \<and> xs \<noteq> [] then Some (JArr (map JStr xs)) else None)"
  by (auto simp: prop_of_def opt_prop_def pin_prop_def list_prop_def flag_prop_def split: option.split)

lemma toTrimmedString_map: "neat_opt v \<Longrightarrow> toTrimmedString (map_option JStr v) = v"
  by (cases v) (simp_all add: neat_opt_def toTrimmedString_def neat_def)

lemma toTrimmedString_None [simp]: "toTrimmedString None = None" "toTrimmedString (Some JNull) = None"
  by (simp_all add: toTrimmedString_def)

lemma map_filter_neat: "list_all neat xs \<Longrightarrow> List.map_filter (\<lambda>x. toTrimmedString (Some x)) (map JStr xs) = xs"
  by (induction xs) (simp_all add: List.map_filter_def)

lemma string_list_stored:
  "prop_of kvs k = (if xs \<noteq> [] then Some (JArr (map JStr xs)) else None) \<Longrightarrow> list_all neat xs \<Longrightarrow> string_list kvs k = xs"
  by (auto simp: string_list_def map_filter_neat split: if_splits)

lemma pin_stored:
  assumes "prop_of kvs ''connectionId'' = (if c \<noteq> None then Some (case the c of None \<Rightarrow> JNull | Some x \<Rightarrow> JStr x) else None)"
    "neat_opt (Option.bind c id)" shows "pin_of kvs = c"
  using assms by (cases c; cases "the c") (auto simp: pin_of_def neat_opt_def)

lemma stored_ok_fixed:
  assumes "step_ok st" and "\<And>m. st = S_model m \<Longrightarrow> parseProviderWildcardPattern (ms_model m) = None"
  shows "normalizeComboStep number opt (step_json st) = Some st"
proof (cases st)
  case (S_ref r)
  then show ?thesis using assms(1)
    by (cases r) (auto simp: normalizeComboStep_def normalize_object_def has_kind_def ref_of_def toTrimmedString_map)
next
  case (S_wild w)
  then show ?thesis using assms(1)
    by (cases w) (auto simp: normalizeComboStep_def normalize_object_def has_kind_def wildcard_of_def toTrimmedString_map
        provider_of_def or_else_def intro!: pin_stored string_list_stored)
next
  case (S_model m)
  obtain kvs where kvs: "step_json (S_model m) = JObj kvs" "kvs = ([(''id'', JStr (ms_id m)), (''kind'', JStr ''model''), (''model'', JStr (ms_model m))] @
       opt_prop ''providerId'' (ms_providerId m) @ pin_prop (ms_connectionId m) @ [(''weight'', JNum (Fin (ms_weight m)))] @
       opt_prop ''label'' (ms_label m) @ opt_prop ''prompt'' (ms_prompt m) @ list_prop ''tags'' (ms_tags m) @
       list_prop ''allowedConnectionIds'' (ms_allowed m) @ flag_prop (ms_quotaOnly m))" by simp
  have ok: "step_ok (S_model m)" using assms(1) S_model by simp
  have pr: "provider_of kvs (ms_model m) = ms_providerId m"
    using ok by (cases "ms_providerId m") (auto simp: kvs(2) provider_of_def or_else_def neat_opt_def)
  have full: "toFullModelString (ms_model m) (ms_providerId m) = ms_model m"
    using ok by (cases "ms_providerId m") (auto simp: toFullModelString_eq neat_opt_def)
  have "model_of number opt kvs (ms_model m) (ms_providerId m) = S_model m"
    using ok unfolding model_of_def full Let_def
    by (cases m) (auto simp: kvs(2) toTrimmedString_map intro!: pin_stored string_list_stored)
  moreover have "normalize_object number opt kvs = Some (model_of number opt kvs (ms_model m) (ms_providerId m))"
    using ok assms(2) [OF S_model] pr by (simp add: normalize_object_def has_kind_def Let_def kvs(2))
  ultimately show ?thesis using kvs(1) S_model by (simp add: normalizeComboStep_def)
qed

definition plain_step :: "combo_step \<Rightarrow> bool" where
  "plain_step st = (case st of S_model m \<Rightarrow> CHR ''*'' \<notin> set (ms_model m) | _ \<Rightarrow> True)"

lemma no_star_no_pattern: "CHR ''*'' \<notin> set m \<Longrightarrow> parseProviderWildcardPattern m = None"
proof -
  assume a: "CHR ''*'' \<notin> set m"
  have sub: "set (js_trim x) \<subseteq> set x" for x by (auto simp: js_trim_def dest!: set_dropWhileD)
  have "CHR ''*'' \<notin> set (js_trim (drop k (js_trim m)))" for k using a sub [of m] sub [of "drop k (js_trim m)"] in_set_dropD by fastforce
  then show ?thesis by (auto simp: parseProviderWildcardPattern_def Let_def split: option.split nat.split)
qed

lemma stored_step_fixed:
  assumes "normalizeComboStep number opt v = Some st" "plain_step st"
  shows "normalizeComboStep number' opt' (step_json st) = Some st"
  using assms no_star_no_pattern by (intro stored_ok_fixed normalizeComboStep_ok [OF assms(1)]) (auto simp: plain_step_def)

lemma map_filter_some: "(\<And>x. x \<in> set xs \<Longrightarrow> f x = Some (g x)) \<Longrightarrow> List.map_filter f xs = map g xs"
  by (induction xs) (auto simp: List.map_filter_def)

lemma models_stable:
  assumes "sts = normalizeComboModels number comboName allCombos models" "list_all plain_step sts"
  shows "normalizeComboModels number' comboName' allCombos' (Some (JArr (map step_json sts))) = sts"
proof -
  have fixed: "normalizeComboStep number' opt' (step_json st) = Some st" if st: "st \<in> set sts" for st opt'
  proof -
    obtain opt v where "normalizeComboStep number opt v = Some st"
      using st unfolding assms(1) normalizeComboModels_def by (auto simp: Let_def List.map_filter_def)
    then show ?thesis using stored_step_fixed assms(2) st by (auto simp: list_all_iff)
  qed
  let ?N = "\<lambda>(i, v). normalizeComboStep number' \<lparr>so_comboName = comboName', so_index = i, so_allCombos = allCombos'\<rparr> v"
  have "?N (i, v) = Some (sts ! i)" if "(i, v) \<in> set (enumerate 0 (map step_json sts))" for i v
    using that fixed by (auto simp: in_set_enumerate_eq)
  then have "List.map_filter ?N (enumerate 0 (map step_json sts)) = map (\<lambda>(i, v). sts ! i) (enumerate 0 (map step_json sts))"
    by (intro map_filter_some) auto
  also have "\<dots> = sts" by (rule nth_equalityI) (auto simp: nth_enumerate_eq)
  finally show ?thesis by (simp add: normalizeComboModels_def)
qed

section \<open>Properties\<close>


definition demo_number :: "string \<Rightarrow> js_num" where
  "demo_number s = (case parseInt10 s of Some n \<Rightarrow> Fin (of_int n) | None \<Rightarrow> NaN)"

definition demo_models :: json where
  "demo_models = JArr [JStr '' openai/gpt-4o '', JStr ''backup'', JObj [(''model'', JStr ''claude''), (''providerId'', JStr ''anthropic''), (''weight'', JStr ''250'')],
     JStr ''groq/*'']"

definition demo_combo :: layer where
  "demo_combo = [(''name'', JStr ''main''), (''models'', demo_models)]"


text \<open>The exception: a model name with an asterisk is a literal model at first and a wildcard after it was stored.\<close>

definition starred :: json where
  "starred = JObj [(''model'', JStr ''gpt-*''), (''providerId'', JStr ''openai'')]"

lemma starred_model_changes_kind:
  "case normalizeComboStep demo_number \<lparr>so_comboName = None, so_index = 0, so_allCombos = No_combos\<rparr> starred of
     Some (S_model m) \<Rightarrow>
       (case normalizeComboStep demo_number \<lparr>so_comboName = None, so_index = 0, so_allCombos = No_combos\<rparr> (step_json (S_model m)) of
          Some (S_wild w) \<Rightarrow> ms_model m = ''openai/gpt-*'' \<and> ws_modelPattern w = ''gpt-*''
        | _ \<Rightarrow> False)
   | _ \<Rightarrow> False"
  by code_simp

end
