(* ===== verification/Combo_Structure.thy ===== *)
theory Combo_Structure
  imports Combo_Steps "HOL-Library.Multiset"
begin

text \<open>
  How a combo becomes a list of targets: \<^verbatim>\<open>open-sse/services/combo/comboStructure.ts\<close> with the model entry of
  \<^verbatim>\<open>targetSorters.ts\<close> and the alias of \<^verbatim>\<open>opencodeTargetAlias.ts\<close>. Combos may refer to combos; the expansion is cut
  at a depth and at names already on the way. The provider a model string belongs to (\<^verbatim>\<open>getTargetProvider\<close>) and
  the visibility of a target, both lookups in the model catalogue, are arguments. Entries of a collection of
  combos are objects.
\<close>

section \<open>Combos and runtime steps\<close>

record combo =
  cb_name :: string
  cb_models :: "json list"
  cb_config :: "layer option"

definition toComboLike :: "json \<Rightarrow> combo" where
  "toComboLike j =
     (let kvs = (case j of JObj kvs \<Rightarrow> kvs | _ \<Rightarrow> []) in
      \<lparr>cb_name = (case toTrimmedString (prop_of kvs ''name'') of Some n \<Rightarrow> n | None \<Rightarrow> []),
       cb_models = (case prop_of kvs ''models'' of Some (JArr xs) \<Rightarrow> xs | _ \<Rightarrow> []),
       cb_config = isRecord (prop_of kvs ''config'')\<rparr>)"

definition getCombosArray :: "combo_collection \<Rightarrow> combo list" where
  "getCombosArray cs = (case cs of Combo_array js \<Rightarrow> map toComboLike js | Combo_record js \<Rightarrow> map toComboLike js | _ \<Rightarrow> [])"

record ctarget =
  ct_stepId :: string
  ct_executionKey :: string
  ct_modelStr :: string
  ct_provider :: string
  ct_providerId :: "string option"
  ct_connectionId :: "string option"
  ct_allowed :: "string list"
  ct_weight :: rat
  ct_label :: "string option"
  ct_prompt :: "string option"
  ct_quotaOnly :: bool

record cref =
  cr_stepId :: string
  cr_executionKey :: string
  cr_comboName :: string
  cr_weight :: rat
  cr_label :: "string option"
  cr_quotaOnly :: bool

datatype runtime_step = R_model ctarget | R_ref cref

fun stepId :: "runtime_step \<Rightarrow> string" where
  "stepId (R_model t) = ct_stepId t"
| "stepId (R_ref r) = cr_stepId r"

fun step_executionKey :: "runtime_step \<Rightarrow> string" where
  "step_executionKey (R_model t) = ct_executionKey t"
| "step_executionKey (R_ref r) = cr_executionKey r"

fun step_weight :: "runtime_step \<Rightarrow> rat" where
  "step_weight (R_model t) = ct_weight t"
| "step_weight (R_ref r) = cr_weight r"

text \<open>What the code takes from the catalogue and from the language.\<close>

record catalogue =
  numberOf :: "string \<Rightarrow> js_num"
  targetProvider :: "string \<Rightarrow> string option \<Rightarrow> string"
  visible :: "ctarget \<Rightarrow> bool"

definition buildExecutionKey :: "string list \<Rightarrow> string \<Rightarrow> string" where
  "buildExecutionKey path sid = js_join ''>'' (path @ [sid])"

definition resolveComboTargetModelStr :: "string \<Rightarrow> string" where
  "resolveComboTargetModelStr m =
     (case slash_index m of
        Some (Suc k) \<Rightarrow> if take (Suc k) m = ''opencode'' then ''oc'' @ drop (Suc k) m else m
      | _ \<Rightarrow> m)"

definition names_of :: "combo list option \<Rightarrow> combo_collection" where
  "names_of cs = (case cs of None \<Rightarrow> No_combos | Some xs \<Rightarrow> Combo_names (map cb_name xs))"

definition normalizeRuntimeStep :: "catalogue \<Rightarrow> json \<Rightarrow> string \<Rightarrow> nat \<Rightarrow> combo list option \<Rightarrow> string list \<Rightarrow> runtime_step option" where
  "normalizeRuntimeStep cat entry comboName index allCombos path =
     (case normalizeComboStep (numberOf cat) \<lparr>so_comboName = Some comboName, so_index = index, so_allCombos = names_of allCombos\<rparr> entry of
        None \<Rightarrow> None
      | Some (S_ref r) \<Rightarrow>
          Some (R_ref \<lparr>cr_stepId = rs_id r, cr_executionKey = buildExecutionKey path (rs_id r), cr_comboName = rs_comboName r,
                       cr_weight = rs_weight r, cr_label = rs_label r, cr_quotaOnly = rs_quotaOnly r\<rparr>)
      | Some (S_wild w) \<Rightarrow> None
      | Some (S_model m) \<Rightarrow>
          (case getComboModelString (step_json (S_model m)) of
             None \<Rightarrow> None
           | Some declaredModelStr \<Rightarrow>
               (let modelStr = resolveComboTargetModelStr declaredModelStr;
                    connectionId = Option.bind (ms_connectionId m) id;
                    allowed = implicitPinAllowlist connectionId (if ms_allowed m = [] then None else Some (ms_allowed m))
                in Some (R_model
                     \<lparr>ct_stepId = ms_id m, ct_executionKey = buildExecutionKey path (ms_id m), ct_modelStr = modelStr,
                      ct_provider = targetProvider cat modelStr (ms_providerId m), ct_providerId = ms_providerId m,
                      ct_connectionId = connectionId, ct_allowed = (case allowed of Some xs \<Rightarrow> xs | None \<Rightarrow> []),
                      ct_weight = ms_weight m, ct_label = ms_label m, ct_prompt = ms_prompt m, ct_quotaOnly = ms_quotaOnly m\<rparr>))))"

definition getTopLevelRuntimeSteps :: "catalogue \<Rightarrow> combo \<Rightarrow> combo list option \<Rightarrow> string list \<Rightarrow> runtime_step list" where
  "getTopLevelRuntimeSteps cat c allCombos path =
     List.map_filter (\<lambda>(i, e). normalizeRuntimeStep cat e (cb_name c) i allCombos path) (enumerate 0 (cb_models c))"

section \<open>Composite tiers\<close>

definition tier_entry :: "string \<times> json \<Rightarrow> (string \<times> string \<times> string option) option" where
  "tier_entry kv =
     (case (isRecord (Some (snd kv)), trimmed (fst kv)) of
        (Some t, Some n) \<Rightarrow>
          map_option (\<lambda>sid. (n, sid, toTrimmedString (prop_of t ''fallbackTier''))) (toTrimmedString (prop_of t ''stepId''))
      | _ \<Rightarrow> None)"

definition tier_entries :: "layer \<Rightarrow> (string, string \<times> string option) jmap" where
  "tier_entries tiers = fold (\<lambda>(k, v) m. jset k v m) (List.map_filter tier_entry tiers) []"

definition add_new :: "string \<Rightarrow> string list \<Rightarrow> string list" where
  "add_new x xs = (if x \<in> set xs then xs else xs @ [x])"

text \<open>Along the fallback tiers, until one is missing or comes a second time.\<close>

function tier_walk :: "(string, string \<times> string option) jmap \<Rightarrow> string option \<Rightarrow> string list \<Rightarrow> string list \<Rightarrow> string list" where
  "tier_walk es cur vis ord =
     (case cur of
        None \<Rightarrow> ord
      | Some t \<Rightarrow>
          (case jget es t of
             None \<Rightarrow> ord
           | Some (sid, fb) \<Rightarrow> if t \<in> set vis then ord else tier_walk es fb (t # vis) (add_new sid ord)))"
  by pat_completeness auto
termination
proof (relation "measure (\<lambda>(es, cur, vis, ord). card (set (jkeys es) - set vis))")
  fix es :: "(string, string \<times> string option) jmap" and cur vis ord x2 x2a x1 x2b
  assume *: "jget es x2 = Some x2a" "x2 \<notin> set vis"
  then have "x2 \<in> set (jkeys es)" using jget_in_keys [of es x2] by simp
  then have "set (jkeys es) - set (x2 # vis) \<subset> set (jkeys es) - set vis" using *(2) by auto
  then show "((es, x2b, x2 # vis, add_new x1 ord), es, cur, vis, ord) \<in> measure (\<lambda>(es, cur, vis, ord). card (set (jkeys es) - set vis))"
    by (simp only: in_measure prod.case) (rule psubset_card_mono; simp)
qed simp

definition getCompositeTierStepOrder :: "combo \<Rightarrow> string list" where
  "getCompositeTierStepOrder c =
     (case isRecord (Option.bind (cb_config c) (\<lambda>kvs. prop_of kvs ''compositeTiers'')) of
        None \<Rightarrow> []
      | Some ct \<Rightarrow>
          (case (toTrimmedString (prop_of ct ''defaultTier''), isRecord (prop_of ct ''tiers'')) of
             (Some d, Some tiers) \<Rightarrow>
               (let es = tier_entries tiers in fold (\<lambda>(k, sid, fb). add_new sid) es (tier_walk es (Some d) [] []))
           | _ \<Rightarrow> []))"

definition hasCompositeTierRuntimeOrder :: "combo \<Rightarrow> bool" where
  "hasCompositeTierRuntimeOrder c \<longleftrightarrow> getCompositeTierStepOrder c \<noteq> []"

fun place_steps :: "runtime_step list \<Rightarrow> runtime_step list \<Rightarrow> runtime_step list" where
  "place_steps [] ord = ord"
| "place_steps (st # sts) ord = place_steps sts (if stepId st \<in> stepId ` set ord then ord else ord @ [st])"

definition by_step_id :: "runtime_step list \<Rightarrow> (string, runtime_step) jmap" where
  "by_step_id steps = fold (\<lambda>st m. jset (stepId st) st m) steps []"

definition orderRuntimeStepsByCompositeTiers :: "runtime_step list \<Rightarrow> combo \<Rightarrow> runtime_step list" where
  "orderRuntimeStepsByCompositeTiers steps c =
     (let ids = getCompositeTierStepOrder c in
      if ids = [] then steps
      else place_steps steps (place_steps (List.map_filter (jget (by_step_id steps)) ids) []))"

definition getOrderedTopLevelRuntimeSteps :: "catalogue \<Rightarrow> combo \<Rightarrow> combo list option \<Rightarrow> string list \<Rightarrow> runtime_step list" where
  "getOrderedTopLevelRuntimeSteps cat c allCombos path =
     orderRuntimeStepsByCompositeTiers (getTopLevelRuntimeSteps cat c allCombos path) c"

section \<open>Expansion\<close>

definition MAX_COMBO_DEPTH :: int where
  "MAX_COMBO_DEPTH = 3"

definition find_combo :: "combo list \<Rightarrow> string \<Rightarrow> combo option" where
  "find_combo cs n = find (\<lambda>c. cb_name c = n) cs"

fun model_only :: "runtime_step option \<Rightarrow> ctarget option" where
  "model_only (Some (R_model t)) = Some t"
| "model_only _ = None"

definition directTargets :: "catalogue \<Rightarrow> combo \<Rightarrow> string list \<Rightarrow> ctarget list" where
  "directTargets cat c path =
     List.map_filter (\<lambda>(i, e). model_only (normalizeRuntimeStep cat e (cb_name c) i None path)) (enumerate 0 (cb_models c))"

text \<open>The two functions call each other; the set of visited names is copied at every call.\<close>

function resolveNestedComboTargets :: "catalogue \<Rightarrow> int \<Rightarrow> combo list \<Rightarrow> combo \<Rightarrow> string set \<Rightarrow> int \<Rightarrow> string list \<Rightarrow> ctarget list"
  and expandRuntimeStep :: "catalogue \<Rightarrow> int \<Rightarrow> combo list \<Rightarrow> runtime_step \<Rightarrow> string set \<Rightarrow> int \<Rightarrow> string list \<Rightarrow> ctarget list"
where
  "resolveNestedComboTargets cat maxDepth combos c visited depth path =
     (if depth > maxDepth then directTargets cat c path
      else if cb_name c \<in> visited then []
      else concat (map (\<lambda>st. expandRuntimeStep cat maxDepth combos st (insert (cb_name c) visited) depth path)
                     (getOrderedTopLevelRuntimeSteps cat c (Some combos) path)))"
| "expandRuntimeStep cat maxDepth combos st visited depth path =
     (case st of
        R_model t \<Rightarrow> [t]
      | R_ref r \<Rightarrow>
          if depth > maxDepth then []
          else (case find_combo combos (cr_comboName r) of
                  None \<Rightarrow> []
                | Some nested \<Rightarrow>
                    if cr_comboName r \<in> visited then []
                    else resolveNestedComboTargets cat maxDepth combos nested visited (depth + 1) (path @ [cr_stepId r])))"
  by pat_completeness auto
termination
  by (relation "measure (\<lambda>x. case x of Inl (cat, maxDepth, combos, c, visited, depth, path) \<Rightarrow> nat (2 * (maxDepth + 2 - depth))
                             | Inr (cat, maxDepth, combos, st, visited, depth, path) \<Rightarrow> nat (2 * (maxDepth + 2 - depth) - 1))") auto

declare resolveNestedComboTargets.simps [simp del] expandRuntimeStep.simps [simp del]

definition getComboFromData :: "string \<Rightarrow> combo_collection \<Rightarrow> combo option" where
  "getComboFromData modelStr cs =
     (case find_combo (getCombosArray cs) modelStr of Some c \<Rightarrow> if cb_models c \<noteq> [] then Some c else None | None \<Rightarrow> None)"

section \<open>Model entries and the graph of combos\<close>

definition bare_options :: step_options where
  "bare_options = \<lparr>so_comboName = None, so_index = 0, so_allCombos = No_combos\<rparr>"

definition entry_model :: "json \<Rightarrow> string" where
  "entry_model e = (case getComboStepTarget e bare_options of Some m \<Rightarrow> m | None \<Rightarrow> [])"

definition normalizeModelEntry :: "(string \<Rightarrow> js_num) \<Rightarrow> json \<Rightarrow> string \<times> rat" where
  "normalizeModelEntry number e = (entry_model e, getComboStepWeight number e)"

datatype dag_error = Too_deep string | Circular string

fun first_error :: "('e + unit) list \<Rightarrow> 'e + unit" where
  "first_error [] = Inr ()"
| "first_error (Inl e # rs) = Inl e"
| "first_error (Inr u # rs) = first_error rs"

function validateComboDAG :: "int \<Rightarrow> combo list \<Rightarrow> string \<Rightarrow> string set \<Rightarrow> int \<Rightarrow> dag_error + unit" where
  "validateComboDAG maxDepth combos name visited depth =
     (if depth > maxDepth then Inl (Too_deep name)
      else if name \<in> visited then Inl (Circular name)
      else (case find_combo combos name of
              None \<Rightarrow> Inr ()
            | Some c \<Rightarrow>
                first_error (map (\<lambda>e. let m = entry_model e in
                                      if find_combo combos m \<noteq> None then validateComboDAG maxDepth combos m (insert name visited) (depth + 1)
                                      else Inr ()) (cb_models c))))"
  by pat_completeness auto
termination
  by (relation "measure (\<lambda>(maxDepth, combos, name, visited, depth). nat (maxDepth + 1 - depth))") auto

declare validateComboDAG.simps [simp del]

function resolveNestedComboModels :: "int \<Rightarrow> combo list \<Rightarrow> combo \<Rightarrow> string set \<Rightarrow> int \<Rightarrow> string list" where
  "resolveNestedComboModels maxDepth combos c visited depth =
     (if depth > maxDepth then map entry_model (cb_models c)
      else if cb_name c \<in> visited then []
      else concat (map (\<lambda>e. let m = entry_model e in
                             case find_combo combos m of
                               Some nested \<Rightarrow> resolveNestedComboModels maxDepth combos nested (insert (cb_name c) visited) (depth + 1)
                             | None \<Rightarrow> [m]) (cb_models c)))"
  by pat_completeness auto
termination
  by (relation "measure (\<lambda>(maxDepth, combos, c, visited, depth). nat (maxDepth + 1 - depth))") auto

declare resolveNestedComboModels.simps [simp del]

section \<open>The entry points\<close>

definition filterVisibleComboTargets :: "catalogue \<Rightarrow> ctarget list \<Rightarrow> ctarget list" where
  "filterVisibleComboTargets cat ts = filter (visible cat) ts"

definition resolveComboTargets :: "catalogue \<Rightarrow> int \<Rightarrow> combo list option \<Rightarrow> combo \<Rightarrow> ctarget list" where
  "resolveComboTargets cat maxDepth allCombos c =
     filterVisibleComboTargets cat
       (case allCombos of
          Some combos \<Rightarrow> resolveNestedComboTargets cat maxDepth combos c {} 0 []
        | None \<Rightarrow> List.map_filter (\<lambda>st. model_only (Some st)) (getOrderedTopLevelRuntimeSteps cat c None []))"

datatype nested_mode = Flatten | Execute

definition resolveComboRuntimeUnits :: "catalogue \<Rightarrow> int \<Rightarrow> combo list option \<Rightarrow> combo \<Rightarrow> nested_mode \<Rightarrow> dag_error + runtime_step list" where
  "resolveComboRuntimeUnits cat maxDepth allCombos c mode =
     (case (mode, allCombos) of
        (Execute, Some combos) \<Rightarrow>
          sum_bind (validateComboDAG maxDepth combos (cb_name c) {} 0)
            (\<lambda>_. Inr (filter (\<lambda>u. case u of R_ref _ \<Rightarrow> True | R_model t \<Rightarrow> visible cat t) (getOrderedTopLevelRuntimeSteps cat c (Some combos) [])))
      | _ \<Rightarrow> Inr (map R_model (resolveComboTargets cat maxDepth allCombos c)))"

section \<open>Chains of references\<close>

definition succs :: "combo list \<Rightarrow> string \<Rightarrow> string list" where
  "succs cs n = (case find_combo cs n of None \<Rightarrow> [] | Some c \<Rightarrow> filter (\<lambda>m. find_combo cs m \<noteq> None) (map entry_model (cb_models c)))"

fun combo_path :: "combo list \<Rightarrow> string list \<Rightarrow> bool" where
  "combo_path cs [] \<longleftrightarrow> False"
| "combo_path cs [n] \<longleftrightarrow> True"
| "combo_path cs (n # m # p) \<longleftrightarrow> m \<in> set (succs cs n) \<and> combo_path cs (m # p)"

text \<open>No chain of references from \<open>n\<close> repeats a name, meets a visited one or is longer than the depth that is left.\<close>

definition safe_from :: "int \<Rightarrow> combo list \<Rightarrow> string \<Rightarrow> string set \<Rightarrow> int \<Rightarrow> bool" where
  "safe_from maxDepth cs n visited depth \<longleftrightarrow>
     (\<forall>p. combo_path cs (n # p) \<longrightarrow> distinct (n # p) \<and> set (n # p) \<inter> visited = {} \<and> depth + int (length p) \<le> maxDepth)"

lemma first_error_ok: "first_error rs = Inr () \<longleftrightarrow> (\<forall>r \<in> set rs. r = Inr ())"
  by (induction rs rule: first_error.induct) auto

lemma combo_path_Cons: "combo_path cs (n # p) \<longleftrightarrow> p = [] \<or> (\<exists>m q. p = m # q \<and> m \<in> set (succs cs n) \<and> combo_path cs (m # q))"
  by (cases p) auto

lemma safe_from_unfold:
  "safe_from D cs n vis d \<longleftrightarrow> d \<le> D \<and> n \<notin> vis \<and> (\<forall>m \<in> set (succs cs n). safe_from D cs m (insert n vis) (d + 1))"
proof
  assume s: "safe_from D cs n vis d"
  have "combo_path cs [n]" by simp
  then have "d \<le> D \<and> n \<notin> vis" using s unfolding safe_from_def by fastforce
  moreover have "safe_from D cs m (insert n vis) (d + 1)" if "m \<in> set (succs cs n)" for m
    unfolding safe_from_def
  proof (intro allI impI)
    fix q assume "combo_path cs (m # q)"
    then have "combo_path cs (n # m # q)" using that by simp
    then show "distinct (m # q) \<and> set (m # q) \<inter> insert n vis = {} \<and> d + 1 + int (length q) \<le> D"
      using s unfolding safe_from_def by fastforce
  qed
  ultimately show "d \<le> D \<and> n \<notin> vis \<and> (\<forall>m \<in> set (succs cs n). safe_from D cs m (insert n vis) (d + 1))" by blast
next
  assume s: "d \<le> D \<and> n \<notin> vis \<and> (\<forall>m \<in> set (succs cs n). safe_from D cs m (insert n vis) (d + 1))"
  show "safe_from D cs n vis d" unfolding safe_from_def
  proof (intro allI impI)
    fix p assume "combo_path cs (n # p)"
    then consider "p = []" | m q where "p = m # q" "m \<in> set (succs cs n)" "combo_path cs (m # q)"
      unfolding combo_path_Cons [of cs n p] by blast
    then show "distinct (n # p) \<and> set (n # p) \<inter> vis = {} \<and> d + int (length p) \<le> D"
      using s unfolding safe_from_def by cases fastforce+
  qed
qed

lemma validate_iff_safe: "validateComboDAG D cs n vis d = Inr () \<longleftrightarrow> safe_from D cs n vis d"
proof (induction D cs n vis d rule: validateComboDAG.induct)
  case (1 D cs n vis d)
  show ?case
  proof (cases "d \<le> D \<and> n \<notin> vis")
    case True
    show ?thesis
    proof (cases "find_combo cs n")
      case None
      then show ?thesis using True by (subst safe_from_unfold) (simp add: validateComboDAG.simps succs_def)
    next
      case (Some c)
      have "validateComboDAG D cs n vis d = Inr () \<longleftrightarrow>
          (\<forall>e \<in> set (cb_models c). find_combo cs (entry_model e) \<noteq> None \<longrightarrow> validateComboDAG D cs (entry_model e) (insert n vis) (d + 1) = Inr ())"
        using True Some by (subst validateComboDAG.simps) (auto simp: first_error_ok Let_def)
      also have "\<dots> \<longleftrightarrow> (\<forall>e \<in> set (cb_models c). find_combo cs (entry_model e) \<noteq> None \<longrightarrow> safe_from D cs (entry_model e) (insert n vis) (d + 1))"
        using 1 True Some by (intro ball_cong refl imp_cong) auto
      also have "\<dots> \<longleftrightarrow> safe_from D cs n vis d" using True Some by (subst (2) safe_from_unfold) (auto simp: succs_def)
      finally show ?thesis .
    qed
  next
    case False
    then show ?thesis by (subst safe_from_unfold) (auto simp: validateComboDAG.simps)
  qed
qed

lemma find_combo_name: "find_combo cs n = Some c \<Longrightarrow> cb_name c = n"
  by (simp add: find_combo_def find_Some_iff) blast

text \<open>The models a combo stands for: those of the combos it reaches that are not combos themselves.\<close>

definition leaf_models :: "combo list \<Rightarrow> string \<Rightarrow> string set" where
  "leaf_models cs n =
     {m. \<exists>p c. combo_path cs (n # p) \<and> find_combo cs (last (n # p)) = Some c \<and> m \<in> entry_model ` set (cb_models c) \<and> find_combo cs m = None}"

lemma leaf_models_unfold:
  assumes "find_combo cs n = Some c"
  shows "leaf_models cs n = {m \<in> entry_model ` set (cb_models c). find_combo cs m = None} \<union> (\<Union>m \<in> set (succs cs n). leaf_models cs m)"
    (is "?L = ?R")
proof
  show "?L \<subseteq> ?R"
  proof
    fix m assume "m \<in> ?L"
    then obtain p k where p: "combo_path cs (n # p)" "find_combo cs (last (n # p)) = Some k" "m \<in> entry_model ` set (cb_models k)" "find_combo cs m = None"
      unfolding leaf_models_def by blast
    show "m \<in> ?R"
    proof (cases p)
      case Nil
      then show ?thesis using p assms by simp
    next
      case (Cons x q)
      have "combo_path cs (x # q)" "find_combo cs (last (x # q)) = Some k" using p(1,2) by (simp_all add: Cons)
      then have "m \<in> leaf_models cs x" unfolding leaf_models_def using p(3,4) by blast
      moreover have "x \<in> set (succs cs n)" using p(1) by (simp add: Cons)
      ultimately show ?thesis by blast
    qed
  qed
  show "?R \<subseteq> ?L"
  proof
    fix m assume "m \<in> ?R"
    then consider "m \<in> entry_model ` set (cb_models c)" "find_combo cs m = None" | x where "x \<in> set (succs cs n)" "m \<in> leaf_models cs x" by auto
    then show "m \<in> ?L"
    proof cases
      case 1
      then show ?thesis using assms unfolding leaf_models_def by (intro CollectI exI [of _ "[]"] exI [of _ c]) simp
    next
      case 2
      then obtain q k where q: "combo_path cs (x # q)" "find_combo cs (last (x # q)) = Some k" "m \<in> entry_model ` set (cb_models k)" "find_combo cs m = None"
        unfolding leaf_models_def by blast
      then have "combo_path cs (n # x # q)" "find_combo cs (last (n # x # q)) = Some k" using 2(1) by simp_all
      then show ?thesis unfolding leaf_models_def using q(3,4) by blast
    qed
  qed
qed

lemma resolve_models_leaves:
  assumes "find_combo cs (cb_name c) = Some c" "safe_from D cs (cb_name c) vis d"
  shows "set (resolveNestedComboModels D cs c vis d) = leaf_models cs (cb_name c)"
  using assms
proof (induction D cs c vis d rule: resolveNestedComboModels.induct)
  case (1 D cs c vis d)
  have safe: "d \<le> D" "cb_name c \<notin> vis" "\<And>m. m \<in> set (succs cs (cb_name c)) \<Longrightarrow> safe_from D cs m (insert (cb_name c) vis) (d + 1)"
    using 1(3) unfolding safe_from_unfold [of D cs "cb_name c" vis d] by auto
  have IH: "set (resolveNestedComboModels D cs k (insert (cb_name c) vis) (d + 1)) = leaf_models cs (entry_model e)"
    if "e \<in> set (cb_models c)" "find_combo cs (entry_model e) = Some k" for e k
  proof -
    have k: "cb_name k = entry_model e" by (rule find_combo_name [OF that(2)])
    have "entry_model e \<in> set (succs cs (cb_name c))" using that 1(2) by (auto simp: succs_def)
    then show ?thesis using 1(1) [of e "entry_model e" k] that safe k by simp
  qed
  have "set (resolveNestedComboModels D cs c vis d) =
      (\<Union>e \<in> set (cb_models c). case find_combo cs (entry_model e) of Some k \<Rightarrow> leaf_models cs (entry_model e) | None \<Rightarrow> {entry_model e})"
    using safe(1,2) IH by (subst resolveNestedComboModels.simps) (auto simp: Let_def split: option.splits)
  also have "\<dots> = leaf_models cs (cb_name c)"
    unfolding leaf_models_unfold [OF 1(2)] using 1(2) by (auto simp: succs_def split: option.splits)
  finally show ?case .
qed


section \<open>Errors of the validation\<close>

lemma first_error_Inl: "first_error rs = Inl x \<Longrightarrow> Inl x \<in> set rs"
  by (induction rs rule: first_error.induct) auto

text \<open>A reported name ends a chain of references that is too long, or that has met the name before.\<close>

definition bad_chain :: "int \<Rightarrow> combo list \<Rightarrow> string \<Rightarrow> string set \<Rightarrow> int \<Rightarrow> dag_error \<Rightarrow> string list \<Rightarrow> bool" where
  "bad_chain D cs n vis d err p \<longleftrightarrow> combo_path cs (n # p) \<and>
     (case err of Too_deep m \<Rightarrow> last (n # p) = m \<and> D < d + int (length p)
      | Circular m \<Rightarrow> last (n # p) = m \<and> m \<in> vis \<union> set (butlast (n # p)))"

lemma bad_chain_step:
  "m \<in> set (succs cs n) \<Longrightarrow> bad_chain D cs m (insert n vis) (d + 1) err p \<Longrightarrow> bad_chain D cs n vis d err (m # p)"
  by (auto simp: bad_chain_def split: dag_error.splits)

lemma validate_error_chain: "validateComboDAG D cs n vis d = Inl err \<Longrightarrow> \<exists>p. bad_chain D cs n vis d err p"
proof (induction D cs n vis d rule: validateComboDAG.induct)
  case (1 D cs n vis d)
  show ?case
  proof (cases "d \<le> D \<and> n \<notin> vis")
    case False
    then have "bad_chain D cs n vis d err []" using 1(2) by (subst (asm) validateComboDAG.simps) (auto simp: bad_chain_def split: if_splits)
    then show ?thesis by blast
  next
    case True
    then obtain c where c: "find_combo cs n = Some c" using 1(2) by (subst (asm) validateComboDAG.simps) (auto split: option.splits)
    then have "first_error (map (\<lambda>e. if find_combo cs (entry_model e) \<noteq> None then validateComboDAG D cs (entry_model e) (insert n vis) (d + 1)
        else Inr ()) (cb_models c)) = Inl err"
      using 1(2) True by (subst (asm) validateComboDAG.simps) (simp add: Let_def)
    then obtain e where e: "e \<in> set (cb_models c)" "find_combo cs (entry_model e) \<noteq> None" "validateComboDAG D cs (entry_model e) (insert n vis) (d + 1) = Inl err"
      by (auto dest!: first_error_Inl split: if_splits)
    moreover have "\<exists>p. bad_chain D cs (entry_model e) (insert n vis) (d + 1) err p"
      using 1(1) [of c e "entry_model e"] True c e by simp
    then obtain p where "bad_chain D cs (entry_model e) (insert n vis) (d + 1) err p" by blast
    moreover have "entry_model e \<in> set (succs cs n)" using e c by (auto simp: succs_def)
    ultimately show ?thesis using bad_chain_step by blast
  qed
qed

section \<open>Order of the tiers\<close>

lemma place_steps_set: "set (place_steps sts ord) \<subseteq> set sts \<union> set ord"
  by (induction sts ord rule: place_steps.induct) (auto split: if_splits)

lemma place_steps_ids: "stepId ` set (place_steps sts ord) = stepId ` set sts \<union> stepId ` set ord"
  by (induction sts ord rule: place_steps.induct) auto

lemma place_steps_distinct: "distinct (map stepId ord) \<Longrightarrow> distinct (map stepId (place_steps sts ord))"
  by (induction sts ord rule: place_steps.induct) auto

lemma place_steps_prefix: "\<exists>xs. place_steps sts ord = ord @ xs"
proof (induction sts ord rule: place_steps.induct)
  case (2 st sts ord)
  then show ?case by (auto split: if_splits)
qed simp

lemma by_step_id_in: "jget (by_step_id steps) i = Some st \<Longrightarrow> st \<in> set steps \<and> stepId st = i"
proof -
  have "jget (fold (\<lambda>st m. jset (stepId st) st m) xs m) i = Some st \<Longrightarrow> jget m i = Some st \<or> st \<in> set xs \<and> stepId st = i" for xs m
  proof (induction xs arbitrary: m)
    case (Cons a xs)
    then show ?case using Cons.IH [of "jset (stepId a) a m"] by (auto split: if_splits)
  qed simp
  from this [of steps "[]"] show "jget (by_step_id steps) i = Some st \<Longrightarrow> st \<in> set steps \<and> stepId st = i" by (simp add: by_step_id_def)
qed

lemma ordered_steps_subset: "set (orderRuntimeStepsByCompositeTiers steps c) \<subseteq> set steps"
proof -
  have "set (List.map_filter (jget (by_step_id steps)) ids) \<subseteq> set steps" for ids
    by (auto simp: List.map_filter_def dest: by_step_id_in)
  moreover have "set (place_steps steps (place_steps ids [])) \<subseteq> set steps \<union> set ids" for ids
    using place_steps_set [of steps "place_steps ids []"] place_steps_set [of ids "[]"] by auto
  ultimately have "set (place_steps steps (place_steps (List.map_filter (jget (by_step_id steps)) ids) [])) \<subseteq> set steps" for ids by blast
  then show ?thesis by (simp add: orderRuntimeStepsByCompositeTiers_def Let_def)
qed


lemma ordered_steps_ids: "stepId ` set (orderRuntimeStepsByCompositeTiers steps c) = stepId ` set steps"
proof -
  have "stepId ` set steps \<subseteq> stepId ` set (orderRuntimeStepsByCompositeTiers steps c)"
    by (auto simp: orderRuntimeStepsByCompositeTiers_def Let_def place_steps_ids)
  then show ?thesis using image_mono [OF ordered_steps_subset, of stepId steps c] by blast
qed

lemma ordered_steps_distinct:
  "hasCompositeTierRuntimeOrder c \<Longrightarrow> distinct (map stepId (orderRuntimeStepsByCompositeTiers steps c))"
  by (simp add: hasCompositeTierRuntimeOrder_def orderRuntimeStepsByCompositeTiers_def Let_def place_steps_distinct)

lemma ordered_steps_mset:
  assumes "distinct (map stepId steps)" shows "mset (orderRuntimeStepsByCompositeTiers steps c) = mset steps"
proof (cases "hasCompositeTierRuntimeOrder c")
  case True
  let ?o = "orderRuntimeStepsByCompositeTiers steps c"
  have "set ?o = set steps"
  proof
    show "set steps \<subseteq> set ?o"
    proof
      fix st assume st: "st \<in> set steps"
      then obtain st' where "st' \<in> set ?o" "stepId st' = stepId st" using ordered_steps_ids [of steps c] by (metis imageE imageI)
      then show "st \<in> set ?o" using st ordered_steps_subset [of steps c] assms by (auto simp: distinct_map inj_on_def)
    qed
  qed (rule ordered_steps_subset)
  moreover have "distinct ?o" "distinct steps" using ordered_steps_distinct [OF True] assms by (auto simp: distinct_map)
  ultimately show ?thesis using set_eq_iff_mset_eq_distinct by blast
qed (simp add: hasCompositeTierRuntimeOrder_def orderRuntimeStepsByCompositeTiers_def)

section \<open>Expansion without limits\<close>

text \<open>
  What the expansion is meant to compute, with neither a depth nor a set of visited names: the targets of the
  steps one after the other, a reference standing for the targets of the combo it names. Only combos without
  circular references have an expansion.
\<close>

inductive expands :: "catalogue \<Rightarrow> combo list \<Rightarrow> combo \<Rightarrow> string list \<Rightarrow> ctarget list \<Rightarrow> bool"
  and step_expands :: "catalogue \<Rightarrow> combo list \<Rightarrow> string list \<Rightarrow> runtime_step \<Rightarrow> ctarget list \<Rightarrow> bool"
  for cat :: catalogue and cs :: "combo list" where
  steps: "list_all2 (step_expands cat cs path) (getOrderedTopLevelRuntimeSteps cat c (Some cs) path) tss \<Longrightarrow> expands cat cs c path (concat tss)"
| model: "step_expands cat cs path (R_model t) [t]"
| dangling: "find_combo cs (cr_comboName r) = None \<Longrightarrow> step_expands cat cs path (R_ref r) []"
| nested: "find_combo cs (cr_comboName r) = Some k \<Longrightarrow> expands cat cs k (path @ [cr_stepId r]) ts \<Longrightarrow> step_expands cat cs path (R_ref r) ts"

inductive_cases expandsE: "expands cat cs c path ts"
inductive_cases model_expandsE: "step_expands cat cs path (R_model t) ts"
inductive_cases ref_expandsE: "step_expands cat cs path (R_ref r) ts"

lemma list_all2_determ:
  assumes "list_all2 (\<lambda>x y. P x y \<and> (\<forall>z. P x z \<longrightarrow> y = z)) xs ys" "list_all2 P xs zs" shows "ys = zs"
  using assms by (induction arbitrary: zs rule: list_all2_induct) (auto simp: list_all2_Cons1)

lemma expands_determ:
  "expands cat cs c path ts \<Longrightarrow> expands cat cs c path ts' \<Longrightarrow> ts = ts'"
  "step_expands cat cs path st ts \<Longrightarrow> step_expands cat cs path st ts' \<Longrightarrow> ts = ts'"
proof (induction c path ts and path st ts arbitrary: ts' and ts' rule: expands_step_expands.inducts)
  case (steps path c tss)
  from steps.prems obtain tss' where "ts' = concat tss'" "list_all2 (step_expands cat cs path) (getOrderedTopLevelRuntimeSteps cat c (Some cs) path) tss'"
    by (elim expandsE) auto
  moreover have "list_all2 (\<lambda>x y. step_expands cat cs path x y \<and> (\<forall>z. step_expands cat cs path x z \<longrightarrow> y = z))
      (getOrderedTopLevelRuntimeSteps cat c (Some cs) path) tss" using steps.IH by (rule list_all2_mono) blast
  ultimately show ?case using list_all2_determ [of "step_expands cat cs path" "getOrderedTopLevelRuntimeSteps cat c (Some cs) path" tss tss'] by simp
next
  case (model path t)
  show ?case by (rule model_expandsE [OF model]) (rule sym)
next
  case (dangling r path)
  show ?case by (rule ref_expandsE [OF dangling(2)]) (use dangling(1) in auto)
next
  case (nested r k path ts)
  have "expands cat cs k (path @ [cr_stepId r]) ts'" by (rule ref_expandsE [OF nested.prems]) (use nested(1) in auto)
  then show ?case by (rule nested(3))
qed

lemma ref_entry_model:
  assumes "normalizeComboStep number opt e = Some (S_ref r)" shows "entry_model e = rs_comboName r"
proof (cases e)
  case (JStr s)
  then show ?thesis using assms
    by (auto simp: normalizeComboStep_def normalize_string_def entry_model_def getComboStepTarget_def Let_def split: option.splits if_splits)
next
  case (JObj kvs)
  have "\<not> shouldTreatAsComboRef m None bare_options" for m by (simp add: shouldTreatAsComboRef_def bare_options_def collectComboNames_def)
  then show ?thesis using assms JObj toTrimmedString_neat toFullModelString_eq(1)
    by (auto simp: normalizeComboStep_def normalize_object_def entry_model_def getComboStepTarget_def ref_of_def wildcard_of_def model_of_def
        shouldTreatAsComboRef_def [of _ _ opt] has_kind_def Let_def split: option.splits if_splits prod.splits)
qed (use assms in \<open>simp_all add: normalizeComboStep_def\<close>)

lemma ref_in_succs:
  assumes "R_ref r \<in> set (getOrderedTopLevelRuntimeSteps cat c (Some cs) path)" "find_combo cs (cb_name c) = Some c"
    "find_combo cs (cr_comboName r) = Some k"
  shows "cr_comboName r \<in> set (succs cs (cb_name c))"
proof -
  have "R_ref r \<in> set (getTopLevelRuntimeSteps cat c (Some cs) path)"
    using assms(1) ordered_steps_subset unfolding getOrderedTopLevelRuntimeSteps_def by blast
  then obtain i e where e: "(i, e) \<in> set (enumerate 0 (cb_models c))" "normalizeRuntimeStep cat e (cb_name c) i (Some cs) path = Some (R_ref r)"
    by (auto simp: getTopLevelRuntimeSteps_def List.map_filter_def split: if_splits)
  then have "entry_model e = cr_comboName r"
    by (auto simp: normalizeRuntimeStep_def Let_def dest!: ref_entry_model split: option.splits combo_step.splits)
  moreover have "e \<in> set (cb_models c)" using e(1) by (auto simp: in_set_enumerate_eq)
  ultimately show ?thesis using assms(2,3) by (force simp: succs_def)
qed

lemma list_all2_map_right: "(\<And>x. x \<in> set xs \<Longrightarrow> P x (f x)) \<Longrightarrow> list_all2 P xs (map f xs)"
  by (simp add: list_all2_map2 list.rel_refl_strong)

lemma resolve_targets_expands:
  assumes "find_combo cs (cb_name c) = Some c" "safe_from D cs (cb_name c) vis d"
  shows "expands cat cs c path (resolveNestedComboTargets cat D cs c vis d path)"
  using assms
proof (induction "nat (D + 1 - d)" arbitrary: c vis d path rule: less_induct)
  case less
  have safe: "d \<le> D" "cb_name c \<notin> vis" "\<And>m. m \<in> set (succs cs (cb_name c)) \<Longrightarrow> safe_from D cs m (insert (cb_name c) vis) (d + 1)"
    using less.prems(2) unfolding safe_from_unfold [of D cs "cb_name c" vis d] by auto
  let ?steps = "getOrderedTopLevelRuntimeSteps cat c (Some cs) path"
  have "step_expands cat cs path st (expandRuntimeStep cat D cs st (insert (cb_name c) vis) d path)" if st: "st \<in> set ?steps" for st
  proof (cases st)
    case (R_model t)
    then show ?thesis by (simp add: expandRuntimeStep.simps expands_step_expands.model)
  next
    case (R_ref r)
    show ?thesis
    proof (cases "find_combo cs (cr_comboName r)")
      case None
      then show ?thesis using R_ref by (simp add: expandRuntimeStep.simps expands_step_expands.dangling)
    next
      case (Some k)
      have k: "cb_name k = cr_comboName r" by (rule find_combo_name [OF Some])
      have "cr_comboName r \<in> set (succs cs (cb_name c))" using ref_in_succs less.prems(1) Some st R_ref by blast
      then have s: "safe_from D cs (cb_name k) (insert (cb_name c) vis) (d + 1)" using safe(3) k by simp
      then have fresh: "cr_comboName r \<notin> insert (cb_name c) vis" using k unfolding safe_from_unfold [of D cs "cb_name k"] by simp
      have "expands cat cs k (path @ [cr_stepId r]) (resolveNestedComboTargets cat D cs k (insert (cb_name c) vis) (d + 1) (path @ [cr_stepId r]))"
        using less.hyps [of "d + 1" k] safe(1) s Some k by simp
      then show ?thesis using R_ref Some fresh safe(1) by (simp add: expandRuntimeStep.simps expands_step_expands.nested)
    qed
  qed
  then have "list_all2 (step_expands cat cs path) ?steps (map (\<lambda>st. expandRuntimeStep cat D cs st (insert (cb_name c) vis) d path) ?steps)"
    by (rule list_all2_map_right)
  then show ?case using safe(1,2) expands_step_expands.steps by (subst resolveNestedComboTargets.simps) simp
qed


section \<open>Properties\<close>

text \<open>
  C26. The validation of nested combos is exact. It accepts a name if and only if no chain of references from it
  meets a name twice or has more than \<open>maxDepth\<close> references; when it complains, the name in the message really is the
  end of such a chain: of one that is too long, or of one that contains the name already.
\<close>

theorem combo_validation_exact:
  "(validateComboDAG D cs n {} 0 = Inr () \<longleftrightarrow> (\<forall>p. combo_path cs (n # p) \<longrightarrow> distinct (n # p) \<and> int (length p) \<le> D)) \<and>
   (validateComboDAG D cs n {} 0 = Inl (Too_deep m) \<longrightarrow> (\<exists>p. combo_path cs (n # p) \<and> last (n # p) = m \<and> D < int (length p))) \<and>
   (validateComboDAG D cs n {} 0 = Inl (Circular m) \<longrightarrow> (\<exists>p. combo_path cs (n # p) \<and> last (n # p) = m \<and> m \<in> set (butlast (n # p))))"
proof (intro conjI impI)
  show "validateComboDAG D cs n {} 0 = Inr () \<longleftrightarrow> (\<forall>p. combo_path cs (n # p) \<longrightarrow> distinct (n # p) \<and> int (length p) \<le> D)"
    unfolding validate_iff_safe safe_from_def by simp
  show "\<exists>p. combo_path cs (n # p) \<and> last (n # p) = m \<and> D < int (length p)" if "validateComboDAG D cs n {} 0 = Inl (Too_deep m)"
    using validate_error_chain [OF that] unfolding bad_chain_def by simp
  show "\<exists>p. combo_path cs (n # p) \<and> last (n # p) = m \<and> m \<in> set (butlast (n # p))" if "validateComboDAG D cs n {} 0 = Inl (Circular m)"
    using validate_error_chain [OF that] unfolding bad_chain_def by simp
qed

definition demo_combos :: "combo list" where
  "demo_combos =
     [\<lparr>cb_name = ''main'', cb_models = [JStr ''openai/gpt-4o'', JStr ''backup''], cb_config = None\<rparr>,
      \<lparr>cb_name = ''backup'', cb_models = [JStr ''groq/llama'', JStr ''anthropic/claude''], cb_config = None\<rparr>,
      \<lparr>cb_name = ''ouro'', cb_models = [JStr ''boros''], cb_config = None\<rparr>,
      \<lparr>cb_name = ''boros'', cb_models = [JStr ''ouro''], cb_config = None\<rparr>]"

theorem combo_validation_exact_witness:
  "validateComboDAG 3 demo_combos ''main'' {} 0 = Inr () \<and> combo_path demo_combos [''main'', ''backup''] \<and> distinct [''main'', ''backup''] \<and>
   validateComboDAG 0 demo_combos ''main'' {} 0 = Inl (Too_deep ''backup'') \<and>
   (\<exists>p. combo_path demo_combos (''main'' # p) \<and> last (''main'' # p) = ''backup'' \<and> 0 < int (length p)) \<and>
   validateComboDAG 3 demo_combos ''ouro'' {} 0 = Inl (Circular ''ouro'') \<and>
   (\<exists>p. combo_path demo_combos (''ouro'' # p) \<and> last (''ouro'' # p) = ''ouro'' \<and> ''ouro'' \<in> set (butlast (''ouro'' # p)))"
proof (intro conjI)
  show a: "validateComboDAG 3 demo_combos ''main'' {} 0 = Inr ()" by code_simp
  show b: "combo_path demo_combos [''main'', ''backup'']" by code_simp
  show "distinct [''main'', ''backup'']" using combo_validation_exact [of 3 demo_combos "''main''"] a b by blast
  show c: "validateComboDAG 0 demo_combos ''main'' {} 0 = Inl (Too_deep ''backup'')" by code_simp
  show "\<exists>p. combo_path demo_combos (''main'' # p) \<and> last (''main'' # p) = ''backup'' \<and> 0 < int (length p)"
    using combo_validation_exact [of 0 demo_combos "''main''" "''backup''"] c by blast
  show d: "validateComboDAG 3 demo_combos ''ouro'' {} 0 = Inl (Circular ''ouro'')" by code_simp
  show "\<exists>p. combo_path demo_combos (''ouro'' # p) \<and> last (''ouro'' # p) = ''ouro'' \<and> ''ouro'' \<in> set (butlast (''ouro'' # p))"
    using combo_validation_exact [of 3 demo_combos "''ouro''" "''ouro''"] d by blast
qed

text \<open>
  C27. Flattening a validated combo loses nothing: the cuts at the depth and at visited names never act. The targets
  are the one expansion without limits, the targets of the steps in the order of the tiers with every reference
  replaced by the targets of the combo it names; and the flat list of model names holds exactly the names of the combos
  reached that are not combos themselves.
\<close>

theorem validated_combo_fully_expanded:
  assumes "find_combo cs (cb_name c) = Some c" "validateComboDAG D cs (cb_name c) {} 0 = Inr ()"
  shows "(expands cat cs c [] ts \<longleftrightarrow> ts = resolveNestedComboTargets cat D cs c {} 0 []) \<and>
         set (resolveNestedComboModels D cs c {} 0) = leaf_models cs (cb_name c)"
proof
  have safe: "safe_from D cs (cb_name c) {} 0" using assms(2) validate_iff_safe by blast
  show "expands cat cs c [] ts \<longleftrightarrow> ts = resolveNestedComboTargets cat D cs c {} 0 []"
    using resolve_targets_expands [OF assms(1) safe] expands_determ(1) by blast
  show "set (resolveNestedComboModels D cs c {} 0) = leaf_models cs (cb_name c)" by (rule resolve_models_leaves [OF assms(1) safe])
qed

definition demo_catalogue :: catalogue where
  "demo_catalogue = \<lparr>numberOf = demo_number,
     targetProvider = (\<lambda>m p. case p of Some q \<Rightarrow> q | None \<Rightarrow> ''unknown''), visible = (\<lambda>t. True)\<rparr>"

theorem validated_combo_fully_expanded_witness:
  "expands demo_catalogue demo_combos (hd demo_combos) [] (resolveNestedComboTargets demo_catalogue 3 demo_combos (hd demo_combos) {} 0 []) \<and>
   map ct_modelStr (resolveNestedComboTargets demo_catalogue 3 demo_combos (hd demo_combos) {} 0 []) =
     [''openai/gpt-4o'', ''groq/llama'', ''anthropic/claude''] \<and>
   leaf_models demo_combos (cb_name (hd demo_combos)) = set [''openai/gpt-4o'', ''groq/llama'', ''anthropic/claude'']"
proof (intro conjI)
  have f: "find_combo demo_combos (cb_name (hd demo_combos)) = Some (hd demo_combos)" by code_simp
  have v: "validateComboDAG 3 demo_combos (cb_name (hd demo_combos)) {} 0 = Inr ()" by code_simp
  show "expands demo_catalogue demo_combos (hd demo_combos) [] (resolveNestedComboTargets demo_catalogue 3 demo_combos (hd demo_combos) {} 0 [])"
    using validated_combo_fully_expanded [OF f v] by blast
  show "map ct_modelStr (resolveNestedComboTargets demo_catalogue 3 demo_combos (hd demo_combos) {} 0 []) =
     [''openai/gpt-4o'', ''groq/llama'', ''anthropic/claude'']" by code_simp
  have "resolveNestedComboModels 3 demo_combos (hd demo_combos) {} 0 = [''openai/gpt-4o'', ''groq/llama'', ''anthropic/claude'']" by code_simp
  then show "leaf_models demo_combos (cb_name (hd demo_combos)) = set [''openai/gpt-4o'', ''groq/llama'', ''anthropic/claude'']"
    using validated_combo_fully_expanded [OF f v] by simp
qed

section \<open>Where the two expansions differ\<close>

text \<open>
  At the depth limit the entries are read without the collection, so a reference that is a plain string comes out as
  a model that bears the name of a combo. A step of kind \<^verbatim>\<open>model\<close> named like a combo is expanded in the flat list of
  names and not among the targets.
\<close>

lemma depth_limit_yields_combo_name:
  "map ct_modelStr (resolveNestedComboTargets demo_catalogue 0
     [\<lparr>cb_name = ''a'', cb_models = [JStr ''b''], cb_config = None\<rparr>, \<lparr>cb_name = ''b'', cb_models = [JStr ''c''], cb_config = None\<rparr>,
      \<lparr>cb_name = ''c'', cb_models = [JStr ''x/y''], cb_config = None\<rparr>] \<lparr>cb_name = ''a'', cb_models = [JStr ''b''], cb_config = None\<rparr> {} 0 []) = [''c'']"
  by code_simp

lemma explicit_model_step_differs:
  "(let a = \<lparr>cb_name = ''a'', cb_models = [JObj [(''kind'', JStr ''model''), (''model'', JStr ''b'')]], cb_config = None\<rparr>;
        cs = [a, \<lparr>cb_name = ''b'', cb_models = [JStr ''x/y''], cb_config = None\<rparr>]
    in (resolveNestedComboModels 3 cs a {} 0, map ct_modelStr (resolveNestedComboTargets demo_catalogue 3 cs a {} 0 [])) = ([''x/y''], [''b'']))"
  by code_simp

end
