(* ===== verification/Combo_Selection.thy ===== *)
theory Combo_Selection
  imports Combo_Structure "HOL-Library.Product_Lexorder" "HOL-Library.Sublist"
begin

text \<open>
  Which target of a combo comes first: the rotation of \<^verbatim>\<open>rrState.ts\<close> with its use in \<^verbatim>\<open>roundRobinCombo.ts\<close>, the
  weighted choice of \<^verbatim>\<open>targetSorters.ts\<close>, \<^verbatim>\<open>comboStructure.ts\<close> and \<^verbatim>\<open>targetResolution.ts\<close>, and the orders by cost,
  usage, context size and two random choices. Random numbers, prices, metrics and context sizes are arguments.
  Weights are exact; the code sums them in floating point.
\<close>

section \<open>Round robin\<close>

definition MAX_RR_COUNTERS :: nat where
  "MAX_RR_COUNTERS = 500"

record sticky =
  sk_executionKey :: string
  sk_successCount :: nat

record rr_state =
  rrCounters :: "(string, nat) jmap"
  rrStickyTargets :: "(string, sticky) jmap"
  weightedStickyTargets :: "(string, sticky) jmap"

definition clampStickyRoundRobinTargetLimit :: "(string \<Rightarrow> js_num) \<Rightarrow> json option \<Rightarrow> nat" where
  "clampStickyRoundRobinTargetLimit number v =
     (case (case v of None \<Rightarrow> NaN | Some j \<Rightarrow> js_number number j) of
        Fin q \<Rightarrow> nat (min (max \<lfloor>q\<rfloor> 1) 1000)
      | _ \<Rightarrow> 1)"

definition given :: "json option \<Rightarrow> bool" where
  "given v \<longleftrightarrow> v \<noteq> None \<and> v \<noteq> Some JNull"

definition resolveComboStickyRoundRobinLimit :: "(string \<Rightarrow> js_num) \<Rightarrow> json option \<Rightarrow> layer option \<Rightarrow> nat" where
  "resolveComboStickyRoundRobinLimit number perComboLimit settings =
     (let setting = (\<lambda>k. Option.bind settings (\<lambda>kvs. prop_of kvs k)) in
      if given perComboLimit then clampStickyRoundRobinTargetLimit number perComboLimit
      else if given (setting ''comboStickyRoundRobinLimit'') then clampStickyRoundRobinTargetLimit number (setting ''comboStickyRoundRobinLimit'')
      else clampStickyRoundRobinTargetLimit number (setting ''stickyRoundRobinLimit''))"

definition counter_of :: "rr_state \<Rightarrow> string \<Rightarrow> nat" where
  "counter_of s name = (case jget (rrCounters s) name of Some n \<Rightarrow> n | None \<Rightarrow> 0)"

text \<open>The targets are units with an execution key; there is at least one.\<close>

definition getStickyRoundRobinStartIndex :: "rr_state \<Rightarrow> string \<Rightarrow> runtime_step list \<Rightarrow> nat \<Rightarrow> nat \<times> nat" where
  "getStickyRoundRobinStartIndex s comboName targets stickyLimit =
     (let counter = counter_of s comboName; rotated = (counter mod length targets, counter) in
      case jget (rrStickyTargets s) comboName of
        None \<Rightarrow> rotated
      | Some sk \<Rightarrow>
          (case findIndex (\<lambda>t. step_executionKey t = sk_executionKey sk) targets of
             Some i \<Rightarrow> if stickyLimit > 1 \<and> sk_successCount sk < stickyLimit then (i, counter) else rotated
           | None \<Rightarrow> rotated))"

definition next_count :: "sticky option \<Rightarrow> string \<Rightarrow> nat" where
  "next_count sk key = (case sk of Some k \<Rightarrow> if sk_executionKey k = key then sk_successCount k + 1 else 1 | None \<Rightarrow> 1)"

definition recordStickyRoundRobinSuccess :: "string \<Rightarrow> runtime_step \<Rightarrow> nat \<Rightarrow> runtime_step list \<Rightarrow> rr_state \<Rightarrow> rr_state" where
  "recordStickyRoundRobinSuccess comboName tgt stickyLimit targets s =
     (let key = step_executionKey tgt; successCount = next_count (jget (rrStickyTargets s) comboName) key in
      if successCount \<ge> stickyLimit then
        s\<lparr>rrCounters := jset comboName
            (case findIndex (\<lambda>t. step_executionKey t = key) targets of Some i \<Rightarrow> i + 1 | None \<Rightarrow> counter_of s comboName + 1) (rrCounters s),
          rrStickyTargets := jdel comboName (rrStickyTargets s)\<rparr>
      else s\<lparr>rrStickyTargets := jset comboName \<lparr>sk_executionKey = key, sk_successCount = successCount\<rparr> (rrStickyTargets s)\<rparr>)"

text \<open>The start of a request in \<^verbatim>\<open>handleRoundRobinCombo\<close>; \<open>available\<close> is the check of the sticky target.\<close>

definition drop_stale :: "(runtime_step \<Rightarrow> bool) \<Rightarrow> string \<Rightarrow> runtime_step list \<Rightarrow> rr_state \<Rightarrow> rr_state" where
  "drop_stale available comboName targets s =
     (case jget (rrStickyTargets s) comboName of
        None \<Rightarrow> s
      | Some sk \<Rightarrow>
          (case find (\<lambda>t. step_executionKey t = sk_executionKey sk) targets of
             Some t \<Rightarrow> if available t then s else s\<lparr>rrStickyTargets := jdel comboName (rrStickyTargets s)\<rparr>
           | None \<Rightarrow> s))"

definition make_room :: "string \<Rightarrow> rr_state \<Rightarrow> rr_state" where
  "make_room comboName s =
     (if \<not> jhas (rrCounters s) comboName \<and> \<not> jhas (rrStickyTargets s) comboName \<and> length (rrCounters s) \<ge> MAX_RR_COUNTERS
      then (case rrCounters s of
              [] \<Rightarrow> s
            | (oldest, _) # _ \<Rightarrow> s\<lparr>rrCounters := jdel oldest (rrCounters s), rrStickyTargets := jdel oldest (rrStickyTargets s)\<rparr>)
      else s)"

definition begin_round :: "(runtime_step \<Rightarrow> bool) \<Rightarrow> string \<Rightarrow> runtime_step list \<Rightarrow> nat \<Rightarrow> rr_state \<Rightarrow> nat \<times> rr_state" where
  "begin_round available comboName targets stickyLimit s =
     (let s1 = make_room comboName (if stickyLimit > 1 then drop_stale available comboName targets s else s);
          s2 = (if jhas (rrCounters s1) comboName then s1 else s1\<lparr>rrCounters := jset comboName 0 (rrCounters s1)\<rparr>);
          (startIndex, counter) = getStickyRoundRobinStartIndex s2 comboName targets stickyLimit
      in (startIndex, if stickyLimit > 1 then s2 else s2\<lparr>rrCounters := jset comboName (counter + 1) (rrCounters s2)\<rparr>))"

text \<open>The target that served the request, by its position.\<close>

definition end_round :: "string \<Rightarrow> runtime_step list \<Rightarrow> nat \<Rightarrow> nat \<Rightarrow> rr_state \<Rightarrow> rr_state" where
  "end_round comboName targets stickyLimit modelIndex s =
     (if stickyLimit > 1 then recordStickyRoundRobinSuccess comboName (targets ! modelIndex) stickyLimit targets s
      else s\<lparr>rrCounters := jset comboName (modelIndex + 1) (rrCounters s)\<rparr>)"

text \<open>The order of the attempts of one request.\<close>

definition attempt_order :: "nat \<Rightarrow> 'a list \<Rightarrow> 'a list" where
  "attempt_order startIndex targets = map (\<lambda>i. targets ! ((startIndex + i) mod length targets)) [0..<length targets]"

definition getStickyWeightedExecutionKey :: "rr_state \<Rightarrow> string \<Rightarrow> nat \<Rightarrow> string option" where
  "getStickyWeightedExecutionKey s comboName stickyLimit =
     (case jget (weightedStickyTargets s) comboName of
        None \<Rightarrow> None
      | Some sk \<Rightarrow> if stickyLimit \<le> 1 \<or> sk_successCount sk \<ge> stickyLimit then None else Some (sk_executionKey sk))"

definition recordStickyWeightedSuccess :: "string \<Rightarrow> string \<Rightarrow> nat \<Rightarrow> rr_state \<Rightarrow> rr_state" where
  "recordStickyWeightedSuccess comboName key stickyLimit s =
     (let successCount = next_count (jget (weightedStickyTargets s) comboName) key in
      if successCount \<ge> stickyLimit then s\<lparr>weightedStickyTargets := jdel comboName (weightedStickyTargets s)\<rparr>
      else s\<lparr>weightedStickyTargets := jset comboName \<lparr>sk_executionKey = key, sk_successCount = successCount\<rparr> (weightedStickyTargets s)\<rparr>)"

section \<open>Weighted choice\<close>

fun weighted_pick :: "('a \<Rightarrow> rat) \<Rightarrow> rat \<Rightarrow> 'a list \<Rightarrow> 'a option" where
  "weighted_pick weight random [] = None"
| "weighted_pick weight random (t # ts) = (if random - weight t \<le> 0 then Some t else weighted_pick weight (random - weight t) ts)"

definition weight_sum :: "('a \<Rightarrow> rat) \<Rightarrow> 'a list \<Rightarrow> rat" where
  "weight_sum weight ts = foldl (\<lambda>acc t. acc + weight t) 0 ts"

text \<open>\<open>randomFloat\<close> lies between 0 and 1, \<open>randomInt n\<close> below \<open>n\<close>.\<close>

record random_source =
  randomFloat :: rat
  randomInt :: "nat \<Rightarrow> nat"

definition selectWeightedTarget :: "random_source \<Rightarrow> ('a \<Rightarrow> rat) \<Rightarrow> 'a list \<Rightarrow> 'a option" where
  "selectWeightedTarget rnd weight targets =
     (if targets = [] then None
      else let totalWeight = weight_sum weight targets in
           if totalWeight \<le> 0 then Some (targets ! randomInt rnd (length targets))
           else case weighted_pick weight (randomFloat rnd * totalWeight) targets of Some t \<Rightarrow> Some t | None \<Rightarrow> Some (last targets))"

definition orderTargetsForWeightedFallback :: "('a \<Rightarrow> string) \<Rightarrow> ('a \<Rightarrow> rat) \<Rightarrow> 'a list \<Rightarrow> string \<Rightarrow> bool \<Rightarrow> 'a list" where
  "orderTargetsForWeightedFallback key weight targets selectedExecutionKey preserveExistingOrder =
     (let rest = filter (\<lambda>t. key t \<noteq> selectedExecutionKey) targets;
          rest' = (if preserveExistingOrder then rest else sort_key (\<lambda>t. - weight t) rest)
      in case find (\<lambda>t. key t = selectedExecutionKey) targets of Some t \<Rightarrow> t # rest' | None \<Rightarrow> rest')"

fun dedupe_from :: "string set \<Rightarrow> ctarget list \<Rightarrow> ctarget list" where
  "dedupe_from seen [] = []"
| "dedupe_from seen (t # ts) =
     (if ct_executionKey t \<in> seen then dedupe_from seen ts else t # dedupe_from (insert (ct_executionKey t) seen) ts)"

definition dedupeTargetsByExecutionKey :: "ctarget list \<Rightarrow> ctarget list" where
  "dedupeTargetsByExecutionKey ts = dedupe_from {} ts"

definition resolveWeightedStepGroups :: "catalogue \<Rightarrow> combo \<Rightarrow> combo list option \<Rightarrow> (runtime_step \<times> ctarget list) list" where
  "resolveWeightedStepGroups cat c allCombos =
     filter (\<lambda>(st, ts). ts \<noteq> [])
       (map (\<lambda>st. (st, filterVisibleComboTargets cat
                        (case allCombos of
                           None \<Rightarrow> (case st of R_model t \<Rightarrow> [t] | R_ref _ \<Rightarrow> [])
                         | Some combos \<Rightarrow> expandRuntimeStep cat MAX_COMBO_DEPTH combos st {cb_name c} 0 [])))
            (getOrderedTopLevelRuntimeSteps cat c allCombos []))"

record weighted_resolution =
  wr_targets :: "ctarget list"
  wr_selected :: "runtime_step option"
  wr_steps :: "runtime_step list"

definition targets_of :: "(runtime_step \<times> ctarget list) list \<Rightarrow> runtime_step \<Rightarrow> ctarget list" where
  "targets_of groups st =
     (case jget (fold (\<lambda>(s, ts) m. jset (step_executionKey s) ts m) groups []) (step_executionKey st) of Some ts \<Rightarrow> ts | None \<Rightarrow> [])"

definition resolveWeightedTargets :: "random_source \<Rightarrow> catalogue \<Rightarrow> combo \<Rightarrow> combo list option \<Rightarrow> string option \<Rightarrow> string set option \<Rightarrow>
    (runtime_step \<times> ctarget list) list option \<Rightarrow> weighted_resolution" where
  "resolveWeightedTargets rnd cat c allCombos preferred eligible stepGroups =
     (let topLevelSteps = filter (\<lambda>st. case eligible of Some ks \<Rightarrow> step_executionKey st \<in> ks | None \<Rightarrow> True)
                            (getOrderedTopLevelRuntimeSteps cat c allCombos []);
          nothing = \<lparr>wr_targets = [], wr_selected = None, wr_steps = []\<rparr>;
          preferredStep = Option.bind preferred (\<lambda>k. find (\<lambda>st. step_executionKey st = k) topLevelSteps)
      in if topLevelSteps = [] then nothing
         else case (case preferredStep of Some st \<Rightarrow> Some st | None \<Rightarrow> selectWeightedTarget rnd step_weight topLevelSteps) of
                None \<Rightarrow> nothing
              | Some selectedStep \<Rightarrow>
                  (let orderedSteps = orderTargetsForWeightedFallback step_executionKey step_weight topLevelSteps
                                        (step_executionKey selectedStep) (hasCompositeTierRuntimeOrder c);
                       groups = (case stepGroups of Some g \<Rightarrow> g | None \<Rightarrow> resolveWeightedStepGroups cat c allCombos)
                   in \<lparr>wr_targets = dedupeTargetsByExecutionKey (concat (map (targets_of groups) orderedSteps)),
                       wr_selected = Some selectedStep, wr_steps = orderedSteps\<rparr>))"

text \<open>The pipeline around it. \<open>excluded\<close> tells whether a target is not selectable at the moment.\<close>

definition evictOldestWeightedSticky :: "bool \<Rightarrow> string \<Rightarrow> rr_state \<Rightarrow> rr_state" where
  "evictOldestWeightedSticky weighted comboName s =
     (if weighted \<and> \<not> jhas (weightedStickyTargets s) comboName \<and> length (weightedStickyTargets s) \<ge> MAX_RR_COUNTERS
      then s\<lparr>weightedStickyTargets :=
               (case weightedStickyTargets s of [] \<Rightarrow> [] | (oldest, _) # _ \<Rightarrow> jdel oldest (weightedStickyTargets s))\<rparr>
      else s)"

definition collectWeightedEligibility :: "(ctarget \<Rightarrow> bool) \<Rightarrow> (runtime_step \<times> ctarget list) list \<Rightarrow> string set" where
  "collectWeightedEligibility excluded stepGroups =
     set (map (\<lambda>(st, ts). step_executionKey st) (filter (\<lambda>(st, ts). list_ex (\<lambda>t. \<not> excluded t) ts) stepGroups))"

definition resolveStickyWeightedKey :: "bool \<Rightarrow> string \<Rightarrow> nat \<Rightarrow> string set \<Rightarrow> rr_state \<Rightarrow> string option \<times> rr_state" where
  "resolveStickyWeightedKey weighted comboName stickyLimit eligible s =
     (let raw = (if weighted then getStickyWeightedExecutionKey s comboName stickyLimit else None);
          key = (case raw of Some k \<Rightarrow> if k \<in> eligible then Some k else None | None \<Rightarrow> None);
          dropped = s\<lparr>weightedStickyTargets := jdel comboName (weightedStickyTargets s)\<rparr>
      in (key, if \<not> weighted \<or> stickyLimit \<le> 1 then dropped else if raw \<noteq> None \<and> key = None then dropped else s))"

definition resolveWeightedSelection :: "random_source \<Rightarrow> catalogue \<Rightarrow> (ctarget \<Rightarrow> bool) \<Rightarrow> bool \<Rightarrow> combo \<Rightarrow> combo list option \<Rightarrow> nat \<Rightarrow>
    rr_state \<Rightarrow> (weighted_resolution option \<times> string option) \<times> rr_state" where
  "resolveWeightedSelection rnd cat excluded weighted c allCombos stickyLimit s =
     (let s1 = evictOldestWeightedSticky weighted (cb_name c) s;
          groups = resolveWeightedStepGroups cat c allCombos;
          eligible = (if weighted then collectWeightedEligibility excluded groups else {});
          (key, s2) = resolveStickyWeightedKey weighted (cb_name c) stickyLimit eligible s1
      in ((if weighted then Some (resolveWeightedTargets rnd cat c allCombos key (Some eligible) (Some groups)) else None, key), s2))"

definition buildWeightedStepKeyMapper :: "weighted_resolution option \<Rightarrow> ctarget \<Rightarrow> string option" where
  "buildWeightedStepKeyMapper res t =
     (case res of
        None \<Rightarrow> None
      | Some r \<Rightarrow> map_option step_executionKey
          (find (\<lambda>st. ct_executionKey t = step_executionKey st \<or> prefix (step_executionKey st @ ''>'') (ct_executionKey t)) (wr_steps r)))"

section \<open>Orders by one criterion\<close>

text \<open>Targets are queued by model; every model of the ordered list takes the next target of its queue.\<close>

definition queues :: "ctarget list \<Rightarrow> (string, ctarget list) jmap" where
  "queues ts = fold (\<lambda>t m. jset (ct_modelStr t) ((case jget m (ct_modelStr t) of Some q \<Rightarrow> q | None \<Rightarrow> []) @ [t]) m) ts []"

fun take_from :: "string list \<Rightarrow> (string, ctarget list) jmap \<Rightarrow> ctarget list" where
  "take_from [] m = []"
| "take_from (x # xs) m = (case jget m x of Some (t # q) \<Rightarrow> t # take_from xs (jset x q m) | _ \<Rightarrow> take_from xs m)"

text \<open>
  \<open>pricing\<close> is absent when the price list cannot be loaded; a price that cannot be read, or is not a number, counts as
  infinite, and comes after every finite one.
\<close>

type_synonym pricing = "(string \<Rightarrow> js_num option) option"

definition cost_key :: "(string \<Rightarrow> js_num option) \<Rightarrow> string \<Rightarrow> bool \<times> rat" where
  "cost_key price m = (case price m of Some (Fin q) \<Rightarrow> (False, q) | _ \<Rightarrow> (True, 0))"

definition sortModelsByCost :: "pricing \<Rightarrow> string list \<Rightarrow> string list" where
  "sortModelsByCost pricing models = (case pricing of None \<Rightarrow> models | Some price \<Rightarrow> sort_key (cost_key price) models)"

definition sortTargetsByCost :: "pricing \<Rightarrow> ctarget list \<Rightarrow> ctarget list" where
  "sortTargetsByCost pricing targets = take_from (sortModelsByCost pricing (map ct_modelStr targets)) (queues targets)"

definition sortModelsByContextSize :: "(string \<Rightarrow> nat option) \<Rightarrow> string list \<Rightarrow> string list" where
  "sortModelsByContextSize limit models = sort_key (\<lambda>m. - int (case limit m of Some n \<Rightarrow> n | None \<Rightarrow> 0)) models"

definition sortTargetsByContextSize :: "(string \<Rightarrow> nat option) \<Rightarrow> ctarget list \<Rightarrow> ctarget list" where
  "sortTargetsByContextSize limit targets =
     (if list_ex (\<lambda>t. limit (ct_modelStr t) \<noteq> None) targets
      then take_from (sortModelsByContextSize limit (map ct_modelStr targets)) (queues targets)
      else targets)"

text \<open>\<open>metrics\<close> gives the requests a target has served; absent when the combo has none yet.\<close>

definition sortTargetsByUsage :: "(string \<Rightarrow> nat option) option \<Rightarrow> ctarget list \<Rightarrow> ctarget list" where
  "sortTargetsByUsage metrics targets =
     (case metrics of
        None \<Rightarrow> targets
      | Some requests \<Rightarrow> sort_key (\<lambda>t. case requests (ct_executionKey t) of Some n \<Rightarrow> n | None \<Rightarrow> 0) targets)"

text \<open>A score of \<open>None\<close> is \<open>-\<infinity>\<close>. \<open>latencyScore\<close> is the inverse of a logarithm of the latency.\<close>

record p2c_source =
  breakerState :: "string \<Rightarrow> string option"
  successRate :: "string \<Rightarrow> js_num"
  avgLatencyMs :: "string \<Rightarrow> js_num"
  latencyScore :: "rat \<Rightarrow> rat"

definition getP2CTargetScore :: "p2c_source \<Rightarrow> ctarget \<Rightarrow> rat option" where
  "getP2CTargetScore src t =
     (let state = breakerState src (ct_provider t) in
      if state = Some ''OPEN'' then None
      else
        (let successScore = (case successRate src (ct_modelStr t) of Fin r \<Rightarrow> r / 100 | _ \<Rightarrow> 1 / 2);
             latency = (case avgLatencyMs src (ct_modelStr t) of Fin l \<Rightarrow> if l > 0 then latencyScore src (l + 10) else 1 / 4 | _ \<Rightarrow> 1 / 4);
             breakerPenalty = (if state = Some ''HALF_OPEN'' then 1 / 4 else 0)
         in Some (successScore + latency - breakerPenalty)))"

fun score_less :: "rat option \<Rightarrow> rat option \<Rightarrow> bool" where
  "score_less None (Some y) \<longleftrightarrow> True"
| "score_less (Some x) (Some y) \<longleftrightarrow> x < y"
| "score_less _ None \<longleftrightarrow> False"

text \<open>Two draws: a position, and one among the others.\<close>

definition orderTargetsByPowerOfTwoChoices :: "nat \<Rightarrow> nat \<Rightarrow> p2c_source \<Rightarrow> ctarget list \<Rightarrow> ctarget list" where
  "orderTargetsByPowerOfTwoChoices draw1 draw2 src targets =
     (if length targets \<le> 1 then targets
      else let firstIndex = draw1; secondIndex = (if draw2 \<ge> draw1 then draw2 + 1 else draw2);
               selectedIndex = (if score_less (getP2CTargetScore src (targets ! firstIndex)) (getP2CTargetScore src (targets ! secondIndex))
                                then secondIndex else firstIndex)
           in targets ! selectedIndex # (take selectedIndex targets @ drop (Suc selectedIndex) targets))"

section \<open>Rotation\<close>

lemma make_room_own [simp]:
  "jget (rrCounters (make_room n s)) n = jget (rrCounters s) n"
  "jget (rrStickyTargets (make_room n s)) n = jget (rrStickyTargets s) n"
proof -
  have "jget (rrCounters (make_room n s)) n = jget (rrCounters s) n \<and> jget (rrStickyTargets (make_room n s)) n = jget (rrStickyTargets s) n"
  proof (cases "\<not> jhas (rrCounters s) n \<and> \<not> jhas (rrStickyTargets s) n \<and> length (rrCounters s) \<ge> MAX_RR_COUNTERS")
    case True
    then have "jget (rrCounters s) n = None" "jget (rrStickyTargets s) n = None" unfolding jhas_def by blast+
    with True show ?thesis unfolding make_room_def by (cases "rrCounters s") (auto split: prod.split)
  next
    case False
    then show ?thesis unfolding make_room_def by (simp only: if_False)
  qed
  then show "jget (rrCounters (make_room n s)) n = jget (rrCounters s) n"
    "jget (rrStickyTargets (make_room n s)) n = jget (rrStickyTargets s) n" by blast+
qed

lemma drop_stale_available: "list_all available ts \<Longrightarrow> drop_stale available n ts s = s"
  by (auto simp: drop_stale_def list_all_iff find_Some_iff split: option.splits)

lemma findIndex_distinct:
  assumes "distinct (map f xs)" "i < length xs" shows "findIndex (\<lambda>x. f x = f (xs ! i)) xs = Some i"
proof -
  have "xs ! i \<in> set xs" using assms(2) by simp
  then have "findIndex (\<lambda>x. f x = f (xs ! i)) xs \<noteq> None" unfolding findIndex_None by blast
  then obtain j where j: "findIndex (\<lambda>x. f x = f (xs ! i)) xs = Some j" by blast
  then have "j < length xs" "map f xs ! j = map f xs ! i" using findIndex_Some [OF j] assms(2) by auto
  then show ?thesis using j assms nth_eq_iff_index_eq [of "map f xs" j i] by simp
qed

text \<open>Where the rotation stands after \<open>i\<close> requests.\<close>

definition rotation_at :: "string \<Rightarrow> runtime_step list \<Rightarrow> nat \<Rightarrow> nat \<Rightarrow> rr_state \<Rightarrow> bool" where
  "rotation_at n ts L i s \<longleftrightarrow>
     (if i mod L = 0 then jget (rrStickyTargets s) n = None \<and> counter_of s n mod length ts = (i div L) mod length ts
      else jget (rrStickyTargets s) n = Some \<lparr>sk_executionKey = step_executionKey (ts ! ((i div L) mod length ts)), sk_successCount = i mod L\<rparr>)"

lemma begin_round_at:
  assumes "rotation_at n ts L i s" "ts \<noteq> []" "distinct (map step_executionKey ts)" "L \<ge> 1" "list_all available ts"
  shows "fst (begin_round available n ts L s) = (i div L) mod length ts"
    and "L > 1 \<Longrightarrow> rotation_at n ts L i (snd (begin_round available n ts L s))"
    and "jget (rrStickyTargets (snd (begin_round available n ts L s))) n = jget (rrStickyTargets s) n"
proof -
  let ?j = "(i div L) mod length ts"
  have j: "?j < length ts" using assms(2) by simp
  note idx = findIndex_distinct [OF assms(3) j]
  have "i mod L < L" using assms(4) by simp
  then show "fst (begin_round available n ts L s) = ?j" "L > 1 \<Longrightarrow> rotation_at n ts L i (snd (begin_round available n ts L s))"
    using assms(1) idx
    by (auto simp: begin_round_def Let_def rotation_at_def getStickyRoundRobinStartIndex_def counter_of_def drop_stale_available [OF assms(5)]
        jhas_def simp del: jhas_iff split: option.splits if_splits prod.splits)
  show "jget (rrStickyTargets (snd (begin_round available n ts L s))) n = jget (rrStickyTargets s) n"
    by (auto simp: begin_round_def Let_def drop_stale_available [OF assms(5)] split: prod.splits)
qed

lemma end_round_at:
  assumes "rotation_at n ts L i s" "ts \<noteq> []" "distinct (map step_executionKey ts)" "L \<ge> 1" "L > 1 \<or> jget (rrStickyTargets s) n = None"
  shows "rotation_at n ts L (Suc i) (end_round n ts L ((i div L) mod length ts) s)"
proof -
  let ?j = "(i div L) mod length ts"
  have j: "?j < length ts" using assms(2) by simp
  note idx = findIndex_distinct [OF assms(3) j]
  have nxt: "Suc ?j mod length ts = Suc (i div L) mod length ts" by (simp add: mod_Suc_eq)
  consider "L = 1" | "L > 1" "Suc (i mod L) = L" | "L > 1" "Suc (i mod L) < L" using assms(4) mod_less_divisor [of L i] by linarith
  then show ?thesis
  proof cases
    case 1
    then show ?thesis using nxt assms(5) by (simp add: rotation_at_def end_round_def counter_of_def)
  next
    case 2
    then have "Suc i mod L = 0" "Suc i div L = Suc (i div L)" by (simp_all add: mod_Suc div_Suc)
    moreover have "next_count (jget (rrStickyTargets s) n) (step_executionKey (ts ! ?j)) = L" using assms(1) 2 by (auto simp: rotation_at_def next_count_def split: if_splits)
    ultimately show ?thesis using 2(1) nxt idx
      by (simp add: rotation_at_def end_round_def recordStickyRoundRobinSuccess_def Let_def counter_of_def)
  next
    case 3
    then have m: "Suc i mod L = Suc (i mod L)" "Suc i div L = i div L" by (simp_all add: mod_Suc div_Suc)
    have "next_count (jget (rrStickyTargets s) n) (step_executionKey (ts ! ?j)) = Suc (i mod L)" using assms(1) 3 by (auto simp: rotation_at_def next_count_def split: if_splits)
    then show ?thesis using 3 by (simp add: rotation_at_def end_round_def recordStickyRoundRobinSuccess_def Let_def m)
  qed
qed

text \<open>Requests one after the other, each served by the target it tries first.\<close>

fun serve_all :: "(runtime_step \<Rightarrow> bool) \<Rightarrow> string \<Rightarrow> runtime_step list \<Rightarrow> nat \<Rightarrow> nat \<Rightarrow> rr_state \<Rightarrow> nat list" where
  "serve_all available n ts L 0 s = []"
| "serve_all available n ts L (Suc k) s =
     (let (i, s1) = begin_round available n ts L s in i # serve_all available n ts L k (end_round n ts L i s1))"

lemma serve_all_at:
  assumes "rotation_at n ts L i s" "ts \<noteq> []" "distinct (map step_executionKey ts)" "L \<ge> 1" "list_all available ts"
  shows "serve_all available n ts L k s = map (\<lambda>j. (j div L) mod length ts) [i..<i + k]"
  using assms(1)
proof (induction k arbitrary: i s)
  case (Suc k)
  let ?j = "(i div L) mod length ts" and ?s1 = "snd (begin_round available n ts L s)"
  note b = begin_round_at [OF Suc.prems assms(2-5)]
  have none: "L > 1 \<or> jget (rrStickyTargets ?s1) n = None" using b(3) Suc.prems assms(4) by (cases "L = 1") (auto simp: rotation_at_def)
  have "rotation_at n ts L (Suc i) (end_round n ts L ?j ?s1)"
  proof (cases "L > 1")
    case True
    then show ?thesis using end_round_at [OF b(2) assms(2-4)] by simp
  next
    case False
    then have L: "L = 1" using assms(4) by simp
    have "Suc (i mod length ts) mod length ts = Suc i mod length ts" by (simp add: mod_Suc_eq)
    then show ?thesis using none by (simp add: L rotation_at_def end_round_def counter_of_def)
  qed
  from Suc.IH [OF this] b(1) show ?case by (cases "begin_round available n ts L s") (simp add: upt_rec [of i])
qed simp

section \<open>Weighted draws\<close>

lemma weight_sum_list: "weight_sum w ts = sum_list (map w ts)"
proof -
  have "foldl (\<lambda>acc t. acc + w t) a ts = a + sum_list (map w ts)" for a
    by (induction ts arbitrary: a) (simp_all add: add.assoc)
  then show ?thesis by (simp add: weight_sum_def)
qed

lemma weighted_pick_interval:
  assumes "0 < x" "x \<le> sum_list (map w ts)" "\<forall>t \<in> set ts. 0 \<le> w t"
  shows "\<exists>i < length ts. weighted_pick w x ts = Some (ts ! i) \<and> sum_list (map w (take i ts)) < x \<and> x \<le> sum_list (map w (take (Suc i) ts))"
  using assms
proof (induction ts arbitrary: x)
  case (Cons t ts)
  show ?case
  proof (cases "x \<le> w t")
    case True
    then show ?thesis using Cons.prems by (intro exI [of _ 0]) simp
  next
    case False
    then obtain i where "i < length ts" "weighted_pick w (x - w t) ts = Some (ts ! i)" "sum_list (map w (take i ts)) < x - w t"
        "x - w t \<le> sum_list (map w (take (Suc i) ts))"
      using Cons.IH [of "x - w t"] Cons.prems by auto
    then show ?thesis using False by (intro exI [of _ "Suc i"]) simp
  qed
qed simp

lemma find_split: "\<forall>x \<in> set xs. \<not> P x \<Longrightarrow> P t \<Longrightarrow> find P (xs @ t # ys) = Some t"
  by (induction xs) auto

lemma fallback_key_mset:
  assumes "distinct (map key ts)" "t \<in> set ts"
  shows "mset (orderTargetsForWeightedFallback key w ts (key t) b) = mset ts" "hd (orderTargetsForWeightedFallback key w ts (key t) b) = t"
    "orderTargetsForWeightedFallback key w ts (key t) b \<noteq> []"
proof -
  obtain xs ys where ts: "ts = xs @ t # ys" using split_list [OF assms(2)] by blast
  have "\<forall>x \<in> set xs. key x \<noteq> key t" "\<forall>x \<in> set ys. key x \<noteq> key t" using assms(1) by (auto simp: ts image_iff)
  then have "filter (\<lambda>x. key x \<noteq> key t) xs = xs" "filter (\<lambda>x. key x \<noteq> key t) ys = ys" "find (\<lambda>x. key x = key t) (xs @ t # ys) = Some t"
    by (auto intro!: filter_True find_split)
  then have "filter (\<lambda>x. key x \<noteq> key t) ts = xs @ ys" "find (\<lambda>x. key x = key t) ts = Some t" by (simp_all add: ts)
  then show "mset (orderTargetsForWeightedFallback key w ts (key t) b) = mset ts" "hd (orderTargetsForWeightedFallback key w ts (key t) b) = t"
    "orderTargetsForWeightedFallback key w ts (key t) b \<noteq> []"
    by (simp_all add: orderTargetsForWeightedFallback_def Let_def ts)
qed

section \<open>The weighted order\<close>

lemma dedupe_keys: "ct_executionKey ` set (dedupe_from S ts) = ct_executionKey ` set ts - S"
  by (induction S ts rule: dedupe_from.induct) auto

lemma dedupe_distinct: "distinct (map ct_executionKey (dedupe_from S ts))"
proof (induction S ts rule: dedupe_from.induct)
  case (2 S t ts)
  have "ct_executionKey t \<notin> ct_executionKey ` set (dedupe_from (insert (ct_executionKey t) S) ts)" by (simp add: dedupe_keys)
  then show ?case using 2 by simp
qed simp

lemma dedupe_append: "dedupe_from S (xs @ ys) = dedupe_from S xs @ dedupe_from (S \<union> ct_executionKey ` set xs) ys"
  by (induction xs arbitrary: S) (auto simp: insert_absorb)

lemma weighted_pick_in: "weighted_pick w x ts = Some t \<Longrightarrow> t \<in> set ts"
  by (induction w x ts rule: weighted_pick.induct) (auto split: if_splits)

lemma selectWeightedTarget_in:
  assumes "ts \<noteq> []" "randomInt rnd (length ts) < length ts"
  obtains t where "selectWeightedTarget rnd w ts = Some t" "t \<in> set ts"
proof (cases "weighted_pick w (randomFloat rnd * weight_sum w ts) ts")
  case None
  show ?thesis using that [of "ts ! randomInt rnd (length ts)"] that [of "last ts"] assms None
    by (cases "weight_sum w ts \<le> 0") (auto simp: selectWeightedTarget_def Let_def)
next
  case (Some t)
  show ?thesis using that [of "ts ! randomInt rnd (length ts)"] that [of t] weighted_pick_in [OF Some] assms Some
    by (cases "weight_sum w ts \<le> 0") (auto simp: selectWeightedTarget_def Let_def)
qed

lemma targets_of_in:
  assumes "distinct (map (\<lambda>(st, g). step_executionKey st) groups)" "(st, g) \<in> set groups" shows "targets_of groups st = g"
proof -
  let ?f = "fold (\<lambda>(s, ts) m. jset (step_executionKey s) ts m)"
  have keep: "k \<notin> (\<lambda>(st, g). step_executionKey st) ` set gs \<Longrightarrow> jget (?f gs m) k = jget m k" for gs m k
    by (induction gs arbitrary: m) auto
  have "jget (?f gs m) (step_executionKey st) = Some g"
    if "distinct (map (\<lambda>(st, g). step_executionKey st) gs)" "(st, g) \<in> set gs" for gs m
    using that
  proof (induction gs arbitrary: m)
    case (Cons x gs)
    show ?case
    proof (cases "(st, g) \<in> set gs")
      case True
      then show ?thesis using Cons by (cases x) simp
    next
      case False
      then have "x = (st, g)" using Cons.prems by auto
      then show ?thesis using Cons.prems keep [of "step_executionKey st" gs] by simp
    qed
  qed simp
  then show ?thesis using assms by (simp add: targets_of_def)
qed

lemma groups_steps:
  "map fst (resolveWeightedStepGroups cat c cs) = filter (\<lambda>st. st \<in> fst ` set (resolveWeightedStepGroups cat c cs)) (getOrderedTopLevelRuntimeSteps cat c cs [])"
proof -
  have "map fst (filter (\<lambda>(st, ts). P ts) (map (\<lambda>st. (st, f st)) xs)) = filter (\<lambda>st. st \<in> fst ` set (filter (\<lambda>(st, ts). P ts) (map (\<lambda>st. (st, f st)) xs))) xs" for P f xs
    by (simp add: filter_map comp_def image_iff) (rule filter_cong; auto)
  then show ?thesis unfolding resolveWeightedStepGroups_def .
qed

lemma groups_distinct:
  assumes "distinct (map step_executionKey (getOrderedTopLevelRuntimeSteps cat c cs []))"
  shows "distinct (map (\<lambda>(st, g). step_executionKey st) (resolveWeightedStepGroups cat c cs))"
proof -
  have "distinct (map step_executionKey (map fst (resolveWeightedStepGroups cat c cs)))"
    unfolding groups_steps using distinct_map_filter [OF assms] .
  then show ?thesis by (simp add: comp_def case_prod_beta')
qed

lemma eligible_steps:
  assumes "distinct (map step_executionKey (getOrderedTopLevelRuntimeSteps cat c cs []))" "groups = resolveWeightedStepGroups cat c cs"
  shows "{st \<in> set (getOrderedTopLevelRuntimeSteps cat c cs []). step_executionKey st \<in> collectWeightedEligibility excluded groups} =
         {st. \<exists>g. (st, g) \<in> set groups \<and> (\<exists>t \<in> set g. \<not> excluded t)}" (is "?L = ?R")
proof
  have steps: "st \<in> set (getOrderedTopLevelRuntimeSteps cat c cs [])" if "(st, g) \<in> set groups" for st g
    using that unfolding assms(2) resolveWeightedStepGroups_def by auto
  show "?R \<subseteq> ?L" using steps by (force simp: collectWeightedEligibility_def list_ex_iff)
  show "?L \<subseteq> ?R"
  proof
    fix st assume st: "st \<in> ?L"
    then obtain st' g where g: "(st', g) \<in> set groups" "\<exists>t \<in> set g. \<not> excluded t" "step_executionKey st = step_executionKey st'"
      by (auto simp: collectWeightedEligibility_def list_ex_iff)
    then have "st = st'" using st steps assms(1) by (auto simp: distinct_map inj_on_def)
    then show "st \<in> ?R" using g by blast
  qed
qed

lemma pinned_or_drawn:
  assumes "tops \<noteq> []" "randomInt rnd (length tops) < length tops" "\<And>k. key = Some k \<Longrightarrow> \<exists>st \<in> set tops. step_executionKey st = k"
  obtains st where "st \<in> set tops" "\<And>k. key = Some k \<Longrightarrow> step_executionKey st = k"
    "(case Option.bind key (\<lambda>k. find (\<lambda>st. step_executionKey st = k) tops) of Some st \<Rightarrow> Some st | None \<Rightarrow> selectWeightedTarget rnd w tops) = Some st"
proof (cases key)
  case None
  then show thesis using selectWeightedTarget_in [OF assms(1,2), of w] that by auto
next
  case (Some k)
  then obtain st where f: "find (\<lambda>st. step_executionKey st = k) tops = Some st"
    using assms(3) [OF Some] by (cases "find (\<lambda>st. step_executionKey st = k) tops") (auto simp: find_None_iff)
  then have "st \<in> set tops" "step_executionKey st = k" by (auto simp: find_Some_iff)
  then show thesis using that [of st] Some f by simp
qed

section \<open>Stable orders\<close>

definition queue_of :: "(string, ctarget list) jmap \<Rightarrow> string \<Rightarrow> ctarget list" where
  "queue_of m k = (case jget m k of Some q \<Rightarrow> q | None \<Rightarrow> [])"

lemma queue_of_queues: "queue_of (queues ts) k = filter (\<lambda>t. ct_modelStr t = k) ts"
proof -
  have "queue_of (fold (\<lambda>t m. jset (ct_modelStr t) ((case jget m (ct_modelStr t) of Some q \<Rightarrow> q | None \<Rightarrow> []) @ [t]) m) ts m) k =
      queue_of m k @ filter (\<lambda>t. ct_modelStr t = k) ts" for m
    by (induction ts arbitrary: m) (auto simp: queue_of_def split: option.splits)
  from this [of "[]"] show ?thesis by (simp add: queues_def queue_of_def)
qed

lemma take_from_queues: "(\<And>k. queue_of m k = filter (\<lambda>t. ct_modelStr t = k) ys) \<Longrightarrow> take_from (map ct_modelStr ys) m = ys"
proof (induction ys arbitrary: m)
  case (Cons y ys)
  have "queue_of m (ct_modelStr y) = y # filter (\<lambda>t. ct_modelStr t = ct_modelStr y) ys" using Cons.prems by simp
  then have y: "jget m (ct_modelStr y) = Some (y # filter (\<lambda>t. ct_modelStr t = ct_modelStr y) ys)"
    by (auto simp: queue_of_def split: option.splits)
  have "take_from (map ct_modelStr ys) (jset (ct_modelStr y) (filter (\<lambda>t. ct_modelStr t = ct_modelStr y) ys) m) = ys"
  proof (rule Cons.IH)
    fix k
    show "queue_of (jset (ct_modelStr y) (filter (\<lambda>t. ct_modelStr t = ct_modelStr y) ys) m) k = filter (\<lambda>t. ct_modelStr t = k) ys"
      using Cons.prems [of k] by (auto simp: queue_of_def split: if_splits)
  qed
  then show ?case by (simp add: y)
qed simp

lemma map_sort_key: "map f (sort_key (\<lambda>x. g (f x)) xs) = sort_key g (map f xs)"
proof -
  have "map f (insort_key (\<lambda>x. g (f x)) x xs) = insort_key g (f x) (map f xs)" for x xs by (induction xs) auto
  then show ?thesis by (induction xs) auto
qed

lemma take_from_sorted:
  fixes f :: "string \<Rightarrow> 'b::linorder"
  shows "take_from (sort_key f (map ct_modelStr xs)) (queues xs) = sort_key (\<lambda>t. f (ct_modelStr t)) xs" (is "_ = ?ys")
proof -
  have "filter (\<lambda>t. ct_modelStr t = k) ?ys = filter (\<lambda>t. ct_modelStr t = k) xs" for k
  proof -
    have sub: "filter (\<lambda>t. ct_modelStr t = k) zs = filter (\<lambda>t. ct_modelStr t = k) (filter (\<lambda>t. f (ct_modelStr t) = f k) zs)" for zs
      by (auto intro!: filter_cong)
    show ?thesis by (subst (1 2) sub) (simp only: sort_key_stable)
  qed
  then have "take_from (map ct_modelStr ?ys) (queues xs) = ?ys" by (intro take_from_queues) (simp add: queue_of_queues)
  then show ?thesis by (simp add: map_sort_key)
qed

section \<open>Properties\<close>


definition demo_unit :: "string \<Rightarrow> runtime_step" where
  "demo_unit k = R_ref \<lparr>cr_stepId = k, cr_executionKey = k, cr_comboName = k, cr_weight = 0, cr_label = None, cr_quotaOnly = False\<rparr>"

definition demo_rr :: rr_state where
  "demo_rr = \<lparr>rrCounters = [(''other'', 4)], rrStickyTargets = [], weightedStickyTargets = []\<rparr>"


text \<open>
  The weighted draw. With a number above 0 and at most 1 from the random source, the target drawn has a positive
  weight, and it is the one in whose part of the total the number falls: the parts are as long as the weights and lie
  next to each other in the order of the list, so each target is drawn with the share its weight has in the total.
\<close>

theorem weighted_draw_share:
  assumes "0 < randomFloat rnd" "randomFloat rnd \<le> 1" "0 < sum_list (map weight targets)" "list_all (\<lambda>t. 0 \<le> weight t) targets"
  shows "\<exists>i < length targets. selectWeightedTarget rnd weight targets = Some (targets ! i) \<and> 0 < weight (targets ! i) \<and>
           sum_list (map weight (take i targets)) < randomFloat rnd * sum_list (map weight targets) \<and>
           randomFloat rnd * sum_list (map weight targets) \<le> sum_list (map weight (take i targets)) + weight (targets ! i)"
proof -
  let ?x = "randomFloat rnd * sum_list (map weight targets)"
  have "0 < ?x" "?x \<le> sum_list (map weight targets)" using assms(1-3) mult_right_mono [of "randomFloat rnd" 1 "sum_list (map weight targets)"] by auto
  then obtain i where i: "i < length targets" "weighted_pick weight ?x targets = Some (targets ! i)"
      "sum_list (map weight (take i targets)) < ?x" "?x \<le> sum_list (map weight (take (Suc i) targets))"
    using weighted_pick_interval [of ?x weight targets] assms(4) by (auto simp: list_all_iff)
  then have "?x \<le> sum_list (map weight (take i targets)) + weight (targets ! i)" by (simp add: take_Suc_conv_app_nth)
  moreover have "selectWeightedTarget rnd weight targets = Some (targets ! i)"
    using assms(3) i(1,2) by (auto simp: selectWeightedTarget_def weight_sum_list Let_def)
  ultimately show ?thesis using i(1,3) by (intro exI [of _ i]) auto
qed

theorem weighted_draw_share_witness:
  "\<exists>i < length [0, 30, 70 :: rat]. selectWeightedTarget \<lparr>randomFloat = 1 / 2, randomInt = (\<lambda>n. 0)\<rparr> (\<lambda>w. w) [0, 30, 70] = Some ([0, 30, 70] ! i) \<and>
     0 < [0, 30, 70 :: rat] ! i"
  using weighted_draw_share [of "\<lparr>randomFloat = 1 / 2, randomInt = (\<lambda>n. 0)\<rparr>" "\<lambda>w. w" "[0, 30, 70]"] by auto

text \<open>
  The weighted strategy gives up no target. Of a combo whose steps have different execution keys, the targets of every
  step with a selectable target appear in the list of attempts, each execution key once, and nothing else does; the
  attempts begin with the targets of the selected step, and this is the pinned step whenever a pin was honoured.
\<close>

theorem weighted_attempts_complete:
  assumes "distinct (map step_executionKey (getOrderedTopLevelRuntimeSteps cat c allCombos []))" "\<And>n. 0 < n \<Longrightarrow> randomInt rnd n < n"
    and "groups = resolveWeightedStepGroups cat c allCombos"
    and "resolveWeightedSelection rnd cat excluded True c allCombos stickyLimit s = ((Some r, key), s')"
  shows "distinct (map ct_executionKey (wr_targets r)) \<and>
         ct_executionKey ` set (wr_targets r) = ct_executionKey ` \<Union> {set g | st g. (st, g) \<in> set groups \<and> (\<exists>t \<in> set g. \<not> excluded t)} \<and>
         (\<forall>st g t. (st, g) \<in> set groups \<and> t \<in> set g \<and> \<not> excluded t \<longrightarrow>
            (\<exists>st' g'. wr_selected r = Some st' \<and> (st', g') \<in> set groups \<and> prefix (dedupeTargetsByExecutionKey g') (wr_targets r) \<and>
                      (\<forall>k. key = Some k \<longrightarrow> step_executionKey st' = k)))"
proof -
  let ?E = "collectWeightedEligibility excluded groups" and ?steps = "getOrderedTopLevelRuntimeSteps cat c allCombos []"
  define tops where "tops = filter (\<lambda>st. step_executionKey st \<in> ?E) ?steps"
  define R where "R = {st. \<exists>g. (st, g) \<in> set groups \<and> (\<exists>t \<in> set g. \<not> excluded t)}"
  have tops: "set tops = R" "distinct (map step_executionKey tops)"
    using eligible_steps [OF assms(1,3), of excluded] distinct_map_filter [OF assms(1)] by (auto simp: tops_def R_def)
  have of: "targets_of groups st = g" if "(st, g) \<in> set groups" for st g
    using targets_of_in groups_distinct [OF assms(1)] assms(3) that by blast
  have r: "r = resolveWeightedTargets rnd cat c allCombos key (Some ?E) (Some groups)" and key: "\<And>k. key = Some k \<Longrightarrow> k \<in> ?E"
    using assms(3,4) by (auto simp: resolveWeightedSelection_def resolveStickyWeightedKey_def Let_def split: option.splits if_splits)
  show ?thesis
  proof (cases "tops = []")
    case True
    then have "r = \<lparr>wr_targets = [], wr_selected = None, wr_steps = []\<rparr>" unfolding r resolveWeightedTargets_def tops_def by (simp add: Let_def)
    moreover have "{set g | st g. (st, g) \<in> set groups \<and> (\<exists>t \<in> set g. \<not> excluded t)} = {}" using True tops(1) by (auto simp: R_def)
    ultimately show ?thesis by (simp only: weighted_resolution.simps) auto
  next
    case False
    have "\<exists>st \<in> set tops. step_executionKey st = k" if "key = Some k" for k
      using key [OF that] tops(1) by (auto simp: R_def collectWeightedEligibility_def list_ex_iff)
    then obtain st where st: "st \<in> set tops" "\<And>k. key = Some k \<Longrightarrow> step_executionKey st = k"
      "(case Option.bind key (\<lambda>k. find (\<lambda>st. step_executionKey st = k) tops) of Some st \<Rightarrow> Some st | None \<Rightarrow> selectWeightedTarget rnd step_weight tops) = Some st"
      using pinned_or_drawn [OF False assms(2), of key] False by blast
    let ?ord = "orderTargetsForWeightedFallback step_executionKey step_weight tops (step_executionKey st) (hasCompositeTierRuntimeOrder c)"
    have rr: "r = \<lparr>wr_targets = dedupeTargetsByExecutionKey (concat (map (targets_of groups) ?ord)), wr_selected = Some st, wr_steps = ?ord\<rparr>"
      using False st(3) unfolding r resolveWeightedTargets_def tops_def by (simp add: Let_def)
    note ord = fallback_key_mset [OF tops(2) st(1), of step_weight "hasCompositeTierRuntimeOrder c"]
    have "set ?ord = R" using mset_eq_setD [OF ord(1)] tops(1) by simp
    then have all: "(\<Union>x \<in> set ?ord. set (targets_of groups x)) = \<Union> {set g | st g. (st, g) \<in> set groups \<and> (\<exists>t \<in> set g. \<not> excluded t)}"
      using of by (auto simp: R_def)
    obtain g where g: "(st, g) \<in> set groups" using st(1) tops(1) by (auto simp: R_def)
    have "?ord = st # tl ?ord" using ord(2,3) list.collapse by metis
    then have "concat (map (targets_of groups) ?ord) = g @ concat (map (targets_of groups) (tl ?ord))" using of [OF g] by (metis concat.simps(2) list.simps(9))
    then have "prefix (dedupeTargetsByExecutionKey g) (wr_targets r)" by (simp add: rr dedupeTargetsByExecutionKey_def dedupe_append)
    then show ?thesis using st(2) g all dedupe_distinct dedupe_keys [of "{}"] by (auto simp: rr dedupeTargetsByExecutionKey_def image_Union)
  qed
qed

definition demo_random :: random_source where
  "demo_random = \<lparr>randomFloat = 1 / 2, randomInt = (\<lambda>n. 0)\<rparr>"

theorem weighted_attempts_complete_witness:
  "distinct (map ct_executionKey (wr_targets (resolveWeightedTargets demo_random demo_catalogue (hd demo_combos) (Some demo_combos) None
      (Some (collectWeightedEligibility (\<lambda>_. False) (resolveWeightedStepGroups demo_catalogue (hd demo_combos) (Some demo_combos))))
      (Some (resolveWeightedStepGroups demo_catalogue (hd demo_combos) (Some demo_combos)))))) \<and>
   map ct_modelStr (wr_targets (resolveWeightedTargets demo_random demo_catalogue (hd demo_combos) (Some demo_combos) None
      (Some (collectWeightedEligibility (\<lambda>_. False) (resolveWeightedStepGroups demo_catalogue (hd demo_combos) (Some demo_combos))))
      (Some (resolveWeightedStepGroups demo_catalogue (hd demo_combos) (Some demo_combos))))) = [''openai/gpt-4o'', ''groq/llama'', ''anthropic/claude'']"
    (is "distinct (map ct_executionKey (wr_targets ?r)) \<and> ?m")
proof
  have d: "distinct (map step_executionKey (getOrderedTopLevelRuntimeSteps demo_catalogue (hd demo_combos) (Some demo_combos) []))" by code_simp
  have k: "resolveStickyWeightedKey True (cb_name (hd demo_combos)) 1
      (collectWeightedEligibility (\<lambda>_. False) (resolveWeightedStepGroups demo_catalogue (hd demo_combos) (Some demo_combos)))
      (evictOldestWeightedSticky True (cb_name (hd demo_combos)) demo_rr) = (None, demo_rr)" by code_simp
  have "resolveWeightedSelection demo_random demo_catalogue (\<lambda>_. False) True (hd demo_combos) (Some demo_combos) 1 demo_rr = ((Some ?r, None), demo_rr)"
    unfolding resolveWeightedSelection_def Let_def by (simp only: if_True k prod.case)
  from weighted_attempts_complete [OF d _ refl this] show "distinct (map ct_executionKey (wr_targets ?r))" by (simp add: demo_random_def)
  show ?m by code_simp
qed

text \<open>
  The orders by cost and by context size are the stable sorts of the targets themselves: the detour over model names
  and queues neither loses nor exchanges targets. Unknown prices come last, unknown sizes count as none, and
  targets that are equal keep their order; without a price list, or when no size is known, nothing moves.
\<close>

theorem criterion_orders_stable:
  "sortTargetsByCost None targets = targets \<and>
   sortTargetsByCost (Some price) targets = sort_key (\<lambda>t. cost_key price (ct_modelStr t)) targets \<and>
   sortTargetsByContextSize limit targets = sort_key (\<lambda>t. - int (case limit (ct_modelStr t) of Some n \<Rightarrow> n | None \<Rightarrow> 0)) targets"
proof (intro conjI)
  show "sortTargetsByCost None targets = targets"
    by (simp add: sortTargetsByCost_def sortModelsByCost_def take_from_queues queue_of_queues)
  show "sortTargetsByCost (Some price) targets = sort_key (\<lambda>t. cost_key price (ct_modelStr t)) targets"
    by (simp add: sortTargetsByCost_def sortModelsByCost_def take_from_sorted)
  let ?size = "\<lambda>t. - int (case limit (ct_modelStr t) of Some n \<Rightarrow> n | None \<Rightarrow> 0)"
  have "sort_key ?size targets = targets" if "\<not> list_ex (\<lambda>t. limit (ct_modelStr t) \<noteq> None) targets"
  proof (rule sort_key_id_if_sorted)
    have "map ?size targets = map (\<lambda>_. 0) targets" using that by (auto simp: list_ex_iff)
    then show "sorted (map ?size targets)" by (simp add: map_replicate_const)
  qed
  then show "sortTargetsByContextSize limit targets = sort_key ?size targets"
    by (simp add: sortTargetsByContextSize_def sortModelsByContextSize_def take_from_sorted)
qed

end
