(* ===== verification/Media_Parts.thy ===== *)
theory Media_Parts
  imports Js_Json
begin

text \<open>
  Images, audio and video in the messages of a request, \<^verbatim>\<open>open-sse/utils/mediaParts.ts\<close>. The parts an inspection
  pushes are its result; the flag \<open>found\<close> of the context is read off them. The entries of an object come in the order
  in which the language enumerates them.
\<close>

section \<open>Parts\<close>

datatype media_kind = M_image | M_audio | M_video

datatype shape =
    Sh_image_url | Sh_image_base64 | Sh_image_source_url | Sh_input_image | Sh_data_uri_string | Sh_input_audio
  | Sh_audio_url | Sh_audio_source | Sh_input_video | Sh_video_url | Sh_video_source | Sh_image_indicator

datatype path_key = P_key string | P_index nat

record media_part =
  mp_kind :: media_kind
  mp_ref :: string
  mp_nested :: bool
  mp_path :: "path_key list"
  mp_shape :: shape

definition MAX_DEPTH :: nat where
  "MAX_DEPTH = 8"

text \<open>A property of a value that may not be an object, and the string a value is.\<close>

definition field_of :: "json option \<Rightarrow> string \<Rightarrow> json option" where
  "field_of v k = (case v of Some (JObj kvs) \<Rightarrow> prop_of kvs k | _ \<Rightarrow> None)"

definition str_of :: "json option \<Rightarrow> string option" where
  "str_of v = (case v of Some (JStr s) \<Rightarrow> Some s | _ \<Rightarrow> None)"

definition non_empty :: "string option \<Rightarrow> string option" where
  "non_empty s = (if s = Some [] then None else s)"

definition nullish_or :: "json option \<Rightarrow> json option \<Rightarrow> json option" where
  "nullish_or a b = (if a = None \<or> a = Some JNull then b else a)"

definition urlFrom :: "json option \<Rightarrow> string option" where
  "urlFrom raw = (case str_of raw of Some s \<Rightarrow> Some s | None \<Rightarrow> str_of (field_of raw ''url''))"

definition push_part :: "media_kind \<Rightarrow> string \<Rightarrow> shape \<Rightarrow> nat \<Rightarrow> path_key list \<Rightarrow> media_part" where
  "push_part kind ref sh depth path = \<lparr>mp_kind = kind, mp_ref = ref, mp_nested = depth > 0, mp_path = path, mp_shape = sh\<rparr>"

section \<open>One object\<close>

definition inspectImageShapes :: "layer \<Rightarrow> string option \<Rightarrow> nat \<Rightarrow> path_key list \<Rightarrow> media_part option" where
  "inspectImageShapes obj type depth path =
     (let byUrl = (if type = Some ''image_url'' \<or> type = Some ''input_image'' then non_empty (urlFrom (prop_of obj ''image_url'')) else None);
          source = prop_of obj ''source''
      in case byUrl of
           Some url \<Rightarrow> Some (push_part M_image url (if type = Some ''input_image'' then Sh_input_image else Sh_image_url) depth path)
         | None \<Rightarrow>
             if type \<noteq> Some ''image'' then None
             else case (if field_of source ''type'' = Some (JStr ''base64'') then str_of (field_of source ''data'') else None) of
                    Some d \<Rightarrow>
                      (let media = (case str_of (field_of source ''media_type'') of Some m \<Rightarrow> m | None \<Rightarrow> ''image/png'')
                       in Some (push_part M_image (''data:'' @ media @ '';base64,'' @ d) Sh_image_base64 depth path))
                  | None \<Rightarrow>
                      (case (if field_of source ''type'' = Some (JStr ''url'') then non_empty (str_of (field_of source ''url'')) else None) of
                         Some url \<Rightarrow> Some (push_part M_image url Sh_image_source_url depth path)
                       | None \<Rightarrow> None))"

definition starts :: "string \<Rightarrow> string \<Rightarrow> bool" where
  "starts pre s \<longleftrightarrow> take (length pre) s = pre"

definition media_starts :: "(string \<Rightarrow> string) \<Rightarrow> string \<Rightarrow> string option \<Rightarrow> bool" where
  "media_starts f pre mediaType = (case mediaType of Some m \<Rightarrow> starts pre (f m) | None \<Rightarrow> False)"

definition inspectAudioShapes :: "layer \<Rightarrow> string option \<Rightarrow> string option \<Rightarrow> nat \<Rightarrow> path_key list \<Rightarrow> media_part option" where
  "inspectAudioShapes obj type mediaType depth path =
     (case (if type = Some ''input_audio'' then str_of (field_of (prop_of obj ''input_audio'') ''data'') else None) of
        Some d \<Rightarrow> Some (push_part M_audio d Sh_input_audio depth path)
      | None \<Rightarrow>
          (case (if type = Some ''audio_url'' then non_empty (urlFrom (prop_of obj ''audio_url'')) else None) of
             Some url \<Rightarrow> Some (push_part M_audio url Sh_audio_url depth path)
           | None \<Rightarrow>
               (case (if media_starts id ''audio/'' mediaType then str_of (field_of (prop_of obj ''source'') ''data'') else None) of
                  Some d \<Rightarrow> Some (push_part M_audio d Sh_audio_source depth path)
                | None \<Rightarrow> None)))"

definition inspectVideoShapes :: "layer \<Rightarrow> string option \<Rightarrow> string option \<Rightarrow> nat \<Rightarrow> path_key list \<Rightarrow> media_part option" where
  "inspectVideoShapes obj type mediaType depth path =
     (case (if type = Some ''input_video''
            then non_empty (urlFrom (nullish_or (prop_of obj ''video_url'') (nullish_or (prop_of obj ''input_video'') (prop_of obj ''url'')))) else None) of
        Some ref \<Rightarrow> Some (push_part M_video ref Sh_input_video depth path)
      | None \<Rightarrow>
          (case (if type = Some ''video_url'' then non_empty (urlFrom (prop_of obj ''video_url'')) else None) of
             Some ref \<Rightarrow> Some (push_part M_video ref Sh_video_url depth path)
           | None \<Rightarrow>
               (let source = prop_of obj ''source''; videoMediaType = media_starts toLowerCase ''video/'' mediaType in
                case (if videoMediaType then str_of (field_of source ''data'') else None) of
                  Some d \<Rightarrow> Some (push_part M_video (''data:'' @ the mediaType @ '';base64,'' @ d) Sh_video_source depth path)
                | None \<Rightarrow>
                    (case non_empty (urlFrom (field_of source ''url'')) of
                       Some ref \<Rightarrow>
                         if type = Some ''video'' \<and> field_of source ''type'' = Some (JStr ''url'') \<or> type = Some ''video_source'' \<or> videoMediaType
                         then Some (push_part M_video ref Sh_video_source depth path) else None
                     | None \<Rightarrow> None))))"

definition inspectImageIndicators :: "layer \<Rightarrow> string option \<Rightarrow> string option \<Rightarrow> nat \<Rightarrow> path_key list \<Rightarrow> media_part option" where
  "inspectImageIndicators obj type mediaType depth path =
     (let lowerType = map_option toLowerCase type;
          looksLikeImage = (lowerType = Some ''image'' \<or> lowerType = Some ''image_url'' \<or> lowerType = Some ''input_image'' \<or>
                            prop_of obj ''image_url'' \<noteq> None \<or> prop_of obj ''input_image'' \<noteq> None)
      in if \<not> looksLikeImage \<and> \<not> media_starts toLowerCase ''image/'' mediaType then None
         else Some (push_part M_image (case urlFrom (nullish_or (prop_of obj ''image_url'') (prop_of obj ''input_image'')) of Some r \<Rightarrow> r | None \<Rightarrow> [])
                      Sh_image_indicator depth path))"

section \<open>The traversal\<close>

definition found :: "media_kind option \<Rightarrow> media_part list \<Rightarrow> bool" where
  "found stop ps \<longleftrightarrow> list_ex (\<lambda>p. stop = Some (mp_kind p)) ps"

text \<open>What is pushed by one piece and then, unless the wanted kind was found, by the next.\<close>

definition go_on :: "media_kind option \<Rightarrow> media_part list \<Rightarrow> media_part list \<Rightarrow> media_part list" where
  "go_on stop ps qs = (if found stop ps then ps else ps @ qs)"

text \<open>The parts an object is itself; the flag tells that its entries are not looked at.\<close>

definition own_parts :: "media_kind option \<Rightarrow> layer \<Rightarrow> nat \<Rightarrow> path_key list \<Rightarrow> media_part list \<times> bool" where
  "own_parts stop obj depth path =
     (let type = str_of (prop_of obj ''type'') in
      case inspectImageShapes obj type depth path of
        Some p \<Rightarrow> ([p], True)
      | None \<Rightarrow>
          (let mediaType = str_of (field_of (prop_of obj ''source'') ''media_type'');
               audio = (case inspectAudioShapes obj type mediaType depth path of Some p \<Rightarrow> [p] | None \<Rightarrow> [])
           in if found stop audio then (audio, True)
              else case inspectVideoShapes obj type mediaType depth path of
                     Some p \<Rightarrow> (audio @ [p], True)
                   | None \<Rightarrow>
                       (case inspectImageIndicators obj type mediaType depth path of
                          Some p \<Rightarrow> (audio @ [p], True)
                        | None \<Rightarrow> (audio, False))))"

definition string_parts :: "string \<Rightarrow> nat \<Rightarrow> path_key list \<Rightarrow> media_part list" where
  "string_parts s depth path =
     (if starts ''data:image/'' s then [push_part M_image s Sh_data_uri_string depth path] else []) @
     (if starts ''data:video/'' s then [push_part M_video s Sh_data_uri_string depth path] else [])"

fun inspect :: "media_kind option \<Rightarrow> json \<Rightarrow> nat \<Rightarrow> path_key list \<Rightarrow> media_part list"
  and inspect_items :: "media_kind option \<Rightarrow> json list \<Rightarrow> nat \<Rightarrow> nat \<Rightarrow> path_key list \<Rightarrow> media_part list"
  and inspect_entries :: "media_kind option \<Rightarrow> layer \<Rightarrow> nat \<Rightarrow> path_key list \<Rightarrow> media_part list"
where
  "inspect stop v depth path =
     (if depth > MAX_DEPTH then []
      else case v of
             JStr s \<Rightarrow> string_parts s depth path
           | JArr xs \<Rightarrow> inspect_items stop xs 0 (depth + 1) path
           | JObj kvs \<Rightarrow> (case own_parts stop kvs depth path of (ps, done) \<Rightarrow> if done then ps else ps @ inspect_entries stop kvs (depth + 1) path)
           | _ \<Rightarrow> [])"
| "inspect_items stop [] i depth path = []"
| "inspect_items stop (x # xs) i depth path =
     go_on stop (inspect stop x depth (path @ [P_index i])) (inspect_items stop xs (i + 1) depth path)"
| "inspect_entries stop [] depth path = []"
| "inspect_entries stop (kv # kvs) depth path =
     go_on stop (inspect stop (snd kv) depth (path @ [P_key (fst kv)])) (inspect_entries stop kvs depth path)"

section \<open>Messages\<close>

text \<open>The content parts of the messages, with the positions of the message and of the part.\<close>

definition content_parts :: "json option \<Rightarrow> (nat \<times> nat \<times> json) list" where
  "content_parts messages =
     (case messages of
        Some (JArr ms) \<Rightarrow>
          concat (map (\<lambda>(i, m). case field_of (Some m) ''content'' of Some (JArr cs) \<Rightarrow> map (\<lambda>(j, c). (i, j, c)) (enumerate 0 cs) | _ \<Rightarrow> [])
                    (enumerate 0 ms))
      | _ \<Rightarrow> [])"

definition detectMediaParts :: "json option \<Rightarrow> (nat \<times> nat \<times> media_part) list" where
  "detectMediaParts messages = concat (map (\<lambda>(i, j, c). map (\<lambda>p. (i, j, p)) (inspect None c 0 [])) (content_parts messages))"

definition containsMediaKind :: "json option \<Rightarrow> media_kind \<Rightarrow> bool" where
  "containsMediaKind messages kind \<longleftrightarrow> list_ex (\<lambda>(i, j, c). found (Some kind) (inspect (Some kind) c 0 [])) (content_parts messages)"

section \<open>Early exit\<close>

lemma found_simps [simp]:
  "found stop [] \<longleftrightarrow> False" "found stop (ps @ qs) \<longleftrightarrow> found stop ps \<or> found stop qs" "found None ps \<longleftrightarrow> False"
  "found stop (p # ps) \<longleftrightarrow> stop = Some (mp_kind p) \<or> found stop ps"
  by (auto simp: found_def list_ex_iff)

lemma found_go_on [simp]: "found k (go_on stop ps qs) \<longleftrightarrow> found k ps \<or> \<not> found stop ps \<and> found k qs"
  by (auto simp: go_on_def)

lemma own_parts_stop:
  assumes "own_parts (Some k) obj d path = (ps, b)" "own_parts None obj d path = (ps', b')"
  shows "found (Some k) ps \<and> found (Some k) ps' \<or> ps = ps' \<and> b = b'"
  using assms by (auto simp: own_parts_def Let_def split: option.splits if_splits)

lemma inspect_stop_iff:
  "found (Some k) (inspect (Some k) v d path) \<longleftrightarrow> found (Some k) (inspect None v d path)"
  "found (Some k) (inspect_items (Some k) xs i d path) \<longleftrightarrow> found (Some k) (inspect_items None xs i d path)"
  "found (Some k) (inspect_entries (Some k) kvs d path) \<longleftrightarrow> found (Some k) (inspect_entries None kvs d path)"
proof (induction "None :: media_kind option" v d path and "None :: media_kind option" xs i d path and "None :: media_kind option" kvs d path
    rule: inspect_inspect_items_inspect_entries.induct)
  case (1 v d path)
  show ?case
  proof (cases v)
    case (JObj kvs)
    obtain ps b ps' b' where o': "own_parts (Some k) kvs d path = (ps, b)" "own_parts None kvs d path = (ps', b')" by fastforce
    have "found (Some k) (inspect_entries (Some k) kvs (d + 1) path) \<longleftrightarrow> found (Some k) (inspect_entries None kvs (d + 1) path)"
      if "\<not> d > MAX_DEPTH" "\<not> b'" using 1(2) [OF that(1) JObj o'(2) [symmetric]] that by simp
    then show ?thesis using own_parts_stop [OF o'] o' JObj by auto
  qed (use 1 in auto)
qed auto

section \<open>Locations\<close>

fun follow :: "json \<Rightarrow> path_key list \<Rightarrow> json option" where
  "follow v [] = Some v"
| "follow (JArr xs) (P_index i # path) = (if i < length xs then follow (xs ! i) path else None)"
| "follow (JObj kvs) (P_key k # path) = Option.bind (prop_of kvs k) (\<lambda>v. follow v path)"
| "follow v (e # path) = None"

text \<open>Objects have every key once.\<close>

fun json_ok :: "json \<Rightarrow> bool" where
  "json_ok (JArr xs) \<longleftrightarrow> (\<forall>x \<in> set xs. json_ok x)"
| "json_ok (JObj kvs) \<longleftrightarrow> distinct (map fst kvs) \<and> (\<forall>kv \<in> set kvs. json_ok (snd kv))"
| "json_ok v \<longleftrightarrow> True"

text \<open>The parts a value is itself, not looking into it.\<close>

definition parts_at :: "media_kind option \<Rightarrow> json \<Rightarrow> nat \<Rightarrow> path_key list \<Rightarrow> media_part list" where
  "parts_at stop v depth path =
     (case v of JStr s \<Rightarrow> string_parts s depth path | JObj kvs \<Rightarrow> fst (own_parts stop kvs depth path) | _ \<Rightarrow> [])"

definition placed :: "nat \<Rightarrow> path_key list \<Rightarrow> media_part \<Rightarrow> bool" where
  "placed d path p \<longleftrightarrow> mp_path p = path \<and> (mp_nested p \<longleftrightarrow> d > 0)"

lemma push_part_placed [simp]: "placed d path (push_part k r sh d path)"
  by (simp add: placed_def push_part_def)

lemma shapes_placed:
  "inspectImageShapes obj t d path = Some p \<Longrightarrow> placed d path p"
  "inspectAudioShapes obj t m d path = Some p \<Longrightarrow> placed d path p"
  "inspectVideoShapes obj t m d path = Some p \<Longrightarrow> placed d path p"
  "inspectImageIndicators obj t m d path = Some p \<Longrightarrow> placed d path p"
  by (auto simp: inspectImageShapes_def inspectAudioShapes_def inspectVideoShapes_def inspectImageIndicators_def Let_def
      split: option.splits if_splits)

lemma own_parts_placed: "list_all (placed d path) (fst (own_parts stop obj d path))"
  by (auto simp: own_parts_def Let_def intro: shapes_placed split: option.split)

lemma parts_at_placed: "p \<in> set (parts_at stop v d path) \<Longrightarrow> placed d path p"
  using own_parts_placed [of d path stop] by (auto simp: parts_at_def string_parts_def list_all_iff split: json.splits if_splits)

lemma inspect_items_parts:
  "p \<in> set (inspect_items stop xs i d path) \<Longrightarrow> \<exists>j < length xs. p \<in> set (inspect stop (xs ! j) d (path @ [P_index (i + j)]))"
proof (induction xs arbitrary: i)
  case (Cons x xs)
  then consider "p \<in> set (inspect stop x d (path @ [P_index i]))" | "p \<in> set (inspect_items stop xs (i + 1) d path)"
    by (auto simp: go_on_def split: if_splits simp del: inspect.simps)
  then show ?case
  proof cases
    case 1
    then show ?thesis by (intro exI [of _ 0]) (simp del: inspect.simps)
  next
    case 2
    then obtain j where "j < length xs" "p \<in> set (inspect stop (xs ! j) d (path @ [P_index (i + 1 + j)]))" using Cons.IH by blast
    then show ?thesis by (intro exI [of _ "Suc j"]) (simp del: inspect.simps)
  qed
qed simp

lemma inspect_entries_parts:
  "p \<in> set (inspect_entries stop kvs d path) \<Longrightarrow> \<exists>kv \<in> set kvs. p \<in> set (inspect stop (snd kv) d (path @ [P_key (fst kv)]))"
  by (induction kvs) (auto simp: go_on_def split: if_splits simp del: inspect.simps)

declare inspect.simps [simp del]

lemma inspect_located:
  assumes "p \<in> set (inspect stop v d path)" "json_ok v"
  shows "\<exists>q w. mp_path p = path @ q \<and> follow v q = Some w \<and> p \<in> set (parts_at stop w (d + length q) (path @ q)) \<and> d + length q \<le> MAX_DEPTH"
  using assms
proof (induction v arbitrary: d path)
  case (JArr xs)
  then obtain j where j: "j < length xs" "p \<in> set (inspect stop (xs ! j) (d + 1) (path @ [P_index j]))"
    by (auto simp: inspect.simps [of stop "JArr xs"] split: if_splits dest!: inspect_items_parts)
  then obtain q w where "mp_path p = (path @ [P_index j]) @ q" "follow (xs ! j) q = Some w"
      "p \<in> set (parts_at stop w (d + 1 + length q) ((path @ [P_index j]) @ q))" "d + 1 + length q \<le> MAX_DEPTH"
    using JArr.IH [OF nth_mem [OF j(1)] j(2)] JArr.prems(2) by auto
  then show ?case using j(1) by (intro exI [of _ "P_index j # q"] exI [of _ w]) simp
next
  case (JObj kvs)
  then have "d \<le> MAX_DEPTH" by (auto simp: inspect.simps [of stop "JObj kvs"] split: if_splits)
  obtain ps b where o': "own_parts stop kvs d path = (ps, b)" by fastforce
  then consider "p \<in> set ps" | "p \<in> set (inspect_entries stop kvs (d + 1) path)" using JObj.prems(1) \<open>d \<le> MAX_DEPTH\<close> by (auto simp: inspect.simps [of stop "JObj kvs"] split: if_splits)
  then show ?case
  proof cases
    case 1
    then have p: "p \<in> set (parts_at stop (JObj kvs) d path)" using o' by (simp add: parts_at_def)
    then show ?thesis using parts_at_placed [OF p] \<open>d \<le> MAX_DEPTH\<close> by (intro exI [of _ "[]"] exI [of _ "JObj kvs"]) (simp add: placed_def p)
  next
    case 2
    then obtain kv where kv: "kv \<in> set kvs" "p \<in> set (inspect stop (snd kv) (d + 1) (path @ [P_key (fst kv)]))" using inspect_entries_parts by blast
    then obtain q w where "mp_path p = (path @ [P_key (fst kv)]) @ q" "follow (snd kv) q = Some w"
        "p \<in> set (parts_at stop w (d + 1 + length q) ((path @ [P_key (fst kv)]) @ q))" "d + 1 + length q \<le> MAX_DEPTH"
      using JObj.IH [OF kv(1) _ kv(2)] JObj.prems(2) by (auto simp: snds.simps)
    moreover have "prop_of kvs (fst kv) = Some (snd kv)" using kv(1) JObj.prems(2) by (simp add: prop_of_def)
    ultimately show ?thesis by (intro exI [of _ "P_key (fst kv) # q"] exI [of _ w]) simp
  qed
next
  case (JStr s)
  then have p: "p \<in> set (parts_at stop (JStr s) d path)" "d \<le> MAX_DEPTH" by (auto simp: parts_at_def inspect.simps [of stop "JStr s"] split: if_splits)
  then show ?case using parts_at_placed [OF p(1)] p by (intro exI [of _ "[]"] exI [of _ "JStr s"]) (simp add: placed_def)
qed (auto simp: inspect.simps split: if_splits)

section \<open>Properties\<close>

text \<open>
  C31. Media are found and located. The check that stops at the first hit answers as the full traversal does. Every part
  reported carries a place where it is: the positions of the message and of the content part are those of a content
  part, the path leads from there, in at most eight steps, to a value that by itself is such a part, and the part
  is called nested just when the path is not empty.
\<close>

theorem media_found_and_located:
  assumes "\<And>i j c. (i, j, c) \<in> set (content_parts messages) \<Longrightarrow> json_ok c"
  shows "(containsMediaKind messages kind \<longleftrightarrow> list_ex (\<lambda>(i, j, p). mp_kind p = kind) (detectMediaParts messages)) \<and>
         list_all (\<lambda>(i, j, p). \<exists>c w. (i, j, c) \<in> set (content_parts messages) \<and> follow c (mp_path p) = Some w \<and>
                     p \<in> set (parts_at None w (length (mp_path p)) (mp_path p)) \<and> length (mp_path p) \<le> MAX_DEPTH \<and>
                     (mp_nested p \<longleftrightarrow> mp_path p \<noteq> [])) (detectMediaParts messages)"
proof
  show "containsMediaKind messages kind \<longleftrightarrow> list_ex (\<lambda>(i, j, p). mp_kind p = kind) (detectMediaParts messages)"
    unfolding containsMediaKind_def inspect_stop_iff by (simp add: detectMediaParts_def found_def list_ex_iff split_beta eq_commute)
  have "\<exists>c w. (i, j, c) \<in> set (content_parts messages) \<and> follow c (mp_path p) = Some w \<and>
      p \<in> set (parts_at None w (length (mp_path p)) (mp_path p)) \<and> length (mp_path p) \<le> MAX_DEPTH \<and> (mp_nested p \<longleftrightarrow> mp_path p \<noteq> [])"
    if hit: "(i, j, p) \<in> set (detectMediaParts messages)" for i j p
  proof -
    obtain c where c: "(i, j, c) \<in> set (content_parts messages)" "p \<in> set (inspect None c 0 [])" using hit by (auto simp: detectMediaParts_def)
    then obtain q w where q: "mp_path p = q" "follow c q = Some w" "p \<in> set (parts_at None w (length q) q)" "length q \<le> MAX_DEPTH"
      using inspect_located [OF c(2) assms [OF c(1)]] by auto
    then show ?thesis using c(1) parts_at_placed [OF q(3)] by (auto simp: placed_def)
  qed
  then show "list_all (\<lambda>(i, j, p). \<exists>c w. (i, j, c) \<in> set (content_parts messages) \<and> follow c (mp_path p) = Some w \<and>
      p \<in> set (parts_at None w (length (mp_path p)) (mp_path p)) \<and> length (mp_path p) \<le> MAX_DEPTH \<and> (mp_nested p \<longleftrightarrow> mp_path p \<noteq> [])) (detectMediaParts messages)"
    by (auto simp: list_all_iff)
qed

definition demo_messages :: json where
  "demo_messages = JArr [JObj [(''role'', JStr ''user''), (''content'', JArr [JObj [(''type'', JStr ''text''), (''text'', JStr ''look'')],
     JObj [(''type'', JStr ''tool_result''), (''content'', JArr [JObj [(''type'', JStr ''image_url''), (''image_url'', JObj [(''url'', JStr ''http://x/y.png'')])]])]])]]"

theorem media_found_and_located_witness:
  "containsMediaKind (Some demo_messages) M_image \<and> \<not> containsMediaKind (Some demo_messages) M_audio \<and>
   detectMediaParts (Some demo_messages) =
     [(0, 1, \<lparr>mp_kind = M_image, mp_ref = ''http://x/y.png'', mp_nested = True, mp_path = [P_key ''content'', P_index 0], mp_shape = Sh_image_url\<rparr>)]"
proof -
  have ok: "json_ok c" if "(i, j, c) \<in> set (content_parts (Some demo_messages))" for i j c
  proof -
    have "list_all (\<lambda>(i, j, c). json_ok c) (content_parts (Some demo_messages))" by code_simp
    then show ?thesis using that by (auto simp: list_all_iff)
  qed
  have parts: "detectMediaParts (Some demo_messages) =
     [(0, 1, \<lparr>mp_kind = M_image, mp_ref = ''http://x/y.png'', mp_nested = True, mp_path = [P_key ''content'', P_index 0], mp_shape = Sh_image_url\<rparr>)]" by code_simp
  show ?thesis using media_found_and_located [of "Some demo_messages" M_image] media_found_and_located [of "Some demo_messages" M_audio] ok by (simp add: parts)
qed

end
