(* ===== verification/Combo_Compat.thy ===== *)
theory Combo_Compat
  imports Combo_Structure Media_Parts
begin

text \<open>
  Which targets of a combo can serve a request, \<^verbatim>\<open>comboStructure.ts\<close> (from
  \<^verbatim>\<open>deriveRequestCompatibilityRequirements\<close> on) with \<^verbatim>\<open>contextOverrideGate.ts\<close> and the last-resort tier of
  \<^verbatim>\<open>comboCompatFallback.ts\<close>. The capabilities of a model, the override of its context window, the providers with
  emulated tool calls and the estimate of tokens are lookups given as arguments. Targets that are the same value
  are the same object.
\<close>

section \<open>Capabilities and requirements\<close>

text \<open>A capability that may be unknown is an option.\<close>

record capabilities =
  supportsTools :: "bool option"
  toolCalling :: bool
  supportsVision :: "bool option"
  structuredOutput :: "bool option"
  maxOutputTokens :: "nat option"
  maxInputTokens :: "nat option"
  contextWindow :: "nat option"

record model_data =
  capsOf :: "ctarget \<Rightarrow> capabilities"
  exactOverride :: "string \<Rightarrow> nat option"
  pairOverride :: "string option \<Rightarrow> string \<Rightarrow> nat option"
  parseModel :: "string \<Rightarrow> string option \<times> string option"
  emulatedTools :: "string \<Rightarrow> bool"
  estimateTokens :: "layer \<Rightarrow> nat"
  stringNumber :: "string \<Rightarrow> js_num"

record requirements =
  requiresTools :: bool
  requiresVision :: bool
  requiresStructuredOutput :: bool
  estimatedInputTokens :: nat
  requestedOutputTokens :: nat
  requiredContextTokens :: nat

definition getPositiveTokenCount :: "(string \<Rightarrow> js_num) \<Rightarrow> json option \<Rightarrow> nat" where
  "getPositiveTokenCount number v =
     (case (case v of None \<Rightarrow> NaN | Some j \<Rightarrow> js_number number j) of Fin q \<Rightarrow> if q > 0 then nat \<lceil>q\<rceil> else 0 | _ \<Rightarrow> 0)"

definition filled_array :: "json option \<Rightarrow> bool" where
  "filled_array v = (case v of Some (JArr xs) \<Rightarrow> xs \<noteq> [] | _ \<Rightarrow> False)"

definition requestRequiresTools :: "layer \<Rightarrow> bool" where
  "requestRequiresTools body \<longleftrightarrow> filled_array (prop_of body ''tools'') \<or> filled_array (prop_of body ''functions'')"

definition requestRequiresStructuredOutput :: "layer \<Rightarrow> bool" where
  "requestRequiresStructuredOutput body \<longleftrightarrow>
     str_of (field_of (prop_of body ''response_format'') ''type'') \<in> {Some ''json_object'', Some ''json_schema''}"

definition hasEstimableContent :: "json option \<Rightarrow> bool" where
  "hasEstimableContent v =
     (case v of None \<Rightarrow> False | Some JNull \<Rightarrow> False | Some (JArr xs) \<Rightarrow> xs \<noteq> [] | Some (JObj kvs) \<Rightarrow> kvs \<noteq> [] | _ \<Rightarrow> True)"

definition estimateRequestInputTokens :: "(layer \<Rightarrow> nat) \<Rightarrow> layer \<Rightarrow> nat" where
  "estimateRequestInputTokens estimate body =
     (let payload = map (\<lambda>k. (k, the (prop_of body k)))
                      (filter (\<lambda>k. hasEstimableContent (prop_of body k)) [''messages'', ''input'', ''tools'', ''functions'', ''response_format''])
      in if payload \<noteq> [] then estimate payload else 0)"

definition valueContainsImagePart :: "json option \<Rightarrow> bool" where
  "valueContainsImagePart v =
     containsMediaKind (Some (JArr [JObj [(''content'', JArr [case v of Some j \<Rightarrow> j | None \<Rightarrow> JNull])]])) M_image"

definition deriveRequestCompatibilityRequirements :: "model_data \<Rightarrow> layer \<Rightarrow> requirements" where
  "deriveRequestCompatibilityRequirements md body =
     (let input = estimateRequestInputTokens (estimateTokens md) body;
          output = max (getPositiveTokenCount (stringNumber md) (prop_of body ''max_tokens''))
                       (getPositiveTokenCount (stringNumber md) (prop_of body ''max_completion_tokens''))
      in \<lparr>requiresTools = requestRequiresTools body,
          requiresVision = (valueContainsImagePart (prop_of body ''messages'') \<or> valueContainsImagePart (prop_of body ''input'')),
          requiresStructuredOutput = requestRequiresStructuredOutput body,
          estimatedInputTokens = input, requestedOutputTokens = output, requiredContextTokens = input + output\<rparr>)"

section \<open>Judging a target\<close>

definition exceedsKnownOutputLimit :: "nat \<Rightarrow> nat option \<Rightarrow> bool" where
  "exceedsKnownOutputLimit requested limit = (case limit of None \<Rightarrow> False | Some m \<Rightarrow> requested > 0 \<and> m < requested)"

text \<open>
  The override of the window: the exact one, else that of the model without an effort suffix. \<open>pairOverride\<close> looks up a
  model with the provider it is parsed with, if any.
\<close>

definition EFFORT_SUFFIXES_LONGEST_FIRST :: "string list" where
  "EFFORT_SUFFIXES_LONGEST_FIRST = [''minimal'', ''medium'', ''xhigh'', ''none'', ''high'', ''max'', ''low'']"

definition stripTrailingEffortSuffix :: "string \<Rightarrow> string option" where
  "stripTrailingEffortSuffix modelId =
     (let normalized = js_trim modelId; lowered = toLowerCase normalized in
      map_option (\<lambda>suffix. take (length normalized - Suc (length suffix)) normalized)
        (find (\<lambda>suffix. length lowered > Suc (length suffix) \<and> drop (length lowered - Suc (length suffix)) lowered = CHR ''-'' # suffix)
           EFFORT_SUFFIXES_LONGEST_FIRST))"

definition lookupOverrideWithEffortInheritance :: "model_data \<Rightarrow> string \<Rightarrow> nat option" where
  "lookupOverrideWithEffortInheritance md modelStr =
     (case exactOverride md modelStr of
        Some n \<Rightarrow> Some n
      | None \<Rightarrow>
          (let (provider, model) = parseModel md modelStr; modelId = js_trim (case model of Some m \<Rightarrow> m | None \<Rightarrow> []) in
           case stripTrailingEffortSuffix modelId of
             Some base \<Rightarrow> if base = [] \<or> base = modelId then None else pairOverride md provider base
           | None \<Rightarrow> None))"

definition getModelContextOverrideValue :: "model_data \<Rightarrow> ctarget \<Rightarrow> nat option" where
  "getModelContextOverrideValue md t = (if ct_modelStr t = [] then None else lookupOverrideWithEffortInheritance md (ct_modelStr t))"

definition evaluateContextLimit :: "model_data \<Rightarrow> requirements \<Rightarrow> ctarget \<Rightarrow> bool option" where
  "evaluateContextLimit md req t =
     (case getModelContextOverrideValue md t of
        Some n \<Rightarrow> Some (n \<ge> requiredContextTokens req)
      | None \<Rightarrow>
          (let c = capsOf md t in
           if maxInputTokens c = None \<and> contextWindow c = None then None
           else Some ((case maxInputTokens c of Some m \<Rightarrow> m \<ge> estimatedInputTokens req | None \<Rightarrow> True) \<and>
                      (case contextWindow c of Some w \<Rightarrow> w \<ge> requiredContextTokens req | None \<Rightarrow> True))))"

definition hasKnownCompatibleContextLimit :: "model_data \<Rightarrow> requirements \<Rightarrow> ctarget \<Rightarrow> bool" where
  "hasKnownCompatibleContextLimit md req t \<longleftrightarrow> requiredContextTokens req > 0 \<and> evaluateContextLimit md req t = Some True"

definition OVERRIDE_REJECT_TRUST_MARGIN :: nat where
  "OVERRIDE_REJECT_TRUST_MARGIN = 5"

definition isNearBoundaryOverrideReject :: "model_data \<Rightarrow> requirements \<Rightarrow> ctarget \<Rightarrow> bool" where
  "isNearBoundaryOverrideReject md req t =
     (case getModelContextOverrideValue md t of
        None \<Rightarrow> False
      | Some n \<Rightarrow> requiredContextTokens req > 0 \<and> n > 0 \<and> n < requiredContextTokens req \<and>
                  requiredContextTokens req \<le> n * OVERRIDE_REJECT_TRUST_MARGIN)"

datatype failure = F_tools | F_vision | F_structured_output | F_output_tokens | F_context_window

definition HARD_COMPAT_REASONS :: "failure set" where
  "HARD_COMPAT_REASONS = {F_tools, F_vision, F_structured_output, F_output_tokens}"

definition isVisionIncompatibleTarget :: "model_data \<Rightarrow> requirements \<Rightarrow> ctarget \<Rightarrow> bool" where
  "isVisionIncompatibleTarget md req t \<longleftrightarrow> requiresVision req \<and> supportsVision (capsOf md t) \<noteq> Some True"

definition computeCompatRejectedTargets :: "model_data \<Rightarrow> ctarget list \<Rightarrow> ctarget list \<Rightarrow> layer \<Rightarrow> ctarget list" where
  "computeCompatRejectedTargets md ranked kept body =
     (let req = deriveRequestCompatibilityRequirements md body in
      filter (\<lambda>t. t \<notin> set kept \<and> \<not> isVisionIncompatibleTarget md req t) ranked)"

definition getTargetCompatibilityFailures :: "model_data \<Rightarrow> requirements \<Rightarrow> ctarget \<Rightarrow> failure list" where
  "getTargetCompatibilityFailures md req t =
     (let c = capsOf md t in
      (if requiresTools req \<and> (supportsTools c = Some False \<or> \<not> toolCalling c) \<and> \<not> emulatedTools md (ct_provider t) then [F_tools] else []) @
      (if requiresVision req \<and> supportsVision c \<noteq> Some True then [F_vision] else []) @
      (if requiresStructuredOutput req \<and> structuredOutput c = Some False then [F_structured_output] else []) @
      (if exceedsKnownOutputLimit (requestedOutputTokens req) (maxOutputTokens c) then [F_output_tokens] else []) @
      (if requiredContextTokens req > 0 \<and> evaluateContextLimit md req t = Some False then [F_context_window] else []))"

definition hasHardCapabilityFailure :: "failure list \<Rightarrow> bool" where
  "hasHardCapabilityFailure reasons \<longleftrightarrow> list_ex (\<lambda>r. r \<in> HARD_COMPAT_REASONS) reasons"

section \<open>The filter\<close>

text \<open>The targets without hard failures, those trusted to fit first.\<close>

definition context_order :: "model_data \<Rightarrow> requirements \<Rightarrow> ctarget list \<Rightarrow> ctarget list" where
  "context_order md req compatible =
     (let known = filter (hasKnownCompatibleContextLimit md req) compatible;
          overrideVerified = filter (\<lambda>t. getModelContextOverrideValue md t \<noteq> None) known;
          catalogOnly = filter (\<lambda>t. getModelContextOverrideValue md t = None) known;
          overrideTrustedRejects = filter (\<lambda>t. t \<notin> set known \<and> F_context_window \<in> set (getTargetCompatibilityFailures md req t) \<and>
                                            isNearBoundaryOverrideReject md req t) compatible;
          preferredTier = overrideVerified @ overrideTrustedRejects @ catalogOnly
      in preferredTier @ filter (\<lambda>t. t \<notin> set preferredTier) compatible)"

definition filterTargetsByRequestCompatibility :: "model_data \<Rightarrow> bool \<Rightarrow> layer \<Rightarrow> ctarget list \<Rightarrow> ctarget list" where
  "filterTargetsByRequestCompatibility md failOpen body targets =
     (let req = deriveRequestCompatibilityRequirements md body;
          reasons = getTargetCompatibilityFailures md req;
          compatible = filter (\<lambda>t. \<not> hasHardCapabilityFailure (reasons t)) targets;
          rejected = filter (\<lambda>t. reasons t \<noteq> []) targets;
          reordered = context_order md req compatible;
          visionSafe = filter (\<lambda>t. \<not> isVisionIncompatibleTarget md req t) targets
      in if targets = [] then targets
         else if \<not> (requiresTools req \<or> requiresVision req \<or> requiresStructuredOutput req \<or> requiredContextTokens req > 0) then targets
         else if requiredContextTokens req > 0 \<and> list_ex (\<lambda>t. F_context_window \<in> set (reasons t)) rejected \<and> length compatible > 1 \<and>
                 reordered \<noteq> compatible then reordered
         else if length compatible = length targets then targets
         else if compatible = [] then
           (if requiresVision req then visionSafe
            else if \<not> list_ex (\<lambda>t. hasHardCapabilityFailure (reasons t)) rejected \<or> failOpen then targets
            else [])
         else if length compatible = 1 \<and> F_context_window \<in> set (reasons (hd compatible)) \<and>
                 length (if requiresVision req then visionSafe else targets) > length compatible
           then (if requiresVision req then visionSafe else targets)
         else compatible)"

datatype exhaustion_message = No_tool_support nat | No_vision_support | Output_limit nat nat | No_structured_output

record exhaustion =
  ex_unmet :: "failure list"
  ex_excluded :: "(string \<times> string \<times> failure list) list"
  ex_message :: exhaustion_message

definition highestKnownOutputLimit :: "model_data \<Rightarrow> ctarget list \<Rightarrow> nat" where
  "highestKnownOutputLimit md ts = fold (\<lambda>t ceiling. case maxOutputTokens (capsOf md t) of Some n \<Rightarrow> max ceiling n | None \<Rightarrow> ceiling) ts 0"

definition describeCapabilityFilterExhaustion :: "model_data \<Rightarrow> ctarget list \<Rightarrow> layer \<Rightarrow> exhaustion option" where
  "describeCapabilityFilterExhaustion md targets body =
     (let req = deriveRequestCompatibilityRequirements md body;
          reasons = getTargetCompatibilityFailures md req;
          unmet = rev (remdups (rev (concat (map (\<lambda>t. filter (\<lambda>r. r \<in> HARD_COMPAT_REASONS) (reasons t)) targets))));
          primary = (if F_tools \<in> set unmet then F_tools else if F_vision \<in> set unmet then F_vision else hd unmet);
          toolCount = (case prop_of body ''tools'' of Some (JArr xs) \<Rightarrow> length xs | _ \<Rightarrow> 0)
      in if targets = [] \<or> unmet = [] then None
         else Some \<lparr>ex_unmet = unmet,
                    ex_excluded = map (\<lambda>t. (ct_provider t, ct_modelStr t, if reasons t = [] then [primary] else reasons t)) targets,
                    ex_message = (case primary of
                       F_tools \<Rightarrow> No_tool_support toolCount
                     | F_vision \<Rightarrow> No_vision_support
                     | F_output_tokens \<Rightarrow> Output_limit (requestedOutputTokens req)
                          (highestKnownOutputLimit md (filter (\<lambda>t. F_output_tokens \<in> set (reasons t)) targets))
                     | _ \<Rightarrow> No_structured_output)\<rparr>)"

section \<open>The last resort\<close>

text \<open>The rejected targets one after the other: those dispatched, and the first that succeeded.\<close>

fun attemptCompatRejectedFallback :: "(ctarget \<Rightarrow> bool) \<Rightarrow> (ctarget \<Rightarrow> bool) \<Rightarrow> (ctarget \<Rightarrow> 'r option) \<Rightarrow> ctarget list \<Rightarrow> ctarget list \<times> 'r option" where
  "attemptCompatRejectedFallback available cooling dispatch [] = ([], None)"
| "attemptCompatRejectedFallback available cooling dispatch (t # ts) =
     (if \<not> available t \<or> cooling t then attemptCompatRejectedFallback available cooling dispatch ts
      else case dispatch t of
             Some r \<Rightarrow> ([t], Some r)
           | None \<Rightarrow> (case attemptCompatRejectedFallback available cooling dispatch ts of (ds, r) \<Rightarrow> (t # ds, r)))"

section \<open>What the filter keeps\<close>

lemma vision_failure: "F_vision \<in> set (getTargetCompatibilityFailures md req t) \<longleftrightarrow> isVisionIncompatibleTarget md req t"
  by (auto simp: getTargetCompatibilityFailures_def isVisionIncompatibleTarget_def Let_def)

lemma hard_vision: "\<not> hasHardCapabilityFailure (getTargetCompatibilityFailures md req t) \<Longrightarrow> \<not> isVisionIncompatibleTarget md req t"
  by (auto simp: hasHardCapabilityFailure_def HARD_COMPAT_REASONS_def list_ex_iff simp flip: vision_failure)

lemma mset_split: "mset (filter P xs) + mset (filter (\<lambda>x. \<not> P x) xs) = mset xs"
  by (induction xs) auto

lemma context_order_mset: "mset (context_order md req ts) = mset ts"
proof -
  define K O' T where "K = hasKnownCompatibleContextLimit md req" and "O' = (\<lambda>t. getModelContextOverrideValue md t \<noteq> None)"
    and "T = (\<lambda>t. F_context_window \<in> set (getTargetCompatibilityFailures md req t) \<and> isNearBoundaryOverrideReject md req t)"
  have "context_order md req ts = filter (\<lambda>t. K t \<and> O' t) ts @ filter (\<lambda>t. \<not> K t \<and> T t) ts @ filter (\<lambda>t. K t \<and> \<not> O' t) ts @ filter (\<lambda>t. \<not> (K t \<or> T t)) ts"
    unfolding context_order_def Let_def K_def [symmetric] filter_filter
    by (auto simp: O'_def T_def conj_commute intro!: arg_cong2 [of _ _ _ _ "(@)"] filter_cong)
  moreover have "mset (filter (\<lambda>t. K t \<and> O' t) ts) + mset (filter (\<lambda>t. \<not> K t \<and> T t) ts) + mset (filter (\<lambda>t. K t \<and> \<not> O' t) ts) +
      mset (filter (\<lambda>t. \<not> (K t \<or> T t)) ts) = mset ts"
    by (induction ts) auto
  ultimately show ?thesis by (simp add: ac_simps)
qed

text \<open>Every result is one of five lists.\<close>

lemma cascade:
  assumes "r = (if c1 then T else if c2 then T else if c3 then R else if c4 then T else if c5 then (if v then V else if c6 then T else E)
                else if c7 then (if v then V else T) else C)"
  obtains "r = T" "c1 \<or> c2 \<or> c4 \<or> \<not> v" | "r = R" | "r = V" | "r = E" "\<not> c1" "c5" "\<not> v" | "r = C"
  using assms by (cases c1; cases c2; cases c3; cases c4; cases c5; cases v; cases c6; cases c7) simp_all

lemma filter_cases:
  fixes md failOpen body targets
  defines "req \<equiv> deriveRequestCompatibilityRequirements md body"
  defines "compatible \<equiv> filter (\<lambda>t. \<not> hasHardCapabilityFailure (getTargetCompatibilityFailures md req t)) targets"
    and "visionSafe \<equiv> filter (\<lambda>t. \<not> isVisionIncompatibleTarget md req t) targets"
    and "result \<equiv> filterTargetsByRequestCompatibility md failOpen body targets"
  obtains "result = compatible" | "result = context_order md req compatible" | "result = visionSafe"
    | "result = targets" "\<not> requiresVision req \<or> compatible = targets" | "result = []" "targets \<noteq> []" "compatible = []" "\<not> requiresVision req"
proof -
  have len: "compatible = targets" if "length compatible = length targets"
    using that length_filter_less unfolding compatible_def by (metis filter_True nat_neq_iff)
  have "compatible = targets" if "targets = []" using that by (simp add: compatible_def)
  then show thesis
    using cascade [OF filterTargetsByRequestCompatibility_def [of md failOpen body targets,
        unfolded Let_def, folded req_def, folded compatible_def visionSafe_def, folded result_def]] len that
    by metis
qed

lemma filter_bounds:
  fixes md failOpen body targets
  defines "req \<equiv> deriveRequestCompatibilityRequirements md body"
  defines "hard \<equiv> \<lambda>t. hasHardCapabilityFailure (getTargetCompatibilityFailures md req t)"
    and "result \<equiv> filterTargetsByRequestCompatibility md failOpen body targets"
  shows "{t \<in> set targets. \<not> hard t} \<subseteq> set result" and "set result \<subseteq> set targets"
    and "requiresVision req \<Longrightarrow> t \<in> set result \<Longrightarrow> \<not> isVisionIncompatibleTarget md req t"
    and "filter hard targets = [] \<Longrightarrow> mset result = mset targets"
proof -
  let ?C = "filter (\<lambda>t. \<not> hard t) targets"
  have safe: "\<not> isVisionIncompatibleTarget md req t" if "\<not> hard t" for t using hard_vision that unfolding hard_def by blast
  have all: "?C = targets" if "filter hard targets = []" using that by (auto simp: filter_empty_conv filter_id_conv)
  have vis: "filter (\<lambda>t. \<not> isVisionIncompatibleTarget md req t) targets = targets" if "?C = targets"
    using that safe unfolding filter_id_conv by blast
  consider "mset result = mset ?C" | "result = filter (\<lambda>t. \<not> isVisionIncompatibleTarget md req t) targets"
    | "result = targets" "\<not> requiresVision req \<or> ?C = targets" | "result = []" "?C = []" "targets \<noteq> []"
    using filter_cases [of md failOpen body targets] context_order_mset unfolding result_def req_def hard_def by metis
  then have "{t \<in> set targets. \<not> hard t} \<subseteq> set result \<and> set result \<subseteq> set targets \<and>
      (requiresVision req \<longrightarrow> (\<forall>t \<in> set result. \<not> isVisionIncompatibleTarget md req t)) \<and> (filter hard targets = [] \<longrightarrow> mset result = mset targets)"
  proof cases
    case 1
    have "set result = set ?C" using mset_eq_setD [OF 1] .
    moreover have "mset result = mset targets" if "filter hard targets = []" using 1 all [OF that] by simp
    ultimately show ?thesis using safe by auto
  next
    case 2
    then show ?thesis using safe all vis by auto
  next
    case 3
    have "\<not> isVisionIncompatibleTarget md req t" if "requiresVision req" "t \<in> set targets" for t
      using vis 3(2) that unfolding filter_id_conv by blast
    then show ?thesis using 3(1) by blast
  next
    case 4
    then have "\<forall>t \<in> set targets. hard t" by (simp add: filter_empty_conv)
    then show ?thesis using 4 all by (auto simp: filter_empty_conv)
  qed
  then show "{t \<in> set targets. \<not> hard t} \<subseteq> set result" "set result \<subseteq> set targets"
    "requiresVision req \<Longrightarrow> t \<in> set result \<Longrightarrow> \<not> isVisionIncompatibleTarget md req t" "filter hard targets = [] \<Longrightarrow> mset result = mset targets" by blast+
qed

lemma fallback_dispatched: "set (fst (attemptCompatRejectedFallback available cooling dispatch ts)) \<subseteq> set ts"
  by (induction ts) (auto split: option.splits prod.splits)

text \<open>A failure tells what the request asked for.\<close>

lemma failure_requirement:
  "r \<in> set (getTargetCompatibilityFailures md req t) \<Longrightarrow>
     case r of F_tools \<Rightarrow> requiresTools req | F_vision \<Rightarrow> requiresVision req | F_structured_output \<Rightarrow> requiresStructuredOutput req
     | F_output_tokens \<Rightarrow> (\<exists>m. maxOutputTokens (capsOf md t) = Some m \<and> m < requestedOutputTokens req) | F_context_window \<Rightarrow> requiredContextTokens req > 0"
  by (auto simp: getTargetCompatibilityFailures_def exceedsKnownOutputLimit_def Let_def split: if_splits option.splits)

lemma highest_limit_below:
  assumes "ts \<noteq> []" "\<And>t. t \<in> set ts \<Longrightarrow> \<exists>m. maxOutputTokens (capsOf md t) = Some m \<and> m < n"
  shows "highestKnownOutputLimit md ts < n"
proof -
  have "fold (\<lambda>t ceiling. case maxOutputTokens (capsOf md t) of Some n \<Rightarrow> max ceiling n | None \<Rightarrow> ceiling) ts k < n"
    if "k < n" "\<And>t. t \<in> set ts \<Longrightarrow> \<exists>m. maxOutputTokens (capsOf md t) = Some m \<and> m < n" for k ts
    using that by (induction ts arbitrary: k) fastforce+
  moreover have "0 < n" using assms(2) [of "hd ts"] assms(1) by auto
  ultimately show ?thesis unfolding highestKnownOutputLimit_def using assms(2) by blast
qed

section \<open>Properties\<close>

definition demo_target :: "string \<Rightarrow> ctarget" where
  "demo_target m = \<lparr>ct_stepId = m, ct_executionKey = m, ct_modelStr = m, ct_provider = ''p'', ct_providerId = None, ct_connectionId = None,
     ct_allowed = [], ct_weight = 0, ct_label = None, ct_prompt = None, ct_quotaOnly = False\<rparr>"

text \<open>Two models: one sees images but has no tool calls, one has tool calls and a small context window.\<close>

definition demo_caps :: "ctarget \<Rightarrow> capabilities" where
  "demo_caps t =
     (if ct_modelStr t = ''see''
      then \<lparr>supportsTools = Some False, toolCalling = False, supportsVision = Some True, structuredOutput = None, maxOutputTokens = Some 100,
            maxInputTokens = None, contextWindow = Some 1000\<rparr>
      else \<lparr>supportsTools = Some True, toolCalling = True, supportsVision = None, structuredOutput = None, maxOutputTokens = None,
            maxInputTokens = None, contextWindow = Some 10\<rparr>)"

definition demo_models_data :: model_data where
  "demo_models_data = \<lparr>capsOf = demo_caps, exactOverride = (\<lambda>m. None), pairOverride = (\<lambda>p m. None), parseModel = (\<lambda>m. (None, Some m)),
     emulatedTools = (\<lambda>p. False), estimateTokens = (\<lambda>l. 50), stringNumber = demo_number\<rparr>"

definition demo_image :: layer where
  "demo_image = [(''messages'', demo_messages)]"

definition demo_tools :: layer where
  "demo_tools = [(''tools'', JArr [JObj [(''name'', JStr ''f'')]])]"

text \<open>
  C30. Images only go where they can be seen. For a request with an image, every target the filter lets through is one
  whose vision support is confirmed, with or without the fail-open option, and so is every target the last
  resort dispatches, whatever set of targets was kept before.
\<close>

theorem image_only_to_confirmed_vision:
  assumes "requiresVision (deriveRequestCompatibilityRequirements md body)"
  shows "list_all (\<lambda>t. supportsVision (capsOf md t) = Some True)
           (filterTargetsByRequestCompatibility md failOpen body targets @
            fst (attemptCompatRejectedFallback available cooling dispatch (computeCompatRejectedTargets md ranked kept body)))"
proof -
  let ?req = "deriveRequestCompatibilityRequirements md body"
  have see: "supportsVision (capsOf md t) = Some True" if "\<not> isVisionIncompatibleTarget md ?req t" for t
    using that assms by (simp add: isVisionIncompatibleTarget_def)
  have "supportsVision (capsOf md t) = Some True" if "t \<in> set (filterTargetsByRequestCompatibility md failOpen body targets)" for t
    using filter_bounds(3) [OF assms that] see by blast
  moreover have "supportsVision (capsOf md t) = Some True"
    if "t \<in> set (fst (attemptCompatRejectedFallback available cooling dispatch (computeCompatRejectedTargets md ranked kept body)))" for t
    using that fallback_dispatched see by (fastforce simp: computeCompatRejectedTargets_def Let_def)
  ultimately show ?thesis by (auto simp: list_all_iff)
qed

theorem image_only_to_confirmed_vision_witness:
  "list_all (\<lambda>t. supportsVision (capsOf demo_models_data t) = Some True)
     (filterTargetsByRequestCompatibility demo_models_data True demo_image [demo_target ''see'', demo_target ''act''] @
      fst (attemptCompatRejectedFallback (\<lambda>_. True) (\<lambda>_. False) (\<lambda>t. None :: unit option)
             (computeCompatRejectedTargets demo_models_data [demo_target ''see'', demo_target ''act''] [] demo_image))) \<and>
   filterTargetsByRequestCompatibility demo_models_data True demo_image [demo_target ''see'', demo_target ''act''] = [demo_target ''see'']"
proof
  have "requiresVision (deriveRequestCompatibilityRequirements demo_models_data demo_image)" by code_simp
  then show "list_all (\<lambda>t. supportsVision (capsOf demo_models_data t) = Some True)
     (filterTargetsByRequestCompatibility demo_models_data True demo_image [demo_target ''see'', demo_target ''act''] @
      fst (attemptCompatRejectedFallback (\<lambda>_. True) (\<lambda>_. False) (\<lambda>t. None :: unit option)
             (computeCompatRejectedTargets demo_models_data [demo_target ''see'', demo_target ''act''] [] demo_image)))"
    by (rule image_only_to_confirmed_vision)
  show "filterTargetsByRequestCompatibility demo_models_data True demo_image [demo_target ''see'', demo_target ''act''] = [demo_target ''see'']" by code_simp
qed

text \<open>
  The filter invents and loses nothing. What it returns are targets of the list; every target without a hard
  failure (tools, vision, structured output, output size) is among them, so the known context windows never remove a
  target; and if no target has a hard failure the result is the list in some order.
\<close>

theorem compat_filter_keeps_compatible:
  fixes md body
  defines "hard \<equiv> \<lambda>t. hasHardCapabilityFailure (getTargetCompatibilityFailures md (deriveRequestCompatibilityRequirements md body) t)"
  shows "{t \<in> set targets. \<not> hard t} \<subseteq> set (filterTargetsByRequestCompatibility md failOpen body targets) \<and>
         set (filterTargetsByRequestCompatibility md failOpen body targets) \<subseteq> set targets \<and>
         (filter hard targets = [] \<longrightarrow> mset (filterTargetsByRequestCompatibility md failOpen body targets) = mset targets)"
  using filter_bounds(1,2,4) [where md = md and body = body and failOpen = failOpen and targets = targets] unfolding hard_def by blast

theorem compat_filter_keeps_compatible_witness:
  "mset (filterTargetsByRequestCompatibility demo_models_data False [(''messages'', JArr [JStr ''hello''])] [demo_target ''act'', demo_target ''see'']) =
     mset [demo_target ''act'', demo_target ''see''] \<and>
   filterTargetsByRequestCompatibility demo_models_data False [(''messages'', JArr [JStr ''hello''])] [demo_target ''act'', demo_target ''see''] =
     [demo_target ''see'', demo_target ''act'']"
proof
  have "filter (\<lambda>t. hasHardCapabilityFailure (getTargetCompatibilityFailures demo_models_data
      (deriveRequestCompatibilityRequirements demo_models_data [(''messages'', JArr [JStr ''hello''])]) t)) [demo_target ''act'', demo_target ''see''] = []" by code_simp
  then show "mset (filterTargetsByRequestCompatibility demo_models_data False [(''messages'', JArr [JStr ''hello''])] [demo_target ''act'', demo_target ''see'']) =
     mset [demo_target ''act'', demo_target ''see'']"
    using compat_filter_keeps_compatible [of "[demo_target ''act'', demo_target ''see'']" demo_models_data "[(''messages'', JArr [JStr ''hello''])]" False] by blast
  show "filterTargetsByRequestCompatibility demo_models_data False [(''messages'', JArr [JStr ''hello''])] [demo_target ''act'', demo_target ''see''] =
     [demo_target ''see'', demo_target ''act'']" by code_simp
qed

text \<open>
  An empty pool is explained. When the filter leaves none of the targets, each of them has a hard failure, and the
  description of the exhaustion exists: its list of unmet requirements is not empty, every excluded target is named
  with reasons, and its message is about a requirement the request has.
\<close>

theorem empty_pool_explained:
  assumes "targets \<noteq> []" "filterTargetsByRequestCompatibility md failOpen body targets = []"
  shows "\<exists>e. describeCapabilityFilterExhaustion md targets body = Some e \<and> ex_unmet e \<noteq> [] \<and> length (ex_excluded e) = length targets \<and>
           list_all (\<lambda>(p, m, rs). hasHardCapabilityFailure rs) (ex_excluded e) \<and>
           (case ex_message e of No_tool_support n \<Rightarrow> requestRequiresTools body
            | No_vision_support \<Rightarrow> requiresVision (deriveRequestCompatibilityRequirements md body)
            | No_structured_output \<Rightarrow> requestRequiresStructuredOutput body
            | Output_limit n m \<Rightarrow> m < n)"
proof -
  define req where "req = deriveRequestCompatibilityRequirements md body"
  define reasons where "reasons = getTargetCompatibilityFailures md req"
  define unmet where "unmet = rev (remdups (rev (concat (map (\<lambda>t. filter (\<lambda>r. r \<in> HARD_COMPAT_REASONS) (reasons t)) targets))))"
  have hard: "hasHardCapabilityFailure (reasons t)" if "t \<in> set targets" for t
    using that filter_bounds(1) [where md = md and body = body and failOpen = failOpen and targets = targets] assms(2) by (auto simp: reasons_def req_def)
  have um: "set unmet = {r \<in> HARD_COMPAT_REASONS. \<exists>t \<in> set targets. r \<in> set (reasons t)}" by (auto simp: unmet_def)
  have "hd targets \<in> set targets" using assms(1) by simp
  from hard [OF this] have ne: "unmet \<noteq> []" using um \<open>hd targets \<in> set targets\<close> unfolding hasHardCapabilityFailure_def list_ex_iff by force
  define primary where "primary = (if F_tools \<in> set unmet then F_tools else if F_vision \<in> set unmet then F_vision else hd unmet)"
  have pr: "primary \<in> set unmet" using ne by (simp add: primary_def)
  then obtain t where t: "t \<in> set targets" "primary \<in> set (reasons t)" and ph: "primary \<in> HARD_COMPAT_REASONS" using um by blast
  let ?out = "filter (\<lambda>t. F_output_tokens \<in> set (reasons t)) targets"
  have msg: "case primary of F_tools \<Rightarrow> requiresTools req | F_vision \<Rightarrow> requiresVision req | F_structured_output \<Rightarrow> requiresStructuredOutput req
      | F_output_tokens \<Rightarrow> highestKnownOutputLimit md ?out < requestedOutputTokens req | F_context_window \<Rightarrow> False"
  proof (cases primary)
    case F_output_tokens
    then have "?out \<noteq> []" using t by (auto simp: filter_empty_conv)
    then have "highestKnownOutputLimit md ?out < requestedOutputTokens req"
      using failure_requirement [of F_output_tokens md req] by (intro highest_limit_below) (auto simp: reasons_def)
    then show ?thesis using F_output_tokens by simp
  qed (use failure_requirement [of primary md req t] t ph in \<open>auto simp: reasons_def HARD_COMPAT_REASONS_def\<close>)
  have shown: "list_all (\<lambda>(p, m, rs). hasHardCapabilityFailure rs) (map (\<lambda>t. (ct_provider t, ct_modelStr t, if reasons t = [] then [primary] else reasons t)) targets)"
    using hard ph by (auto simp: list_all_iff hasHardCapabilityFailure_def)
  have body: "requiresTools req = requestRequiresTools body" "requiresStructuredOutput req = requestRequiresStructuredOutput body"
    by (simp_all add: req_def deriveRequestCompatibilityRequirements_def Let_def)
  show ?thesis
    unfolding describeCapabilityFilterExhaustion_def Let_def req_def [symmetric] reasons_def [symmetric] unmet_def [symmetric] primary_def [symmetric]
    using ne assms(1) shown msg body by (cases primary) auto
qed

theorem empty_pool_explained_witness:
  "case describeCapabilityFilterExhaustion demo_models_data [demo_target ''see''] demo_tools of
     Some e \<Rightarrow> ex_unmet e = [F_tools] \<and> ex_message e = No_tool_support 1 | None \<Rightarrow> False"
proof -
  have "filterTargetsByRequestCompatibility demo_models_data False demo_tools [demo_target ''see''] = []" by code_simp
  then have "describeCapabilityFilterExhaustion demo_models_data [demo_target ''see''] demo_tools \<noteq> None"
    using empty_pool_explained [of "[demo_target ''see'']" demo_models_data False demo_tools] by auto
  moreover have "case describeCapabilityFilterExhaustion demo_models_data [demo_target ''see''] demo_tools of
     Some e \<Rightarrow> ex_unmet e = [F_tools] \<and> ex_message e = No_tool_support 1 | None \<Rightarrow> True" by code_simp
  ultimately show ?thesis by (auto split: option.splits)
qed

section \<open>Where the filter is not closed\<close>

text \<open>
  Without the fail-open option, a target known to lack tool calls still comes back for a request with tools: when the
  only compatible target has a window known to be too small, and when the request also has an image and no
  target fulfils both. An exhaustion of the output size alone fails closed.
\<close>

lemma tools_restored_for_small_window:
  "filterTargetsByRequestCompatibility demo_models_data False demo_tools [demo_target ''act'', demo_target ''see''] = [demo_target ''act'', demo_target ''see''] \<and>
   F_tools \<in> set (getTargetCompatibilityFailures demo_models_data (deriveRequestCompatibilityRequirements demo_models_data demo_tools) (demo_target ''see''))"
  by code_simp

lemma tools_ignored_with_image:
  "filterTargetsByRequestCompatibility demo_models_data False (demo_tools @ demo_image) [demo_target ''act'', demo_target ''see''] = [demo_target ''see''] \<and>
   F_tools \<in> set (getTargetCompatibilityFailures demo_models_data (deriveRequestCompatibilityRequirements demo_models_data (demo_tools @ demo_image)) (demo_target ''see''))"
  by code_simp

lemma output_only_exhaustion_fails_closed:
  "filterTargetsByRequestCompatibility demo_models_data False [(''max_tokens'', JNum (Fin 200))] [demo_target ''see''] = []"
  by code_simp

end
