(* ===== verification/Combo_Attempts.thy ===== *)
theory Combo_Attempts
  imports Combo_Structure Media_Parts
begin

text \<open>
  The attempts of a combo request: when to wait for a cooldown (\<^verbatim>\<open>comboCooldownRetry.ts\<close>), what a set of failures
  amounts to (\<^verbatim>\<open>comboErrorAggregation.ts\<close>, \<^verbatim>\<open>unavailableRetryGate.ts\<close>, the streak of \<^verbatim>\<open>comboPredicates.ts\<close>) and the loop over
  targets, set retries and cooldown waits of \<^verbatim>\<open>comboAttemptLoop.ts\<close>, without hedging. What a target does is an argument of
  the loop, as the two functions \<^verbatim>\<open>evaluateGates\<close> and \<^verbatim>\<open>executeAttempt\<close> are in the code; so are the timers and the
  lookups of locks. Waits are whole milliseconds.
\<close>

section \<open>Waiting for a cooldown\<close>

definition COMBO_COOLDOWN_NON_RETRYABLE_REASONS :: "string set" where
  "COMBO_COOLDOWN_NON_RETRYABLE_REASONS = {''quota_exhausted'', ''auth_error'', ''not_found'', ''not_found_local''}"

definition COMBO_COOLDOWN_RETRYABLE_REASONS :: "string set" where
  "COMBO_COOLDOWN_RETRYABLE_REASONS = {''rate_limit'', ''rate_limited'', ''transient'', ''overloaded'', ''server_error'', ''circuit_open''}"

definition COMBO_COOLDOWN_WAIT_MARGIN_MS :: int where
  "COMBO_COOLDOWN_WAIT_MARGIN_MS = 50"

record wait_settings =
  enabled :: bool
  maxWaitMs :: int
  maxAttempts :: int
  budgetMs :: int

record wait_decision =
  wd_wait :: bool
  wd_waitMs :: int
  wd_reason :: "string option"

text \<open>A number the code receives, absent when it is not a finite number.\<close>

definition toFiniteWaitMs :: "int option \<Rightarrow> int" where
  "toFiniteWaitMs v = (case v of Some n \<Rightarrow> if n > 0 then n else 0 | None \<Rightarrow> 0)"

definition isRetryableComboCooldownReason :: "string option \<Rightarrow> bool" where
  "isRetryableComboCooldownReason reason =
     (case reason of
        None \<Rightarrow> False
      | Some r \<Rightarrow> r \<noteq> [] \<and> r \<notin> COMBO_COOLDOWN_NON_RETRYABLE_REASONS \<and> r \<in> COMBO_COOLDOWN_RETRYABLE_REASONS)"

definition shouldWaitForComboCooldown :: "wait_settings \<Rightarrow> string option \<Rightarrow> int option \<Rightarrow> int \<Rightarrow> int \<Rightarrow> wait_decision" where
  "shouldWaitForComboCooldown settings reason wait attempt budgetLeftMs =
     (let waitMs = toFiniteWaitMs wait in
      \<lparr>wd_wait = (enabled settings \<and> isRetryableComboCooldownReason reason \<and> waitMs > 0 \<and> waitMs \<le> maxWaitMs settings \<and>
                  attempt < maxAttempts settings \<and> budgetLeftMs \<ge> waitMs),
       wd_waitMs = waitMs, wd_reason = reason\<rparr>)"

record lock_info =
  li_reason :: "string option"
  li_remainingMs :: "int option"

text \<open>The locked target that recovers first; of equal ones the first.\<close>

definition better_lock :: "lock_info \<Rightarrow> (string option \<times> int) option \<Rightarrow> (string option \<times> int) option" where
  "better_lock info best =
     (let remaining = toFiniteWaitMs (li_remainingMs info) in
      if remaining \<le> 0 then best
      else case best of
             None \<Rightarrow> Some (li_reason info, remaining)
           | Some (r, m) \<Rightarrow> if remaining < m then Some (li_reason info, remaining) else best)"

definition best_lock :: "(ctarget \<Rightarrow> lock_info option) \<Rightarrow> ctarget list \<Rightarrow> (string option \<times> int) option" where
  "best_lock lookupLock targets =
     fold (\<lambda>t best. if ct_provider t = [] then best else case lookupLock t of None \<Rightarrow> best | Some info \<Rightarrow> better_lock info best) targets None"

definition no_wait :: wait_decision where
  "no_wait = \<lparr>wd_wait = False, wd_waitMs = 0, wd_reason = None\<rparr>"

definition resolveComboCooldownWaitDecision ::
    "wait_settings \<Rightarrow> (ctarget \<Rightarrow> lock_info option) \<Rightarrow> int option \<Rightarrow> ctarget list \<Rightarrow> int \<Rightarrow> int \<Rightarrow> wait_decision" where
  "resolveComboCooldownWaitDecision settings lookupLock hint targets attempt budgetLeftMs =
     (if \<not> enabled settings then no_wait
      else case best_lock lookupLock targets of
             None \<Rightarrow> no_wait
           | Some (reason, remaining) \<Rightarrow>
               shouldWaitForComboCooldown settings reason (Some (max remaining (toFiniteWaitMs hint) + COMBO_COOLDOWN_WAIT_MARGIN_MS)) attempt budgetLeftMs)"

definition resolveCircuitOpenWaitDecision :: "wait_settings \<Rightarrow> bool \<Rightarrow> int option \<Rightarrow> int \<Rightarrow> int \<Rightarrow> wait_decision" where
  "resolveCircuitOpenWaitDecision settings skippedForCircuitOpen retryAfter attempt budgetLeftMs =
     (if \<not> enabled settings \<or> \<not> skippedForCircuitOpen \<or> toFiniteWaitMs retryAfter \<le> 0 then no_wait
      else shouldWaitForComboCooldown settings (Some ''circuit_open'') (Some (toFiniteWaitMs retryAfter + COMBO_COOLDOWN_WAIT_MARGIN_MS)) attempt budgetLeftMs)"

section \<open>Failures\<close>

datatype outcome_kind = O_quality | O_auth | O_rate_limit | O_model | O_provider | O_timeout | O_skipped | O_upstream

record error_entry =
  ee_model :: string
  ee_status :: int
  ee_error :: string
  ee_kind :: outcome_kind

text \<open>The pattern of errors that sound like authentication, in lower case; any text with ``auth'' matches.\<close>

definition gap_then :: "(string \<Rightarrow> bool) \<Rightarrow> string \<Rightarrow> bool" where
  "gap_then P s \<longleftrightarrow> P s \<or> s \<noteq> [] \<and> hd s \<noteq> CHR 0x0A \<and> hd s \<noteq> CHR 0x0D \<and> P (tl s)"

definition invalid_key_here :: "string \<Rightarrow> bool" where
  "invalid_key_here s \<longleftrightarrow>
     starts ''invalid'' s \<and> gap_then (\<lambda>r. starts ''api'' r \<and> gap_then (starts ''key'') (drop 3 r)) (drop 7 s)"

definition sounds_like_auth :: "string \<Rightarrow> bool" where
  "sounds_like_auth text =
     (let t = toLowerCase text in list_ex (\<lambda>i. starts ''auth'' (drop i t) \<or> invalid_key_here (drop i t)) [0..<length t])"

definition classifyComboOutcome :: "int \<Rightarrow> string \<Rightarrow> outcome_kind" where
  "classifyComboOutcome status errorText =
     (if status = 401 \<or> status = 403 \<or> sounds_like_auth errorText then O_auth
      else if status = 429 then O_rate_limit
      else if status = 408 \<or> status = 499 then O_timeout
      else if status \<ge> 500 then O_provider
      else O_model)"

definition resolveComboTerminalStatus :: "error_entry list \<Rightarrow> int \<Rightarrow> int" where
  "resolveComboTerminalStatus entries fallbackStatus =
     (if entries = [] then fallbackStatus
      else if list_all (\<lambda>e. ee_kind e = O_model \<and> ee_status e \<ge> 400 \<and> ee_status e < 500) entries then ee_status (last entries)
      else if length (remdups (map ee_kind entries)) = 1 then ee_status (last entries)
      else if list_ex (\<lambda>e. ee_kind e = O_timeout) entries then 504 else 502)"

definition isRetryAfterEligibleStatus :: "int \<Rightarrow> bool" where
  "isRetryAfterEligibleStatus status \<longleftrightarrow> status \<in> {429, 503}"

definition IDENTICAL_MODEL_ERROR_STREAK :: nat where
  "IDENTICAL_MODEL_ERROR_STREAK = 3"

definition hasIdenticalModelErrorStreak :: "error_entry list \<Rightarrow> bool" where
  "hasIdenticalModelErrorStreak errors =
     (if length errors < IDENTICAL_MODEL_ERROR_STREAK then False
      else case drop (length errors - IDENTICAL_MODEL_ERROR_STREAK) errors of
             [] \<Rightarrow> False
           | first # rest \<Rightarrow>
               ee_kind first = O_model \<and>
               list_all (\<lambda>e. ee_kind e = ee_kind first \<and> ee_status e = ee_status first \<and> ee_error e = ee_error first) rest)"

section \<open>The loop\<close>

text \<open>
  \<open>'w\<close> is whatever else the attempts read and write. A target's result is the pair of the code (\<^verbatim>\<open>null\<close>, or \<^verbatim>\<open>ok\<close> with a
  response, or not ok with or without one), or an exception.
\<close>

record 'w loop_state =
  orderedTargets :: "ctarget list"
  exhaustedProviders :: "string set"
  exhaustedConnections :: "string set"
  transientRateLimitedProviders :: "string set"
  fallbackCount :: nat
  recordedAttempts :: nat
  lastError :: "string option"
  comboErrors :: "error_entry list"
  lastStatus :: "int option"
  earliestRetryAfter :: "int option"
  comboExpired :: bool
  skippedForCircuitOpen :: bool
  earliestCircuitOpenRetryMs :: int
  requestScopedFailureSeen :: bool
  rejectedModelKeys :: "string list"
  world :: 'w

datatype 'r attempt = X_null | X_ok 'r | X_failed "'r option" | X_throws

datatype 'r reply =
    Upstream 'r | Thrown_502 | Safety_504 | Timeout_504 | Aborted_499 | All_skipped int | All_inactive int
  | Unavailable int int | Failed int

record ('w, 'r) loop_env =
  execute :: "nat \<Rightarrow> 'w loop_state \<Rightarrow> 'r attempt \<times> 'w loop_state"
  safety_fires :: "nat \<Rightarrow> 'w loop_state \<Rightarrow> bool"
  over_time :: "nat \<Rightarrow> 'w loop_state \<Rightarrow> bool"
  replayKey :: "string \<Rightarrow> string"
  aborted_in_delay :: "'w loop_state \<Rightarrow> bool"
  wait_completes :: "int \<Rightarrow> 'w loop_state \<Rightarrow> bool"
  lookup_lock :: "'w loop_state \<Rightarrow> ctarget \<Rightarrow> lock_info option"
  wait_hint :: "'w loop_state \<Rightarrow> int option"
  rate_limited_until :: "'w loop_state \<Rightarrow> int option"
  circuit_reply :: "'w loop_state \<Rightarrow> int option"
  waitSettings :: wait_settings
  waitEnabled :: bool
  maxSetRetries :: nat

datatype 'r set_result = Won "'r reply" | Lost bool

text \<open>One pass over the targets from position \<open>i\<close>; the flag of \<open>Lost\<close> is \<^verbatim>\<open>comboRequestMalformed\<close>, the list the targets launched.\<close>

fun try_targets :: "('w, 'r) loop_env \<Rightarrow> (nat \<times> ctarget) list \<Rightarrow> 'w loop_state \<Rightarrow> 'r set_result \<times> nat list \<times> 'w loop_state" where
  "try_targets env [] s = (Lost False, [], s)"
| "try_targets env ((i, t) # ts) s =
     (if comboExpired s then (Lost False, [], s)
      else if replayKey env (ct_modelStr t) \<in> set (rejectedModelKeys s) then try_targets env ts s
      else
        (case execute env i s of
           (res, s1) \<Rightarrow>
             if safety_fires env i s then (Won Safety_504, [i], s1\<lparr>comboExpired := True\<rparr>)
             else
               (case res of
                  X_ok r \<Rightarrow> (Won (Upstream r), [i], s1)
                | X_failed (Some r) \<Rightarrow> (Won (Upstream r), [i], s1)
                | X_throws \<Rightarrow> (Won Thrown_502, [i], s1)
                | _ \<Rightarrow>
                    (let s2 = (if over_time env i s1 then s1\<lparr>comboExpired := True\<rparr> else s1) in
                     if \<not> comboExpired s2 \<and> hasIdenticalModelErrorStreak (comboErrors s2) then (Lost True, [i], s2)
                     else case try_targets env ts s2 of (v, is, s3) \<Rightarrow> (v, i # is, s3)))))"

text \<open>The passes of one dispatch: \<open>n\<close> are left after this one.\<close>

definition start_set :: "'w loop_state \<Rightarrow> 'w loop_state" where
  "start_set s = s\<lparr>exhaustedProviders := {}, exhaustedConnections := {}, transientRateLimitedProviders := {}, fallbackCount := 0,
     recordedAttempts := 0, comboErrors := [], skippedForCircuitOpen := False, earliestCircuitOpenRetryMs := 0\<rparr>"

fun try_sets :: "('w, 'r) loop_env \<Rightarrow> nat \<Rightarrow> 'w loop_state \<Rightarrow> 'r set_result \<times> nat list \<times> 'w loop_state" where
  "try_sets env n s =
     (let s0 = start_set s in
      case try_targets env (enumerate 0 (orderedTargets s0)) s0 of
        (Won r, is, s1) \<Rightarrow> (Won r, is, s1)
      | (Lost malformed, is, s1) \<Rightarrow>
          if comboExpired s1 then (Won Timeout_504, is, s1)
          else if malformed \<or> requestScopedFailureSeen s1 then (Lost malformed, is, s1)
          else (case n of
                  0 \<Rightarrow> (Lost malformed, is, s1)
                | Suc m \<Rightarrow>
                    if aborted_in_delay env s1 then (Won Aborted_499, is, s1)
                    else case try_sets env m s1 of (v, js, s2) \<Rightarrow> (v, is @ js, s2)))"

text \<open>The reply when everything failed and no wait is due.\<close>

definition give_up :: "('w, 'r) loop_env \<Rightarrow> 'w loop_state \<Rightarrow> 'r reply" where
  "give_up env s =
     (case lastStatus s of
        None \<Rightarrow>
          if recordedAttempts s = 0
          then (case (if skippedForCircuitOpen s then circuit_reply env s else None) of
                  Some st \<Rightarrow> All_skipped st
                | None \<Rightarrow> All_skipped (if rate_limited_until env s \<noteq> None then 429 else 503))
          else All_inactive (if rate_limited_until env s \<noteq> None then 429 else 503)
      | Some st0 \<Rightarrow>
          (let st = resolveComboTerminalStatus (comboErrors s) st0 in
           case earliestRetryAfter s of
             Some ra \<Rightarrow> if isRetryAfterEligibleStatus st then Unavailable st ra else Failed st
           | None \<Rightarrow> Failed st))"

definition cooldown_decision :: "('w, 'r) loop_env \<Rightarrow> int \<Rightarrow> int \<Rightarrow> 'w loop_state \<Rightarrow> wait_decision" where
  "cooldown_decision env attempt budget s =
     (if \<not> waitEnabled env then no_wait
      else case lastStatus s of
             None \<Rightarrow>
               if recordedAttempts s = 0
               then resolveCircuitOpenWaitDecision (waitSettings env) (skippedForCircuitOpen s) (Some (earliestCircuitOpenRetryMs s)) attempt budget
               else no_wait
           | Some st \<Rightarrow>
               if earliestRetryAfter s = None then no_wait
               else resolveComboCooldownWaitDecision (waitSettings env) (lookup_lock env s) (wait_hint env s) (orderedTargets s) attempt budget)"

record 'r loop_log =
  ll_reply :: "'r reply"
  ll_waits :: "wait_decision list"
  ll_launched :: "nat list"

definition fresh_dispatch :: "'w loop_state \<Rightarrow> 'w loop_state" where
  "fresh_dispatch s = s\<lparr>lastError := None, lastStatus := None, earliestRetryAfter := None, skippedForCircuitOpen := False,
     earliestCircuitOpenRetryMs := 0\<rparr>"

function dispatchWithCooldownRetry :: "('w, 'r) loop_env \<Rightarrow> int \<Rightarrow> int \<Rightarrow> 'w loop_state \<Rightarrow> 'r loop_log" where
  "dispatchWithCooldownRetry env attempt budget s =
     (case try_sets env (maxSetRetries env) (fresh_dispatch s) of
        (Won r, is, s1) \<Rightarrow> \<lparr>ll_reply = r, ll_waits = [], ll_launched = is\<rparr>
      | (Lost malformed, is, s1) \<Rightarrow>
          (let d = cooldown_decision env attempt budget s1 in
           if wd_wait d then
             (if wait_completes env (wd_waitMs d) s1 then
                (let l = dispatchWithCooldownRetry env (attempt + 1) (max 0 (budget - wd_waitMs d)) s1
                 in l\<lparr>ll_waits := d # ll_waits l, ll_launched := is @ ll_launched l\<rparr>)
              else \<lparr>ll_reply = Aborted_499, ll_waits = [d], ll_launched = is\<rparr>)
           else \<lparr>ll_reply = give_up env s1, ll_waits = [], ll_launched = is\<rparr>))"
  by pat_completeness auto
termination
proof (relation "measure (\<lambda>(env, attempt, budget, s). nat (maxAttempts (waitSettings env) - attempt))")
  fix env :: "('a, 'b) loop_env" and attempt budget s a b x1 x2 aa ba xa
  assume "xa = cooldown_decision env attempt budget ba" "wd_wait xa"
  then have "attempt < maxAttempts (waitSettings env)"
    by (auto simp: cooldown_decision_def resolveCircuitOpenWaitDecision_def resolveComboCooldownWaitDecision_def
        shouldWaitForComboCooldown_def no_wait_def Let_def split: if_splits option.splits prod.splits)
  then show "((env, attempt + 1, max 0 (budget - wd_waitMs xa), ba), env, attempt, budget, s)
      \<in> measure (\<lambda>(env, attempt, budget, s). nat (maxAttempts (waitSettings env) - attempt))" by simp
qed simp

declare dispatchWithCooldownRetry.simps [simp del]

section \<open>Waits\<close>

definition wait_ok :: "wait_settings \<Rightarrow> wait_decision \<Rightarrow> bool" where
  "wait_ok settings d \<longleftrightarrow>
     wd_wait d \<and> 0 < wd_waitMs d \<and> wd_waitMs d \<le> maxWaitMs settings \<and>
     (\<exists>r \<in> COMBO_COOLDOWN_RETRYABLE_REASONS - COMBO_COOLDOWN_NON_RETRYABLE_REASONS. wd_reason d = Some r)"

lemma should_wait_ok:
  assumes "wd_wait (shouldWaitForComboCooldown st reason w attempt budget)"
  shows "wait_ok st (shouldWaitForComboCooldown st reason w attempt budget) \<and> attempt < maxAttempts st \<and>
         wd_waitMs (shouldWaitForComboCooldown st reason w attempt budget) \<le> budget"
  using assms by (auto simp: shouldWaitForComboCooldown_def wait_ok_def isRetryableComboCooldownReason_def Let_def split: option.splits)

lemma cooldown_decision_ok:
  assumes "wd_wait (cooldown_decision env attempt budget s)"
  shows "wait_ok (waitSettings env) (cooldown_decision env attempt budget s) \<and> attempt < maxAttempts (waitSettings env) \<and>
         wd_waitMs (cooldown_decision env attempt budget s) \<le> budget"
proof -
  have "\<not> wd_wait no_wait" by (simp add: no_wait_def)
  then obtain reason w where "cooldown_decision env attempt budget s = shouldWaitForComboCooldown (waitSettings env) reason w attempt budget"
    using assms unfolding cooldown_decision_def resolveCircuitOpenWaitDecision_def resolveComboCooldownWaitDecision_def
    by (auto split: if_splits option.splits prod.splits)
  then show ?thesis using assms should_wait_ok by metis
qed

section \<open>Launches\<close>

text \<open>Attempts do not replace the list of targets.\<close>

definition keeps_targets :: "('w, 'r) loop_env \<Rightarrow> bool" where
  "keeps_targets env \<longleftrightarrow> (\<forall>i s. orderedTargets (snd (execute env i s)) = orderedTargets s)"

definition answers :: "'r attempt \<Rightarrow> 'r reply \<Rightarrow> bool" where
  "answers x r \<longleftrightarrow> (case r of Upstream y \<Rightarrow> x = X_ok y \<or> x = X_failed (Some y) | Thrown_502 \<Rightarrow> x = X_throws | Safety_504 \<Rightarrow> True | _ \<Rightarrow> False)"

lemma try_targets_Cons_cases:
  assumes "try_targets env ((i, t) # ts) s = (v, is, s')" "execute env i s = (res, s1)"
  obtains (stop) "v = Lost False" "is = []" "s' = s"
    | (skip) "try_targets env ts s = (v, is, s')"
    | (won) r where "v = Won r" "is = [i]" "answers res r" "orderedTargets s' = orderedTargets s1"
    | (malformed) "v = Lost True" "is = [i]" "orderedTargets s' = orderedTargets s1"
    | (more) s2 js where "try_targets env ts s2 = (v, js, s')" "is = i # js" "orderedTargets s2 = orderedTargets s1"
proof -
  define s2 where "s2 = (if over_time env i s1 then s1\<lparr>comboExpired := True\<rparr> else s1)"
  have s2: "orderedTargets s2 = orderedTargets s1" by (simp add: s2_def)
  obtain v2 is2 s3 where rest: "try_targets env ts s2 = (v2, is2, s3)" by (cases "try_targets env ts s2") auto
  let ?lost = "if \<not> comboExpired s2 \<and> hasIdenticalModelErrorStreak (comboErrors s2) then (Lost True, [i], s2) else (v2, i # is2, s3)"
  have eq: "(v, is, s') = (if comboExpired s then (Lost False, [], s)
      else if replayKey env (ct_modelStr t) \<in> set (rejectedModelKeys s) then try_targets env ts s
      else if safety_fires env i s then (Won Safety_504, [i], s1\<lparr>comboExpired := True\<rparr>)
      else case res of X_ok r \<Rightarrow> (Won (Upstream r), [i], s1) | X_failed (Some r) \<Rightarrow> (Won (Upstream r), [i], s1)
           | X_throws \<Rightarrow> (Won Thrown_502, [i], s1) | _ \<Rightarrow> ?lost)"
    using assms(1) [symmetric] unfolding try_targets.simps assms(2) Let_def prod.case s2_def [symmetric] rest .
  have lost: thesis if "(v, is, s') = ?lost"
  proof (cases "\<not> comboExpired s2 \<and> hasIdenticalModelErrorStreak (comboErrors s2)")
    case True
    then have "v = Lost True" "is = [i]" "s' = s2" using that by simp_all
    then show thesis using malformed s2 by simp
  next
    case False
    then have "v = v2" "is = i # is2" "s' = s3" using that by (simp_all only: if_False prod.inject)
    then show thesis using more rest s2 by simp
  qed
  consider "comboExpired s" | "\<not> comboExpired s" "replayKey env (ct_modelStr t) \<in> set (rejectedModelKeys s)"
    | "\<not> comboExpired s" "replayKey env (ct_modelStr t) \<notin> set (rejectedModelKeys s)" "safety_fires env i s"
    | "\<not> comboExpired s" "replayKey env (ct_modelStr t) \<notin> set (rejectedModelKeys s)" "\<not> safety_fires env i s" by blast
  then show thesis
  proof cases
    case 1
    then show thesis using eq stop by simp
  next
    case 2
    then show thesis using eq skip by simp
  next
    case 3
    then show thesis using eq won [of Safety_504] by (simp add: answers_def)
  next
    case 4
    then have *: "(v, is, s') = (case res of X_ok r \<Rightarrow> (Won (Upstream r), [i], s1) | X_failed (Some r) \<Rightarrow> (Won (Upstream r), [i], s1)
           | X_throws \<Rightarrow> (Won Thrown_502, [i], s1) | _ \<Rightarrow> ?lost)" using eq by (simp only: if_False)
    show thesis
    proof (cases res)
      case (X_ok r)
      then show thesis using * won [of "Upstream r"] by (simp add: answers_def)
    next
      case (X_failed ro)
      then show thesis using * won lost by (cases ro) (simp_all add: answers_def del: if_split)
    next
      case X_throws
      then show thesis using * won [of Thrown_502] by (simp add: answers_def)
    next
      case X_null
      then show thesis using * lost by (simp del: if_split)
    qed
  qed
qed

text \<open>Where a reply that ends the loop comes from: the last target launched, or a limit of time.\<close>

definition reply_origin :: "('w, 'r) loop_env \<Rightarrow> nat list \<Rightarrow> 'r reply \<Rightarrow> bool" where
  "reply_origin env is r \<longleftrightarrow> r = Timeout_504 \<or> r = Aborted_499 \<or> is \<noteq> [] \<and> (\<exists>s. answers (fst (execute env (last is) s)) r)"

lemma reply_origin_append: "reply_origin env js r \<Longrightarrow> reply_origin env (is @ js) r"
  by (auto simp: reply_origin_def)

lemma try_targets_run:
  assumes "keeps_targets env"
  shows "try_targets env ts s = (v, is, s') \<Longrightarrow>
    length is \<le> length ts \<and> orderedTargets s' = orderedTargets s \<and> (\<forall>r. v = Won r \<longrightarrow> reply_origin env is r)"
proof (induction ts arbitrary: s v "is" s')
  case (Cons p ts)
  obtain i t where p: "p = (i, t)" by fastforce
  obtain res s1 where e: "execute env i s = (res, s1)" by fastforce
  have k: "orderedTargets s1 = orderedTargets s" using assms e unfolding keeps_targets_def by (metis snd_conv)
  show ?case using Cons.prems [unfolded p] e
  proof (cases rule: try_targets_Cons_cases)
    case skip
    then show ?thesis using Cons.IH [OF skip] by auto
  next
    case (won r)
    then show ?thesis using k e by (auto simp: reply_origin_def intro!: exI [of _ s])
  next
    case (more s2 js)
    then show ?thesis using Cons.IH [OF more(1)] k reply_origin_append [of env js _ "[i]"] by auto
  qed (use k in auto)
qed simp

declare try_sets.simps [simp del]

lemma try_sets_run:
  assumes "keeps_targets env"
  shows "try_sets env n s = (v, is, s') \<Longrightarrow>
    length is \<le> (n + 1) * length (orderedTargets s) \<and> orderedTargets s' = orderedTargets s \<and> (\<forall>r. v = Won r \<longrightarrow> reply_origin env is r)"
proof (induction n arbitrary: s v "is" s')
  case 0
  obtain v1 is1 s1 where t: "try_targets env (enumerate 0 (orderedTargets (start_set s))) (start_set s) = (v1, is1, s1)" by (metis prod_cases3)
  have "orderedTargets (start_set s) = orderedTargets s" by (simp add: start_set_def)
  then show ?case using 0 try_targets_run [OF assms t] t
    by (cases v1) (auto simp: try_sets.simps [of env 0] reply_origin_def split: if_splits)
next
  case (Suc n)
  obtain v1 is1 s1 where t: "try_targets env (enumerate 0 (orderedTargets (start_set s))) (start_set s) = (v1, is1, s1)" by (metis prod_cases3)
  obtain v2 is2 s2 where m: "try_sets env n s1 = (v2, is2, s2)" by (metis prod_cases3)
  have o': "orderedTargets (start_set s) = orderedTargets s" by (simp add: start_set_def)
  have r1: "length is1 \<le> length (orderedTargets s)" "orderedTargets s1 = orderedTargets s" "\<And>r. v1 = Won r \<Longrightarrow> reply_origin env is1 r"
    using try_targets_run [OF assms t] o' by auto
  have eq: "(v, is, s') = (case v1 of Won r \<Rightarrow> (Won r, is1, s1)
      | Lost malformed \<Rightarrow> if comboExpired s1 then (Won Timeout_504, is1, s1)
          else if malformed \<or> requestScopedFailureSeen s1 then (Lost malformed, is1, s1)
          else if aborted_in_delay env s1 then (Won Aborted_499, is1, s1) else (v2, is1 @ is2, s2))"
    using Suc.prems [symmetric] unfolding try_sets.simps [of env "Suc n"] Let_def t m prod.case nat.case by (cases v1) (simp_all only: set_result.case prod.case)
  have r2: "length is2 \<le> (n + 1) * length (orderedTargets s)" "orderedTargets s2 = orderedTargets s" "\<And>r. v2 = Won r \<Longrightarrow> reply_origin env is2 r"
    using Suc.IH [OF m] r1(2) by auto
  have lim: "reply_origin env is1 Timeout_504" "reply_origin env is1 Aborted_499" by (simp_all add: reply_origin_def)
  have app: "reply_origin env (is1 @ is2) r" if "v2 = Won r" for r using reply_origin_append r2(3) [OF that] by blast
  show ?case using eq r1 r2(1,2) lim app by (cases v1) (auto split: if_splits)
qed

lemma dispatch_run:
  assumes "keeps_targets env" "l = dispatchWithCooldownRetry env attempt budget s"
  shows "list_all (wait_ok (waitSettings env)) (ll_waits l) \<and> int (length (ll_waits l)) \<le> max 0 (maxAttempts (waitSettings env) - attempt) \<and>
    sum_list (map wd_waitMs (ll_waits l)) \<le> max 0 budget \<and>
    length (ll_launched l) \<le> (length (ll_waits l) + 1) * ((maxSetRetries env + 1) * length (orderedTargets s)) \<and>
    (\<forall>x. ll_reply l = Upstream x \<longrightarrow> ll_launched l \<noteq> [] \<and> (\<exists>s. answers (fst (execute env (last (ll_launched l)) s)) (Upstream x)))"
  using assms
proof (induction env attempt budget s arbitrary: l rule: dispatchWithCooldownRetry.induct)
  case (1 env attempt budget s)
  obtain v "is" s1 where t: "try_sets env (maxSetRetries env) (fresh_dispatch s) = (v, is, s1)" by (metis prod_cases3)
  have o': "orderedTargets (fresh_dispatch s) = orderedTargets s" by (simp add: fresh_dispatch_def)
  have run: "length is \<le> (maxSetRetries env + 1) * length (orderedTargets s)" "orderedTargets s1 = orderedTargets s" "\<And>r. v = Won r \<Longrightarrow> reply_origin env is r"
    using try_sets_run [OF 1(2) t] o' by auto
  show ?case
  proof (cases v)
    case (Won r)
    have "l = \<lparr>ll_reply = r, ll_waits = [], ll_launched = is\<rparr>" using 1(3) t Won by (simp add: dispatchWithCooldownRetry.simps [of env attempt])
    then show ?thesis using run(1) run(3) [OF Won] by (auto simp: reply_origin_def)
  next
    case (Lost malformed)
    define d where "d = cooldown_decision env attempt budget s1"
    have l: "l = (if wd_wait d then
             (if wait_completes env (wd_waitMs d) s1 then
                (let l = dispatchWithCooldownRetry env (attempt + 1) (max 0 (budget - wd_waitMs d)) s1
                 in l\<lparr>ll_waits := d # ll_waits l, ll_launched := is @ ll_launched l\<rparr>)
              else \<lparr>ll_reply = Aborted_499, ll_waits = [d], ll_launched = is\<rparr>)
           else \<lparr>ll_reply = give_up env s1, ll_waits = [], ll_launched = is\<rparr>)"
      using 1(3) t Lost by (subst (asm) dispatchWithCooldownRetry.simps) (simp add: d_def [symmetric] Let_def)
    have up: "give_up env s1 \<noteq> Upstream x" for x by (auto simp: give_up_def Let_def split: option.splits)
    show ?thesis
    proof (cases "wd_wait d")
      case False
      then show ?thesis using l run(1) up by simp
    next
      case True
      note ok = cooldown_decision_ok [of env attempt budget s1, folded d_def, OF True]
      show ?thesis
      proof (cases "wait_completes env (wd_waitMs d) s1")
        case False
        then show ?thesis using l True ok run(1) by (simp add: le_max_iff_disj)
      next
        case w: True
        define m where "m = dispatchWithCooldownRetry env (attempt + 1) (max 0 (budget - wd_waitMs d)) s1"
        have ll: "l = m\<lparr>ll_waits := d # ll_waits m, ll_launched := is @ ll_launched m\<rparr>" using l True w by (simp add: m_def Let_def)
        note IH = 1(1) [OF t [symmetric] Lost refl d_def True w 1(2) m_def]
        show ?thesis using IH ok run ll by (auto simp: algebra_simps)
      qed
    qed
  qed
qed

section \<open>The status of a failed combo\<close>

definition one_kind :: "error_entry list \<Rightarrow> bool" where
  "one_kind es \<longleftrightarrow> list_all (\<lambda>e. ee_kind e = ee_kind (last es)) es"

lemma one_kind_iff: "es \<noteq> [] \<Longrightarrow> one_kind es \<longleftrightarrow> ee_kind ` set es = {ee_kind (last es)}"
  using last_in_set [of es] unfolding one_kind_def list_all_iff by (metis image_constant_conv image_cong empty_iff empty_set image_eqI singletonD)

lemma one_kind_remdups:
  assumes "es \<noteq> []"
  shows "one_kind es \<longleftrightarrow> length (remdups (map ee_kind es)) = 1"
proof -
  have "ee_kind (last es) \<in> ee_kind ` set es" using assms by simp
  then have "card (ee_kind ` set es) = 1 \<longleftrightarrow> ee_kind ` set es = {ee_kind (last es)}" by (metis card_1_singletonE is_singletonI is_singleton_altdef singletonD)
  then show ?thesis by (simp add: one_kind_iff [OF assms] length_remdups_card_conv)
qed

lemma terminal_status_homogeneous: "es \<noteq> [] \<Longrightarrow> one_kind es \<Longrightarrow> resolveComboTerminalStatus es st = ee_status (last es)"
  by (simp add: resolveComboTerminalStatus_def one_kind_remdups)

lemma terminal_status_mixed:
  assumes "es \<noteq> []" "\<not> one_kind es"
  shows "resolveComboTerminalStatus es st = (if O_timeout \<in> ee_kind ` set es then 504 else 502)"
proof -
  have "\<not> list_all (\<lambda>e. ee_kind e = O_model \<and> ee_status e \<ge> 400 \<and> ee_status e < 500) es"
    using assms last_in_set [OF assms(1)] by (metis (mono_tags, lifting) list_all_iff one_kind_def)
  moreover have "list_ex (\<lambda>e. ee_kind e = O_timeout) es \<longleftrightarrow> O_timeout \<in> ee_kind ` set es" unfolding list_ex_iff image_iff by metis
  ultimately show ?thesis using assms by (simp add: resolveComboTerminalStatus_def one_kind_remdups)
qed

section \<open>Properties\<close>


text \<open>One target that is rate limited for two seconds and then answers.\<close>

definition demo_loop_target :: ctarget where
  "demo_loop_target = \<lparr>ct_stepId = ''a'', ct_executionKey = ''a'', ct_modelStr = ''p/m'', ct_provider = ''p'', ct_providerId = None,
     ct_connectionId = None, ct_allowed = [], ct_weight = 0, ct_label = None, ct_prompt = None, ct_quotaOnly = False\<rparr>"

definition demo_execute :: "nat \<Rightarrow> nat loop_state \<Rightarrow> nat attempt \<times> nat loop_state" where
  "demo_execute i s =
     (if world s = 0
      then (X_null, s\<lparr>world := 1, lastStatus := Some 429, earliestRetryAfter := Some 2000, recordedAttempts := 1,
                      comboErrors := comboErrors s @ [\<lparr>ee_model = ''p/m'', ee_status = 429, ee_error = ''slow down'', ee_kind = O_rate_limit\<rparr>]\<rparr>)
      else (X_ok 7, s))"

definition demo_env :: "(nat, nat) loop_env" where
  "demo_env = \<lparr>execute = demo_execute, safety_fires = (\<lambda>i s. False), over_time = (\<lambda>i s. False), replayKey = (\<lambda>m. m),
     aborted_in_delay = (\<lambda>s. False), wait_completes = (\<lambda>w s. True),
     lookup_lock = (\<lambda>s t. Some \<lparr>li_reason = Some ''rate_limit'', li_remainingMs = Some 1800\<rparr>), wait_hint = (\<lambda>s. Some 2000),
     rate_limited_until = (\<lambda>s. None), circuit_reply = (\<lambda>s. None),
     waitSettings = \<lparr>enabled = True, maxWaitMs = 5000, maxAttempts = 2, budgetMs = 8000\<rparr>, waitEnabled = True, maxSetRetries = 0\<rparr>"

definition demo_loop :: "nat loop_state" where
  "demo_loop = \<lparr>orderedTargets = [demo_loop_target], exhaustedProviders = {}, exhaustedConnections = {}, transientRateLimitedProviders = {},
     fallbackCount = 0, recordedAttempts = 0, lastError = None, comboErrors = [], lastStatus = None, earliestRetryAfter = None,
     comboExpired = False, skippedForCircuitOpen = False, earliestCircuitOpenRetryMs = 0, requestScopedFailureSeen = False,
     rejectedModelKeys = [], world = 0\<rparr>"



definition demo_mixed :: "nat loop_state" where
  "demo_mixed = demo_loop\<lparr>lastStatus := Some 401, earliestRetryAfter := Some 2000,
     comboErrors := [\<lparr>ee_model = ''p/m'', ee_status = 429, ee_error = ''slow down'', ee_kind = O_rate_limit\<rparr>,
                     \<lparr>ee_model = ''q/m'', ee_status = 401, ee_error = ''bad key'', ee_kind = O_auth\<rparr>]\<rparr>"


end
