(* ===== verification/Evicting_Store.thy ===== *)
theory Evicting_Store
  imports Js_Prelude
begin

text \<open>
  The in-memory tables of the combo code: a map whose entries carry the time of their last use, swept of expired
  entries before an insertion and then cut down to a cap, oldest first. \<^verbatim>\<open>failureTracker.ts\<close> and \<^verbatim>\<open>sessionStickiness.ts\<close>
  both write this loop out; the locale is what they rely on.
\<close>

section \<open>The loop\<close>

text \<open>The key with the least time, the first of several.\<close>

definition oldest :: "('v \<Rightarrow> int) \<Rightarrow> ('k, 'v) jmap \<Rightarrow> ('k \<times> int) option" where
  "oldest stamp m =
     fold (\<lambda>(k, e) best. case best of None \<Rightarrow> Some (k, stamp e) | Some (k', t) \<Rightarrow> if stamp e < t then Some (k, stamp e) else best) m None"

lemma oldest_fold:
  "fold (\<lambda>(k, e) best. case best of None \<Rightarrow> Some (k, stamp e) | Some (k', t) \<Rightarrow> if stamp e < t then Some (k, stamp e) else best) m (Some (k0, t0)) = Some (k, t) \<Longrightarrow>
   ((k, t) = (k0, t0) \<or> (\<exists>e. (k, e) \<in> set m \<and> stamp e = t)) \<and> t \<le> t0 \<and> (\<forall>(k', e') \<in> set m. t \<le> stamp e')"
  for stamp :: "'v \<Rightarrow> int"
proof (induction m arbitrary: k0 t0)
  case (Cons p m)
  obtain a e where p: "p = (a, e)" by fastforce
  show ?case
  proof (cases "stamp e < t0")
    case True
    then have "fold (\<lambda>(k, e) best. case best of None \<Rightarrow> Some (k, stamp e) | Some (k', t) \<Rightarrow> if stamp e < t then Some (k, stamp e) else best) m (Some (a, stamp e)) = Some (k, t)"
      using Cons.prems by (simp add: p)
    then show ?thesis using Cons.IH [of a "stamp e"] True by (auto simp: p)
  next
    case False
    then show ?thesis using Cons.IH [of k0 t0] Cons.prems by (auto simp: p)
  qed
qed simp

lemma oldest_fold_Some:
  "\<exists>k t. fold (\<lambda>(k, e) best. case best of None \<Rightarrow> Some (k, stamp e) | Some (k', t) \<Rightarrow> if stamp e < t then Some (k, stamp e) else best) m (Some (k0, t0)) = Some (k, t)"
proof (induction m arbitrary: k0 t0)
  case (Cons p m)
  then show ?case by (cases p; cases "stamp (snd p) < t0") simp_all
qed simp

lemma oldest_Some:
  assumes "oldest stamp m = Some (k, t)"
  obtains e where "(k, e) \<in> set m" "stamp e = t" "\<forall>(k', e') \<in> set m. t \<le> stamp e'"
proof (cases m)
  case (Cons p m')
  obtain a e where p: "p = (a, e)" by fastforce
  show thesis using oldest_fold [of stamp m' a "stamp e" k t] assms that by (auto simp: oldest_def Cons p)
qed (use assms in \<open>simp add: oldest_def\<close>)

lemma oldest_None: "oldest stamp m = None \<longleftrightarrow> m = []"
proof (cases m)
  case (Cons p m')
  then show ?thesis using oldest_fold_Some [of stamp m' "fst p" "stamp (snd p)"] by (auto simp: oldest_def split: prod.splits)
qed (simp add: oldest_def)

function drop_oldest :: "('v \<Rightarrow> int) \<Rightarrow> nat \<Rightarrow> ('k, 'v) jmap \<Rightarrow> ('k, 'v) jmap" where
  "drop_oldest stamp cap m =
     (if length m \<le> cap then m
      else case oldest stamp m of None \<Rightarrow> m | Some (k, t) \<Rightarrow> drop_oldest stamp cap (jdel k m))"
  by pat_completeness auto
termination
  by (relation "measure (\<lambda>(stamp, cap, m). length m)") (auto elim!: oldest_Some intro: length_jdel)

declare drop_oldest.simps [simp del]

definition evict_expired :: "('v \<Rightarrow> int) \<Rightarrow> int \<Rightarrow> int \<Rightarrow> ('k, 'v) jmap \<Rightarrow> ('k, 'v) jmap" where
  "evict_expired stamp ttl now m = filter (\<lambda>(k, e). \<not> now - stamp e > ttl) m"

definition evict_entries :: "('v \<Rightarrow> int) \<Rightarrow> int \<Rightarrow> nat \<Rightarrow> int \<Rightarrow> ('k, 'v) jmap \<Rightarrow> ('k, 'v) jmap" where
  "evict_entries stamp ttl cap now m = drop_oldest stamp cap (evict_expired stamp ttl now m)"

section \<open>The interface\<close>

text \<open>
  What its users may assume: eviction keeps only live entries, at most \<open>cap\<close> of them, loses none while there are few,
  and prefers recent ones.
\<close>

locale evicting =
  fixes evict :: "int \<Rightarrow> ('k, 'v) jmap \<Rightarrow> ('k, 'v) jmap"
    and stamp :: "'v \<Rightarrow> int"
    and ttl :: int
    and cap :: nat
  assumes evict_ok: "jmap_ok m \<Longrightarrow> jmap_ok (evict now m)"
    and evict_sub: "jmap_ok m \<Longrightarrow> jget (evict now m) k = Some e \<Longrightarrow> jget m k = Some e \<and> now - stamp e \<le> ttl"
    and evict_cap: "length (evict now m) \<le> cap"
    and evict_few: "jmap_ok m \<Longrightarrow> length m \<le> cap \<Longrightarrow> jget m k = Some e \<Longrightarrow> now - stamp e \<le> ttl \<Longrightarrow> jget (evict now m) k = Some e"
    and evict_recent: "jmap_ok m \<Longrightarrow> jget m k = Some e \<Longrightarrow> now - stamp e \<le> ttl \<Longrightarrow> jget (evict now m) k = None \<Longrightarrow>
      jget (evict now m) k' = Some e' \<Longrightarrow> stamp e \<le> stamp e'"
begin

definition put :: "'k \<Rightarrow> 'v \<Rightarrow> int \<Rightarrow> ('k, 'v) jmap \<Rightarrow> ('k, 'v) jmap" where
  "put k v now m = jset k v (evict now m)"

lemma put_ok: "jmap_ok m \<Longrightarrow> jmap_ok (put k v now m)"
  by (simp add: put_def evict_ok)

lemma keys_evict: "jmap_ok m \<Longrightarrow> set (jkeys (evict now m)) \<subseteq> set (jkeys m)"
  by (metis evict_sub jget_in_keys not_Some_eq subsetI)

lemma keys_put: "jmap_ok m \<Longrightarrow> set (jkeys (put k v now m)) \<subseteq> insert k (set (jkeys m))"
  using keys_evict by (fastforce simp: put_def)

text \<open>The eviction comes before the insertion, so the table holds one entry more than the cap.\<close>

lemma put_bounded:
  assumes "jmap_ok m"
  shows "length (put k v now m) \<le> Suc cap"
proof -
  have "length (jkeys (put k v now m)) \<le> Suc (length (jkeys (evict now m)))"
    using jm.size_put [OF evict_ok [OF assms], of k v now] by (simp add: put_def)
  then show ?thesis using evict_cap [of now m] by simp
qed

lemma put_exceeds_cap:
  assumes "jmap_ok m" "length m = cap" "k \<notin> set (jkeys m)" "\<And>k' e. jget m k' = Some e \<Longrightarrow> now - stamp e \<le> ttl"
  shows "length (put k v now m) = Suc cap"
proof -
  have "jget (evict now m) k' = jget m k'" for k'
    using evict_few [OF assms(1) eq_imp_le [OF assms(2)], of k'] evict_sub [OF assms(1), of now k'] assms(4) [of k']
    by (cases "jget m k'"; cases "jget (evict now m) k'") auto
  then have same: "set (jkeys (evict now m)) = set (jkeys m)" by (auto simp only: jget_in_keys [symmetric])
  have "length (jkeys (evict now m)) = length (jkeys m)"
    using distinct_card [of "jkeys m"] distinct_card [of "jkeys (evict now m)"] assms(1) evict_ok [OF assms(1), of now] same by (simp add: jmap_ok_def)
  moreover have "jget (evict now m) k = None" unfolding jget_None using assms(3) same by simp
  ultimately show ?thesis using jm.size_put [OF evict_ok [OF assms(1), of now], of k v] assms(2) by (simp add: put_def)
qed

lemma put_get:
  assumes "jmap_ok m" "jget (put k v now m) k' = Some e"
  shows "k' = k \<and> e = v \<or> k' \<noteq> k \<and> jget m k' = Some e \<and> now - stamp e \<le> ttl"
  using assms evict_sub [of m now k' e] by (auto simp: put_def split: if_splits)

lemma put_few:
  assumes "jmap_ok m" "length m \<le> cap"
  shows "jget (put k v now m) k' = (if k' = k then Some v else case jget m k' of Some e \<Rightarrow> if now - stamp e \<le> ttl then Some e else None | None \<Rightarrow> None)"
proof (cases "jget m k'")
  case None
  then show ?thesis using evict_sub [OF assms(1), of now k'] by (cases "jget (evict now m) k'") (auto simp: put_def)
next
  case (Some e)
  then show ?thesis using evict_sub [OF assms(1), of now k'] evict_few [OF assms Some, of now]
    by (cases "jget (evict now m) k'") (auto simp: put_def)
qed

text \<open>A table in which every entry has one of a few keys never reaches the cap.\<close>

lemma few_keys: "jmap_ok m \<Longrightarrow> set (jkeys m) \<subseteq> K \<Longrightarrow> finite K \<Longrightarrow> card K \<le> cap \<Longrightarrow> length m \<le> cap"
  by (metis card_mono distinct_card jmap_ok_def le_trans length_map)

end

section \<open>The loop implements it\<close>

lemma drop_oldest_spec:
  assumes "jmap_ok m"
  shows "jmap_ok (drop_oldest stamp cap m) \<and> length (drop_oldest stamp cap m) \<le> cap \<and>
    (\<forall>k e. jget (drop_oldest stamp cap m) k = Some e \<longrightarrow> jget m k = Some e) \<and>
    (\<forall>k e k' e'. jget m k = Some e \<and> jget (drop_oldest stamp cap m) k = None \<and> jget (drop_oldest stamp cap m) k' = Some e' \<longrightarrow> stamp e \<le> stamp e')"
  using assms
proof (induction stamp cap m rule: drop_oldest.induct)
  case (1 stamp cap m)
  show ?case
  proof (cases "length m \<le> cap")
    case True
    then have "drop_oldest stamp cap m = m" by (subst drop_oldest.simps) simp
    then show ?thesis using True 1(2) by auto
  next
    case False
    then obtain k0 t0 where o0: "oldest stamp m = Some (k0, t0)" using oldest_None [of stamp m] by (cases "oldest stamp m") auto
    then obtain e0 where e0: "(k0, e0) \<in> set m" "stamp e0 = t0" "\<forall>(k', e') \<in> set m. t0 \<le> stamp e'" by (rule oldest_Some)
    define d where "d = drop_oldest stamp cap (jdel k0 m)"
    have eq: "drop_oldest stamp cap m = d" using False o0 by (subst drop_oldest.simps) (simp add: d_def)
    note IH = 1(1) [OF False o0 refl, folded d_def]
    have ok: "jmap_ok (jdel k0 m)" using 1(2) by simp
    have sub: "jget m k = Some e" if "jget d k = Some e" for k e using IH [OF ok] that by (metis jget_jdel option.distinct(1))
    have "stamp e \<le> stamp e'" if a: "jget m k = Some e" "jget d k = None" "jget d k' = Some e'" for k e k' e'
    proof (cases "k = k0")
      case True
      then have "e = e0" using a(1) jget_mem [OF 1(2) e0(1)] by simp
      moreover have "(k', e') \<in> set m" using sub [OF a(3)] by (rule jget_SomeD)
      ultimately show ?thesis using e0(2,3) by auto
    next
      case k: False
      then have "jget (jdel k0 m) k = Some e" using a(1) by simp
      then show ?thesis using IH [OF ok] a(2,3) by blast
    qed
    then show ?thesis unfolding eq using IH [OF ok] sub by blast
  qed
qed

lemma evict_expired_get: "jmap_ok m \<Longrightarrow> jget (evict_expired stamp ttl now m) k = (case jget m k of Some e \<Rightarrow> if now - stamp e \<le> ttl then Some e else None | None \<Rightarrow> None)"
  unfolding evict_expired_def by (subst jget_filter) (auto simp: not_less split: option.split)

lemma evict_expired_ok: "jmap_ok m \<Longrightarrow> jmap_ok (evict_expired stamp ttl now m)"
  unfolding evict_expired_def by (rule jmap_ok_filter)

lemma length_drop_oldest: "length (drop_oldest stamp cap m) \<le> cap"
proof (induction stamp cap m rule: drop_oldest.induct)
  case (1 stamp cap m)
  then show ?case using oldest_None [of stamp m] by (subst drop_oldest.simps) (auto split: option.splits)
qed

lemma evicting_entries: "evicting (evict_entries stamp ttl cap) stamp ttl cap"
proof
  fix m :: "('a, 'b) jmap" and now
  show "length (evict_entries stamp ttl cap now m) \<le> cap" by (simp add: evict_entries_def length_drop_oldest)
  assume ok: "jmap_ok m"
  note sp = drop_oldest_spec [OF evict_expired_ok [OF ok, of stamp ttl now], of stamp cap, folded evict_entries_def]
  note g = evict_expired_get [OF ok, of stamp ttl now]
  show "jmap_ok (evict_entries stamp ttl cap now m)" using sp by blast
  show "jget m k = Some e \<and> now - stamp e \<le> ttl" if "jget (evict_entries stamp ttl cap now m) k = Some e" for k e
  proof -
    have "jget (evict_expired stamp ttl now m) k = Some e" using sp that by blast
    then show ?thesis unfolding g by (auto split: option.splits if_splits)
  qed
  show "jget (evict_entries stamp ttl cap now m) k = Some e" if "length m \<le> cap" "jget m k = Some e" "now - stamp e \<le> ttl" for k e
  proof -
    have "length (evict_expired stamp ttl now m) \<le> cap" using that(1) unfolding evict_expired_def by (rule order_trans [OF length_filter_le])
    then have "evict_entries stamp ttl cap now m = evict_expired stamp ttl now m" unfolding evict_entries_def by (subst drop_oldest.simps) simp
    then show ?thesis using that by (simp add: g)
  qed
  show "stamp e \<le> stamp e'" if "jget m k = Some e" "now - stamp e \<le> ttl" "jget (evict_entries stamp ttl cap now m) k = None"
    "jget (evict_entries stamp ttl cap now m) k' = Some e'" for k e k' e'
  proof -
    have "jget (evict_expired stamp ttl now m) k = Some e" using that(1,2) by (simp add: g)
    then show ?thesis using sp that(3,4) by blast
  qed
qed

end
