(* ===== verification/Failure_Tracker.thy ===== *)
theory Failure_Tracker
  imports Evicting_Store
begin

text \<open>
  The tracker of consecutive combo failures (\<^verbatim>\<open>open-sse/services/combo/failureTracker.ts\<close>): after three failures in a row of
  a session on a combo, the model pinned for the session is forgotten. The pins are rows of the database; \<open>delete_ok\<close>
  says whether their deletion succeeds. An empty or absent session is \<open>None\<close> or the empty string.
\<close>

section \<open>Operations\<close>

definition COMBO_FAILURE_THRESHOLD :: nat where
  "COMBO_FAILURE_THRESHOLD = 3"

definition COUNTER_TTL_MS :: int where
  "COUNTER_TTL_MS = 5 * 60 * 1000"

definition MAX_FAILURE_ENTRIES :: nat where
  "MAX_FAILURE_ENTRIES = 2000"

record failure_entry =
  fe_count :: nat
  fe_lastFailureAt :: int
  fe_pinCleared :: bool

record tracker =
  failureMap :: "(string, failure_entry) jmap"
  pins :: "(string \<times> string) set"

definition keyOf :: "string \<Rightarrow> string \<Rightarrow> string" where
  "keyOf sessionId comboName = sessionId @ ''::'' @ comboName"

definition evict_failures :: "int \<Rightarrow> (string, failure_entry) jmap \<Rightarrow> (string, failure_entry) jmap" where
  "evict_failures = evict_entries fe_lastFailureAt COUNTER_TTL_MS MAX_FAILURE_ENTRIES"

definition record_failure :: "string \<Rightarrow> string \<Rightarrow> int \<Rightarrow> bool \<Rightarrow> tracker \<Rightarrow> (nat \<times> bool) \<times> tracker" where
  "record_failure sessionId comboName now delete_ok s =
     (let m = evict_failures now (failureMap s);
          key = keyOf sessionId comboName;
          count = (case jget m key of None \<Rightarrow> 0 | Some e \<Rightarrow> fe_count e) + 1;
          pinClearedBefore = (case jget m key of None \<Rightarrow> False | Some e \<Rightarrow> fe_pinCleared e);
          shouldClearNow = (count \<ge> COMBO_FAILURE_THRESHOLD \<and> \<not> pinClearedBefore)
      in ((count, shouldClearNow),
          s\<lparr>failureMap := jset key \<lparr>fe_count = count, fe_lastFailureAt = now, fe_pinCleared = (shouldClearNow \<or> pinClearedBefore)\<rparr> m,
            pins := (if shouldClearNow \<and> delete_ok then pins s - {(sessionId, comboName)} else pins s)\<rparr>))"

definition recordComboFailure :: "string option \<Rightarrow> string \<Rightarrow> int \<Rightarrow> bool \<Rightarrow> tracker \<Rightarrow> (nat \<times> bool) \<times> tracker" where
  "recordComboFailure sessionId comboName now delete_ok s =
     (case sessionId of
        None \<Rightarrow> ((0, False), s)
      | Some sid \<Rightarrow> if sid = [] then ((0, False), s) else record_failure sid comboName now delete_ok s)"

definition clearComboFailureTracking :: "string option \<Rightarrow> string \<Rightarrow> tracker \<Rightarrow> tracker" where
  "clearComboFailureTracking sessionId comboName s =
     (case sessionId of
        None \<Rightarrow> s
      | Some sid \<Rightarrow> if sid = [] then s else s\<lparr>failureMap := jdel (keyOf sid comboName) (failureMap s)\<rparr>)"

definition getComboFailureCount :: "string option \<Rightarrow> string \<Rightarrow> int \<Rightarrow> tracker \<Rightarrow> nat" where
  "getComboFailureCount sessionId comboName now s =
     (case sessionId of
        None \<Rightarrow> 0
      | Some sid \<Rightarrow>
          if sid = [] then 0
          else case jget (failureMap s) (keyOf sid comboName) of
                 None \<Rightarrow> 0
               | Some e \<Rightarrow> if now - fe_lastFailureAt e > COUNTER_TTL_MS then 0 else fe_count e)"

interpretation ft: evicting evict_failures fe_lastFailureAt COUNTER_TTL_MS MAX_FAILURE_ENTRIES
  unfolding evict_failures_def by (rule evicting_entries)

section \<open>Histories and what they should count\<close>

datatype tracker_event = T_failure string string int bool | T_success string string

fun tracker_step :: "tracker_event \<Rightarrow> tracker \<Rightarrow> tracker" where
  "tracker_step (T_failure sid combo now delete_ok) s = snd (recordComboFailure (Some sid) combo now delete_ok s)"
| "tracker_step (T_success sid combo) s = clearComboFailureTracking (Some sid) combo s"

fun tracker_key :: "tracker_event \<Rightarrow> string" where
  "tracker_key (T_failure sid combo now delete_ok) = keyOf sid combo"
| "tracker_key (T_success sid combo) = keyOf sid combo"

fun failure_times :: "tracker_event list \<Rightarrow> int list" where
  "failure_times [] = []"
| "failure_times (T_failure sid combo now delete_ok # evs) = now # failure_times evs"
| "failure_times (T_success sid combo # evs) = failure_times evs"

text \<open>The ideal counter of a key: its failures since the last success, with no pause longer than the lifetime.\<close>

type_synonym ideal = "string \<Rightarrow> (nat \<times> int) option"

definition live_at :: "int \<Rightarrow> ideal \<Rightarrow> ideal" where
  "live_at now a k = (case a k of None \<Rightarrow> None | Some (n, t) \<Rightarrow> if now - t \<le> COUNTER_TTL_MS then Some (n, t) else None)"

definition ideal_count :: "ideal \<Rightarrow> string \<Rightarrow> int \<Rightarrow> nat" where
  "ideal_count a k now = (case live_at now a k of None \<Rightarrow> 0 | Some (n, t) \<Rightarrow> n)"

fun ideal_step :: "tracker_event \<Rightarrow> ideal \<Rightarrow> ideal" where
  "ideal_step (T_failure sid combo now delete_ok) a =
     (if sid = [] then a else a(keyOf sid combo \<mapsto> (Suc (ideal_count a (keyOf sid combo) now), now)))"
| "ideal_step (T_success sid combo) a = (if sid = [] then a else a(keyOf sid combo := None))"

section \<open>The table counts them\<close>

definition counted :: "tracker \<Rightarrow> ideal" where
  "counted s k = map_option (\<lambda>e. (fe_count e, fe_lastFailureAt e)) (jget (failureMap s) k)"

definition tracker_inv :: "string set \<Rightarrow> int \<Rightarrow> ideal \<Rightarrow> tracker \<Rightarrow> bool" where
  "tracker_inv K t a s \<longleftrightarrow>
     jmap_ok (failureMap s) \<and> set (jkeys (failureMap s)) \<subseteq> K \<and>
     (\<forall>k e. jget (failureMap s) k = Some e \<longrightarrow> (fe_pinCleared e \<longleftrightarrow> fe_count e \<ge> COMBO_FAILURE_THRESHOLD)) \<and>
     (\<forall>now \<ge> t. live_at now (counted s) = live_at now a)"

lemma live_at_later: "live_at t a = live_at t b \<Longrightarrow> t \<le> now \<Longrightarrow> live_at now a = live_at now b"
proof (rule ext)
  fix k assume *: "live_at t a = live_at t b" "t \<le> now"
  have "live_at t a k = live_at t b k" using *(1) by simp
  then show "live_at now a k = live_at now b k" using *(2)
    by (auto simp: live_at_def split: option.splits if_splits prod.splits)
qed

lemma live_at_upd: "live_at now (a(k := v)) = (live_at now a)(k := live_at now (\<lambda>_. v) k)"
  by (rule ext) (simp add: live_at_def)

lemma record_failure_spec:
  assumes inv: "tracker_inv K t a s" and K: "finite K" "card K \<le> MAX_FAILURE_ENTRIES" and now: "t \<le> now"
    and n: "n = ideal_count a (keyOf sid combo) now"
  shows "fst (record_failure sid combo now ok s) = (Suc n, Suc n = COMBO_FAILURE_THRESHOLD)"
    "pins (snd (record_failure sid combo now ok s)) = (if Suc n = COMBO_FAILURE_THRESHOLD \<and> ok then pins s - {(sid, combo)} else pins s)"
    "keyOf sid combo \<in> K \<Longrightarrow> tracker_inv K now (a(keyOf sid combo \<mapsto> (Suc n, now))) (snd (record_failure sid combo now ok s))"
proof -
  let ?k = "keyOf sid combo" and ?m = "evict_failures now (failureMap s)"
  have m: "jmap_ok (failureMap s)" "set (jkeys (failureMap s)) \<subseteq> K"
    and cl: "\<And>k e. jget (failureMap s) k = Some e \<Longrightarrow> fe_pinCleared e \<longleftrightarrow> fe_count e \<ge> COMBO_FAILURE_THRESHOLD"
    and lv: "live_at now (counted s) = live_at now a" using inv now by (auto simp: tracker_inv_def)
  have few: "length (failureMap s) \<le> MAX_FAILURE_ENTRIES" by (rule ft.few_keys [OF m K])
  have get: "map_option (\<lambda>e. (fe_count e, fe_lastFailureAt e)) (jget ?m k) = live_at now a k" for k
  proof -
    have "live_at now (counted s) k = map_option (\<lambda>e. (fe_count e, fe_lastFailureAt e)) (jget ?m k)"
    proof (cases "jget ?m k")
      case None
      then show ?thesis using ft.evict_few [OF m(1) few, of k _ now] by (cases "jget (failureMap s) k") (auto simp: live_at_def counted_def)
    next
      case (Some e)
      then show ?thesis using ft.evict_sub [OF m(1) Some] by (simp add: live_at_def counted_def)
    qed
    then show ?thesis by (simp add: lv)
  qed
  have cnt: "(case jget ?m ?k of None \<Rightarrow> 0 | Some e \<Rightarrow> fe_count e) = n"
    using get [of ?k] by (cases "jget ?m ?k") (auto simp: n ideal_count_def split: option.splits)
  have clr: "(case jget ?m ?k of None \<Rightarrow> False | Some e \<Rightarrow> fe_pinCleared e) \<longleftrightarrow> n \<ge> COMBO_FAILURE_THRESHOLD"
    using cnt cl ft.evict_sub [OF m(1), of now ?k] by (cases "jget ?m ?k") (auto simp: COMBO_FAILURE_THRESHOLD_def)
  note eq = record_failure_def [of sid combo now ok s, unfolded Let_def cnt clr]
  show "fst (record_failure sid combo now ok s) = (Suc n, Suc n = COMBO_FAILURE_THRESHOLD)" by (auto simp: eq)
  show "pins (snd (record_failure sid combo now ok s)) = (if Suc n = COMBO_FAILURE_THRESHOLD \<and> ok then pins s - {(sid, combo)} else pins s)"
    by (auto simp: eq)
  assume kK: "?k \<in> K"
  let ?s = "snd (record_failure sid combo now ok s)"
  have fm: "failureMap ?s = jset ?k \<lparr>fe_count = Suc n, fe_lastFailureAt = now, fe_pinCleared = (Suc n \<ge> COMBO_FAILURE_THRESHOLD)\<rparr> ?m"
    by (cases "COMBO_FAILURE_THRESHOLD \<le> n") (simp_all add: eq)
  have cs: "counted ?s = (live_at now a)(?k \<mapsto> (Suc n, now))" by (rule ext) (simp add: counted_def fm get)
  have "live_at now (counted ?s) = live_at now (a(?k \<mapsto> (Suc n, now)))"
    by (rule ext) (simp add: cs live_at_def split: option.split)
  then have "\<forall>now' \<ge> now. live_at now' (counted ?s) = live_at now' (a(?k \<mapsto> (Suc n, now)))" using live_at_later by blast
  moreover have "fe_pinCleared e \<longleftrightarrow> fe_count e \<ge> COMBO_FAILURE_THRESHOLD" if "jget (failureMap ?s) k = Some e" for k e
    using that cl ft.evict_sub [OF m(1), of now k] by (auto simp: fm split: if_splits)
  moreover have "jmap_ok (failureMap ?s)" unfolding fm by (rule jmap_ok_jset [OF ft.evict_ok [OF m(1)]])
  moreover have "set (jkeys (failureMap ?s)) \<subseteq> K" using ft.keys_evict [OF m(1), of now] m(2) kK by (auto simp only: fm set_jkeys_jset)
  ultimately show "tracker_inv K now (a(?k \<mapsto> (Suc n, now))) ?s" unfolding tracker_inv_def by blast
qed

lemma tracker_inv_later: "tracker_inv K t a s \<Longrightarrow> t \<le> t' \<Longrightarrow> tracker_inv K t' a s"
  by (auto simp: tracker_inv_def)

lemma clear_spec: "tracker_inv K t a s \<Longrightarrow> tracker_inv K t (ideal_step (T_success sid combo) a) (clearComboFailureTracking (Some sid) combo s)"
proof -
  assume inv: "tracker_inv K t a s"
  have "counted (s\<lparr>failureMap := jdel (keyOf sid combo) (failureMap s)\<rparr>) = (counted s)(keyOf sid combo := None)"
    by (rule ext) (simp add: counted_def)
  then show ?thesis using inv
    by (auto simp: tracker_inv_def clearComboFailureTracking_def live_at_upd split: if_splits dest!: subsetD)
qed

lemma failure_times_append: "failure_times (evs @ evs') = failure_times evs @ failure_times evs'"
  by (induction evs rule: failure_times.induct) simp_all

lemma tracker_history_inv:
  assumes "sorted (failure_times evs @ [now])" "tracker_key ` set evs \<subseteq> K" "finite K" "card K \<le> MAX_FAILURE_ENTRIES"
  shows "tracker_inv K now (fold ideal_step evs (\<lambda>_. None)) (fold tracker_step evs \<lparr>failureMap = [], pins = P\<rparr>)"
  using assms(1,2)
proof (induction evs arbitrary: now rule: rev_induct)
  case Nil
  have "counted \<lparr>failureMap = [], pins = P\<rparr> = (\<lambda>_. None)" by (rule ext) (simp add: counted_def)
  then show ?case by (simp add: tracker_inv_def)
next
  case (snoc ev evs)
  let ?a = "fold ideal_step evs (\<lambda>_. None)" and ?s = "fold tracker_step evs \<lparr>failureMap = [], pins = P\<rparr>"
  show ?case
  proof (cases ev)
    case (T_failure sid combo t ok)
    have t: "t \<le> now" "sorted (failure_times evs @ [t])" using snoc.prems(1) T_failure by (simp_all add: failure_times_append sorted_append)
    have k: "keyOf sid combo \<in> K" "tracker_key ` set evs \<subseteq> K" using snoc.prems(2) T_failure by auto
    note IH = snoc.IH [OF t(2) k(2)]
    show ?thesis
    proof (cases "sid = []")
      case True
      then show ?thesis using tracker_inv_later [OF IH t(1)] T_failure by (simp add: recordComboFailure_def)
    next
      case False
      have a: "fold ideal_step (evs @ [ev]) (\<lambda>_. None) = ?a(keyOf sid combo \<mapsto> (Suc (ideal_count ?a (keyOf sid combo) t), t))"
        and st: "fold tracker_step (evs @ [ev]) \<lparr>failureMap = [], pins = P\<rparr> = snd (record_failure sid combo t ok ?s)"
        using False T_failure by (simp_all add: recordComboFailure_def)
      show ?thesis unfolding a st
        by (rule tracker_inv_later [OF record_failure_spec(3) [OF IH assms(3,4) order_refl refl k(1)] t(1)])
    qed
  next
    case (T_success sid combo)
    have "sorted (failure_times evs @ [now])" "tracker_key ` set evs \<subseteq> K" using snoc.prems T_success by (simp_all add: failure_times_append)
    then show ?thesis using clear_spec [OF snoc.IH] T_success by simp
  qed
qed

text \<open>Whatever happens, the table holds at most one entry more than its cap.\<close>

lemma tracker_step_bounded:
  assumes "jmap_ok (failureMap s)" "length (failureMap s) \<le> Suc MAX_FAILURE_ENTRIES"
  shows "jmap_ok (failureMap (tracker_step ev s)) \<and> length (failureMap (tracker_step ev s)) \<le> Suc MAX_FAILURE_ENTRIES"
proof (cases ev)
  case (T_failure sid combo t ok)
  have "\<exists>k v. failureMap (snd (record_failure sid combo t ok s)) = ft.put k v t (failureMap s)"
    unfolding record_failure_def ft.put_def Let_def by auto
  then show ?thesis using assms ft.put_ok [OF assms(1)] ft.put_bounded [OF assms(1)] T_failure
    by (auto simp: recordComboFailure_def)
next
  case (T_success sid combo)
  have "length (jdel k m) \<le> length m" for k :: string and m :: "(string, failure_entry) jmap" unfolding jdel_def by (rule length_delete_le)
  then show ?thesis using assms T_success by (auto simp: clearComboFailureTracking_def intro: order_trans)
qed

section \<open>Properties\<close>



section \<open>Observations\<close>

text \<open>
  A deletion that fails is reported as done, and it is not tried again in the same streak, since the streak is
  already marked.
\<close>

lemma failed_clear_not_retried:
  "let s = fold tracker_step [T_failure ''s'' ''c'' 0 True, T_failure ''s'' ''c'' 1 True] \<lparr>failureMap = [], pins = {(''s'', ''c'')}\<rparr>;
       (r, s') = recordComboFailure (Some ''s'') ''c'' 2 False s;
       (r', s'') = recordComboFailure (Some ''s'') ''c'' 3 True s'
   in r = (3, True) \<and> r' = (4, False) \<and> pins s'' = {(''s'', ''c'')}"
  by code_simp

text \<open>The keys of different pairs may coincide.\<close>

lemma keyOf_not_injective: "keyOf ''a::b'' ''c'' = keyOf ''a'' ''b::c''"
  by (simp add: keyOf_def)

end
