(* ===== verification/Session_Stickiness.thy ===== *)
theory Session_Stickiness
  imports Evicting_Store Combo_Structure Step_Systems
begin

text \<open>
  Session stickiness (\<^verbatim>\<open>open-sse/services/combo/sessionStickiness.ts\<close>, \<^verbatim>\<open>computeHeadroom\<close> of \<^verbatim>\<open>headroomRanking.ts\<close> and
  \<^verbatim>\<open>releaseStickyPinOnFailure\<close> of \<^verbatim>\<open>combo.ts\<close>): a conversation stays on the connection that served it while the connection
  is healthy. The lookups of utilisation, health and quota are awaited, so \<^verbatim>\<open>applySessionStickiness\<close> is two steps between
  which other requests run; \<open>se_ref\<close> is the identity of an entry, which the second step mutates in place. The digest, in
  hexadecimal, and \<^verbatim>\<open>Date\<close> parsing are arguments.
\<close>

section \<open>Health\<close>

record saturation =
  util5h :: "js_num option"
  util7d :: "js_num option"

definition clampUtil :: "js_num option \<Rightarrow> rat" where
  "clampUtil v = (case v of Some (Fin q) \<Rightarrow> if q \<le> 0 then 0 else if q \<ge> 1 then 1 else q | _ \<Rightarrow> 0)"

definition computeHeadroom :: "saturation option \<Rightarrow> rat" where
  "computeHeadroom sat = 1 - max (clampUtil (Option.bind sat util5h)) (clampUtil (Option.bind sat util7d))"

definition STICKINESS_HEADROOM_THRESHOLD :: rat where
  "STICKINESS_HEADROOM_THRESHOLD = 15 / 100"

definition STICKY_TTL_MS :: int where
  "STICKY_TTL_MS = 15 * 60 * 1000"

definition MAX_STICKY_ENTRIES :: nat where
  "MAX_STICKY_ENTRIES = 500"

definition TERMINAL_STICKY_STATUSES :: "string set" where
  "TERMINAL_STICKY_STATUSES = {''credits_exhausted'', ''banned'', ''expired''}"

record conn_health =
  testStatus :: "string option"
  rateLimitedUntil :: "string option"

definition isStickyConnectionTerminallyUnhealthy :: "(string \<Rightarrow> int option) \<Rightarrow> conn_health option \<Rightarrow> int \<Rightarrow> bool" where
  "isStickyConnectionTerminallyUnhealthy date conn now =
     (case conn of
        None \<Rightarrow> False
      | Some h \<Rightarrow>
          (case testStatus h of Some st \<Rightarrow> st \<in> TERMINAL_STICKY_STATUSES | None \<Rightarrow> False) \<or>
          (case (case rateLimitedUntil h of Some d \<Rightarrow> if d = [] then Some 0 else date d | None \<Rightarrow> Some 0) of
             Some rl \<Rightarrow> rl > now
           | None \<Rightarrow> False))"

section \<open>The key of a conversation\<close>

definition user_message :: "string \<Rightarrow> json" where
  "user_message s = JObj [(''role'', JStr ''user''), (''content'', JStr s)]"

definition normalizeStickinessMessages :: "json \<Rightarrow> json list option" where
  "normalizeStickinessMessages body =
     (case body of
        JObj l \<Rightarrow>
          (case prop_of l ''messages'' of
             Some (JArr (m # ms)) \<Rightarrow> Some (m # ms)
           | _ \<Rightarrow>
               (case prop_of l ''input'' of
                  Some (JStr s) \<Rightarrow> if s \<noteq> [] then Some [user_message s] else None
                | Some (JArr (x # xs)) \<Rightarrow> Some (map (\<lambda>item. case item of JStr s \<Rightarrow> user_message s | _ \<Rightarrow> item) (x # xs))
                | _ \<Rightarrow> None))
      | _ \<Rightarrow> None)"

definition member_of :: "json \<Rightarrow> string \<Rightarrow> json option" where
  "member_of v k = (case v of JObj l \<Rightarrow> prop_of l k | _ \<Rightarrow> None)"

definition is_user :: "json \<Rightarrow> bool" where
  "is_user m \<longleftrightarrow> member_of m ''role'' = Some (JStr ''user'')"

definition part_text :: "json \<Rightarrow> string" where
  "part_text p = (case member_of p ''text'' of Some (JStr s) \<Rightarrow> s | _ \<Rightarrow> [])"

definition message_text :: "json \<Rightarrow> string option" where
  "message_text m =
     (case member_of m ''content'' of
        Some (JStr s) \<Rightarrow> Some s
      | Some (JArr ps) \<Rightarrow> Some (concat (map part_text ps))
      | _ \<Rightarrow> None)"

definition deriveMessageHash :: "(string \<Rightarrow> string) \<Rightarrow> json list option \<Rightarrow> string option" where
  "deriveMessageHash sha256 messages =
     (case messages of
        None \<Rightarrow> None
      | Some ms \<Rightarrow>
          (case find is_user ms of
             None \<Rightarrow> None
           | Some first \<Rightarrow>
               (case message_text first of
                  None \<Rightarrow> None
                | Some text \<Rightarrow> if text = [] then None else Some (take 16 (sha256 text)))))"

definition scopeMessageHash :: "(string \<Rightarrow> string) \<Rightarrow> string \<Rightarrow> string option \<Rightarrow> string" where
  "scopeMessageHash sha256 messageHash namespace =
     (case namespace of
        None \<Rightarrow> messageHash
      | Some ns \<Rightarrow> if ns = [] then messageHash else take 16 (sha256 (ns @ CHR 0x00 # messageHash)))"

section \<open>The table\<close>

record sticky_entry =
  se_connectionId :: string
  se_createdAt :: int
  se_lastUsedAt :: int
  se_namespace :: "string option"
  se_ref :: nat

record sticky_store =
  stickyMap :: "(string, sticky_entry) jmap"
  nextRef :: nat

definition truthy_name :: "string option \<Rightarrow> bool" where
  "truthy_name ns \<longleftrightarrow> ns \<noteq> None \<and> ns \<noteq> Some []"

definition evict_sticky :: "int \<Rightarrow> (string, sticky_entry) jmap \<Rightarrow> (string, sticky_entry) jmap" where
  "evict_sticky = evict_entries se_lastUsedAt STICKY_TTL_MS MAX_STICKY_ENTRIES"

definition recordStickyBinding :: "string \<Rightarrow> string \<Rightarrow> string option \<Rightarrow> int \<Rightarrow> sticky_store \<Rightarrow> sticky_store" where
  "recordStickyBinding messageHash connectionId namespace now s =
     (case jget (stickyMap s) messageHash of
        Some e \<Rightarrow>
          s\<lparr>stickyMap := jset messageHash
              (e\<lparr>se_connectionId := connectionId, se_lastUsedAt := now,
                 se_namespace := (if truthy_name namespace then namespace else se_namespace e)\<rparr>) (stickyMap s)\<rparr>
      | None \<Rightarrow>
          s\<lparr>stickyMap := jset messageHash
              \<lparr>se_connectionId = connectionId, se_createdAt = now, se_lastUsedAt = now,
               se_namespace = (if truthy_name namespace then namespace else None), se_ref = nextRef s\<rparr> (evict_sticky now (stickyMap s)),
            nextRef := Suc (nextRef s)\<rparr>)"

definition clearStickyBinding :: "string \<Rightarrow> sticky_store \<Rightarrow> sticky_store" where
  "clearStickyBinding messageHash s = s\<lparr>stickyMap := jdel messageHash (stickyMap s)\<rparr>"

definition clearStickyBindingsForCombo :: "string \<Rightarrow> sticky_store \<Rightarrow> sticky_store" where
  "clearStickyBindingsForCombo namespace s =
     (if namespace = [] then s else s\<lparr>stickyMap := filter (\<lambda>(k, e). se_namespace e \<noteq> Some namespace) (stickyMap s)\<rparr>)"

definition peekStickyConnectionId :: "string \<Rightarrow> sticky_store \<Rightarrow> string option" where
  "peekStickyConnectionId messageHash s = map_option se_connectionId (jget (stickyMap s) messageHash)"

definition clearAllStickyBindings :: "sticky_store \<Rightarrow> sticky_store" where
  "clearAllStickyBindings s = s\<lparr>stickyMap := []\<rparr>"

definition releaseStickyPinOnFailure :: "string option \<Rightarrow> string option \<Rightarrow> sticky_store \<Rightarrow> sticky_store" where
  "releaseStickyPinOnFailure messageHash failedConnectionId s =
     (if \<not> truthy_name messageHash \<or> \<not> truthy_name failedConnectionId then s
      else if peekStickyConnectionId (the messageHash) s \<noteq> failedConnectionId then s
      else clearStickyBinding (the messageHash) s)"

definition resolveDisableSessionStickiness :: "layer option \<Rightarrow> layer option \<Rightarrow> bool" where
  "resolveDisableSessionStickiness conf settings =
     (case Option.bind conf (\<lambda>l. prop_of l ''disableSessionStickiness'') of
        Some (JBool b) \<Rightarrow> b
      | _ \<Rightarrow> Option.bind settings (\<lambda>l. prop_of l ''disableSessionStickiness'') = Some (JBool True))"

section \<open>Applying it\<close>

record sticky_result =
  sr_targets :: "ctarget list"
  sr_messageHash :: "string option"
  sr_stuck :: bool

record sticky_check =
  sc_targets :: "ctarget list"
  sc_hash :: string
  sc_ref :: nat
  sc_connectionId :: string
  sc_index :: nat

text \<open>Up to the awaited lookups.\<close>

definition begin_apply ::
    "(string \<Rightarrow> string) \<Rightarrow> ctarget list \<Rightarrow> json list option \<Rightarrow> string option \<Rightarrow> int \<Rightarrow> sticky_store \<Rightarrow> (sticky_result + sticky_check) \<times> sticky_store" where
  "begin_apply sha256 targets messages namespace now s =
     (let noOp = \<lparr>sr_targets = targets, sr_messageHash = None, sr_stuck = False\<rparr> in
      if length targets \<le> 1 then (Inl noOp, s)
      else if \<not> truthy_name (deriveMessageHash sha256 messages) then (Inl noOp, s)
      else
        (let messageHash = scopeMessageHash sha256 (the (deriveMessageHash sha256 messages)) namespace;
             unchanged = \<lparr>sr_targets = targets, sr_messageHash = Some messageHash, sr_stuck = False\<rparr>
         in case jget (stickyMap s) messageHash of
              None \<Rightarrow> (Inl unchanged, s)
            | Some e \<Rightarrow>
                (let s1 = (if truthy_name namespace \<and> se_namespace e \<noteq> namespace
                           then s\<lparr>stickyMap := jset messageHash (e\<lparr>se_namespace := namespace\<rparr>) (stickyMap s)\<rparr> else s)
                 in if now - se_lastUsedAt e > STICKY_TTL_MS then (Inl unchanged, clearStickyBinding messageHash s1)
                    else case findIndex (\<lambda>t. ct_connectionId t = Some (se_connectionId e)) targets of
                           None \<Rightarrow> (Inl unchanged, clearStickyBinding messageHash s1)
                         | Some i \<Rightarrow>
                             (Inr \<lparr>sc_targets = targets, sc_hash = messageHash, sc_ref = se_ref e,
                                   sc_connectionId = se_connectionId e, sc_index = i\<rparr>, s1))))"

definition healthy :: "(string \<Rightarrow> int option) \<Rightarrow> saturation option \<Rightarrow> conn_health option \<Rightarrow> bool \<Rightarrow> int \<Rightarrow> bool" where
  "healthy date sat conn quotaExhausted now \<longleftrightarrow>
     \<not> (computeHeadroom sat \<le> STICKINESS_HEADROOM_THRESHOLD \<or> isStickyConnectionTerminallyUnhealthy date conn now \<or> quotaExhausted)"

text \<open>After them. The entry found before is refreshed, if it still is in the table.\<close>

definition refresh :: "sticky_check \<Rightarrow> int \<Rightarrow> sticky_store \<Rightarrow> sticky_store" where
  "refresh c now s =
     (case jget (stickyMap s) (sc_hash c) of
        Some e \<Rightarrow> if se_ref e = sc_ref c then s\<lparr>stickyMap := jset (sc_hash c) (e\<lparr>se_lastUsedAt := now\<rparr>) (stickyMap s)\<rparr> else s
      | None \<Rightarrow> s)"

definition finish_apply ::
    "(string \<Rightarrow> int option) \<Rightarrow> sticky_check \<Rightarrow> saturation option \<Rightarrow> conn_health option \<Rightarrow> bool \<Rightarrow> int \<Rightarrow> sticky_store \<Rightarrow> sticky_result \<times> sticky_store" where
  "finish_apply date c sat conn quotaExhausted now s =
     (if \<not> healthy date sat conn quotaExhausted now
      then (\<lparr>sr_targets = sc_targets c, sr_messageHash = Some (sc_hash c), sr_stuck = False\<rparr>, clearStickyBinding (sc_hash c) s)
      else (\<lparr>sr_targets = sc_targets c ! sc_index c # take (sc_index c) (sc_targets c) @ drop (Suc (sc_index c)) (sc_targets c),
              sr_messageHash = Some (sc_hash c), sr_stuck = True\<rparr>, refresh c now s))"

text \<open>The two steps with nothing between them.\<close>

definition applySessionStickiness ::
    "(string \<Rightarrow> string) \<Rightarrow> (string \<Rightarrow> int option) \<Rightarrow> (string \<Rightarrow> saturation option) \<Rightarrow> (string \<Rightarrow> conn_health option) \<Rightarrow> (string \<Rightarrow> bool) \<Rightarrow>
     ctarget list \<Rightarrow> json list option \<Rightarrow> string option \<Rightarrow> int \<Rightarrow> sticky_store \<Rightarrow> sticky_result \<times> sticky_store" where
  "applySessionStickiness sha256 date saturation_of health_of exhausted targets messages namespace now s =
     (case begin_apply sha256 targets messages namespace now s of
        (Inl r, s1) \<Rightarrow> (r, s1)
      | (Inr c, s1) \<Rightarrow>
          finish_apply date c (saturation_of (sc_connectionId c)) (health_of (sc_connectionId c)) (exhausted (sc_connectionId c)) now s1)"

interpretation st: evicting evict_sticky se_lastUsedAt STICKY_TTL_MS MAX_STICKY_ENTRIES
  unfolding evict_sticky_def by (rule evicting_entries)

section \<open>Interleavings\<close>

datatype sticky_event =
    S_record string string "string option" int
  | S_clear string
  | S_release "string option" "string option"
  | S_combo string
  | S_begin "ctarget list" "json list option" "string option" int
  | S_finish sticky_check "saturation option" "conn_health option" bool int

record sticky_world =
  sw_store :: sticky_store
  sw_checks :: "sticky_check list"
  sw_recorded :: "(string \<times> string) set"

inductive sticky_step :: "(string \<Rightarrow> string) \<Rightarrow> (string \<Rightarrow> int option) \<Rightarrow> sticky_event \<Rightarrow> sticky_world \<Rightarrow> sticky_world \<Rightarrow> bool" for sha256 date where
  S_recorded: "sticky_step sha256 date (S_record h c ns now) w
     (w\<lparr>sw_store := recordStickyBinding h c ns now (sw_store w), sw_recorded := insert (h, c) (sw_recorded w)\<rparr>)"
| S_cleared: "sticky_step sha256 date (S_clear h) w (w\<lparr>sw_store := clearStickyBinding h (sw_store w)\<rparr>)"
| S_released: "sticky_step sha256 date (S_release h c) w (w\<lparr>sw_store := releaseStickyPinOnFailure h c (sw_store w)\<rparr>)"
| S_combo_cleared: "sticky_step sha256 date (S_combo ns) w (w\<lparr>sw_store := clearStickyBindingsForCombo ns (sw_store w)\<rparr>)"
| S_answered: "begin_apply sha256 ts ms ns now (sw_store w) = (Inl r, s) \<Longrightarrow> sticky_step sha256 date (S_begin ts ms ns now) w (w\<lparr>sw_store := s\<rparr>)"
| S_begun: "begin_apply sha256 ts ms ns now (sw_store w) = (Inr c, s) \<Longrightarrow>
     sticky_step sha256 date (S_begin ts ms ns now) w (w\<lparr>sw_store := s, sw_checks := c # sw_checks w\<rparr>)"
| S_finished: "c \<in> set (sw_checks w) \<Longrightarrow> finish_apply date c sat conn ex now (sw_store w) = (r, s) \<Longrightarrow>
     sticky_step sha256 date (S_finish c sat conn ex now) w (w\<lparr>sw_store := s, sw_checks := remove1 c (sw_checks w)\<rparr>)"

definition table_ok :: "(string \<times> string) set \<Rightarrow> sticky_store \<Rightarrow> bool" where
  "table_ok R s \<longleftrightarrow> jmap_ok (stickyMap s) \<and> length (stickyMap s) \<le> Suc MAX_STICKY_ENTRIES \<and>
     (\<forall>h e. jget (stickyMap s) h = Some e \<longrightarrow> (h, se_connectionId e) \<in> R)"

definition check_ok :: "(string \<times> string) set \<Rightarrow> sticky_check \<Rightarrow> bool" where
  "check_ok R c \<longleftrightarrow> (sc_hash c, sc_connectionId c) \<in> R \<and> sc_index c < length (sc_targets c) \<and>
     ct_connectionId (sc_targets c ! sc_index c) = Some (sc_connectionId c)"

definition sticky_inv :: "sticky_world \<Rightarrow> bool" where
  "sticky_inv w \<longleftrightarrow> table_ok (sw_recorded w) (sw_store w) \<and> (\<forall>c \<in> set (sw_checks w). check_ok (sw_recorded w) c)"

lemma length_jset_hit: "jget m k \<noteq> None \<Longrightarrow> length (jset k v m) = length m"
  by (metis jget_in_keys jkeys_jset length_map)

lemma length_jdel_le: "length (jdel k m) \<le> length m"
  unfolding jdel_def by (rule length_delete_le)

text \<open>Entries change in three ways: by an update in place that keeps the connection, by deletions, by a record.\<close>

lemma table_update:
  assumes "table_ok R s" "jget (stickyMap s) h = Some e" "(h, se_connectionId e') \<in> R"
  shows "table_ok R (s\<lparr>stickyMap := jset h e' (stickyMap s)\<rparr>)"
  using assms by (auto simp: table_ok_def length_jset_hit split: if_splits)

lemma table_clear: "table_ok R s \<Longrightarrow> table_ok R (clearStickyBinding h s)"
  by (auto simp: table_ok_def clearStickyBinding_def intro: order_trans [OF length_jdel_le] split: if_splits)

lemma table_release: "table_ok R s \<Longrightarrow> table_ok R (releaseStickyPinOnFailure h c s)"
  by (simp add: releaseStickyPinOnFailure_def table_clear)

lemma table_clear_combo: "table_ok R s \<Longrightarrow> table_ok R (clearStickyBindingsForCombo ns s)"
  by (auto simp: table_ok_def clearStickyBindingsForCombo_def jmap_ok_filter jget_filter intro: order_trans [OF length_filter_le]
      split: option.splits if_splits)

lemma table_mono: "table_ok R s \<Longrightarrow> R \<subseteq> R' \<Longrightarrow> table_ok R' s"
  by (auto simp: table_ok_def)

lemma table_record:
  assumes "table_ok R s"
  shows "table_ok (insert (h, c) R) (recordStickyBinding h c ns now s)"
proof (cases "jget (stickyMap s) h")
  case None
  have ok: "jmap_ok (stickyMap s)" using assms by (simp add: table_ok_def)
  let ?e = "\<lparr>se_connectionId = c, se_createdAt = now, se_lastUsedAt = now, se_namespace = (if truthy_name ns then ns else None), se_ref = nextRef s\<rparr>"
  have "stickyMap (recordStickyBinding h c ns now s) = st.put h ?e now (stickyMap s)" using None by (simp add: recordStickyBinding_def st.put_def)
  then show ?thesis using assms st.put_get [OF ok, of h ?e now] st.put_ok [OF ok] st.put_bounded [OF ok] unfolding table_ok_def by fastforce
next
  case (Some e)
  then show ?thesis using table_update [OF table_mono [OF assms, of "insert (h, c) R"] Some] by (simp add: recordStickyBinding_def subset_insertI)
qed

lemma table_refresh: "table_ok R s \<Longrightarrow> table_ok R (refresh c now s)"
  by (auto simp: refresh_def table_ok_def length_jset_hit split: option.splits if_splits)

lemma table_finish: "table_ok R s \<Longrightarrow> finish_apply date c sat conn ex now s = (r, s') \<Longrightarrow> table_ok R s'"
  by (auto simp: finish_apply_def table_clear table_refresh split: if_splits)

lemma begin_apply_cases:
  assumes "begin_apply sha256 ts ms ns now s = (r, s')"
  obtains (skip) q where "s' = s" "r = Inl q" "\<not> sr_stuck q" "sr_targets q = ts"
    | (gone) h e s1 q where "jget (stickyMap s) h = Some e" "s' = clearStickyBinding h s1" "r = Inl q" "\<not> sr_stuck q" "sr_targets q = ts"
        "s1 = s \<or> s1 = s\<lparr>stickyMap := jset h (e\<lparr>se_namespace := ns\<rparr>) (stickyMap s)\<rparr>"
    | (check) h e i where "jget (stickyMap s) h = Some e" "findIndex (\<lambda>t. ct_connectionId t = Some (se_connectionId e)) ts = Some i"
        "r = Inr \<lparr>sc_targets = ts, sc_hash = h, sc_ref = se_ref e, sc_connectionId = se_connectionId e, sc_index = i\<rparr>"
        "s' = s \<or> s' = s\<lparr>stickyMap := jset h (e\<lparr>se_namespace := ns\<rparr>) (stickyMap s)\<rparr>"
proof -
  let ?raw = "deriveMessageHash sha256 ms" and ?h = "scopeMessageHash sha256 (the (deriveMessageHash sha256 ms)) ns"
  show thesis
  proof (cases "length ts \<le> 1 \<or> \<not> truthy_name ?raw \<or> jget (stickyMap s) ?h = None")
    case True
    then have "\<exists>q. s' = s \<and> r = Inl q \<and> \<not> sr_stuck q \<and> sr_targets q = ts" using assms by (auto simp: begin_apply_def Let_def split: if_splits)
    then show thesis using skip by blast
  next
    case False
    then obtain e where e: "jget (stickyMap s) ?h = Some e" by auto
    define s1 where "s1 = (if truthy_name ns \<and> se_namespace e \<noteq> ns then s\<lparr>stickyMap := jset ?h (e\<lparr>se_namespace := ns\<rparr>) (stickyMap s)\<rparr> else s)"
    have s1: "s1 = s \<or> s1 = s\<lparr>stickyMap := jset ?h (e\<lparr>se_namespace := ns\<rparr>) (stickyMap s)\<rparr>" by (simp add: s1_def)
    let ?u = "\<lparr>sr_targets = ts, sr_messageHash = Some ?h, sr_stuck = False\<rparr>"
    have eq: "(r, s') = (if now - se_lastUsedAt e > STICKY_TTL_MS then (Inl ?u, clearStickyBinding ?h s1)
        else case findIndex (\<lambda>t. ct_connectionId t = Some (se_connectionId e)) ts of None \<Rightarrow> (Inl ?u, clearStickyBinding ?h s1)
             | Some i \<Rightarrow> (Inr \<lparr>sc_targets = ts, sc_hash = ?h, sc_ref = se_ref e, sc_connectionId = se_connectionId e, sc_index = i\<rparr>, s1))"
      using False assms [symmetric] by (simp add: begin_apply_def Let_def e s1_def [symmetric])
    show thesis
    proof (cases "findIndex (\<lambda>t. ct_connectionId t = Some (se_connectionId e)) ts")
      case None
      then show thesis using eq s1 by (intro gone [OF e, of s1 ?u]) (simp_all split: if_splits)
    next
      case (Some i)
      show thesis
      proof (cases "now - se_lastUsedAt e > STICKY_TTL_MS")
        case True
        then show thesis using eq s1 by (intro gone [OF e, of s1 ?u]) simp_all
      next
        case False
        then show thesis using eq s1 Some by (intro check [OF e Some]) simp_all
      qed
    qed
  qed
qed

lemma begin_apply_ok:
  assumes "table_ok R s" "begin_apply sha256 ts ms ns now s = (r, s')"
  shows "table_ok R s' \<and> (\<forall>c. r = Inr c \<longrightarrow> check_ok R c)"
  using assms(2)
proof (cases rule: begin_apply_cases)
  case (gone h e s1 q)
  have "table_ok R s1" using gone(1,6) assms(1) table_update [OF assms(1) gone(1), of "e\<lparr>se_namespace := ns\<rparr>"] by (auto simp: table_ok_def)
  then show ?thesis using gone by (simp add: table_clear)
next
  case (check h e i)
  have "(h, se_connectionId e) \<in> R" using assms(1) check(1) by (auto simp: table_ok_def)
  then have "table_ok R s'" "check_ok R \<lparr>sc_targets = ts, sc_hash = h, sc_ref = se_ref e, sc_connectionId = se_connectionId e, sc_index = i\<rparr>"
    using check(4) assms(1) table_update [OF assms(1) check(1), of "e\<lparr>se_namespace := ns\<rparr>"] findIndex_Some [OF check(2)]
    by (auto simp: check_ok_def)
  then show ?thesis using check(3) by simp
qed (use assms(1) in auto)

lemma check_mono: "check_ok R c \<Longrightarrow> R \<subseteq> R' \<Longrightarrow> check_ok R' c"
  by (auto simp: check_ok_def)

interpretation sticky: step_system "sticky_step sha256 date" sticky_inv for sha256 date
proof
  fix e w w' assume step: "sticky_step sha256 date e w w'" and inv: "sticky_inv w"
  note t = inv [unfolded sticky_inv_def]
  show "sticky_inv w'" using step
  proof cases
    case (S_recorded h c ns now)
    then show ?thesis using t table_record check_mono [OF _ subset_insertI] by (auto simp: sticky_inv_def)
  next
    case (S_begun ts ms ns now c s)
    then show ?thesis using t begin_apply_ok [OF conjunct1 [OF t] S_begun(3)] by (auto simp: sticky_inv_def)
  next
    case (S_answered ts ms ns now r s)
    then show ?thesis using t begin_apply_ok [OF conjunct1 [OF t] S_answered(3)] by (auto simp: sticky_inv_def)
  next
    case (S_finished c sat conn ex now r s)
    then show ?thesis using t table_finish [OF conjunct1 [OF t] S_finished(4)] by (auto simp: sticky_inv_def dest: notin_set_remove1)
  qed (use t in \<open>auto simp: sticky_inv_def table_clear table_release table_clear_combo\<close>)
qed

section \<open>Properties\<close>

lemma promote_perm: "i < length xs \<Longrightarrow> mset (xs ! i # take i xs @ drop (Suc i) xs) = mset xs"
  using mset_splice_out [of i xs] by (simp add: splice_out_def)


text \<open>The digest of the examples maps every text to the same sixteen characters.\<close>

definition demo_digest :: "string \<Rightarrow> string" where
  "demo_digest s = replicate 16 (CHR ''0'')"

definition demo_conn_target :: "string \<Rightarrow> ctarget" where
  "demo_conn_target c = \<lparr>ct_stepId = c, ct_executionKey = c, ct_modelStr = ''p/m'', ct_provider = ''p'', ct_providerId = None,
     ct_connectionId = Some c, ct_allowed = [], ct_weight = 0, ct_label = None, ct_prompt = None, ct_quotaOnly = False\<rparr>"

definition demo_check :: sticky_check where
  "demo_check = \<lparr>sc_targets = [demo_conn_target ''a'', demo_conn_target ''b''], sc_hash = demo_digest [], sc_ref = 0, sc_connectionId = ''b'', sc_index = 1\<rparr>"

definition demo_world :: sticky_world where
  "demo_world = \<lparr>sw_store = recordStickyBinding (demo_digest []) ''b'' (Some ''c'') 0 \<lparr>stickyMap = [], nextRef = 0\<rparr>, sw_checks = [demo_check],
     sw_recorded = {(demo_digest [], ''b'')}\<rparr>"

lemma demo_begin:
  "begin_apply demo_digest [demo_conn_target ''a'', demo_conn_target ''b''] (Some [user_message ''hi'']) (Some ''c'') 5 (sw_store demo_world) =
   (Inr demo_check, sw_store demo_world)"
  by code_simp

lemma demo_world_reached:
  "reaches (sticky_step demo_digest date) \<lparr>sw_store = \<lparr>stickyMap = [], nextRef = 0\<rparr>, sw_checks = [], sw_recorded = {}\<rparr> demo_world"
proof -
  let ?w1 = "\<lparr>sw_store = sw_store demo_world, sw_checks = [], sw_recorded = {(demo_digest [], ''b'')}\<rparr>"
  have "sticky_step demo_digest date (S_record (demo_digest []) ''b'' (Some ''c'') 0) \<lparr>sw_store = \<lparr>stickyMap = [], nextRef = 0\<rparr>, sw_checks = [], sw_recorded = {}\<rparr> ?w1"
    using S_recorded [of demo_digest date "demo_digest []" "''b''" "Some ''c''" 0 "\<lparr>sw_store = \<lparr>stickyMap = [], nextRef = 0\<rparr>, sw_checks = [], sw_recorded = {}\<rparr>"]
    by (simp add: demo_world_def)
  moreover have "sticky_step demo_digest date (S_begin [demo_conn_target ''a'', demo_conn_target ''b''] (Some [user_message ''hi'']) (Some ''c'') 5) ?w1 demo_world"
    using S_begun [of demo_digest _ _ _ 5 ?w1 demo_check "sw_store demo_world" date] demo_begin by (simp add: demo_world_def)
  ultimately show ?thesis by (meson reaches_more reaches_one)
qed


lemma deriveMessageHash_append: "deriveMessageHash sha256 (Some ms) = Some h \<Longrightarrow> deriveMessageHash sha256 (Some (ms @ later)) = Some h"
proof -
  assume h: "deriveMessageHash sha256 (Some ms) = Some h"
  then obtain m where "find is_user ms = Some m" by (auto simp: deriveMessageHash_def split: option.splits)
  then have "find is_user (ms @ later) = Some m" by (induction ms) (auto split: if_splits)
  then show ?thesis using h \<open>find is_user ms = Some m\<close> by (simp add: deriveMessageHash_def)
qed

lemma record_self:
  assumes "jmap_ok (stickyMap s)" "s' = recordStickyBinding h c ns now s"
  shows "\<exists>e. jget (stickyMap s') h = Some e \<and> se_connectionId e = c \<and> se_lastUsedAt e = now"
    "jmap_ok (stickyMap s')" "set (jkeys (stickyMap s')) \<subseteq> insert h (set (jkeys (stickyMap s)))"
proof -
  show "\<exists>e. jget (stickyMap s') h = Some e \<and> se_connectionId e = c \<and> se_lastUsedAt e = now"
    by (simp add: assms(2) recordStickyBinding_def split: option.split)
  show "jmap_ok (stickyMap s')" by (simp add: assms recordStickyBinding_def st.evict_ok split: option.split)
  show "set (jkeys (stickyMap s')) \<subseteq> insert h (set (jkeys (stickyMap s)))"
  proof (cases "jget (stickyMap s) h")
    case None
    then have "\<exists>v. stickyMap s' = jset h v (evict_sticky now (stickyMap s))" by (auto simp: assms(2) recordStickyBinding_def)
    then have "set (jkeys (stickyMap s')) = insert h (set (jkeys (evict_sticky now (stickyMap s))))" by (auto simp only: set_jkeys_jset)
    then show ?thesis using st.keys_evict [OF assms(1), of now] by blast
  qed (simp add: assms(2) recordStickyBinding_def)
qed

lemma record_other:
  assumes "jmap_ok (stickyMap s)" "length (stickyMap s) \<le> MAX_STICKY_ENTRIES" "h' \<noteq> h" "jget (stickyMap s) h = Some e" "t - se_lastUsedAt e \<le> STICKY_TTL_MS"
  shows "jget (stickyMap (recordStickyBinding h' c ns t s)) h = Some e"
  using assms(3,4) st.evict_few [OF assms(1,2,4,5)] by (simp add: recordStickyBinding_def split: option.split)

lemma traffic_keeps:
  assumes "jmap_ok (stickyMap s)" "jget (stickyMap s) h = Some e" "finite K" "card K \<le> MAX_STICKY_ENTRIES" "set (jkeys (stickyMap s)) \<subseteq> K"
    and "list_all (\<lambda>(h', c, t). h' \<in> K \<and> h' \<noteq> h \<and> t - se_lastUsedAt e \<le> STICKY_TTL_MS) traffic"
  shows "jget (stickyMap (fold (\<lambda>(h', c, t). recordStickyBinding h' c None t) traffic s)) h = Some e"
  using assms(1,2,5,6)
proof (induction traffic arbitrary: s)
  case (Cons p traffic)
  obtain h' c t where p: "p = (h', c, t)" by (cases p) auto
  note rec = record_self [OF Cons.prems(1) refl, of h' c None t]
  have "jget (stickyMap (recordStickyBinding h' c None t s)) h = Some e"
    using Cons.prems p st.few_keys [OF Cons.prems(1,3) assms(3,4)] by (intro record_other) auto
  then show ?case using Cons.IH [OF rec(2)] rec(3) Cons.prems(3,4) by (auto simp: p)
qed simp



section \<open>Observations\<close>

text \<open>
  A check that was begun for one connection and finds it unhealthy deletes the pin of the conversation even if another
  request has meanwhile moved it to a healthy connection.
\<close>

lemma stale_check_drops_new_binding:
  "let s = recordStickyBinding (sc_hash demo_check) ''a'' None 7 (sw_store demo_world);
       (r, s') = finish_apply (\<lambda>_. None) demo_check None (Some \<lparr>testStatus = Some ''banned'', rateLimitedUntil = None\<rparr>) False 9 s
   in peekStickyConnectionId (sc_hash demo_check) s = Some ''a'' \<and> \<not> sr_stuck r \<and> peekStickyConnectionId (sc_hash demo_check) s' = None"
  by code_simp

text \<open>
  The callers record without a namespace, so the pins of a combo that no later request has read escape the clearing.
\<close>

lemma combo_clear_misses_fresh_binding:
  "let s = recordStickyBinding (demo_digest []) ''b'' None 0 \<lparr>stickyMap = [], nextRef = 0\<rparr>;
       s' = clearStickyBindingsForCombo ''c'' s
   in sr_stuck (fst (applySessionStickiness demo_digest (\<lambda>_. None) (\<lambda>_. None) (\<lambda>_. None) (\<lambda>_. False)
        [demo_conn_target ''a'', demo_conn_target ''b''] (Some [user_message ''hi'']) (Some ''c'') 9 s'))"
  by code_simp

end
