(* ===== verification/Budget_Window.thy ===== *)
theory Budget_Window
  imports Js_Prelude
begin

text \<open>
  Budget windows (\<^verbatim>\<open>src/domain/budgetWindow.ts\<close>): the period of a daily, weekly or monthly budget that contains a
  moment. The calendar is that of \<^verbatim>\<open>Date\<close> in UTC, as the language defines it: days since 1970 from year, month and day,
  where month and day may run over, and back. Times are whole milliseconds.
\<close>

section \<open>The calendar\<close>

definition MS_PER_DAY :: int where
  "MS_PER_DAY = 86400000"

definition day_of :: "int \<Rightarrow> int" where
  "day_of t = t div MS_PER_DAY"

definition leap_year :: "int \<Rightarrow> bool" where
  "leap_year y \<longleftrightarrow> y mod 4 = 0 \<and> y mod 100 \<noteq> 0 \<or> y mod 400 = 0"

definition day_from_year :: "int \<Rightarrow> int" where
  "day_from_year y = 365 * (y - 1970) + (y - 1969) div 4 - (y - 1901) div 100 + (y - 1601) div 400"

text \<open>The year of a day: the average length of a year gives it up to one.\<close>

definition year_of_day :: "int \<Rightarrow> int" where
  "year_of_day d =
     (let y = 1970 + (400 * d) div 146097 in
      if d < day_from_year y then y - 1 else if day_from_year (y + 1) \<le> d then y + 1 else y)"

definition month_table :: "int list" where
  "month_table = [0, 31, 59, 90, 120, 151, 181, 212, 243, 273, 304, 334, 365]"

definition days_before :: "bool \<Rightarrow> int \<Rightarrow> int" where
  "days_before leap m = month_table ! nat m + (if leap \<and> m \<ge> 2 then 1 else 0)"

definition month_of :: "bool \<Rightarrow> int \<Rightarrow> int" where
  "month_of leap k =
     (if k < days_before leap 1 then 0 else if k < days_before leap 2 then 1 else if k < days_before leap 3 then 2
      else if k < days_before leap 4 then 3 else if k < days_before leap 5 then 4 else if k < days_before leap 6 then 5
      else if k < days_before leap 7 then 6 else if k < days_before leap 8 then 7 else if k < days_before leap 9 then 8
      else if k < days_before leap 10 then 9 else if k < days_before leap 11 then 10 else 11)"

definition make_day :: "int \<Rightarrow> int \<Rightarrow> int \<Rightarrow> int" where
  "make_day year month dt =
     (let y = year + month div 12 in day_from_year y + days_before (leap_year y) (month mod 12) + dt - 1)"

definition getUTCFullYear :: "int \<Rightarrow> int" where
  "getUTCFullYear t = year_of_day (day_of t)"

definition day_in_year :: "int \<Rightarrow> int" where
  "day_in_year d = d - day_from_year (year_of_day d)"

definition getUTCMonth :: "int \<Rightarrow> int" where
  "getUTCMonth t = month_of (leap_year (getUTCFullYear t)) (day_in_year (day_of t))"

definition getUTCDate :: "int \<Rightarrow> int" where
  "getUTCDate t = day_in_year (day_of t) - days_before (leap_year (getUTCFullYear t)) (getUTCMonth t) + 1"

definition getUTCDay :: "int \<Rightarrow> int" where
  "getUTCDay t = (day_of t + 4) mod 7"

section \<open>Windows\<close>

datatype interval = Daily | Weekly | Monthly

record budget_window =
  periodStartAt :: int
  nextResetAt :: int

text \<open>The pattern of two digits, a colon and two digits.\<close>

definition reset_time_match :: "string \<Rightarrow> (int \<times> int) option" where
  "reset_time_match s =
     (case s of
        [a, b, c, d, e] \<Rightarrow>
          if is_digit a \<and> is_digit b \<and> c = CHR '':'' \<and> is_digit d \<and> is_digit e
          then Some (digits_value [a, b], digits_value [d, e]) else None
      | _ \<Rightarrow> None)"

definition padStart2 :: "int \<Rightarrow> string" where
  "padStart2 n = (let s = dec (nat n) in if length s < 2 then CHR ''0'' # s else s)"

definition normalizeResetTime :: "string option \<Rightarrow> string" where
  "normalizeResetTime v =
     (case v of
        None \<Rightarrow> ''00:00''
      | Some s \<Rightarrow>
          (case reset_time_match (js_trim s) of
             None \<Rightarrow> ''00:00''
           | Some (h, m) \<Rightarrow> padStart2 (min (max h 0) 23) @ '':'' @ padStart2 (min (max m 0) 59)))"

definition getResetTimeParts :: "string \<Rightarrow> int \<times> int" where
  "getResetTimeParts s = (case reset_time_match s of None \<Rightarrow> (0, 0) | Some p \<Rightarrow> p)"

definition getUtcDateMs :: "int \<Rightarrow> int \<Rightarrow> int \<Rightarrow> int \<Rightarrow> int \<Rightarrow> int" where
  "getUtcDateMs year month dt hours minutes = make_day year month dt * MS_PER_DAY + hours * 3600000 + minutes * 60000"

definition getBudgetWindow :: "interval \<Rightarrow> string option \<Rightarrow> int \<Rightarrow> budget_window" where
  "getBudgetWindow resetInterval resetTime now =
     (case getResetTimeParts (normalizeResetTime resetTime) of
        (hours, minutes) \<Rightarrow>
          (let year = getUTCFullYear now; month = getUTCMonth now; dt = getUTCDate now in
           case resetInterval of
             Weekly \<Rightarrow>
               (let daysSinceMonday = (getUTCDay now + 6) mod 7;
                    thisWeekReset = getUtcDateMs year month (dt - daysSinceMonday) hours minutes
                in if now \<ge> thisWeekReset
                   then \<lparr>periodStartAt = thisWeekReset, nextResetAt = getUtcDateMs year month (dt - daysSinceMonday + 7) hours minutes\<rparr>
                   else \<lparr>periodStartAt = getUtcDateMs year month (dt - daysSinceMonday - 7) hours minutes, nextResetAt = thisWeekReset\<rparr>)
           | Monthly \<Rightarrow>
               (let thisMonthReset = getUtcDateMs year month 1 hours minutes
                in if now \<ge> thisMonthReset
                   then \<lparr>periodStartAt = thisMonthReset, nextResetAt = getUtcDateMs year (month + 1) 1 hours minutes\<rparr>
                   else \<lparr>periodStartAt = getUtcDateMs year (month - 1) 1 hours minutes, nextResetAt = thisMonthReset\<rparr>)
           | Daily \<Rightarrow>
               (let todayReset = getUtcDateMs year month dt hours minutes
                in if now \<ge> todayReset
                   then \<lparr>periodStartAt = todayReset, nextResetAt = getUtcDateMs year month (dt + 1) hours minutes\<rparr>
                   else \<lparr>periodStartAt = getUtcDateMs year month (dt - 1) hours minutes, nextResetAt = todayReset\<rparr>)))"

section \<open>The calendar is consistent\<close>

lemma div_bounds: "b * (a div b) \<le> a" "a < b * (a div b) + b" if "0 < b" for a b :: int
  using that pos_mod_sign [of b a] pos_mod_bound [of b a] mult_div_mod_eq [of b a] by linarith+

lemma div_Suc_int:
  fixes x b :: int
  assumes "0 < b"
  shows "(x + 1) div b = x div b + (if (x + 1) mod b = 0 then 1 else 0)"
proof (cases "(x + 1) mod b = 0")
  case True
  then have "x + 1 = b * ((x + 1) div b)" using mult_div_mod_eq [of b "x + 1"] by linarith
  then have "x = b * ((x + 1) div b - 1) + (b - 1)" by (simp add: algebra_simps)
  then have "x div b = (x + 1) div b - 1" using assms by (intro int_div_pos_eq [of x b _ "b - 1"]) simp_all
  then show ?thesis using True by simp
next
  case False
  then have "0 < (x + 1) mod b" "(x + 1) mod b < b" using assms pos_mod_sign [of b "x + 1"] pos_mod_bound [of b "x + 1"] by linarith+
  moreover have "x = b * ((x + 1) div b) + ((x + 1) mod b - 1)" using mult_div_mod_eq [of b "x + 1"] by linarith
  ultimately have "x div b = (x + 1) div b" by (intro int_div_pos_eq [of x b _ "(x + 1) mod b - 1"]) simp_all
  then show ?thesis using False by simp
qed

lemma day_from_year_bounds:
  "146097 * (y - 1970) - 506 \<le> 400 * day_from_year y \<and> 400 * day_from_year y \<le> 146097 * (y - 1970) + 589"
proof -
  note b = div_bounds [of 4 "y - 1969"] div_bounds [of 100 "y - 1901"] div_bounds [of 400 "y - 1601"]
  show ?thesis using b unfolding day_from_year_def by (intro conjI) simp_all
qed

lemma year_of_day: "day_from_year (year_of_day d) \<le> d" "d < day_from_year (year_of_day d + 1)"
proof -
  define q where "q = (400 * d) div 146097"
  have q: "146097 * q \<le> 400 * d" "400 * d < 146097 * q + 146097" using div_bounds [of 146097 "400 * d"] by (simp_all add: q_def)
  have lo: "day_from_year (1970 + q - 1) \<le> d" using day_from_year_bounds [of "1970 + q - 1"] q by simp
  have hi: "d < day_from_year (1970 + q + 1 + 1)" using day_from_year_bounds [of "1970 + q + 1 + 1"] q by simp
  show "day_from_year (year_of_day d) \<le> d" using lo unfolding year_of_day_def q_def [symmetric] Let_def by simp
  show "d < day_from_year (year_of_day d + 1)" using hi unfolding year_of_day_def q_def [symmetric] Let_def by simp
qed

definition year_length :: "int \<Rightarrow> int" where
  "year_length y = (if leap_year y then 366 else 365)"

lemma day_from_year_Suc: "day_from_year (y + 1) = day_from_year y + year_length y"
proof -
  have r: "(y - 1969 + 1) mod 4 = y mod 4" "(y - 1901 + 1) mod 100 = y mod 100" "(y - 1601 + 1) mod 400 = y mod 400"
    using mod_mult_self1 [of y "- 492" 4] mod_mult_self1 [of y "- 19" 100] mod_mult_self1 [of y "- 4" 400] by simp_all
  note e = div_Suc_int [of 4 "y - 1969", unfolded r, OF zero_less_numeral] div_Suc_int [of 100 "y - 1901", unfolded r, OF zero_less_numeral]
    div_Suc_int [of 400 "y - 1601", unfolded r, OF zero_less_numeral]
  have m: "y mod 400 = 0 \<Longrightarrow> y mod 100 = 0" "y mod 100 = 0 \<Longrightarrow> y mod 4 = 0"
    using dvd_trans [of 100 400 y] dvd_trans [of 4 100 y] by (simp_all add: mod_eq_0_iff_dvd)
  have "day_from_year (y + 1) = 365 * (y + 1 - 1970) + (y - 1969 + 1) div 4 - (y - 1901 + 1) div 100 + (y - 1601 + 1) div 400"
    by (simp add: day_from_year_def)
  moreover have "365 * (y + 1 - 1970) + (A + (if p then 1 else 0)) - (B + (if q then 1 else 0)) + (C + (if r then 1 else 0)) =
      365 * (y - 1970) + A - B + C + (if p \<and> \<not> q \<or> r then 366 else 365)" if "r \<Longrightarrow> q" "q \<Longrightarrow> p" for A B C p q r using that by (cases p; cases q; cases r) simp_all
  ultimately show ?thesis unfolding e year_length_def leap_year_def day_from_year_def [of y] using m by presburger
qed

lemma day_in_year: "0 \<le> day_in_year d" "day_in_year d < year_length (year_of_day d)"
  using year_of_day [of d] day_from_year_Suc [of "year_of_day d"] by (simp_all add: day_in_year_def)

lemma days_before_simps:
  "days_before leap 0 = 0" "days_before leap 1 = 31" "days_before leap 2 = (if leap then 60 else 59)" "days_before leap 3 = (if leap then 91 else 90)"
  "days_before leap 4 = (if leap then 121 else 120)" "days_before leap 5 = (if leap then 152 else 151)" "days_before leap 6 = (if leap then 182 else 181)"
  "days_before leap 7 = (if leap then 213 else 212)" "days_before leap 8 = (if leap then 244 else 243)" "days_before leap 9 = (if leap then 274 else 273)"
  "days_before leap 10 = (if leap then 305 else 304)" "days_before leap 11 = (if leap then 335 else 334)" "days_before leap 12 = (if leap then 366 else 365)"
  by (simp_all add: days_before_def month_table_def)

lemma month_of_range:
  assumes "0 \<le> k" "k < (if leap then 366 else 365)"
  shows "0 \<le> month_of leap k \<and> month_of leap k \<le> 11 \<and> days_before leap (month_of leap k) \<le> k \<and> k < days_before leap (month_of leap k + 1)"
proof (cases leap)
  case True
  then show ?thesis using assms unfolding month_of_def by (simp add: days_before_simps)
next
  case False
  then show ?thesis using assms unfolding month_of_def by (simp add: days_before_simps)
qed

text \<open>The fields of a moment name its day.\<close>

lemma month_bounds:
  "0 \<le> getUTCMonth t" "getUTCMonth t \<le> 11"
  "days_before (leap_year (getUTCFullYear t)) (getUTCMonth t) \<le> day_in_year (day_of t)"
  "day_in_year (day_of t) < days_before (leap_year (getUTCFullYear t)) (getUTCMonth t + 1)"
proof -
  have "day_in_year (day_of t) < (if leap_year (getUTCFullYear t) then 366 else 365)"
    using day_in_year(2) [of "day_of t"] by (simp add: getUTCFullYear_def year_length_def split: if_splits)
  note r = month_of_range [OF day_in_year(1) this, folded getUTCMonth_def]
  show "0 \<le> getUTCMonth t" "getUTCMonth t \<le> 11"
    "days_before (leap_year (getUTCFullYear t)) (getUTCMonth t) \<le> day_in_year (day_of t)"
    "day_in_year (day_of t) < days_before (leap_year (getUTCFullYear t)) (getUTCMonth t + 1)" using r by simp_all
qed

lemma make_day_own: "make_day (getUTCFullYear t) (getUTCMonth t) d = day_of t - getUTCDate t + d"
  using month_bounds(1,2) [of t] by (simp add: make_day_def Let_def getUTCDate_def day_in_year_def getUTCFullYear_def)

definition first_day :: "int \<Rightarrow> int" where
  "first_day M = make_day 0 M 1"

lemma make_day_month: "make_day y m 1 = first_day (12 * y + m)"
  by (simp add: first_day_def make_day_def Let_def)

lemma days_before_step:
  assumes "0 \<le> m" "m \<le> 11"
  shows "days_before leap m + 28 \<le> days_before leap (m + 1) \<and> days_before leap (m + 1) \<le> days_before leap m + 31"
proof -
  have "m = 0 \<or> m = 1 \<or> m = 2 \<or> m = 3 \<or> m = 4 \<or> m = 5 \<or> m = 6 \<or> m = 7 \<or> m = 8 \<or> m = 9 \<or> m = 10 \<or> m = 11" using assms by presburger
  then show ?thesis by (elim disjE) (simp_all add: days_before_simps)
qed

lemma first_day_eq: "first_day M = day_from_year (M div 12) + days_before (leap_year (M div 12)) (M mod 12)"
  by (simp add: first_day_def make_day_def Let_def)

lemma div_mod_12:
  "M mod 12 = 11 \<Longrightarrow> (M + 1) mod 12 = 0 \<and> (M + 1) div 12 = M div 12 + 1"
  "M mod 12 \<noteq> 11 \<Longrightarrow> (M + 1) mod 12 = M mod 12 + 1 \<and> (M + 1) div 12 = M div 12 \<and> M mod 12 \<le> 10" for M :: int
proof -
  have M: "M = 12 * (M div 12) + M mod 12" by simp
  show "(M + 1) mod 12 = 0 \<and> (M + 1) div 12 = M div 12 + 1" if "M mod 12 = 11"
  proof -
    have "M + 1 = 12 * (M div 12 + 1)" using M unfolding that by simp
    then show ?thesis using int_mod_pos_eq [of "M + 1" 12 "M div 12 + 1" 0] int_div_pos_eq [of "M + 1" 12 "M div 12 + 1" 0] by simp
  qed
  assume ne: "M mod 12 \<noteq> 11"
  have "M mod 12 < 12" "0 \<le> M mod 12" by simp_all
  then have lt: "M mod 12 + 1 < 12" "0 \<le> M mod 12 + 1" using ne by linarith+
  have "(M + 1) mod 12 = M mod 12 + 1" by (rule int_mod_pos_eq [of _ _ "M div 12"]) (use M lt in linarith)+
  moreover have "(M + 1) div 12 = M div 12" by (rule int_div_pos_eq [of _ _ _ "M mod 12 + 1"]) (use M lt in linarith)+
  ultimately show "(M + 1) mod 12 = M mod 12 + 1 \<and> (M + 1) div 12 = M div 12 \<and> M mod 12 \<le> 10" using lt by simp
qed

lemma first_day_Suc: "first_day M + 28 \<le> first_day (M + 1) \<and> first_day (M + 1) \<le> first_day M + 31"
proof (cases "M mod 12 = 11")
  case True
  have "first_day (M + 1) = day_from_year (M div 12) + year_length (M div 12)"
    using div_mod_12(1) [OF True] by (simp only: first_day_eq days_before_simps day_from_year_Suc)
  moreover have "year_length y = days_before (leap_year y) 11 + 31" for y by (simp add: year_length_def days_before_simps)
  ultimately show ?thesis by (simp only: first_day_eq [of M] True) simp
next
  case False
  have "first_day (M + 1) = day_from_year (M div 12) + days_before (leap_year (M div 12)) (M mod 12 + 1)"
    using div_mod_12(2) [OF False] by (simp only: first_day_eq)
  moreover have "0 \<le> M mod 12" "M mod 12 \<le> 11" using div_mod_12(2) [OF False] by simp_all
  ultimately show ?thesis using days_before_step [of "M mod 12" "leap_year (M div 12)"] by (simp only: first_day_eq [of M]) simp
qed

section \<open>Schedules\<close>

text \<open>Moments at which periods begin, one after the other: every moment lies in exactly one period.\<close>

locale schedule =
  fixes boundary :: "int \<Rightarrow> int"
  assumes boundary_step: "boundary k < boundary (k + 1)"
begin

lemma boundary_mono: "k \<le> l \<Longrightarrow> boundary k \<le> boundary l"
proof (induction l rule: int_ge_induct)
  case (step i)
  then show ?case using boundary_step [of i] by linarith
qed simp

lemma period_unique:
  assumes "boundary k \<le> t" "t < boundary (k + 1)" "boundary l \<le> t" "t < boundary (l + 1)"
  shows "k = l"
proof (rule ccontr)
  assume "k \<noteq> l"
  then have "k + 1 \<le> l \<or> l + 1 \<le> k" by linarith
  then show False using boundary_mono [of "k + 1" l] boundary_mono [of "l + 1" k] assms by linarith
qed

end

fun boundary_at :: "interval \<Rightarrow> int \<Rightarrow> int \<Rightarrow> int" where
  "boundary_at Daily off k = k * MS_PER_DAY + off"
| "boundary_at Weekly off k = (7 * k + 4) * MS_PER_DAY + off"
| "boundary_at Monthly off k = first_day k * MS_PER_DAY + off"

interpretation bs: schedule "boundary_at iv off" for iv off
proof
  show "boundary_at iv off k < boundary_at iv off (k + 1)" for k
    using first_day_Suc [of k] by (cases iv) (simp_all add: MS_PER_DAY_def algebra_simps)
qed

lemma padStart2_digits:
  assumes "0 \<le> n" "n < 100"
  obtains a b where "padStart2 n = [a, b]" "is_digit a" "is_digit b" "digits_value [a, b] = n"
proof (cases "n < 10")
  case True
  then have "nat n < 10" using assms(1) by simp
  then have d: "dec (nat n) = [char_of (48 + nat n)]" by (subst dec.simps) simp
  have "digits_value [char_of (48 + nat n)] = n" using dec_spec [of "nat n"] assms(1) by (simp add: d)
  then have "digits_value [CHR ''0'', char_of (48 + nat n)] = n" by (simp add: digits_value_def)
  then show thesis using that [of "CHR ''0''" "char_of (48 + nat n)"] d digit_char(1) [of "nat n"] True assms(1)
    by (simp add: padStart2_def is_digit_def)
next
  case False
  have lt: "nat n div 10 < 10" using assms by linarith
  have "\<not> nat n < 10" using False by simp
  then have "dec (nat n) = dec (nat n div 10) @ [char_of (48 + nat n mod 10)]" by (subst dec.simps) simp
  also have "dec (nat n div 10) = [char_of (48 + nat n div 10)]" using lt by (subst dec.simps) simp
  finally have d: "dec (nat n) = [char_of (48 + nat n div 10), char_of (48 + nat n mod 10)]" by simp
  then show thesis using that dec_spec [of "nat n"] assms(1) by (simp add: padStart2_def)
qed

lemma reset_parts_range:
  obtains h m where "getResetTimeParts (normalizeResetTime rt) = (h, m)" "0 \<le> h" "h \<le> 23" "0 \<le> m" "m \<le> 59"
proof -
  have zero: "getResetTimeParts ''00:00'' = (0, 0)" by code_simp
  show thesis
  proof (cases "\<exists>s h m. rt = Some s \<and> reset_time_match (js_trim s) = Some (h, m)")
    case True
    then obtain s h m where s: "rt = Some s" "reset_time_match (js_trim s) = Some (h, m)" by blast
    define h' m' where "h' = min (max h 0) 23" and "m' = min (max m 0) 59"
    have r: "0 \<le> h'" "h' \<le> 23" "0 \<le> m'" "m' \<le> 59" by (simp_all add: h'_def m'_def)
    obtain a b where ab: "padStart2 h' = [a, b]" "is_digit a" "is_digit b" "digits_value [a, b] = h'" by (rule padStart2_digits [of h']) (use r in auto)
    obtain c d where cd: "padStart2 m' = [c, d]" "is_digit c" "is_digit d" "digits_value [c, d] = m'" by (rule padStart2_digits [of m']) (use r in auto)
    have "normalizeResetTime rt = [a, b, CHR '':'', c, d]"
      by (simp add: s normalizeResetTime_def h'_def [symmetric] m'_def [symmetric] ab(1) cd(1))
    then have "getResetTimeParts (normalizeResetTime rt) = (h', m')" using ab cd by (simp add: getResetTimeParts_def reset_time_match_def)
    then show thesis using that r by blast
  next
    case False
    then have "normalizeResetTime rt = ''00:00''" by (auto simp: normalizeResetTime_def split: option.split)
    then show thesis using that [of 0 0] zero by simp
  qed
qed

definition reset_offset :: "string option \<Rightarrow> int" where
  "reset_offset rt = (case getResetTimeParts (normalizeResetTime rt) of (h, m) \<Rightarrow> h * 3600000 + m * 60000)"

lemma reset_offset_range: "0 \<le> reset_offset rt" "reset_offset rt < MS_PER_DAY"
  by (rule reset_parts_range [of rt]; simp add: reset_offset_def MS_PER_DAY_def)+

lemma getUtcDateMs_offset:
  "getResetTimeParts (normalizeResetTime rt) = (h, m) \<Longrightarrow> getUtcDateMs y mo d h m = make_day y mo d * MS_PER_DAY + reset_offset rt"
  by (simp add: getUtcDateMs_def reset_offset_def)

lemma day_of_bounds: "day_of t * MS_PER_DAY \<le> t" "t < day_of t * MS_PER_DAY + MS_PER_DAY"
  using div_bounds [of MS_PER_DAY t] by (simp_all add: day_of_def MS_PER_DAY_def mult.commute)

text \<open>The week of a day begins at the Monday before it: days since 1970 that leave 4 when divided by 7.\<close>

lemma monday_of: "day_of t - (getUTCDay t + 6) mod 7 = 7 * ((day_of t - 4) div 7) + 4"
proof -
  have "((day_of t + 4) mod 7 + 6) mod 7 = (day_of t + 4 + 6) mod 7" by (rule mod_add_left_eq)
  also have "\<dots> = (day_of t - 4 + 2 * 7) mod 7" by simp
  also have "\<dots> = (day_of t - 4) mod 7" by (rule mod_mult_self1)
  finally show ?thesis unfolding getUTCDay_def using mult_div_mod_eq [of 7 "day_of t - 4"] by linarith
qed

lemma this_month: "first_day (12 * getUTCFullYear t + getUTCMonth t) \<le> day_of t" "day_of t < first_day (12 * getUTCFullYear t + getUTCMonth t + 1)"
proof -
  let ?y = "getUTCFullYear t" and ?m = "getUTCMonth t"
  have f: "first_day (12 * ?y + ?m) = day_from_year ?y + days_before (leap_year ?y) ?m"
    using month_bounds(1,2) [of t] by (simp add: first_day_eq)
  have d: "day_of t = day_from_year ?y + day_in_year (day_of t)" by (simp add: day_in_year_def getUTCFullYear_def)
  show "first_day (12 * ?y + ?m) \<le> day_of t" using month_bounds(3) [of t] d f by linarith
  show "day_of t < first_day (12 * ?y + ?m + 1)"
  proof (cases "?m = 11")
    case True
    then have "(12 * ?y + ?m + 1) div 12 = ?y + 1" "(12 * ?y + ?m + 1) mod 12 = 0" using div_mod_12(1) [of "12 * ?y + ?m"] by simp_all
    then have "first_day (12 * ?y + ?m + 1) = day_from_year ?y + year_length ?y" by (simp only: first_day_eq days_before_simps day_from_year_Suc)
    moreover have "days_before (leap_year ?y) (?m + 1) = year_length ?y" using True by (simp add: days_before_simps year_length_def)
    ultimately show ?thesis using month_bounds(4) [of t] d by linarith
  next
    case False
    then have "first_day (12 * ?y + (?m + 1)) = day_from_year ?y + days_before (leap_year ?y) (?m + 1)"
      using month_bounds(1,2) [of t] by (simp add: first_day_eq)
    then show ?thesis using month_bounds(4) [of t] d by (simp add: add.assoc)
  qed
qed

lemma window_period:
  obtains k where "getBudgetWindow iv rt now = \<lparr>periodStartAt = boundary_at iv (reset_offset rt) k, nextResetAt = boundary_at iv (reset_offset rt) (k + 1)\<rparr>"
    "boundary_at iv (reset_offset rt) k \<le> now" "now < boundary_at iv (reset_offset rt) (k + 1)"
proof -
  obtain h m where p: "getResetTimeParts (normalizeResetTime rt) = (h, m)" by fastforce
  note ms = getUtcDateMs_offset [OF p] make_day_own
  note o = reset_offset_range [of rt]
  note d = day_of_bounds [of now]
  show thesis
  proof (cases iv)
    case Daily
    show thesis
    proof (cases "now \<ge> day_of now * MS_PER_DAY + reset_offset rt")
      case True
      then show thesis using Daily o d by (intro that [of "day_of now"]) (simp_all add: getBudgetWindow_def p Let_def ms algebra_simps)
    next
      case False
      then show thesis using Daily o d by (intro that [of "day_of now - 1"]) (simp_all add: getBudgetWindow_def p Let_def ms algebra_simps)
    qed
  next
    case Weekly
    define w where "w = (day_of now - 4) div 7"
    have mo: "day_of now - (getUTCDay now + 6) mod 7 = 7 * w + 4" unfolding w_def by (rule monday_of)
    have r: "0 \<le> (getUTCDay now + 6) mod 7" "(getUTCDay now + 6) mod 7 < 7" by simp_all
    have g: "getUtcDateMs (getUTCFullYear now) (getUTCMonth now) (getUTCDate now - (getUTCDay now + 6) mod 7 + x) h m = (7 * w + 4 + x) * MS_PER_DAY + reset_offset rt" for x
      unfolding ms mo [symmetric] by (simp add: algebra_simps)
    have e: "getBudgetWindow Weekly rt now = (if now \<ge> (7 * w + 4) * MS_PER_DAY + reset_offset rt
        then \<lparr>periodStartAt = (7 * w + 4) * MS_PER_DAY + reset_offset rt, nextResetAt = (7 * w + 4 + 7) * MS_PER_DAY + reset_offset rt\<rparr>
        else \<lparr>periodStartAt = (7 * w + 4 + - 7) * MS_PER_DAY + reset_offset rt, nextResetAt = (7 * w + 4) * MS_PER_DAY + reset_offset rt\<rparr>)"
      using g [of 0] g [of 7] g [of "- 7"] by (simp add: getBudgetWindow_def p Let_def)
    have b: "(7 * w + 4) * MS_PER_DAY \<le> now" "now < (7 * w + 4 + 7) * MS_PER_DAY"
      using mo r d by (simp_all add: MS_PER_DAY_def)
    show thesis
    proof (cases "now \<ge> (7 * w + 4) * MS_PER_DAY + reset_offset rt")
      case True
      then show thesis using Weekly o b e by (intro that [of w]) (simp_all add: algebra_simps)
    next
      case False
      then show thesis using Weekly o b e by (intro that [of "w - 1"]) (simp_all add: algebra_simps)
    qed
  next
    case Monthly
    define M where "M = 12 * getUTCFullYear now + getUTCMonth now"
    note tm = this_month [of now, folded M_def]
    have g: "getUtcDateMs (getUTCFullYear now) (getUTCMonth now + x) 1 h m = first_day (M + x) * MS_PER_DAY + reset_offset rt" for x
      by (simp add: ms(1) make_day_month M_def add.assoc)
    have e: "getBudgetWindow Monthly rt now = (if now \<ge> first_day M * MS_PER_DAY + reset_offset rt
        then \<lparr>periodStartAt = first_day M * MS_PER_DAY + reset_offset rt, nextResetAt = first_day (M + 1) * MS_PER_DAY + reset_offset rt\<rparr>
        else \<lparr>periodStartAt = first_day (M + - 1) * MS_PER_DAY + reset_offset rt, nextResetAt = first_day M * MS_PER_DAY + reset_offset rt\<rparr>)"
      using g [of 0] g [of 1] g [of "- 1"] by (simp add: getBudgetWindow_def p Let_def)
    have b: "first_day M * MS_PER_DAY \<le> now" "now < first_day (M + 1) * MS_PER_DAY" using tm d by (simp_all add: MS_PER_DAY_def)
    show thesis
    proof (cases "now \<ge> first_day M * MS_PER_DAY + reset_offset rt")
      case True
      then show thesis using Monthly o b e by (intro that [of M]) simp_all
    next
      case False
      have "first_day (M - 1) + 28 \<le> first_day M" using first_day_Suc [of "M - 1"] by simp
      then have "boundary_at Monthly (reset_offset rt) (M - 1) \<le> now" using b(1) o by (simp add: MS_PER_DAY_def)
      then show thesis using False Monthly e by (intro that [of "M - 1"]) simp_all
    qed
  qed
qed

lemma window_at:
  assumes "boundary_at iv (reset_offset rt) l \<le> t" "t < boundary_at iv (reset_offset rt) (l + 1)"
  shows "getBudgetWindow iv rt t = \<lparr>periodStartAt = boundary_at iv (reset_offset rt) l, nextResetAt = boundary_at iv (reset_offset rt) (l + 1)\<rparr>"
proof (rule window_period [of iv rt t])
  fix l' assume l': "getBudgetWindow iv rt t = \<lparr>periodStartAt = boundary_at iv (reset_offset rt) l', nextResetAt = boundary_at iv (reset_offset rt) (l' + 1)\<rparr>"
    "boundary_at iv (reset_offset rt) l' \<le> t" "t < boundary_at iv (reset_offset rt) (l' + 1)"
  then have "l' = l" using bs.period_unique assms by blast
  then show ?thesis using l'(1) by simp
qed

lemma window_same:
  assumes "now \<le> t" "t < nextResetAt (getBudgetWindow iv rt now)"
  shows "getBudgetWindow iv rt t = getBudgetWindow iv rt now"
proof -
  obtain k where k: "getBudgetWindow iv rt now = \<lparr>periodStartAt = boundary_at iv (reset_offset rt) k, nextResetAt = boundary_at iv (reset_offset rt) (k + 1)\<rparr>"
    "boundary_at iv (reset_offset rt) k \<le> now" by (rule window_period [of iv rt now]) blast
  show ?thesis using window_at [of iv rt k t] k assms by simp
qed

lemma window_start_mono:
  assumes "t \<le> t'"
  shows "periodStartAt (getBudgetWindow iv rt t) \<le> periodStartAt (getBudgetWindow iv rt t')"
proof -
  let ?b = "boundary_at iv (reset_offset rt)"
  obtain k where k: "periodStartAt (getBudgetWindow iv rt t) = ?b k" "?b k \<le> t" by (rule window_period [of iv rt t]) force
  obtain l where l: "periodStartAt (getBudgetWindow iv rt t') = ?b l" "t' < ?b (l + 1)" by (rule window_period [of iv rt t']) force
  have "k \<le> l"
  proof (rule ccontr)
    assume "\<not> k \<le> l"
    then have "?b (l + 1) \<le> ?b k" by (intro bs.boundary_mono) simp
    then show False using k l assms by linarith
  qed
  then show ?thesis using bs.boundary_mono k l by simp
qed

lemma window_start_recent: "now - 31 * MS_PER_DAY < periodStartAt (getBudgetWindow iv rt now)"
proof (rule window_period [of iv rt now])
  fix k
  let ?b = "boundary_at iv (reset_offset rt)"
  assume k: "getBudgetWindow iv rt now = \<lparr>periodStartAt = ?b k, nextResetAt = ?b (k + 1)\<rparr>" "now < ?b (k + 1)"
  have "?b (k + 1) \<le> ?b k + 31 * MS_PER_DAY" using first_day_Suc [of k] by (cases iv) (simp_all add: MS_PER_DAY_def)
  then show ?thesis using k by simp
qed

section \<open>Properties\<close>

text \<open>The midnight before a moment.\<close>

definition midnight :: "int \<Rightarrow> int" where
  "midnight t = day_of t * MS_PER_DAY"

lemma day_of_offset: "0 \<le> off \<Longrightarrow> off < MS_PER_DAY \<Longrightarrow> day_of (d * MS_PER_DAY + off) = d"
  by (simp add: day_of_def MS_PER_DAY_def div_add1_eq)

lemma first_day_date: "0 \<le> off \<Longrightarrow> off < MS_PER_DAY \<Longrightarrow> getUTCDate (first_day k * MS_PER_DAY + off) = 1"
proof -
  assume off: "0 \<le> off" "off < MS_PER_DAY"
  let ?t = "first_day k * MS_PER_DAY + off"
  let ?M = "12 * getUTCFullYear ?t + getUTCMonth ?t"
  have d: "day_of ?t = first_day k" using off by (rule day_of_offset)
  have fd: "first_day j * MS_PER_DAY \<le> first_day k * MS_PER_DAY \<longleftrightarrow> first_day j \<le> first_day k" for j by (simp add: MS_PER_DAY_def)
  have "?M = k"
    by (rule bs.period_unique [of Monthly 0 _ "first_day k * MS_PER_DAY"])
       (use this_month [of ?t] d first_day_Suc [of k] in \<open>simp_all add: MS_PER_DAY_def\<close>)
  moreover have "make_day (getUTCFullYear ?t) (getUTCMonth ?t) 1 = day_of ?t - getUTCDate ?t + 1" by (rule make_day_own)
  ultimately show ?thesis using d by (simp add: make_day_month)
qed

text \<open>
  C38. Budget windows tile time. For every interval, reset time and moment, the window contains the moment, all moments
  in it have the same window, and the next window begins where it ends, so no spend is counted twice or not at all.
  A window begins at the reset time of day; a weekly one on a Monday, seven days long, a monthly one on the first of
  a month, over leap years and the turn of the year.
\<close>

theorem budget_windows_tile:
  assumes "w = getBudgetWindow iv rt now"
  shows "periodStartAt w \<le> now \<and> now < nextResetAt w \<and>
         (\<forall>now'. periodStartAt w \<le> now' \<and> now' < nextResetAt w \<longrightarrow> getBudgetWindow iv rt now' = w) \<and>
         periodStartAt (getBudgetWindow iv rt (nextResetAt w)) = nextResetAt w \<and>
         periodStartAt w - midnight (periodStartAt w) = reset_offset rt \<and>
         (case iv of Daily \<Rightarrow> nextResetAt w - periodStartAt w = MS_PER_DAY
          | Weekly \<Rightarrow> nextResetAt w - periodStartAt w = 7 * MS_PER_DAY \<and> getUTCDay (periodStartAt w) = 1
          | Monthly \<Rightarrow> getUTCDate (periodStartAt w) = 1 \<and> getUTCDate (nextResetAt w) = 1 \<and>
              nextResetAt w - periodStartAt w \<le> 31 * MS_PER_DAY)"
proof -
  let ?o = "reset_offset rt"
  obtain k where k: "w = \<lparr>periodStartAt = boundary_at iv ?o k, nextResetAt = boundary_at iv ?o (k + 1)\<rparr>"
    "boundary_at iv ?o k \<le> now" "now < boundary_at iv ?o (k + 1)" unfolding assms by (rule window_period)
  note same = window_at [of iv rt]
  have nx: "periodStartAt (getBudgetWindow iv rt (nextResetAt w)) = nextResetAt w"
    using same [of "k + 1" "boundary_at iv ?o (k + 1)"] bs.boundary_step [of iv ?o "k + 1"] k(1) by simp
  note o = reset_offset_range [of rt]
  have cal: "case iv of Daily \<Rightarrow> nextResetAt w - periodStartAt w = MS_PER_DAY
          | Weekly \<Rightarrow> nextResetAt w - periodStartAt w = 7 * MS_PER_DAY \<and> getUTCDay (periodStartAt w) = 1
          | Monthly \<Rightarrow> getUTCDate (periodStartAt w) = 1 \<and> getUTCDate (nextResetAt w) = 1 \<and> nextResetAt w - periodStartAt w \<le> 31 * MS_PER_DAY"
  proof (cases iv)
    case Weekly
    have "(7 * k + 4 + 4) mod 7 = 1" by presburger
    then have "getUTCDay (periodStartAt w) = 1" using Weekly by (simp only: k(1) budget_window.simps boundary_at.simps getUTCDay_def day_of_offset [OF o])
    then show ?thesis using Weekly by (simp add: k(1) algebra_simps)
  next
    case Monthly
    then show ?thesis using o first_day_Suc [of k] first_day_date by (simp add: k(1) MS_PER_DAY_def)
  qed (simp add: k(1) algebra_simps)
  have "\<exists>d. periodStartAt w = d * MS_PER_DAY + ?o" by (cases iv) (auto simp: k(1))
  then have "periodStartAt w - midnight (periodStartAt w) = ?o" using o by (auto simp: midnight_def day_of_offset)
  then show ?thesis using k same nx cal by simp
qed

theorem budget_windows_tile_witness:
  "getBudgetWindow Monthly (Some ''06:30'') 951800000000 = \<lparr>periodStartAt = 949386600000, nextResetAt = 951892200000\<rparr> \<and>
   getBudgetWindow Monthly (Some ''06:30'') 951892199999 = \<lparr>periodStartAt = 949386600000, nextResetAt = 951892200000\<rparr>"
proof (rule conjI)
  show w: "getBudgetWindow Monthly (Some ''06:30'') 951800000000 = \<lparr>periodStartAt = 949386600000, nextResetAt = 951892200000\<rparr>" by code_simp
  show "getBudgetWindow Monthly (Some ''06:30'') 951892199999 = \<lparr>periodStartAt = 949386600000, nextResetAt = 951892200000\<rparr>"
    using budget_windows_tile [OF w [symmetric]] by simp
qed

end
