(* ===== verification/Budget_Engine.thy ===== *)
theory Budget_Engine
  imports Budget_Window Step_Systems
begin

text \<open>
  Reusable budgets: the decision and the recording (\<^verbatim>\<open>src/domain/budgetEngine.ts\<close>), the tables of spend, rates and
  reservations they use (\<^verbatim>\<open>src/lib/db/budgets.ts\<close>, \<^verbatim>\<open>budgetReservations.ts\<close>, the counters of \<^verbatim>\<open>keyQuota.ts\<close>) and the admission
  transaction (\<^verbatim>\<open>src/lib/usage/meteredBudgetPolicy.ts\<close>). The assignments in force and the groups of a key are arguments, as
  is the classification of flat-rate providers; amounts are exact. \<open>rs_request\<close> and \<open>rs_recorded\<close> of a reservation are
  ghost fields: the request it belongs to and whether its cost has been recorded.
\<close>

section \<open>Budgets and requests\<close>

datatype duration = Total | Every interval

datatype on_exceed = Block | Throttle

record budget =
  bg_id :: string
  bg_maxUsd :: rat
  bg_softUsd :: "rat option"
  bg_duration :: duration
  bg_resetTime :: "string option"
  bg_onExceed :: on_exceed
  bg_throttleDelayMs :: int
  bg_tpmLimit :: "rat option"
  bg_rpmLimit :: "rat option"
  bg_modelMax :: "(string \<times> rat) list"

datatype scope_type = S_key | S_group | S_tag | S_user

record applicable_budget =
  ab_budget :: budget
  ab_scopeType :: scope_type
  ab_scopeValue :: string
  ab_windowScope :: string

definition windowScopeOf :: "scope_type \<Rightarrow> string \<Rightarrow> string" where
  "windowScopeOf scopeType scopeValue =
     (case scopeType of S_tag \<Rightarrow> ''tag:'' @ scopeValue | S_user \<Rightarrow> ''user:'' @ scopeValue | _ \<Rightarrow> scopeValue)"

record snapshot =
  by_key :: "(string, applicable_budget list) jmap"
  by_group :: "(string, applicable_budget list) jmap"
  by_tag :: "(string, applicable_budget list) jmap"
  by_user :: "(string, applicable_budget list) jmap"

record budget_request =
  rq_keyId :: string
  rq_provider :: string
  rq_model :: string
  rq_groups :: "string list"
  rq_tags :: "string list"
  rq_endUser :: string

definition assigned :: "(string, applicable_budget list) jmap \<Rightarrow> string \<Rightarrow> applicable_budget list" where
  "assigned m k = (case jget m k of Some es \<Rightarrow> es | None \<Rightarrow> [])"

definition collectApplicable :: "snapshot \<Rightarrow> string \<Rightarrow> string list \<Rightarrow> string list \<Rightarrow> string \<Rightarrow> applicable_budget list" where
  "collectApplicable current keyId groupIds tags endUser =
     assigned (by_key current) keyId @ concat (map (assigned (by_group current)) groupIds) @
     concat (map (assigned (by_tag current)) tags) @ (if endUser = [] then [] else assigned (by_user current) endUser)"

definition hasBudgetAssignments :: "snapshot \<Rightarrow> bool" where
  "hasBudgetAssignments s \<longleftrightarrow> by_key s \<noteq> [] \<or> by_group s \<noteq> [] \<or> by_tag s \<noteq> [] \<or> by_user s \<noteq> []"

definition resolveApplicable :: "snapshot \<Rightarrow> budget_request \<Rightarrow> applicable_budget list" where
  "resolveApplicable current rq =
     (if \<not> hasBudgetAssignments current then []
      else collectApplicable current (rq_keyId rq) (if by_group current \<noteq> [] then rq_groups rq else []) (rq_tags rq) (rq_endUser rq))"

definition computeBudgetWindow :: "budget \<Rightarrow> int \<Rightarrow> int \<times> int option" where
  "computeBudgetWindow b now =
     (case bg_duration b of
        Total \<Rightarrow> (0, None)
      | Every iv \<Rightarrow>
          (let w = getBudgetWindow iv (Some (case bg_resetTime b of Some t \<Rightarrow> t | None \<Rightarrow> ''00:00'')) now
           in (periodStartAt w, Some (nextResetAt w))))"

section \<open>Model caps\<close>

definition has_prefix :: "string \<Rightarrow> string \<Rightarrow> bool" where
  "has_prefix p s \<longleftrightarrow> take (length p) s = p"

definition model_ids :: "string \<Rightarrow> string \<Rightarrow> string list" where
  "model_ids p full =
     (let first = (if full = [] then [] else [if has_prefix (p @ ''/'') full \<and> p \<noteq> [] then drop (length p + 1) full else full])
      in case findIndex (\<lambda>c. c = CHR ''/'') full of
           Some (Suc i) \<Rightarrow> (let rest = drop (Suc (Suc i)) full in if rest \<in> set first then first else first @ [rest])
         | _ \<Rightarrow> first)"

definition budgetModelCandidates :: "string \<Rightarrow> string \<Rightarrow> string list" where
  "budgetModelCandidates provider model =
     (let p = toLowerCase (js_trim provider); full = toLowerCase (js_trim model)
      in concat (map (\<lambda>i. if i = [] then [] else if p \<noteq> [] then [p @ ''/'' @ i, i] else [i]) (model_ids p full)) @
         (if p \<noteq> [] then [p @ ''/*''] else []))"

definition matchingCapKeys :: "budget \<Rightarrow> string list \<Rightarrow> string list" where
  "matchingCapKeys b candidates = filter (\<lambda>k. toLowerCase k \<in> set candidates) (map fst (bg_modelMax b))"

section \<open>Tables\<close>

type_synonym spend_key = "string \<times> string \<times> int \<times> string"

record reservation =
  rs_id :: string
  rs_usd :: rat
  rs_expiresAt :: int
  rs_scopes :: "spend_key list"
  rs_request :: budget_request
  rs_recorded :: bool

datatype limit_part = P_usd | P_model string | P_tpm | P_rpm

record budget_db =
  windowSpend :: "string \<times> string \<times> int \<Rightarrow> rat"
  modelSpend :: "spend_key \<Rightarrow> rat"
  alerted :: "(string \<times> string \<times> int) set"
  rateBuckets :: "string \<times> string \<times> limit_part \<times> int \<Rightarrow> rat"
  inflight :: "reservation list"
  exhausted :: "(string \<times> string \<times> limit_part, int option) jmap"

definition incrementWindowSpend :: "string \<Rightarrow> string \<Rightarrow> int \<Rightarrow> rat \<Rightarrow> budget_db \<Rightarrow> budget_db" where
  "incrementWindowSpend b scope ws usd db = db\<lparr>windowSpend := (windowSpend db)((b, scope, ws) := windowSpend db (b, scope, ws) + usd)\<rparr>"

definition incrementModelSpend :: "string \<Rightarrow> string \<Rightarrow> int \<Rightarrow> string \<Rightarrow> rat \<Rightarrow> budget_db \<Rightarrow> budget_db" where
  "incrementModelSpend b scope ws capKey usd db =
     db\<lparr>modelSpend := (modelSpend db)((b, scope, ws, capKey) := modelSpend db (b, scope, ws, capKey) + usd)\<rparr>"

definition claimSoftAlert :: "string \<Rightarrow> string \<Rightarrow> int \<Rightarrow> budget_db \<Rightarrow> bool \<times> budget_db" where
  "claimSoftAlert b scope ws db = ((b, scope, ws) \<notin> alerted db, db\<lparr>alerted := insert (b, scope, ws) (alerted db)\<rparr>)"

definition effectiveSoftUsd :: "budget \<Rightarrow> rat" where
  "effectiveSoftUsd b = (case bg_softUsd b of Some s \<Rightarrow> s | None \<Rightarrow> bg_maxUsd b * (8 / 10))"

definition BUDGET_RATE_WINDOW_MS :: int where
  "BUDGET_RATE_WINDOW_MS = 60000"

definition incrementBudgetRate :: "string \<Rightarrow> string \<Rightarrow> limit_part \<Rightarrow> rat \<Rightarrow> int \<Rightarrow> budget_db \<Rightarrow> budget_db" where
  "incrementBudgetRate b scope part delta now db =
     (let k = (b, scope, part, now div BUDGET_RATE_WINDOW_MS)
      in if delta > 0 then db\<lparr>rateBuckets := (rateBuckets db)(k := rateBuckets db k + delta)\<rparr> else db)"

definition getBudgetRateUsed :: "string \<Rightarrow> string \<Rightarrow> limit_part \<Rightarrow> int \<Rightarrow> budget_db \<Rightarrow> rat" where
  "getBudgetRateUsed b scope part now db =
     (let current = now div BUDGET_RATE_WINDOW_MS;
          weight = max 0 (min 1 (of_int (now - current * BUDGET_RATE_WINDOW_MS) / of_int BUDGET_RATE_WINDOW_MS))
      in rateBuckets db (b, scope, part, current - 1) * (1 - weight) + rateBuckets db (b, scope, part, current))"

definition getReservedScopeCost :: "spend_key \<Rightarrow> int \<Rightarrow> budget_db \<Rightarrow> rat" where
  "getReservedScopeCost k now db = sum_list (map rs_usd (filter (\<lambda>r. k \<in> set (rs_scopes r) \<and> rs_expiresAt r > now) (inflight db)))"

definition reserveBudgetCost :: "string \<Rightarrow> budget_request \<Rightarrow> rat \<Rightarrow> spend_key list \<Rightarrow> int \<Rightarrow> budget_db \<Rightarrow> budget_db" where
  "reserveBudgetCost rid rq usd scopes now db =
     db\<lparr>inflight := inflight db @
          [\<lparr>rs_id = rid, rs_usd = usd, rs_expiresAt = now + 60 * 60 * 1000, rs_scopes = remdups scopes, rs_request = rq, rs_recorded = False\<rparr>]\<rparr>"

definition releaseBudgetCost :: "string \<Rightarrow> budget_db \<Rightarrow> budget_db" where
  "releaseBudgetCost rid db = db\<lparr>inflight := filter (\<lambda>r. rs_id r \<noteq> rid) (inflight db)\<rparr>"

section \<open>The exhausted map\<close>

definition EXHAUSTED_MAX_ENTRIES :: nat where
  "EXHAUSTED_MAX_ENTRIES = 10000"

definition exhaustedKey :: "applicable_budget \<Rightarrow> limit_part \<Rightarrow> string \<times> string \<times> limit_part" where
  "exhaustedKey e part = (bg_id (ab_budget e), ab_windowScope e, part)"

definition markExhausted :: "applicable_budget \<Rightarrow> limit_part \<Rightarrow> int option \<Rightarrow> budget_db \<Rightarrow> budget_db" where
  "markExhausted e part resetAt db =
     db\<lparr>exhausted := jset (exhaustedKey e part) resetAt (if length (exhausted db) \<ge> EXHAUSTED_MAX_ENTRIES then [] else exhausted db)\<rparr>"

definition isMarkedExhausted :: "applicable_budget \<Rightarrow> limit_part \<Rightarrow> int \<Rightarrow> budget_db \<Rightarrow> bool" where
  "isMarkedExhausted e part now db =
     (case jget (exhausted db) (exhaustedKey e part) of
        None \<Rightarrow> False
      | Some until \<Rightarrow> (case until of None \<Rightarrow> True | Some u \<Rightarrow> u > now))"

section \<open>The check\<close>

record violation =
  vi_part :: limit_part
  vi_resetAt :: "int option"
  vi_delayMs :: int

definition nextRateBucketAt :: "int \<Rightarrow> int" where
  "nextRateBucketAt now = (now div BUDGET_RATE_WINDOW_MS + 1) * BUDGET_RATE_WINDOW_MS"

definition over :: "rat \<Rightarrow> rat \<Rightarrow> rat \<Rightarrow> bool" where
  "over used additional limit \<longleftrightarrow> used \<ge> limit \<or> used + additional > limit"

definition rate_violation :: "applicable_budget \<Rightarrow> limit_part \<Rightarrow> rat option \<Rightarrow> int \<Rightarrow> budget_db \<Rightarrow> violation list" where
  "rate_violation e part limit now db =
     (case limit of
        None \<Rightarrow> []
      | Some l \<Rightarrow>
          if getBudgetRateUsed (bg_id (ab_budget e)) (ab_windowScope e) part now db < l then []
          else [\<lparr>vi_part = part, vi_resetAt = Some (nextRateBucketAt now), vi_delayMs = nextRateBucketAt now - now\<rparr>])"

definition violationsOf :: "applicable_budget \<Rightarrow> string list \<Rightarrow> int \<Rightarrow> bool \<Rightarrow> rat \<Rightarrow> budget_db \<Rightarrow> violation list" where
  "violationsOf e candidates now metered additionalUsd db =
     (let b = ab_budget e; scope = ab_windowScope e; (ws, resetAt) = computeBudgetWindow b now;
          reserved = (\<lambda>capKey. getReservedScopeCost (bg_id b, scope, ws, capKey) now db)
      in (if metered \<and> over (windowSpend db (bg_id b, scope, ws) + reserved []) additionalUsd (bg_maxUsd b)
          then [\<lparr>vi_part = P_usd, vi_resetAt = resetAt, vi_delayMs = bg_throttleDelayMs b\<rparr>] else []) @
         (if metered
          then concat (map (\<lambda>capKey.
                 if over (modelSpend db (bg_id b, scope, ws, capKey) + reserved capKey) additionalUsd (the (map_of (bg_modelMax b) capKey))
                 then [\<lparr>vi_part = P_model capKey, vi_resetAt = resetAt, vi_delayMs = bg_throttleDelayMs b\<rparr>] else []) (matchingCapKeys b candidates))
          else []) @
         rate_violation e P_tpm (bg_tpmLimit b) now db @ rate_violation e P_rpm (bg_rpmLimit b) now db)"

datatype check_result = R_ok | R_throttle int string | R_blocked "int option" string

record check_state =
  cs_blocker :: "(applicable_budget \<times> violation) option"
  cs_throttler :: "(applicable_budget \<times> int) option"
  cs_db :: budget_db

definition note_violation :: "applicable_budget \<times> violation \<Rightarrow> check_state \<Rightarrow> check_state" where
  "note_violation ev cs =
     (case ev of
        (e, v) \<Rightarrow>
          if bg_onExceed (ab_budget e) = Block
          then cs\<lparr>cs_db := markExhausted e (vi_part v) (vi_resetAt v) (cs_db cs),
                  cs_blocker :=
                    (case cs_blocker cs of
                       None \<Rightarrow> Some (e, v)
                     | Some (e', v') \<Rightarrow>
                         (case vi_resetAt v' of
                            None \<Rightarrow> Some (e', v')
                          | Some t' \<Rightarrow> (case vi_resetAt v of None \<Rightarrow> Some (e, v) | Some t \<Rightarrow> if t > t' then Some (e, v) else Some (e', v'))))\<rparr>
          else (case cs_throttler cs of
                  None \<Rightarrow> cs\<lparr>cs_throttler := Some (e, vi_delayMs v)\<rparr>
                | Some (e', d') \<Rightarrow> if vi_delayMs v > d' then cs\<lparr>cs_throttler := Some (e, vi_delayMs v)\<rparr> else cs))"

definition MAX_THROTTLE_DELAY_MS :: int where
  "MAX_THROTTLE_DELAY_MS = 300000"

definition all_violations :: "(string \<Rightarrow> bool) \<Rightarrow> snapshot \<Rightarrow> budget_request \<Rightarrow> rat \<Rightarrow> int \<Rightarrow> budget_db \<Rightarrow> (applicable_budget \<times> violation) list" where
  "all_violations flat current rq additionalUsd now db =
     concat (map (\<lambda>e. map (\<lambda>v. (e, v)) (violationsOf e (budgetModelCandidates (rq_provider rq) (rq_model rq)) now
                                            (\<not> flat (rq_provider rq)) (max 0 additionalUsd) db)) (resolveApplicable current rq))"

definition checkBudgets :: "(string \<Rightarrow> bool) \<Rightarrow> snapshot \<Rightarrow> budget_request \<Rightarrow> rat \<Rightarrow> int \<Rightarrow> budget_db \<Rightarrow> check_result \<times> budget_db" where
  "checkBudgets flat current rq additionalUsd now db =
     (if rq_keyId rq = [] then (R_ok, db)
      else
        (let cs = fold note_violation (all_violations flat current rq additionalUsd now db) \<lparr>cs_blocker = None, cs_throttler = None, cs_db = db\<rparr>
         in (case cs_blocker cs of
               Some (e, v) \<Rightarrow> R_blocked (vi_resetAt v) (bg_id (ab_budget e))
             | None \<Rightarrow>
                 (case cs_throttler cs of
                    Some (e, d) \<Rightarrow> R_throttle (min (max 0 d) MAX_THROTTLE_DELAY_MS) (bg_id (ab_budget e))
                  | None \<Rightarrow> R_ok),
             cs_db cs)))"

text \<open>
  The shortcut for routing, over the budgets in memory. Deleting a mark that has run out does not change any answer and
  is left out, as is the clearing of the marks when budgets are edited.
\<close>

definition isBudgetExhaustedForTarget :: "(string \<Rightarrow> bool) \<Rightarrow> applicable_budget list \<Rightarrow> string \<Rightarrow> string \<Rightarrow> int \<Rightarrow> budget_db \<Rightarrow> bool" where
  "isBudgetExhaustedForTarget flat known provider model now db \<longleftrightarrow>
     exhausted db \<noteq> [] \<and> \<not> flat provider \<and>
     list_ex (\<lambda>e. bg_onExceed (ab_budget e) = Block \<and>
        (isMarkedExhausted e P_usd now db \<or> isMarkedExhausted e P_tpm now db \<or> isMarkedExhausted e P_rpm now db \<or>
         list_ex (\<lambda>capKey. isMarkedExhausted e (P_model capKey) now db) (matchingCapKeys (ab_budget e) (budgetModelCandidates provider model)))) known"

section \<open>Recording\<close>

definition recordBudgetAdmission :: "snapshot \<Rightarrow> budget_request \<Rightarrow> int \<Rightarrow> budget_db \<Rightarrow> budget_db" where
  "recordBudgetAdmission current rq now db =
     (if rq_keyId rq = [] then db
      else fold (\<lambda>e db. if bg_rpmLimit (ab_budget e) \<noteq> None then incrementBudgetRate (bg_id (ab_budget e)) (ab_windowScope e) P_rpm 1 now db else db)
             (resolveApplicable current rq) db)"

definition recordBudgetTokens :: "snapshot \<Rightarrow> budget_request \<Rightarrow> rat \<Rightarrow> int \<Rightarrow> budget_db \<Rightarrow> budget_db" where
  "recordBudgetTokens current rq tokens now db =
     (if rq_keyId rq = [] \<or> \<not> tokens > 0 then db
      else fold (\<lambda>e db. if bg_tpmLimit (ab_budget e) \<noteq> None then incrementBudgetRate (bg_id (ab_budget e)) (ab_windowScope e) P_tpm tokens now db else db)
             (resolveApplicable current rq) db)"

definition record_cap :: "applicable_budget \<Rightarrow> int \<Rightarrow> int option \<Rightarrow> rat \<Rightarrow> string \<Rightarrow> budget_db \<Rightarrow> budget_db" where
  "record_cap e ws resetAt usd capKey db =
     (let b = ab_budget e; db1 = incrementModelSpend (bg_id b) (ab_windowScope e) ws capKey usd db
      in if modelSpend db1 (bg_id b, ab_windowScope e, ws, capKey) \<ge> the (map_of (bg_modelMax b) capKey) \<and> bg_onExceed b = Block
         then markExhausted e (P_model capKey) resetAt db1 else db1)"

text \<open>One budget; the list collects the soft alerts sent.\<close>

definition record_entry :: "string list \<Rightarrow> int \<Rightarrow> rat \<Rightarrow> applicable_budget \<Rightarrow> budget_db \<times> string list \<Rightarrow> budget_db \<times> string list" where
  "record_entry candidates now usd e acc =
     (case acc of
        (db, alerts) \<Rightarrow>
          (let b = ab_budget e; (ws, resetAt) = computeBudgetWindow b now;
               db1 = incrementWindowSpend (bg_id b) (ab_windowScope e) ws usd db;
               spent = windowSpend db1 (bg_id b, ab_windowScope e, ws);
               db2 = (if spent \<ge> bg_maxUsd b \<and> bg_onExceed b = Block then markExhausted e P_usd resetAt db1 else db1);
               db3 = fold (record_cap e ws resetAt usd) (matchingCapKeys b candidates) db2
           in if spent \<ge> effectiveSoftUsd b
              then (case claimSoftAlert (bg_id b) (ab_windowScope e) ws db3 of (claimed, db4) \<Rightarrow> (db4, if claimed then alerts @ [bg_id b] else alerts))
              else (db3, alerts)))"

definition recordBudgetSpend :: "(string \<Rightarrow> bool) \<Rightarrow> snapshot \<Rightarrow> budget_request \<Rightarrow> rat \<Rightarrow> int \<Rightarrow> budget_db \<Rightarrow> budget_db \<times> string list" where
  "recordBudgetSpend flat current rq usd now db =
     (if rq_keyId rq = [] \<or> usd \<le> 0 \<or> flat (rq_provider rq) then (db, [])
      else fold (record_entry (budgetModelCandidates (rq_provider rq) (rq_model rq)) now usd) (resolveApplicable current rq) (db, []))"

section \<open>Admission\<close>

definition scopes_of_entry :: "string list \<Rightarrow> int \<Rightarrow> applicable_budget \<Rightarrow> spend_key list" where
  "scopes_of_entry candidates now e =
     map (\<lambda>capKey. (bg_id (ab_budget e), ab_windowScope e, fst (computeBudgetWindow (ab_budget e) now), capKey))
       ([] # matchingCapKeys (ab_budget e) candidates)"

definition getBudgetReservationScopes :: "(string \<Rightarrow> bool) \<Rightarrow> snapshot \<Rightarrow> budget_request \<Rightarrow> int \<Rightarrow> spend_key list" where
  "getBudgetReservationScopes flat current rq now =
     (if rq_keyId rq = [] \<or> flat (rq_provider rq) then []
      else concat (map (scopes_of_entry (budgetModelCandidates (rq_provider rq) (rq_model rq)) now) (resolveApplicable current rq)))"

text \<open>
  The transaction of \<^verbatim>\<open>rejectIfMeteredBudgetExceeded\<close>; \<open>others_allow\<close> is the verdict of the cost ledger and of the budget of
  the key itself, which come before the reusable budgets.
\<close>

definition admission_transaction ::
    "(string \<Rightarrow> bool) \<Rightarrow> snapshot \<Rightarrow> bool \<Rightarrow> budget_request \<Rightarrow> (string \<times> rat) option \<Rightarrow> int \<Rightarrow> budget_db \<Rightarrow> bool \<times> budget_db" where
  "admission_transaction flat current others_allow rq reserve now db =
     (if rq_keyId rq = [] then (True, db)
      else if \<not> others_allow then (False, db)
      else case checkBudgets flat current rq (case reserve of Some (rid, usd) \<Rightarrow> usd | None \<Rightarrow> 0) now db of
             (R_blocked resetAt b, db1) \<Rightarrow> (False, db1)
           | (_, db1) \<Rightarrow>
               (let db2 = (case reserve of
                             Some (rid, usd) \<Rightarrow> reserveBudgetCost rid rq usd (getBudgetReservationScopes flat current rq now) now db1
                           | None \<Rightarrow> db1)
                in (True, recordBudgetAdmission current rq now db2)))"

section \<open>What the check decides\<close>

definition blocks :: "(applicable_budget \<times> violation) list \<Rightarrow> (applicable_budget \<times> violation) list" where
  "blocks vs = filter (\<lambda>(e, v). bg_onExceed (ab_budget e) = Block) vs"

definition throttles :: "(applicable_budget \<times> violation) list \<Rightarrow> (applicable_budget \<times> violation) list" where
  "throttles vs = filter (\<lambda>(e, v). bg_onExceed (ab_budget e) \<noteq> Block) vs"

text \<open>A reset that never comes is later than any other.\<close>

definition later_or_equal :: "int option \<Rightarrow> int option \<Rightarrow> bool" where
  "later_or_equal a b = (case a of None \<Rightarrow> True | Some t \<Rightarrow> (case b of None \<Rightarrow> False | Some u \<Rightarrow> t \<ge> u))"

lemma later_trans: "later_or_equal a b \<Longrightarrow> later_or_equal b c \<Longrightarrow> later_or_equal a c"
  by (auto simp: later_or_equal_def split: option.splits)

definition blocker_ok :: "(applicable_budget \<times> violation) list \<Rightarrow> (applicable_budget \<times> violation) option \<Rightarrow> bool" where
  "blocker_ok vs x \<longleftrightarrow>
     (case x of
        None \<Rightarrow> blocks vs = []
      | Some (e, v) \<Rightarrow> (e, v) \<in> set (blocks vs) \<and> (\<forall>(e', v') \<in> set (blocks vs). later_or_equal (vi_resetAt v) (vi_resetAt v')))"

definition throttler_ok :: "(applicable_budget \<times> violation) list \<Rightarrow> (applicable_budget \<times> int) option \<Rightarrow> bool" where
  "throttler_ok vs x \<longleftrightarrow>
     (case x of
        None \<Rightarrow> throttles vs = []
      | Some (e, d) \<Rightarrow> (\<exists>v. (e, v) \<in> set (throttles vs) \<and> vi_delayMs v = d) \<and> (\<forall>(e', v') \<in> set (throttles vs). vi_delayMs v' \<le> d))"

lemma blocks_snoc: "blocks (vs @ [(e, v)]) = blocks vs @ (if bg_onExceed (ab_budget e) = Block then [(e, v)] else [])"
  by (simp add: blocks_def)

lemma throttles_snoc: "throttles (vs @ [(e, v)]) = throttles vs @ (if bg_onExceed (ab_budget e) = Block then [] else [(e, v)])"
  by (simp add: throttles_def)

lemma blocker_step:
  assumes "blocker_ok vs x" "bg_onExceed (ab_budget e) = Block"
  shows "blocker_ok (vs @ [(e, v)]) (case x of None \<Rightarrow> Some (e, v)
     | Some (e', v') \<Rightarrow> (case vi_resetAt v' of None \<Rightarrow> Some (e', v')
         | Some t' \<Rightarrow> (case vi_resetAt v of None \<Rightarrow> Some (e, v) | Some t \<Rightarrow> if t > t' then Some (e, v) else Some (e', v'))))"
proof (cases x)
  case None
  then show ?thesis using assms by (simp add: blocker_ok_def blocks_snoc later_or_equal_def split: option.split)
next
  case (Some p)
  obtain e' v' where p: "p = (e', v')" by fastforce
  have old: "(e', v') \<in> set (blocks vs)" "\<forall>(e0, v0) \<in> set (blocks vs). later_or_equal (vi_resetAt v') (vi_resetAt v0)"
    using assms(1) by (simp_all add: Some p blocker_ok_def)
  have new: "\<forall>(e0, v0) \<in> set (blocks vs). later_or_equal (vi_resetAt v) (vi_resetAt v0)" if "later_or_equal (vi_resetAt v) (vi_resetAt v')"
    using old(2) later_trans [OF that] by blast
  show ?thesis
  proof (cases "later_or_equal (vi_resetAt v') (vi_resetAt v)")
    case True
    then have "(case vi_resetAt v' of None \<Rightarrow> Some (e', v')
         | Some t' \<Rightarrow> (case vi_resetAt v of None \<Rightarrow> Some (e, v) | Some t \<Rightarrow> if t > t' then Some (e, v) else Some (e', v'))) = Some (e', v')"
      by (auto simp: later_or_equal_def split: option.splits)
    then show ?thesis using old True assms(2) by (simp add: Some p blocker_ok_def blocks_snoc)
  next
    case False
    then have "later_or_equal (vi_resetAt v) (vi_resetAt v')" by (auto simp: later_or_equal_def split: option.splits)
    moreover have "(case vi_resetAt v' of None \<Rightarrow> Some (e', v')
         | Some t' \<Rightarrow> (case vi_resetAt v of None \<Rightarrow> Some (e, v) | Some t \<Rightarrow> if t > t' then Some (e, v) else Some (e', v'))) = Some (e, v)"
      using False by (auto simp: later_or_equal_def split: option.splits)
    moreover have "later_or_equal (vi_resetAt v) (vi_resetAt v)" by (simp add: later_or_equal_def split: option.split)
    ultimately show ?thesis using new assms(2) by (simp add: Some p blocker_ok_def blocks_snoc)
  qed
qed

lemma note_violations:
  assumes "cs' = fold note_violation vs \<lparr>cs_blocker = None, cs_throttler = None, cs_db = db\<rparr>"
  shows "blocker_ok vs (cs_blocker cs') \<and> throttler_ok vs (cs_throttler cs')"
  unfolding assms
proof (induction vs rule: rev_induct)
  case Nil
  then show ?case by (simp add: blocker_ok_def throttler_ok_def blocks_def throttles_def)
next
  case (snoc p vs)
  obtain e v where p: "p = (e, v)" by fastforce
  define cs where "cs = fold note_violation vs \<lparr>cs_blocker = None, cs_throttler = None, cs_db = db\<rparr>"
  note IH = snoc [folded cs_def]
  have "blocker_ok (vs @ [(e, v)]) (cs_blocker (note_violation (e, v) cs)) \<and> throttler_ok (vs @ [(e, v)]) (cs_throttler (note_violation (e, v) cs))"
  proof (cases "bg_onExceed (ab_budget e) = Block")
    case True
    have "throttles (vs @ [(e, v)]) = throttles vs" using True by (simp add: throttles_snoc)
    then have "throttler_ok (vs @ [(e, v)]) (cs_throttler cs)" using IH by (simp only: throttler_ok_def)
    then show ?thesis using blocker_step [OF conjunct1 [OF IH] True] True by (simp add: note_violation_def)
  next
    case False
    have "blocks (vs @ [(e, v)]) = blocks vs" using False by (simp add: blocks_snoc)
    then have b: "blocker_ok (vs @ [(e, v)]) (cs_blocker cs)" using IH by (simp only: blocker_ok_def)
    have t: "throttler_ok vs (cs_throttler cs)" using IH by simp
    show ?thesis
    proof (cases "cs_throttler cs")
      case None
      then show ?thesis using b t False by (simp add: note_violation_def throttler_ok_def throttles_snoc)
    next
      case (Some q)
      obtain e' d' where q: "q = (e', d')" by fastforce
      show ?thesis
      proof (cases "vi_delayMs v > d'")
        case True
        then show ?thesis using b t False Some by (auto simp: q note_violation_def throttler_ok_def throttles_snoc)
      next
        case d: False
        then show ?thesis using b t False Some by (auto simp: q note_violation_def throttler_ok_def throttles_snoc)
      qed
    qed
  qed
  then show ?case by (simp add: p cs_def)
qed

section \<open>What recording adds\<close>

definition spent_at :: "budget_db \<Rightarrow> spend_key \<Rightarrow> rat" where
  "spent_at db k = (case k of (b, scope, ws, capKey) \<Rightarrow> if capKey = [] then windowSpend db (b, scope, ws) else modelSpend db k)"

lemma candidate_not_Nil: "c \<in> set (budgetModelCandidates p m) \<Longrightarrow> c \<noteq> []"
  by (auto simp: budgetModelCandidates_def Let_def split: if_splits)

lemma capKey_not_Nil: "k \<in> set (matchingCapKeys b (budgetModelCandidates p m)) \<Longrightarrow> k \<noteq> []"
  using candidate_not_Nil by (auto simp: matchingCapKeys_def toLowerCase_def)

lemma spent_mark [simp]: "spent_at (markExhausted e part r db) k = spent_at db k" "inflight (markExhausted e part r db) = inflight db"
  by (simp_all add: markExhausted_def spent_at_def split: prod.split)

lemma record_cap_spent:
  assumes "capKey \<noteq> []"
  shows "spent_at (record_cap e ws r usd capKey db) k =
           spent_at db k + (if k = (bg_id (ab_budget e), ab_windowScope e, ws, capKey) then usd else 0)"
    "inflight (record_cap e ws r usd capKey db) = inflight db"
  using assms by (auto simp: record_cap_def Let_def) (auto simp: incrementModelSpend_def spent_at_def split: prod.splits)

lemma record_caps_spent:
  assumes "[] \<notin> set caps"
  shows "spent_at (fold (record_cap e ws r usd) caps db) k =
           spent_at db k + usd * of_nat (count_list (map (\<lambda>c. (bg_id (ab_budget e), ab_windowScope e, ws, c)) caps) k) \<and>
         inflight (fold (record_cap e ws r usd) caps db) = inflight db"
  using assms
proof (induction caps arbitrary: db)
  case (Cons c caps)
  then show ?case using record_cap_spent(1) [of c e ws r usd db k] record_cap_spent(2) [of c e ws r usd db] by (auto simp: algebra_simps)
qed simp

lemma record_entry_spent:
  assumes "\<And>b. [] \<notin> set (matchingCapKeys b cands)"
  shows "spent_at (fst (record_entry cands now usd e (db, al))) k = spent_at db k + usd * of_nat (count_list (scopes_of_entry cands now e) k) \<and>
         inflight (fst (record_entry cands now usd e (db, al))) = inflight db"
proof -
  obtain ws r where w: "computeBudgetWindow (ab_budget e) now = (ws, r)" by fastforce
  let ?b = "ab_budget e"
  define db1 where "db1 = incrementWindowSpend (bg_id ?b) (ab_windowScope e) ws usd db"
  define spent where "spent = windowSpend db1 (bg_id ?b, ab_windowScope e, ws)"
  define db2 where "db2 = (if spent \<ge> bg_maxUsd ?b \<and> bg_onExceed ?b = Block then markExhausted e P_usd r db1 else db1)"
  define db3 where "db3 = fold (record_cap e ws r usd) (matchingCapKeys ?b cands) db2"
  have 1: "spent_at db1 k = spent_at db k + (if k = (bg_id ?b, ab_windowScope e, ws, []) then usd else 0)" "inflight db1 = inflight db"
    by (auto simp: db1_def incrementWindowSpend_def spent_at_def split: prod.splits)
  have 2: "spent_at db2 k = spent_at db1 k" "inflight db2 = inflight db1" by (simp_all add: db2_def)
  note 3 = record_caps_spent [OF assms [of ?b], of e ws r usd db2 k, folded db3_def]
  have eq: "record_entry cands now usd e (db, al) = (if spent \<ge> effectiveSoftUsd ?b
      then (case claimSoftAlert (bg_id ?b) (ab_windowScope e) ws db3 of (claimed, db4) \<Rightarrow> (db4, if claimed then al @ [bg_id ?b] else al)) else (db3, al))"
    unfolding record_entry_def prod.case w Let_def db3_def db2_def spent_def db1_def by (rule refl)
  have 4: "spent_at (fst (record_entry cands now usd e (db, al))) k = spent_at db3 k" "inflight (fst (record_entry cands now usd e (db, al))) = inflight db3"
    by (simp_all add: eq claimSoftAlert_def spent_at_def split: prod.splits)
  have "count_list (scopes_of_entry cands now e) k =
      (if k = (bg_id ?b, ab_windowScope e, ws, []) then 1 else 0) + count_list (map (\<lambda>c. (bg_id ?b, ab_windowScope e, ws, c)) (matchingCapKeys ?b cands)) k"
    by (simp add: scopes_of_entry_def w)
  then show ?thesis using 1 2 3 4 by (simp add: algebra_simps)
qed

lemma record_entries_spent:
  assumes "\<And>b. [] \<notin> set (matchingCapKeys b cands)"
  shows "spent_at (fst (fold (record_entry cands now usd) es acc)) k =
           spent_at (fst acc) k + usd * of_nat (count_list (concat (map (scopes_of_entry cands now) es)) k) \<and>
         inflight (fst (fold (record_entry cands now usd) es acc)) = inflight (fst acc)"
proof (induction es arbitrary: acc)
  case (Cons e es)
  obtain db al where "acc = (db, al)" by fastforce
  then show ?case using Cons.IH record_entry_spent [OF assms, of now usd e db al k] by (simp add: algebra_simps)
qed simp

lemma recordBudgetSpend_spent:
  assumes "0 \<le> usd" "db' = fst (recordBudgetSpend flat current rq usd now db)"
  shows "spent_at db' k = spent_at db k + usd * of_nat (count_list (getBudgetReservationScopes flat current rq now) k)" "inflight db' = inflight db"
proof -
  have n: "\<And>b. [] \<notin> set (matchingCapKeys b (budgetModelCandidates (rq_provider rq) (rq_model rq)))" using capKey_not_Nil by blast
  show "spent_at db' k = spent_at db k + usd * of_nat (count_list (getBudgetReservationScopes flat current rq now) k)" "inflight db' = inflight db"
    using record_entries_spent [OF n, of now usd "resolveApplicable current rq" "(db, [])" k] assms
    by (auto simp: recordBudgetSpend_def getBudgetReservationScopes_def)
qed

section \<open>Histories within a window\<close>

text \<open>
  Admissions, records of costs, releases, checks. The guards say what the histories assume: calls end before their
  reservations expire, a call costs at most what was reserved, its cost is recorded before its reservation is released, and
  no budget applies twice in one scope.
\<close>

datatype budget_event = B_admit budget_request string rat bool int | B_record string rat int | B_release string
  | B_check budget_request rat int | B_tokens budget_request rat int

definition set_recorded :: "string \<Rightarrow> budget_db \<Rightarrow> budget_db" where
  "set_recorded rid db = db\<lparr>inflight := map (\<lambda>r. if rs_id r = rid then r\<lparr>rs_recorded := True\<rparr> else r) (inflight db)\<rparr>"

inductive budget_step :: "(string \<Rightarrow> bool) \<Rightarrow> snapshot \<Rightarrow> int \<Rightarrow> int \<Rightarrow> budget_event \<Rightarrow> budget_db \<Rightarrow> budget_db \<Rightarrow> bool" for flat current lo hi where
  B_admitted: "lo \<le> now \<Longrightarrow> now < hi \<Longrightarrow> 0 \<le> usd \<Longrightarrow> \<forall>r \<in> set (inflight db). rs_id r \<noteq> rid \<and> now < rs_expiresAt r \<Longrightarrow>
     budget_step flat current lo hi (B_admit rq rid usd others now) db (snd (admission_transaction flat current others rq (Some (rid, usd)) now db))"
| B_recorded: "lo \<le> now \<Longrightarrow> now < hi \<Longrightarrow> r \<in> set (inflight db) \<Longrightarrow> \<not> rs_recorded r \<Longrightarrow> 0 \<le> usd \<Longrightarrow> usd \<le> rs_usd r \<Longrightarrow>
     distinct (getBudgetReservationScopes flat current (rs_request r) now) \<Longrightarrow>
     budget_step flat current lo hi (B_record (rs_id r) usd now) db (set_recorded (rs_id r) (fst (recordBudgetSpend flat current (rs_request r) usd now db)))"
| B_released: "budget_step flat current lo hi (B_release rid) db (releaseBudgetCost rid db)"
| B_checked: "budget_step flat current lo hi (B_check rq usd now) db (snd (checkBudgets flat current rq usd now db))"
| B_counted: "budget_step flat current lo hi (B_tokens rq tokens now) db (recordBudgetTokens current rq tokens now db)"

definition pending_at :: "budget_db \<Rightarrow> spend_key \<Rightarrow> rat" where
  "pending_at db k = sum_list (map rs_usd (filter (\<lambda>r. \<not> rs_recorded r \<and> k \<in> set (rs_scopes r)) (inflight db)))"

definition limit_of :: "budget \<Rightarrow> string \<Rightarrow> rat option" where
  "limit_of b capKey = (if capKey = [] then Some (bg_maxUsd b) else map_of (bg_modelMax b) capKey)"

text \<open>The limits of the budget \<open>b\<close> in the window that begins at \<open>ws\<close>, for every scope and cap.\<close>

definition budget_inv :: "(string \<Rightarrow> bool) \<Rightarrow> snapshot \<Rightarrow> budget \<Rightarrow> int \<Rightarrow> budget_db \<Rightarrow> bool" where
  "budget_inv flat current b ws db \<longleftrightarrow>
     distinct (map rs_id (inflight db)) \<and> (\<forall>r \<in> set (inflight db). 0 \<le> rs_usd r) \<and>
     (\<forall>scope capKey l. limit_of b capKey = Some l \<longrightarrow> spent_at db (bg_id b, scope, ws, capKey) + pending_at db (bg_id b, scope, ws, capKey) \<le> l) \<and>
     (\<forall>r \<in> set (inflight db). \<forall>now scope capKey. fst (computeBudgetWindow b now) = ws \<longrightarrow>
        (bg_id b, scope, ws, capKey) \<in> set (getBudgetReservationScopes flat current (rs_request r) now) \<longrightarrow> (bg_id b, scope, ws, capKey) \<in> set (rs_scopes r))"

text \<open>Budgets are identified by their id.\<close>

definition knows_budget :: "snapshot \<Rightarrow> budget \<Rightarrow> bool" where
  "knows_budget current b \<longleftrightarrow> (\<forall>rq. \<forall>e \<in> set (resolveApplicable current rq). bg_id (ab_budget e) = bg_id b \<longrightarrow> ab_budget e = b)"

lemma scope_cases:
  assumes "knows_budget current b" "(bg_id b, scope, ws, capKey) \<in> set (getBudgetReservationScopes flat current rq now)"
  obtains e where "e \<in> set (resolveApplicable current rq)" "ab_budget e = b" "ab_windowScope e = scope" "ws = fst (computeBudgetWindow b now)"
    "\<not> flat (rq_provider rq)" "rq_keyId rq \<noteq> []"
    "capKey = [] \<or> capKey \<in> set (matchingCapKeys b (budgetModelCandidates (rq_provider rq) (rq_model rq)))"
proof -
  from assms(2) obtain e where e: "e \<in> set (resolveApplicable current rq)" "\<not> flat (rq_provider rq)" "rq_keyId rq \<noteq> []"
    "(bg_id b, scope, ws, capKey) \<in> set (scopes_of_entry (budgetModelCandidates (rq_provider rq) (rq_model rq)) now e)"
    by (auto simp: getBudgetReservationScopes_def split: if_splits)
  then have "bg_id (ab_budget e) = bg_id b" by (auto simp: scopes_of_entry_def)
  then have b: "ab_budget e = b" using assms(1) e(1) by (simp add: knows_budget_def)
  show thesis by (rule that [OF e(1) b]) (use e b in \<open>auto simp: scopes_of_entry_def\<close>)
qed

lemma scopes_stable:
  assumes "knows_budget current b" "fst (computeBudgetWindow b now') = ws"
    "(bg_id b, scope, ws, capKey) \<in> set (getBudgetReservationScopes flat current rq now)"
  shows "(bg_id b, scope, ws, capKey) \<in> set (getBudgetReservationScopes flat current rq now')"
proof -
  from assms(1,3) obtain e where e: "e \<in> set (resolveApplicable current rq)" "ab_budget e = b" "ab_windowScope e = scope"
    "\<not> flat (rq_provider rq)" "rq_keyId rq \<noteq> []"
    "capKey = [] \<or> capKey \<in> set (matchingCapKeys b (budgetModelCandidates (rq_provider rq) (rq_model rq)))" by (rule scope_cases)
  then have "(bg_id b, scope, ws, capKey) \<in> set (scopes_of_entry (budgetModelCandidates (rq_provider rq) (rq_model rq)) now' e)"
    using assms(2) by (auto simp: scopes_of_entry_def)
  then show ?thesis using e(1,4,5) by (auto simp: getBudgetReservationScopes_def)
qed

lemma frame_note: "spent_at (cs_db (fold note_violation vs cs)) k = spent_at (cs_db cs) k \<and> inflight (cs_db (fold note_violation vs cs)) = inflight (cs_db cs)"
proof (induction vs arbitrary: cs)
  case (Cons p vs)
  have "spent_at (cs_db (note_violation p cs)) k = spent_at (cs_db cs) k \<and> inflight (cs_db (note_violation p cs)) = inflight (cs_db cs)"
    by (auto simp: note_violation_def split: prod.splits option.splits)
  then show ?case using Cons.IH by simp
qed simp

lemma frame_check: "spent_at (snd (checkBudgets flat current rq usd now db)) k = spent_at db k" "inflight (snd (checkBudgets flat current rq usd now db)) = inflight db"
  using frame_note [of "all_violations flat current rq usd now db" "\<lparr>cs_blocker = None, cs_throttler = None, cs_db = db\<rparr>" k]
  by (simp_all add: checkBudgets_def Let_def)

lemma frame_rate: "spent_at (incrementBudgetRate b scope part d now db) k = spent_at db k" "inflight (incrementBudgetRate b scope part d now db) = inflight db"
  by (simp_all add: incrementBudgetRate_def Let_def spent_at_def split: prod.split)

lemma frame_rates:
  "spent_at (fold (\<lambda>e db. if P e then incrementBudgetRate (f e) (g e) part d now db else db) es db) k = spent_at db k \<and>
   inflight (fold (\<lambda>e db. if P e then incrementBudgetRate (f e) (g e) part d now db else db) es db) = inflight db"
  by (induction es arbitrary: db) (simp_all add: frame_rate)

lemma frame_admission: "spent_at (recordBudgetAdmission current rq now db) k = spent_at db k" "inflight (recordBudgetAdmission current rq now db) = inflight db"
  by (simp_all add: recordBudgetAdmission_def frame_rates)

lemma frame_tokens: "spent_at (recordBudgetTokens current rq t now db) k = spent_at db k" "inflight (recordBudgetTokens current rq t now db) = inflight db"
  by (simp_all add: recordBudgetTokens_def frame_rates)

lemma budget_inv_frame:
  assumes "budget_inv flat current b ws db" "\<And>k. spent_at db' k = spent_at db k" "inflight db' = inflight db"
  shows "budget_inv flat current b ws db'"
  using assms by (simp add: budget_inv_def pending_at_def)

text \<open>An admitted request fits under every limit of a blocking budget, together with all that is in flight.\<close>

lemma allowed_fits:
  assumes "fst (checkBudgets flat current rq usd now db) = res" "\<forall>t i. res \<noteq> R_blocked t i" "0 \<le> usd" "knows_budget current b" "bg_onExceed b = Block"
    and "(bg_id b, scope, ws, capKey) \<in> set (getBudgetReservationScopes flat current rq now)" "limit_of b capKey = Some l"
  shows "spent_at db (bg_id b, scope, ws, capKey) + getReservedScopeCost (bg_id b, scope, ws, capKey) now db + usd \<le> l"
proof -
  let ?vs = "all_violations flat current rq usd now db" and ?cands = "budgetModelCandidates (rq_provider rq) (rq_model rq)"
  from assms(4,6) obtain e where e: "e \<in> set (resolveApplicable current rq)" "ab_budget e = b" "ab_windowScope e = scope" "ws = fst (computeBudgetWindow b now)"
    "\<not> flat (rq_provider rq)" "rq_keyId rq \<noteq> []" "capKey = [] \<or> capKey \<in> set (matchingCapKeys b ?cands)" by (rule scope_cases)
  have "blocks ?vs = []"
    using note_violations [OF refl, of ?vs db] assms(1,2) e(6) by (auto simp: checkBudgets_def Let_def blocker_ok_def split: option.splits)
  then have "violationsOf e ?cands now True usd db = []"
    using e assms(3,5) by (auto simp: blocks_def all_violations_def filter_empty_conv)
  then have none: "\<not> over (windowSpend db (bg_id b, scope, ws) + getReservedScopeCost (bg_id b, scope, ws, []) now db) usd (bg_maxUsd b)"
    "c \<in> set (matchingCapKeys b ?cands) \<Longrightarrow>
       \<not> over (modelSpend db (bg_id b, scope, ws, c) + getReservedScopeCost (bg_id b, scope, ws, c) now db) usd (the (map_of (bg_modelMax b) c))" for c
    by (auto simp: violationsOf_def Let_def e(2,3,4) split: prod.splits if_splits)
  show ?thesis
  proof (cases "capKey = []")
    case True
    then show ?thesis using none(1) assms(7) by (simp add: limit_of_def over_def spent_at_def)
  next
    case False
    then show ?thesis using none(2) [of capKey] e(7) assms(7) by (simp add: limit_of_def over_def spent_at_def)
  qed
qed

lemma pending_le_reserved:
  assumes "\<forall>r \<in> set (inflight db). 0 \<le> rs_usd r \<and> now < rs_expiresAt r"
  shows "pending_at db k \<le> getReservedScopeCost k now db"
proof -
  have "sum_list (map rs_usd (filter (\<lambda>r. \<not> rs_recorded r \<and> k \<in> set (rs_scopes r)) rs)) \<le>
        sum_list (map rs_usd (filter (\<lambda>r. k \<in> set (rs_scopes r) \<and> now < rs_expiresAt r) rs))"
    if "\<forall>r \<in> set rs. 0 \<le> rs_usd r \<and> now < rs_expiresAt r" for rs using that by (induction rs) auto
  then show ?thesis using assms by (simp add: pending_at_def getReservedScopeCost_def)
qed

lemma inv_reserve:
  assumes inv: "budget_inv flat current b ws db" and b: "knows_budget current b"
    and "0 \<le> usd" "\<forall>r \<in> set (inflight db). rs_id r \<noteq> rid"
    and fits: "\<And>scope capKey l. (bg_id b, scope, ws, capKey) \<in> set (getBudgetReservationScopes flat current rq now) \<Longrightarrow> limit_of b capKey = Some l \<Longrightarrow>
      spent_at db (bg_id b, scope, ws, capKey) + pending_at db (bg_id b, scope, ws, capKey) + usd \<le> l"
    and now: "fst (computeBudgetWindow b now) = ws"
  shows "budget_inv flat current b ws (reserveBudgetCost rid rq usd (getBudgetReservationScopes flat current rq now) now db)"
proof -
  let ?db = "reserveBudgetCost rid rq usd (getBudgetReservationScopes flat current rq now) now db"
  have sp: "spent_at ?db k = spent_at db k" for k by (simp add: reserveBudgetCost_def spent_at_def split: prod.split)
  have pe: "pending_at ?db k = pending_at db k + (if k \<in> set (getBudgetReservationScopes flat current rq now) then usd else 0)" for k
    by (simp add: reserveBudgetCost_def pending_at_def)
  have "spent_at ?db (bg_id b, scope, ws, capKey) + pending_at ?db (bg_id b, scope, ws, capKey) \<le> l" if "limit_of b capKey = Some l" for scope capKey l
    using that inv fits [of scope capKey l] by (auto simp: sp pe budget_inv_def algebra_simps)
  moreover have "(bg_id b, scope, ws, capKey) \<in> set (rs_scopes r)"
    if "r \<in> set (inflight ?db)" "fst (computeBudgetWindow b t) = ws" "(bg_id b, scope, ws, capKey) \<in> set (getBudgetReservationScopes flat current (rs_request r) t)"
    for r t scope capKey
  proof (cases "r \<in> set (inflight db)")
    case True
    then show ?thesis using inv that(2,3) unfolding budget_inv_def by blast
  next
    case False
    then have "rs_request r = rq" "set (rs_scopes r) = set (getBudgetReservationScopes flat current rq now)"
      using that(1) by (auto simp: reserveBudgetCost_def)
    then show ?thesis using scopes_stable [OF b now] that(3) by simp
  qed
  moreover have "distinct (map rs_id (inflight ?db))" "\<forall>r \<in> set (inflight ?db). 0 \<le> rs_usd r"
    using inv assms(3,4) by (auto simp: budget_inv_def reserveBudgetCost_def)
  ultimately show ?thesis unfolding budget_inv_def by blast
qed

lemma inv_admit:
  assumes inv: "budget_inv flat current b ws db" and b: "knows_budget current b" "bg_onExceed b = Block"
    and usd: "0 \<le> usd" and r: "\<forall>r \<in> set (inflight db). rs_id r \<noteq> rid \<and> now < rs_expiresAt r"
    and now: "fst (computeBudgetWindow b now) = ws"
  shows "budget_inv flat current b ws (snd (admission_transaction flat current others rq (Some (rid, usd)) now db))"
proof (cases "rq_keyId rq = [] \<or> \<not> others")
  case True
  then show ?thesis using inv by (auto simp: admission_transaction_def)
next
  case False
  obtain res db1 where c: "checkBudgets flat current rq usd now db = (res, db1)" by fastforce
  have f: "spent_at db1 k = spent_at db k" "inflight db1 = inflight db" for k
    using frame_check [of flat current rq usd now db] by (simp_all add: c)
  have inv1: "budget_inv flat current b ws db1" using budget_inv_frame [OF inv f] .
  have p1: "pending_at db1 k = pending_at db k" for k by (simp add: pending_at_def f)
  let ?sc = "getBudgetReservationScopes flat current rq now"
  show ?thesis
  proof (cases "\<exists>t i. res = R_blocked t i")
    case True
    then show ?thesis using False inv1 by (auto simp: admission_transaction_def c)
  next
    case nb: False
    have "\<forall>r \<in> set (inflight db). 0 \<le> rs_usd r \<and> now < rs_expiresAt r" using inv r by (auto simp: budget_inv_def)
    note pr = pending_le_reserved [OF this]
    have "spent_at db1 (bg_id b, scope, ws, capKey) + pending_at db1 (bg_id b, scope, ws, capKey) + usd \<le> l"
      if "(bg_id b, scope, ws, capKey) \<in> set ?sc" "limit_of b capKey = Some l" for scope capKey l
      using allowed_fits [of flat current rq usd now db res, OF _ _ usd b that] nb pr [of "(bg_id b, scope, ws, capKey)"] by (simp add: c f p1)
    then have "budget_inv flat current b ws (reserveBudgetCost rid rq usd ?sc now db1)"
      using inv_reserve [OF inv1 b(1) usd _ _ now] r by (simp add: f)
    then have "budget_inv flat current b ws (recordBudgetAdmission current rq now (reserveBudgetCost rid rq usd ?sc now db1))"
      by (rule budget_inv_frame) (simp_all add: frame_admission)
    moreover have "snd (admission_transaction flat current others rq (Some (rid, usd)) now db) = recordBudgetAdmission current rq now (reserveBudgetCost rid rq usd ?sc now db1)"
      using False nb by (cases res) (simp_all add: admission_transaction_def c)
    ultimately show ?thesis by simp
  qed
qed

lemma pending_recorded:
  assumes "distinct (map rs_id rs)" "r \<in> set rs" "\<not> rs_recorded r"
  shows "sum_list (map rs_usd (filter (\<lambda>x. \<not> rs_recorded x \<and> k \<in> set (rs_scopes x)) (map (\<lambda>x. if rs_id x = rs_id r then x\<lparr>rs_recorded := True\<rparr> else x) rs))) =
         sum_list (map rs_usd (filter (\<lambda>x. \<not> rs_recorded x \<and> k \<in> set (rs_scopes x)) rs)) - (if k \<in> set (rs_scopes r) then rs_usd r else 0)"
  using assms
proof (induction rs)
  case (Cons x rs)
  show ?case
  proof (cases "x = r")
    case True
    have "rs_id y \<noteq> rs_id r" if "y \<in> set rs" for y using Cons.prems(1) True that by (metis distinct.simps(2) image_eqI list.map(2) set_map)
    then have "map (\<lambda>x. if rs_id x = rs_id r then x\<lparr>rs_recorded := True\<rparr> else x) rs = rs" by (intro map_idI) simp
    then show ?thesis using True Cons.prems(3) by (simp del: map_map filter_map)
  next
    case False
    then have m: "r \<in> set rs" "rs_id x \<noteq> rs_id r" using Cons.prems by auto
    have "distinct (map rs_id rs)" using Cons.prems(1) by simp
    note IH = Cons.IH [OF this m(1) Cons.prems(3)]
    show ?thesis using IH m(2) by (cases "k \<in> set (rs_scopes r)") simp_all
  qed
qed simp

lemma count_list_distinct: "distinct xs \<Longrightarrow> count_list xs x = (if x \<in> set xs then 1 else 0)"
  by (induction xs) auto

lemma inv_record:
  assumes inv: "budget_inv flat current b ws db" and now: "fst (computeBudgetWindow b now) = ws"
    and r: "r \<in> set (inflight db)" "\<not> rs_recorded r" "0 \<le> usd" "usd \<le> rs_usd r" "distinct (getBudgetReservationScopes flat current (rs_request r) now)"
  shows "budget_inv flat current b ws (set_recorded (rs_id r) (fst (recordBudgetSpend flat current (rs_request r) usd now db)))"
proof -
  let ?sc = "getBudgetReservationScopes flat current (rs_request r) now"
  define db1 where "db1 = fst (recordBudgetSpend flat current (rs_request r) usd now db)"
  note rec = recordBudgetSpend_spent [OF r(3) db1_def]
  have infl: "inflight (set_recorded (rs_id r) db1) = map (\<lambda>x. if rs_id x = rs_id r then x\<lparr>rs_recorded := True\<rparr> else x) (inflight db)"
    by (simp add: set_recorded_def rec)
  have sp: "spent_at (set_recorded (rs_id r) db1) k = spent_at db k + (if k \<in> set ?sc then usd else 0)" for k
    using rec(1) [of k] by (simp add: set_recorded_def spent_at_def count_list_distinct [OF r(5)] split: prod.splits if_splits)
  have dd: "distinct (map rs_id (inflight db))" using inv by (simp add: budget_inv_def)
  have pe: "pending_at (set_recorded (rs_id r) db1) k = pending_at db k - (if k \<in> set (rs_scopes r) then rs_usd r else 0)" for k
    using pending_recorded [OF dd r(1,2), of k] by (simp add: pending_at_def infl)
  have "spent_at (set_recorded (rs_id r) db1) (bg_id b, scope, ws, capKey) + pending_at (set_recorded (rs_id r) db1) (bg_id b, scope, ws, capKey) \<le> l"
    if "limit_of b capKey = Some l" for scope capKey l
  proof -
    have old: "spent_at db (bg_id b, scope, ws, capKey) + pending_at db (bg_id b, scope, ws, capKey) \<le> l" using inv that by (simp add: budget_inv_def)
    have "(bg_id b, scope, ws, capKey) \<in> set ?sc \<Longrightarrow> (bg_id b, scope, ws, capKey) \<in> set (rs_scopes r)" using inv r(1) now unfolding budget_inv_def by blast
    then show ?thesis using old r(3,4) unfolding sp pe by auto
  qed
  moreover have "distinct (map rs_id (inflight (set_recorded (rs_id r) db1)))"
  proof -
    have "map rs_id (inflight (set_recorded (rs_id r) db1)) = map rs_id (inflight db)" by (simp add: infl)
    then show ?thesis using dd by simp
  qed
  moreover have "\<forall>x \<in> set (inflight (set_recorded (rs_id r) db1)). 0 \<le> rs_usd x" using inv by (auto simp: infl budget_inv_def)
  moreover have "(bg_id b, scope, ws, capKey) \<in> set (rs_scopes x)"
    if x: "x \<in> set (inflight (set_recorded (rs_id r) db1))" "fst (computeBudgetWindow b t) = ws"
      "(bg_id b, scope, ws, capKey) \<in> set (getBudgetReservationScopes flat current (rs_request x) t)" for x t scope capKey
  proof -
    obtain y where y: "y \<in> set (inflight db)" "x = (if rs_id y = rs_id r then y\<lparr>rs_recorded := True\<rparr> else y)" using x(1) by (auto simp: infl)
    then have "rs_request y = rs_request x" "rs_scopes y = rs_scopes x" by simp_all
    with y(1) show ?thesis using inv x(2,3) unfolding budget_inv_def by metis
  qed
  ultimately show ?thesis unfolding budget_inv_def db1_def [symmetric] by blast
qed

lemma inv_release:
  assumes "budget_inv flat current b ws db"
  shows "budget_inv flat current b ws (releaseBudgetCost rid db)"
proof -
  have "sum_list (map rs_usd (filter P (filter Q rs))) \<le> sum_list (map rs_usd (filter P rs))"
    if "\<forall>r \<in> set rs. 0 \<le> rs_usd r" for P Q and rs :: "reservation list" using that by (induction rs) auto
  then have "pending_at (releaseBudgetCost rid db) k \<le> pending_at db k" for k
    using assms by (simp add: pending_at_def releaseBudgetCost_def budget_inv_def)
  moreover have "spent_at (releaseBudgetCost rid db) k = spent_at db k" for k by (simp add: releaseBudgetCost_def spent_at_def split: prod.split)
  ultimately have "spent_at (releaseBudgetCost rid db) (bg_id b, scope, ws, capKey) + pending_at (releaseBudgetCost rid db) (bg_id b, scope, ws, capKey) \<le> l"
    if "limit_of b capKey = Some l" for scope capKey l
    using assms that order_trans [OF add_left_mono] unfolding budget_inv_def by metis
  moreover have "set (inflight (releaseBudgetCost rid db)) \<subseteq> set (inflight db)" "distinct (map rs_id (inflight (releaseBudgetCost rid db)))"
    using assms by (auto simp: releaseBudgetCost_def budget_inv_def distinct_map_filter)
  ultimately show ?thesis using assms unfolding budget_inv_def by blast
qed

lemma budget_step_inv:
  assumes "budget_step flat current lo hi ev db db'" "budget_inv flat current b ws db"
    and "knows_budget current b" "bg_onExceed b = Block" "\<And>now. lo \<le> now \<Longrightarrow> now < hi \<Longrightarrow> fst (computeBudgetWindow b now) = ws"
  shows "budget_inv flat current b ws db'"
  using assms(1)
proof cases
  case (B_admitted now usd rid rq others)
  then show ?thesis using inv_admit [OF assms(2,3,4)] assms(5) by blast
next
  case (B_recorded now r usd)
  then show ?thesis using inv_record [OF assms(2)] assms(5) by blast
next
  case (B_released rid)
  then show ?thesis using inv_release [OF assms(2)] by simp
next
  case (B_checked rq usd now)
  then show ?thesis using budget_inv_frame [OF assms(2)] frame_check by simp
next
  case (B_counted rq tokens now)
  then show ?thesis using budget_inv_frame [OF assms(2)] frame_tokens by simp
qed

text \<open>The histories the bound is about: all in one window of the budget, which refuses when it is exceeded.\<close>

definition bounded_budget :: "snapshot \<Rightarrow> budget \<Rightarrow> int \<Rightarrow> int \<Rightarrow> int \<Rightarrow> bool" where
  "bounded_budget current b lo hi ws \<longleftrightarrow>
     knows_budget current b \<and> bg_onExceed b = Block \<and> (\<forall>now. lo \<le> now \<and> now < hi \<longrightarrow> fst (computeBudgetWindow b now) = ws)"

interpretation budgets: step_system "budget_step flat current lo hi" "\<lambda>db. bounded_budget current b lo hi ws \<longrightarrow> budget_inv flat current b ws db"
  for flat current lo hi b ws
  by unfold_locales (auto simp: bounded_budget_def intro: budget_step_inv)

definition empty_db :: budget_db where
  "empty_db = \<lparr>windowSpend = \<lambda>_. 0, modelSpend = \<lambda>_. 0, alerted = {}, rateBuckets = \<lambda>_. 0, inflight = [], exhausted = []\<rparr>"

lemma empty_inv: "(\<And>capKey l. limit_of b capKey = Some l \<Longrightarrow> 0 \<le> l) \<Longrightarrow> budget_inv flat current b ws empty_db"
  by (simp add: budget_inv_def empty_db_def spent_at_def pending_at_def)

lemma same_window_start:
  assumes "computeBudgetWindow b lo = (ws, r)" "case r of None \<Rightarrow> True | Some t \<Rightarrow> hi \<le> t" "lo \<le> now" "now < hi"
  shows "fst (computeBudgetWindow b now) = ws"
proof (cases "bg_duration b")
  case (Every iv)
  let ?rt = "Some (case bg_resetTime b of Some t \<Rightarrow> t | None \<Rightarrow> ''00:00'')"
  have w: "ws = periodStartAt (getBudgetWindow iv ?rt lo)" "r = Some (nextResetAt (getBudgetWindow iv ?rt lo))"
    using assms(1) Every by (simp_all add: computeBudgetWindow_def Let_def)
  then have "getBudgetWindow iv ?rt now = getBudgetWindow iv ?rt lo" using assms(2-4) by (intro window_same) simp_all
  then show ?thesis by (simp only: computeBudgetWindow_def Every duration.case Let_def w fst_conv)
qed (use assms in \<open>simp add: computeBudgetWindow_def\<close>)

section \<open>Properties\<close>


definition demo_budget :: "duration \<Rightarrow> budget" where
  "demo_budget d = \<lparr>bg_id = ''b'', bg_maxUsd = 10, bg_softUsd = None, bg_duration = d, bg_resetTime = None, bg_onExceed = Block,
     bg_throttleDelayMs = 0, bg_tpmLimit = None, bg_rpmLimit = None, bg_modelMax = [(''p/*'', 9)]\<rparr>"

definition demo_snapshot :: "duration \<Rightarrow> snapshot" where
  "demo_snapshot d = \<lparr>by_key = [(''k'', [\<lparr>ab_budget = demo_budget d, ab_scopeType = S_key, ab_scopeValue = ''k'', ab_windowScope = ''k''\<rparr>])],
     by_group = [], by_tag = [], by_user = []\<rparr>"

definition demo_request :: budget_request where
  "demo_request = \<lparr>rq_keyId = ''k'', rq_provider = ''p'', rq_model = ''p/m'', rq_groups = [], rq_tags = [], rq_endUser = []\<rparr>"

definition demo_admitted :: budget_db where
  "demo_admitted = snd (admission_transaction (\<lambda>_. False) (demo_snapshot Total) True demo_request (Some (''r'', 8)) 5 empty_db)"

definition demo_row :: reservation where
  "demo_row = \<lparr>rs_id = ''r'', rs_usd = 8, rs_expiresAt = 3600005, rs_scopes = [(''b'', ''k'', 0, []), (''b'', ''k'', 0, ''p/*'')],
     rs_request = demo_request, rs_recorded = False\<rparr>"

definition demo_recorded :: budget_db where
  "demo_recorded = set_recorded ''r'' (fst (recordBudgetSpend (\<lambda>_. False) (demo_snapshot Total) demo_request 7 9 demo_admitted))"

lemma demo_knows: "knows_budget (demo_snapshot d) (demo_budget d)"
  by (auto simp: knows_budget_def resolveApplicable_def collectApplicable_def assigned_def demo_snapshot_def split: if_splits)

lemma demo_history: "reaches (budget_step (\<lambda>_. False) (demo_snapshot Total) 0 100) empty_db demo_recorded"
proof -
  have 1: "budget_step (\<lambda>_. False) (demo_snapshot Total) 0 100 (B_admit demo_request ''r'' 8 True 5) empty_db demo_admitted"
    unfolding demo_admitted_def by (rule B_admitted) (simp_all add: empty_db_def)
  have 2: "budget_step (\<lambda>_. False) (demo_snapshot Total) 0 100 (B_record (rs_id demo_row) 7 9) demo_admitted
      (set_recorded (rs_id demo_row) (fst (recordBudgetSpend (\<lambda>_. False) (demo_snapshot Total) (rs_request demo_row) 7 9 demo_admitted)))"
  proof (rule B_recorded)
    have "inflight demo_admitted = [demo_row]" by code_simp
    then show "demo_row \<in> set (inflight demo_admitted)" by simp
    show "distinct (getBudgetReservationScopes (\<lambda>_. False) (demo_snapshot Total) (rs_request demo_row) 9)" by code_simp
  qed (simp_all add: demo_row_def)
  have 3: "demo_recorded = set_recorded (rs_id demo_row) (fst (recordBudgetSpend (\<lambda>_. False) (demo_snapshot Total) (rs_request demo_row) 7 9 demo_admitted))"
    by (simp add: demo_recorded_def demo_row_def)
  let ?step = "budget_step (\<lambda>_. False) (demo_snapshot Total) 0 100"
  have "reaches ?step empty_db demo_admitted" by (rule reaches_one [where step = ?step, OF 1])
  then show ?thesis unfolding 3 by (rule reaches_more [where step = ?step, OF _ 2])
qed




section \<open>Observations\<close>

text \<open>
  A reservation counts in the window of its admission and the cost in the window of its completion, so calls that run
  over a reset are charged to a window in which nothing was reserved for them, and can overspend it.
\<close>

lemma rollover_overspends:
  "let sn = demo_snapshot (Every Daily);
       (ok1, db1) = admission_transaction (\<lambda>_. False) sn True demo_request (Some (''r1'', 8)) 86399000 empty_db;
       (ok2, db2) = admission_transaction (\<lambda>_. False) sn True demo_request (Some (''r2'', 8)) 86400001 db1;
       db3 = fst (recordBudgetSpend (\<lambda>_. False) sn demo_request 8 86400002 db2);
       db4 = fst (recordBudgetSpend (\<lambda>_. False) sn demo_request 8 86400003 db3)
   in ok1 \<and> ok2 \<and> windowSpend db4 (''b'', ''k'', 86400000) = 16"
  by code_simp

end
