(* ===== verification/Cost_Rules.thy ===== *)
theory Cost_Rules
  imports Budget_Window Step_Systems "HOL-Library.Multiset"
begin

text \<open>
  The budget of an API key (\<^verbatim>\<open>src/domain/costRules.ts\<close>) and the batched writer of its costs
  (\<^verbatim>\<open>src/lib/spend/batchWriter.ts\<close> with \<^verbatim>\<open>batchSaveCostEntries\<close>, which inserts synchronously). A flush that has inserted its rows
  is continued in a later turn, between which other requests run; \<^verbatim>\<open>flushPromise\<close> is absent, or belongs to such a flush, or
  is a promise already settled that was stored after the flush had reset the field. Other writes to the database succeed.
  Two fields of a budget that are only reported, its next reset and the time of its last warning, are left out.
  \<open>recorded\<close> (all costs of a key since its budget was deleted) and \<open>clock\<close> are ghost fields.
\<close>

section \<open>The batch writer\<close>

record cost_entry =
  ce_key :: string
  ce_cost :: rat
  ce_ts :: int

datatype flush_state = F_none | F_running | F_settled

record writer =
  buffer :: "cost_entry list"
  inFlightEntries :: "cost_entry list"
  discardedApiKeyIds :: "string set"
  flushPromise :: flush_state
  cost_rows :: "cost_entry list"
  recorded :: "cost_entry multiset"

text \<open>\<open>throws\<close>: the insertion fails, as a whole.\<close>

definition flush :: "bool \<Rightarrow> writer \<Rightarrow> writer" where
  "flush throws w =
     (if flushPromise w \<noteq> F_none then w
      else if buffer w = [] then w
      else
        (let entriesToFlush = buffer w;
             entriesToPersist = filter (\<lambda>e. ce_key e \<notin> discardedApiKeyIds w) entriesToFlush
         in if entriesToPersist = [] then w\<lparr>buffer := [], inFlightEntries := [], flushPromise := F_settled\<rparr>
            else if throws then w\<lparr>buffer := entriesToPersist, inFlightEntries := [], flushPromise := F_settled\<rparr>
            else w\<lparr>buffer := [], inFlightEntries := entriesToFlush, flushPromise := F_running, cost_rows := cost_rows w @ entriesToPersist\<rparr>))"

text \<open>The continuation after the insertion.\<close>

definition finish_flush :: "writer \<Rightarrow> writer" where
  "finish_flush w = (if flushPromise w = F_running then w\<lparr>inFlightEntries := [], flushPromise := F_none\<rparr> else w)"

definition increment_cost :: "nat \<Rightarrow> bool \<Rightarrow> cost_entry \<Rightarrow> writer \<Rightarrow> writer" where
  "increment_cost maxBufferSize throws e w =
     (if ce_key e = [] \<or> ce_cost e \<le> 0 then w
      else
        (let w1 = w\<lparr>discardedApiKeyIds := discardedApiKeyIds w - {ce_key e}, buffer := buffer w @ [e], recorded := recorded w + {#e#}\<rparr>
         in if length (buffer w1) \<ge> maxBufferSize then flush throws w1 else w1))"

definition getBufferedEntries :: "string \<Rightarrow> rat \<Rightarrow> rat option \<Rightarrow> writer \<Rightarrow> cost_entry list" where
  "getBufferedEntries key since until w =
     filter (\<lambda>e. ce_key e = key \<and> of_int (ce_ts e) \<ge> since \<and> (case until of None \<Rightarrow> True | Some u \<Rightarrow> of_int (ce_ts e) < u))
       (inFlightEntries w @ buffer w)"

definition getPendingCostTotal :: "string \<Rightarrow> rat \<Rightarrow> rat option \<Rightarrow> writer \<Rightarrow> rat" where
  "getPendingCostTotal key since until w = sum_list (map ce_cost (getBufferedEntries key since until w))"

definition discardEntries :: "string \<Rightarrow> writer \<Rightarrow> writer" where
  "discardEntries key w =
     w\<lparr>discardedApiKeyIds := insert key (discardedApiKeyIds w), buffer := filter (\<lambda>e. ce_key e \<noteq> key) (buffer w),
       inFlightEntries := filter (\<lambda>e. ce_key e \<noteq> key) (inFlightEntries w)\<rparr>"

definition loadCostTotal :: "string \<Rightarrow> int \<Rightarrow> writer \<Rightarrow> rat" where
  "loadCostTotal key since w = sum_list (map ce_cost (filter (\<lambda>e. ce_key e = key \<and> ce_ts e \<ge> since) (cost_rows w)))"

definition getBudgetWindowTotal :: "string \<Rightarrow> int \<Rightarrow> writer \<Rightarrow> rat" where
  "getBudgetWindowTotal key periodStart w = loadCostTotal key periodStart w + getPendingCostTotal key (of_int periodStart) None w"

definition loadCostEntriesInRange :: "string \<Rightarrow> rat \<Rightarrow> int \<Rightarrow> writer \<Rightarrow> cost_entry list" where
  "loadCostEntriesInRange key from until w = filter (\<lambda>e. ce_key e = key \<and> of_int (ce_ts e) \<ge> from \<and> ce_ts e < until) (cost_rows w)"

definition getBudgetWindowRangeTotal :: "string \<Rightarrow> rat \<Rightarrow> int \<Rightarrow> writer \<Rightarrow> rat" where
  "getBudgetWindowRangeTotal key periodStart periodEnd w =
     sum_list (map ce_cost (loadCostEntriesInRange key periodStart periodEnd w)) + getPendingCostTotal key periodStart (Some (of_int periodEnd)) w"

section \<open>The configuration of a budget\<close>

record raw_budget =
  rb_daily :: js_val
  rb_weekly :: js_val
  rb_monthly :: js_val
  rb_warningThreshold :: js_val
  rb_resetInterval :: js_val
  rb_resetTime :: js_val
  rb_lastBudgetResetAt :: js_val
  rb_warningPeriodStart :: js_val

record key_budget =
  kb_dailyLimitUsd :: rat
  kb_weeklyLimitUsd :: rat
  kb_monthlyLimitUsd :: rat
  kb_warningThreshold :: rat
  kb_resetInterval :: interval
  kb_resetTime :: string
  kb_lastBudgetResetAt :: "rat option"
  kb_warningPeriodStart :: "rat option"

definition finite_number :: "(string \<Rightarrow> js_num) \<Rightarrow> js_val \<Rightarrow> rat option" where
  "finite_number number v =
     (case v of
        Num (Fin q) \<Rightarrow> Some q
      | Str s \<Rightarrow> if js_trim s = [] then None else (case number s of Fin q \<Rightarrow> Some q | _ \<Rightarrow> None)
      | _ \<Rightarrow> None)"

definition toNumber :: "(string \<Rightarrow> js_num) \<Rightarrow> js_val \<Rightarrow> rat \<Rightarrow> rat" where
  "toNumber number v fallback = (case finite_number number v of Some q \<Rightarrow> q | None \<Rightarrow> fallback)"

definition normalizeResetInterval :: "js_val \<Rightarrow> interval" where
  "normalizeResetInterval v =
     (case v of
        Str s \<Rightarrow> (let n = toLowerCase (js_trim s) in if n = ''weekly'' then Weekly else if n = ''monthly'' then Monthly else Daily)
      | _ \<Rightarrow> Daily)"

definition normalizeTimestamp :: "(string \<Rightarrow> js_num) \<Rightarrow> js_val \<Rightarrow> rat option" where
  "normalizeTimestamp number v = (case finite_number number v of Some q \<Rightarrow> if q > 0 then Some q else None | None \<Rightarrow> None)"

definition normalizeBudgetConfig :: "(string \<Rightarrow> js_num) \<Rightarrow> raw_budget \<Rightarrow> key_budget" where
  "normalizeBudgetConfig number c =
     \<lparr>kb_dailyLimitUsd = max 0 (toNumber number (rb_daily c) 0),
      kb_weeklyLimitUsd = max 0 (toNumber number (rb_weekly c) 0),
      kb_monthlyLimitUsd = max 0 (toNumber number (rb_monthly c) 0),
      kb_warningThreshold = min (max (toNumber number (rb_warningThreshold c) (8 / 10)) 0) 1,
      kb_resetInterval = normalizeResetInterval (rb_resetInterval c),
      kb_resetTime = normalizeResetTime (case rb_resetTime c of Str s \<Rightarrow> Some s | _ \<Rightarrow> None),
      kb_lastBudgetResetAt = normalizeTimestamp number (rb_lastBudgetResetAt c),
      kb_warningPeriodStart = normalizeTimestamp number (rb_warningPeriodStart c)\<rparr>"

definition getActiveBudgetLimit :: "key_budget \<Rightarrow> rat" where
  "getActiveBudgetLimit b =
     (case kb_resetInterval b of
        Monthly \<Rightarrow> if kb_monthlyLimitUsd b > 0 then kb_monthlyLimitUsd b else kb_dailyLimitUsd b
      | Weekly \<Rightarrow> if kb_weeklyLimitUsd b > 0 then kb_weeklyLimitUsd b else kb_dailyLimitUsd b
      | Daily \<Rightarrow> kb_dailyLimitUsd b)"

section \<open>Operations\<close>

record cost_state =
  budgets :: "(string, key_budget) jmap"
  resetLog :: "(string \<times> rat \<times> int) list"
  warnings :: "(string \<times> int) list"
  spend_writer :: writer
  clock :: int

definition window_of :: "key_budget \<Rightarrow> int \<Rightarrow> budget_window" where
  "window_of b now = getBudgetWindow (kb_resetInterval b) (Some (kb_resetTime b)) now"

definition resetRolled :: "key_budget \<Rightarrow> int \<Rightarrow> bool" where
  "resetRolled b now = (case kb_lastBudgetResetAt b of Some l \<Rightarrow> of_int (periodStartAt (window_of b now)) > l | None \<Rightarrow> False)"

text \<open>
  A configuration from the table has been normalised before: to normalise it again only drops timestamps that are not
  positive. The database row follows the table in memory and is not kept apart.
\<close>

definition positive_timestamp :: "rat option \<Rightarrow> rat option" where
  "positive_timestamp t = (case t of Some q \<Rightarrow> if q > 0 then Some q else None | None \<Rightarrow> None)"

definition renormalize :: "key_budget \<Rightarrow> key_budget" where
  "renormalize b =
     b\<lparr>kb_lastBudgetResetAt := positive_timestamp (kb_lastBudgetResetAt b), kb_warningPeriodStart := positive_timestamp (kb_warningPeriodStart b)\<rparr>"

definition syncBudgetSchedule :: "string \<Rightarrow> key_budget \<Rightarrow> int \<Rightarrow> bool \<Rightarrow> cost_state \<Rightarrow> key_budget \<times> cost_state" where
  "syncBudgetSchedule key b now logReset st =
     (let normalized = renormalize b;
          window = window_of normalized now;
          rolled = resetRolled normalized now;
          updated = normalized\<lparr>kb_lastBudgetResetAt := Some (of_int (periodStartAt window)),
                               kb_warningPeriodStart := (if rolled then None else kb_warningPeriodStart normalized)\<rparr>
      in (updated, st\<lparr>budgets := jset key updated (budgets st),
                      resetLog := (case kb_lastBudgetResetAt normalized of
                          Some l \<Rightarrow> if rolled \<and> logReset
                                    then resetLog st @ [(key, getBudgetWindowRangeTotal key l (periodStartAt window) (spend_writer st), periodStartAt window)]
                                    else resetLog st
                        | None \<Rightarrow> resetLog st)\<rparr>))"

definition setBudget :: "(string \<Rightarrow> js_num) \<Rightarrow> string \<Rightarrow> raw_budget \<Rightarrow> int \<Rightarrow> cost_state \<Rightarrow> key_budget \<times> cost_state" where
  "setBudget number key c now st = syncBudgetSchedule key (normalizeBudgetConfig number c) now False st"

definition getBudget :: "string \<Rightarrow> int \<Rightarrow> cost_state \<Rightarrow> key_budget option \<times> cost_state" where
  "getBudget key now st =
     (case jget (budgets st) key of
        None \<Rightarrow> (None, st)
      | Some b \<Rightarrow> (case syncBudgetSchedule key b now True st of (b', st') \<Rightarrow> (Some b', st')))"

definition deleteBudget :: "string \<Rightarrow> cost_state \<Rightarrow> cost_state" where
  "deleteBudget key st =
     (let w = discardEntries key (spend_writer st)
      in st\<lparr>budgets := jdel key (budgets st),
            resetLog := filter (\<lambda>r. fst r \<noteq> key) (resetLog st),
            spend_writer := w\<lparr>cost_rows := filter (\<lambda>e. ce_key e \<noteq> key) (cost_rows w), recorded := filter_mset (\<lambda>e. ce_key e \<noteq> key) (recorded w)\<rparr>\<rparr>)"

record budget_answer =
  an_allowed :: bool
  an_warningReached :: bool
  an_remaining :: rat
  an_periodUsed :: rat
  an_activeLimitUsd :: rat
  an_window :: "budget_window option"

definition checkBudget :: "string \<Rightarrow> rat \<Rightarrow> int \<Rightarrow> cost_state \<Rightarrow> budget_answer \<times> cost_state" where
  "checkBudget key additionalCost now st =
     (case getBudget key now st of
        (None, st1) \<Rightarrow>
          (\<lparr>an_allowed = True, an_warningReached = False, an_remaining = 0, an_periodUsed = 0, an_activeLimitUsd = 0, an_window = None\<rparr>, st1)
      | (Some b, st1) \<Rightarrow>
          (let window = window_of b now;
               periodUsed = getBudgetWindowTotal key (periodStartAt window) (spend_writer st1);
               projectedTotal = periodUsed + additionalCost;
               limit = getActiveBudgetLimit b;
               warningReached = (limit > 0 \<and> projectedTotal \<ge> limit * kb_warningThreshold b);
               remaining = max (limit - projectedTotal) 0;
               st2 = (if warningReached \<and> kb_warningPeriodStart b \<noteq> Some (of_int (periodStartAt window))
                      then st1\<lparr>budgets := jset key (b\<lparr>kb_warningPeriodStart := Some (of_int (periodStartAt window))\<rparr>) (budgets st1),
                               warnings := warnings st1 @ [(key, periodStartAt window)]\<rparr>
                      else st1);
               over = (limit > 0 \<and> projectedTotal > limit)
           in (\<lparr>an_allowed = (\<not> over), an_warningReached = (over \<or> warningReached), an_remaining = remaining, an_periodUsed = periodUsed,
                 an_activeLimitUsd = limit, an_window = Some window\<rparr>, st2)))"

section \<open>Histories\<close>

datatype cost_event = C_record cost_entry bool | C_flush bool | C_finish | C_check string rat int | C_delete string | C_set string raw_budget int

text \<open>A budget is configured once; editing it forgets that its warning was given.\<close>

inductive cost_step :: "(string \<Rightarrow> js_num) \<Rightarrow> nat \<Rightarrow> cost_event \<Rightarrow> cost_state \<Rightarrow> cost_state \<Rightarrow> bool" for number maxBufferSize where
  C_recorded: "cost_step number maxBufferSize (C_record e throws) st (st\<lparr>spend_writer := increment_cost maxBufferSize throws e (spend_writer st)\<rparr>)"
| C_flushed: "cost_step number maxBufferSize (C_flush throws) st (st\<lparr>spend_writer := flush throws (spend_writer st)\<rparr>)"
| C_finished: "cost_step number maxBufferSize C_finish st (st\<lparr>spend_writer := finish_flush (spend_writer st)\<rparr>)"
| C_checked: "clock st \<le> now \<Longrightarrow> cost_step number maxBufferSize (C_check key usd now) st (snd (checkBudget key usd now st)\<lparr>clock := now\<rparr>)"
| C_deleted: "cost_step number maxBufferSize (C_delete key) st (deleteBudget key st)"
| C_configured: "clock st \<le> now \<Longrightarrow> key \<notin> fst ` set (warnings st) \<Longrightarrow>
     cost_step number maxBufferSize (C_set key c now) st (snd (setBudget number key c now st)\<lparr>clock := now\<rparr>)"

definition start_state :: "int \<Rightarrow> cost_state" where
  "start_state t = \<lparr>budgets = [], resetLog = [], warnings = [],
     spend_writer = \<lparr>buffer = [], inFlightEntries = [], discardedApiKeyIds = {}, flushPromise = F_none, cost_rows = [], recorded = {#}\<rparr>, clock = t\<rparr>"

section \<open>Nothing recorded is lost\<close>

definition writer_inv :: "writer \<Rightarrow> bool" where
  "writer_inv w \<longleftrightarrow>
     mset (cost_rows w) + mset (buffer w) = recorded w \<and>
     (flushPromise w \<noteq> F_running \<longrightarrow> inFlightEntries w = []) \<and> (\<forall>e \<in> set (inFlightEntries w). 0 < ce_cost e) \<and>
     (\<forall>e \<in> set (buffer w). 0 < ce_cost e \<and> ce_key e \<notin> discardedApiKeyIds w)"

lemma writer_inv_recorded: "writer_inv w \<Longrightarrow> mset (cost_rows w) + mset (buffer w) = recorded w"
  by (simp add: writer_inv_def)

lemma flush_inv: "writer_inv w \<Longrightarrow> writer_inv (flush throws w)"
proof -
  assume inv: "writer_inv w"
  have "filter (\<lambda>e. ce_key e \<notin> discardedApiKeyIds w) (buffer w) = buffer w"
    using inv by (simp add: writer_inv_def filter_id_conv)
  then show ?thesis using inv by (auto simp: flush_def writer_inv_def Let_def ac_simps)
qed

lemma finish_inv: "writer_inv w \<Longrightarrow> writer_inv (finish_flush w)"
  by (auto simp: finish_flush_def writer_inv_def)

lemma increment_inv: "writer_inv w \<Longrightarrow> writer_inv (increment_cost n throws e w)"
proof -
  assume "writer_inv w"
  then have "writer_inv (w\<lparr>discardedApiKeyIds := discardedApiKeyIds w - {ce_key e}, buffer := buffer w @ [e], recorded := recorded w + {#e#}\<rparr>)" if "0 < ce_cost e"
    using that by (auto simp: writer_inv_def ac_simps)
  then show ?thesis using \<open>writer_inv w\<close> flush_inv by (auto simp: increment_cost_def Let_def)
qed

lemma delete_inv:
  assumes "writer_inv (spend_writer st)"
  shows "writer_inv (spend_writer (deleteBudget key st))"
proof -
  have "filter_mset (\<lambda>e. ce_key e \<noteq> key) (recorded (spend_writer st)) =
      filter_mset (\<lambda>e. ce_key e \<noteq> key) (mset (cost_rows (spend_writer st))) + filter_mset (\<lambda>e. ce_key e \<noteq> key) (mset (buffer (spend_writer st)))"
    by (simp flip: writer_inv_recorded [OF assms])
  then show ?thesis using assms by (auto simp: deleteBudget_def discardEntries_def writer_inv_def Let_def)
qed

lemma sync_writer: "spend_writer (snd (syncBudgetSchedule key b now lg st)) = spend_writer st" "warnings (snd (syncBudgetSchedule key b now lg st)) = warnings st"
  "clock (snd (syncBudgetSchedule key b now lg st)) = clock st"
  by (simp_all add: syncBudgetSchedule_def Let_def)

lemma check_writer: "spend_writer (snd (checkBudget key usd now st)) = spend_writer st"
  by (cases "jget (budgets st) key") (simp_all add: checkBudget_def getBudget_def syncBudgetSchedule_def Let_def)

text \<open>What a check counts: all that was recorded, and twice what a flush has just inserted.\<close>

definition spend_of :: "string \<Rightarrow> int \<Rightarrow> writer \<Rightarrow> rat" where
  "spend_of key since w = (\<Sum>e\<in>#filter_mset (\<lambda>e. ce_key e = key \<and> since \<le> ce_ts e) (recorded w). ce_cost e)"

lemma sum_list_mset: "sum_list (map f xs) = (\<Sum>x\<in>#mset xs. f x)" for f :: "'a \<Rightarrow> rat"
  by (metis mset_map sum_mset_sum_list)

lemma window_total:
  assumes "writer_inv w"
  shows "spend_of key since w \<le> getBudgetWindowTotal key since w" "flushPromise w \<noteq> F_running \<Longrightarrow> getBudgetWindowTotal key since w = spend_of key since w"
proof -
  let ?P = "\<lambda>e. ce_key e = key \<and> since \<le> ce_ts e"
  have "spend_of key since w = sum_list (map ce_cost (filter ?P (cost_rows w))) + sum_list (map ce_cost (filter ?P (buffer w)))"
    using assms by (simp add: spend_of_def sum_list_mset writer_inv_def flip: writer_inv_recorded [OF assms])
  then have t: "getBudgetWindowTotal key since w = spend_of key since w + sum_list (map ce_cost (filter ?P (inFlightEntries w)))"
    by (simp add: getBudgetWindowTotal_def loadCostTotal_def getPendingCostTotal_def getBufferedEntries_def)
  have "0 \<le> sum_list (map ce_cost (filter ?P (inFlightEntries w)))" using assms by (intro sum_list_nonneg) (auto simp: writer_inv_def less_imp_le)
  then show "spend_of key since w \<le> getBudgetWindowTotal key since w" using t by simp
  show "getBudgetWindowTotal key since w = spend_of key since w" if "flushPromise w \<noteq> F_running" using t that assms by (simp add: writer_inv_def)
qed

section \<open>One warning per period\<close>

definition budget_at :: "(string \<times> int) list \<Rightarrow> int \<Rightarrow> string \<Rightarrow> key_budget \<Rightarrow> bool" where
  "budget_at ws t key b \<longleftrightarrow>
     31 * MS_PER_DAY \<le> t \<and> kb_lastBudgetResetAt b = Some (of_int (periodStartAt (window_of b t))) \<and>
     (\<forall>p. (key, p) \<in> set ws \<longrightarrow>
        p \<le> periodStartAt (window_of b t) \<and> (p = periodStartAt (window_of b t) \<longrightarrow> kb_warningPeriodStart b = Some (of_int p)))"

definition cost_inv :: "cost_state \<Rightarrow> bool" where
  "cost_inv st \<longleftrightarrow>
     writer_inv (spend_writer st) \<and> 31 * MS_PER_DAY \<le> clock st \<and> distinct (warnings st) \<and>
     (\<forall>key b. jget (budgets st) key = Some b \<longrightarrow> (\<exists>t \<le> clock st. budget_at (warnings st) t key b))"

lemma window_of_renormalize [simp]: "window_of (renormalize b) now = window_of b now"
  by (simp add: window_of_def renormalize_def)

lemma window_of_marks [simp]:
  "window_of (b\<lparr>kb_lastBudgetResetAt := l, kb_warningPeriodStart := p\<rparr>) now = window_of b now"
  "window_of (b\<lparr>kb_warningPeriodStart := p\<rparr>) now = window_of b now"
  "window_of (b\<lparr>kb_lastBudgetResetAt := l\<rparr>) now = window_of b now"
  by (simp_all add: window_of_def)

lemma window_start_pos: "31 * MS_PER_DAY \<le> t \<Longrightarrow> 0 < periodStartAt (window_of b t)"
  using window_start_recent [of t] by (simp add: window_of_def) (smt (verit))

lemma renormalize_marks:
  "(renormalize b)\<lparr>kb_lastBudgetResetAt := l, kb_warningPeriodStart := p\<rparr> = b\<lparr>kb_lastBudgetResetAt := l, kb_warningPeriodStart := p\<rparr>"
  "kb_warningPeriodStart (renormalize b) = positive_timestamp (kb_warningPeriodStart b)"
  "kb_lastBudgetResetAt (renormalize b) = positive_timestamp (kb_lastBudgetResetAt b)"
  by (simp_all add: renormalize_def)

lemma sync_fields:
  "fst (syncBudgetSchedule key b now lg st) =
     b\<lparr>kb_lastBudgetResetAt := Some (of_int (periodStartAt (window_of b now))),
       kb_warningPeriodStart := (if resetRolled (renormalize b) now then None else positive_timestamp (kb_warningPeriodStart b))\<rparr>"
  "budgets (snd (syncBudgetSchedule key b now lg st)) = jset key (fst (syncBudgetSchedule key b now lg st)) (budgets st)"
  by (simp_all only: syncBudgetSchedule_def Let_def renormalize_marks window_of_renormalize fst_conv snd_conv) simp

lemma sync_at:
  assumes "budget_at ws t key b" "t \<le> now"
  shows "budget_at ws now key (fst (syncBudgetSchedule key b now lg st))"
proof -
  let ?S = "\<lambda>t. periodStartAt (window_of b t)"
  have pos: "0 < ?S t" using assms(1) window_start_pos by (simp add: budget_at_def)
  have mono: "?S t \<le> ?S now" using assms(2) window_start_mono by (simp add: window_of_def)
  have rolled: "resetRolled (renormalize b) now \<longleftrightarrow> ?S t < ?S now"
    using assms(1) pos by (simp add: resetRolled_def renormalize_marks budget_at_def positive_timestamp_def)
  have at: "p \<le> ?S now \<and> (p = ?S now \<longrightarrow> \<not> ?S t < ?S now \<and> kb_warningPeriodStart b = Some (of_int p) \<and> 0 < p)" if "(key, p) \<in> set ws" for p
    using assms(1) mono pos that by (fastforce simp: budget_at_def)
  show ?thesis
    using assms at by (simp add: budget_at_def sync_fields(1) rolled positive_timestamp_def)
qed

lemma check_cases:
  "checkBudget key usd now st = (\<lparr>an_allowed = True, an_warningReached = False, an_remaining = 0, an_periodUsed = 0, an_activeLimitUsd = 0, an_window = None\<rparr>, st)"
  if "jget (budgets st) key = None"
  using that by (simp add: checkBudget_def getBudget_def)

lemma key_check_state:
  assumes "jget (budgets st) key = Some b" "syncBudgetSchedule key b now True st = (b', st1)"
  shows "snd (checkBudget key usd now st) = st1 \<or>
    kb_warningPeriodStart b' \<noteq> Some (of_int (periodStartAt (window_of b' now))) \<and>
    snd (checkBudget key usd now st) = st1\<lparr>budgets := jset key (b'\<lparr>kb_warningPeriodStart := Some (of_int (periodStartAt (window_of b' now)))\<rparr>) (budgets st1),
       warnings := warnings st1 @ [(key, periodStartAt (window_of b' now))]\<rparr>"
  using assms by (simp add: checkBudget_def getBudget_def Let_def)

lemma budget_at_other: "budget_at ws t k b \<Longrightarrow> k \<noteq> key \<Longrightarrow> budget_at (ws @ [(key, p)]) t k b"
  by (simp add: budget_at_def)

lemma cost_inv_sync:
  assumes "cost_inv st" "clock st \<le> now" "budget_at (warnings st) now key (fst (syncBudgetSchedule key b now lg st))"
  shows "cost_inv (snd (syncBudgetSchedule key b now lg st)\<lparr>clock := now\<rparr>)"
  using assms by (auto simp: cost_inv_def sync_writer sync_fields(2)) (meson order_trans)

lemma cost_inv_warn:
  assumes "cost_inv st" "jget (budgets st) key = Some b" "budget_at (warnings st) (clock st) key b" "s = periodStartAt (window_of b (clock st))"
    "kb_warningPeriodStart b \<noteq> Some (of_int s)"
  shows "cost_inv (st\<lparr>budgets := jset key (b\<lparr>kb_warningPeriodStart := Some (of_int s)\<rparr>) (budgets st), warnings := warnings st @ [(key, s)]\<rparr>)"
proof -
  have "(key, s) \<notin> set (warnings st)" using assms by (auto simp: budget_at_def)
  moreover have "budget_at (warnings st @ [(key, s)]) (clock st) key (b\<lparr>kb_warningPeriodStart := Some (of_int s)\<rparr>)"
    using assms(3,4) by (auto simp: budget_at_def)
  ultimately show ?thesis using assms(1) by (auto simp: cost_inv_def) (meson budget_at_other)
qed

lemma cost_inv_check:
  assumes "cost_inv st" "clock st \<le> now"
  shows "cost_inv (snd (checkBudget key usd now st)\<lparr>clock := now\<rparr>)"
proof (cases "jget (budgets st) key")
  case None
  then show ?thesis using assms by (auto simp: check_cases cost_inv_def) (meson order_trans)
next
  case (Some b)
  obtain b' st1 where sy: "syncBudgetSchedule key b now True st = (b', st1)" by fastforce
  have at: "budget_at (warnings st) now key b'"
    using assms Some sync_at [of "warnings st" _ key b now True st] sy by (force simp: cost_inv_def)
  have inv: "cost_inv (st1\<lparr>clock := now\<rparr>)" using cost_inv_sync [OF assms, of key b True] at sy by simp
  have st1: "jget (budgets st1) key = Some b'" "warnings st1 = warnings st"
    using sync_fields(2) [of key b now True st] sync_writer(2) [of key b now True st] sy by simp_all
  have eq: "st1\<lparr>budgets := x, warnings := y, clock := now\<rparr> = st1\<lparr>clock := now, budgets := x, warnings := y\<rparr>" for x y by simp
  show ?thesis using key_check_state [OF Some sy, of usd] inv cost_inv_warn [OF inv, of key b'] at st1 by (auto simp: eq)
qed

lemma cost_inv_set:
  assumes "cost_inv st" "clock st \<le> now" "key \<notin> fst ` set (warnings st)"
  shows "cost_inv (snd (setBudget number key c now st)\<lparr>clock := now\<rparr>)"
  unfolding setBudget_def
  by (rule cost_inv_sync) (use assms in \<open>auto simp: budget_at_def sync_fields(1) cost_inv_def image_iff\<close>)

lemma cost_inv_delete: "cost_inv st \<Longrightarrow> cost_inv (deleteBudget key st)"
proof -
  assume "cost_inv st"
  moreover have "budgets (deleteBudget key st) = jdel key (budgets st)" "clock (deleteBudget key st) = clock st" "warnings (deleteBudget key st) = warnings st"
    by (simp_all add: deleteBudget_def Let_def)
  ultimately show ?thesis using delete_inv by (simp add: cost_inv_def)
qed

lemma cost_step_inv: "cost_step number n e st st' \<Longrightarrow> cost_inv st \<Longrightarrow> cost_inv st'"
proof (induction rule: cost_step.induct)
  case (C_recorded e throws st)
  then show ?case using increment_inv by (simp add: cost_inv_def)
next
  case (C_flushed throws st)
  then show ?case using flush_inv by (simp add: cost_inv_def)
next
  case (C_finished st)
  then show ?case using finish_inv by (simp add: cost_inv_def)
qed (auto intro: cost_inv_check cost_inv_delete cost_inv_set)

interpretation cost: step_system "cost_step number n" cost_inv
  by unfold_locales (rule cost_step_inv)

lemma start_inv: "31 * MS_PER_DAY \<le> t \<Longrightarrow> cost_inv (start_state t)"
  by (simp add: cost_inv_def start_state_def writer_inv_def)

section \<open>A failed insertion\<close>

text \<open>
  Once one insertion has failed, the stored promise stays settled and no later flush inserts anything: costs pile up in the buffer and
  are lost when the process ends.
\<close>

lemma settled_step:
  "cost_step number n e st st' \<Longrightarrow> flushPromise (spend_writer st) = F_settled \<Longrightarrow>
   flushPromise (spend_writer st') = F_settled \<and> set (cost_rows (spend_writer st')) \<subseteq> set (cost_rows (spend_writer st))"
  by (induction rule: cost_step.induct)
    (auto simp: increment_cost_def flush_def finish_flush_def deleteBudget_def discardEntries_def setBudget_def Let_def check_writer sync_writer)

lemma failed_flush_settles:
  "flushPromise w = F_none \<Longrightarrow> buffer w \<noteq> [] \<Longrightarrow> flushPromise (flush True w) = F_settled"
  by (simp add: flush_def Let_def)

lemma settled_forever:
  "reaches (cost_step number n) st st' \<Longrightarrow> flushPromise (spend_writer st) = F_settled \<Longrightarrow>
   flushPromise (spend_writer st') = F_settled \<and> set (cost_rows (spend_writer st')) \<subseteq> set (cost_rows (spend_writer st))"
proof (induction rule: reaches.induct)
  case (reaches_event s s' e s'')
  then show ?case using settled_step by blast
qed simp

section \<open>Property\<close>

lemma getActiveBudgetLimit_marks: "getActiveBudgetLimit (b\<lparr>kb_lastBudgetResetAt := l, kb_warningPeriodStart := p\<rparr>) = getActiveBudgetLimit b"
  by (cases "kb_resetInterval b") (simp_all add: getActiveBudgetLimit_def)

lemma check_answer:
  assumes "jget (budgets st) key = Some b" "checkBudget key usd now st = (a, st')" "s = periodStartAt (window_of b now)"
  shows "an_periodUsed a = getBudgetWindowTotal key s (spend_writer st) \<and>
         (an_allowed a \<longleftrightarrow> getActiveBudgetLimit b \<le> 0 \<or> an_periodUsed a + usd \<le> getActiveBudgetLimit b)"
proof -
  obtain b' st1 where sy: "syncBudgetSchedule key b now True st = (b', st1)" by fastforce
  have "window_of b' now = window_of b now" "getActiveBudgetLimit b' = getActiveBudgetLimit b"
    using sync_fields(1) [of key b now True st] sy by (simp_all add: getActiveBudgetLimit_marks)
  moreover have "spend_writer st1 = spend_writer st" using sync_writer(1) [of key b now True st] sy by simp
  ultimately show ?thesis using assms sy by (auto simp: checkBudget_def getBudget_def Let_def)
qed

text \<open>
  C40. What the budget of a key guards. After any history of recorded costs, flushes (failing ones too), checks, deletions and
  configurations, a check counts all spend of the key since the reset before it, exactly when no flush is between its insertion and
  its continuation and never less; it admits a request if and only if there is no limit or the counted spend with the request stays
  within it, so an admitted request never takes the recorded spend over the limit. Every key is warned at most once in a period,
  however often it is checked. The clock does not go back and is later than January 1970.
\<close>

theorem key_budget_guard:
  assumes "31 * MS_PER_DAY \<le> t" "reaches (cost_step number n) (start_state t) st" "clock st \<le> now"
    and "jget (budgets st) key = Some b" "checkBudget key usd now st = (a, st')"
    and "s = periodStartAt (window_of b now)" "limit = getActiveBudgetLimit b"
  shows "spend_of key s (spend_writer st) \<le> an_periodUsed a \<and>
         (flushPromise (spend_writer st) \<noteq> F_running \<longrightarrow> an_periodUsed a = spend_of key s (spend_writer st)) \<and>
         (an_allowed a \<longleftrightarrow> limit \<le> 0 \<or> an_periodUsed a + usd \<le> limit) \<and>
         (an_allowed a \<and> 0 < limit \<longrightarrow> spend_of key s (spend_writer st) + usd \<le> limit) \<and>
         distinct (warnings st')"
proof -
  have inv: "cost_inv st" using cost.reaches_inv [OF assms(2)] start_inv assms(1) by blast
  then have w: "writer_inv (spend_writer st)" by (simp add: cost_inv_def)
  have "distinct (warnings st')" using cost_inv_check [OF inv assms(3), of key usd] assms(5) by (simp add: cost_inv_def)
  then show ?thesis using check_answer [OF assms(4,5,6)] window_total [OF w, of key s] assms(7) by auto
qed

definition demo_raw :: raw_budget where
  "demo_raw = \<lparr>rb_daily = Num (Fin 10), rb_weekly = Undefined, rb_monthly = Undefined, rb_warningThreshold = Undefined, rb_resetInterval = Undefined,
     rb_resetTime = Undefined, rb_lastBudgetResetAt = Undefined, rb_warningPeriodStart = Undefined\<rparr>"

definition demo_configured :: cost_state where
  "demo_configured = snd (setBudget (\<lambda>_. NaN) ''k'' demo_raw 951800000000 (start_state 951800000000))\<lparr>clock := 951800000000\<rparr>"

definition demo_key_recorded :: cost_state where
  "demo_key_recorded = demo_configured\<lparr>spend_writer := increment_cost 1 False \<lparr>ce_key = ''k'', ce_cost = 8, ce_ts = 951800000000\<rparr> (spend_writer demo_configured)\<rparr>"

definition demo_state :: cost_state where
  "demo_state = demo_key_recorded\<lparr>spend_writer := finish_flush (spend_writer demo_key_recorded)\<rparr>"

definition demo_key_budget :: key_budget where
  "demo_key_budget = the (jget (budgets demo_state) ''k'')"

lemma demo_reaches: "reaches (cost_step (\<lambda>_. NaN) 1) (start_state 951800000000) demo_state"
proof -
  let ?step = "cost_step (\<lambda>_. NaN) 1"
  have "reaches ?step (start_state 951800000000) demo_configured" unfolding demo_configured_def
    by (rule reaches_one [where step = ?step]) (rule C_configured; simp add: start_state_def)
  then have "reaches ?step (start_state 951800000000) demo_key_recorded" unfolding demo_key_recorded_def
    by (rule reaches_more [where step = ?step]) (rule C_recorded)
  then show ?thesis unfolding demo_state_def by (rule reaches_more [where step = ?step]) (rule C_finished)
qed

lemma demo_run:
  "clock demo_state = 951800000000" "jget (budgets demo_state) ''k'' = Some demo_key_budget"
  "flushPromise (spend_writer demo_state) = F_none" "getActiveBudgetLimit demo_key_budget = 10" "31 * MS_PER_DAY \<le> 951800000000"
  "periodStartAt (window_of demo_key_budget 951800001000) = 951782400000"
  "an_periodUsed (fst (checkBudget ''k'' 2 951800001000 demo_state)) = 8"
  "warnings (snd (checkBudget ''k'' 2 951800001000 demo_state)) = [(''k'', 951782400000)]"
  by code_simp+

theorem key_budget_guard_witness:
  "spend_of ''k'' 951782400000 (spend_writer demo_state) = 8 \<and> an_allowed (fst (checkBudget ''k'' 2 951800001000 demo_state)) \<and>
   warnings (snd (checkBudget ''k'' 2 951800001000 demo_state)) = [(''k'', 951782400000)]"
  using key_budget_guard [OF demo_run(5) demo_reaches _ demo_run(2) prod.collapse [symmetric] demo_run(6) [symmetric] demo_run(4) [symmetric], of 2] demo_run
  by simp

end
