(* ===== verification/Spec2Isabelle.thy ===== *)
theory Spec2Isabelle
  imports Admission_Guarantees Circuit_Breaker Rate_Limit_Semaphore Account_Semaphore Rolling_Gate Quota_Share Fair_Share Lockout_Policy Ip_Filter Admission_Runtime
    Combo_Steps Combo_Structure Combo_Selection Media_Parts Combo_Compat Combo_Attempts Failure_Tracker Session_Stickiness
    Budget_Window Budget_Engine Cost_Rules
begin

text \<open>
  Verification library for red-router, an LLM gateway that accepts chat requests, decides whether and when
  they may run, picks an upstream account, and forwards them. The library models the part of the gateway
  that makes these decisions: everything that counts, bounds, queues, blocks, rates and releases.

  \<^bold>\<open>The program.\<close> A request arriving at the gateway passes the \<^emph>\<open>address filter\<close> (\<^verbatim>\<open>ipFilter.ts\<close>) and, where
  it logs in, the \<^emph>\<open>lockout policy\<close> (\<^verbatim>\<open>lockoutPolicy.ts\<close>). It then meets the \<^emph>\<open>admission runtime\<close>
  (\<^verbatim>\<open>open-sse/services/admission/runtime.ts\<close>). It asks the \<^emph>\<open>pressure guard\<close> (\<^verbatim>\<open>open-sse/utils/resourcePressure.ts\<close>)
  whether the process is critically short of memory, derives cost features from the body
  (\<^verbatim>\<open>requestFeatures.ts\<close>, \<^verbatim>\<open>estimateSize.ts\<close>), and acquires a lease from the \<^emph>\<open>adaptive admission controller\<close>
  (\<^verbatim>\<open>controller.ts\<close> with \<^verbatim>\<open>cost.ts\<close>, \<^verbatim>\<open>adaptation.ts\<close>, \<^verbatim>\<open>config.ts\<close>, \<^verbatim>\<open>queue.ts\<close>). The lease is returned when the
  response has been delivered, has failed or was cancelled. The model a request names may be a \<^emph>\<open>combo\<close>, a named
  list of targets that may refer to further combos: its stored steps (\<^verbatim>\<open>src/lib/combos/steps.ts\<close>) are expanded to
  targets and ordered by the combo's strategy (\<^verbatim>\<open>combo/comboStructure.ts\<close>, \<^verbatim>\<open>rrState.ts\<close>, \<^verbatim>\<open>targetSorters.ts\<close>), and those
  that cannot serve the request are taken out (\<^verbatim>\<open>mediaParts.ts\<close>, \<^verbatim>\<open>contextOverrideGate.ts\<close>, \<^verbatim>\<open>comboCompatFallback.ts\<close>). The
  rest are attempted in turn (\<^verbatim>\<open>comboAttemptLoop.ts\<close>), with waits for short cooldowns.
  On the way to an upstream account the request passes the \<^emph>\<open>quota decision\<close> of its pool (\<^verbatim>\<open>fairShare.ts\<close>), the \<^emph>\<open>quota-share\<close> selection among the accounts of
  a combo (\<^verbatim>\<open>quotaShareStrategy.ts\<close>, \<^verbatim>\<open>quotaShareInflight.ts\<close>, over the saturation marks of \<^verbatim>\<open>accountBuckets.ts\<close>
  kept in a \<^verbatim>\<open>boundedMap.ts\<close>), the \<^emph>\<open>rolling rate gate\<close> (\<^verbatim>\<open>rollingRpmGate.ts\<close> over \<^verbatim>\<open>slidingWindowLimiter.ts\<close>), the
  concurrency limiters (\<^verbatim>\<open>accountSemaphore.ts\<close>, \<^verbatim>\<open>rateLimitSemaphore.ts\<close>) and the \<^emph>\<open>circuit breaker\<close> of the
  provider (\<^verbatim>\<open>src/shared/utils/circuitBreaker.ts\<close>).

  \<^bold>\<open>The theories.\<close>

  \<^item> \<^verbatim>\<open>Js_Prelude\<close>: JavaScript values and numbers, strings, exceptions as sums, the insertion-ordered map with
    its interface \<^verbatim>\<open>js_map\<close>, and shared list lemmas.
  \<^item> \<^verbatim>\<open>Js_Json\<close>: parsed JSON values, as request bodies and stored configuration reach the code.
  \<^item> \<^verbatim>\<open>Step_Systems\<close>: histories of events as the reachability relation \<^verbatim>\<open>reaches\<close>, with the locales
    \<^verbatim>\<open>step_system\<close> (an invariant kept by every step) and \<^verbatim>\<open>monotone_system\<close> (a preorder along which steps move).
    Every stateful component below interprets one of them.
  \<^item> \<^verbatim>\<open>Admission_Cost\<close> (\<^verbatim>\<open>types.ts\<close>, \<^verbatim>\<open>cost.ts\<close>): validation of cost quanta and the capped estimate; the loop with
    its early exit is the capped sum.
  \<^item> \<^verbatim>\<open>Admission_Adaptation\<close> (\<^verbatim>\<open>adaptation.ts\<close>): the feedback window; the limit stays in range, grows by at most a
    step per window, recovers from idleness, and the utilisation integral is exact.
  \<^item> \<^verbatim>\<open>Admission_Config\<close> (\<^verbatim>\<open>config.ts\<close>): what the validator accepts is well formed, for every input.
  \<^item> \<^verbatim>\<open>Fair_Cost_Queue\<close> (\<^verbatim>\<open>queue.ts\<close>): first-in first-out per tenant, bounded overtaking, exact removal and draining.
  \<^item> \<^verbatim>\<open>Admission_Controller\<close> (\<^verbatim>\<open>controller.ts\<close>), \<^verbatim>\<open>Admission_Safety\<close> (its invariants) and
    \<^verbatim>\<open>Admission_Guarantees\<close> (its promises): the budget is respected along every history, every waiter is settled
    exactly once, nobody who fits is left waiting, releases count once, shutdown is final.
  \<^item> \<^verbatim>\<open>Pressure_Policy\<close> (\<^verbatim>\<open>resourcePressurePolicy.ts\<close>) and \<^verbatim>\<open>Pressure_Guard\<close> (\<^verbatim>\<open>resourcePressure.ts\<close>,
    \<^verbatim>\<open>heapPressure.ts\<close>): severity changes, rejections and self-restarts happen only for the documented reasons,
    and observation does not stop while pressure lasts.
  \<^item> \<^verbatim>\<open>Request_Features\<close> (\<^verbatim>\<open>estimateSize.ts\<close>, \<^verbatim>\<open>requestFeatures.ts\<close>): the budgeted walk is the exact size, or the
    request is charged the maximum.
  \<^item> \<^verbatim>\<open>Admission_Runtime\<close> (\<^verbatim>\<open>runtime.ts\<close>): composition of guard and controller; the facade refines the controller,
    a stream returns its lease exactly once, and creation succeeds in every environment.
  \<^item> \<^verbatim>\<open>Circuit_Breaker\<close> (\<^verbatim>\<open>circuitBreaker.ts\<close>): the four-state machine, probes, back-off, persistence, registry.
  \<^item> \<^verbatim>\<open>Rate_Limit_Semaphore\<close> and \<^verbatim>\<open>Account_Semaphore\<close>: slots never exceed the limit; waiters are served in order and
    without lost wake-ups.
  \<^item> \<^verbatim>\<open>Sliding_Window\<close> and its client \<^verbatim>\<open>Rolling_Gate\<close>: no trailing window holds more than its rate, for the limiter
    alone and for the gate with its blocks and learned windows; a bounded wait ends.
  \<^item> \<^verbatim>\<open>Bounded_Map\<close> (with the locale \<^verbatim>\<open>protecting_store\<close> its clients rely on) and its client \<^verbatim>\<open>Quota_Buckets\<close>: the cap, and marks that stay until their reset.
  \<^item> \<^verbatim>\<open>Quota_Share\<close>: deficit round robin follows the weights without drift; no gate loses a target.
  \<^item> \<^verbatim>\<open>Fair_Share\<close>: the exact condition under which a pool admits a key.
  \<^item> \<^verbatim>\<open>Lockout_Policy\<close> (\<^verbatim>\<open>src/domain/lockoutPolicy.ts\<close> with its database rows): a lockout holds to its end, also across
    restarts, and is always justified by the failed attempts.
  \<^item> \<^verbatim>\<open>Ip_Filter\<close> (\<^verbatim>\<open>open-sse/services/ipFilter.ts\<close>): CIDR matching on 32-bit words is agreement of leading bits (with
    the exception of length 0), decimal addresses are read back, and a ban holds to its end.
  \<^item> \<^verbatim>\<open>Combo_Steps\<close> (\<^verbatim>\<open>src/lib/combos/steps.ts\<close>): what an administrator may write is brought into three kinds of
    steps; stored steps are read back unchanged.
  \<^item> \<^verbatim>\<open>Combo_Structure\<close> (\<^verbatim>\<open>combo/comboStructure.ts\<close>, first half): expansion of nested combos. The validation of the graph
    of combos is exact, and the expansion of a validated combo, with its depth limit and visited names, refines the
    inductive expansion without limits.
  \<^item> \<^verbatim>\<open>Combo_Selection\<close> (\<^verbatim>\<open>rrState.ts\<close>, \<^verbatim>\<open>targetSorters.ts\<close>, parts of \<^verbatim>\<open>roundRobinCombo.ts\<close>, \<^verbatim>\<open>targetResolution.ts\<close> and
    \<^verbatim>\<open>comboStructure.ts\<close>): round robin serves exact blocks, the weighted draw follows the weights and its list of attempts
    is complete, the orders by a criterion are stable sorts.
  \<^item> \<^verbatim>\<open>Media_Parts\<close> (\<^verbatim>\<open>mediaParts.ts\<close>): the early exit agrees with the full traversal, reported places are right.
  \<^item> \<^verbatim>\<open>Combo_Compat\<close> (\<^verbatim>\<open>comboStructure.ts\<close>, second half, \<^verbatim>\<open>contextOverrideGate.ts\<close>, \<^verbatim>\<open>comboCompatFallback.ts\<close>): images only
    reach targets with confirmed vision, nothing compatible is lost, an empty pool is explained.
  \<^item> \<^verbatim>\<open>Combo_Attempts\<close> (\<^verbatim>\<open>comboAttemptLoop.ts\<close>, \<^verbatim>\<open>comboCooldownRetry.ts\<close>, \<^verbatim>\<open>comboErrorAggregation.ts\<close>): the loop over targets,
    set retries and cooldown waits, for any behaviour of the targets; waits and launches are bounded, only transient
    reasons are waited for, and the status of a failed combo is determined by its failures.
  \<^item> \<^verbatim>\<open>Evicting_Store\<close> (the loop \<^verbatim>\<open>evict\<close> of the two tables below, with the locale \<^verbatim>\<open>evicting\<close> both interpret),
    \<^verbatim>\<open>Failure_Tracker\<close> (\<^verbatim>\<open>failureTracker.ts\<close>): the counts refine an ideal counter of streaks; and \<^verbatim>\<open>Session_Stickiness\<close>
    (\<^verbatim>\<open>sessionStickiness.ts\<close>): pins are justified in every interleaving, and a conversation stays on its connection.
  \<^item> \<^verbatim>\<open>Budget_Window\<close> (\<^verbatim>\<open>src/domain/budgetWindow.ts\<close>, over the calendar of \<^verbatim>\<open>Date\<close>): windows partition time; and \<^verbatim>\<open>Budget_Engine\<close>
    (\<^verbatim>\<open>budgetEngine.ts\<close>, \<^verbatim>\<open>budgets.ts\<close>, \<^verbatim>\<open>budgetReservations.ts\<close>, \<^verbatim>\<open>meteredBudgetPolicy.ts\<close>): with reservations, no interleaving
    overspends a blocking budget within a window, and the strictest budget decides.
  \<^item> \<^verbatim>\<open>Cost_Rules\<close> (\<^verbatim>\<open>costRules.ts\<close>, \<^verbatim>\<open>batchWriter.ts\<close>): the budget of a key counts all spend of its period, buffered or
    written, admits within the limit and warns once a period; after one failed insertion the writer never writes again.

  \<^bold>\<open>How code becomes definitions.\<close> A class or module is a record of its fields and one function per method or
  handler, with the same guards in the same order. JavaScript runs one event at a time, so callbacks,
  timers, settled promises and abort signals are events of a step relation; a promise given to a caller is
  an entry of a log or a ticket in the state. Exceptions are values of a sum or result type. Every
  operation reads the clock once, where the code reads it several times within one synchronous run.
  Numbers are exact: integers for counts and times, rationals where the code divides; the rounding of
  floating point is not modelled, and saturation at \<^verbatim>\<open>MAX_SAFE_INTEGER\<close> is, where the code does it. What
  comes from outside the sources is an argument: the clock, the results of \<^verbatim>\<open>Date.parse\<close> and \<^verbatim>\<open>Number\<close>, the
  sampled resource signals, the database rows, \<^verbatim>\<open>isIP\<close> of Node, random numbers; and so are the lookups in the model
  catalogue (the provider of a model string, capabilities, prices, visibility), which are data. Database writes succeed,
  except in the lockout policy and the address filter, where an operation says whether they do. Request bodies are JSON trees.
  Ghost fields (the grant log of the sliding window, the settled samples and exits of the guard, the
  releases of the runtime) record history for the statements and are never read by the modelled code.

  \<^bold>\<open>Termination.\<close> No definition uses fuel. Loops whose recursion is not structural have a measure: the number of
  waiting entries (dispatch, drain), the remaining work of the stack (size estimator), the depth left (expansion and
  validation of combos), the tiers not yet visited, the cooldown waits left, the entries of a table above its cap. The one loop that
  waits, \<^verbatim>\<open>acquire\<close> of the rolling gate, is a recursion over its wake-ups, and the theorem says that as many
  wake-ups as the wait has milliseconds are enough.

  \<^bold>\<open>Hypotheses worth knowing.\<close> Histories have a clock that does not run backwards. The window theorems assume
  at most \<^verbatim>\<open>MAX_KEYS\<close> distinct keys (above it the limiter evicts live windows) and fixed rates, and leave out
  \<^verbatim>\<open>reset\<close>. The semaphore theorems leave out the administrative reset, which breaks them (see the lemma
  \<^verbatim>\<open>reset_exceeds_limit\<close>). The enforce budget is stated for histories without reconfiguration, and
  separately bounded across reconfigurations.

  \<^bold>\<open>Not modelled.\<close> The dashboard and API routes, the database layer, provider executors, format translators,
  stream rewriting, prompt compression, OAuth and quota fetchers, MCP and plugins: these are I/O, glue,
  data tables or third-party interfaces. Of the decision logic, still to come: the parsers of the resource
  sampler, quota-share queueing, the overlapping attempts of hedged combos, the cost ledger and
  summaries of \<^verbatim>\<open>costRules.ts\<close>, and account fallback.
\<close>

end
